(* ===== verification/Prelude.thy ===== *)
theory Prelude
  imports Main "HOL-Library.Word"
begin

text \<open>
  Shared vocabulary of the development: machine bytes, the error type of
  \<^verbatim>\<open>laurus/src/error.rs\<close>, fallible results, little-endian integers, and the generic list
  facts that several components use. Three collections of facts carry the component proofs:
  \<open>res_simps\<close> evaluates sequences of fallible steps, \<open>byte_simps\<close> evaluates encodings, and
  \<open>frame_simps\<close> holds what an operation leaves unchanged.
\<close>

named_theorems res_simps \<open>evaluation of sequences of fallible steps\<close>
named_theorems byte_simps \<open>evaluation of byte encodings\<close>
named_theorems frame_simps \<open>what an operation leaves unchanged\<close>

section \<open>Types of the source\<close>

type_synonym u8 = "8 word"
type_synonym u64 = "64 word"
type_synonym bytes = "u8 list"

text \<open>
  \<open>LaurusError\<close>, with the constructors of the source. An error that the source wraps from another
  crate carries its message only.
\<close>

datatype laurus_error =
    Io string
  | Index string
  | Schema string
  | Analysis string
  | Query string
  | Storage string
  | Field string
  | InvalidArgument string
  | BenchmarkFailed string
  | ThreadJoinError string
  | OperationCancelled string
  | InvalidOperation string
  | ResourceExhausted string
  | SerializationError string
  | NotImplemented string
  | IncompatibleFormat string
  | WritesStopped string
  | BatchIngest nat string nat laurus_error
  | Json string
  | Other string
  | Anyhow string

type_synonym 'a res = "laurus_error + 'a"

section \<open>Fallible steps\<close>

definition ok :: "'a res \<Rightarrow> bool" where
  "ok r \<longleftrightarrow> (case r of Inl _ \<Rightarrow> False | Inr _ \<Rightarrow> True)"

lemma ok_simps [simp, res_simps]: "ok (Inr x)" "\<not> ok (Inl e)"
  by (simp_all add: ok_def)

lemma ok_iff: "ok r \<longleftrightarrow> (\<exists>x. r = Inr x)"
  by (cases r) auto

text \<open>The \<open>?\<close> operator of the source: the first error ends the sequence.\<close>

definition rbind :: "'a res \<Rightarrow> ('a \<Rightarrow> 'b res) \<Rightarrow> 'b res" where
  "rbind r f = (case r of Inl e \<Rightarrow> Inl e | Inr x \<Rightarrow> f x)"

lemma rbind_simps [simp, res_simps]: "rbind (Inr x) f = f x" "rbind (Inl e) f = Inl e"
  by (simp_all add: rbind_def)

lemma rbind_Inr_iff: "rbind r f = Inr y \<longleftrightarrow> (\<exists>x. r = Inr x \<and> f x = Inr y)"
  by (cases r) auto

text \<open>A fallible function over a list, which stops at the first failure.\<close>

fun rmap :: "('a \<Rightarrow> 'b res) \<Rightarrow> 'a list \<Rightarrow> 'b list res" where
  "rmap f [] = Inr []"
| "rmap f (x # xs) = rbind (f x) (\<lambda>y. rbind (rmap f xs) (\<lambda>ys. Inr (y # ys)))"

text \<open>When the function is partial with one error, the whole list succeeds or ends in that error.\<close>

lemma rmap_partial:
  assumes "\<And>x. f x = (case g x of None \<Rightarrow> Inl e | Some y \<Rightarrow> Inr (h x y))"
  shows "rmap f xs =
    (if \<forall>x \<in> set xs. g x \<noteq> None then Inr (map (\<lambda>x. h x (the (g x))) xs) else Inl e)"
  by (induction xs) (auto simp: assms split: option.splits)

section \<open>Operations on a state\<close>

text \<open>
  An operation of the source that takes \<open>&mut self\<close> and returns a \<open>Result\<close>: a function from a state
  to a result and the state it leaves, on the error path too. \<open>sbind\<close> is the sequence of two with
  the \<open>?\<close> operator between them, and \<open>post m s Q\<close> says that \<open>Q\<close> holds of what \<open>m\<close> returns and leaves.
\<close>

type_synonym ('s, 'a) io = "'s \<Rightarrow> 'a res \<times> 's"

definition ret :: "'a \<Rightarrow> ('s, 'a) io" where
  "ret x s = (Inr x, s)"

definition fail :: "laurus_error \<Rightarrow> ('s, 'a) io" where
  "fail e s = (Inl e, s)"

definition modify :: "('s \<Rightarrow> 's) \<Rightarrow> ('s, unit) io" where
  "modify f s = (Inr (), f s)"

definition sbind :: "('s, 'a) io \<Rightarrow> ('a \<Rightarrow> ('s, 'b) io) \<Rightarrow> ('s, 'b) io" where
  "sbind m f s = (case m s of (Inl e, s') \<Rightarrow> (Inl e, s') | (Inr x, s') \<Rightarrow> f x s')"

definition post :: "('s, 'a) io \<Rightarrow> 's \<Rightarrow> ('a res \<Rightarrow> 's \<Rightarrow> bool) \<Rightarrow> bool" where
  "post m s Q = (case m s of (r, s') \<Rightarrow> Q r s')"

named_theorems post_simps \<open>what the sequencing of operations establishes\<close>

lemma post_ret [post_simps]: "post (ret x) s Q = Q (Inr x) s"
  by (simp add: post_def ret_def)

lemma post_fail [post_simps]: "post (fail e) s Q = Q (Inl e) s"
  by (simp add: post_def fail_def)

lemma post_modify [post_simps]: "post (modify f) s Q = Q (Inr ()) (f s)"
  by (simp add: post_def modify_def)

lemma post_sbind [post_simps]:
  "post (sbind m f) s Q =
   post m s (\<lambda>r s'. case r of Inl e \<Rightarrow> Q (Inl e) s' | Inr x \<Rightarrow> post (f x) s' Q)"
  by (auto simp: post_def sbind_def split: prod.splits sum.splits)

lemma post_mono: "post m s P \<Longrightarrow> (\<And>r s'. P r s' \<Longrightarrow> Q r s') \<Longrightarrow> post m s Q"
  by (auto simp: post_def)

lemma postD: "post m s Q \<Longrightarrow> m s = (r, s') \<Longrightarrow> Q r s'"
  by (simp add: post_def)

lemma post_conj: "post m s P \<Longrightarrow> post m s Q \<Longrightarrow> post m s (\<lambda>r s'. P r s' \<and> Q r s')"
  by (simp add: post_def split: prod.splits)

lemma post_sbindI:
  assumes "post m s P"
    and "\<And>e s'. P (Inl e) s' \<Longrightarrow> Q (Inl e) s'"
    and "\<And>x s'. P (Inr x) s' \<Longrightarrow> post (f x) s' Q"
  shows "post (sbind m f) s Q"
  unfolding post_sbind using assms(1) by (rule post_mono) (auto split: sum.splits dest: assms(2,3))

section \<open>Little-endian integers\<close>

text \<open>\<open>to_le_bytes\<close> and \<open>from_le_bytes\<close> of an unsigned integer of \<open>k\<close> bytes.\<close>

fun le_bytes :: "nat \<Rightarrow> nat \<Rightarrow> bytes" where
  "le_bytes 0 n = []"
| "le_bytes (Suc k) n = word_of_nat (n mod 256) # le_bytes k (n div 256)"

fun from_le :: "bytes \<Rightarrow> nat" where
  "from_le [] = 0"
| "from_le (b # bs) = unat b + 256 * from_le bs"

lemma unat_u8 [simp]: "unat (b :: u8) < 256"
  using unsigned_less [of b] by simp

lemma length_le_bytes [simp, byte_simps]: "length (le_bytes k n) = k"
  by (induction k arbitrary: n) auto

lemma from_le_le_bytes: "from_le (le_bytes k n) = n mod 256 ^ k"
proof (induction k arbitrary: n)
  case 0
  then show ?case by simp
next
  case (Suc k)
  have "unat (word_of_nat (n mod 256) :: u8) = n mod 256"
    by (simp add: unat_of_nat)
  with Suc show ?case
    by (simp add: mod_mult2_eq)
qed

lemma from_le_le_bytes_small [byte_simps]: "n < 256 ^ k \<Longrightarrow> from_le (le_bytes k n) = n"
  by (simp add: from_le_le_bytes)

lemma from_le_bound: "from_le bs < 256 ^ length bs"
proof (induction bs)
  case Nil
  then show ?case by simp
next
  case (Cons b bs)
  have "unat b < 256" by simp
  with Cons have "unat b + 256 * from_le bs < 256 * 256 ^ length bs"
    by linarith
  then show ?case by simp
qed

lemma le_bytes_from_le: "le_bytes (length bs) (from_le bs) = bs"
proof (induction bs)
  case Nil
  then show ?case by simp
next
  case (Cons b bs)
  have b: "unat b < 256" by simp
  then have "(unat b + 256 * from_le bs) mod 256 = unat b"
    by simp
  moreover have "(unat b + 256 * from_le bs) div 256 = from_le bs"
    using b by simp
  ultimately show ?case
    using Cons by simp
qed

section \<open>Counters of 64 bits\<close>

definition u64_max :: nat where
  "u64_max = 2 ^ 64 - 1"

text \<open>\<open>fetch_add(1)\<close> on an \<open>AtomicU64\<close> wraps; \<open>saturating_add\<close> and \<open>saturating_sub\<close> do not.\<close>

definition wrapping_succ :: "nat \<Rightarrow> nat" where
  "wrapping_succ n = (n + 1) mod 2 ^ 64"

definition saturating_succ :: "nat \<Rightarrow> nat" where
  "saturating_succ n = (if n < u64_max then n + 1 else u64_max)"

lemma wrapping_succ_small: "n < u64_max \<Longrightarrow> wrapping_succ n = n + 1"
  by (simp add: wrapping_succ_def u64_max_def)

lemma saturating_succ_small: "n < u64_max \<Longrightarrow> saturating_succ n = n + 1"
  by (simp add: saturating_succ_def)

section \<open>Lists\<close>

lemma sorted_wrt_less_filter: "sorted_wrt (<) xs \<Longrightarrow> sorted_wrt (<) (filter P xs)"
  by (simp add: sorted_wrt_filter)

lemma sorted_wrt_less_snoc:
  "sorted_wrt (<) (xs @ [x]) \<longleftrightarrow> sorted_wrt (<) xs \<and> (\<forall>y \<in> set xs. y < (x::'a::linorder))"
  by (auto simp: sorted_wrt_append)

lemma filter_none: "(\<And>x. x \<in> set xs \<Longrightarrow> \<not> P x) \<Longrightarrow> filter P xs = []"
  by (simp add: filter_empty_conv)

end
