(* ===== verification/Varint.thy ===== *)
theory Varint
  imports Prelude
begin

text \<open>
  Variable-length integers and composite document ids: \<^verbatim>\<open>laurus/src/util/varint.rs\<close> and
  \<^verbatim>\<open>laurus/src/util/id.rs\<close>. Bytes and values are machine words, so the shifts drop the bits the
  hardware drops. The two decoders are shown to invert the two encoders, to agree with each
  other, and to stay within ten bytes.
\<close>

unbundle bit_operations_syntax

section \<open>Encoders\<close>

lemma drop_bit_7_less: "drop_bit 7 (v :: u64) \<noteq> 0 \<Longrightarrow> unat (drop_bit 7 v) < unat v"
proof -
  assume "drop_bit 7 v \<noteq> 0"
  then have "unat (drop_bit 7 v) \<noteq> 0"
    by (simp add: unat_eq_0)
  moreover have "unat (drop_bit 7 v) = unat v div 128"
    by (simp add: drop_bit_eq_div unat_div_distrib)
  ultimately show ?thesis by simp
qed

function encode_u64 :: "u64 \<Rightarrow> bytes" where
  "encode_u64 v =
     (let byte = ucast (v AND 0x7F) :: u8;
          v' = drop_bit 7 v
      in if v' \<noteq> 0 then (byte OR 0x80) # encode_u64 v' else [byte])"
  by pat_completeness auto
termination
  by (relation "measure unat") (auto intro: drop_bit_7_less)

text \<open>\<open>write_varint\<close> pushes onto the caller's buffer.\<close>

function write_varint :: "bytes \<Rightarrow> u64 \<Rightarrow> bytes" where
  "write_varint buf v =
     (let byte = ucast (v AND 0x7F) :: u8;
          v' = drop_bit 7 v
      in if v' = 0 then buf @ [byte] else write_varint (buf @ [byte OR 0x80]) v')"
  by pat_completeness auto
termination
  by (relation "measure (\<lambda>(buf, v). unat v)") (auto intro: drop_bit_7_less)

declare encode_u64.simps [simp del] write_varint.simps [simp del]

section \<open>Decoders\<close>

fun decode_loop :: "u64 \<Rightarrow> nat \<Rightarrow> nat \<Rightarrow> bytes \<Rightarrow> (u64 \<times> nat) res" where
  "decode_loop result shift bytes_read [] = Inl (Other ''Incomplete VarInt'')"
| "decode_loop result shift bytes_read (byte # rest) =
     (if shift \<ge> 64 \<or> (shift = 63 \<and> byte AND 0x7F > 1) then Inl (Other ''VarInt overflow'')
      else let result' = result OR push_bit shift (ucast (byte AND 0x7F))
           in if byte AND 0x80 = 0 then Inr (result', bytes_read + 1)
              else decode_loop result' (shift + 7) (bytes_read + 1) rest)"

definition decode_u64 :: "bytes \<Rightarrow> (u64 \<times> nat) res" where
  "decode_u64 bs = decode_loop 0 0 0 bs"

text \<open>
  \<open>read_varint\<close> reads at a cursor and leaves it behind the last byte read, also when it fails, so
  the model returns the result and the cursor.
\<close>

function read_loop :: "bytes \<Rightarrow> string \<Rightarrow> nat \<Rightarrow> u64 \<Rightarrow> nat \<Rightarrow> u64 res \<times> nat" where
  "read_loop bs container cursor value shift =
     (if cursor < length bs then
        let byte = bs ! cursor
        in if shift = 63 \<and> byte AND 0x7F > 1
           then (Inl (Storage (container @ '': varint overflow'')), cursor + 1)
           else let value' = value OR push_bit shift (ucast (byte AND 0x7F))
                in if byte AND 0x80 = 0 then (Inr value', cursor + 1)
                   else if shift + 7 \<ge> 64
                        then (Inl (Storage (container @ '': varint overflow'')), cursor + 1)
                        else read_loop bs container (cursor + 1) value' (shift + 7)
      else (Inl (Storage (container @ '': truncated varint'')), cursor))"
  by pat_completeness auto
termination
  by (relation "measure (\<lambda>(bs, container, cursor, value, shift). length bs - cursor)") auto

declare read_loop.simps [simp del]

definition read_varint :: "bytes \<Rightarrow> nat \<Rightarrow> string \<Rightarrow> u64 res \<times> nat" where
  "read_varint bs cursor container = read_loop bs container cursor 0 0"

section \<open>Bit facts\<close>

lemma bits_127: "bit (127 :: int) n \<longleftrightarrow> n < 7"
proof -
  have "(127 :: int) = mask 7" by (simp add: mask_eq_exp_minus_1)
  then show ?thesis by (simp only: bit_mask_iff) simp
qed

lemma bits_128: "bit (128 :: int) n \<longleftrightarrow> n = 7"
proof -
  have "(128 :: int) = 2 ^ 7" by simp
  then show ?thesis by (simp only: bit_exp_iff) auto
qed

lemmas varint_bits = bits_127 bits_128 bit_simps

lemma low_bits_no_flag: "(ucast (v AND 0x7F :: u64) :: u8) AND 0x80 = 0"
  by (rule bit_word_eqI) (auto simp: varint_bits)

lemma flag_set: "(b OR 0x80 :: u8) AND 0x80 \<noteq> 0"
proof
  assume "(b OR 0x80 :: u8) AND 0x80 = 0"
  then have "\<not> bit ((b OR 0x80 :: u8) AND 0x80) 7" by simp
  then show False by (simp add: varint_bits)
qed

lemma low_bits: "ucast ((ucast (v AND 0x7F :: u64) :: u8) AND 0x7F) = v AND 0x7F"
  by (rule bit_word_eqI) (auto simp: varint_bits)

lemma low_bits_flagged:
  "ucast (((ucast (v AND 0x7F :: u64) :: u8) OR 0x80) AND 0x7F) = v AND 0x7F"
  by (rule bit_word_eqI) (auto simp: varint_bits)

lemma split_low_bits:
  "(r OR push_bit s (v AND 0x7F)) OR push_bit (s + 7) (drop_bit 7 v) = r OR push_bit s (v :: u64)"
proof (rule bit_word_eqI)
  fix n
  assume "n < LENGTH(64)"
  moreover have "7 + (n - (s + 7)) = n - s" if "s + 7 \<le> n"
    using that by simp
  ultimately show "bit ((r OR push_bit s (v AND 0x7F)) OR push_bit (s + 7) (drop_bit 7 v)) n =
      bit (r OR push_bit s v) n"
    by (cases "s + 7 \<le> n") (auto simp: varint_bits)
qed

section \<open>Decoding inverts encoding\<close>

text \<open>
  The loop invariant of the decoder: with \<open>s\<close> bits already read, the value left to decode has at
  most \<open>64 - s\<close> bits, so neither overflow check of the source fires on an encoder's output.
\<close>

definition room :: "nat \<Rightarrow> u64 \<Rightarrow> bool" where
  "room s v \<longleftrightarrow> s \<le> 63 \<and> s mod 7 = 0 \<and> unat v < 2 ^ (64 - s)"

lemma room_0: "room 0 v"
  using unsigned_less [of v] by (simp add: room_def)

lemma unat_drop_7: "unat (drop_bit 7 (v :: u64)) = unat v div 128"
  by (simp add: drop_bit_eq_div unat_div_distrib)

lemma room_next:
  assumes "room s v" and "drop_bit 7 v \<noteq> 0"
  shows "room (s + 7) (drop_bit 7 v)"
proof -
  from assms(2) have "unat v div 128 \<noteq> 0"
    by (simp add: unat_eq_0 flip: unat_drop_7)
  then have big: "2 ^ 7 \<le> unat v" by simp
  from assms(1) have s: "s \<le> 63" "s mod 7 = 0" and v: "unat v < 2 ^ (64 - s)"
    by (auto simp: room_def)
  from big v have "(2::nat) ^ 7 < 2 ^ (64 - s)" by linarith
  then have "s < 57" by (simp only: power_strict_increasing_iff)
  with s(2) have s7: "s + 7 \<le> 63" by presburger
  have "unat v < 2 ^ (64 - (s + 7)) * 128"
  proof -
    have "(2::nat) ^ (64 - s) = 2 ^ (64 - (s + 7) + 7)"
      using s7 by simp
    also have "\<dots> = 2 ^ (64 - (s + 7)) * 128"
      by (simp add: power_add)
    finally show ?thesis using v by simp
  qed
  then have "unat (drop_bit 7 v) < 2 ^ (64 - (s + 7))"
    by (simp add: unat_drop_7 less_mult_imp_div_less)
  with s7 s(2) show ?thesis by (simp add: room_def)
qed

lemma room_63: "room 63 v \<Longrightarrow> v = 0 \<or> v = 1"
  by (auto simp: room_def word_unat_eq_iff less_2_cases_iff)

lemma room_no_overflow: "room s v \<Longrightarrow> drop_bit 7 v = 0 \<Longrightarrow>
    \<not> (s = 63 \<and> (ucast (v AND 0x7F) :: u8) AND 0x7F > 1)"
  using room_63 [of v] by auto

lemma room_63_last: "room s v \<Longrightarrow> drop_bit 7 v \<noteq> 0 \<Longrightarrow> s \<noteq> 63"
  by (drule (1) room_next) (auto simp: room_def)

lemma last_byte: "drop_bit 7 v = 0 \<Longrightarrow> v AND 0x7F = (v :: u64)"
  using split_low_bits [of 0 0 v] by simp

lemma decode_loop_encode:
  "room s v \<Longrightarrow> decode_loop r s n (encode_u64 v @ rest) =
     Inr (r OR push_bit s v, n + length (encode_u64 v))"
proof (induction v arbitrary: r s n rule: encode_u64.induct)
  case (1 v)
  have s: "s < 64" using "1.prems" by (simp add: room_def)
  show ?case
  proof (cases "drop_bit 7 v = 0")
    case True
    then have e: "encode_u64 v = [ucast (v AND 0x7F)]"
      by (simp add: encode_u64.simps [of v])
    have "ucast ((ucast (v AND 0x7F) :: u8) AND 0x7F) = v"
      by (rule trans [OF low_bits last_byte [OF True]])
    with s room_no_overflow [OF "1.prems" True] show ?thesis
      by (simp add: e low_bits_no_flag Let_def)
  next
    case False
    then have e: "encode_u64 v = (ucast (v AND 0x7F) OR 0x80) # encode_u64 (drop_bit 7 v)"
      by (simp add: encode_u64.simps [of v])
    have "decode_loop (r OR push_bit s (v AND 0x7F)) (s + 7) (n + 1)
        (encode_u64 (drop_bit 7 v) @ rest) =
      Inr ((r OR push_bit s (v AND 0x7F)) OR push_bit (s + 7) (drop_bit 7 v),
        n + 1 + length (encode_u64 (drop_bit 7 v)))"
      by (rule "1.IH") (use False "1.prems" in \<open>auto intro: room_next\<close>)
    then have "decode_loop (r OR push_bit s (v AND 0x7F)) (s + 7) (n + 1)
        (encode_u64 (drop_bit 7 v) @ rest) =
      Inr (r OR push_bit s v, n + 1 + length (encode_u64 (drop_bit 7 v)))"
      by (simp only: split_low_bits)
    with s room_63_last [OF "1.prems" False] flag_set show ?thesis
      by (simp add: e low_bits_flagged Let_def del: push_bit_and)
  qed
qed

text \<open>The encoding of a value takes one byte for each started group of seven bits.\<close>

lemma length_encode_u64_bound: "room s v \<Longrightarrow> 7 * length (encode_u64 v) + s \<le> 70"
proof (induction v arbitrary: s rule: encode_u64.induct)
  case (1 v)
  show ?case
  proof (cases "drop_bit 7 v = 0")
    case True
    with "1.prems" show ?thesis by (simp add: encode_u64.simps [of v] room_def)
  next
    case False
    then have "7 * length (encode_u64 (drop_bit 7 v)) + (s + 7) \<le> 70"
      using "1.IH" [OF refl refl False] "1.prems" by (blast intro: room_next)
    with False show ?thesis by (simp add: encode_u64.simps [of v] Let_def)
  qed
qed

lemma write_varint_eq: "write_varint buf v = buf @ encode_u64 v"
proof (induction buf v rule: write_varint.induct)
  case (1 buf v)
  then show ?case
    by (simp add: write_varint.simps [of buf v] encode_u64.simps [of v] Let_def)
qed

section \<open>The two decoders agree\<close>

lemma read_loop_decode_loop:
  "cursor \<le> length bs \<Longrightarrow> shift \<le> 63 \<Longrightarrow> shift mod 7 = 0 \<Longrightarrow>
   (case decode_loop val shift cursor (drop cursor bs) of
      Inr (v, c) \<Rightarrow> read_loop bs container cursor val shift = (Inr v, c)
    | Inl _ \<Rightarrow> \<not> ok (fst (read_loop bs container cursor val shift)))"
proof (induction bs container cursor val shift rule: read_loop.induct)
  case (1 bs container cursor val shift)
  show ?case
  proof (cases "cursor < length bs")
    case False
    with "1.prems" show ?thesis by (simp add: read_loop.simps [of bs])
  next
    case True
    then have d: "drop cursor bs = bs ! cursor # drop (cursor + 1) bs"
      by (simp add: Cons_nth_drop_Suc)
    show ?thesis
    proof (cases "shift + 7 \<ge> 64")
      case True
      with "1.prems" have "shift = 63" by presburger
      with \<open>cursor < length bs\<close> show ?thesis
        by (cases "drop (cursor + 1) bs")
          (auto simp: d read_loop.simps [of bs] Let_def split: sum.splits)
    next
      case False
      with "1.prems" have s: "shift \<noteq> 63" "shift + 7 \<le> 63" "(shift + 7) mod 7 = 0"
        by auto
      let ?val = "val OR push_bit shift (ucast (bs ! cursor AND 0x7F))"
      show ?thesis
      proof (cases "bs ! cursor AND 0x80 = 0")
        case True
        with s \<open>cursor < length bs\<close> show ?thesis
          by (simp add: d read_loop.simps [of bs container cursor] Let_def)
      next
        case flagged: False
        have r: "read_loop bs container cursor val shift =
            read_loop bs container (cursor + 1) ?val (shift + 7)"
          using flagged s True False
          by (subst read_loop.simps) (simp add: Let_def)
        have e: "decode_loop val shift cursor (drop cursor bs) =
            decode_loop ?val (shift + 7) (cursor + 1) (drop (cursor + 1) bs)"
          using flagged s by (simp add: d Let_def)
        have "cursor + 1 \<le> length bs"
          using True by simp
        then show ?thesis
          unfolding r e using "1.IH" [OF True refl _ refl flagged False] s by simp
      qed
    qed
  qed
qed

lemma decode_loop_offset:
  "decode_loop r s (m + n) bs =
     (case decode_loop r s n bs of Inl e \<Rightarrow> Inl e | Inr (v, k) \<Rightarrow> Inr (v, m + k))"
  by (induction bs arbitrary: r s n) (auto simp: Let_def add.assoc simp flip: add_Suc_right)

section \<open>Composite document ids\<close>

definition LOCAL_ID_BITS :: nat where
  "LOCAL_ID_BITS = 48"

definition LOCAL_ID_MASK :: u64 where
  "LOCAL_ID_MASK = push_bit LOCAL_ID_BITS 1 - 1"

definition create_doc_id :: "16 word \<Rightarrow> u64 \<Rightarrow> u64" where
  "create_doc_id shard_id local_id =
     push_bit LOCAL_ID_BITS (ucast shard_id) OR (local_id AND LOCAL_ID_MASK)"

definition get_local_id :: "u64 \<Rightarrow> u64" where
  "get_local_id doc_id = doc_id AND LOCAL_ID_MASK"

lemma LOCAL_ID_MASK_mask: "LOCAL_ID_MASK = mask 48"
  by (simp add: LOCAL_ID_MASK_def LOCAL_ID_BITS_def mask_eq_exp_minus_1)

lemmas doc_id_defs =
  create_doc_id_def get_local_id_def LOCAL_ID_MASK_mask LOCAL_ID_BITS_def

section \<open>Properties\<close>

text \<open>
  C16. Every 64-bit value survives encoding and decoding, whatever bytes follow its encoding: the
  decoder returns the value and the number of bytes the encoder wrote, which is at most ten.
\<close>

theorem varint_roundtrip:
  "decode_u64 (encode_u64 v @ rest) = Inr (v, length (encode_u64 v)) \<and>
   length (encode_u64 v) \<le> 10"
  using decode_loop_encode [OF room_0, where r = 0 and n = 0 and rest = rest and v = v]
    length_encode_u64_bound [OF room_0, of v]
  by (simp add: decode_u64_def)

text \<open>
  Reading at a cursor agrees with decoding the slice that starts there: the same value, and a
  cursor moved by the number of bytes decoded; and one fails exactly when the other does. With
  it, what \<open>write_varint\<close> appends to a buffer is what \<open>read_varint\<close> finds at the buffer's old end.
\<close>

theorem read_varint_agrees:
  assumes "cursor \<le> length bs"
  shows "(case decode_u64 (drop cursor bs) of
            Inr (v, n) \<Rightarrow> read_varint bs cursor container = (Inr v, cursor + n)
          | Inl _ \<Rightarrow> \<not> ok (fst (read_varint bs cursor container)))
         \<and> read_varint (write_varint bs v @ rest) (length bs) container =
             (Inr v, length (write_varint bs v))"
proof
  have "cursor + 0 = cursor" by simp
  with read_loop_decode_loop [OF assms, where shift = 0 and val = 0 and container = container]
    decode_loop_offset [of 0 0 cursor 0 "drop cursor bs"]
  show "case decode_u64 (drop cursor bs) of
            Inr (v, n) \<Rightarrow> read_varint bs cursor container = (Inr v, cursor + n)
          | Inl _ \<Rightarrow> \<not> ok (fst (read_varint bs cursor container))"
    by (auto simp: decode_u64_def read_varint_def split: sum.splits)
  have "decode_loop 0 0 (length bs) (encode_u64 v @ rest) =
      Inr (0 OR push_bit 0 v, length bs + length (encode_u64 v))"
    by (rule decode_loop_encode [OF room_0])
  with read_loop_decode_loop [where cursor = "length bs" and bs = "bs @ encode_u64 v @ rest" and shift = 0
      and val = 0 and container = container]
  show "read_varint (write_varint bs v @ rest) (length bs) container =
      (Inr v, length (write_varint bs v))"
    by (simp add: read_varint_def write_varint_eq)
qed

theorem read_varint_agrees_witness:
  "\<exists>v n. decode_u64 [0xE5, 0x8E, 0x26] = Inr (v, n) \<and>
     read_varint [7, 0xE5, 0x8E, 0x26] 1 ''chunk'' = (Inr v, 1 + n)"
  using read_varint_agrees [of 1 "[7, 0xE5, 0x8E, 0x26]" "''chunk''" 0 "[]"]
  by (simp add: decode_u64_def)

text \<open>
  A composite id gives its local part back below 48 bits, cuts it to 48 bits above, and keeps
  the shard in the upper 16 bits.
\<close>

theorem doc_id_roundtrip:
  "get_local_id (create_doc_id shard local_id) = take_bit 48 local_id \<and>
   drop_bit 48 (create_doc_id shard local_id) = ucast shard"
proof
  show "get_local_id (create_doc_id shard local_id) = take_bit 48 local_id"
    by (rule bit_word_eqI) (auto simp: doc_id_defs bit_simps)
  show "drop_bit 48 (create_doc_id shard local_id) = ucast shard"
    by (rule bit_word_eqI) (auto simp: doc_id_defs bit_simps dest: bit_imp_le_length)
qed

end
