(* ===== verification/Applied_Seqs.thy ===== *)
theory Applied_Seqs
  imports Prelude
begin

text \<open>
  The tracker of finished write-ahead-log records, \<^verbatim>\<open>laurus/src/engine/applied_seqs.rs\<close>.
  The mutex of the source makes every operation atomic, so an operation is a function on the
  state. \<open>finished_above\<close> is a \<open>BTreeSet\<close>: a strictly increasing list here, whose head is its
  \<open>first\<close>. Sequence numbers are assigned upwards from 1 and never reach \<open>u64::MAX\<close>, so
  \<open>watermark + 1\<close> does not overflow in the source and is written as such.

  The specification is the set \<open>covered\<close> of the numbers that count as finished; the watermark is
  shown to be the largest number with everything at or below it in that set.
\<close>

section \<open>State and operations\<close>

record applied =
  watermark :: nat
  finished_above :: "nat list"
  progress :: nat

definition applied_default :: applied where
  "applied_default = \<lparr>watermark = 0, finished_above = [], progress = 0\<rparr>"

fun absorb_loop :: "nat \<Rightarrow> nat list \<Rightarrow> nat \<times> nat list" where
  "absorb_loop w [] = (w, [])"
| "absorb_loop w (n # ns) = (if n > w + 1 then (w, n # ns) else absorb_loop (max w n) ns)"

definition absorb_contiguous :: "applied \<Rightarrow> applied" where
  "absorb_contiguous s =
     (let (w, fa) = absorb_loop (watermark s) (finished_above s)
      in s\<lparr>watermark := w, finished_above := fa\<rparr>)"

definition finish :: "nat \<Rightarrow> applied \<Rightarrow> applied" where
  "finish seq s =
     (if seq = watermark s + 1 then
        let s' = absorb_contiguous (s\<lparr>watermark := seq\<rparr>)
        in s'\<lparr>progress := progress s' + 1\<rparr>
      else if seq > watermark s then
        s\<lparr>finished_above := insort_insert seq (finished_above s), progress := progress s + 1\<rparr>
      else s)"

definition raise_to :: "nat \<Rightarrow> applied \<Rightarrow> applied" where
  "raise_to seq s =
     (if seq > watermark s then
        let s' = absorb_contiguous (s\<lparr>watermark := seq\<rparr>)
        in s'\<lparr>progress := progress s' + 1\<rparr>
      else s)"

lemma progress_absorb [simp, frame_simps]: "progress (absorb_contiguous s) = progress s"
  by (simp add: absorb_contiguous_def split: prod.splits)

section \<open>Invariant and abstraction\<close>

definition applied_inv :: "applied \<Rightarrow> bool" where
  "applied_inv s \<longleftrightarrow>
     sorted_wrt (<) (finished_above s) \<and> (\<forall>n \<in> set (finished_above s). watermark s + 1 < n)"

definition covered :: "applied \<Rightarrow> nat set" where
  "covered s = {1..watermark s} \<union> set (finished_above s)"

lemma absorb_loop_inv:
  assumes "sorted_wrt (<) fa" and "absorb_loop w fa = (w', fa')"
  shows "w \<le> w' \<and> sorted_wrt (<) fa' \<and> (\<forall>n \<in> set fa'. w' + 1 < n) \<and>
    {1..w'} \<union> set fa' = {1..w} \<union> {n \<in> set fa. 1 \<le> n}"
  using assms
proof (induction w fa rule: absorb_loop.induct)
  case (1 w)
  then show ?case by simp
next
  case (2 w n ns)
  show ?case
  proof (cases "n > w + 1")
    case True
    with "2.prems" show ?thesis by fastforce
  next
    case False
    with "2.prems" have "absorb_loop (max w n) ns = (w', fa')" by simp
    with "2.IH" [OF False] "2.prems"(1)
    have ih: "max w n \<le> w' \<and> sorted_wrt (<) fa' \<and> (\<forall>n \<in> set fa'. w' + 1 < n) \<and>
      {1..w'} \<union> set fa' = {1..max w n} \<union> {n \<in> set ns. 1 \<le> n}"
      by simp
    moreover have "{1..max w n} = {1..w} \<union> {m. m = n \<and> 1 \<le> m}"
      using False by auto
    ultimately show ?thesis by auto
  qed
qed

lemma absorb_contiguous_inv:
  assumes "sorted_wrt (<) (finished_above s)" and "0 \<notin> set (finished_above s)"
  shows "applied_inv (absorb_contiguous s)" and "covered (absorb_contiguous s) = covered s"
    and "watermark s \<le> watermark (absorb_contiguous s)"
proof -
  obtain w fa where l: "absorb_loop (watermark s) (finished_above s) = (w, fa)"
    by fastforce
  then have e: "absorb_contiguous s = s\<lparr>watermark := w, finished_above := fa\<rparr>"
    by (simp add: absorb_contiguous_def)
  have "{n \<in> set (finished_above s). 1 \<le> n} = set (finished_above s)"
    using assms(2) by (auto simp: Suc_le_eq intro: gr0I)
  with absorb_loop_inv [OF assms(1) l]
  show "applied_inv (absorb_contiguous s)" "covered (absorb_contiguous s) = covered s"
    "watermark s \<le> watermark (absorb_contiguous s)"
    by (simp_all add: e applied_inv_def covered_def)
qed

lemma applied_inv_default: "applied_inv applied_default" "covered applied_default = {}"
  by (simp_all add: applied_inv_def applied_default_def covered_def)

lemma applied_inv_zero: "applied_inv s \<Longrightarrow> 0 \<notin> set (finished_above s)"
  by (auto simp: applied_inv_def)

lemma strictly_sorted_insort_insert:
  "sorted_wrt (<) xs \<Longrightarrow> sorted_wrt (<) (insort_insert (x :: nat) xs)"
  by (simp add: strict_sorted_iff sorted_insort_insert distinct_insort_insert)

lemma raise_to_covers:
  assumes "applied_inv s"
  shows "applied_inv (raise_to seq s)" and "covered (raise_to seq s) = covered s \<union> {1..seq}"
    and "watermark s \<le> watermark (raise_to seq s)"
proof -
  let ?t = "s\<lparr>watermark := seq\<rparr>"
  have t: "sorted_wrt (<) (finished_above ?t)" "0 \<notin> set (finished_above ?t)"
    using assms by (auto simp: applied_inv_def)
  note a = absorb_contiguous_inv [OF t]
  have [simp]: "applied_inv (r\<lparr>progress := p\<rparr>) = applied_inv r"
    "covered (r\<lparr>progress := p\<rparr>) = covered r" for r p
    by (simp_all add: applied_inv_def covered_def)
  show "applied_inv (raise_to seq s)" "covered (raise_to seq s) = covered s \<union> {1..seq}"
    "watermark s \<le> watermark (raise_to seq s)"
  proof (atomize (full), cases "seq > watermark s")
    case True
    then have e: "raise_to seq s =
        (absorb_contiguous ?t)\<lparr>progress := progress (absorb_contiguous ?t) + 1\<rparr>"
      by (simp add: raise_to_def)
    have "covered ?t = covered s \<union> {1..seq}"
      using True by (auto simp: covered_def)
    with a(1-3) True show "applied_inv (raise_to seq s) \<and>
        covered (raise_to seq s) = covered s \<union> {1..seq} \<and>
        watermark s \<le> watermark (raise_to seq s)"
      by (simp add: e)
  next
    case False
    then have "raise_to seq s = s" "{1..seq} \<subseteq> covered s"
      by (auto simp: raise_to_def covered_def)
    with assms show "applied_inv (raise_to seq s) \<and>
        covered (raise_to seq s) = covered s \<union> {1..seq} \<and>
        watermark s \<le> watermark (raise_to seq s)"
      by auto
  qed
qed

lemma finish_covers:
  assumes "applied_inv s"
  shows "applied_inv (finish seq s)" and "covered (finish seq s) = covered s \<union> ({seq} - {0})"
    and "watermark s \<le> watermark (finish seq s)"
proof -
  have next_: "finish (watermark s + 1) s = raise_to (watermark s + 1) s"
    by (simp add: finish_def raise_to_def)
  have above: "applied_inv (finish seq s) \<and> covered (finish seq s) = covered s \<union> {seq}"
    if "watermark s + 1 < seq"
    using that assms
    by (auto simp: finish_def applied_inv_def covered_def set_insort_insert
        strictly_sorted_insort_insert)
  have wm: "watermark (finish seq s) = watermark s" if "watermark s + 1 < seq"
    using that by (simp add: finish_def)
  have step: "covered s \<union> {1..watermark s + 1} = covered s \<union> {watermark s + 1}"
    by (auto simp: covered_def)
  consider "seq = watermark s + 1" | "watermark s + 1 < seq" | "seq \<le> watermark s"
    by linarith
  then show "applied_inv (finish seq s)"
    "covered (finish seq s) = covered s \<union> ({seq} - {0})"
    "watermark s \<le> watermark (finish seq s)"
  proof (atomize (full), cases)
    case 1
    with raise_to_covers [OF assms, of "watermark s + 1"] next_ step
    show "applied_inv (finish seq s) \<and> covered (finish seq s) = covered s \<union> ({seq} - {0}) \<and>
        watermark s \<le> watermark (finish seq s)"
      by simp
  next
    case 2
    with above wm show "applied_inv (finish seq s) \<and>
        covered (finish seq s) = covered s \<union> ({seq} - {0}) \<and>
        watermark s \<le> watermark (finish seq s)"
      by auto
  next
    case 3
    then have "finish seq s = s" "{seq} - {0} \<subseteq> covered s"
      by (auto simp: finish_def covered_def)
    with assms show "applied_inv (finish seq s) \<and>
        covered (finish seq s) = covered s \<union> ({seq} - {0}) \<and>
        watermark s \<le> watermark (finish seq s)"
      by auto
  qed
qed

lemma watermark_iff: "applied_inv s \<Longrightarrow> w \<le> watermark s \<longleftrightarrow> {1..w} \<subseteq> covered s"
proof
  assume "applied_inv s" and sub: "{1..w} \<subseteq> covered s"
  then have "watermark s + 1 \<notin> covered s"
    by (auto simp: applied_inv_def covered_def)
  with sub have "watermark s + 1 \<notin> {1..w}" by blast
  then show "w \<le> watermark s" by simp
qed (auto simp: covered_def)

section \<open>Runs of operations\<close>

text \<open>
  Mutations of different documents finish in any order, and a recovery raises the watermark. A run
  is the sequence in which the mutex let the operations through.
\<close>

datatype seq_op = Finish nat | RaiseTo nat

fun seq_step :: "seq_op \<Rightarrow> applied \<Rightarrow> applied" where
  "seq_step (Finish n) s = finish n s"
| "seq_step (RaiseTo n) s = raise_to n s"

definition seq_run :: "seq_op list \<Rightarrow> applied" where
  "seq_run ops = fold seq_step ops applied_default"

definition covered_by :: "seq_op list \<Rightarrow> nat set" where
  "covered_by ops = {n. n \<noteq> 0 \<and> Finish n \<in> set ops} \<union> {n. 1 \<le> n \<and> (\<exists>b. RaiseTo b \<in> set ops \<and> n \<le> b)}"

lemma fold_seq_step:
  "applied_inv s \<Longrightarrow> applied_inv (fold seq_step ops s) \<and>
     covered (fold seq_step ops s) = covered s \<union> covered_by ops"
proof (induction ops arbitrary: s)
  case Nil
  then show ?case by (simp add: covered_by_def)
next
  case (Cons op ops)
  have "applied_inv (seq_step op s) \<and> covered (seq_step op s) = covered s \<union> covered_by [op]"
    using Cons.prems by (cases op) (auto simp: finish_covers raise_to_covers covered_by_def)
  moreover have "covered_by (op # ops) = covered_by [op] \<union> covered_by ops"
    by (auto simp: covered_by_def)
  ultimately show ?case using Cons.IH [of "seq_step op s"] by auto
qed

lemma seq_run_covered: "applied_inv (seq_run ops)" "covered (seq_run ops) = covered_by ops"
  using fold_seq_step [OF applied_inv_default(1), of ops]
  by (simp_all add: seq_run_def applied_inv_default)

text \<open>Under the invariant the state, up to its progress counter, is a function of the covered set.\<close>

lemma applied_canonical:
  assumes "applied_inv s" "applied_inv t" "covered s = covered t"
  shows "watermark s = watermark t" "finished_above s = finished_above t"
proof -
  show w: "watermark s = watermark t"
    using watermark_iff [OF assms(1)] watermark_iff [OF assms(2)] assms(3)
    by (metis order_antisym order_refl)
  have "set (finished_above r) = covered r - {1..watermark r}" if "applied_inv r" for r
    using that by (auto simp: applied_inv_def covered_def)
  with assms w have "set (finished_above s) = set (finished_above t)" by simp
  with assms show "finished_above s = finished_above t"
    by (auto simp: applied_inv_def intro: strict_sorted_equal)
qed

section \<open>Properties\<close>

text \<open>
  C15. The watermark a commit takes as its retain point is exact: after any sequence of finishes and
  raises, in whatever order the mutations finished, a number is at or below the watermark if and
  only if every number from 1 up to it finished or was raised over. So no commit can truncate or
  checkpoint past a mutation that is still being applied.
\<close>

theorem watermark_exact: "w \<le> watermark (seq_run ops) \<longleftrightarrow> {1..w} \<subseteq> covered_by ops"
  using watermark_iff [OF seq_run_covered(1), of w ops] by (simp add: seq_run_covered)

text \<open>
  The order in which mutations finish does not matter: two runs of the same operations, in any
  interleaving and with repetitions, end with the same watermark and the same numbers waiting above
  it.
\<close>

theorem finish_order_irrelevant:
  assumes "set ops = set ops'"
  shows "watermark (seq_run ops) = watermark (seq_run ops') \<and>
    finished_above (seq_run ops) = finished_above (seq_run ops')"
proof -
  have "covered (seq_run ops) = covered (seq_run ops')"
    by (simp add: seq_run_covered covered_by_def assms)
  with applied_canonical [OF seq_run_covered(1) seq_run_covered(1)] show ?thesis by blast
qed

theorem finish_order_irrelevant_witness:
  "watermark (seq_run [Finish 1, Finish 2, Finish 4, Finish 3]) =
   watermark (seq_run [Finish 4, Finish 3, Finish 2, Finish 1])"
  using finish_order_irrelevant
    [of "[Finish 1, Finish 2, Finish 4, Finish 3]" "[Finish 4, Finish 3, Finish 2, Finish 1]"]
  by auto

text \<open>
  The progress counter tells a commit whether anything was applied since the previous one: an
  operation leaves the counter alone exactly when it leaves the whole state alone.
\<close>

theorem progress_detects_change:
  "progress (seq_step op s) = progress s \<longleftrightarrow> seq_step op s = s"
proof (cases op)
  case (Finish n)
  have "progress (seq_step op s) = progress s + 1 \<or> seq_step op s = s"
    by (simp add: Finish finish_def Let_def)
  then show ?thesis by auto
next
  case (RaiseTo n)
  have "progress (seq_step op s) = progress s + 1 \<or> seq_step op s = s"
    by (simp add: RaiseTo raise_to_def Let_def)
  then show ?thesis by auto
qed

end
