(* ===== verification/Data.thy ===== *)
theory Data
  imports Prelude
begin

text \<open>
  Documents and their values, from \<^verbatim>\<open>laurus/src/data.rs\<close>. A floating-point number is the word
  of its bits, since the modelled code stores floats and compares none of them; a timestamp is its
  microseconds. A document's fields are a \<open>HashMap\<close>: a finite map from names to values.
\<close>

type_synonym f64 = "64 word"
type_synonym f32 = "32 word"
type_synonym i64 = "64 word"

record geo_point =
  lat :: f64
  lon :: f64

record geo_ecef_point =
  ecef_x :: f64
  ecef_y :: f64
  ecef_z :: f64

datatype data_value =
    Null
  | Bool bool
  | Int64 i64
  | Float64 f64
  | Text string
  | Bytes bytes "string option"
  | Vector "f32 list"
  | DateTime i64
  | Geo geo_point
  | GeoEcef geo_ecef_point
  | Int64Array "i64 list"
  | Float64Array "f64 list"
  | GeoArray "geo_point list"
  | GeoEcefArray "geo_ecef_point list"
  | DateTimeArray "i64 list"
  | BoolArray "bool list"
  | TextArray "string list"
  | BytesArray "(bytes \<times> string option) list"
  | VectorArray "f32 list list"

definition as_text :: "data_value \<Rightarrow> string option" where
  "as_text v = (case v of Text s \<Rightarrow> Some s | _ \<Rightarrow> None)"

record document =
  doc_fields :: "string \<rightharpoonup> data_value"

definition doc_new :: document where
  "doc_new = \<lparr>doc_fields = (\<lambda>_. None)\<rparr>"

definition doc_get :: "document \<Rightarrow> string \<Rightarrow> data_value option" where
  "doc_get d name = doc_fields d name"

definition doc_add_field :: "document \<Rightarrow> string \<Rightarrow> data_value \<Rightarrow> document" where
  "doc_add_field d name v = d\<lparr>doc_fields := (doc_fields d)(name \<mapsto> v)\<rparr>"

text \<open>The external id of a stored document, as the lookups by external id read it.\<close>

definition external_id_of :: "document \<Rightarrow> string option" where
  "external_id_of d = (case doc_fields d ''_id'' of None \<Rightarrow> None | Some v \<Rightarrow> as_text v)"

end
