(* ===== verification/Doc_Store.thy ===== *)
theory Doc_Store
  imports Data "HOL-Library.AList"
begin

text \<open>
  The segmented document store, \<^verbatim>\<open>laurus/src/store/document.rs\<close>: pending documents in memory,
  immutable segment files found through a manifest, and a cache of documents read from segments.

  A segment file is the list of entries it holds, in the order they are written: a document id and
  the document's JSON bytes; the byte layout and its checksum footer belong to the structured I/O
  layer, and a file that cannot be opened or verified is one the store does not have. JSON is
  another crate's (\<^verbatim>\<open>serde_json\<close>): \<open>to_json\<close> and \<open>from_json\<close> are a parameter, either may fail, and no
  relation between them is assumed but where a property says so (\<open>json_carries\<close>). The relation does
  not hold of every document: \<^verbatim>\<open>serde_json\<close> writes a float that is not finite as \<^verbatim>\<open>null\<close>, which does not
  decode as a float.

  \<open>readers\<close> of the source holds one reader per segment, in the same order, so a reader is its segment
  here, and the lazily built offset table of a reader is a function of its immutable file. The LRU
  cache is another crate's too: the model keeps its content as a map and takes the eviction as a
  parameter that only forgets entries.

  The store's meaning is \<open>ds_view\<close>: the pending version of a document, else what the newest segment's
  entry of it decodes to; \<open>ds_lookup\<close> is the same with the decode error of that entry.
\<close>

section \<open>Segments\<close>

record doc_segment =
  seg_id :: nat
  start_doc_id :: nat
  end_doc_id :: nat
  doc_count :: nat

definition segment_contains :: "doc_segment \<Rightarrow> nat \<Rightarrow> bool" where
  "segment_contains s doc_id \<longleftrightarrow> doc_id \<ge> start_doc_id s \<and> doc_id \<le> end_doc_id s"

text \<open>The JSON encoding of documents, which is \<^verbatim>\<open>serde_json\<close>'s.\<close>

record json_codec =
  to_json :: "document \<Rightarrow> bytes option"
  from_json :: "bytes \<Rightarrow> document option"

text \<open>The files of the store: segment files by segment id, and the manifest.\<close>

record doc_files =
  seg_files :: "nat \<rightharpoonup> (nat \<times> bytes) list"
  manifest_file :: "(doc_segment list \<times> nat) option"

text \<open>
  \<open>write_segment\<close> writes the documents in the order of their ids. \<open>io\<close> says whether creating and
  writing the file succeeds; a file that could not be written whole is unreadable.
\<close>

definition encode_document :: "json_codec \<Rightarrow> nat \<times> document \<Rightarrow> (nat \<times> bytes) res" where
  "encode_document j entry =
     (case to_json j (snd entry) of
        None \<Rightarrow> Inl (Index ''failed to serialize document'')
      | Some json \<Rightarrow> Inr (fst entry, json))"

definition write_segment ::
    "json_codec \<Rightarrow> bool \<Rightarrow> nat \<Rightarrow> (nat \<times> document) list \<Rightarrow> doc_files \<Rightarrow>
     doc_segment res \<times> doc_files" where
  "write_segment j io segment_id docs fs =
     (if docs = [] then (Inl (Other ''Internal error: cannot write empty document segment''), fs)
      else
        let sorted_ids = sort (map fst docs);
            segment = \<lparr>seg_id = segment_id, start_doc_id = hd sorted_ids,
                       end_doc_id = last sorted_ids, doc_count = length docs\<rparr>;
            unreadable = fs\<lparr>seg_files := (seg_files fs)(segment_id := None)\<rparr>
        in if \<not> io then (Inl (Io ''writing the segment file failed''), unreadable)
           else if length docs \<ge> 2 ^ 32 then
             (Inl (InvalidOperation ''document count exceeds u32::MAX''), unreadable)
           else
             (case rmap (encode_document j) (map (\<lambda>i. (i, the (map_of docs i))) sorted_ids) of
                Inl e \<Rightarrow> (Inl e, unreadable)
              | Inr entries \<Rightarrow>
                  (Inr segment, fs\<lparr>seg_files := (seg_files fs)(segment_id \<mapsto> entries)\<rparr>)))"

text \<open>
  The entries the offset table points to, in the order of the file: of several entries of one id the
  last one counts. Building the table reads past the JSON bytes without decoding them.
\<close>

definition segment_entries :: "doc_files \<Rightarrow> doc_segment \<Rightarrow> (nat \<times> bytes) list res" where
  "segment_entries fs s =
     (case seg_files fs (seg_id s) of
        None \<Rightarrow> Inl (Storage ''segment file cannot be opened'')
      | Some entries \<Rightarrow> Inr (rev (AList.clearjunk (rev entries))))"

definition read_entry :: "json_codec \<Rightarrow> bytes \<Rightarrow> document res" where
  "read_entry j json =
     (case from_json j json of
        None \<Rightarrow> Inl (Index ''failed to deserialize document'')
      | Some doc \<Rightarrow> Inr doc)"

definition decode_document :: "json_codec \<Rightarrow> nat \<times> bytes \<Rightarrow> (nat \<times> document) res" where
  "decode_document j entry = rbind (read_entry j (snd entry)) (\<lambda>doc. Inr (fst entry, doc))"

definition reader_get_document ::
    "json_codec \<Rightarrow> doc_files \<Rightarrow> doc_segment \<Rightarrow> nat \<Rightarrow> document option res" where
  "reader_get_document j fs s doc_id =
     (if \<not> segment_contains s doc_id then Inr None
      else rbind (segment_entries fs s)
        (\<lambda>offsets.
           case map_of offsets doc_id of
             None \<Rightarrow> Inr None
           | Some json \<Rightarrow> rbind (read_entry j json) (\<lambda>doc. Inr (Some doc))))"

definition reader_get_documents_batch ::
    "json_codec \<Rightarrow> doc_files \<Rightarrow> doc_segment \<Rightarrow> nat list \<Rightarrow> (nat \<rightharpoonup> document) res" where
  "reader_get_documents_batch j fs s doc_ids =
     (if \<not> list_ex (segment_contains s) doc_ids then Inr Map.empty
      else rbind (segment_entries fs s)
        (\<lambda>offsets.
           rbind (rmap (decode_document j) (filter (\<lambda>(i, json). i \<in> set doc_ids) offsets))
             (\<lambda>results. Inr (map_of results))))"



definition reader_find_all_by_external_id ::
    "json_codec \<Rightarrow> doc_files \<Rightarrow> doc_segment \<Rightarrow> string \<Rightarrow> nat list res" where
  "reader_find_all_by_external_id j fs s external_id =
     (case seg_files fs (seg_id s) of
        None \<Rightarrow> Inl (Storage ''segment file cannot be opened'')
      | Some entries \<Rightarrow>
          rbind (rmap (decode_document j) entries)
            (\<lambda>docs. Inr (map fst (filter (\<lambda>(i, d). external_id_of d = Some external_id) docs))))"

section \<open>The store\<close>

record doc_store =
  files :: doc_files
  segments :: "doc_segment list"
  next_segment_id :: nat
  pending_docs :: "(nat \<times> document) list"
  store_next_doc_id :: nat
  doc_cache :: "nat \<rightharpoonup> document"

definition ds_new :: "doc_files \<Rightarrow> doc_store" where
  "ds_new fs = \<lparr>files = fs, segments = [], next_segment_id = 0, pending_docs = [],
     store_next_doc_id = 1, doc_cache = Map.empty\<rparr>"

fun next_id_after :: "nat \<Rightarrow> doc_segment list \<Rightarrow> nat" where
  "next_id_after n [] = n"
| "next_id_after n (s # ss) =
     next_id_after (if end_doc_id s \<ge> n then end_doc_id s + 1 else n) ss"

definition ds_open :: "doc_files \<Rightarrow> doc_store" where
  "ds_open fs =
     (case manifest_file fs of
        Some (segs, next_seg) \<Rightarrow>
          \<lparr>files = fs, segments = segs, next_segment_id = next_seg, pending_docs = [],
           store_next_doc_id = next_id_after 1 segs, doc_cache = Map.empty\<rparr>
      | None \<Rightarrow> ds_new fs)"

text \<open>Opening fails when there is a manifest that cannot be read, verified or parsed.\<close>

definition open_store :: "bool \<Rightarrow> doc_files \<Rightarrow> doc_store res" where
  "open_store readable fs =
     (if manifest_file fs \<noteq> None \<and> \<not> readable
      then Inl (Storage ''the manifest cannot be read'')
      else Inr (ds_open fs))"

definition put_document_with_id :: "nat \<Rightarrow> document \<Rightarrow> doc_store \<Rightarrow> doc_store" where
  "put_document_with_id doc_id doc s =
     s\<lparr>pending_docs := AList.update doc_id doc (pending_docs s),
       doc_cache := (doc_cache s)(doc_id := None),
       store_next_doc_id :=
         (if doc_id \<ge> store_next_doc_id s then doc_id + 1 else store_next_doc_id s)\<rparr>"

definition add_document :: "document \<Rightarrow> doc_store \<Rightarrow> nat \<times> doc_store" where
  "add_document doc s =
     (store_next_doc_id s,
      s\<lparr>store_next_doc_id := store_next_doc_id s + 1,
        pending_docs := AList.update (store_next_doc_id s) doc (pending_docs s)\<rparr>)"

definition add_segment ::
    "json_codec \<Rightarrow> bool \<Rightarrow> (nat \<times> document) list \<Rightarrow> doc_store \<Rightarrow> doc_segment res \<times> doc_store" where
  "add_segment j io docs s =
     (case write_segment j io (next_segment_id s) docs (files s) of
        (Inl e, fs) \<Rightarrow> (Inl e, s\<lparr>files := fs\<rparr>)
      | (Inr segment, fs) \<Rightarrow>
          (Inr segment,
           s\<lparr>files := fs, segments := segments s @ [segment],
             next_segment_id := next_segment_id s + 1\<rparr>))"

text \<open>
  Saving the manifest writes a temporary file, renames it over the manifest and syncs: it succeeds,
  or it fails with the old manifest in place, or only the last sync fails.
\<close>

datatype save_outcome = Saved | SaveFailed | SavedUnsynced

definition save_manifest :: "save_outcome \<Rightarrow> doc_store \<Rightarrow> unit res \<times> doc_store" where
  "save_manifest outcome s =
     (let saved = s\<lparr>files := (files s)\<lparr>manifest_file := Some (segments s, next_segment_id s)\<rparr>\<rparr>
      in case outcome of
           Saved \<Rightarrow> (Inr (), saved)
         | SaveFailed \<Rightarrow> (Inl (Io ''saving the manifest failed''), s)
         | SavedUnsynced \<Rightarrow> (Inl (Io ''syncing the manifest failed''), saved))"

definition ds_commit :: "json_codec \<Rightarrow> bool \<Rightarrow> save_outcome \<Rightarrow> doc_store \<Rightarrow> unit res \<times> doc_store" where
  "ds_commit j io outcome s =
     (if pending_docs s \<noteq> [] then
        let docs = pending_docs s
        in case add_segment j io docs (s\<lparr>pending_docs := []\<rparr>) of
             (Inl e, s') \<Rightarrow> (Inl e, s')
           | (Inr segment, s') \<Rightarrow> save_manifest outcome s'
      else save_manifest outcome s)"

section \<open>Lookups\<close>

text \<open>Segments are searched newest first; \<open>evict\<close> is what the cache forgets on a \<open>put\<close>.\<close>

fun search_segments ::
    "json_codec \<Rightarrow> doc_files \<Rightarrow> doc_segment list \<Rightarrow> nat \<Rightarrow> document option res" where
  "search_segments j fs [] doc_id = Inr None"
| "search_segments j fs (s # ss) doc_id =
     (case reader_get_document j fs s doc_id of
        Inl e \<Rightarrow> Inl e
      | Inr (Some doc) \<Rightarrow> Inr (Some doc)
      | Inr None \<Rightarrow> search_segments j fs ss doc_id)"

definition get_document ::
    "json_codec \<Rightarrow> ((nat \<rightharpoonup> document) \<Rightarrow> (nat \<rightharpoonup> document)) \<Rightarrow> nat \<Rightarrow> doc_store \<Rightarrow>
     document option res \<times> doc_store" where
  "get_document j evict doc_id s =
     (case map_of (pending_docs s) doc_id of
        Some doc \<Rightarrow> (Inr (Some doc), s)
      | None \<Rightarrow>
          (case doc_cache s doc_id of
             Some doc \<Rightarrow> (Inr (Some doc), s)
           | None \<Rightarrow>
               (case search_segments j (files s) (rev (segments s)) doc_id of
                  Inl e \<Rightarrow> (Inl e, s)
                | Inr (Some doc) \<Rightarrow>
                    (Inr (Some doc), s\<lparr>doc_cache := evict ((doc_cache s)(doc_id \<mapsto> doc))\<rparr>)
                | Inr None \<Rightarrow> (Inr None, s))))"

text \<open>The batch loads every segment's hits, oldest first, so a newer segment overwrites.\<close>

fun load_batch ::
    "json_codec \<Rightarrow> doc_files \<Rightarrow> doc_segment list \<Rightarrow> nat list \<Rightarrow> (nat \<rightharpoonup> document) \<Rightarrow> (nat \<rightharpoonup> document) res" where
  "load_batch j fs [] ids loaded = Inr loaded"
| "load_batch j fs (s # ss) ids loaded =
     rbind (reader_get_documents_batch j fs s ids) (\<lambda>hits. load_batch j fs ss ids (loaded ++ hits))"

definition get_documents_batch ::
    "json_codec \<Rightarrow> ((nat \<rightharpoonup> document) \<Rightarrow> (nat \<rightharpoonup> document)) \<Rightarrow> nat list \<Rightarrow> doc_store \<Rightarrow>
     (nat \<rightharpoonup> document) res \<times> doc_store" where
  "get_documents_batch j evict doc_ids s =
     (if doc_ids = [] then (Inr Map.empty, s)
      else
        let from_pending = map_of (pending_docs s) |` set doc_ids;
            results = (doc_cache s |` set doc_ids) ++ from_pending;
            remaining = filter (\<lambda>i. results i = None) doc_ids
        in if remaining = [] then (Inr results, s)
           else
             (case load_batch j (files s) (segments s) remaining Map.empty of
                Inl e \<Rightarrow> (Inl e, s)
              | Inr loaded \<Rightarrow>
                  (Inr (results ++ loaded), s\<lparr>doc_cache := evict (doc_cache s ++ loaded)\<rparr>)))"



fun find_all_in_segments ::
    "json_codec \<Rightarrow> doc_files \<Rightarrow> doc_segment list \<Rightarrow> string \<Rightarrow> nat list res" where
  "find_all_in_segments j fs [] external_id = Inr []"
| "find_all_in_segments j fs (s # ss) external_id =
     rbind (reader_find_all_by_external_id j fs s external_id)
       (\<lambda>found. rbind (find_all_in_segments j fs ss external_id) (\<lambda>rest. Inr (found @ rest)))"

definition find_all_by_external_id :: "json_codec \<Rightarrow> string \<Rightarrow> doc_store \<Rightarrow> nat list res" where
  "find_all_by_external_id j external_id s =
     rbind (find_all_in_segments j (files s) (segments s) external_id)
       (\<lambda>found. Inr (map fst (filter (\<lambda>(i, d). external_id_of d = Some external_id)
                       (pending_docs s)) @ found))"

section \<open>Meaning and invariant\<close>

text \<open>What the segments hold of each document, newest first, as bytes and decoded.\<close>

definition seg_map :: "doc_files \<Rightarrow> doc_segment \<Rightarrow> (nat \<rightharpoonup> bytes)" where
  "seg_map fs s = (case seg_files fs (seg_id s) of None \<Rightarrow> Map.empty | Some es \<Rightarrow> map_of es)"

definition segs_map :: "doc_files \<Rightarrow> doc_segment list \<Rightarrow> (nat \<rightharpoonup> bytes)" where
  "segs_map fs segs = foldl (\<lambda>m s. m ++ seg_map fs s) Map.empty segs"

definition decoded :: "json_codec \<Rightarrow> (nat \<rightharpoonup> bytes) \<Rightarrow> (nat \<rightharpoonup> document)" where
  "decoded j m = (\<lambda>k. Option.bind (m k) (from_json j))"

definition ds_view :: "json_codec \<Rightarrow> doc_store \<Rightarrow> (nat \<rightharpoonup> document)" where
  "ds_view j s = decoded j (segs_map (files s) (segments s)) ++ map_of (pending_docs s)"

text \<open>The answer to a lookup: the view, or the error of decoding the newest version.\<close>

definition lookup_json :: "json_codec \<Rightarrow> (nat \<rightharpoonup> bytes) \<Rightarrow> nat \<Rightarrow> document option res" where
  "lookup_json j m k =
     (case m k of
        None \<Rightarrow> Inr None
      | Some json \<Rightarrow> rbind (read_entry j json) (\<lambda>doc. Inr (Some doc)))"

definition ds_lookup :: "json_codec \<Rightarrow> doc_store \<Rightarrow> nat \<Rightarrow> document option res" where
  "ds_lookup j s k =
     (case map_of (pending_docs s) k of
        Some doc \<Rightarrow> Inr (Some doc)
      | None \<Rightarrow> lookup_json j (segs_map (files s) (segments s)) k)"

text \<open>What a store opened on these files would hold.\<close>

definition durable_view :: "json_codec \<Rightarrow> doc_files \<Rightarrow> (nat \<rightharpoonup> document)" where
  "durable_view j fs = ds_view j (ds_open fs)"

text \<open>
  A document JSON carries: what it is written as, if it can be written, decodes to it. A document
  with a float that is not finite is none of these.
\<close>

definition json_carries :: "json_codec \<Rightarrow> document \<Rightarrow> bool" where
  "json_carries j d \<longleftrightarrow> (case to_json j d of None \<Rightarrow> True | Some json \<Rightarrow> from_json j json = Some d)"

text \<open>Every version of these documents that a segment holds decodes.\<close>

definition decodes :: "json_codec \<Rightarrow> (nat \<rightharpoonup> bytes) \<Rightarrow> nat set \<Rightarrow> bool" where
  "decodes j m ks \<longleftrightarrow> (\<forall>k \<in> ks. \<forall>json. m k = Some json \<longrightarrow> from_json j json \<noteq> None)"

definition versions_decode :: "json_codec \<Rightarrow> doc_store \<Rightarrow> nat set \<Rightarrow> bool" where
  "versions_decode j s ks \<longleftrightarrow> (\<forall>g \<in> set (segments s). decodes j (seg_map (files s) g) ks)"

definition segment_wf :: "doc_files \<Rightarrow> doc_segment \<Rightarrow> bool" where
  "segment_wf fs s \<longleftrightarrow>
     (case seg_files fs (seg_id s) of
        None \<Rightarrow> False
      | Some es \<Rightarrow> distinct (map fst es) \<and> list_all (\<lambda>(i, json). segment_contains s i) es)"

definition segs_wf :: "doc_files \<Rightarrow> doc_segment list \<Rightarrow> nat \<Rightarrow> bool" where
  "segs_wf fs segs n \<longleftrightarrow> (\<forall>g \<in> set segs. segment_wf fs g \<and> seg_id g < n)"

definition files_wf :: "doc_files \<Rightarrow> nat \<Rightarrow> bool" where
  "files_wf fs n \<longleftrightarrow>
     (case manifest_file fs of None \<Rightarrow> True | Some (segs, m) \<Rightarrow> segs_wf fs segs m \<and> m \<le> n)"

definition cache_coherent :: "json_codec \<Rightarrow> doc_store \<Rightarrow> bool" where
  "cache_coherent j s \<longleftrightarrow>
     (\<forall>k d. doc_cache s k = Some d \<longrightarrow>
        map_of (pending_docs s) k = None \<and> decoded j (segs_map (files s) (segments s)) k = Some d)"

definition ds_inv :: "json_codec \<Rightarrow> doc_store \<Rightarrow> bool" where
  "ds_inv j s \<longleftrightarrow>
     segs_wf (files s) (segments s) (next_segment_id s) \<and>
     files_wf (files s) (next_segment_id s) \<and>
     distinct (map fst (pending_docs s)) \<and>
     (\<forall>i \<in> fst ` set (pending_docs s). i < store_next_doc_id s) \<and>
     (\<forall>g \<in> set (segments s). end_doc_id g < store_next_doc_id s) \<and>
     cache_coherent j s"

lemma segs_map_simps [simp]:
  "segs_map fs [] = Map.empty"
  "segs_map fs (segs @ [s]) = segs_map fs segs ++ seg_map fs s"
  by (simp_all add: segs_map_def)

lemma decoded_empty [simp]: "decoded j Map.empty = Map.empty"
  by (simp add: decoded_def)

lemma decoded_apply: "decoded j m k = Option.bind (m k) (from_json j)"
  by (simp add: decoded_def)

lemma decodesD:
  "decodes j m A \<Longrightarrow> k \<in> A \<Longrightarrow> m k = Some json \<Longrightarrow> \<exists>d. from_json j json = Some d"
  by (auto simp: decodes_def)

lemma decoded_add:
  assumes "decodes j n UNIV"
  shows "decoded j (m ++ n) = decoded j m ++ decoded j n"
proof
  fix k
  show "decoded j (m ++ n) k = (decoded j m ++ decoded j n) k"
    using decodesD [OF assms UNIV_I, of k]
    by (cases "n k") (auto simp: decoded_def map_add_def)
qed

lemma read_entry_cases: "read_entry j json =
    (case from_json j json of None \<Rightarrow> Inl (Index ''failed to deserialize document'') | Some d \<Rightarrow> Inr d)"
  by (simp add: read_entry_def)

lemma lookup_json_decoded:
  "lookup_json j m k = Inr x \<Longrightarrow> decoded j m k = x"
  "lookup_json j m k = Inl e \<Longrightarrow> decoded j m k = None"
  by (auto simp: lookup_json_def decoded_def read_entry_def split: option.splits)

lemma rmap_decode: "rmap (decode_document j) es =
    (if \<forall>p \<in> set es. from_json j (snd p) \<noteq> None
     then Inr (map (\<lambda>p. (fst p, the (from_json j (snd p)))) es)
     else Inl (Index ''failed to deserialize document''))"
  by (rule rmap_partial [where g = "\<lambda>p. from_json j (snd p)"])
    (simp add: decode_document_def read_entry_def split: option.splits)

lemma rmap_encode: "rmap (encode_document j) ds =
    (if \<forall>p \<in> set ds. to_json j (snd p) \<noteq> None
     then Inr (map (\<lambda>p. (fst p, the (to_json j (snd p)))) ds)
     else Inl (Index ''failed to serialize document''))"
  by (rule rmap_partial [where g = "\<lambda>p. to_json j (snd p)"])
    (simp add: encode_document_def split: option.splits)

lemma map_of_map_snd: "map_of (map (\<lambda>p. (fst p, f (snd p))) es) = map_option f \<circ> map_of es"
  by (induction es) (auto simp: fun_eq_iff)

lemma clearjunk_rev_distinct: "distinct (map fst es) \<Longrightarrow> rev (AList.clearjunk (rev es)) = es"
  by (simp add: distinct_clearjunk_id rev_map [symmetric] distinct_rev)

lemma segment_wf_map:
  assumes "segment_wf fs s"
  obtains es where "segment_entries fs s = Inr es" "seg_files fs (seg_id s) = Some es"
    "distinct (map fst es)" "seg_map fs s = map_of es"
    "\<And>k. k \<in> fst ` set es \<Longrightarrow> segment_contains s k"
  using assms
  by (fastforce simp: segment_wf_def segment_entries_def seg_map_def list_all_iff clearjunk_rev_distinct
      split: option.splits)

lemma seg_map_contains:
  "segment_wf fs s \<Longrightarrow> seg_map fs s k = Some d \<Longrightarrow> segment_contains s k"
  by (erule segment_wf_map) (simp add: dom_map_of_conv_image_fst [symmetric] domI)

lemma reader_get_document_wf:
  assumes "segment_wf fs s"
  shows "reader_get_document j fs s k = lookup_json j (seg_map fs s) k"
  using assms
proof (rule segment_wf_map)
  fix es
  assume es: "segment_entries fs s = Inr es" "seg_map fs s = map_of es"
  show ?thesis
    using es seg_map_contains [OF assms, of k]
    by (cases "seg_map fs s k") (auto simp: reader_get_document_def lookup_json_def)
qed

lemma search_segments_wf:
  "\<forall>g \<in> set segs. segment_wf fs g \<Longrightarrow>
   search_segments j fs (rev segs) k = lookup_json j (segs_map fs segs) k"
proof (induction segs rule: rev_induct)
  case Nil
  then show ?case by (simp add: lookup_json_def)
next
  case (snoc g segs)
  then have g: "reader_get_document j fs g k = lookup_json j (seg_map fs g) k"
    by (simp add: reader_get_document_wf)
  with snoc show ?case
    by (cases "seg_map fs g k")
      (auto simp: lookup_json_def map_add_def read_entry_def split: option.splits)
qed

lemma decodes_filter:
  assumes "distinct (map fst es)"
  shows "(\<forall>p \<in> set (filter (\<lambda>(i, json). i \<in> A) es). from_json j (snd p) \<noteq> None) \<longleftrightarrow>
    decodes j (map_of es) A"
  using assms by (auto simp: decodes_def map_of_eq_Some_iff simp del: not_None_eq)

lemma map_of_filter_fst: "map_of (filter (\<lambda>(i, x). i \<in> A) es) = map_of es |` A"
  by (induction es) (auto simp: restrict_map_def fun_eq_iff)

lemma decoded_hits:
  assumes "decodes j m A"
  shows "map_option (\<lambda>json. the (from_json j json)) \<circ> (m |` A) = decoded j m |` A"
proof
  fix k
  show "(map_option (\<lambda>json. the (from_json j json)) \<circ> (m |` A)) k = (decoded j m |` A) k"
    using assms by (cases "m k") (auto simp: restrict_map_def decoded_def decodes_def)
qed

lemma reader_batch_wf:
  assumes "segment_wf fs s"
  shows "if decodes j (seg_map fs s) (set ids)
    then reader_get_documents_batch j fs s ids = Inr (decoded j (seg_map fs s) |` set ids)
    else \<not> ok (reader_get_documents_batch j fs s ids)"
  using assms
proof (rule segment_wf_map)
  fix es
  assume es: "segment_entries fs s = Inr es" "distinct (map fst es)" "seg_map fs s = map_of es"
    and inside: "\<And>k. k \<in> fst ` set es \<Longrightarrow> segment_contains s k"
  let ?hits = "filter (\<lambda>(i, json). i \<in> set ids) es"
  have batch: "rbind (rmap (decode_document j) ?hits) (\<lambda>results. Inr (map_of results)) =
      (if decodes j (map_of es) (set ids) then Inr (decoded j (map_of es) |` set ids)
       else Inl (Index ''failed to deserialize document''))"
    unfolding rmap_decode decodes_filter [OF es(2)]
    by (simp add: map_of_map_snd [of "\<lambda>json. the (from_json j json)"] map_of_filter_fst decoded_hits)
  show ?thesis
  proof (cases "list_ex (segment_contains s) ids")
    case True
    with es batch show ?thesis by (simp add: reader_get_documents_batch_def)
  next
    case False
    then have none: "map_of es k = None" if "k \<in> set ids" for k
      using that inside [of k] by (auto simp: list_ex_iff map_of_eq_None_iff)
    then have "decodes j (map_of es) (set ids)" by (simp add: decodes_def)
    moreover have "decoded j (map_of es) |` set ids = Map.empty"
      using none by (auto simp: restrict_map_def decoded_def)
    ultimately show ?thesis
      using False es(3) by (simp add: reader_get_documents_batch_def)
  qed
qed

lemma foldl_map_add: "foldl (\<lambda>m s. m ++ f s) m segs = m ++ foldl (\<lambda>m s. m ++ f s) Map.empty segs"
proof (induction segs arbitrary: m)
  case Nil
  then show ?case by simp
next
  case (Cons s segs)
  show ?case
    using Cons [of "m ++ f s"] Cons [of "f s"] by simp
qed

lemma segs_map_Cons: "segs_map fs (s # segs) = seg_map fs s ++ segs_map fs segs"
  using foldl_map_add [of "seg_map fs" "seg_map fs s" segs] by (simp add: segs_map_def)

lemma restrict_map_add: "(m ++ n) |` A = (m |` A) ++ (n |` A)"
  by (auto simp: restrict_map_def map_add_def fun_eq_iff)

lemma decoded_segs_Cons:
  assumes "\<forall>g \<in> set segs. decodes j (seg_map fs g) A"
  shows "decoded j (segs_map fs (g # segs)) |` A = (decoded j (seg_map fs g) ++ decoded j (segs_map fs segs)) |` A"
    and "decodes j (segs_map fs segs) A"
proof -
  show d: "decodes j (segs_map fs segs) A"
    using assms
  proof (induction segs rule: rev_induct)
    case Nil
    then show ?case by (simp add: decodes_def)
  next
    case (snoc h segs)
    then show ?case by (auto simp: decodes_def map_add_Some_iff)
  qed
  show "decoded j (segs_map fs (g # segs)) |` A =
      (decoded j (seg_map fs g) ++ decoded j (segs_map fs segs)) |` A"
  proof
    fix k
    show "(decoded j (segs_map fs (g # segs)) |` A) k =
        ((decoded j (seg_map fs g) ++ decoded j (segs_map fs segs)) |` A) k"
      using decodesD [OF d, of k]
      by (cases "segs_map fs segs k")
        (auto simp: decoded_def restrict_map_def segs_map_Cons map_add_def)
  qed
qed

lemma load_batch_wf:
  "\<forall>g \<in> set segs. segment_wf fs g \<Longrightarrow>
   if \<forall>g \<in> set segs. decodes j (seg_map fs g) (set ids)
   then load_batch j fs segs ids loaded = Inr (loaded ++ (decoded j (segs_map fs segs) |` set ids))
   else \<not> ok (load_batch j fs segs ids loaded)"
proof (induction segs arbitrary: loaded)
  case Nil
  then show ?case by simp
next
  case (Cons g segs)
  note batch = reader_batch_wf [of fs g j ids]
  show ?case
  proof (cases "decodes j (seg_map fs g) (set ids)")
    case False
    with batch Cons.prems show ?thesis
      by (cases "reader_get_documents_batch j fs g ids") auto
  next
    case True
    with batch Cons show ?thesis
      using decoded_segs_Cons(1) [of segs j fs "set ids" g]
      by (simp add: restrict_map_add)
  qed
qed

lemmas ds_inv_parts = ds_inv_def segs_wf_def files_wf_def cache_coherent_def

section \<open>Every operation keeps the invariant\<close>

definition evicts :: "((nat \<rightharpoonup> document) \<Rightarrow> (nat \<rightharpoonup> document)) \<Rightarrow> bool" where
  "evicts f \<longleftrightarrow> (\<forall>m. f m \<subseteq>\<^sub>m m)"

lemma evictsD: "evicts f \<Longrightarrow> f m k = Some d \<Longrightarrow> m k = Some d"
  by (auto simp: evicts_def map_le_def dom_def) metis

lemma put_inv: "ds_inv j s \<Longrightarrow> ds_inv j (put_document_with_id k d s)"
  by (fastforce simp: ds_inv_parts put_document_with_id_def distinct_update dom_update update_conv'
      split: option.splits)

lemma put_view: "ds_view j (put_document_with_id k d s) = (ds_view j s)(k \<mapsto> d)"
  by (simp add: ds_view_def put_document_with_id_def update_conv')

lemma add_document_eq:
  assumes "ds_inv j s" "add_document d s = (k, s')"
  shows "k = store_next_doc_id s" "s' = put_document_with_id k d s" "ds_view j s k = None"
proof -
  show k: "k = store_next_doc_id s"
    using assms(2) by (simp add: add_document_def)
  have pend: "map_of (pending_docs s) k = None"
    using assms(1) k by (force simp: ds_inv_def map_of_eq_None_iff)
  have segs: "segs_map (files s) gs k = None" if "set gs \<subseteq> set (segments s)" for gs
    using that
  proof (induction gs rule: rev_induct)
    case Nil
    then show ?case by simp
  next
    case (snoc g gs)
    then have "g \<in> set (segments s)" by simp
    with assms(1) have "segment_wf (files s) g" "end_doc_id g < k"
      by (auto simp: ds_inv_parts k)
    with seg_map_contains [of "files s" g k] have "seg_map (files s) g k = None"
      by (cases "seg_map (files s) g k") (auto simp: segment_contains_def)
    with snoc show ?case by (simp add: map_add_def)
  qed
  from pend segs show view: "ds_view j s k = None"
    by (simp add: ds_view_def map_add_None decoded_apply)
  have "decoded j (segs_map (files s) (segments s)) k = None"
    using segs [OF order_refl] by (simp add: decoded_apply)
  then have "doc_cache s k = None"
    using assms(1) by (cases "doc_cache s k") (auto simp: ds_inv_def cache_coherent_def)
  then have "(doc_cache s)(k := None) = doc_cache s" by auto
  with assms(2) k show "s' = put_document_with_id k d s"
    by (auto simp: add_document_def put_document_with_id_def)
qed

lemma ds_inv_wf: "ds_inv j s \<Longrightarrow> \<forall>g \<in> set (segments s). segment_wf (files s) g"
  by (simp add: ds_inv_parts)

lemma cache_view: "ds_inv j s \<Longrightarrow> doc_cache s k = Some d \<Longrightarrow> ds_view j s k = Some d"
  by (auto simp: ds_inv_def cache_coherent_def ds_view_def map_add_def)

lemma ds_lookup_view:
  "ds_lookup j s k = Inr x \<Longrightarrow> ds_view j s k = x"
  by (auto simp: ds_lookup_def ds_view_def map_add_def lookup_json_decoded(1) split: option.splits)

lemma get_document_spec:
  assumes "ds_inv j s" "evicts evict"
  shows "\<exists>s'. get_document j evict k s = (ds_lookup j s k, s') \<and> ds_inv j s' \<and>
    ds_view j s' = ds_view j s"
proof -
  consider (pending) d where "map_of (pending_docs s) k = Some d"
    | (cached) d where "map_of (pending_docs s) k = None" "doc_cache s k = Some d"
    | (segs) "map_of (pending_docs s) k = None" "doc_cache s k = None"
    by (cases "map_of (pending_docs s) k"; cases "doc_cache s k") auto
  then show ?thesis
  proof cases
    case pending
    with assms show ?thesis
      by (auto simp: get_document_def ds_lookup_def)
  next
    case cached
    then have "decoded j (segs_map (files s) (segments s)) k = Some d"
      using assms(1) by (simp add: ds_inv_def cache_coherent_def)
    then have "ds_lookup j s k = Inr (Some d)"
      using cached(1)
      by (auto simp: ds_lookup_def decoded_def lookup_json_def read_entry_def bind_eq_Some_conv)
    with assms cached show ?thesis
      by (auto simp: get_document_def)
  next
    case segs
    have found: "search_segments j (files s) (rev (segments s)) k = ds_lookup j s k"
      using search_segments_wf [OF ds_inv_wf [OF assms(1)], of j k] segs
      by (simp add: ds_lookup_def)
    show ?thesis
    proof (cases "\<exists>d. ds_lookup j s k = Inr (Some d)")
      case False
      with segs found assms show ?thesis
        by (cases "ds_lookup j s k") (auto simp: get_document_def)
    next
      case True
      then obtain d where d: "ds_lookup j s k = Inr (Some d)" by blast
      with segs have v: "decoded j (segs_map (files s) (segments s)) k = Some d"
        by (simp add: ds_lookup_def lookup_json_decoded(1))
      let ?s = "s\<lparr>doc_cache := evict ((doc_cache s)(k \<mapsto> d))\<rparr>"
      have "get_document j evict k s = (ds_lookup j s k, ?s)"
        using segs found d by (simp add: get_document_def)
      moreover have "ds_inv j ?s"
        using assms(1) v segs evictsD [OF assms(2)]
        by (fastforce simp: ds_inv_parts split: if_splits)
      ultimately show ?thesis by (auto simp: ds_view_def)
    qed
  qed
qed

text \<open>
  A batch answers with the view, or ends in an error; it ends in one only when a version of a
  requested document, be it older than the newest, does not decode.
\<close>

lemma get_documents_batch_spec:
  assumes "ds_inv j s" "evicts evict"
  shows "\<exists>r s'. get_documents_batch j evict ids s = (r, s') \<and> ds_inv j s' \<and>
    ds_view j s' = ds_view j s \<and> (ok r \<longrightarrow> r = Inr (ds_view j s |` set ids)) \<and>
    (versions_decode j s (set ids) \<longrightarrow> ok r)"
proof (cases "ids = []")
  case True
  with assms show ?thesis by (simp add: get_documents_batch_def)
next
  case False
  let ?results = "(doc_cache s |` set ids) ++ (map_of (pending_docs s) |` set ids)"
  let ?remaining = "filter (\<lambda>i. ?results i = None) ids"
  let ?loaded = "decoded j (segs_map (files s) (segments s)) |` set ?remaining"
  have hit: "ds_view j s i = Some d" if "?results i = Some d" for i d
    using that cache_view [OF assms(1), of i d]
    by (auto simp: map_add_Some_iff restrict_map_def ds_view_def split: if_splits)
  have miss: "ds_view j s i = decoded j (segs_map (files s) (segments s)) i"
    if "?results i = None" "i \<in> set ids" for i
    using that
    by (simp add: map_add_None restrict_map_def ds_view_def map_add_def split: option.splits)
  have sum: "?results ++ ?loaded = ds_view j s |` set ids"
  proof
    fix i
    show "(?results ++ ?loaded) i = (ds_view j s |` set ids) i"
    proof (cases "i \<in> set ids")
      case False
      then show ?thesis by (simp add: map_add_def restrict_map_def)
    next
      case True
      show ?thesis
      proof (cases "?results i")
        case None
        with True miss [OF None True] show ?thesis
          by (simp only: map_add_def restrict_map_def set_filter mem_Collect_eq simp_thms if_True
              option.case_eq_if split: if_splits) auto
      next
        case (Some d)
        with True hit [OF Some] show ?thesis
          by (simp add: map_add_def restrict_map_def)
      qed
    qed
  qed
  note load = load_batch_wf [OF ds_inv_wf [OF assms(1)], of j ?remaining Map.empty]
  show ?thesis
  proof (cases "?remaining = []")
    case True
    then have "?loaded = Map.empty" by simp
    with sum have r: "?results = ds_view j s |` set ids" by simp
    have "get_documents_batch j evict ids s = (Inr ?results, s)"
      using True False by (simp add: get_documents_batch_def Let_def)
    with r assms(1) show ?thesis by auto
  next
    case rem: False
    show ?thesis
    proof (cases "\<forall>g \<in> set (segments s). decodes j (seg_map (files s) g) (set ?remaining)")
      case False
      with load have "\<not> ok (load_batch j (files s) (segments s) ?remaining Map.empty)"
        by (simp only: if_False simp_thms)
      then obtain e where "load_batch j (files s) (segments s) ?remaining Map.empty = Inl e"
        by (metis ok_iff sum.exhaust)
      then have "get_documents_batch j evict ids s = (Inl e, s)"
        using \<open>ids \<noteq> []\<close> rem by (simp add: get_documents_batch_def Let_def)
      moreover have "\<not> versions_decode j s (set ids)"
        using False by (auto simp: versions_decode_def decodes_def)
      ultimately show ?thesis using assms(1) by simp
    next
      case True
      let ?s = "s\<lparr>doc_cache := evict (doc_cache s ++ ?loaded)\<rparr>"
      from True load have l: "load_batch j (files s) (segments s) ?remaining Map.empty = Inr ?loaded"
        by simp
      have "get_documents_batch j evict ids s = (Inr (?results ++ ?loaded), ?s)"
        using False rem l by (simp add: get_documents_batch_def Let_def)
      moreover have "cache_coherent j ?s"
        unfolding cache_coherent_def
      proof (intro allI impI)
        fix k d
        assume "doc_cache ?s k = Some d"
        then have "(doc_cache s ++ ?loaded) k = Some d"
          using evictsD [OF assms(2)] by simp
        then consider "?loaded k = Some d" | "doc_cache s k = Some d"
          by (auto simp: map_add_Some_iff)
        then show "map_of (pending_docs ?s) k = None \<and>
            decoded j (segs_map (files ?s) (segments ?s)) k = Some d"
        proof cases
          case 1
          then show ?thesis
            by (auto simp: restrict_map_def map_add_None split: if_splits)
        next
          case 2
          with assms(1) show ?thesis by (simp add: ds_inv_def cache_coherent_def)
        qed
      qed
      moreover have "ds_view j ?s = ds_view j s" by (simp add: ds_view_def)
      ultimately show ?thesis
        using assms(1) sum by (simp add: ds_inv_def)
    qed
  qed
qed

section \<open>Commit and reopen\<close>

lemma map_of_sorted_entries:
  assumes "distinct (map fst docs)"
  shows "map_of (map (\<lambda>i. (i, the (map_of docs i))) (sort (map fst docs))) = map_of docs"
proof
  fix k
  show "map_of (map (\<lambda>i. (i, the (map_of docs i))) (sort (map fst docs))) k = map_of docs k"
  proof (cases "k \<in> fst ` set docs")
    case True
    then obtain d where "map_of docs k = Some d"
      by (metis domD dom_map_of_conv_image_fst)
    with True show ?thesis by (simp add: map_of_map_restrict restrict_map_def)
  next
    case False
    then have "map_of docs k = None" by (simp add: map_of_eq_None_iff)
    with False show ?thesis by (simp add: map_of_map_restrict restrict_map_def)
  qed
qed

lemma sorted_hd_last:
  assumes "sorted xs" "x \<in> set xs"
  shows "hd xs \<le> (x :: nat)" "x \<le> last xs"
proof -
  from assms(2) have ne: "xs \<noteq> []" by auto
  show "hd xs \<le> x"
    using assms ne by (cases xs) auto
  have "xs = butlast xs @ [last xs]" using ne by simp
  then show "x \<le> last xs"
    using assms by (metis Un_iff empty_iff empty_set in_set_conv_decomp order_refl set_ConsD
        set_append sorted_append)
qed

text \<open>A segment that is written holds the bytes of every document, in the order of their ids.\<close>

lemma write_segment_ok:
  assumes "write_segment j io n docs fs = (Inr g, fs')" "distinct (map fst docs)"
  shows "seg_id g = n" "segment_wf fs' g"
    "seg_map fs' g = (\<lambda>k. Option.bind (map_of docs k) (to_json j))"
    "\<forall>p \<in> set docs. to_json j (snd p) \<noteq> None"
    "manifest_file fs' = manifest_file fs"
    "\<And>m. m \<noteq> n \<Longrightarrow> seg_files fs' m = seg_files fs m"
    "end_doc_id g \<in> fst ` set docs"
proof -
  let ?ids = "sort (map fst docs)"
  let ?sorted = "map (\<lambda>i. (i, the (map_of docs i))) ?ids"
  have ne: "docs \<noteq> []"
    using assms(1) by (auto simp: write_segment_def split: if_splits)
  then have ids: "?ids \<noteq> []" by (metis length_0_conv length_map length_sort)
  from assms(1) obtain es where g: "g = \<lparr>seg_id = n, start_doc_id = hd ?ids, end_doc_id = last ?ids,
      doc_count = length docs\<rparr>"
    and fs': "fs' = fs\<lparr>seg_files := (seg_files fs)(n \<mapsto> es)\<rparr>"
    and "rmap (encode_document j) ?sorted = Inr es"
    by (auto simp: write_segment_def Let_def split: if_splits sum.splits)
  then have enc: "\<forall>p \<in> set ?sorted. to_json j (snd p) \<noteq> None"
    and es: "es = map (\<lambda>p. (fst p, the (to_json j (snd p)))) ?sorted"
    unfolding rmap_encode by (auto split: if_splits)
  show "seg_id g = n" "manifest_file fs' = manifest_file fs"
    "\<And>m. m \<noteq> n \<Longrightarrow> seg_files fs' m = seg_files fs m"
    by (simp_all add: g fs')
  show all: "\<forall>p \<in> set docs. to_json j (snd p) \<noteq> None"
  proof
    fix p
    assume "p \<in> set docs"
    then have "(fst p, the (map_of docs (fst p))) \<in> set ?sorted" "map_of docs (fst p) = Some (snd p)"
      using assms(2) by auto
    with enc show "to_json j (snd p) \<noteq> None" by fastforce
  qed
  have "map_of es = map_option (\<lambda>d. the (to_json j d)) \<circ> map_of docs"
    unfolding es map_of_map_snd [of "\<lambda>d. the (to_json j d)"] map_of_sorted_entries [OF assms(2)] ..
  moreover have "(map_option (\<lambda>d. the (to_json j d)) \<circ> map_of docs) k = Option.bind (map_of docs k) (to_json j)"
    for k using all by (cases "map_of docs k") (force dest: map_of_SomeD)+
  ultimately show "seg_map fs' g = (\<lambda>k. Option.bind (map_of docs k) (to_json j))"
    by (auto simp: g fs' seg_map_def)
  have keys: "map fst es = ?ids" by (simp add: es comp_def)
  then have fsts: "fst ` set es = set (map fst docs)" by (metis list.set_map set_sort)
  have "segment_contains g i" if "i \<in> set (map fst docs)" for i
    using that sorted_hd_last [of ?ids i] by (simp add: g segment_contains_def)
  then have "segment_contains g (fst p)" if "p \<in> set es" for p
    using that fsts by blast
  moreover have "distinct (map fst es)" unfolding keys using assms(2) by simp
  ultimately show "segment_wf fs' g"
    by (auto simp: g fs' segment_wf_def list_all_iff)
  have "last ?ids \<in> set ?ids" using ids by (rule last_in_set)
  then show "end_doc_id g \<in> fst ` set docs"
    by (simp add: g)
qed

text \<open>What JSON carries is read back as it was written.\<close>

lemma written_segment_decodes:
  assumes "m = (\<lambda>k. Option.bind (map_of docs k) (to_json j))"
    "\<forall>p \<in> set docs. to_json j (snd p) \<noteq> None \<and> json_carries j (snd p)"
  shows "decodes j m UNIV" "decoded j m = map_of docs"
proof -
  have carried: "from_json j json = Some d" if "map_of docs k = Some d" "to_json j d = Some json" for k d json
    using that assms(2) by (fastforce simp: json_carries_def dest: map_of_SomeD)
  then show "decodes j m UNIV"
    by (auto simp: decodes_def assms(1) bind_eq_Some_conv)
  show "decoded j m = map_of docs"
  proof
    fix k
    show "decoded j m k = map_of docs k"
    proof (cases "map_of docs k")
      case None
      then show ?thesis by (simp add: decoded_def assms(1))
    next
      case (Some d)
      moreover from this obtain json where "to_json j d = Some json"
        using assms(2) by (fastforce dest: map_of_SomeD)
      ultimately show ?thesis using carried by (simp add: decoded_def assms(1))
    qed
  qed
qed

lemma write_segment_frame:
  assumes "write_segment j io n docs fs = (r, fs')"
  shows "manifest_file fs' = manifest_file fs"
    "\<And>m. m \<noteq> n \<Longrightarrow> seg_files fs' m = seg_files fs m"
  using assms by (auto simp: write_segment_def Let_def split: if_splits sum.splits)

lemma segs_map_cong:
  "(\<And>g. g \<in> set segs \<Longrightarrow> seg_files fs' (seg_id g) = seg_files fs (seg_id g)) \<Longrightarrow>
   segs_map fs' segs = segs_map fs segs"
  by (induction segs rule: rev_induct) (auto simp: seg_map_def)

lemma segs_wf_cong:
  "segs_wf fs segs n \<Longrightarrow> (\<And>m. m < n \<Longrightarrow> seg_files fs' m = seg_files fs m) \<Longrightarrow> segs_wf fs' segs n"
  by (auto simp: segs_wf_def segment_wf_def)

lemma segs_wf_mono: "segs_wf fs segs n \<Longrightarrow> n \<le> m \<Longrightarrow> segs_wf fs segs m"
  by (auto simp: segs_wf_def)

lemma durable_view_eq:
  "durable_view j fs = (case manifest_file fs of None \<Rightarrow> Map.empty | Some (segs, n) \<Rightarrow> decoded j (segs_map fs segs))"
  by (auto simp: durable_view_def ds_open_def ds_new_def ds_view_def split: option.splits)

text \<open>Writing one more segment leaves every older segment readable and the manifest alone.\<close>

lemma write_segment_keeps:
  assumes "ds_inv j s" "write_segment j io (next_segment_id s) docs (files s) = (r, fs')"
  shows "segs_wf fs' (segments s) (next_segment_id s)" "files_wf fs' (next_segment_id s)"
    "segs_map fs' (segments s) = segs_map (files s) (segments s)"
    "durable_view j fs' = durable_view j (files s)"
proof -
  note frame = write_segment_frame [OF assms(2)]
  have wf: "segs_wf (files s) (segments s) (next_segment_id s)"
    and fwf: "files_wf (files s) (next_segment_id s)"
    using assms(1) by (simp_all add: ds_inv_def)
  show "segs_wf fs' (segments s) (next_segment_id s)"
    using wf frame(2) by (auto intro: segs_wf_cong)
  show "files_wf fs' (next_segment_id s)"
    using fwf frame by (auto simp: files_wf_def split: option.splits intro: segs_wf_cong)
  show "segs_map fs' (segments s) = segs_map (files s) (segments s)"
    using wf frame(2) by (intro segs_map_cong) (auto simp: segs_wf_def)
  have "segs_map fs' segs = segs_map (files s) segs" if "manifest_file (files s) = Some (segs, n)" for segs n
    using fwf frame(2) that
    by (intro segs_map_cong) (auto simp: files_wf_def segs_wf_def dest!: bspec)
  then show "durable_view j fs' = durable_view j (files s)"
    by (auto simp: durable_view_eq frame(1) split: option.splits)
qed

definition all_carried :: "json_codec \<Rightarrow> doc_store \<Rightarrow> bool" where
  "all_carried j s \<longleftrightarrow> (\<forall>p \<in> set (pending_docs s). json_carries j (snd p))"

lemma add_segment_spec:
  assumes "ds_inv j s" "add_segment j io (pending_docs s) (s\<lparr>pending_docs := []\<rparr>) = (r, s')"
  shows "ds_inv j s' \<and> pending_docs s' = [] \<and> durable_view j (files s') = durable_view j (files s) \<and>
    (case r of
       Inl _ \<Rightarrow> ds_view j s' = decoded j (segs_map (files s) (segments s))
     | Inr _ \<Rightarrow> all_carried j s \<longrightarrow> ds_view j s' = ds_view j s)"
proof -
  obtain w fs' where w: "write_segment j io (next_segment_id s) (pending_docs s) (files s) = (w, fs')"
    by fastforce
  note keeps = write_segment_keeps [OF assms(1) w]
  have pend: "distinct (map fst (pending_docs s))"
    "\<forall>i \<in> fst ` set (pending_docs s). i < store_next_doc_id s"
    "\<forall>g \<in> set (segments s). end_doc_id g < store_next_doc_id s"
    using assms(1) by (simp_all add: ds_inv_def)
  have coh: "map_of (pending_docs s) k = None \<and> decoded j (segs_map (files s) (segments s)) k = Some d"
    if "doc_cache s k = Some d" for k d
    using that assms(1) by (simp add: ds_inv_def cache_coherent_def)
  show ?thesis
  proof (cases w)
    case (Inl e)
    then have s': "r = Inl e" "s' = s\<lparr>pending_docs := [], files := fs'\<rparr>"
      using w assms(2) by (auto simp: add_segment_def)
    with keeps pend coh show ?thesis
      by (simp add: ds_inv_def cache_coherent_def ds_view_def)
  next
    case (Inr g)
    then have s': "r = Inr g" "s' = s\<lparr>pending_docs := [], files := fs',
        segments := segments s @ [g], next_segment_id := next_segment_id s + 1\<rparr>"
      using w assms(2) by (auto simp: add_segment_def)
    note new = write_segment_ok [OF w [unfolded Inr] pend(1)]
    have "end_doc_id g < store_next_doc_id s" using new(7) pend(2) by blast
    moreover have "files_wf fs' (next_segment_id s + 1)"
      using keeps(2) by (auto simp: files_wf_def split: option.splits)
    moreover have "segs_wf fs' (segments s @ [g]) (next_segment_id s + 1)"
      using keeps(1) new(1,2) by (auto simp: segs_wf_def)
    moreover have "cache_coherent j s'"
      using coh keeps(3) new(3) by (simp add: s' cache_coherent_def decoded_apply map_add_def)
    moreover have "ds_view j s' = ds_view j s" if "all_carried j s"
      using written_segment_decodes [OF new(3)] new(4) that keeps(3)
      by (simp add: s' all_carried_def ds_view_def decoded_add)
    ultimately show ?thesis
      using keeps pend(3) by (simp add: s' ds_inv_def)
  qed
qed

lemma save_manifest_spec:
  assumes "ds_inv j s" "pending_docs s = []" "save_manifest outcome s = (r, s')"
  shows "ds_inv j s' \<and> ds_view j s' = ds_view j s \<and>
    (durable_view j (files s') = (if outcome = SaveFailed then durable_view j (files s) else ds_view j s)) \<and>
    (ok r \<longleftrightarrow> outcome = Saved)"
proof -
  have [simp]: "segs_map (fs\<lparr>manifest_file := m\<rparr>) gs = segs_map fs gs" for fs m gs
    by (rule segs_map_cong) simp
  have [simp]: "segs_wf (fs\<lparr>manifest_file := m\<rparr>) gs n = segs_wf fs gs n" for fs m gs n
    by (simp add: segs_wf_def segment_wf_def)
  from assms show ?thesis
    by (cases outcome)
      (auto simp: save_manifest_def ds_inv_def cache_coherent_def files_wf_def ds_view_def
        durable_view_eq)
qed

lemma ds_commit_spec:
  assumes "ds_inv j s" "ds_commit j io outcome s = (r, s')"
  shows "ds_inv j s' \<and>
    (all_carried j s \<longrightarrow> durable_view j (files s') \<in> {durable_view j (files s), ds_view j s} \<and>
      (ok r \<longrightarrow> durable_view j (files s') = ds_view j s \<and> ds_view j s' = ds_view j s))"
proof (cases "pending_docs s = []")
  case True
  with save_manifest_spec [OF assms(1) True, of outcome r s'] assms(2) show ?thesis
    by (auto simp: ds_commit_def)
next
  case False
  obtain w t where w: "add_segment j io (pending_docs s) (s\<lparr>pending_docs := []\<rparr>) = (w, t)"
    by fastforce
  note a = add_segment_spec [OF assms(1) w]
  show ?thesis
  proof (cases w)
    case (Inl e)
    with False w assms(2) a show ?thesis by (auto simp: ds_commit_def)
  next
    case (Inr g)
    with False w assms(2) have "save_manifest outcome t = (r, s')"
      by (simp add: ds_commit_def)
    with a save_manifest_spec [of j t outcome r s'] Inr show ?thesis by auto
  qed
qed

lemma next_id_after_bound:
  "n \<le> next_id_after n segs \<and> (\<forall>g \<in> set segs. end_doc_id g < next_id_after n segs)"
proof (induction segs arbitrary: n)
  case Nil
  then show ?case by simp
next
  case (Cons g segs)
  show ?case
    using Cons [of "if end_doc_id g \<ge> n then end_doc_id g + 1 else n"]
    by (auto split: if_splits)
qed

lemma ds_open_inv: "files_wf fs n \<Longrightarrow> ds_inv j (ds_open fs)"
  using next_id_after_bound [of 1]
  by (auto simp: ds_open_def ds_new_def ds_inv_parts split: option.splits)


section \<open>Properties\<close>

text \<open>
  A small store for the witnesses. Its codec writes two documents: one it reads back, and one that
  holds a float that is not a number, whose bytes do not decode. One segment holds both.
\<close>

definition sample_doc :: "string \<Rightarrow> document" where
  "sample_doc v = doc_add_field doc_new ''_id'' (Text v)"

definition nan_doc :: document where
  "nan_doc = doc_add_field doc_new ''x'' (Float64 0x7FF8000000000000)"

definition sample_json :: json_codec where
  "sample_json =
     \<lparr>to_json = (\<lambda>d. if d = sample_doc ''b'' then Some [1] else if d = nan_doc then Some [0] else None),
      from_json = (\<lambda>bs. if bs = [1] then Some (sample_doc ''b'') else None)\<rparr>"

definition sample_empty :: doc_store where
  "sample_empty = ds_new \<lparr>seg_files = Map.empty, manifest_file = None\<rparr>"

definition sample_store :: doc_store where
  "sample_store = put_document_with_id 3 (sample_doc ''b'') sample_empty"

definition sample_segment :: doc_segment where
  "sample_segment = \<lparr>seg_id = 0, start_doc_id = 3, end_doc_id = 5, doc_count = 2\<rparr>"

definition sample_committed :: "(nat \<times> bytes) list \<Rightarrow> doc_store" where
  "sample_committed es =
     ds_open \<lparr>seg_files = [0 \<mapsto> es], manifest_file = Some ([sample_segment], 1)\<rparr>"

lemma sample_inv: "ds_inv j sample_empty" "ds_inv j sample_store"
proof -
  show e: "ds_inv j sample_empty"
    by (simp add: sample_empty_def ds_new_def ds_inv_parts)
  then show "ds_inv j sample_store"
    unfolding sample_store_def by (rule put_inv)
qed

lemma sample_view: "ds_view j sample_empty = Map.empty" "ds_view j sample_store = [3 \<mapsto> sample_doc ''b'']"
proof -
  show e: "ds_view j sample_empty = Map.empty"
    by (simp add: sample_empty_def ds_new_def ds_view_def)
  then show "ds_view j sample_store = [3 \<mapsto> sample_doc ''b'']"
    by (simp add: sample_store_def put_view)
qed

lemma sample_committed_inv:
  "ds_inv j (sample_committed [(3, [1]), (5, [0])])" "ds_inv j (sample_committed [(3, [1])])"
  unfolding sample_committed_def
  by (rule ds_open_inv [where n = 1], simp add: files_wf_def segs_wf_def segment_wf_def sample_segment_def
      segment_contains_def)+

lemma sample_committed_view:
  "ds_view sample_json (sample_committed [(3, [1]), (5, [0])]) = [3 \<mapsto> sample_doc ''b'']"
  "ds_view sample_json (sample_committed [(3, [1])]) = [3 \<mapsto> sample_doc ''b'']"
  "ds_lookup sample_json (sample_committed [(3, [1]), (5, [0])]) 5 =
     Inl (Index ''failed to deserialize document'')"
  by (auto simp: sample_committed_def ds_view_def ds_open_def segs_map_def seg_map_def
      sample_segment_def decoded_def sample_json_def fun_eq_iff ds_lookup_def lookup_json_def
      read_entry_def)

lemma sample_versions:
  "versions_decode sample_json (sample_committed [(3, [1])]) ks"
  "\<not> versions_decode sample_json (sample_committed [(3, [1]), (5, [0])]) UNIV"
  by (auto simp: versions_decode_def decodes_def sample_committed_def ds_open_def seg_map_def
      sample_segment_def sample_json_def)

text \<open>
  C7. Lookups see the pending version of a document, else what the newest segment's entry of it
  decodes to, and nothing else, whatever the cache holds and forgets. A single lookup returns exactly
  that, and an error exactly when that entry does not decode. A batch that answers returns the
  store's view of the requested documents, and it does answer when every version of them that a
  segment holds decodes, an older one included. Neither changes what the store holds. The segment
  files of the store are those its manifest names, which can be opened and verified.
\<close>

theorem doc_lookup_is_view:
  assumes "ds_inv j s" and "evicts evict"
  shows "fst (get_document j evict k s) = ds_lookup j s k \<and>
    (\<forall>x. ds_lookup j s k = Inr x \<longrightarrow> x = ds_view j s k) \<and>
    (\<forall>m. fst (get_documents_batch j evict ids s) = Inr m \<longrightarrow> m = ds_view j s |` set ids) \<and>
    (versions_decode j s (set ids) \<longrightarrow> ok (fst (get_documents_batch j evict ids s))) \<and>
    ds_inv j (snd (get_document j evict k s)) \<and> ds_view j (snd (get_document j evict k s)) = ds_view j s \<and>
    ds_inv j (snd (get_documents_batch j evict ids s)) \<and>
    ds_view j (snd (get_documents_batch j evict ids s)) = ds_view j s"
  using get_document_spec [OF assms, of k] get_documents_batch_spec [OF assms, of ids]
    ds_lookup_view [of j s k]
  by (auto simp: ok_iff)

theorem doc_lookup_is_view_witness:
  "fst (get_document sample_json id 5 (sample_committed [(3, [1]), (5, [0])])) =
     Inl (Index ''failed to deserialize document'') \<and>
   fst (get_documents_batch sample_json id [3, 4] (sample_committed [(3, [1])])) =
     Inr [3 \<mapsto> sample_doc ''b'']"
proof
  show "fst (get_document sample_json id 5 (sample_committed [(3, [1]), (5, [0])])) =
      Inl (Index ''failed to deserialize document'')"
    using doc_lookup_is_view [OF sample_committed_inv(1), of id sample_json 5 "[]"]
    by (simp add: evicts_def sample_committed_view)
  have "ok (fst (get_documents_batch sample_json id [3, 4] (sample_committed [(3, [1])])))"
    and "\<forall>m. fst (get_documents_batch sample_json id [3, 4] (sample_committed [(3, [1])])) = Inr m \<longrightarrow>
      m = [3 \<mapsto> sample_doc ''b'']"
    using doc_lookup_is_view [OF sample_committed_inv(2), of id sample_json 3 "[3, 4]"]
      sample_versions(1)
    by (simp_all add: evicts_def sample_committed_view)
  then show "fst (get_documents_batch sample_json id [3, 4] (sample_committed [(3, [1])])) =
      Inr [3 \<mapsto> sample_doc ''b'']"
    by (auto simp: ok_iff)
qed

text \<open>
  C8. A commit is atomic: whatever write fails, what a reopened store holds is either what was
  durable before or everything the store held, pending documents included, and after a commit that
  returns Ok it is the latter, provided JSON carries the pending documents: what one of them is
  written as, if it can be written, decodes to it again (\<open>json_carries\<close>; a document that cannot be
  written makes the commit fail). The store stays well formed in every case, with no such condition.
\<close>

theorem doc_commit_atomic:
  assumes "ds_inv j s" and "ds_commit j io outcome s = (r, s')"
  shows "ds_inv j s' \<and>
    (all_carried j s \<longrightarrow> durable_view j (files s') \<in> {durable_view j (files s), ds_view j s} \<and>
      (ok r \<longrightarrow> durable_view j (files s') = ds_view j s \<and> ds_view j s' = ds_view j s))"
  using ds_commit_spec [OF assms] by blast

theorem doc_commit_atomic_witness:
  "fst (ds_commit sample_json True Saved sample_store) = Inr () \<and>
   durable_view sample_json (files (snd (ds_commit sample_json True Saved sample_store))) =
     [3 \<mapsto> sample_doc ''b'']"
proof -
  obtain r s' where c: "ds_commit sample_json True Saved sample_store = (r, s')" by fastforce
  then have r: "r = Inr ()"
    by (auto simp: ds_commit_def add_segment_def write_segment_def save_manifest_def encode_document_def
        sample_json_def sample_store_def sample_empty_def ds_new_def put_document_with_id_def Let_def)
  have "all_carried sample_json sample_store"
    by (simp add: all_carried_def json_carries_def sample_store_def sample_empty_def ds_new_def
        put_document_with_id_def sample_json_def)
  with doc_commit_atomic [OF sample_inv(2) c] r show ?thesis
    by (simp add: c sample_view)
qed

text \<open>
  Storing a document makes exactly that document visible under its id, and an added document
  gets an id under which the store held nothing.
\<close>

theorem doc_put_visible:
  assumes "ds_inv j s" and "add_document d s = (k, s')"
  shows "ds_inv j (put_document_with_id i d s) \<and>
    ds_view j (put_document_with_id i d s) = (ds_view j s)(i \<mapsto> d) \<and>
    ds_view j s k = None \<and> ds_inv j s' \<and> ds_view j s' = (ds_view j s)(k \<mapsto> d)"
  using assms add_document_eq [OF assms] put_inv put_view by simp

theorem doc_put_visible_witness:
  "ds_view j (snd (add_document (sample_doc ''c'') sample_store)) =
     [3 \<mapsto> sample_doc ''b'', 4 \<mapsto> sample_doc ''c'']"
proof -
  have "add_document (sample_doc ''c'') sample_store =
      (4, snd (add_document (sample_doc ''c'') sample_store))"
    by (simp add: add_document_def sample_store_def sample_empty_def ds_new_def
        put_document_with_id_def)
  from doc_put_visible [OF sample_inv(2) this] show ?thesis
    by (simp add: sample_view)
qed

text \<open>
  C9. What a failed commit does to the pending documents: when writing their segment fails, they
  are gone from the store, and the commit that is then retried succeeds without them, so the
  durable store holds the segments written before and none of the pending documents. (The commit
  takes the pending documents out of the store before it writes them.)
\<close>

theorem doc_failed_commit_drops_pending:
  assumes "ds_inv j s" and "pending_docs s \<noteq> []"
    and "ds_commit j False outcome s = (r, s1)" and "ds_commit j io Saved s1 = (r', s2)"
  shows "\<not> ok r \<and> ok r' \<and> durable_view j (files s2) = decoded j (segs_map (files s) (segments s))"
proof -
  obtain w t where w: "add_segment j False (pending_docs s) (s\<lparr>pending_docs := []\<rparr>) = (w, t)"
    by fastforce
  note a = add_segment_spec [OF assms(1) w]
  from w obtain e where e: "w = Inl e"
    by (auto simp: add_segment_def write_segment_def Let_def split: if_splits)
  with w assms(2,3) have "\<not> ok r" "s1 = t"
    by (auto simp: ds_commit_def)
  with a e assms(4) have "ds_inv j s1" "pending_docs s1 = []" "save_manifest Saved s1 = (r', s2)"
    "ds_view j s1 = decoded j (segs_map (files s) (segments s))"
    by (auto simp: ds_commit_def)
  with save_manifest_spec [of j s1 Saved r' s2] \<open>\<not> ok r\<close> show ?thesis by simp
qed

theorem doc_failed_commit_drops_pending_witness:
  "\<exists>r s1 r' s2. ds_commit sample_json False Saved sample_store = (r, s1) \<and>
     ds_commit sample_json True Saved s1 = (r', s2) \<and> ok r' \<and>
     ds_view sample_json sample_store 3 = Some (sample_doc ''b'') \<and>
     durable_view sample_json (files s2) 3 = None"
proof -
  obtain r s1 where 1: "ds_commit sample_json False Saved sample_store = (r, s1)" by fastforce
  obtain r' s2 where 2: "ds_commit sample_json True Saved s1 = (r', s2)" by fastforce
  have "pending_docs sample_store \<noteq> []"
    by (simp add: sample_store_def put_document_with_id_def sample_empty_def ds_new_def)
  from doc_failed_commit_drops_pending [OF sample_inv(2) this 1 2] 1 2 show ?thesis
    by (simp add: sample_view)
      (simp add: sample_store_def put_document_with_id_def sample_empty_def ds_new_def)
qed

section \<open>External ids\<close>

lemma reader_find_all_wf:
  assumes "segment_wf fs g"
  shows "if decodes j (seg_map fs g) UNIV
    then \<exists>ids. reader_find_all_by_external_id j fs g e = Inr ids \<and>
      set ids = {k. \<exists>d. decoded j (seg_map fs g) k = Some d \<and> external_id_of d = Some e}
    else \<not> ok (reader_find_all_by_external_id j fs g e)"
  using assms
proof (rule segment_wf_map)
  fix es
  assume es: "seg_files fs (seg_id g) = Some es" "distinct (map fst es)" "seg_map fs g = map_of es"
  have "(\<forall>p \<in> set es. from_json j (snd p) \<noteq> None) \<longleftrightarrow> decodes j (map_of es) UNIV"
    using decodes_filter [OF es(2), of UNIV j] by simp
  moreover have "{k. \<exists>d. decoded j (map_of es) k = Some d \<and> external_id_of d = Some e} =
      set (map fst (filter (\<lambda>(i, d). external_id_of d = Some e)
        (map (\<lambda>p. (fst p, the (from_json j (snd p)))) es)))"
    if all: "\<forall>p \<in> set es. from_json j (snd p) \<noteq> None"
  proof -
    have "(\<exists>d. decoded j (map_of es) k = Some d \<and> external_id_of d = Some e) \<longleftrightarrow>
        (\<exists>p \<in> set es. fst p = k \<and> external_id_of (the (from_json j (snd p))) = Some e)" for k
      using all es(2) by (force simp: decoded_def bind_eq_Some_conv)
    then show ?thesis by force
  qed
  ultimately show ?thesis
    using es(1,3) by (auto simp: reader_find_all_by_external_id_def rmap_decode)
qed

lemma find_all_in_segments_spec:
  assumes "\<forall>g \<in> set segs. segment_wf fs g"
  shows "if \<forall>g \<in> set segs. decodes j (seg_map fs g) UNIV
    then \<exists>ids. find_all_in_segments j fs segs e = Inr ids \<and>
      set ids = {k. \<exists>g \<in> set segs. \<exists>d. decoded j (seg_map fs g) k = Some d \<and> external_id_of d = Some e}
    else \<not> ok (find_all_in_segments j fs segs e)"
  using assms
proof (induction segs)
  case Nil
  then show ?case by simp
next
  case (Cons g segs)
  note here = reader_find_all_wf [of fs g j e]
  show ?case
  proof (cases "decodes j (seg_map fs g) UNIV")
    case False
    with here Cons.prems show ?thesis
      by (cases "reader_find_all_by_external_id j fs g e") auto
  next
    case True
    with here Cons.prems obtain ids where ids: "reader_find_all_by_external_id j fs g e = Inr ids"
      "set ids = {k. \<exists>d. decoded j (seg_map fs g) k = Some d \<and> external_id_of d = Some e}"
      by auto
    show ?thesis
    proof (cases "\<forall>g \<in> set segs. decodes j (seg_map fs g) UNIV")
      case False
      with Cons ids True show ?thesis
        by (cases "find_all_in_segments j fs segs e") auto
    next
      case all: True
      with Cons obtain rest where "find_all_in_segments j fs segs e = Inr rest"
        "set rest = {k. \<exists>g \<in> set segs. \<exists>d. decoded j (seg_map fs g) k = Some d \<and> external_id_of d = Some e}"
        by auto
      with ids True all show ?thesis by auto
    qed
  qed
qed




lemma find_all_unreadable:
  assumes "ds_inv j s" "\<not> versions_decode j s UNIV"
  shows "\<not> ok (find_all_by_external_id j e s)"
proof -
  have wf: "\<forall>g \<in> set (segments s). segment_wf (files s) g"
    using assms(1) by (simp add: ds_inv_parts)
  from find_all_in_segments_spec [OF wf, of j e] assms(2)
  have "\<not> ok (find_all_in_segments j (files s) (segments s) e)"
    by (auto simp: versions_decode_def split: if_splits)
  then show ?thesis
    by (cases "find_all_in_segments j (files s) (segments s) e") (auto simp: find_all_by_external_id_def)
qed



text \<open>
  What that means for a document JSON does not carry: the commit that writes it returns Ok, and from
  then on reading it fails, in this store and in every store opened on its files, and so does the
  lookup of any external id.
\<close>

theorem commit_of_unreadable_document:
  assumes "ds_inv j s" and "map_of (pending_docs s) k = Some d"
    and "to_json j d = Some json" and "from_json j json = None"
    and "ds_commit j True Saved s = (Inr (), s')" and "evicts evict"
  shows "\<not> ok (fst (get_document j evict k s')) \<and> \<not> ok (find_all_by_external_id j e s') \<and>
    \<not> ok (fst (get_document j evict k (ds_open (files s'))))"
proof -
  have ne: "pending_docs s \<noteq> []" using assms(2) by auto
  obtain w t where w: "add_segment j True (pending_docs s) (s\<lparr>pending_docs := []\<rparr>) = (w, t)"
    by fastforce
  with ne assms(5) obtain g where g: "w = Inr g" "save_manifest Saved t = (Inr (), s')"
    by (cases w) (auto simp: ds_commit_def)
  from w g(1) obtain fs' where ws: "write_segment j True (next_segment_id s) (pending_docs s) (files s) = (Inr g, fs')"
    and t: "t = s\<lparr>pending_docs := [], files := fs', segments := segments s @ [g],
      next_segment_id := next_segment_id s + 1\<rparr>"
    by (auto simp: add_segment_def split: prod.splits sum.splits)
  have "distinct (map fst (pending_docs s))" using assms(1) by (simp add: ds_inv_def)
  from write_segment_ok(3) [OF ws this] assms(2,3) have json: "seg_map fs' g k = Some json" by simp
  have s': "s' = t\<lparr>files := fs'\<lparr>manifest_file := Some (segments s @ [g], next_segment_id s + 1)\<rparr>\<rparr>"
    using g(2) by (auto simp: save_manifest_def t)
  have same: "seg_map (fs'\<lparr>manifest_file := m\<rparr>) = seg_map fs'" for m
    by (simp add: seg_map_def fun_eq_iff)
  have newest: "segs_map (files s') (segments s @ [g]) k = Some json"
    using json by (simp add: s' same)
  have inv: "ds_inv j s'" using ds_commit_spec [OF assms(1,5)] by blast
  have inv': "ds_inv j (ds_open (files s'))"
    using inv by (intro ds_open_inv [where n = "next_segment_id s'"]) (simp add: ds_inv_def)
  have bad: "\<not> ok (ds_lookup j s' k)" "\<not> ok (ds_lookup j (ds_open (files s')) k)"
    using newest assms(4) by (auto simp: ds_lookup_def lookup_json_def read_entry_def s' t ds_open_def)
  have "\<not> versions_decode j s' UNIV"
    using json assms(4) by (auto simp: versions_decode_def decodes_def s' t same intro!: exI [of _ k])
  with find_all_unreadable [OF inv] bad get_document_spec [OF inv assms(6), of k]
    get_document_spec [OF inv' assms(6), of k]
  show ?thesis by auto
qed

end
