(* ===== verification/Wal_Format.thy ===== *)
theory Wal_Format
  imports Prelude
begin

text \<open>
  The write-ahead log's records and file framing, from \<^verbatim>\<open>laurus/src/store/log.rs\<close>: the
  current and the older record types, the detection of a file's framing from its header, and the
  loop of \<open>read_wal\<close> that reads records up to the first one that is incomplete or does not verify.

  The document of a record is a type parameter, since the log only stores it. The payload encoding
  (rkyv), the JSON decoder (serde) and the CRC-32 (crc32fast) are other crates: they are the fields
  of a \<open>codec\<close>, and \<open>codec_ok\<close> states what the log relies on, that decoding inverts encoding and
  that a checksum has 32 bits.
\<close>

section \<open>Records\<close>

datatype 'd log_entry =
    Upsert nat string 'd "nat list"
  | Delete "nat list" string

record 'd log_record =
  seq :: nat
  entry :: "'d log_entry"

datatype 'd v3_entry =
    V3Upsert nat string 'd
  | V3Delete nat string

record 'd v3_record =
  v3_seq :: nat
  v3_entry :: "'d v3_entry"

definition from_v3 :: "'d v3_record \<Rightarrow> 'd log_record" where
  "from_v3 r =
     \<lparr>seq = v3_seq r,
      entry = (case v3_entry r of
                 V3Upsert doc_id external_id document \<Rightarrow> Upsert doc_id external_id document []
               | V3Delete doc_id external_id \<Rightarrow> Delete [doc_id] external_id)\<rparr>"

text \<open>What the log takes from other crates.\<close>

record 'd codec =
  rkyv_encode :: "'d log_record \<Rightarrow> bytes option"
  rkyv_decode :: "bytes \<Rightarrow> 'd log_record option"
  rkyv_decode_v3 :: "bytes \<Rightarrow> 'd v3_record option"
  json_decode :: "bytes \<Rightarrow> 'd v3_record option"
  crc32 :: "bytes \<Rightarrow> nat"

definition codec_ok :: "'d codec \<Rightarrow> bool" where
  "codec_ok c \<longleftrightarrow>
     (\<forall>r p. rkyv_encode c r = Some p \<longrightarrow> rkyv_decode c p = Some r) \<and> (\<forall>bs. crc32 c bs < 2 ^ 32)"

section \<open>File framing\<close>

definition WAL_MAGIC :: bytes where
  "WAL_MAGIC = [0x4C, 0x57, 0x41, 0x4C]"

definition WAL_VERSION :: u8 where "WAL_VERSION = 4"

definition WAL_VERSION_V3 :: u8 where "WAL_VERSION_V3 = 3"

definition WAL_VERSION_V2 :: u8 where "WAL_VERSION_V2 = 2"

definition WAL_HEADER_LEN :: nat where "WAL_HEADER_LEN = 5"

datatype wal_format = Legacy | V2 | V3 | V4 | Unknown u8

definition has_crc :: "wal_format \<Rightarrow> bool" where
  "has_crc f \<longleftrightarrow> f \<noteq> Legacy"

definition detect_existing_format :: "bytes \<Rightarrow> wal_format" where
  "detect_existing_format content =
     (if length content < WAL_HEADER_LEN then Legacy
      else if take 4 content \<noteq> WAL_MAGIC then Legacy
      else let version = content ! 4
           in if version = WAL_VERSION then V4
              else if version = WAL_VERSION_V3 then V3
              else if version = WAL_VERSION_V2 then V2
              else Unknown version)"

definition unknown_version_error :: "u8 \<Rightarrow> laurus_error" where
  "unknown_version_error version = IncompatibleFormat ''WAL has an unknown format version''"

definition decode_payload :: "'d codec \<Rightarrow> bytes \<Rightarrow> wal_format \<Rightarrow> 'd log_record option" where
  "decode_payload c buffer f =
     (case f of
        V4 \<Rightarrow> rkyv_decode c buffer
      | V3 \<Rightarrow> map_option from_v3 (rkyv_decode_v3 c buffer)
      | V2 \<Rightarrow> map_option from_v3 (json_decode c buffer)
      | Legacy \<Rightarrow> map_option from_v3 (json_decode c buffer)
      | Unknown version \<Rightarrow> None)"

text \<open>
  A v4 frame: length, checksum over length and payload, payload. Encoding fails when rkyv does or
  when the payload's length does not fit in 32 bits.
\<close>

definition encode_payload :: "'d codec \<Rightarrow> 'd log_record \<Rightarrow> bytes res" where
  "encode_payload c r =
     (case rkyv_encode c r of
        None \<Rightarrow> Inl (SerializationError ''WAL rkyv encode failed'')
      | Some bs \<Rightarrow> Inr bs)"

definition frame_of_payload :: "'d codec \<Rightarrow> bytes \<Rightarrow> bytes" where
  "frame_of_payload c payload =
     (let len = le_bytes 4 (length payload)
      in len @ le_bytes 4 (crc32 c (len @ payload)) @ payload)"

definition frame :: "'d codec \<Rightarrow> 'd log_record \<Rightarrow> bytes res" where
  "frame c r =
     rbind (encode_payload c r)
       (\<lambda>payload. if length payload < 2 ^ 32 then Inr (frame_of_payload c payload)
                  else Inl (InvalidOperation ''WAL record size exceeds u32::MAX''))"

section \<open>The reading loop\<close>

text \<open>
  \<open>rest\<close> is what follows \<open>position\<close> in the file. The result is the records and where the last
  complete one ends (\<open>valid_len\<close>).
\<close>

function read_frames ::
    "'d codec \<Rightarrow> wal_format \<Rightarrow> nat \<Rightarrow> bytes \<Rightarrow> 'd log_record list \<times> nat" where
  "read_frames c f valid_len rest =
     (if length rest < 4 then ([], valid_len)
      else
        let len_bytes = take 4 rest;
            len = from_le len_bytes;
            r1 = drop 4 rest
        in if has_crc f \<and> length r1 < 4 then ([], valid_len)
           else
             let r2 = (if has_crc f then drop 4 r1 else r1)
             in if length r2 < len then ([], valid_len)
                else
                  let buffer = take len r2
                  in if has_crc f \<and> crc32 c (len_bytes @ buffer) \<noteq> from_le (take 4 r1)
                     then ([], valid_len)
                     else
                       (case decode_payload c buffer f of
                          None \<Rightarrow> ([], valid_len)
                        | Some record \<Rightarrow>
                            let (records, stop) =
                              read_frames c f
                                (valid_len + (if has_crc f then 8 else 4) + len) (drop len r2)
                            in (record # records, stop)))"
  by pat_completeness auto
termination
  by (relation "measure (\<lambda>(c, f, valid_len, rest). length rest)") (auto split: if_splits)

declare read_frames.simps [simp del]

definition header_len :: "wal_format \<Rightarrow> nat" where
  "header_len f = (if f = Legacy then 0 else WAL_HEADER_LEN)"

text \<open>
  The records of a file's content and the length to cut it back to, when bytes that form no
  complete record follow the last one.
\<close>

definition parse_as ::
    "'d codec \<Rightarrow> wal_format \<Rightarrow> bytes \<Rightarrow> ('d log_record list \<times> nat option) res" where
  "parse_as c f content =
     (case f of
        Unknown version \<Rightarrow> Inl (unknown_version_error version)
      | _ \<Rightarrow>
          let (records, valid_len) =
                read_frames c f (header_len f) (drop (header_len f) content)
          in Inr (records, if valid_len < length content then Some valid_len else None))"

definition parse_wal :: "'d codec \<Rightarrow> bytes \<Rightarrow> ('d log_record list \<times> nat option) res" where
  "parse_wal c content = parse_as c (detect_existing_format content) content"

definition max_seq :: "'d log_record list \<Rightarrow> nat" where
  "max_seq records = foldl (\<lambda>m r. if seq r > m then seq r else m) 0 records"

definition max_doc_id :: "'d log_record list \<Rightarrow> nat" where
  "max_doc_id records =
     foldl (\<lambda>m r. case entry r of
                      Upsert doc_id external_id document replaces \<Rightarrow> if doc_id > m then doc_id else m
                    | Delete doc_ids external_id \<Rightarrow> m) 0 records"

section \<open>Reading what was written\<close>

definition encodable :: "'d codec \<Rightarrow> 'd log_record \<Rightarrow> bool" where
  "encodable c r \<longleftrightarrow> ok (frame c r)"

definition frame_bytes :: "'d codec \<Rightarrow> 'd log_record \<Rightarrow> bytes" where
  "frame_bytes c r = (case frame c r of Inr bs \<Rightarrow> bs | Inl _ \<Rightarrow> [])"

definition wal_header :: bytes where
  "wal_header = WAL_MAGIC @ [WAL_VERSION]"

definition v4_content :: "'d codec \<Rightarrow> 'd log_record list \<Rightarrow> bytes" where
  "v4_content c records = wal_header @ concat (map (frame_bytes c) records)"

lemma frame_InrE:
  assumes "frame c r = Inr bs"
  obtains payload where "rkyv_encode c r = Some payload" "length payload < 2 ^ 32"
    "bs = frame_of_payload c payload"
  using assms
  by (auto simp: frame_def encode_payload_def rbind_Inr_iff split: option.splits if_splits)

lemma encodableE:
  assumes "encodable c r"
  obtains payload where "rkyv_encode c r = Some payload" "length payload < 2 ^ 32"
    "frame_bytes c r = frame_of_payload c payload"
proof -
  from assms obtain bs where "frame c r = Inr bs"
    by (auto simp: encodable_def ok_iff)
  with that show ?thesis
    by (auto elim: frame_InrE simp: frame_bytes_def)
qed

lemma frame_of_payload_parts:
  fixes p :: bytes
  assumes "codec_ok c" "length p < 2 ^ 32"
  shows "take 4 (frame_of_payload c p @ rest) = le_bytes 4 (length p)"
    and "from_le (take 4 (drop 4 (frame_of_payload c p @ rest))) =
      crc32 c (le_bytes 4 (length p) @ p)"
    and "drop 8 (frame_of_payload c p @ rest) = p @ rest"
    and "from_le (le_bytes 4 (length p)) = length p"
    and "length (frame_of_payload c p) = 8 + length p"
  using assms
  by (simp_all add: frame_of_payload_def Let_def codec_ok_def from_le_le_bytes)

lemma read_frames_frame:
  assumes "codec_ok c" and "encodable c r"
  shows "read_frames c V4 n (frame_bytes c r @ rest) =
    (let (rs, stop) = read_frames c V4 (n + length (frame_bytes c r)) rest in (r # rs, stop))"
proof -
  obtain p where p: "rkyv_encode c r = Some p" "length p < 2 ^ 32"
    "frame_bytes c r = frame_of_payload c p"
    using assms(2) by (rule encodableE)
  note parts = frame_of_payload_parts(1-3) [OF assms(1) p(2), where rest = rest]
    frame_of_payload_parts(4-5) [OF assms(1) p(2)]
  have "drop 4 (drop 4 xs) = drop 8 xs" for xs :: bytes
    by simp
  then have "drop 4 (drop 4 (frame_of_payload c p @ rest)) = p @ rest"
    by (simp only: parts(3))
  moreover have "decode_payload c p V4 = Some r"
    using assms(1) p(1) by (simp add: decode_payload_def codec_ok_def)
  moreover have "take (length p) (p @ rest) = p" "drop (length p) (p @ rest) = rest"
    by simp_all
  ultimately show ?thesis
    unfolding p(3) using parts
    by (subst read_frames.simps)
      (simp add: Let_def has_crc_def add.assoc del: take_append drop_append drop_drop)
qed

lemma read_frames_torn:
  assumes "codec_ok c" and "encodable c r" and "k < length (frame_bytes c r)"
  shows "read_frames c V4 n (take k (frame_bytes c r)) = ([], n)"
proof -
  obtain p where p: "rkyv_encode c r = Some p" "length p < 2 ^ 32"
    "frame_bytes c r = frame_of_payload c p"
    using assms(2) by (rule encodableE)
  let ?t = "take k (frame_bytes c r)"
  note parts = frame_of_payload_parts(1-3) [OF assms(1) p(2), where rest = "[]"]
    frame_of_payload_parts(4-5) [OF assms(1) p(2)]
  have k: "k < 8 + length p"
    using assms(3) p(3) parts(5) by simp
  have "from_le (take 4 ?t) = length p" if "8 \<le> k"
    using that parts(1,4) by (simp add: p(3) min_def)
  with k show ?thesis
    by (subst read_frames.simps) (auto simp: Let_def has_crc_def p(3) parts(5))
qed

lemma read_frames_all:
  assumes "codec_ok c" and "\<forall>r \<in> set rs. encodable c r"
  shows "read_frames c V4 n (concat (map (frame_bytes c) rs) @ tail) =
    (let (rs', stop) = read_frames c V4 (n + length (concat (map (frame_bytes c) rs))) tail
     in (rs @ rs', stop))"
  using assms(2)
proof (induction rs arbitrary: n)
  case Nil
  then show ?case by simp
next
  case (Cons r rs)
  then show ?case
    by (simp add: read_frames_frame [OF assms(1)] add.assoc split: prod.splits)
qed

lemma detect_v4: "detect_existing_format (wal_header @ rest) = V4"
  by (simp add: detect_existing_format_def wal_header_def WAL_MAGIC_def WAL_VERSION_def
      WAL_HEADER_LEN_def Let_def)

lemma length_wal_header [simp]: "length wal_header = WAL_HEADER_LEN"
  by (simp add: wal_header_def WAL_MAGIC_def WAL_HEADER_LEN_def)

lemma parse_wal_v4:
  assumes "codec_ok c" and "\<forall>r \<in> set rs. encodable c r"
  shows "parse_wal c (v4_content c rs @ tail) =
    (let (rs', stop) = read_frames c V4 (length (v4_content c rs)) tail
     in Inr (rs @ rs', if stop < length (v4_content c rs @ tail) then Some stop else None))"
  using read_frames_all [OF assms, of WAL_HEADER_LEN tail]
  by (auto simp: parse_wal_def parse_as_def v4_content_def detect_v4 header_len_def Let_def
      split: prod.splits)

lemma read_frames_Nil: "read_frames c f n [] = ([], n)"
  by (subst read_frames.simps) simp

text \<open>A file that holds whole frames only, and one that ends in part of a frame.\<close>

lemma parse_wal_complete:
  assumes "codec_ok c" and "\<forall>r \<in> set rs. encodable c r"
  shows "parse_wal c (v4_content c rs) = Inr (rs, None)"
  using parse_wal_v4 [OF assms, of "[]"] by (simp add: read_frames_Nil)

lemma parse_wal_torn:
  assumes "codec_ok c" and "\<forall>r \<in> set rs. encodable c r" and "encodable c r"
    and "k < length (frame_bytes c r)"
  shows "parse_wal c (v4_content c rs @ take k (frame_bytes c r)) =
    Inr (rs, if k = 0 then None else Some (length (v4_content c rs)))"
  using parse_wal_v4 [OF assms(1,2), of "take k (frame_bytes c r)"] assms(4)
  by (simp add: read_frames_torn [OF assms(1,3,4)])


section \<open>One frame at a time\<close>

text \<open>The frame a file's rest starts with, if it starts with a whole one that verifies.\<close>

definition next_frame ::
    "'d codec \<Rightarrow> wal_format \<Rightarrow> bytes \<Rightarrow> ('d log_record \<times> nat) option" where
  "next_frame c f rest =
     (let h = (if has_crc f then 8 else 4);
          len = from_le (take 4 rest);
          buffer = take len (drop h rest)
      in if length rest < h \<or> length rest < h + len then None
         else if has_crc f \<and> crc32 c (take 4 rest @ buffer) \<noteq> from_le (take 4 (drop 4 rest)) then None
         else map_option (\<lambda>r. (r, h + len)) (decode_payload c buffer f))"

lemma read_frames_next:
  "read_frames c f n rest =
   (case next_frame c f rest of
      None \<Rightarrow> ([], n)
    | Some (r, m) \<Rightarrow> let (rs, stop) = read_frames c f (n + m) (drop m rest) in (r # rs, stop))"
proof -
  define h :: nat where "h = (if has_crc f then 8 else 4)"
  define len where "len = from_le (take 4 rest)"
  define buffer where "buffer = take len (drop h rest)"
  have r2: "(if has_crc f then drop 4 (drop 4 rest) else drop 4 rest) = drop h rest"
    by (simp add: h_def)
  have next_none: "next_frame c f rest = None" if "length rest < h \<or> length rest < h + len \<or>
      has_crc f \<and> crc32 c (take 4 rest @ buffer) \<noteq> from_le (take 4 (drop 4 rest))"
    using that by (auto simp: next_frame_def Let_def h_def len_def buffer_def)
  have short: "length rest < h \<longleftrightarrow> length rest < 4 \<or> has_crc f \<and> length (drop 4 rest) < 4"
    by (auto simp: h_def)
  consider (head) "length rest < h" | (body) "h \<le> length rest" "length rest < h + len"
    | (crc) "h + len \<le> length rest"
        "has_crc f \<and> crc32 c (take 4 rest @ buffer) \<noteq> from_le (take 4 (drop 4 rest))"
    | (whole) "h + len \<le> length rest"
        "\<not> (has_crc f \<and> crc32 c (take 4 rest @ buffer) \<noteq> from_le (take 4 (drop 4 rest)))"
    by linarith
  then show ?thesis
  proof cases
    case head
    with next_none have none: "next_frame c f rest = None" by simp
    show ?thesis
    proof (cases "length rest < 4")
      case True
      with none show ?thesis by (subst read_frames.simps) simp
    next
      case False
      with head short have "has_crc f \<and> length (drop 4 rest) < 4" by simp
      with none False show ?thesis by (subst read_frames.simps) (simp only: Let_def, simp)
    qed
  next
    case body
    then have "\<not> length rest < 4" "\<not> (has_crc f \<and> length (drop 4 rest) < 4)"
      "length (drop h rest) < len"
      using short by auto
    with body next_none show ?thesis
      by (subst read_frames.simps) (simp only: Let_def r2 len_def [symmetric], simp)
  next
    case crc
    then have "\<not> length rest < 4" "\<not> (has_crc f \<and> length (drop 4 rest) < 4)"
      "\<not> length (drop h rest) < len"
      using short by auto
    then have w: "(length rest < 4) = False" "(has_crc f \<and> length (drop 4 rest) < 4) = False"
      "(length (drop h rest) < len) = False"
      by simp_all
    from crc have none: "next_frame c f rest = None" using next_none by simp
    have bad: "(has_crc f \<and> crc32 c (take 4 rest @ buffer) \<noteq> from_le (take 4 (drop 4 rest))) = True"
      using crc(2) by simp
    show ?thesis
      by (subst read_frames.simps)
        (simp only: Let_def r2 len_def [symmetric] buffer_def [symmetric] w bad none if_False if_True
          option.simps)
  next
    case whole
    then have w: "\<not> length rest < 4" "\<not> (has_crc f \<and> length (drop 4 rest) < 4)"
      "\<not> length (drop h rest) < len"
      using short by auto
    have "next_frame c f rest = map_option (\<lambda>r. (r, h + len)) (decode_payload c buffer f)"
      using whole unfolding next_frame_def Let_def h_def [symmetric] len_def [symmetric]
        buffer_def [symmetric] by auto
    moreover have "drop len (drop h rest) = drop (h + len) rest"
      by (simp add: add.commute)
    ultimately show ?thesis
      using whole(2) w
      by (subst read_frames.simps, cases "decode_payload c buffer f")
        (simp_all only: Let_def r2 len_def [symmetric] buffer_def [symmetric] h_def [symmetric]
          if_False simp_thms option.simps add.assoc prod.case)
  qed
qed

lemma next_frame_bounds:
  "next_frame c f rest = Some (r, m) \<Longrightarrow> 0 < m \<and> m \<le> length rest"
  by (auto simp: next_frame_def Let_def split: if_splits)

lemma next_frame_append:
  assumes "next_frame c f rest = Some (r, m)"
  shows "next_frame c f (rest @ xs) = Some (r, m)"
  using assms by (auto simp: next_frame_def Let_def split: if_splits)

lemma next_frame_take:
  assumes "next_frame c f rest = Some (r, m)"
  shows "next_frame c f (take k rest) = (if m \<le> k then Some (r, m) else None)"
proof -
  have b: "m \<le> length rest" using next_frame_bounds [OF assms] by simp
  show ?thesis
  proof (cases "m \<le> k")
    case True
    have m: "m = (if has_crc f then 8 else 4) + from_le (take 4 rest)"
      using assms by (auto simp: next_frame_def Let_def split: if_splits)
    have "4 \<le> k" "has_crc f \<Longrightarrow> 8 \<le> k"
      using m True by (auto split: if_splits)
    then have "take 4 (take k rest) = take 4 rest"
      "take (from_le (take 4 rest)) (drop (if has_crc f then 8 else 4) (take k rest)) =
       take (from_le (take 4 rest)) (drop (if has_crc f then 8 else 4) rest)"
      "has_crc f \<Longrightarrow> take 4 (drop 4 (take k rest)) = take 4 (drop 4 rest)"
      using m True by (auto simp: min_def drop_take)
    with m show ?thesis
      using assms b True by (auto simp: next_frame_def Let_def split: if_splits)
  next
    case False
    have m: "m = (if has_crc f then 8 else 4) + from_le (take 4 rest)"
      using assms by (auto simp: next_frame_def Let_def split: if_splits)
    have "take 4 (take k rest) = take 4 rest" if "4 \<le> k"
      using that by (simp add: min_def)
    with False m b show ?thesis
      by (cases "4 \<le> k") (auto simp: next_frame_def Let_def min_def)
  qed
qed

lemma read_frames_stop: "read_frames c f n rest = (rs, stop) \<Longrightarrow> n \<le> stop \<and> stop \<le> n + length rest"
proof (induction "length rest" arbitrary: n rest rs rule: less_induct)
  case less
  show ?case
  proof (cases "next_frame c f rest")
    case None
    with less.prems show ?thesis by (simp add: read_frames_next [of c f n rest])
  next
    case (Some p)
    then obtain r m where rm: "next_frame c f rest = Some (r, m)" by (cases p) simp
    obtain rs' where "read_frames c f (n + m) (drop m rest) = (rs', stop)"
      using less.prems by (auto simp: read_frames_next [of c f n rest] rm Let_def split: prod.splits)
    with less.hyps [of "drop m rest"] next_frame_bounds [OF rm] show ?thesis
      by fastforce
  qed
qed

text \<open>Bytes after frames that fill the file are read as if the file went on with them.\<close>

lemma read_frames_append:
  assumes "read_frames c f n a = (rs, n + length a)"
  shows "read_frames c f n (a @ b) =
    (let (rs', stop) = read_frames c f (n + length a) b in (rs @ rs', stop))"
  using assms
proof (induction "length a" arbitrary: n a rs rule: less_induct)
  case less
  show ?case
  proof (cases "next_frame c f a")
    case None
    with less.prems have "a = []" "rs = []" by (auto simp: read_frames_next [of c f n a])
    then show ?thesis by simp
  next
    case (Some p)
    then obtain r m where rm: "next_frame c f a = Some (r, m)" by (cases p) simp
    note b = next_frame_bounds [OF rm]
    from less.prems rm obtain rs1 where rs1: "rs = r # rs1"
      "read_frames c f (n + m) (drop m a) = (rs1, n + length a)"
      by (auto simp: read_frames_next [of c f n a] Let_def split: prod.splits)
    have "read_frames c f (n + m) (drop m a @ b) =
        (let (rs', stop) = read_frames c f (n + m + length (drop m a)) b in (rs1 @ rs', stop))"
      by (rule less.hyps) (use b rs1 in auto)
    with b rs1(1) show ?thesis
      by (simp add: read_frames_next [of c f n "a @ b"] next_frame_append [OF rm] Let_def
          split: prod.splits)
  qed
qed

text \<open>What is read of a prefix of a file is a prefix of what is read of the file.\<close>

lemma read_frames_take:
  "\<exists>m. fst (read_frames c f n (take k a)) = take m (fst (read_frames c f n a))"
proof (induction "length a" arbitrary: n a k rule: less_induct)
  case less
  show ?case
  proof (cases "next_frame c f a")
    case None
    have "next_frame c f (take k a) = None"
    proof (rule ccontr)
      assume "next_frame c f (take k a) \<noteq> None"
      then obtain r m where "next_frame c f (take k a) = Some (r, m)" by auto
      from next_frame_append [OF this, of "drop k a"] None show False by simp
    qed
    with None show ?thesis
      by (simp add: read_frames_next [of c f n a] read_frames_next [of c f n "take k a"])
  next
    case (Some p)
    then obtain r m where rm: "next_frame c f a = Some (r, m)" by (cases p) simp
    note b = next_frame_bounds [OF rm]
    show ?thesis
    proof (cases "m \<le> k")
      case False
      then have "fst (read_frames c f n (take k a)) = take 0 (fst (read_frames c f n a))"
        by (simp add: read_frames_next [of c f n "take k a"] next_frame_take [OF rm])
      then show ?thesis by blast
    next
      case True
      have "length (drop m a) < length a" using b by (simp, arith)
      from less.hyps [OF this, of "n + m" "k - m"]
      obtain j where j: "fst (read_frames c f (n + m) (take (k - m) (drop m a))) =
          take j (fst (read_frames c f (n + m) (drop m a)))"
        by blast
      have "fst (read_frames c f n (take k a)) =
          r # fst (read_frames c f (n + m) (take (k - m) (drop m a)))"
        using True by (simp add: read_frames_next [of c f n "take k a"] next_frame_take [OF rm]
            drop_take Let_def split: prod.splits)
      moreover have "fst (read_frames c f n a) = r # fst (read_frames c f (n + m) (drop m a))"
        by (simp add: read_frames_next [of c f n a] rm Let_def split: prod.splits)
      ultimately have "fst (read_frames c f n (take k a)) = take (Suc j) (fst (read_frames c f n a))"
        using j by simp
      then show ?thesis by blast
    qed
  qed
qed

section \<open>A file in the current framing\<close>

lemma detect_append: "detect_existing_format a = V4 \<Longrightarrow> detect_existing_format (a @ b) = V4"
  by (auto simp: detect_existing_format_def Let_def WAL_HEADER_LEN_def nth_append split: if_splits)

lemma detect_long: "detect_existing_format a \<noteq> Legacy \<Longrightarrow> WAL_HEADER_LEN \<le> length a"
  by (auto simp: detect_existing_format_def split: if_splits)

text \<open>A file that consists of whole frames only, and what an append makes of it.\<close>

definition clean_v4 :: "'d codec \<Rightarrow> 'd log_record list \<Rightarrow> bytes \<Rightarrow> bool" where
  "clean_v4 c rs bs \<longleftrightarrow> detect_existing_format bs = V4 \<and> parse_wal c bs = Inr (rs, None)"

lemma clean_v4_frames:
  "clean_v4 c rs bs \<longleftrightarrow> detect_existing_format bs = V4 \<and>
     read_frames c V4 WAL_HEADER_LEN (drop WAL_HEADER_LEN bs) = (rs, length bs)"
  using read_frames_stop [of c V4 WAL_HEADER_LEN "drop WAL_HEADER_LEN bs"] detect_long [of bs]
  by (fastforce simp: clean_v4_def parse_wal_def parse_as_def header_len_def Let_def
      split: prod.splits if_splits)

lemma clean_v4_read:
  assumes "clean_v4 c rs bs"
  shows "parse_wal c (bs @ tail) =
    (let (rs', stop) = read_frames c V4 (length bs) tail
     in Inr (rs @ rs', if stop < length (bs @ tail) then Some stop else None))"
proof -
  have a: "detect_existing_format bs = V4"
    "read_frames c V4 WAL_HEADER_LEN (drop WAL_HEADER_LEN bs) = (rs, length bs)"
    using assms by (simp_all add: clean_v4_frames)
  have l: "WAL_HEADER_LEN \<le> length bs" using detect_long [of bs] a(1) by simp
  then have "read_frames c V4 WAL_HEADER_LEN (drop WAL_HEADER_LEN bs @ tail) =
      (let (rs', stop) = read_frames c V4 (length bs) tail in (rs @ rs', stop))"
    using read_frames_append [of c V4 WAL_HEADER_LEN "drop WAL_HEADER_LEN bs" rs tail] a(2)
    by simp
  then show ?thesis
    using l detect_append [OF a(1), of tail]
    by (simp add: parse_wal_def parse_as_def header_len_def Let_def split: prod.splits)
qed

lemma clean_v4_frame:
  assumes "codec_ok c" "encodable c r" "clean_v4 c rs bs"
  shows "clean_v4 c (rs @ [r]) (bs @ frame_bytes c r)"
  using clean_v4_read [OF assms(3), of "frame_bytes c r"]
    read_frames_frame [OF assms(1,2), of "length bs" "[]"] assms(3)
  by (simp add: clean_v4_def detect_append read_frames_Nil)

lemma clean_v4_torn:
  assumes "codec_ok c" "encodable c r" "clean_v4 c rs bs" "k < length (frame_bytes c r)"
  shows "parse_wal c (bs @ take k (frame_bytes c r)) =
    Inr (rs, if k = 0 then None else Some (length bs))"
  using clean_v4_read [OF assms(3), of "take k (frame_bytes c r)"]
    read_frames_torn [OF assms(1,2,4), of "length bs"] assms(4)
  by simp

lemma clean_v4_header: "clean_v4 c [] wal_header"
  using detect_v4 [of "[]"] by (simp add: clean_v4_frames read_frames_Nil)

lemma clean_v4_content:
  assumes "codec_ok c" "\<forall>r \<in> set rs. encodable c r"
  shows "clean_v4 c rs (v4_content c rs)"
  using parse_wal_complete [OF assms] detect_v4 by (simp add: clean_v4_def v4_content_def)

text \<open>Part of a header is taken for a legacy file without records.\<close>

lemma parse_partial_header:
  assumes "k < WAL_HEADER_LEN"
  shows "parse_wal c (take k wal_header) = Inr ([], if k = 0 then None else Some 0)"
    and "detect_existing_format (take k wal_header) = Legacy"
proof -
  show d: "detect_existing_format (take k wal_header) = Legacy"
    using assms by (simp add: detect_existing_format_def)
  consider "k = 0" | "k = 1" | "k = 2" | "k = 3" | "k = 4"
    using assms by (fastforce simp: WAL_HEADER_LEN_def)
  then have "next_frame c Legacy (take k wal_header) = None"
    by cases (simp_all add: next_frame_def wal_header_def WAL_MAGIC_def has_crc_def Let_def)
  then show "parse_wal c (take k wal_header) = Inr ([], if k = 0 then None else Some 0)"
    using assms unfolding parse_wal_def d
    by (simp add: parse_as_def header_len_def read_frames_next WAL_HEADER_LEN_def)
qed

text \<open>A prefix of a file of whole frames holds a prefix of its records.\<close>

lemma clean_v4_take:
  assumes "clean_v4 c rs bs"
  shows "\<exists>m cut. parse_wal c (take k bs) = Inr (take m rs, cut)"
proof (cases "WAL_HEADER_LEN \<le> k")
  case True
  have a: "detect_existing_format bs = V4"
    "read_frames c V4 WAL_HEADER_LEN (drop WAL_HEADER_LEN bs) = (rs, length bs)"
    using assms by (simp_all add: clean_v4_frames)
  have l: "WAL_HEADER_LEN \<le> length bs" using detect_long [of bs] a(1) by simp
  have "take 4 (take k bs) = take 4 bs" "take k bs ! 4 = bs ! 4"
    using True by (simp_all add: WAL_HEADER_LEN_def min_def)
  with a(1) l True have "detect_existing_format (take k bs) = V4"
    by (simp add: detect_existing_format_def not_less split: if_splits)
  moreover obtain m where
    "fst (read_frames c V4 WAL_HEADER_LEN (take (k - WAL_HEADER_LEN) (drop WAL_HEADER_LEN bs))) =
     take m (fst (read_frames c V4 WAL_HEADER_LEN (drop WAL_HEADER_LEN bs)))"
    using read_frames_take by blast
  ultimately show ?thesis
    using a(2) by (auto simp: parse_wal_def parse_as_def header_len_def drop_take Let_def
        split: prod.splits)
next
  case False
  have "detect_existing_format bs = V4"
    using assms by (simp add: clean_v4_def)
  then have "take 4 bs = WAL_MAGIC" "bs ! 4 = WAL_VERSION" "WAL_HEADER_LEN \<le> length bs"
    by (auto simp: detect_existing_format_def Let_def split: if_splits)
  then have "take WAL_HEADER_LEN bs = wal_header"
    by (simp add: wal_header_def WAL_HEADER_LEN_def take_Suc_conv_app_nth eval_nat_numeral)
  with False have "take k bs = take k wal_header"
    by (metis min.strict_order_iff not_le take_take)
  with parse_partial_header(1) [of k c] False show ?thesis
    by (metis not_le take_0)
qed

section \<open>Cutting a file back to its last complete record\<close>

lemma read_frames_cut:
  "read_frames c f n a = (rs, stop) \<Longrightarrow> read_frames c f n (take (stop - n) a) = (rs, stop)"
proof (induction "length a" arbitrary: n a rs rule: less_induct)
  case less
  show ?case
  proof (cases "next_frame c f a")
    case None
    with less.prems have "rs = []" "stop = n" by (auto simp: read_frames_next [of c f n a])
    then show ?thesis by (simp add: read_frames_Nil)
  next
    case (Some p)
    then obtain r m where rm: "next_frame c f a = Some (r, m)" by (cases p) simp
    note b = next_frame_bounds [OF rm]
    from less.prems rm obtain rs1 where rs1: "rs = r # rs1"
      "read_frames c f (n + m) (drop m a) = (rs1, stop)"
      by (auto simp: read_frames_next [of c f n a] Let_def split: prod.splits)
    have s: "n + m \<le> stop" using read_frames_stop [OF rs1(2)] by simp
    have "length (drop m a) < length a" using b by (simp, arith)
    from less.hyps [OF this rs1(2)]
    have "read_frames c f (n + m) (take (stop - (n + m)) (drop m a)) = (rs1, stop)" .
    moreover have "drop m (take (stop - n) a) = take (stop - (n + m)) (drop m a)"
      by (simp add: drop_take)
    moreover have "next_frame c f (take (stop - n) a) = Some (r, m)"
      using next_frame_take [OF rm, of "stop - n"] s by simp
    ultimately show ?thesis
      using rs1(1) by (simp add: read_frames_next [of c f n "take (stop - n) a"])
  qed
qed

lemma detect_take:
  assumes "header_len (detect_existing_format bs) \<le> v"
  shows "detect_existing_format (take v bs) = detect_existing_format bs"
proof (cases "length (take v bs) < WAL_HEADER_LEN")
  case True
  then have "detect_existing_format (take v bs) = Legacy"
    by (simp add: detect_existing_format_def)
  moreover have "detect_existing_format bs = Legacy"
  proof (rule ccontr)
    assume n: "detect_existing_format bs \<noteq> Legacy"
    with assms have "WAL_HEADER_LEN \<le> v" by (simp add: header_len_def)
    with detect_long [OF n] True show False by simp
  qed
  ultimately show ?thesis by simp
next
  case False
  then have "4 < v" "4 < length bs" by (simp_all add: WAL_HEADER_LEN_def)
  then have "take 4 (take v bs) = take 4 bs" "take v bs ! 4 = bs ! 4"
    by (simp_all add: min_def)
  moreover have "\<not> length bs < WAL_HEADER_LEN" using False by simp
  ultimately show ?thesis using False unfolding detect_existing_format_def by presburger
qed

lemma parse_cut:
  assumes "parse_wal c bs = Inr (rs, Some v)"
  shows "parse_wal c (take v bs) = Inr (rs, None)" "v < length bs"
proof -
  let ?f = "detect_existing_format bs"
  let ?h = "header_len ?f"
  obtain rs' stop where rf: "read_frames c ?f ?h (drop ?h bs) = (rs', stop)" by fastforce
  from assms rf have v: "rs' = rs" "stop = v" "v < length bs"
    by (auto simp: parse_wal_def parse_as_def Let_def split: wal_format.splits if_splits)
  then show "v < length bs" by simp
  have hv: "?h \<le> v" using read_frames_stop [OF rf] v by simp
  have "read_frames c ?f ?h (take (v - ?h) (drop ?h bs)) = (rs, v)"
    using read_frames_cut [OF rf] v by simp
  moreover have "drop ?h (take v bs) = take (v - ?h) (drop ?h bs)" by (simp add: drop_take)
  ultimately show "parse_wal c (take v bs) = Inr (rs, None)"
    using assms detect_take [OF hv] v(3)
    by (auto simp: parse_wal_def parse_as_def split: wal_format.splits)
qed

end
