(* ===== verification/Doc_Log.thy ===== *)
theory Doc_Log
  imports Wal_Format Doc_Store
begin

text \<open>
  The document log, \<^verbatim>\<open>laurus/src/store/log.rs\<close>: the append-only write-ahead log with its
  counters, its sync policies, the upgrade of older files, the recovery of a torn file and the
  truncation after a commit, and the document store it carries.

  Every call of the storage takes its outcome from \<open>faults\<close>, the outcomes of the calls to come: it
  succeeds, or it fails, a write after having written part of its bytes. The theorems hold for every
  such sequence, so they hold at every point where a crash may stop an operation: what the disk
  holds then is what the operation leaves when its next call fails.

  The file keeps its whole content and how much of it has been synced. A crash leaves a prefix of
  the content that is at least the synced part, or what an unsynced truncation replaced, or what
  was under the file's name when no storage sync followed a creation or a rename. Bytes a buffered
  writer holds count as content that is not synced; when a writer is dropped before they are written,
  as closing one does after a sync that failed, dropping it is taken to write them. The several reads of one pass over the file share
  one outcome, since the first that fails ends the pass before any state changes.
\<close>

section \<open>Storage\<close>

datatype fault = Succeed | Fail nat

record wal_file =
  data :: bytes
  synced_len :: nat
  before_truncate :: "bytes list"

definition empty_file :: wal_file where
  "empty_file = \<lparr>data = [], synced_len = 0, before_truncate = []\<rparr>"

definition file_survivors :: "wal_file \<Rightarrow> bytes list" where
  "file_survivors f =
     map (\<lambda>k. take k (data f)) [synced_len f ..< Suc (length (data f))] @ before_truncate f"

datatype wal_sync_policy =
    PerRecord
  | Group (max_records: nat) (max_bytes: nat) (max_interval: "nat option")

definition flush_interval :: "wal_sync_policy \<Rightarrow> nat option" where
  "flush_interval p =
     (case p of
        Group records bytes interval \<Rightarrow>
          (case interval of Some d \<Rightarrow> if d = 0 then None else Some d | None \<Rightarrow> None)
      | PerRecord \<Rightarrow> None)"

section \<open>Writing records to a file\<close>

record writer_state =
  dirty :: bool
  unsynced_records :: nat
  unsynced_bytes :: nat

definition writer_new :: writer_state where
  "writer_new = \<lparr>dirty = False, unsynced_records = 0, unsynced_bytes = 0\<rparr>"

text \<open>A writer and the file it writes to: the log file, or the temporary file of a rewrite.\<close>

record sink =
  sink_file :: wal_file
  sink_writer :: "writer_state option"
  sink_torn :: bool
  sink_faults :: "fault list"

definition sink_write :: "bytes \<Rightarrow> (sink, unit) io" where
  "sink_write bs s =
     (let f = sink_file s
      in case sink_faults s of
           Fail k # fs \<Rightarrow>
             (Inl (Io ''write failed''),
              s\<lparr>sink_file := f\<lparr>data := data f @ take k bs\<rparr>, sink_faults := fs\<rparr>)
         | fs \<Rightarrow>
             (Inr (), s\<lparr>sink_file := f\<lparr>data := data f @ bs\<rparr>, sink_faults := tl fs\<rparr>))"

definition sink_sync :: "(sink, unit) io" where
  "sink_sync s =
     (let f = sink_file s
      in case sink_faults s of
           Fail k # fs \<Rightarrow> (Inl (Io ''flush_and_sync failed''), s\<lparr>sink_faults := fs\<rparr>)
         | fs \<Rightarrow>
             (Inr (),
              s\<lparr>sink_file := f\<lparr>synced_len := length (data f), before_truncate := []\<rparr>,
                sink_faults := tl fs\<rparr>))"

text \<open>Any other call, which changes nothing the model sees.\<close>

definition sink_call :: "string \<Rightarrow> (sink, unit) io" where
  "sink_call what s =
     (case sink_faults s of
        Fail k # fs \<Rightarrow> (Inl (Io what), s\<lparr>sink_faults := fs\<rparr>)
      | fs \<Rightarrow> (Inr (), s\<lparr>sink_faults := tl fs\<rparr>))"

definition sink_close :: "(sink, unit) io" where
  "sink_close = sink_call ''close failed''"

definition append_record_bytes ::
    "document codec \<Rightarrow> document log_record \<Rightarrow> bool \<Rightarrow> (sink, unit) io" where
  "append_record_bytes c record flag s =
     (case sink_writer s of
        None \<Rightarrow> (Inr (), s)
      | Some state \<Rightarrow>
          (case encode_payload c record of
             Inl e \<Rightarrow> (Inl e, s)
           | Inr payload \<Rightarrow>
               if length payload \<ge> 2 ^ 32 then
                 (Inl (InvalidOperation ''WAL record size exceeds u32::MAX''), s)
               else
                 let len_bytes = le_bytes 4 (length payload);
                     crc = le_bytes 4 (crc32 c (len_bytes @ payload));
                     frame_len = length len_bytes + length crc + length payload
                 in (case sbind (sink_write len_bytes)
                            (\<lambda>_. sbind (sink_write crc) (\<lambda>_. sink_write payload)) s of
                       (Inl e, s') \<Rightarrow> (Inl e, if flag then s'\<lparr>sink_torn := True\<rparr> else s')
                     | (Inr _, s') \<Rightarrow>
                         (Inr (),
                          s'\<lparr>sink_writer :=
                            Some (state\<lparr>dirty := True,
                                    unsynced_records := unsynced_records state + 1,
                                    unsynced_bytes :=
                                      min u64_max (unsynced_bytes state + frame_len)\<rparr>)\<rparr>))))"

definition flush_writer :: "(sink, unit) io" where
  "flush_writer s =
     (case sink_writer s of
        None \<Rightarrow> (Inr (), s)
      | Some state \<Rightarrow>
          if dirty state then
            sbind sink_sync
              (\<lambda>_. modify (\<lambda>s. s\<lparr>sink_writer :=
                 Some (state\<lparr>dirty := False, unsynced_records := 0, unsynced_bytes := 0\<rparr>)\<rparr>)) s
          else (Inr (), s))"

definition batch_ready :: "writer_state option \<Rightarrow> wal_sync_policy \<Rightarrow> bool" where
  "batch_ready state policy =
     (case policy of
        PerRecord \<Rightarrow> True
      | Group records bytes interval \<Rightarrow>
          (case state of
             None \<Rightarrow> False
           | Some s \<Rightarrow>
               interval = Some 0 \<or> unsynced_records s \<ge> max records 1 \<or>
               unsynced_bytes s \<ge> max bytes 1))"

definition write_record ::
    "document codec \<Rightarrow> wal_sync_policy \<Rightarrow> nat \<Rightarrow> document log_record \<Rightarrow> bool \<Rightarrow> (sink, unit) io" where
  "write_record c policy deferral record flag =
     sbind (append_record_bytes c record flag)
       (\<lambda>_ s.
          let flush_now =
                (case policy of
                   PerRecord \<Rightarrow> deferral = 0
                 | Group _ _ _ \<Rightarrow> batch_ready (sink_writer s) policy)
          in if flush_now then flush_writer s else (Inr (), s))"

fun write_records ::
    "document codec \<Rightarrow> wal_sync_policy \<Rightarrow> nat \<Rightarrow> document log_record list \<Rightarrow> (sink, unit) io" where
  "write_records c policy deferral [] = ret ()"
| "write_records c policy deferral (r # rs) =
     sbind (write_record c policy deferral r False) (\<lambda>_. write_records c policy deferral rs)"

section \<open>The log\<close>

record doc_log =
  wal :: "wal_file option"
  wal_undo :: "bytes option list"
  faults :: "fault list"
  header_faults :: "bool list"
  next_doc_id :: nat
  next_seq :: nat
  wal_writer :: "writer_state option"
  sync_policy :: wal_sync_policy
  sync_deferral_depth :: nat
  torn :: bool
  wal_name_synced :: bool
  docs :: doc_store

text \<open>The log over a document store that was opened, on a file that is there or not.\<close>

definition fresh_log ::
    "wal_file option \<Rightarrow> bytes option list \<Rightarrow> fault list \<Rightarrow> bool list \<Rightarrow> doc_store \<Rightarrow>
     wal_sync_policy \<Rightarrow> doc_log" where
  "fresh_log file undo fs hfs doc_store policy =
     \<lparr>wal = file, wal_undo = undo, faults = fs, header_faults = hfs, next_doc_id = 1, next_seq = 1,
      wal_writer = None, sync_policy = policy, sync_deferral_depth = 0, torn = False,
      wal_name_synced = False, docs = doc_store\<rparr>"

definition with_sync_policy ::
    "wal_file option \<Rightarrow> bytes option list \<Rightarrow> fault list \<Rightarrow> bool list \<Rightarrow> bool \<Rightarrow> doc_files \<Rightarrow>
     wal_sync_policy \<Rightarrow> doc_log res" where
  "with_sync_policy file undo fs hfs readable doc_store_files policy =
     rbind (open_store readable doc_store_files)
       (\<lambda>doc_store. Inr (fresh_log file undo fs hfs doc_store policy))"

lemma with_sync_policy_opens:
  "with_sync_policy file undo fs hfs readable dsf policy =
     (if manifest_file dsf \<noteq> None \<and> \<not> readable then Inl (Storage ''the manifest cannot be read'')
      else Inr (fresh_log file undo fs hfs (ds_open dsf) policy))"
  by (simp add: with_sync_policy_def open_store_def)

text \<open>What may be under the file's name after a crash.\<close>

definition survivors :: "doc_log \<Rightarrow> bytes option list" where
  "survivors l =
     (case wal l of None \<Rightarrow> [None] | Some f \<Rightarrow> map Some (file_survivors f)) @ wal_undo l"

definition io_call :: "string \<Rightarrow> (doc_log, unit) io" where
  "io_call what l =
     (case faults l of
        Fail k # fs \<Rightarrow> (Inl (Io what), l\<lparr>faults := fs\<rparr>)
      | fs \<Rightarrow> (Inr (), l\<lparr>faults := tl fs\<rparr>))"

definition on_live :: "(sink, 'a) io \<Rightarrow> (doc_log, 'a) io" where
  "on_live m l =
     (case m \<lparr>sink_file = (case wal l of Some f \<Rightarrow> f | None \<Rightarrow> empty_file),
              sink_writer = wal_writer l, sink_torn = torn l, sink_faults = faults l\<rparr> of
        (r, s) \<Rightarrow>
          (r, l\<lparr>wal := (case wal l of Some _ \<Rightarrow> Some (sink_file s) | None \<Rightarrow> None),
                wal_writer := sink_writer s, torn := sink_torn s, faults := sink_faults s\<rparr>))"

definition create_output_append :: "(doc_log, unit) io" where
  "create_output_append =
     sbind (io_call ''create_output_append failed'')
       (\<lambda>_. modify (\<lambda>l.
          case wal l of
            Some _ \<Rightarrow> l
          | None \<Rightarrow> l\<lparr>wal := Some empty_file, wal_undo := None # wal_undo l\<rparr>))"

text \<open>\<open>create_output\<close> truncates a file in place, and creates one where there is none.\<close>

definition create_output :: "(doc_log, unit) io" where
  "create_output =
     sbind (io_call ''create_output failed'')
       (\<lambda>_. modify (\<lambda>l.
          case wal l of
            Some f \<Rightarrow>
              l\<lparr>wal := Some \<lparr>data = [], synced_len = 0, before_truncate = file_survivors f\<rparr>\<rparr>
          | None \<Rightarrow> l\<lparr>wal := Some empty_file, wal_undo := None # wal_undo l\<rparr>))"

definition storage_sync :: "(doc_log, unit) io" where
  "storage_sync =
     sbind (io_call ''storage sync failed'') (\<lambda>_. modify (\<lambda>l. l\<lparr>wal_undo := []\<rparr>))"

definition rename_file :: "wal_file \<Rightarrow> (doc_log, unit) io" where
  "rename_file tmp =
     sbind (io_call ''rename failed'')
       (\<lambda>_. modify (\<lambda>l. l\<lparr>wal := Some tmp, wal_undo := survivors l\<rparr>))"

definition sync_wal_storage :: "(doc_log, unit) io" where
  "sync_wal_storage l =
     (case storage_sync l of (synced, l') \<Rightarrow> (synced, l'\<lparr>wal_name_synced := ok synced\<rparr>))"

text \<open>Run a writer on a fresh temporary file, then rename it over the log.\<close>

definition replace_with :: "(sink, unit) io \<Rightarrow> (doc_log, unit) io" where
  "replace_with build =
     sbind (io_call ''create_temp_output failed'')
       (\<lambda>_ l.
          case build \<lparr>sink_file = empty_file, sink_writer = Some writer_new, sink_torn = False,
                      sink_faults = faults l\<rparr> of
            (Inl e, s) \<Rightarrow> (Inl e, l\<lparr>faults := sink_faults s\<rparr>)
          | (Inr _, s) \<Rightarrow>
              sbind (modify (\<lambda>l. l\<lparr>wal_name_synced := False\<rparr>))
                (\<lambda>_. sbind (rename_file (sink_file s)) (\<lambda>_. sync_wal_storage))
                (l\<lparr>faults := sink_faults s\<rparr>))"

definition rewrite_wal :: "document codec \<Rightarrow> document log_record list \<Rightarrow> (doc_log, unit) io" where
  "rewrite_wal c records l =
     replace_with
       (sbind (sink_write WAL_MAGIC)
         (\<lambda>_. sbind (sink_write [WAL_VERSION])
           (\<lambda>_. sbind (write_records c (sync_policy l) (sync_deferral_depth l + 1) records)
             (\<lambda>_. sbind sink_sync (\<lambda>_. sink_close))))) l"

definition wal_bytes :: "doc_log \<Rightarrow> bytes" where
  "wal_bytes l = (case wal l of Some f \<Rightarrow> data f | None \<Rightarrow> [])"

definition cut_wal :: "nat \<Rightarrow> (doc_log, unit) io" where
  "cut_wal valid_len l =
     replace_with
       (sbind (sink_call ''open_input failed'')
         (\<lambda>_. sbind (sink_write (take valid_len (wal_bytes l)))
           (\<lambda>_. sbind sink_sync (\<lambda>_. sink_close)))) l"

section \<open>Reading\<close>

definition set_next_doc_id :: "nat \<Rightarrow> doc_log \<Rightarrow> doc_log" where
  "set_next_doc_id i l = (if i > next_doc_id l then l\<lparr>next_doc_id := i\<rparr> else l)"

definition last_seq :: "doc_log \<Rightarrow> nat" where
  "last_seq l = next_seq l - 1"

definition advance_seq_past :: "nat \<Rightarrow> doc_log \<Rightarrow> doc_log" where
  "advance_seq_past s l = l\<lparr>next_seq := max (next_seq l) (saturating_succ s)\<rparr>"

text \<open>
  The framing of the file: shorter than a header is legacy, and so is a file whose header cannot be
  read, since the source takes every failure of that read for a file without the magic. Whether that
  read fails is taken from \<open>header_faults\<close>, apart from the other calls.
\<close>

definition detect_format :: "(doc_log, wal_format) io" where
  "detect_format l =
     (if length (wal_bytes l) < WAL_HEADER_LEN then (Inr Legacy, l)
      else
        sbind (io_call ''open_input failed'')
          (\<lambda>_ l. case header_faults l of
                    True # hfs \<Rightarrow> (Inr Legacy, l\<lparr>header_faults := hfs\<rparr>)
                  | hfs \<Rightarrow> (Inr (detect_existing_format (wal_bytes l)), l\<lparr>header_faults := tl hfs\<rparr>)) l)"

definition raise_counters :: "document log_record list \<Rightarrow> doc_log \<Rightarrow> doc_log" where
  "raise_counters records l =
     (let l1 = (if max_seq records \<ge> next_seq l
                then l\<lparr>next_seq := wrapping_succ (max_seq records)\<rparr> else l);
          l2 = (if max_doc_id records \<ge> next_doc_id l1
                then l1\<lparr>next_doc_id := wrapping_succ (max_doc_id records)\<rparr> else l1)
      in set_next_doc_id (store_next_doc_id (docs l)) l2)"

text \<open>The pass over the file's records, in a framing this build knows.\<close>

definition read_records ::
    "document codec \<Rightarrow> wal_format \<Rightarrow> (doc_log, document log_record list \<times> nat option) io" where
  "read_records c f =
     (case f of
        Unknown version \<Rightarrow> fail (unknown_version_error version)
      | _ \<Rightarrow>
          sbind (io_call ''reading the WAL failed'')
            (\<lambda>_ l. case parse_as c f (wal_bytes l) of
                Inl e \<Rightarrow> (Inl e, l)
              | Inr (records, cut_at) \<Rightarrow> (Inr (records, cut_at), raise_counters records l)))"

definition read_wal ::
    "document codec \<Rightarrow> (doc_log, document log_record list \<times> nat option) io" where
  "read_wal c l =
     (if wal l = None then
        (Inr ([], None), set_next_doc_id (store_next_doc_id (docs l)) l)
      else
        sbind (io_call ''open_input failed'') (\<lambda>_. sbind detect_format (read_records c)) l)"

definition read_all :: "document codec \<Rightarrow> (doc_log, document log_record list) io" where
  "read_all c =
     sbind (read_wal c)
       (\<lambda>(records, cut_at) l.
          case cut_at of
            Some valid_len \<Rightarrow>
              if wal_writer l = None then sbind (cut_wal valid_len) (\<lambda>_. ret records) l
              else (Inr records, l)
          | None \<Rightarrow> (Inr records, l))"

section \<open>Appending\<close>

text \<open>An existing file is taken as it is when it is in v4, and rewritten in v4 when it is older.\<close>

definition upgrade_wal :: "document codec \<Rightarrow> (doc_log, unit) io" where
  "upgrade_wal c =
     sbind detect_format
       (\<lambda>f. case f of
           V4 \<Rightarrow> ret ()
         | Unknown version \<Rightarrow> fail (unknown_version_error version)
         | _ \<Rightarrow> sbind (read_wal c) (\<lambda>(records, _). rewrite_wal c records))"

definition ensure_name :: "(doc_log, unit) io" where
  "ensure_name l = (if wal_name_synced l then (Inr (), l) else sync_wal_storage l)"

definition write_header :: "(doc_log, unit) io" where
  "write_header = on_live (sbind (sink_write WAL_MAGIC) (\<lambda>_. sink_write [WAL_VERSION]))"

definition open_append :: "bool \<Rightarrow> (doc_log, unit) io" where
  "open_append fresh =
     sbind create_output_append
       (\<lambda>_. sbind ensure_name
         (\<lambda>_. sbind (if fresh then write_header else ret ())
           (\<lambda>_. modify (\<lambda>l. l\<lparr>wal_writer := Some writer_new\<rparr>))))"

definition ensure_writer :: "document codec \<Rightarrow> (doc_log, unit) io" where
  "ensure_writer c l =
     (if torn l then
        (Inl (Storage ''WAL may end in a partially written record''), l)
      else if wal_writer l \<noteq> None then (Inr (), l)
      else
        let fresh = (length (wal_bytes l) = 0)
        in sbind (if wal l \<noteq> None then io_call ''open_input failed'' else ret ())
             (\<lambda>_. sbind (if fresh then ret () else upgrade_wal c) (\<lambda>_. open_append fresh)) l)"

definition append_put ::
    "document codec \<Rightarrow> string \<Rightarrow> document \<Rightarrow> nat list \<Rightarrow> (doc_log, nat \<times> nat) io" where
  "append_put c external_id doc replaces =
     sbind (ensure_writer c)
       (\<lambda>_ l.
          let doc_id = next_doc_id l;
              seq_no = next_seq l;
              record = \<lparr>seq = seq_no, entry = Upsert doc_id external_id doc replaces\<rparr>
          in sbind (on_live (write_record c (sync_policy l) (sync_deferral_depth l) record True))
               (\<lambda>_. ret (doc_id, seq_no))
               (l\<lparr>next_doc_id := wrapping_succ doc_id, next_seq := wrapping_succ seq_no\<rparr>))"

definition append ::
    "document codec \<Rightarrow> string \<Rightarrow> document \<Rightarrow> (doc_log, nat \<times> nat) io" where
  "append c external_id doc = append_put c external_id doc []"

definition append_delete ::
    "document codec \<Rightarrow> nat list \<Rightarrow> string \<Rightarrow> (doc_log, nat) io" where
  "append_delete c doc_ids external_id =
     sbind (ensure_writer c)
       (\<lambda>_ l.
          let seq_no = next_seq l;
              record = \<lparr>seq = seq_no, entry = Delete doc_ids external_id\<rparr>
          in sbind (on_live (write_record c (sync_policy l) (sync_deferral_depth l) record True))
               (\<lambda>_. ret seq_no)
               (l\<lparr>next_seq := wrapping_succ seq_no\<rparr>))"

definition flush_wal :: "(doc_log, unit) io" where
  "flush_wal = on_live flush_writer"

definition ensure_per_record_durability :: "(doc_log, unit) io" where
  "ensure_per_record_durability l =
     (case sync_policy l of PerRecord \<Rightarrow> flush_wal l | Group _ _ _ \<Rightarrow> (Inr (), l))"

definition defer_sync :: "doc_log \<Rightarrow> doc_log" where
  "defer_sync l = l\<lparr>sync_deferral_depth := sync_deferral_depth l + 1\<rparr>"

definition drop_deferral :: "doc_log \<Rightarrow> doc_log" where
  "drop_deferral l = l\<lparr>sync_deferral_depth := sync_deferral_depth l - 1\<rparr>"

section \<open>Truncating\<close>

definition close_writer :: "(doc_log, unit) io" where
  "close_writer l =
     (case wal_writer l of
        None \<Rightarrow> (Inr (), l)
      | Some state \<Rightarrow>
          sbind (if dirty state then on_live sink_sync else ret ()) (\<lambda>_. on_live sink_close)
            (l\<lparr>wal_writer := None\<rparr>))"

definition truncate_retaining_after :: "document codec \<Rightarrow> nat \<Rightarrow> (doc_log, unit) io" where
  "truncate_retaining_after c retain_after_seq =
     sbind close_writer
       (\<lambda>_ l.
          if last_seq l \<le> retain_after_seq then
            sbind create_output
              (\<lambda>_. sbind (on_live sink_sync)
                (\<lambda>_. sbind (on_live sink_close) (\<lambda>_. storage_sync))) l
          else
            sbind (read_wal c)
              (\<lambda>(records, _).
                 rewrite_wal c (filter (\<lambda>record. seq record > retain_after_seq) records)) l)"

definition truncate :: "document codec \<Rightarrow> (doc_log, unit) io" where
  "truncate c = truncate_retaining_after c u64_max"

section \<open>The document store\<close>

definition store_document :: "nat \<Rightarrow> document \<Rightarrow> doc_log \<Rightarrow> doc_log" where
  "store_document doc_id doc l = l\<lparr>docs := put_document_with_id doc_id doc (docs l)\<rparr>"

definition commit_documents :: "json_codec \<Rightarrow> bool \<Rightarrow> save_outcome \<Rightarrow> (doc_log, unit) io" where
  "commit_documents j write_ok outcome l =
     (case ds_commit j write_ok outcome (docs l) of (r, ds) \<Rightarrow> (r, l\<lparr>docs := ds\<rparr>))"

end
