(* ===== verification/Log_Recovery.thy ===== *)
theory Log_Recovery
  imports Doc_Log
begin

text \<open>
  What the document log guarantees: the records a log holds, what every crash preserves of them, and
  how each operation changes both. \<open>log_holds c l rs\<close> says that the log's file holds exactly the
  records \<open>rs\<close>, its counters lie above them, and its file's name is durable when the log believes so;
  \<open>keeps c l R\<close> says that whatever file a crash leaves still holds every record of \<open>R\<close>.
\<close>

section \<open>Invariants\<close>

definition upsert_id :: "document log_record \<Rightarrow> nat" where
  "upsert_id r = (case entry r of Upsert i external_id doc replaces \<Rightarrow> i | Delete is external_id \<Rightarrow> 0)"

definition parse_survivor ::
    "document codec \<Rightarrow> bytes option \<Rightarrow> (document log_record list \<times> nat option) res" where
  "parse_survivor c x = (case x of None \<Rightarrow> Inr ([], None) | Some bs \<Rightarrow> parse_wal c bs)"

text \<open>What the records of any file the log leaves satisfy: increasing numbers, with room above.\<close>

definition good_records :: "document log_record list \<Rightarrow> bool" where
  "good_records rs \<longleftrightarrow> sorted_wrt (<) (map seq rs) \<and>
     (\<forall>r \<in> set rs. seq r < u64_max \<and> upsert_id r < u64_max)"

definition survivor_keeps ::
    "document codec \<Rightarrow> (document log_record list \<Rightarrow> bool) \<Rightarrow> bytes option \<Rightarrow> bool" where
  "survivor_keeps c R x \<longleftrightarrow>
     (\<exists>rs cut. parse_survivor c x = Inr (rs, cut) \<and> R rs \<and> good_records rs)"

definition keeps :: "document codec \<Rightarrow> doc_log \<Rightarrow> (document log_record list \<Rightarrow> bool) \<Rightarrow> bool" where
  "keeps c l R \<longleftrightarrow> (\<forall>x \<in> set (survivors l). survivor_keeps c R x)"

definition torn_tail :: "document codec \<Rightarrow> bytes \<Rightarrow> bool" where
  "torn_tail c bs \<longleftrightarrow>
     (\<exists>r k. encodable c r \<and> k < length (frame_bytes c r) \<and> bs = take k (frame_bytes c r))"

definition file_holds ::
    "document codec \<Rightarrow> bool \<Rightarrow> bool \<Rightarrow> wal_file \<Rightarrow> document log_record list \<Rightarrow> bool" where
  "file_holds c opened is_torn f rs \<longleftrightarrow> synced_len f \<le> length (data f) \<and>
     (if opened
      then \<exists>bs tail. data f = bs @ tail \<and> clean_v4 c rs bs \<and> (tail = [] \<or> is_torn \<and> torn_tail c tail)
      else \<exists>cut. parse_wal c (data f) = Inr (rs, cut) \<and>
             (cut \<noteq> None \<longrightarrow> is_torn \<or> detect_existing_format (data f) \<noteq> V4))"

definition counters_above :: "doc_log \<Rightarrow> document log_record list \<Rightarrow> bool" where
  "counters_above l rs \<longleftrightarrow> 0 < next_seq l \<and> next_seq l \<le> u64_max \<and>
     0 < next_doc_id l \<and> next_doc_id l \<le> u64_max \<and> store_next_doc_id (docs l) \<le> u64_max \<and>
     sorted_wrt (<) (map seq rs) \<and>
     (\<forall>r \<in> set rs. seq r < next_seq l \<and> upsert_id r < next_doc_id l)"

definition name_durable :: "doc_log \<Rightarrow> bool" where
  "name_durable l \<longleftrightarrow> (wal_name_synced l \<longrightarrow> wal l \<noteq> None \<and> wal_undo l = []) \<and>
     (wal_writer l \<noteq> None \<longrightarrow> wal_name_synced l)"

definition log_holds :: "document codec \<Rightarrow> doc_log \<Rightarrow> document log_record list \<Rightarrow> bool" where
  "log_holds c l rs \<longleftrightarrow> counters_above l rs \<and> name_durable l \<and> True \<notin> set (header_faults l) \<and>
     (case wal l of
        None \<Rightarrow> rs = [] \<and> wal_writer l = None
      | Some f \<Rightarrow> file_holds c (wal_writer l \<noteq> None) (torn l) f rs)"

text \<open>The property most often kept: certain records are among the file's.\<close>

definition contains :: "document log_record set \<Rightarrow> document log_record list \<Rightarrow> bool" where
  "contains S rs \<longleftrightarrow> S \<subseteq> set rs"

lemma contains_simps [simp]: "contains (set rs) rs" "contains {} rs"
  "contains (set rs) (rs @ xs)" "contains (set (take k rs)) rs" "contains (set (take k rs)) (rs @ xs)"
  by (auto simp: contains_def dest: in_set_takeD)

lemma keeps_mono: "keeps c l R \<Longrightarrow> (\<And>rs. R rs \<Longrightarrow> R' rs) \<Longrightarrow> keeps c l R'"
  by (fastforce simp: keeps_def survivor_keeps_def)

lemma survivor_keeps_mono: "survivor_keeps c R x \<Longrightarrow> (\<And>rs. R rs \<Longrightarrow> R' rs) \<Longrightarrow> survivor_keeps c R' x"
  by (fastforce simp: survivor_keeps_def)

lemma counters_good: "counters_above l rs \<Longrightarrow> good_records rs"
  by (fastforce simp: counters_above_def good_records_def)

lemma good_Nil [simp]: "good_records []"
  by (simp add: good_records_def)

lemma survivor_keeps_parse:
  "parse_wal c bs = Inr (rs, v) \<Longrightarrow> R rs \<Longrightarrow> good_records rs \<Longrightarrow> survivor_keeps c R (Some bs)"
  by (auto simp: survivor_keeps_def parse_survivor_def)

lemma parse_Nil: "parse_wal c [] = Inr ([], None)"
  by (simp add: parse_wal_def parse_as_def detect_existing_format_def WAL_HEADER_LEN_def
      header_len_def read_frames_Nil)

lemma torn_tail_parse:
  assumes "codec_ok c" "clean_v4 c rs bs" "torn_tail c tail"
  shows "\<exists>cut. parse_wal c (bs @ tail) = Inr (rs, cut)"
  using assms clean_v4_torn by (fastforce simp: torn_tail_def)

text \<open>Whatever the state of the writer, reading the file gives the records it holds.\<close>

lemma file_holds_parse:
  assumes "codec_ok c" "file_holds c opened is_torn f rs"
  shows "\<exists>cut. parse_wal c (data f) = Inr (rs, cut)"
proof (cases opened)
  case True
  with assms(2) obtain bs tail where b: "data f = bs @ tail" "clean_v4 c rs bs"
    "tail = [] \<or> torn_tail c tail"
    by (auto simp: file_holds_def)
  then show ?thesis
    using torn_tail_parse [OF assms(1) b(2)] by (auto simp: clean_v4_def)
next
  case False
  with assms(2) show ?thesis by (auto simp: file_holds_def)
qed

lemma file_survivors_self: "synced_len f \<le> length (data f) \<Longrightarrow> data f \<in> set (file_survivors f)"
  by (force simp: file_survivors_def)

section \<open>Writing frames\<close>

text \<open>\<open>wrote f f' bs\<close>: \<open>f'\<close> is \<open>f\<close> with \<open>bs\<close> appended, synced in between or not.\<close>

definition wrote :: "wal_file \<Rightarrow> wal_file \<Rightarrow> bytes \<Rightarrow> bool" where
  "wrote f f' bs \<longleftrightarrow> data f' = data f @ bs \<and>
     (synced_len f' = synced_len f \<and> before_truncate f' = before_truncate f \<or>
      length (data f) \<le> synced_len f' \<and> synced_len f' \<le> length (data f') \<and>
      before_truncate f' = [])"

definition fully_synced :: "wal_file \<Rightarrow> bool" where
  "fully_synced f \<longleftrightarrow> synced_len f = length (data f) \<and> before_truncate f = []"

lemma fully_synced_survivors: "fully_synced f \<Longrightarrow> file_survivors f = [data f]"
  by (simp add: fully_synced_def file_survivors_def)

lemma wrote_survivors:
  assumes "wrote f f' bs" "synced_len f \<le> length (data f)" "x \<in> set (file_survivors f')"
  shows "x \<in> set (file_survivors f) \<or> (\<exists>j. x = data f @ take j bs)"
proof -
  from assms(1) consider (same) "synced_len f' = synced_len f" "before_truncate f' = before_truncate f"
    | (synced) "length (data f) \<le> synced_len f'" "before_truncate f' = []"
    by (auto simp: wrote_def)
  then show ?thesis
  proof cases
    case synced
    from assms(3) synced(2) have "x \<in> (\<lambda>k. take k (data f')) ` set [synced_len f' ..< Suc (length (data f'))]"
      by (simp only: file_survivors_def append_Nil2 set_map)
    then obtain k where "synced_len f' \<le> k" "x = take k (data f')"
      by (auto simp only: set_upt atLeastLessThan_iff)
    then have "length (data f) \<le> k" "x = take k (data f @ bs)"
      using synced(1) assms(1) by (simp_all add: wrote_def)
    then have "x = data f @ take (k - length (data f)) bs" by simp
    then show ?thesis by blast
  next
    case same
    from assms(3) consider "x \<in> set (before_truncate f)"
      | k where "synced_len f \<le> k" "x = take k (data f @ bs)"
      using same assms(1) by (auto simp: file_survivors_def wrote_def)
    then show ?thesis
    proof cases
      case 1
      then show ?thesis by (simp add: file_survivors_def)
    next
      case (2 k)
      show ?thesis
      proof (cases "k \<le> length (data f)")
        case True
        with 2 have "x = take k (data f)" by simp
        moreover from 2 True have "k \<in> {synced_len f ..< Suc (length (data f))}" by simp
        ultimately show ?thesis by (auto simp: file_survivors_def)
      next
        case False
        with 2 have "x = data f @ take (k - length (data f)) bs" by simp
        then show ?thesis by blast
      qed
    qed
  qed
qed

lemma wrote_trans: "wrote f g a \<Longrightarrow> wrote g h b \<Longrightarrow> wrote f h (a @ b)"
  by (auto simp: wrote_def)

lemma wrote_refl: "wrote f f []"
  by (simp add: wrote_def)

lemma wrote_length: "wrote f f' bs \<Longrightarrow> synced_len f \<le> length (data f) \<Longrightarrow> synced_len f' \<le> length (data f')"
  by (auto simp: wrote_def)

definition sink_frame :: "sink \<Rightarrow> sink \<Rightarrow> bool" where
  "sink_frame s s' \<longleftrightarrow> sink_writer s' = sink_writer s \<and> sink_torn s' = sink_torn s"

lemma sink_write_post:
  "post (sink_write bs) s (\<lambda>r s'. sink_frame s s' \<and>
     (\<exists>k. sink_file s' = (sink_file s)\<lparr>data := data (sink_file s) @ take k bs\<rparr> \<and>
          (ok r \<longrightarrow> length bs \<le> k)))"
proof (cases "\<exists>k fs. sink_faults s = Fail k # fs")
  case True
  then obtain k fs where "sink_faults s = Fail k # fs" by blast
  then show ?thesis
    by (simp add: post_def sink_write_def sink_frame_def Let_def) (rule exI [of _ k], simp)
next
  case False
  then have "sink_write bs s = (Inr (), s\<lparr>sink_file := (sink_file s)\<lparr>data := data (sink_file s) @ bs\<rparr>,
      sink_faults := tl (sink_faults s)\<rparr>)"
    by (auto simp: sink_write_def Let_def split: list.splits fault.splits)
  then show ?thesis
    by (simp add: post_def sink_frame_def) (rule exI [of _ "length bs"], simp)
qed

lemma sink_sync_post:
  "post sink_sync s (\<lambda>r s'. sink_frame s s' \<and>
     sink_file s' = (if ok r
       then (sink_file s)\<lparr>synced_len := length (data (sink_file s)), before_truncate := []\<rparr>
       else sink_file s))"
  by (auto simp: post_def sink_sync_def sink_frame_def Let_def split: list.splits fault.splits)

lemma sink_call_post: "post (sink_call w) s (\<lambda>r s'. sink_frame s s' \<and> sink_file s' = sink_file s)"
  by (auto simp: post_def sink_call_def sink_frame_def split: list.splits fault.splits)

text \<open>A writing step appends some prefix of its bytes, all of them when it succeeds.\<close>

definition appends :: "(sink, unit) io \<Rightarrow> bytes \<Rightarrow> bool" where
  "appends m bs \<longleftrightarrow> (\<forall>s. post m s (\<lambda>r s'. sink_frame s s' \<and>
     (\<exists>k. sink_file s' = (sink_file s)\<lparr>data := data (sink_file s) @ take k bs\<rparr> \<and>
          (ok r \<longrightarrow> length bs \<le> k))))"

lemma appends_write: "appends (sink_write bs) bs"
  using sink_write_post by (simp add: appends_def)

lemma appends_sbind:
  assumes "appends m a" "appends n b"
  shows "appends (sbind m (\<lambda>_. n)) (a @ b)"
  unfolding appends_def
proof (intro allI, rule post_sbindI)
  fix s
  show "post m s (\<lambda>r s'. sink_frame s s' \<and>
     (\<exists>k. sink_file s' = (sink_file s)\<lparr>data := data (sink_file s) @ take k a\<rparr> \<and>
          (ok r \<longrightarrow> length a \<le> k)))"
    using assms(1) by (simp add: appends_def)
next
  fix s e s'
  assume "sink_frame s s' \<and> (\<exists>k. sink_file s' = (sink_file s)\<lparr>data := data (sink_file s) @ take k a\<rparr> \<and>
          (ok (Inl e :: unit res) \<longrightarrow> length a \<le> k))"
  then obtain k where k: "sink_frame s s'"
    "sink_file s' = (sink_file s)\<lparr>data := data (sink_file s) @ take k a\<rparr>" by auto
  then have "sink_file s' = (sink_file s)\<lparr>data := data (sink_file s) @ take (min k (length a)) (a @ b)\<rparr>"
    by (simp add: min_def)
  with k(1) show "sink_frame s s' \<and>
      (\<exists>k. sink_file s' = (sink_file s)\<lparr>data := data (sink_file s) @ take k (a @ b)\<rparr> \<and>
          (ok (Inl e :: unit res) \<longrightarrow> length (a @ b) \<le> k))"
    by (intro conjI exI [of _ "min k (length a)"]) simp_all
next
  fix s s' and x :: unit
  assume "sink_frame s s' \<and> (\<exists>k. sink_file s' = (sink_file s)\<lparr>data := data (sink_file s) @ take k a\<rparr> \<and>
          (ok (Inr x :: unit res) \<longrightarrow> length a \<le> k))"
  then have f: "sink_frame s s'" "sink_file s' = (sink_file s)\<lparr>data := data (sink_file s) @ a\<rparr>"
    by auto
  from assms(2) have "post n s' (\<lambda>r s''. sink_frame s' s'' \<and>
     (\<exists>k. sink_file s'' = (sink_file s')\<lparr>data := data (sink_file s') @ take k b\<rparr> \<and>
          (ok r \<longrightarrow> length b \<le> k)))"
    by (simp add: appends_def)
  then show "post n s' (\<lambda>r s''. sink_frame s s'' \<and>
     (\<exists>k. sink_file s'' = (sink_file s)\<lparr>data := data (sink_file s) @ take k (a @ b)\<rparr> \<and>
          (ok r \<longrightarrow> length (a @ b) \<le> k)))"
  proof (rule post_mono)
    fix r s''
    assume "sink_frame s' s'' \<and>
     (\<exists>k. sink_file s'' = (sink_file s')\<lparr>data := data (sink_file s') @ take k b\<rparr> \<and>
          (ok (r :: unit res) \<longrightarrow> length b \<le> k))"
    then obtain k where "sink_frame s' s''"
      "sink_file s'' = (sink_file s')\<lparr>data := data (sink_file s') @ take k b\<rparr>"
      "ok r \<Longrightarrow> length b \<le> k" by blast
    with f show "sink_frame s s'' \<and>
     (\<exists>k. sink_file s'' = (sink_file s)\<lparr>data := data (sink_file s) @ take k (a @ b)\<rparr> \<and>
          (ok r \<longrightarrow> length (a @ b) \<le> k))"
      by (intro conjI exI [of _ "length a + k"]) (auto simp: sink_frame_def)
  qed
qed

lemma encode_frame:
  assumes "encode_payload c r = Inr p" "length p < 2 ^ 32"
  shows "encodable c r"
    and "frame_bytes c r = le_bytes 4 (length p) @ le_bytes 4 (crc32 c (le_bytes 4 (length p) @ p)) @ p"
  using assms
  by (simp_all add: encodable_def frame_bytes_def frame_def frame_of_payload_def Let_def)

definition appended :: "document codec \<Rightarrow> document log_record \<Rightarrow> bool \<Rightarrow> writer_state \<Rightarrow> sink \<Rightarrow>
    unit res \<Rightarrow> sink \<Rightarrow> bool" where
  "appended c r flag w s res s' \<longleftrightarrow> encodable c r \<and>
     (if ok res
      then sink_file s' = (sink_file s)\<lparr>data := data (sink_file s) @ frame_bytes c r\<rparr> \<and>
        sink_torn s' = sink_torn s \<and>
        (\<exists>b. sink_writer s' = Some (w\<lparr>dirty := True, unsynced_records := unsynced_records w + 1,
                                    unsynced_bytes := b\<rparr>))
      else (\<exists>k. sink_file s' = (sink_file s)\<lparr>data := data (sink_file s) @ take k (frame_bytes c r)\<rparr>) \<and>
        sink_writer s' = Some w \<and> sink_torn s' = (sink_torn s \<or> flag))"

lemma append_record_bytes_post:
  assumes "sink_writer s = Some w"
  shows "post (append_record_bytes c r flag) s
    (\<lambda>res s'. \<not> ok res \<and> s' = s \<or> appended c r flag w s res s')"
proof (cases "encode_payload c r")
  case (Inl e)
  with assms show ?thesis by (simp add: post_def append_record_bytes_def)
next
  case (Inr p)
  show ?thesis
  proof (cases "length p < 2 ^ 32")
    case False
    with Inr assms show ?thesis by (simp add: post_def append_record_bytes_def)
  next
    case True
    note f = encode_frame [OF Inr True]
    let ?len = "le_bytes 4 (length p)"
    let ?crc = "le_bytes 4 (crc32 c (?len @ p))"
    let ?m = "sbind (sink_write ?len) (\<lambda>_. sbind (sink_write ?crc) (\<lambda>_. sink_write p))"
    obtain res s' where m: "?m s = (res, s')" by fastforce
    have "appends ?m (?len @ ?crc @ p)"
      by (intro appends_sbind appends_write)
    then have "appends ?m (frame_bytes c r)" by (simp only: f(2))
    then have "sink_frame s s' \<and>
        (\<exists>k. sink_file s' = (sink_file s)\<lparr>data := data (sink_file s) @ take k (frame_bytes c r)\<rparr> \<and>
          (ok res \<longrightarrow> length (frame_bytes c r) \<le> k))"
      unfolding appends_def using m postD by fast
    then obtain k where k: "sink_frame s s'"
      "sink_file s' = (sink_file s)\<lparr>data := data (sink_file s) @ take k (frame_bytes c r)\<rparr>"
      "ok res \<Longrightarrow> length (frame_bytes c r) \<le> k" by blast
    show ?thesis
    proof (cases res)
      case (Inl e)
      have "append_record_bytes c r flag s = (Inl e, if flag then s'\<lparr>sink_torn := True\<rparr> else s')"
        using \<open>encode_payload c r = Inr p\<close> True assms m Inl
        by (simp add: append_record_bytes_def Let_def)
      with k f(1) assms show ?thesis
        by (auto simp: post_def appended_def sink_frame_def)
    next
      case (Inr u)
      obtain b where "append_record_bytes c r flag s =
          (Inr (), s'\<lparr>sink_writer := Some (w\<lparr>dirty := True, unsynced_records := unsynced_records w + 1,
            unsynced_bytes := b\<rparr>)\<rparr>)"
        using \<open>encode_payload c r = Inr p\<close> True assms m Inr
        by (simp add: append_record_bytes_def Let_def)
      with k f(1) Inr show ?thesis
        by (auto simp: post_def appended_def sink_frame_def)
    qed
  qed
qed

lemma flush_writer_post:
  assumes "sink_writer s = Some w"
  shows "post flush_writer s (\<lambda>res s'. sink_torn s' = sink_torn s \<and>
    (if ok res \<and> dirty w
     then sink_writer s' = Some (w\<lparr>dirty := False, unsynced_records := 0, unsynced_bytes := 0\<rparr>) \<and>
       data (sink_file s') = data (sink_file s) \<and> fully_synced (sink_file s')
     else sink_writer s' = Some w \<and> sink_file s' = sink_file s))"
proof (cases "dirty w")
  case False
  with assms show ?thesis by (simp add: post_def flush_writer_def)
next
  case True
  then have "post flush_writer s = post (sbind sink_sync (\<lambda>_. modify (\<lambda>s. s\<lparr>sink_writer :=
      Some (w\<lparr>dirty := False, unsynced_records := 0, unsynced_bytes := 0\<rparr>)\<rparr>))) s"
    using assms by (simp add: fun_eq_iff post_def flush_writer_def)
  moreover have "post (sbind sink_sync (\<lambda>_. modify (\<lambda>s. s\<lparr>sink_writer :=
      Some (w\<lparr>dirty := False, unsynced_records := 0, unsynced_bytes := 0\<rparr>)\<rparr>))) s
      (\<lambda>res s'. sink_torn s' = sink_torn s \<and>
    (if ok res \<and> dirty w
     then sink_writer s' = Some (w\<lparr>dirty := False, unsynced_records := 0, unsynced_bytes := 0\<rparr>) \<and>
       data (sink_file s') = data (sink_file s) \<and> fully_synced (sink_file s')
     else sink_writer s' = Some w \<and> sink_file s' = sink_file s))"
    by (rule post_sbindI [OF sink_sync_post])
      (auto simp: sink_frame_def assms post_modify fully_synced_def True split: if_splits)
  ultimately show ?thesis by simp
qed

definition recorded :: "document codec \<Rightarrow> wal_sync_policy \<Rightarrow> nat \<Rightarrow> document log_record \<Rightarrow>
    writer_state \<Rightarrow> sink \<Rightarrow> unit res \<Rightarrow> sink \<Rightarrow> bool" where
  "recorded c policy deferral r w s res s' \<longleftrightarrow>
     encodable c r \<and> wrote (sink_file s) (sink_file s') (frame_bytes c r) \<and>
     sink_torn s' = sink_torn s \<and>
     (\<exists>w'. sink_writer s' = Some w' \<and>
        (dirty w' \<and> unsynced_records w' = unsynced_records w + 1 \<or>
         \<not> dirty w' \<and> unsynced_records w' = 0 \<and> fully_synced (sink_file s')) \<and>
        (ok res \<longrightarrow>
          (case policy of
             PerRecord \<Rightarrow> deferral = 0 \<longrightarrow> fully_synced (sink_file s')
           | Group records bytes interval \<Rightarrow> unsynced_records w' < max records 1)))"

definition not_recorded :: "document codec \<Rightarrow> document log_record \<Rightarrow> bool \<Rightarrow>
    writer_state \<Rightarrow> sink \<Rightarrow> unit res \<Rightarrow> sink \<Rightarrow> bool" where
  "not_recorded c r flag w s res s' \<longleftrightarrow> \<not> ok res \<and>
     (s' = s \<or>
      encodable c r \<and> sink_writer s' = Some w \<and> sink_torn s' = (sink_torn s \<or> flag) \<and>
      (\<exists>k. sink_file s' = (sink_file s)\<lparr>data := data (sink_file s) @ take k (frame_bytes c r)\<rparr>))"

lemma fully_synced_wrote:
  "data f' = data f @ bs \<Longrightarrow> fully_synced f' \<Longrightarrow> wrote f f' bs"
  by (simp add: wrote_def fully_synced_def)

lemma write_record_post:
  assumes "sink_writer s = Some w"
  shows "post (write_record c policy deferral r flag) s
    (\<lambda>res s'. not_recorded c r flag w s res s' \<or> recorded c policy deferral r w s res s')"
  unfolding write_record_def
proof (rule post_sbindI [OF append_record_bytes_post [OF assms]])
  fix e s'
  assume "\<not> ok (Inl e :: unit res) \<and> s' = s \<or> appended c r flag w s (Inl e) s'"
  then show "not_recorded c r flag w s (Inl e) s' \<or> recorded c policy deferral r w s (Inl e) s'"
    by (auto simp: not_recorded_def appended_def)
next
  fix u s'
  assume "\<not> ok (Inr u :: unit res) \<and> s' = s \<or> appended c r flag w s (Inr u) s'"
  then obtain b where a: "encodable c r"
    "sink_file s' = (sink_file s)\<lparr>data := data (sink_file s) @ frame_bytes c r\<rparr>"
    "sink_torn s' = sink_torn s"
    "sink_writer s' = Some (w\<lparr>dirty := True, unsynced_records := unsynced_records w + 1,
                              unsynced_bytes := b\<rparr>)"
    by (auto simp: appended_def)
  have wr: "wrote (sink_file s) (sink_file s') (frame_bytes c r)"
    using a(2) by (simp add: wrote_def)
  let ?w = "w\<lparr>dirty := True, unsynced_records := unsynced_records w + 1, unsynced_bytes := b\<rparr>"
  let ?now = "case policy of PerRecord \<Rightarrow> deferral = 0
                | Group _ _ _ \<Rightarrow> batch_ready (sink_writer s') policy"
  have flush: "post flush_writer s' (\<lambda>res s''. recorded c policy deferral r w s res s'')" if ?now
    using flush_writer_post [OF a(4)]
  proof (rule post_mono)
    fix res :: "unit res" and s'' :: sink
    assume "sink_torn s'' = sink_torn s' \<and>
      (if ok res \<and> dirty ?w
       then sink_writer s'' = Some (?w\<lparr>dirty := False, unsynced_records := 0, unsynced_bytes := 0\<rparr>) \<and>
         data (sink_file s'') = data (sink_file s') \<and> fully_synced (sink_file s'')
       else sink_writer s'' = Some ?w \<and> sink_file s'' = sink_file s')"
    with a wr show "recorded c policy deferral r w s res s''"
      by (cases "ok res")
        (auto simp: recorded_def intro: fully_synced_wrote split: wal_sync_policy.splits)
  qed
  have stay: "recorded c policy deferral r w s (Inr ()) s'" if "\<not> ?now"
    using that a wr by (auto simp: recorded_def batch_ready_def split: wal_sync_policy.splits)
  show "post (\<lambda>s. let flush_now = case policy of PerRecord \<Rightarrow> deferral = 0
                | Group x xa xb \<Rightarrow> batch_ready (sink_writer s) policy
           in if flush_now then flush_writer s else (Inr (), s)) s'
        (\<lambda>res s'. not_recorded c r flag w s res s' \<or> recorded c policy deferral r w s res s')"
  proof (cases ?now)
    case True
    have "post flush_writer s'
        (\<lambda>res s'. not_recorded c r flag w s res s' \<or> recorded c policy deferral r w s res s')"
      using flush [OF True] by (rule post_mono) simp
    with True show ?thesis by (simp add: post_def)
  next
    case False
    with stay show ?thesis by (simp add: post_def)
  qed
qed

section \<open>The log's own steps\<close>

definition live_sink :: "doc_log \<Rightarrow> sink" where
  "live_sink l = \<lparr>sink_file = (case wal l of Some f \<Rightarrow> f | None \<Rightarrow> empty_file),
     sink_writer = wal_writer l, sink_torn = torn l, sink_faults = faults l\<rparr>"

definition put_live :: "doc_log \<Rightarrow> sink \<Rightarrow> doc_log" where
  "put_live l s = l\<lparr>wal := (case wal l of Some _ \<Rightarrow> Some (sink_file s) | None \<Rightarrow> None),
     wal_writer := sink_writer s, torn := sink_torn s, faults := sink_faults s\<rparr>"

lemma post_on_live: "post (on_live m) l Q = post m (live_sink l) (\<lambda>r s. Q r (put_live l s))"
  by (simp add: post_def on_live_def live_sink_def put_live_def split: prod.splits)

text \<open>What a step leaves alone: everything but the file, its writer and the fault outcomes.\<close>

definition log_frame :: "doc_log \<Rightarrow> doc_log \<Rightarrow> bool" where
  "log_frame l l' \<longleftrightarrow> sync_policy l' = sync_policy l \<and>
     sync_deferral_depth l' = sync_deferral_depth l \<and> docs l' = docs l \<and>
     next_seq l' = next_seq l \<and> next_doc_id l \<le> next_doc_id l' \<and>
     next_doc_id l' \<le> max (next_doc_id l) (store_next_doc_id (docs l)) \<and>
     set (header_faults l') \<subseteq> set (header_faults l)"

lemma log_frame_refl [simp]: "log_frame l l"
  by (simp add: log_frame_def)

lemma log_frame_trans: "log_frame l l' \<Longrightarrow> log_frame l' l'' \<Longrightarrow> log_frame l l''"
  by (auto simp: log_frame_def)

lemma log_frame_upd [simp, frame_simps]:
  "log_frame l (l'\<lparr>wal := a\<rparr>) = log_frame l l'"
  "log_frame l (l'\<lparr>wal_undo := b\<rparr>) = log_frame l l'"
  "log_frame l (l'\<lparr>faults := d\<rparr>) = log_frame l l'"
  "log_frame l (l'\<lparr>wal_writer := e\<rparr>) = log_frame l l'"
  "log_frame l (l'\<lparr>torn := f\<rparr>) = log_frame l l'"
  "log_frame l (l'\<lparr>wal_name_synced := g\<rparr>) = log_frame l l'"
  "log_frame l (put_live l' s) = log_frame l l'"
  by (simp_all add: log_frame_def put_live_def)

text \<open>What only uses up outcomes changes nothing of what the log holds and keeps.\<close>

lemma holds_faults [simp, frame_simps]:
  "log_holds c (l\<lparr>faults := fs\<rparr>) rs = log_holds c l rs"
  "keeps c (l\<lparr>faults := fs\<rparr>) R = keeps c l R"
  "survivors (l\<lparr>faults := fs\<rparr>) = survivors l"
  by (cases "wal l"; simp add: log_holds_def counters_above_def name_durable_def keeps_def
      survivors_def)+

lemma io_call_post: "post (io_call w) l (\<lambda>r l'. \<exists>fs. l' = l\<lparr>faults := fs\<rparr>)"
  by (auto simp: post_def io_call_def split: list.splits fault.splits)

lemma survivors_header [simp, frame_simps]:
  "survivors (l\<lparr>header_faults := hfs\<rparr>) = survivors l"
  "keeps c (l\<lparr>header_faults := hfs\<rparr>) R = keeps c l R"
  by (simp_all add: survivors_def keeps_def)

definition only_outcomes :: "doc_log \<Rightarrow> doc_log \<Rightarrow> bool" where
  "only_outcomes l l' \<longleftrightarrow> (\<exists>fs hfs. l' = l\<lparr>faults := fs, header_faults := hfs\<rparr> \<and>
     set hfs \<subseteq> set (header_faults l))"

lemma detect_format_post:
  assumes "True \<notin> set (header_faults l)"
  shows "post detect_format l (\<lambda>r l'. only_outcomes l l' \<and>
    (\<forall>f. r = Inr f \<longrightarrow> f = detect_existing_format (wal_bytes l)))"
proof (cases "length (wal_bytes l) < WAL_HEADER_LEN")
  case True
  then show ?thesis
    by (auto simp: post_def detect_format_def only_outcomes_def detect_existing_format_def)
      (rule exI [of _ "faults l"], rule exI [of _ "header_faults l"], simp)
next
  case False
  have *: "only_outcomes l (l\<lparr>faults := fs\<rparr>)" for fs
    unfolding only_outcomes_def by (intro exI [of _ fs] exI [of _ "header_faults l"]) simp
  have "post (sbind (io_call ''open_input failed'')
          (\<lambda>_ l. case header_faults l of
                    True # hfs \<Rightarrow> (Inr Legacy, l\<lparr>header_faults := hfs\<rparr>)
                  | hfs \<Rightarrow> (Inr (detect_existing_format (wal_bytes l)), l\<lparr>header_faults := tl hfs\<rparr>))) l
      (\<lambda>r l'. only_outcomes l l' \<and> (\<forall>f. r = Inr f \<longrightarrow> f = detect_existing_format (wal_bytes l)))"
  proof (rule post_sbindI [OF io_call_post])
    fix e l'
    assume "\<exists>fs. l' = l\<lparr>faults := fs\<rparr>"
    with * show "only_outcomes l l' \<and>
        (\<forall>f. (Inl e :: wal_format res) = Inr f \<longrightarrow> f = detect_existing_format (wal_bytes l))" by auto
  next
    fix u l'
    assume "\<exists>fs. l' = l\<lparr>faults := fs\<rparr>"
    then obtain fs where l': "l' = l\<lparr>faults := fs\<rparr>" by blast
    have h: "(case header_faults l' of
                    True # hfs \<Rightarrow> (Inr Legacy, l'\<lparr>header_faults := hfs\<rparr>)
                  | hfs \<Rightarrow> (Inr (detect_existing_format (wal_bytes l')), l'\<lparr>header_faults := tl hfs\<rparr>)) =
        (Inr (detect_existing_format (wal_bytes l)),
         l\<lparr>faults := fs, header_faults := tl (header_faults l)\<rparr>)"
      using assms by (auto simp: l' wal_bytes_def split: list.splits bool.splits)
    have "set (tl (header_faults l)) \<subseteq> set (header_faults l)"
      by (cases "header_faults l") auto
    then have "only_outcomes l (l\<lparr>faults := fs, header_faults := tl (header_faults l)\<rparr>)"
      unfolding only_outcomes_def by blast
    then show "post (\<lambda>l. case header_faults l of
                    True # hfs \<Rightarrow> (Inr Legacy, l\<lparr>header_faults := hfs\<rparr>)
                  | hfs \<Rightarrow> (Inr (detect_existing_format (wal_bytes l)), l\<lparr>header_faults := tl hfs\<rparr>)) l'
      (\<lambda>r l'. only_outcomes l l' \<and> (\<forall>f. r = Inr f \<longrightarrow> f = detect_existing_format (wal_bytes l)))"
      unfolding post_def h by simp
  qed
  moreover have "detect_format l = sbind (io_call ''open_input failed'')
          (\<lambda>_ l. case header_faults l of
                    True # hfs \<Rightarrow> (Inr Legacy, l\<lparr>header_faults := hfs\<rparr>)
                  | hfs \<Rightarrow> (Inr (detect_existing_format (wal_bytes l)), l\<lparr>header_faults := tl hfs\<rparr>)) l"
    using False by (simp add: detect_format_def)
  ultimately show ?thesis by (simp add: post_def)
qed

definition same_file :: "doc_log \<Rightarrow> doc_log \<Rightarrow> bool" where
  "same_file l l' \<longleftrightarrow> wal l' = wal l \<and> wal_undo l' = wal_undo l \<and> wal_writer l' = wal_writer l \<and>
     torn l' = torn l \<and> wal_name_synced l' = wal_name_synced l"

lemma same_file_refl [simp]: "same_file l l"
  by (simp add: same_file_def)

lemma same_file_trans: "same_file l l' \<Longrightarrow> same_file l' l'' \<Longrightarrow> same_file l l''"
  by (simp add: same_file_def)

lemma same_file_survivors: "same_file l l' \<Longrightarrow> survivors l' = survivors l"
  by (simp add: same_file_def survivors_def)

lemma same_file_keeps: "same_file l l' \<Longrightarrow> keeps c l' R = keeps c l R"
  by (simp add: keeps_def same_file_survivors)

lemma counters_frame:
  "log_frame l l' \<Longrightarrow> counters_above l rs \<Longrightarrow> counters_above l' rs"
  by (fastforce simp: log_frame_def counters_above_def)

lemma same_file_holds:
  assumes "same_file l l'" "log_frame l l'" "log_holds c l rs"
  shows "log_holds c l' rs"
  using assms counters_frame [OF assms(2)]
  by (cases "wal l") (auto simp: same_file_def log_holds_def name_durable_def log_frame_def)

lemma only_outcomes_same: "only_outcomes l l' \<Longrightarrow> same_file l l' \<and> log_frame l l'"
  by (auto simp: only_outcomes_def same_file_def log_frame_def)

lemma faults_same [simp]: "same_file l (l\<lparr>faults := fs\<rparr>)" "log_frame l (l\<lparr>faults := fs\<rparr>)"
  by (simp_all add: same_file_def)

lemma foldl_max:
  "foldl (\<lambda>m r. if f r > m then f r else m) a rs = fold max (map f rs) (a :: nat)"
  by (induction rs arbitrary: a) (auto simp: max_def)

lemma fold_max_less: "(\<forall>x \<in> set xs. x < n) \<Longrightarrow> a < n \<Longrightarrow> fold max xs a < (n :: nat)"
  by (induction xs arbitrary: a) auto

lemma max_seq_less: "counters_above l rs \<Longrightarrow> max_seq rs < next_seq l"
  unfolding max_seq_def foldl_max by (rule fold_max_less) (auto simp: counters_above_def)

lemma max_doc_id_eq: "max_doc_id rs = fold max (map upsert_id rs) 0"
proof -
  have "(\<lambda>m r. case entry r of
          Upsert doc_id external_id document replaces \<Rightarrow> if doc_id > m then doc_id else m
        | Delete doc_ids external_id \<Rightarrow> m) =
      (\<lambda>m r :: document log_record. if upsert_id r > m then upsert_id r else m)"
    by (auto simp: fun_eq_iff upsert_id_def split: log_entry.splits)
  then show ?thesis
    by (simp add: max_doc_id_def foldl_max)
qed

lemma max_doc_id_less: "counters_above l rs \<Longrightarrow> max_doc_id rs < next_doc_id l"
  unfolding max_doc_id_eq by (rule fold_max_less) (auto simp: counters_above_def)

lemma raise_counters_above:
  assumes "counters_above l rs"
  shows "raise_counters rs l = set_next_doc_id (store_next_doc_id (docs l)) l"
  using max_seq_less [OF assms] max_doc_id_less [OF assms]
  by (simp add: raise_counters_def Let_def)

lemma set_next_doc_id_frame [simp]:
  "same_file l (set_next_doc_id i l)"
  "log_frame l (set_next_doc_id (store_next_doc_id (docs l)) l)"
  by (simp_all add: set_next_doc_id_def same_file_def log_frame_def)

text \<open>Reading returns exactly the records the log holds, and changes neither them nor the file.\<close>

definition read_result :: "doc_log \<Rightarrow> document log_record list \<Rightarrow>
    (document log_record list \<times> nat option) res \<Rightarrow> doc_log \<Rightarrow> bool" where
  "read_result l rs r l' \<longleftrightarrow> same_file l l' \<and> log_frame l l' \<and> (\<forall>v. r = Inr v \<longrightarrow> fst v = rs)"

lemma post_if_else: "\<not> b \<Longrightarrow> post m l Q \<Longrightarrow> post (\<lambda>l. if b then x else m l) l Q"
  by (simp add: post_def)

lemma read_result_same:
  assumes "same_file l l'" "log_frame l l'" "read_result l' rs r l''"
  shows "read_result l rs r l''"
  using assms by (auto simp: read_result_def intro: same_file_trans log_frame_trans)

lemma read_result_Inl: "same_file l l' \<Longrightarrow> log_frame l l' \<Longrightarrow> read_result l rs (Inl e) l'"
  by (simp add: read_result_def)

lemma read_records_post:
  assumes "codec_ok c" "log_holds c l rs" "wal l \<noteq> None" "f = detect_existing_format (wal_bytes l)"
  shows "post (read_records c f) l (read_result l rs)"
proof -
  obtain w where w: "wal l = Some w" using assms(3) by blast
  obtain v where v: "parse_as c f (wal_bytes l) = Inr (rs, v)"
    using file_holds_parse [OF assms(1), of "wal_writer l \<noteq> None" "torn l" w rs] assms(2,4) w
    by (auto simp: log_holds_def wal_bytes_def parse_wal_def)
  then have m: "read_records c f = sbind (io_call ''reading the WAL failed'')
      (\<lambda>_ l. case parse_as c f (wal_bytes l) of
          Inl e \<Rightarrow> (Inl e, l)
        | Inr (records, cut_at) \<Rightarrow> (Inr (records, cut_at), raise_counters records l))"
    by (cases f) (simp_all add: read_records_def parse_as_def)
  show ?thesis
    unfolding m
  proof (rule post_sbindI [OF io_call_post])
    fix e l'
    assume "\<exists>fs. l' = l\<lparr>faults := fs\<rparr>"
    then show "read_result l rs (Inl e) l'" by (auto intro: read_result_Inl)
  next
    fix u l'
    assume "\<exists>fs. l' = l\<lparr>faults := fs\<rparr>"
    then obtain fs where l': "l' = l\<lparr>faults := fs\<rparr>" by blast
    have "log_frame l l'" using l' by simp
    then have "counters_above l' rs"
      using assms(2) by (simp add: log_holds_def counters_frame)
    then have "raise_counters rs l' = set_next_doc_id (store_next_doc_id (docs l')) l'"
      by (rule raise_counters_above)
    moreover have "read_result l rs (Inr (rs, v)) (set_next_doc_id (store_next_doc_id (docs l')) l')"
      using set_next_doc_id_frame [of l'] l' read_result_same [of l l' rs "Inr (rs, v)"
        "set_next_doc_id (store_next_doc_id (docs l')) l'"]
      unfolding read_result_def by fastforce
    ultimately show "post (\<lambda>l. case parse_as c f (wal_bytes l) of
          Inl e \<Rightarrow> (Inl e, l)
        | Inr (records, cut_at) \<Rightarrow> (Inr (records, cut_at), raise_counters records l)) l'
        (read_result l rs)"
      using v l' by (simp add: post_def wal_bytes_def)
  qed
qed

lemma read_wal_post:
  assumes "codec_ok c" "log_holds c l rs"
  shows "post (read_wal c) l (read_result l rs)"
proof (cases "wal l = None")
  case True
  with assms(2) have "rs = []" by (simp add: log_holds_def)
  with True show ?thesis
    by (simp add: read_wal_def post_def read_result_def)
next
  case False
  have "post (sbind (io_call ''open_input failed'') (\<lambda>_. sbind detect_format (read_records c))) l
      (read_result l rs)"
  proof (rule post_sbindI [OF io_call_post])
    fix e l'
    assume "\<exists>fs. l' = l\<lparr>faults := fs\<rparr>"
    then show "read_result l rs (Inl e) l'" by (auto intro: read_result_Inl)
  next
    fix u l1
    assume "\<exists>fs. l1 = l\<lparr>faults := fs\<rparr>"
    then have l1: "same_file l l1" "log_frame l l1" by auto
    with assms(2) have hf: "True \<notin> set (header_faults l1)"
      by (auto simp: log_frame_def log_holds_def)
    show "post (sbind detect_format (read_records c)) l1 (read_result l rs)"
    proof (rule post_sbindI [OF detect_format_post [OF hf]])
      fix e l2
      assume "only_outcomes l1 l2 \<and> (\<forall>f. (Inl e :: wal_format res) = Inr f \<longrightarrow>
        f = detect_existing_format (wal_bytes l1))"
      with l1 show "read_result l rs (Inl e) l2"
        by (auto dest!: only_outcomes_same intro!: read_result_Inl
            intro: same_file_trans log_frame_trans)
    next
      fix f l2
      assume f: "only_outcomes l1 l2 \<and> (\<forall>g. Inr f = Inr g \<longrightarrow>
        g = detect_existing_format (wal_bytes l1))"
      then have l2: "same_file l l2" "log_frame l l2"
        using l1 by (auto dest!: only_outcomes_same intro: same_file_trans log_frame_trans)
      have "wal_bytes l2 = wal_bytes l1" "wal l2 \<noteq> None"
        using l2 l1 False by (simp_all add: same_file_def wal_bytes_def)
      with f have "post (read_records c f) l2 (read_result l2 rs)"
        using same_file_holds [OF l2 assms(2)] by (intro read_records_post [OF assms(1)]) auto
      then show "post (read_records c f) l2 (read_result l rs)"
        by (rule post_mono) (rule read_result_same [OF l2])
    qed
  qed
  moreover have "read_wal c l = sbind (io_call ''open_input failed'')
      (\<lambda>_. sbind detect_format (read_records c)) l"
    using False by (simp only: read_wal_def if_False)
  ultimately show ?thesis by (simp only: post_def)
qed

section \<open>Replacing the file\<close>

lemma write_records_post:
  assumes "sink_writer s = Some w"
  shows "post (write_records c policy deferral rs) s
    (\<lambda>r s'. (\<exists>w'. sink_writer s' = Some w') \<and>
       (ok r \<longrightarrow> (\<forall>r \<in> set rs. encodable c r) \<and>
          data (sink_file s') = data (sink_file s) @ concat (map (frame_bytes c) rs)))"
  using assms
proof (induction rs arbitrary: s w)
  case Nil
  then show ?case by (simp add: post_simps)
next
  case (Cons r rs)
  show ?case
    unfolding write_records.simps
  proof (rule post_sbindI [OF write_record_post [OF Cons.prems]])
    fix e s'
    assume "not_recorded c r False w s (Inl e) s' \<or> recorded c policy deferral r w s (Inl e) s'"
    with Cons.prems show "(\<exists>w'. sink_writer s' = Some w') \<and>
       (ok (Inl e :: unit res) \<longrightarrow> (\<forall>r \<in> set (r # rs). encodable c r) \<and>
          data (sink_file s') = data (sink_file s) @ concat (map (frame_bytes c) (r # rs)))"
      by (auto simp: not_recorded_def recorded_def)
  next
    fix u s'
    assume "not_recorded c r False w s (Inr u) s' \<or> recorded c policy deferral r w s (Inr u) s'"
    then obtain w' where r: "encodable c r" "sink_writer s' = Some w'"
      "data (sink_file s') = data (sink_file s) @ frame_bytes c r"
      by (auto simp: not_recorded_def recorded_def wrote_def)
    show "post (write_records c policy deferral rs) s' (\<lambda>res s'. (\<exists>w'. sink_writer s' = Some w') \<and>
       (ok res \<longrightarrow> (\<forall>r \<in> set (r # rs). encodable c r) \<and>
          data (sink_file s') = data (sink_file s) @ concat (map (frame_bytes c) (r # rs))))"
      using Cons.IH [OF r(2)] by (rule post_mono) (use r in auto)
  qed
qed

lemma sync_close_post:
  "post (sbind sink_sync (\<lambda>_. sink_close)) s
     (\<lambda>r s'. data (sink_file s') = data (sink_file s) \<and> (ok r \<longrightarrow> fully_synced (sink_file s')))"
  unfolding sink_close_def
  by (rule post_sbindI [OF sink_sync_post])
    (auto simp: fully_synced_def intro!: post_mono [OF sink_call_post] split: if_splits)

definition replaced :: "doc_log \<Rightarrow> (wal_file \<Rightarrow> bool) \<Rightarrow> unit res \<Rightarrow> doc_log \<Rightarrow> bool" where
  "replaced l P r l' \<longleftrightarrow> log_frame l l' \<and> next_doc_id l' = next_doc_id l \<and>
     wal_writer l' = wal_writer l \<and> torn l' = torn l \<and>
     (\<not> ok r \<and> wal l' = wal l \<and> wal_undo l' = wal_undo l \<and>
        (wal_name_synced l' \<longrightarrow> wal_name_synced l) \<or>
      (\<exists>f. wal l' = Some f \<and> fully_synced f \<and> P f \<and>
        (if ok r then wal_undo l' = [] \<and> wal_name_synced l'
         else wal_undo l' = survivors l \<and> \<not> wal_name_synced l')))"

lemma storage_sync_post:
  "post storage_sync l (\<lambda>r l'. \<exists>fs. l' = (if ok r then l\<lparr>faults := fs, wal_undo := []\<rparr>
     else l\<lparr>faults := fs\<rparr>))"
  unfolding storage_sync_def
  by (rule post_sbindI [OF io_call_post]) (auto simp: post_modify)

lemma sync_wal_storage_post:
  "post sync_wal_storage l (\<lambda>r l'. \<exists>fs. l' = (if ok r
     then l\<lparr>faults := fs, wal_undo := [], wal_name_synced := True\<rparr>
     else l\<lparr>faults := fs, wal_name_synced := False\<rparr>))"
  using storage_sync_post [of l]
  by (auto simp: post_def sync_wal_storage_def split: prod.splits)

lemma install_post:
  assumes "fully_synced f" "P f"
  shows "post (sbind (modify (\<lambda>l. l\<lparr>wal_name_synced := False\<rparr>))
      (\<lambda>_. sbind (rename_file f) (\<lambda>_. sync_wal_storage))) l (replaced l P)"
proof -
  let ?l = "l\<lparr>wal_name_synced := False\<rparr>"
  have frame: "log_frame l (l\<lparr>faults := fs, wal_undo := u, wal_name_synced := b, wal := g\<rparr>)"
    for fs u b g by simp
  have "post (sbind (rename_file f) (\<lambda>_. sync_wal_storage)) ?l (replaced l P)"
    unfolding rename_file_def
  proof (rule post_sbindI, rule post_sbindI [OF io_call_post])
    fix e l'
    assume "\<exists>fs. l' = ?l\<lparr>faults := fs\<rparr>"
    then show "\<exists>fs. if ok (Inl e :: unit res)
        then l' = ?l\<lparr>faults := fs, wal := Some f, wal_undo := survivors l\<rparr> else l' = ?l\<lparr>faults := fs\<rparr>"
      by simp
  next
    fix u l'
    assume "\<exists>fs. l' = ?l\<lparr>faults := fs\<rparr>"
    then show "post (modify (\<lambda>l. l\<lparr>wal := Some f, wal_undo := survivors l\<rparr>)) l'
      (\<lambda>r l'. \<exists>fs. if ok r
        then l' = ?l\<lparr>faults := fs, wal := Some f, wal_undo := survivors l\<rparr> else l' = ?l\<lparr>faults := fs\<rparr>)"
      by (auto simp: post_modify survivors_def)
  next
    fix e l'
    assume "\<exists>fs. if ok (Inl e :: unit res)
        then l' = ?l\<lparr>faults := fs, wal := Some f, wal_undo := survivors l\<rparr> else l' = ?l\<lparr>faults := fs\<rparr>"
    then show "replaced l P (Inl e) l'"
      by (auto simp: replaced_def)
  next
    fix u l'
    assume "\<exists>fs. if ok (Inr u :: unit res)
        then l' = ?l\<lparr>faults := fs, wal := Some f, wal_undo := survivors l\<rparr> else l' = ?l\<lparr>faults := fs\<rparr>"
    then obtain fs where l': "l' = ?l\<lparr>faults := fs, wal := Some f, wal_undo := survivors l\<rparr>" by auto
    show "post sync_wal_storage l' (replaced l P)"
    proof (rule post_mono [OF sync_wal_storage_post])
      fix r :: "unit res" and l''
      assume "\<exists>fs. l'' = (if ok r
        then l'\<lparr>faults := fs, wal_undo := [], wal_name_synced := True\<rparr>
        else l'\<lparr>faults := fs, wal_name_synced := False\<rparr>)"
      then show "replaced l P r l''"
        using assms by (cases "ok r") (auto simp: replaced_def l')
    qed
  qed
  then show ?thesis by (simp add: post_sbind post_modify)
qed

lemma replaced_faults: "replaced (l\<lparr>faults := fs\<rparr>) P = replaced l P"
  by (intro ext) (simp add: replaced_def log_frame_def)

lemma replace_with_post:
  assumes "\<And>s. sink_file s = empty_file \<Longrightarrow> sink_writer s = Some writer_new \<Longrightarrow>
    post build s (\<lambda>r s'. ok r \<longrightarrow> fully_synced (sink_file s') \<and> P (sink_file s'))"
  shows "post (replace_with build) l (replaced l P)"
  unfolding replace_with_def
proof (rule post_sbindI [OF io_call_post])
  fix e l'
  assume "\<exists>fs. l' = l\<lparr>faults := fs\<rparr>"
  then show "replaced l P (Inl e) l'" by (auto simp: replaced_def)
next
  fix u l'
  assume "\<exists>fs. l' = l\<lparr>faults := fs\<rparr>"
  then obtain fs where l': "l' = l\<lparr>faults := fs\<rparr>" by blast
  let ?s = "\<lparr>sink_file = empty_file, sink_writer = Some writer_new, sink_torn = False,
                      sink_faults = faults l'\<rparr>"
  obtain r s where b: "build ?s = (r, s)" by fastforce
  with assms [of ?s] have s: "ok r \<longrightarrow> fully_synced (sink_file s) \<and> P (sink_file s)"
    by (simp add: post_def)
  show "post (\<lambda>l. case build \<lparr>sink_file = empty_file, sink_writer = Some writer_new, sink_torn = False,
                      sink_faults = faults l\<rparr> of
            (Inl e, s) \<Rightarrow> (Inl e, l\<lparr>faults := sink_faults s\<rparr>)
          | (Inr _, s) \<Rightarrow>
              sbind (modify (\<lambda>l. l\<lparr>wal_name_synced := False\<rparr>))
                (\<lambda>_. sbind (rename_file (sink_file s)) (\<lambda>_. sync_wal_storage))
                (l\<lparr>faults := sink_faults s\<rparr>)) l' (replaced l P)"
  proof (cases r)
    case (Inl e)
    then show ?thesis unfolding post_def b by (simp add: l' replaced_def)
  next
    case (Inr u)
    with s have "post (sbind (modify (\<lambda>l. l\<lparr>wal_name_synced := False\<rparr>))
      (\<lambda>_. sbind (rename_file (sink_file s)) (\<lambda>_. sync_wal_storage)))
        (l'\<lparr>faults := sink_faults s\<rparr>) (replaced (l'\<lparr>faults := sink_faults s\<rparr>) P)"
      by (intro install_post) simp_all
    then have "post (sbind (modify (\<lambda>l. l\<lparr>wal_name_synced := False\<rparr>))
      (\<lambda>_. sbind (rename_file (sink_file s)) (\<lambda>_. sync_wal_storage)))
        (l'\<lparr>faults := sink_faults s\<rparr>) (replaced l P)"
      by (simp add: replaced_faults l')
    with Inr show ?thesis unfolding post_def b by simp
  qed
qed

lemma appends_header: "appends (sbind (sink_write WAL_MAGIC) (\<lambda>_. sink_write [WAL_VERSION])) wal_header"
  unfolding wal_header_def by (intro appends_sbind appends_write)

lemma rewrite_wal_post:
  "post (rewrite_wal c rs) l
     (replaced l (\<lambda>f. (\<forall>r \<in> set rs. encodable c r) \<and> data f = v4_content c rs))"
proof -
  let ?P = "\<lambda>f. (\<forall>r \<in> set rs. encodable c r) \<and> data f = v4_content c rs"
  have assoc: "sbind (sbind a (\<lambda>_. b)) (\<lambda>_. d) = sbind a (\<lambda>_. sbind b (\<lambda>_. d))"
    for a b d :: "(sink, unit) io"
    by (auto simp: sbind_def fun_eq_iff split: prod.splits sum.splits)
  have build: "post (sbind (sink_write WAL_MAGIC)
         (\<lambda>_. sbind (sink_write [WAL_VERSION])
           (\<lambda>_. sbind (write_records c p d rs)
             (\<lambda>_. sbind sink_sync (\<lambda>_. sink_close))))) s
      (\<lambda>r s'. ok r \<longrightarrow> fully_synced (sink_file s') \<and> ?P (sink_file s'))"
    if s: "sink_file s = empty_file" "sink_writer s = Some writer_new" for s p d
  proof -
    have eq: "sbind (sink_write WAL_MAGIC)
         (\<lambda>_. sbind (sink_write [WAL_VERSION])
           (\<lambda>_. sbind (write_records c p d rs) (\<lambda>_. sbind sink_sync (\<lambda>_. sink_close)))) =
      sbind (sbind (sbind (sink_write WAL_MAGIC) (\<lambda>_. sink_write [WAL_VERSION]))
          (\<lambda>_. write_records c p d rs)) (\<lambda>_. sbind sink_sync (\<lambda>_. sink_close))"
      by (simp only: assoc)
    show ?thesis
    unfolding eq
  proof (rule post_sbindI)
    show "post (sbind (sbind (sink_write WAL_MAGIC) (\<lambda>_. sink_write [WAL_VERSION]))
        (\<lambda>_. write_records c p d rs)) s (\<lambda>r s'. ok r \<longrightarrow> ?P (sink_file s'))"
    proof (rule post_sbindI)
      show "post (sbind (sink_write WAL_MAGIC) (\<lambda>_. sink_write [WAL_VERSION])) s
        (\<lambda>r s'. ok r \<longrightarrow> sink_writer s' = Some writer_new \<and> data (sink_file s') = wal_header)"
        using appends_header [unfolded appends_def, rule_format, of s]
        by (rule post_mono) (auto simp: sink_frame_def s empty_file_def)
    next
      fix u and s' :: sink
      assume "ok (Inr u :: unit res) \<longrightarrow> sink_writer s' = Some writer_new \<and> data (sink_file s') = wal_header"
      then have s': "sink_writer s' = Some writer_new" "data (sink_file s') = wal_header" by auto
      show "post (write_records c p d rs) s' (\<lambda>r s'. ok r \<longrightarrow> ?P (sink_file s'))"
        using write_records_post [OF s'(1)] by (rule post_mono) (auto simp: v4_content_def s'(2))
    qed simp
  next
    fix u and s' :: sink
    assume "ok (Inr u :: unit res) \<longrightarrow> ?P (sink_file s')"
    then show "post (sbind sink_sync (\<lambda>_. sink_close)) s'
        (\<lambda>r s'. ok r \<longrightarrow> fully_synced (sink_file s') \<and> ?P (sink_file s'))"
      by (intro post_mono [OF sync_close_post]) auto
  qed simp
  qed
  have "rewrite_wal c rs l = replace_with (sbind (sink_write WAL_MAGIC)
         (\<lambda>_. sbind (sink_write [WAL_VERSION])
           (\<lambda>_. sbind (write_records c (sync_policy l) (sync_deferral_depth l + 1) rs)
             (\<lambda>_. sbind sink_sync (\<lambda>_. sink_close))))) l"
    by (simp add: rewrite_wal_def)
  moreover note replace_with_post [of _ ?P l, OF build]
  ultimately show ?thesis by (simp only: post_def)
qed

section \<open>What the log holds and every crash keeps\<close>

definition log_ok :: "document codec \<Rightarrow> doc_log \<Rightarrow> document log_record list \<Rightarrow>
    (document log_record list \<Rightarrow> bool) \<Rightarrow> bool" where
  "log_ok c l rs R \<longleftrightarrow> log_holds c l rs \<and> keeps c l R"

lemma log_ok_same:
  "same_file l l' \<Longrightarrow> log_frame l l' \<Longrightarrow> log_ok c l rs R \<Longrightarrow> log_ok c l' rs R"
  by (simp add: log_ok_def same_file_holds same_file_keeps)

lemma counters_filter: "counters_above l rs \<Longrightarrow> counters_above l (filter P rs)"
  by (auto simp: counters_above_def sorted_wrt_map sorted_wrt_filter)

lemma file_holds_clean:
  assumes "fully_synced f" "clean_v4 c rs (data f)"
  shows "file_holds c opened is_torn f rs"
  using assms by (auto simp: file_holds_def fully_synced_def clean_v4_def)

lemma replaced_ok:
  assumes "codec_ok c" "log_ok c l rs R" "wal_writer l = None"
    and "replaced l (\<lambda>f. (\<forall>r \<in> set rs'. encodable c r) \<and> data f = v4_content c rs') r l'"
    and "counters_above l rs'" "\<And>xs. R xs \<Longrightarrow> R' xs" "R' rs'"
  shows "if ok r then log_ok c l' rs' R' \<and> clean_v4 c rs' (wal_bytes l') \<and> wal l' \<noteq> None
    else log_ok c l' rs R \<or> log_ok c l' rs' R'"
proof -
  have frame: "log_frame l l'" "wal_writer l' = None" "torn l' = torn l"
    using assms(3,4) by (auto simp: replaced_def)
  have holds: "log_holds c l rs" and keep: "keeps c l R"
    using assms(2) by (simp_all add: log_ok_def)
  have hf: "True \<notin> set (header_faults l')"
    using holds frame(1) by (auto simp: log_holds_def log_frame_def)
  from assms(4) consider
    (same) "\<not> ok r" "wal l' = wal l" "wal_undo l' = wal_undo l" "wal_name_synced l' \<longrightarrow> wal_name_synced l"
    | (new) f where "wal l' = Some f" "fully_synced f" "\<forall>r \<in> set rs'. encodable c r"
        "data f = v4_content c rs'"
        "if ok r then wal_undo l' = [] \<and> wal_name_synced l'
         else wal_undo l' = survivors l \<and> \<not> wal_name_synced l'"
    by (auto simp: replaced_def)
  then show ?thesis
  proof cases
    case same
    have "log_holds c l' rs"
      using holds same frame hf assms(3) counters_frame [OF frame(1), of rs]
      by (cases "wal l") (auto simp: log_holds_def name_durable_def)
    moreover have "keeps c l' R"
      using keep same by (simp add: keeps_def survivors_def)
    ultimately show ?thesis using same(1) by (simp add: log_ok_def)
  next
    case new
    have clean: "clean_v4 c rs' (data f)"
      using clean_v4_content [OF assms(1) new(3)] new(4) by simp
    have "name_durable l'"
      using new(1,5) frame(2) by (auto simp: name_durable_def split: if_splits)
    then have "log_holds c l' rs'"
      using file_holds_clean [OF new(2) clean] hf counters_frame [OF frame(1) assms(5)] new(1)
      by (simp add: log_holds_def)
    moreover have "survivor_keeps c R' (Some (data f))"
      using clean assms(7) counters_good [OF assms(5)]
    by (auto simp: clean_v4_def intro: survivor_keeps_parse)
    then have "keeps c l' R'"
      using keep assms(6) new(1,5)
      by (auto simp: keeps_def survivors_def [of l'] fully_synced_survivors [OF new(2)]
          split: if_splits intro: survivor_keeps_mono)
    ultimately show ?thesis
      using new(1) clean by (simp add: log_ok_def wal_bytes_def)
  qed
qed

section \<open>Opening the file for appending\<close>

lemma log_ok_kept:
  assumes "codec_ok c" "log_ok c l rs R"
  shows "R rs"
proof (cases "wal l")
  case None
  with assms(2) have "rs = []" "None \<in> set (survivors l)"
    by (simp_all add: log_ok_def log_holds_def survivors_def)
  with assms(2) show ?thesis
    by (fastforce simp: log_ok_def keeps_def survivor_keeps_def parse_survivor_def)
next
  case (Some f)
  with assms(2) have f: "file_holds c (wal_writer l \<noteq> None) (torn l) f rs"
    by (simp add: log_ok_def log_holds_def)
  then have "Some (data f) \<in> set (survivors l)"
    using file_survivors_self [of f] Some by (simp add: file_holds_def survivors_def)
  with assms(2) file_holds_parse [OF assms(1) f] show ?thesis
    by (fastforce simp: log_ok_def keeps_def survivor_keeps_def parse_survivor_def)
qed

text \<open>A step of a log whose file is closed and not torn, which keeps all it holds.\<close>

definition closed_step :: "document codec \<Rightarrow> doc_log \<Rightarrow> document log_record list \<Rightarrow>
    (document log_record list \<Rightarrow> bool) \<Rightarrow> doc_log \<Rightarrow> bool" where
  "closed_step c l rs R l' \<longleftrightarrow> log_ok c l' rs R \<and> log_frame l l' \<and> wal_writer l' = None \<and> \<not> torn l'"

lemma closed_step_same:
  "same_file l l' \<Longrightarrow> log_frame l l' \<Longrightarrow> closed_step c l rs R l \<Longrightarrow> closed_step c l rs R l'"
  using log_ok_same [of l l' c rs R] by (simp add: closed_step_def same_file_def)

lemma closed_step_trans: "closed_step c l rs R l' \<Longrightarrow> closed_step c l' rs R l'' \<Longrightarrow> closed_step c l rs R l''"
  by (auto simp: closed_step_def intro: log_frame_trans)

lemma closed_step_refl: "closed_step c l rs R l' \<Longrightarrow> closed_step c l' rs R l'"
  by (simp add: closed_step_def)

lemma closed_v4_clean:
  assumes "closed_step c l0 rs R l" "wal l \<noteq> None" "detect_existing_format (wal_bytes l) = V4"
  shows "clean_v4 c rs (wal_bytes l)"
  using assms
  by (fastforce simp: closed_step_def log_ok_def log_holds_def file_holds_def wal_bytes_def clean_v4_def)

lemma rewrite_closed_post:
  assumes "codec_ok c" "closed_step c l rs R l"
  shows "post (rewrite_wal c rs) l (\<lambda>r l'. closed_step c l rs R l' \<and>
    (ok r \<longrightarrow> clean_v4 c rs (wal_bytes l') \<and> wal l' \<noteq> None))"
proof (rule post_mono [OF rewrite_wal_post])
  fix r :: "unit res" and l'
  assume rep: "replaced l (\<lambda>f. (\<forall>r \<in> set rs. encodable c r) \<and> data f = v4_content c rs) r l'"
  have l: "log_ok c l rs R" "wal_writer l = None" "counters_above l rs" "\<not> torn l"
    using assms(2) by (simp_all add: closed_step_def log_ok_def log_holds_def)
  from replaced_ok [where R' = R, OF assms(1) l(1,2) rep l(3) _ log_ok_kept [OF assms(1) l(1)]]
  show "closed_step c l rs R l' \<and> (ok r \<longrightarrow> clean_v4 c rs (wal_bytes l') \<and> wal l' \<noteq> None)"
    using rep l by (auto simp: closed_step_def replaced_def split: if_splits)
qed

lemma upgrade_post:
  assumes "codec_ok c" "closed_step c l rs R l" "wal l \<noteq> None"
  shows "post (upgrade_wal c) l (\<lambda>r l'. closed_step c l rs R l' \<and>
    (ok r \<longrightarrow> clean_v4 c rs (wal_bytes l') \<and> wal l' \<noteq> None))"
  unfolding upgrade_wal_def
proof (rule post_sbindI [OF detect_format_post])
  show "True \<notin> set (header_faults l)"
    using assms(2) by (simp add: closed_step_def log_ok_def log_holds_def)
next
  fix e l'
  assume "only_outcomes l l' \<and>
    (\<forall>f. (Inl e :: wal_format res) = Inr f \<longrightarrow> f = detect_existing_format (wal_bytes l))"
  then have "closed_step c l rs R l'"
    using only_outcomes_same closed_step_same [OF _ _ assms(2)] by blast
  then show "closed_step c l rs R l' \<and>
      (ok (Inl e :: unit res) \<longrightarrow> clean_v4 c rs (wal_bytes l') \<and> wal l' \<noteq> None)" by simp
next
  fix f l1
  assume a: "only_outcomes l l1 \<and> (\<forall>g. Inr f = Inr g \<longrightarrow> g = detect_existing_format (wal_bytes l))"
  then have l1: "same_file l l1" "log_frame l l1" by (simp_all add: only_outcomes_same)
  note step = closed_step_same [OF l1 assms(2)]
  have ne: "wal l1 \<noteq> None" and f: "f = detect_existing_format (wal_bytes l1)"
    using l1 a assms(3) by (simp_all add: same_file_def wal_bytes_def)
  have upgrade: "post (sbind (read_wal c) (\<lambda>(records, _). rewrite_wal c records)) l1
      (\<lambda>r l'. closed_step c l rs R l' \<and> (ok r \<longrightarrow> clean_v4 c rs (wal_bytes l') \<and> wal l' \<noteq> None))"
  proof (rule post_sbindI [OF read_wal_post [OF assms(1)]])
    show "log_holds c l1 rs" using step by (simp add: closed_step_def log_ok_def)
  next
    fix e l'
    assume "read_result l1 rs (Inl e) l'"
    then have "closed_step c l1 rs R l'"
      using closed_step_same [OF _ _ closed_step_refl [OF step]] by (simp add: read_result_def)
    with step show "closed_step c l rs R l' \<and>
        (ok (Inl e :: unit res) \<longrightarrow> clean_v4 c rs (wal_bytes l') \<and> wal l' \<noteq> None)"
      by (auto intro: closed_step_trans)
  next
    fix v l2
    assume v: "read_result l1 rs (Inr v) l2"
    then have l2: "closed_step c l1 rs R l2"
      using closed_step_same [OF _ _ closed_step_refl [OF step]] by (simp add: read_result_def)
    from v have "(case v of (records, _) \<Rightarrow> rewrite_wal c records) = rewrite_wal c rs"
      by (cases v) (simp add: read_result_def)
    with rewrite_closed_post [OF assms(1) closed_step_refl [OF l2]]
    show "post (case v of (records, _) \<Rightarrow> rewrite_wal c records) l2
        (\<lambda>r l'. closed_step c l rs R l' \<and> (ok r \<longrightarrow> clean_v4 c rs (wal_bytes l') \<and> wal l' \<noteq> None))"
      using closed_step_trans [OF step l2] by (auto elim!: post_mono intro: closed_step_trans)
  qed
  show "post (case f of V4 \<Rightarrow> ret () | Unknown version \<Rightarrow> fail (unknown_version_error version)
         | _ \<Rightarrow> sbind (read_wal c) (\<lambda>(records, _). rewrite_wal c records)) l1
      (\<lambda>r l'. closed_step c l rs R l' \<and> (ok r \<longrightarrow> clean_v4 c rs (wal_bytes l') \<and> wal l' \<noteq> None))"
  proof -
    have "f = V4 \<Longrightarrow> clean_v4 c rs (wal_bytes l1)"
      using closed_v4_clean [OF step ne] f by simp
    then show ?thesis
      using upgrade step ne by (cases f) (simp_all only: wal_format.case, simp_all add: post_simps)
  qed
qed

text \<open>Ready to open: an empty file or none is to get a header, any other is a whole v4 file.\<close>

definition openable :: "document codec \<Rightarrow> doc_log \<Rightarrow> document log_record list \<Rightarrow> bool \<Rightarrow> bool" where
  "openable c l rs fresh \<longleftrightarrow>
     (if fresh then wal_bytes l = [] else wal l \<noteq> None \<and> clean_v4 c rs (wal_bytes l))"

lemma closed_step_intro:
  assumes "closed_step c l rs R l1" "log_frame l l2" "wal_writer l2 = None" "\<not> torn l2"
    "log_holds c l2 rs" "keeps c l2 R"
  shows "closed_step c l rs R l2"
  using assms by (simp add: closed_step_def log_ok_def)

lemma create_append_post:
  assumes "closed_step c l rs R l" "openable c l rs fresh"
  shows "post create_output_append l (\<lambda>r l'. closed_step c l rs R l' \<and>
    (ok r \<longrightarrow> openable c l' rs fresh \<and> wal l' \<noteq> None))"
  unfolding create_output_append_def
proof (rule post_sbindI [OF io_call_post])
  fix e l'
  assume "\<exists>fs. l' = l\<lparr>faults := fs\<rparr>"
  with assms(1) show "closed_step c l rs R l' \<and>
      (ok (Inl e :: unit res) \<longrightarrow> openable c l' rs fresh \<and> wal l' \<noteq> None)"
    by (auto simp: closed_step_def log_ok_def)
next
  fix u l'
  assume "\<exists>fs. l' = l\<lparr>faults := fs\<rparr>"
  then obtain fs where l': "l' = l\<lparr>faults := fs\<rparr>" by blast
  have h: "log_holds c l rs" "keeps c l R" and n: "wal_writer l = None" "\<not> torn l"
    using assms(1) by (simp_all add: closed_step_def log_ok_def)
  show "post (modify (\<lambda>l. case wal l of Some _ \<Rightarrow> l
      | None \<Rightarrow> l\<lparr>wal := Some empty_file, wal_undo := None # wal_undo l\<rparr>)) l'
      (\<lambda>r l'. closed_step c l rs R l' \<and> (ok r \<longrightarrow> openable c l' rs fresh \<and> wal l' \<noteq> None))"
  proof (cases "wal l")
    case (Some f)
    with assms h n l' show ?thesis
      by (cases fresh) (simp_all add: post_modify closed_step_def log_ok_def openable_def wal_bytes_def)
  next
    case None
    with h have rs: "rs = []" by (simp add: log_holds_def)
    let ?l = "l'\<lparr>wal := Some empty_file, wal_undo := None # wal_undo l'\<rparr>"
    have "log_holds c ?l rs"
      using h(1) None n by (auto simp: l' log_holds_def name_durable_def counters_above_def
          file_holds_def empty_file_def parse_Nil rs)
    moreover have "survivor_keeps c R None"
      using h(2) None by (simp add: keeps_def survivors_def)
    then have "survivor_keeps c R (Some [])"
      by (simp add: survivor_keeps_def parse_survivor_def parse_Nil)
    then have "keeps c ?l R"
      using h(2) None by (simp add: keeps_def survivors_def l' file_survivors_def empty_file_def)
    ultimately have "closed_step c l rs R ?l"
      using n by (simp add: closed_step_def log_ok_def l')
    moreover have "openable c ?l rs fresh"
      using assms(2) None by (simp add: openable_def wal_bytes_def empty_file_def split: if_splits)
    ultimately show ?thesis using None by (simp add: post_modify l')
  qed
qed

lemma ensure_name_post:
  assumes "closed_step c l rs R l" "openable c l rs fresh" "wal l \<noteq> None"
  shows "post ensure_name l (\<lambda>r l'. closed_step c l rs R l' \<and>
    (ok r \<longrightarrow> openable c l' rs fresh \<and> wal l' \<noteq> None \<and> wal_name_synced l'))"
proof (cases "wal_name_synced l")
  case True
  with assms show ?thesis by (simp add: ensure_name_def post_def)
next
  case False
  have h: "log_holds c l rs" "keeps c l R" and n: "wal_writer l = None" "\<not> torn l"
    using assms(1) by (simp_all add: closed_step_def log_ok_def)
  obtain f where f: "wal l = Some f" using assms(3) by blast
  have good: "closed_step c l rs R (l\<lparr>faults := fs, wal_undo := [], wal_name_synced := True\<rparr>)" for fs
    using h n f by (auto simp: closed_step_def log_ok_def log_holds_def name_durable_def
        counters_above_def keeps_def survivors_def)
  have bad: "closed_step c l rs R (l\<lparr>faults := fs, wal_name_synced := False\<rparr>)" for fs
    using h n f by (auto simp: closed_step_def log_ok_def log_holds_def name_durable_def
        counters_above_def keeps_def survivors_def)
  have "post sync_wal_storage l (\<lambda>r l'. closed_step c l rs R l' \<and>
    (ok r \<longrightarrow> openable c l' rs fresh \<and> wal l' \<noteq> None \<and> wal_name_synced l'))"
  proof (rule post_mono [OF sync_wal_storage_post])
    fix r :: "unit res" and l'
    assume "\<exists>fs. l' = (if ok r
        then l\<lparr>faults := fs, wal_undo := [], wal_name_synced := True\<rparr>
        else l\<lparr>faults := fs, wal_name_synced := False\<rparr>)"
    then show "closed_step c l rs R l' \<and>
        (ok r \<longrightarrow> openable c l' rs fresh \<and> wal l' \<noteq> None \<and> wal_name_synced l')"
      using good bad assms(2,3) by (cases "ok r") (auto simp: openable_def wal_bytes_def)
  qed
  with False show ?thesis by (simp add: ensure_name_def post_def)
qed

lemma take_header_holds:
  assumes "synced_len f = 0 \<or> synced_len f \<le> length (data f)" "data f = take k wal_header"
  shows "file_holds c False t (f :: wal_file) []"
proof (cases "k < WAL_HEADER_LEN")
  case True
  with assms show ?thesis
    using parse_partial_header [OF True] by (auto simp: file_holds_def)
next
  case False
  then have "data f = wal_header" using assms(2) by simp
  with clean_v4_header [of c] assms(1) show ?thesis
    by (auto simp: file_holds_def clean_v4_def)
qed

lemma parse_take_header: "\<exists>v. parse_wal c (take k wal_header) = Inr ([], v)"
proof (cases "k < WAL_HEADER_LEN")
  case True
  then show ?thesis using parse_partial_header by blast
next
  case False
  then have "take k wal_header = wal_header" by simp
  with clean_v4_header show ?thesis by (metis clean_v4_def)
qed

lemma keeps_wrote:
  assumes "keeps c l R" "wal l = Some f" "wal l' = Some f'" "wal_undo l' = wal_undo l"
    "wrote f f' bs" "synced_len f \<le> length (data f)"
    "\<And>j. survivor_keeps c R (Some (data f @ take j bs))"
  shows "keeps c l' R"
  unfolding keeps_def
proof
  fix x
  assume "x \<in> set (survivors l')"
  then consider "x \<in> set (wal_undo l)" | y where "x = Some y" "y \<in> set (file_survivors f')"
    using assms(3,4) by (auto simp: survivors_def)
  then show "survivor_keeps c R x"
  proof cases
    case 1
    with assms(1) show ?thesis by (simp add: keeps_def survivors_def)
  next
    case (2 y)
    with wrote_survivors [OF assms(5,6) 2(2)] assms(1,2,7) show ?thesis
      by (auto simp: keeps_def survivors_def)
  qed
qed

lemma write_header_post:
  assumes "codec_ok c" "closed_step c l rs R l" "wal_bytes l = []" "wal l \<noteq> None" "wal_name_synced l"
  shows "post write_header l (\<lambda>r l'. closed_step c l rs R l' \<and>
    (ok r \<longrightarrow> openable c l' rs False \<and> wal_name_synced l'))"
  unfolding write_header_def post_on_live
proof (rule post_mono [OF appends_header [unfolded appends_def, rule_format]])
  fix r :: "unit res" and s
  assume a: "sink_frame (live_sink l) s \<and>
      (\<exists>k. sink_file s = (sink_file (live_sink l))\<lparr>data := data (sink_file (live_sink l)) @
        take k wal_header\<rparr> \<and> (ok r \<longrightarrow> length wal_header \<le> k))"
  have h: "log_holds c l rs" "keeps c l R" and n: "wal_writer l = None" "\<not> torn l"
    using assms(2) by (simp_all add: closed_step_def log_ok_def)
  obtain f where f: "wal l = Some f" "data f = []"
    using assms(3,4) by (auto simp: wal_bytes_def)
  have s0: "synced_len f \<le> length (data f)"
    using h(1) f by (simp add: log_holds_def file_holds_def)
  have rs: "rs = []"
    using h(1) f n by (auto simp: log_holds_def file_holds_def parse_Nil)
  have "log_ok c l rs R" using h by (simp add: log_ok_def)
  then have R: "R []" using log_ok_kept [OF assms(1)] rs by blast
  from a obtain k where k: "sink_file s = f\<lparr>data := take k wal_header\<rparr>" "ok r \<Longrightarrow> WAL_HEADER_LEN \<le> k"
    and fr: "sink_writer s = None" "\<not> sink_torn s"
    using f n by (auto simp: live_sink_def sink_frame_def)
  let ?l = "put_live l s"
  have wal: "wal ?l = Some (f\<lparr>data := take k wal_header\<rparr>)" "wal_writer ?l = None" "\<not> torn ?l"
    "wal_undo ?l = wal_undo l" "wal_name_synced ?l = wal_name_synced l"
    using f k fr by (simp_all add: put_live_def)
  have frame: "log_frame l ?l" by simp
  have "file_holds c False (torn ?l) (f\<lparr>data := take k wal_header\<rparr>) []"
    using s0 f(2) by (intro take_header_holds) auto
  then have "log_holds c ?l rs"
    using h(1) frame counters_frame [OF frame, of rs] wal rs assms(5) f
    by (auto simp: log_holds_def name_durable_def log_frame_def)
  moreover have "keeps c ?l R"
  proof (rule keeps_wrote [OF h(2) f(1) wal(1,4)])
    show "wrote f (f\<lparr>data := take k wal_header\<rparr>) (take k wal_header)"
      using f(2) by (simp add: wrote_def)
    show "synced_len f \<le> length (data f)" by (rule s0)
    fix j
    show "survivor_keeps c R (Some (data f @ take j (take k wal_header)))"
      using parse_take_header [of c "min j k"] R f(2)
      by (auto simp: survivor_keeps_def parse_survivor_def min_def)
  qed
  ultimately have "closed_step c l rs R ?l"
    using wal frame by (simp add: closed_step_def log_ok_def)
  moreover have "openable c ?l rs False" if "ok r"
    using k(2) [OF that] wal(1) clean_v4_header rs by (simp add: openable_def wal_bytes_def)
  ultimately show "closed_step c l rs R ?l \<and> (ok r \<longrightarrow> openable c ?l rs False \<and> wal_name_synced ?l)"
    using wal assms(5) by simp
qed

lemma open_append_post:
  assumes "codec_ok c" "closed_step c l rs R l" "openable c l rs fresh"
  shows "post (open_append fresh) l (\<lambda>r l'. log_ok c l' rs R \<and> log_frame l l' \<and> \<not> torn l' \<and>
    wal_writer l' = (if ok r then Some writer_new else None) \<and> (ok r \<longrightarrow> wal l' \<noteq> None))"
  unfolding open_append_def
proof (rule post_sbindI [OF create_append_post [OF assms(2,3)]])
  fix e l'
  assume "closed_step c l rs R l' \<and> (ok (Inl e :: unit res) \<longrightarrow> openable c l' rs fresh \<and> wal l' \<noteq> None)"
  then show "log_ok c l' rs R \<and> log_frame l l' \<and> \<not> torn l' \<and>
    wal_writer l' = (if ok (Inl e :: unit res) then Some writer_new else None) \<and>
    (ok (Inl e :: unit res) \<longrightarrow> wal l' \<noteq> None)"
    by (simp add: closed_step_def)
next
  fix u l1
  assume "closed_step c l rs R l1 \<and> (ok (Inr u :: unit res) \<longrightarrow> openable c l1 rs fresh \<and> wal l1 \<noteq> None)"
  then have l1: "closed_step c l rs R l1" "openable c l1 rs fresh" "wal l1 \<noteq> None" by simp_all
  let ?Q = "\<lambda>r l'. log_ok c l' rs R \<and> log_frame l l' \<and> \<not> torn l' \<and>
    wal_writer l' = (if ok (r :: unit res) then Some writer_new else None) \<and> (ok r \<longrightarrow> wal l' \<noteq> None)"
  show "post (sbind ensure_name (\<lambda>_. sbind (if fresh then write_header else ret ())
           (\<lambda>_. modify (\<lambda>l. l\<lparr>wal_writer := Some writer_new\<rparr>)))) l1 ?Q"
  proof (rule post_sbindI [OF ensure_name_post [OF closed_step_refl [OF l1(1)] l1(2,3)]])
    fix e l2
    assume "closed_step c l1 rs R l2 \<and>
      (ok (Inl e :: unit res) \<longrightarrow> openable c l2 rs fresh \<and> wal l2 \<noteq> None \<and> wal_name_synced l2)"
    with l1(1) show "?Q (Inl e) l2"
      by (auto dest: closed_step_trans simp: closed_step_def intro: log_frame_trans)
  next
    fix u l2
    assume "closed_step c l1 rs R l2 \<and>
      (ok (Inr u :: unit res) \<longrightarrow> openable c l2 rs fresh \<and> wal l2 \<noteq> None \<and> wal_name_synced l2)"
    then have l2: "closed_step c l rs R l2" "openable c l2 rs fresh" "wal l2 \<noteq> None" "wal_name_synced l2"
      using closed_step_trans [OF l1(1)] by simp_all
    have header: "post (if fresh then write_header else ret ()) l2
        (\<lambda>r l'. closed_step c l2 rs R l' \<and> (ok r \<longrightarrow> openable c l' rs False \<and> wal_name_synced l'))"
    proof (cases fresh)
      case True
      with write_header_post [OF assms(1) closed_step_refl [OF l2(1)] _ l2(3,4)] l2(2)
      show ?thesis by (simp add: openable_def)
    next
      case False
      with l2 closed_step_refl [OF l2(1)] show ?thesis by (simp add: post_simps)
    qed
    show "post (sbind (if fresh then write_header else ret ())
           (\<lambda>_. modify (\<lambda>l. l\<lparr>wal_writer := Some writer_new\<rparr>))) l2 ?Q"
    proof (rule post_sbindI [OF header])
      fix e l3
      assume "closed_step c l2 rs R l3 \<and>
        (ok (Inl e :: unit res) \<longrightarrow> openable c l3 rs False \<and> wal_name_synced l3)"
      with closed_step_trans [OF l2(1)] show "?Q (Inl e) l3" by (simp add: closed_step_def)
    next
      fix u l3
      assume a: "closed_step c l2 rs R l3 \<and>
        (ok (Inr u :: unit res) \<longrightarrow> openable c l3 rs False \<and> wal_name_synced l3)"
      then have l3: "closed_step c l rs R l3" using closed_step_trans [OF l2(1)] by blast
      obtain f where f: "wal l3 = Some f" "clean_v4 c rs (data f)"
        using a by (auto simp: openable_def wal_bytes_def)
      have h: "log_holds c l3 rs" "keeps c l3 R" using l3 by (simp_all add: closed_step_def log_ok_def)
      then have "log_holds c (l3\<lparr>wal_writer := Some writer_new\<rparr>) rs"
        using f a l3 by (auto simp: log_holds_def name_durable_def counters_above_def file_holds_def)
      moreover have "keeps c (l3\<lparr>wal_writer := Some writer_new\<rparr>) R"
        using h(2) by (simp add: keeps_def survivors_def)
      ultimately show "post (modify (\<lambda>l. l\<lparr>wal_writer := Some writer_new\<rparr>)) l3 ?Q"
        using l3 f by (simp add: post_modify closed_step_def log_ok_def)
    qed
  qed
qed

definition ready :: "doc_log \<Rightarrow> bool" where
  "ready l \<longleftrightarrow> \<not> torn l \<and> wal_writer l \<noteq> None \<and> wal l \<noteq> None"

lemma log_ok_opened: "log_ok c l rs R \<Longrightarrow> wal_writer l \<noteq> None \<Longrightarrow> wal l \<noteq> None"
  by (cases "wal l") (auto simp: log_ok_def log_holds_def)

text \<open>
  Ensuring the writer changes nothing the log holds or keeps, and leaves a log that is ready for an
  append or was closed all along. \<open>same_writer\<close>: a writer that was open stays as it is.
\<close>

definition ensured :: "document codec \<Rightarrow> doc_log \<Rightarrow> document log_record list \<Rightarrow>
    (document log_record list \<Rightarrow> bool) \<Rightarrow> unit res \<Rightarrow> doc_log \<Rightarrow> bool" where
  "ensured c l rs R r l' \<longleftrightarrow> log_ok c l' rs R \<and> log_frame l l' \<and>
     (case wal_writer l of
        Some w \<Rightarrow> l' = l
      | None \<Rightarrow> wal_writer l' = (if ok r then Some writer_new else None)) \<and>
     (torn l' = torn l) \<and> (ok r \<longrightarrow> ready l')"

lemma ensure_writer_post:
  assumes "codec_ok c" "log_ok c l rs R"
  shows "post (ensure_writer c) l (ensured c l rs R)"
proof -
  consider (torn) "torn l" | (opened) w where "\<not> torn l" "wal_writer l = Some w"
    | (closed) "\<not> torn l" "wal_writer l = None"
    by (cases "wal_writer l") auto
  then show ?thesis
  proof cases
    case torn
    with assms(2) show ?thesis
      by (cases "wal_writer l") (auto simp: ensure_writer_def post_def ensured_def)
  next
    case opened
    with assms(2) log_ok_opened [OF assms(2)] show ?thesis
      by (auto simp: ensure_writer_def post_def ensured_def ready_def)
  next
    case closed
    with assms(2) have step: "closed_step c l rs R l" by (simp add: closed_step_def)
    define fresh where "fresh = (length (wal_bytes l) = 0)"
    have io: "post (if wal l \<noteq> None then io_call ''open_input failed'' else ret ()) l
        (\<lambda>r l'. \<exists>fs. l' = l\<lparr>faults := fs\<rparr>)"
      using io_call_post [of _ l] by (auto simp: post_simps intro: exI [of _ "faults l"])
    have "post (sbind (if wal l \<noteq> None then io_call ''open_input failed'' else ret ())
             (\<lambda>_. sbind (if fresh then ret () else upgrade_wal c) (\<lambda>_. open_append fresh))) l
        (ensured c l rs R)"
    proof (rule post_sbindI [OF io])
      fix e l'
      assume "\<exists>fs. l' = l\<lparr>faults := fs\<rparr>"
      with assms(2) closed show "ensured c l rs R (Inl e) l'"
        by (auto simp: ensured_def log_ok_def)
    next
      fix u l1
      assume "\<exists>fs. l1 = l\<lparr>faults := fs\<rparr>"
      then have same: "same_file l l1" "log_frame l l1" by auto
      note l1 = closed_step_same [OF same step]
      have bytes: "wal_bytes l1 = wal_bytes l" "wal l1 = wal l"
        using same by (simp_all add: same_file_def wal_bytes_def)
      have up: "post (if fresh then ret () else upgrade_wal c) l1
          (\<lambda>r l'. closed_step c l rs R l' \<and> (ok r \<longrightarrow> openable c l' rs fresh))"
      proof (cases fresh)
        case True
        with l1 bytes show ?thesis by (simp add: post_simps openable_def fresh_def)
      next
        case False
        then have "wal l1 \<noteq> None"
          using bytes by (auto simp: fresh_def wal_bytes_def split: option.splits)
        from upgrade_post [OF assms(1) closed_step_refl [OF l1] this] False show ?thesis
          by (auto elim!: post_mono dest: closed_step_trans [OF l1] simp: openable_def)
      qed
      show "post (sbind (if fresh then ret () else upgrade_wal c) (\<lambda>_. open_append fresh)) l1
          (ensured c l rs R)"
      proof (rule post_sbindI [OF up])
        fix e l'
        assume "closed_step c l rs R l' \<and> (ok (Inl e :: unit res) \<longrightarrow> openable c l' rs fresh)"
        with closed show "ensured c l rs R (Inl e) l'"
          by (auto simp: ensured_def closed_step_def)
      next
        fix u l2
        assume "closed_step c l rs R l2 \<and> (ok (Inr u :: unit res) \<longrightarrow> openable c l2 rs fresh)"
        then have l2: "closed_step c l rs R l2" "openable c l2 rs fresh" by simp_all
        show "post (open_append fresh) l2 (ensured c l rs R)"
        proof (rule post_mono [OF open_append_post [OF assms(1) closed_step_refl [OF l2(1)] l2(2)]])
          fix r :: "unit res" and l'
          assume "log_ok c l' rs R \<and> log_frame l2 l' \<and> \<not> torn l' \<and>
            wal_writer l' = (if ok r then Some writer_new else None) \<and> (ok r \<longrightarrow> wal l' \<noteq> None)"
          with closed l2(1) show "ensured c l rs R r l'"
            by (auto simp: ensured_def ready_def closed_step_def intro: log_frame_trans)
        qed
      qed
    qed
    with closed show ?thesis
      by (simp add: ensure_writer_def post_def Let_def fresh_def)
  qed
qed

section \<open>Appending a record\<close>

text \<open>Whatever part of a frame follows whole frames, the file still gives at least their records.\<close>

lemma clean_v4_part:
  assumes "codec_ok c" "encodable c r" "clean_v4 c rs bs"
  shows "\<exists>v. parse_wal c (bs @ take k (frame_bytes c r)) =
    Inr (if k < length (frame_bytes c r) then rs else rs @ [r], v)"
proof (cases "k < length (frame_bytes c r)")
  case True
  with clean_v4_torn [OF assms True] show ?thesis by simp
next
  case False
  with clean_v4_frame [OF assms] show ?thesis by (simp add: clean_v4_def)
qed

lemma clean_v4_part_keeps:
  assumes "codec_ok c" "encodable c r" "clean_v4 c rs bs" "S rs" "S (rs @ [r])"
    "good_records rs" "good_records (rs @ [r])"
  shows "survivor_keeps c S (Some (bs @ take k (frame_bytes c r)))"
proof -
  obtain v where v: "parse_wal c (bs @ take k (frame_bytes c r)) =
      Inr (if k < length (frame_bytes c r) then rs else rs @ [r], v)"
    using clean_v4_part [OF assms(1-3)] by blast
  show ?thesis
    by (rule survivor_keeps_parse [OF v]) (use assms(4-7) in auto)
qed

text \<open>
  The outcomes of an append's write: the record is in the log, or the log is as before, possibly
  torn. \<open>accepted\<close> is an outcome that returns Ok.
\<close>

definition accepted :: "document codec \<Rightarrow> doc_log \<Rightarrow> document log_record list \<Rightarrow> doc_log \<Rightarrow> bool" where
  "accepted c l rs l' \<longleftrightarrow> ready l' \<and>
     (case sync_policy l of
        PerRecord \<Rightarrow> sync_deferral_depth l = 0 \<longrightarrow> keeps c l' (contains (set rs))
      | Group records bytes interval \<Rightarrow>
          \<exists>w. wal_writer l' = Some w \<and> unsynced_records w < max records 1)"

lemma accepted_cong:
  "sync_policy l1 = sync_policy l \<Longrightarrow> sync_deferral_depth l1 = sync_deferral_depth l \<Longrightarrow>
   accepted c l1 rs l' = accepted c l rs l'"
  by (cases "sync_policy l") (simp_all add: accepted_def)

text \<open>How many of the last records a crash may lose.\<close>

definition unsynced_count :: "doc_log \<Rightarrow> nat" where
  "unsynced_count l = (case wal_writer l of None \<Rightarrow> 0 | Some w \<Rightarrow> unsynced_records w)"

definition tracked :: "document codec \<Rightarrow> doc_log \<Rightarrow> document log_record list \<Rightarrow> bool" where
  "tracked c l rs \<longleftrightarrow> keeps c l (contains (set (take (length rs - unsynced_count l) rs))) \<and>
     (\<forall>w. wal_writer l = Some w \<and> \<not> dirty w \<longrightarrow> unsynced_records w = 0)"

lemma ready_clean:
  assumes "log_holds c l rs" "ready l" "wal l = Some f"
  shows "clean_v4 c rs (data f)" "synced_len f \<le> length (data f)" "wal_undo l = []" "wal_name_synced l"
  using assms by (auto simp: log_holds_def ready_def file_holds_def name_durable_def)

lemma recorded_step:
  assumes c: "codec_ok c" and ok: "log_ok c l rs R" and rdy: "ready l"
    and w: "wal_writer l = Some w"
    and above: "counters_above l (rs @ [r])" and new: "R (rs @ [r])"
    and rec: "recorded c policy deferral r w (live_sink l) res s"
  shows "log_ok c (put_live l s) (rs @ [r]) R \<and> ready (put_live l s) \<and>
    (tracked c l rs \<longrightarrow> tracked c (put_live l s) (rs @ [r])) \<and>
    (ok res \<longrightarrow> (case policy of
        PerRecord \<Rightarrow> deferral = 0 \<longrightarrow> keeps c (put_live l s) (contains (set (rs @ [r])))
      | Group records bytes interval \<Rightarrow>
          \<exists>w. wal_writer (put_live l s) = Some w \<and> unsynced_records w < max records 1))"
proof -
  let ?l = "put_live l s"
  obtain f where f: "wal l = Some f" using rdy by (auto simp: ready_def)
  have h: "log_holds c l rs" "keeps c l R" using ok by (simp_all add: log_ok_def)
  note rc = ready_clean [OF h(1) rdy f]
  from rec f w rdy obtain w' where r: "encodable c r" "wrote f (sink_file s) (frame_bytes c r)"
    "\<not> sink_torn s" "sink_writer s = Some w'"
    "dirty w' \<and> unsynced_records w' = unsynced_records w + 1 \<or>
      \<not> dirty w' \<and> unsynced_records w' = 0 \<and> fully_synced (sink_file s)"
    "ok res \<longrightarrow> (case policy of
             PerRecord \<Rightarrow> deferral = 0 \<longrightarrow> fully_synced (sink_file s)
           | Group records bytes interval \<Rightarrow> unsynced_records w' < max records 1)"
    by (auto simp: recorded_def live_sink_def ready_def)
  have l': "wal ?l = Some (sink_file s)" "wal_writer ?l = Some w'" "\<not> torn ?l"
    "wal_undo ?l = []" "wal_name_synced ?l"
    using f r rc by (simp_all add: put_live_def)
  have "data (sink_file s) = data f @ frame_bytes c r" using r(2) by (simp add: wrote_def)
  then have clean: "clean_v4 c (rs @ [r]) (data (sink_file s))"
    using clean_v4_frame [OF c r(1) rc(1)] by simp
  have "counters_above ?l (rs @ [r])"
    using counters_frame [OF _ above, of ?l] by simp
  moreover have "True \<notin> set (header_faults ?l)"
    using h(1) by (simp add: log_holds_def put_live_def)
  ultimately have holds: "log_holds c ?l (rs @ [r])"
    using l' clean wrote_length [OF r(2) rc(2)]
    by (simp add: log_holds_def name_durable_def file_holds_def)
  have good: "good_records rs" "good_records (rs @ [r])"
    using h(1) counters_good above by (auto simp: log_holds_def)
  have part: "survivor_keeps c S (Some (data f @ take j (frame_bytes c r)))"
    if "S rs" "S (rs @ [r])" for S j
    using clean_v4_part_keeps [OF c r(1) rc(1) that good] .
  have keep: "keeps c ?l S" if "keeps c l S" "S rs" "S (rs @ [r])" for S
    using keeps_wrote [OF that(1) f l'(1) _ r(2) rc(2) part [OF that(2,3)]] l'(4) rc(3) by simp
  have all: "keeps c ?l (contains (set (rs @ [r])))" if "fully_synced (sink_file s)"
  proof -
    have "survivor_keeps c (contains (set (rs @ [r]))) (Some (data (sink_file s)))"
      using clean good(2) by (intro survivor_keeps_parse [of _ _ "rs @ [r]" None]) (simp_all add: clean_v4_def contains_def)
    then show ?thesis
      using l' by (simp add: keeps_def survivors_def fully_synced_survivors [OF that])
  qed
  have tr: "tracked c ?l (rs @ [r])" if "tracked c l rs"
    using r(5)
  proof
    assume d: "dirty w' \<and> unsynced_records w' = unsynced_records w + 1"
    let ?S = "take (length rs - unsynced_records w) rs"
    have "keeps c l (contains (set ?S))" using that w by (simp add: tracked_def unsynced_count_def)
    then have "keeps c ?l (contains (set ?S))" by (rule keep) simp_all
    moreover have "take (length (rs @ [r]) - unsynced_records w') (rs @ [r]) = ?S"
      using d by simp
    ultimately show ?thesis
      using d l'(2) by (simp add: tracked_def unsynced_count_def)
  next
    assume "\<not> dirty w' \<and> unsynced_records w' = 0 \<and> fully_synced (sink_file s)"
    with all l'(2) show ?thesis by (simp add: tracked_def unsynced_count_def)
  qed
  have "log_ok c ?l (rs @ [r]) R"
    using holds keep [OF h(2) log_ok_kept [OF c ok] new] by (simp add: log_ok_def)
  moreover have "ready ?l" using l' by (simp add: ready_def)
  moreover have "ok res \<longrightarrow> (case policy of
        PerRecord \<Rightarrow> deferral = 0 \<longrightarrow> keeps c ?l (contains (set (rs @ [r])))
      | Group records bytes interval \<Rightarrow>
          \<exists>w. wal_writer ?l = Some w \<and> unsynced_records w < max records 1)"
    using r(6) all l'(2) by (auto split: wal_sync_policy.splits)
  ultimately show ?thesis using tr by blast
qed

lemma not_recorded_step:
  assumes c: "codec_ok c" and ok: "log_ok c l rs R" and rdy: "ready l"
    and w: "wal_writer l = Some w"
    and above: "counters_above l (rs @ [r])" and new: "R (rs @ [r])"
    and rec: "not_recorded c r True w (live_sink l) res s"
  shows "\<not> ok res \<and>
    (log_ok c (put_live l s) rs R \<or> log_ok c (put_live l s) (rs @ [r]) R)"
proof -
  let ?l = "put_live l s"
  obtain f where f: "wal l = Some f" using rdy by (auto simp: ready_def)
  have h: "log_holds c l rs" "keeps c l R" using ok by (simp_all add: log_ok_def)
  note rc = ready_clean [OF h(1) rdy f]
  have hf: "True \<notin> set (header_faults ?l)" using h(1) by (simp add: log_holds_def put_live_def)
  have frame: "log_frame l ?l" by simp
  from rec have res: "\<not> ok res" by (simp add: not_recorded_def)
  from rec consider "s = live_sink l"
    | k where "encodable c r" "sink_writer s = Some w" "sink_torn s"
        "sink_file s = f\<lparr>data := data f @ take k (frame_bytes c r)\<rparr>"
    using f by (auto simp: not_recorded_def live_sink_def)
  then show ?thesis
  proof cases
    case 1
    then have "same_file l ?l" using f by (simp add: same_file_def put_live_def live_sink_def)
    with res ok log_ok_same [OF _ frame ok] show ?thesis by blast
  next
    case (2 k)
    let ?f = "f\<lparr>data := data f @ take k (frame_bytes c r)\<rparr>"
    have l': "wal ?l = Some ?f" "wal_writer ?l = Some w" "torn ?l" "wal_undo ?l = wal_undo l"
      "wal_name_synced ?l"
      using f 2 rc by (simp_all add: put_live_def)
    have wr: "wrote f ?f (take k (frame_bytes c r))" by (simp add: wrote_def)
    have good: "good_records rs" "good_records (rs @ [r])"
      using h(1) counters_good above by (auto simp: log_holds_def)
    have "survivor_keeps c R (Some (data f @ take j (take k (frame_bytes c r))))" for j
      using clean_v4_part_keeps [OF c 2(1) rc(1) log_ok_kept [OF c ok] new good, of "min j k"]
      by (simp only: take_take)
    from keeps_wrote [OF h(2) f l'(1,4) wr rc(2) this] have keep: "keeps c ?l R" .
    have sl: "synced_len ?f \<le> length (data ?f)" using rc(2) by simp
    show ?thesis
    proof (cases "k < length (frame_bytes c r)")
      case True
      then have "torn_tail c (take k (frame_bytes c r))" using 2(1) by (auto simp: torn_tail_def)
      moreover have "counters_above ?l rs"
        using h(1) counters_frame [OF frame] by (simp add: log_holds_def)
      ultimately have "log_holds c ?l rs"
        using hf l' rc(1,3) sl by (auto simp: log_holds_def name_durable_def file_holds_def)
      with keep res show ?thesis by (simp add: log_ok_def)
    next
      case False
      then have "clean_v4 c (rs @ [r]) (data ?f)"
        using clean_v4_frame [OF c 2(1) rc(1)] by simp
      moreover have "counters_above ?l (rs @ [r])" by (rule counters_frame [OF frame above])
      ultimately have "log_holds c ?l (rs @ [r])"
        using hf l' rc(3) sl by (auto simp: log_holds_def name_durable_def file_holds_def)
      with keep res show ?thesis by (simp add: log_ok_def)
    qed
  qed
qed

lemma write_live_post:
  assumes "codec_ok c" "log_ok c l rs R" "ready l" "counters_above l (rs @ [r])" "R (rs @ [r])"
  shows "post (on_live (write_record c (sync_policy l) (sync_deferral_depth l) r True)) l
    (\<lambda>res l'. log_frame l l' \<and>
      (if ok res
       then log_ok c l' (rs @ [r]) R \<and> (tracked c l rs \<longrightarrow> tracked c l' (rs @ [r])) \<and>
         accepted c l (rs @ [r]) l'
       else log_ok c l' rs R \<or> log_ok c l' (rs @ [r]) R))"
proof -
  obtain w where w: "wal_writer l = Some w" using assms(3) by (auto simp: ready_def)
  then have "sink_writer (live_sink l) = Some w" by (simp add: live_sink_def)
  from write_record_post [OF this] show ?thesis
    unfolding post_on_live
  proof (rule post_mono)
    fix res :: "unit res" and s
    assume "not_recorded c r True w (live_sink l) res s \<or>
      recorded c (sync_policy l) (sync_deferral_depth l) r w (live_sink l) res s"
    then show "log_frame l (put_live l s) \<and>
      (if ok res
       then log_ok c (put_live l s) (rs @ [r]) R \<and>
         (tracked c l rs \<longrightarrow> tracked c (put_live l s) (rs @ [r])) \<and>
         accepted c l (rs @ [r]) (put_live l s)
       else log_ok c (put_live l s) rs R \<or> log_ok c (put_live l s) (rs @ [r]) R)"
    proof
      assume "not_recorded c r True w (live_sink l) res s"
      from not_recorded_step [OF assms(1-3) w assms(4,5) this] show ?thesis by simp
    next
      assume "recorded c (sync_policy l) (sync_deferral_depth l) r w (live_sink l) res s"
      from recorded_step [OF assms(1-3) w assms(4,5) this] show ?thesis
        by (auto simp: accepted_def split: wal_sync_policy.splits)
    qed
  qed
qed

text \<open>What an append of \<open>r\<close> makes of a log that holds \<open>rs\<close>.\<close>

definition append_result :: "document codec \<Rightarrow> doc_log \<Rightarrow> document log_record list \<Rightarrow>
    (document log_record list \<Rightarrow> bool) \<Rightarrow> document log_record \<Rightarrow> bool \<Rightarrow> doc_log \<Rightarrow> bool" where
  "append_result c l rs R r success l' \<longleftrightarrow>
     sync_policy l' = sync_policy l \<and> sync_deferral_depth l' = sync_deferral_depth l \<and> docs l' = docs l \<and>
     (if success
      then log_ok c l' (rs @ [r]) R \<and> (tracked c l rs \<longrightarrow> tracked c l' (rs @ [r])) \<and>
        accepted c l (rs @ [r]) l'
      else log_ok c l' rs R \<or> log_ok c l' (rs @ [r]) R)"

lemma tracked_ensured:
  assumes "codec_ok c" "log_ok c l rs R" "tracked c l rs" "ensure_writer c l = (r, l')"
  shows "tracked c l' rs"
proof (cases "wal_writer l")
  case None
  with assms(3) have "log_ok c l rs (contains (set rs))"
    using assms(2) by (simp add: tracked_def unsynced_count_def log_ok_def)
  from postD [OF ensure_writer_post [OF assms(1) this] assms(4)] None
  show ?thesis
    by (auto simp: ensured_def tracked_def unsynced_count_def log_ok_def writer_new_def
        split: if_splits)
next
  case (Some w)
  with postD [OF ensure_writer_post [OF assms(1,2)] assms(4)] assms(3)
  show ?thesis by (simp add: ensured_def)
qed

lemma counters_snoc:
  assumes "counters_above l rs" "next_seq l < u64_max" "next_doc_id l < u64_max"
    "upsert_id r \<le> i" "next_seq l = seq r" "i \<le> next_doc_id l"
  shows "counters_above (l\<lparr>next_seq := wrapping_succ (next_seq l),
      next_doc_id := wrapping_succ (next_doc_id l)\<rparr>) (rs @ [r])"
  using assms by (fastforce simp: counters_above_def wrapping_succ_small sorted_wrt_append)

lemma log_ok_counters:
  assumes "log_ok c l rs R" "counters_above (l\<lparr>next_doc_id := i, next_seq := q\<rparr>) rs"
  shows "log_ok c (l\<lparr>next_doc_id := i, next_seq := q\<rparr>) rs R"
proof (cases "wal l")
  case None
  with assms show ?thesis
    by (simp add: log_ok_def log_holds_def name_durable_def keeps_def survivors_def)
next
  case (Some f)
  with assms show ?thesis
    by (simp add: log_ok_def log_holds_def name_durable_def keeps_def survivors_def)
qed

text \<open>The common core of a put's and a delete's append, after the writer is ensured.\<close>

lemma write_bumped:
  assumes c: "codec_ok c" and ok: "log_ok c l rs R" and rdy: "ready l"
    and above: "counters_above (l\<lparr>next_doc_id := i, next_seq := q\<rparr>) (rs @ [r])"
    and below: "next_seq l \<le> q" "next_doc_id l \<le> i" and new: "R (rs @ [r])"
    and run: "on_live (write_record c (sync_policy l) (sync_deferral_depth l) r True)
      (l\<lparr>next_doc_id := i, next_seq := q\<rparr>) = (res, l')"
  shows "append_result c l rs R r (ok res) l'"
proof -
  let ?l = "l\<lparr>next_doc_id := i, next_seq := q\<rparr>"
  have "counters_above ?l rs"
    using above by (auto simp: counters_above_def sorted_wrt_append)
  then have l: "log_ok c ?l rs R" by (rule log_ok_counters [OF ok])
  have rdy': "ready ?l" using rdy by (simp add: ready_def)
  have tr: "tracked c ?l rs = tracked c l rs"
    by (simp add: tracked_def unsynced_count_def keeps_def survivors_def)
  have acc: "accepted c ?l xs l'' = accepted c l xs l''" for xs l''
    by (rule accepted_cong) simp_all
  from postD [OF write_live_post [OF c l rdy' above new]] run
  show ?thesis
    by (auto simp: append_result_def tr acc log_frame_def split: if_splits)
qed

lemma append_put_spec:
  assumes c: "codec_ok c" and l: "log_ok c l rs R" and room: "next_seq l < u64_max"
      "next_doc_id l < u64_max" "store_next_doc_id (docs l) < u64_max"
    and new: "\<And>i. R (rs @ [\<lparr>seq = next_seq l, entry = Upsert i e d ps\<rparr>])"
    and run: "append_put c e d ps l = (res, l')"
  shows "(torn l \<longrightarrow> \<not> ok res \<and> l' = l) \<and>
    (case res of
       Inr (i, q) \<Rightarrow> q = next_seq l \<and> next_doc_id l \<le> i \<and> next_doc_id l' = i + 1 \<and> next_seq l' = q + 1 \<and>
         append_result c l rs R \<lparr>seq = q, entry = Upsert i e d ps\<rparr> True l'
     | Inl _ \<Rightarrow> next_seq l \<le> next_seq l' \<and> next_doc_id l \<le> next_doc_id l' \<and>
         (\<exists>i\<ge>next_doc_id l. append_result c l rs R \<lparr>seq = next_seq l, entry = Upsert i e d ps\<rparr> False l'))"
proof -
  obtain r1 l1 where e: "ensure_writer c l = (r1, l1)" by fastforce
  note en = postD [OF ensure_writer_post [OF c l] e]
  then have fr: "log_frame l l1" and l1: "log_ok c l1 rs R" by (simp_all add: ensured_def)
  have torn: "torn l \<longrightarrow> \<not> ok res \<and> l' = l"
    using run by (auto simp: append_put_def ensure_writer_def sbind_def)
  show ?thesis
  proof (cases r1)
    case (Inl err)
    with e run have "res = Inl err" "l' = l1" by (simp_all add: append_put_def sbind_def)
    with l1 fr torn show ?thesis by (auto simp: append_result_def log_frame_def)
  next
    case (Inr u)
    let ?r = "\<lparr>seq = next_seq l1, entry = Upsert (next_doc_id l1) e d ps\<rparr>"
    let ?l = "l1\<lparr>next_doc_id := wrapping_succ (next_doc_id l1), next_seq := wrapping_succ (next_seq l1)\<rparr>"
    obtain r2 where w: "on_live (write_record c (sync_policy l1) (sync_deferral_depth l1) ?r True) ?l =
        (r2, l')" and res: "res = (case r2 of Inl x \<Rightarrow> Inl x | Inr _ \<Rightarrow> Inr (next_doc_id l1, next_seq l1))"
      using run e Inr
      by (auto simp: append_put_def sbind_def ret_def Let_def split: prod.splits sum.splits)
    have b: "next_seq l1 = next_seq l" "next_seq l1 < u64_max" "next_doc_id l1 < u64_max"
      "next_doc_id l \<le> next_doc_id l1"
      using fr room by (auto simp: log_frame_def)
    have cnt: "counters_above l1 rs" using l1 by (simp add: log_ok_def log_holds_def)
    have "counters_above ?l (rs @ [?r])"
      using cnt b by (fastforce simp: counters_above_def wrapping_succ_small sorted_wrt_append upsert_id_def)
    moreover have "ready l1" using en Inr by (simp add: ensured_def)
    ultimately have a: "append_result c l1 rs R ?r (ok r2) l'"
      using b new by (intro write_bumped [OF c l1 _ _ _ _ _ w]) (simp_all add: wrapping_succ_small)
    have tr: "tracked c l rs \<Longrightarrow> tracked c l1 rs" using tracked_ensured [OF c l _ e] .
    have a': "append_result c l rs R ?r (ok r2) l'"
      using a fr tr accepted_cong [of l1 l c "rs @ [?r]" l']
      by (auto simp: append_result_def log_frame_def split: if_splits)
    have "next_doc_id l' = next_doc_id l1 + 1" "next_seq l' = next_seq l1 + 1"
      using w b by (auto simp: on_live_def wrapping_succ_small split: prod.splits)
    with a' b torn res show ?thesis
      by (cases r2) auto
  qed
qed

lemma append_delete_spec:
  assumes c: "codec_ok c" and l: "log_ok c l rs R" and room: "next_seq l < u64_max"
    and new: "R (rs @ [\<lparr>seq = next_seq l, entry = Delete is e\<rparr>])"
    and run: "append_delete c is e l = (res, l')"
  shows "(torn l \<longrightarrow> \<not> ok res \<and> l' = l) \<and>
    append_result c l rs R \<lparr>seq = next_seq l, entry = Delete is e\<rparr> (ok res) l' \<and>
    next_seq l \<le> next_seq l' \<and> next_doc_id l \<le> next_doc_id l' \<and>
    (\<forall>q. res = Inr q \<longrightarrow> q = next_seq l \<and> next_seq l' = q + 1)"
proof -
  obtain r1 l1 where en1: "ensure_writer c l = (r1, l1)" by fastforce
  note en = postD [OF ensure_writer_post [OF c l] en1]
  then have fr: "log_frame l l1" and l1: "log_ok c l1 rs R" by (simp_all add: ensured_def)
  have torn: "torn l \<longrightarrow> \<not> ok res \<and> l' = l"
    using run by (auto simp: append_delete_def ensure_writer_def sbind_def)
  show ?thesis
  proof (cases r1)
    case (Inl err)
    with en1 run have "res = Inl err" "l' = l1" by (simp_all add: append_delete_def sbind_def)
    with l1 fr torn show ?thesis by (auto simp: append_result_def log_frame_def)
  next
    case (Inr u)
    let ?r = "\<lparr>seq = next_seq l1, entry = Delete is e\<rparr>"
    let ?l = "l1\<lparr>next_doc_id := next_doc_id l1, next_seq := wrapping_succ (next_seq l1)\<rparr>"
    have "?l = l1\<lparr>next_seq := wrapping_succ (next_seq l1)\<rparr>" by simp
    then obtain r2 where w: "on_live (write_record c (sync_policy l1) (sync_deferral_depth l1) ?r True) ?l =
        (r2, l')" and res: "res = (case r2 of Inl x \<Rightarrow> Inl x | Inr _ \<Rightarrow> Inr (next_seq l1))"
      using run en1 Inr
      by (auto simp: append_delete_def sbind_def ret_def Let_def split: prod.splits sum.splits)
    have b: "next_seq l1 = next_seq l" "next_seq l1 < u64_max"
      using fr room by (auto simp: log_frame_def)
    have cnt: "counters_above l1 rs" using l1 by (simp add: log_ok_def log_holds_def)
    have "counters_above ?l (rs @ [?r])"
      using cnt b by (fastforce simp: counters_above_def wrapping_succ_small sorted_wrt_append upsert_id_def)
    moreover have "ready l1" using en Inr by (simp add: ensured_def)
    ultimately have a: "append_result c l1 rs R ?r (ok r2) l'"
      using b new by (intro write_bumped [OF c l1 _ _ _ _ _ w]) (simp_all add: wrapping_succ_small)
    have tr: "tracked c l rs \<Longrightarrow> tracked c l1 rs" using tracked_ensured [OF c l _ en1] .
    have a': "append_result c l rs R ?r (ok r2) l'"
      using a fr tr accepted_cong [of l1 l c "rs @ [?r]" l']
      by (auto simp: append_result_def log_frame_def split: if_splits)
    have "next_seq l' = next_seq l1 + 1" "next_doc_id l \<le> next_doc_id l'"
      using w b fr by (auto simp: on_live_def log_frame_def wrapping_succ_small split: prod.splits)
    with a' b torn res show ?thesis
      by (cases r2) auto
  qed
qed

section \<open>Flushing, closing and truncating\<close>

text \<open>A sync of the open file, or a call on it that changes nothing.\<close>

lemma live_sync_post:
  assumes "codec_ok c" "log_ok c l rs R" "wal l = Some f"
  shows "post (on_live sink_sync) l (\<lambda>r l'. log_ok c l' rs R \<and> log_frame l l' \<and>
    wal_writer l' = wal_writer l \<and> torn l' = torn l \<and> wal_name_synced l' = wal_name_synced l \<and>
    wal_undo l' = wal_undo l \<and> wal_bytes l' = data f \<and> wal l' \<noteq> None \<and>
    (ok r \<longrightarrow> survivors l' = Some (data f) # wal_undo l))"
  unfolding post_on_live
proof (rule post_mono [OF sink_sync_post])
  fix r :: "unit res" and s
  let ?g = "if ok r then f\<lparr>synced_len := length (data f), before_truncate := []\<rparr> else f"
  assume "sink_frame (live_sink l) s \<and> sink_file s = (if ok r
      then (sink_file (live_sink l))\<lparr>synced_len := length (data (sink_file (live_sink l))),
        before_truncate := []\<rparr> else sink_file (live_sink l))"
  then have s: "sink_file s = ?g" "sink_writer s = wal_writer l" "sink_torn s = torn l"
    using assms(3) by (simp_all add: sink_frame_def live_sink_def)
  let ?l = "put_live l s"
  have l': "wal ?l = Some ?g" "wal_writer ?l = wal_writer l" "torn ?l = torn l"
    "wal_undo ?l = wal_undo l" "wal_name_synced ?l = wal_name_synced l"
    "header_faults ?l = header_faults l"
    using assms(3) s by (simp_all add: put_live_def)
  have h: "log_holds c l rs" "keeps c l R" using assms(2) by (simp_all add: log_ok_def)
  have sl: "synced_len f \<le> length (data f)"
    using h(1) assms(3) by (simp add: log_holds_def file_holds_def)
  have "counters_above ?l rs"
    using h(1) counters_frame [of l ?l rs] by (simp add: log_holds_def)
  then have "log_holds c ?l rs"
    using h(1) assms(3) l' by (auto simp: log_holds_def name_durable_def file_holds_def)
  moreover have "set (survivors ?l) \<subseteq> set (survivors l)"
    using l' assms(3) file_survivors_self [OF sl]
    by (auto simp: survivors_def file_survivors_def)
  then have "keeps c ?l R" using h(2) by (auto simp: keeps_def)
  moreover have "ok r \<longrightarrow> survivors ?l = Some (data f) # wal_undo l"
    using l' by (simp add: survivors_def file_survivors_def)
  ultimately show "log_ok c ?l rs R \<and> log_frame l ?l \<and>
    wal_writer ?l = wal_writer l \<and> torn ?l = torn l \<and> wal_name_synced ?l = wal_name_synced l \<and>
    wal_undo ?l = wal_undo l \<and> wal_bytes ?l = data f \<and> wal ?l \<noteq> None \<and>
    (ok r \<longrightarrow> survivors ?l = Some (data f) # wal_undo l)"
    using l' by (simp add: log_ok_def wal_bytes_def)
qed

lemma live_close_post: "post (on_live sink_close) l (\<lambda>r l'. same_file l l' \<and> log_frame l l')"
  unfolding post_on_live sink_close_def
  by (rule post_mono [OF sink_call_post])
    (auto simp: sink_frame_def live_sink_def same_file_def put_live_def split: option.splits)

lemma file_holds_close: 
  assumes "codec_ok c" "file_holds c True t f rs"
  shows "file_holds c False t f rs"
proof -
  from assms(2) obtain bs tail where b: "data f = bs @ tail" "clean_v4 c rs bs"
    "tail = [] \<or> t \<and> torn_tail c tail" by (auto simp: file_holds_def)
  with torn_tail_parse [OF assms(1) b(2)] assms(2) show ?thesis
    by (auto simp: file_holds_def clean_v4_def)
qed

lemma drop_writer_ok:
  assumes "codec_ok c" "log_ok c l rs R"
  shows "log_ok c (l\<lparr>wal_writer := None\<rparr>) rs R"
proof -
  have "log_holds c (l\<lparr>wal_writer := None\<rparr>) rs"
  proof (cases "wal l")
    case None
    with assms(2) show ?thesis
      by (simp add: log_ok_def log_holds_def name_durable_def counters_above_def)
  next
    case (Some f)
    with assms file_holds_close [OF assms(1), of "torn l" f rs] show ?thesis
      by (cases "wal_writer l") (auto simp: log_ok_def log_holds_def name_durable_def counters_above_def)
  qed
  with assms(2) show ?thesis by (simp add: log_ok_def keeps_def survivors_def)
qed

definition closed_result :: "document codec \<Rightarrow> doc_log \<Rightarrow> document log_record list \<Rightarrow>
    (document log_record list \<Rightarrow> bool) \<Rightarrow> bool \<Rightarrow> doc_log \<Rightarrow> bool" where
  "closed_result c l rs R success l' \<longleftrightarrow> log_ok c l' rs R \<and> log_frame l l' \<and> wal_writer l' = None \<and>
     torn l' = torn l \<and> (success \<and> tracked c l rs \<longrightarrow> keeps c l' (contains (set rs)))"

lemma close_writer_post:
  assumes "codec_ok c" "log_ok c l rs R"
  shows "post close_writer l (\<lambda>r l'. closed_result c l rs R (ok r) l')"
proof (cases "wal_writer l")
  case None
  with assms show ?thesis
    by (simp add: close_writer_def post_def closed_result_def tracked_def unsynced_count_def)
next
  case (Some w)
  let ?l = "l\<lparr>wal_writer := None\<rparr>"
  have l0: "log_ok c ?l rs R" by (rule drop_writer_ok [OF assms])
  obtain f where f: "wal l = Some f" using log_ok_opened [OF assms(2)] Some by auto
  have undo: "wal_undo l = []"
    using assms(2) Some by (auto simp: log_ok_def log_holds_def name_durable_def)
  have fh: "file_holds c True (torn l) f rs"
    using assms(2) f Some by (simp add: log_ok_def log_holds_def)
  have good: "good_records rs"
    using assms(2) counters_good by (auto simp: log_ok_def log_holds_def)
  have first: "post (if dirty w then on_live sink_sync else ret ()) ?l
      (\<lambda>r l'. closed_result c l rs R (ok r) l')"
  proof (cases "dirty w")
    case False
    with l0 Some show ?thesis
      by (auto simp: post_simps closed_result_def tracked_def unsynced_count_def keeps_def survivors_def)
  next
    case True
    have "wal ?l = Some f" using f by simp
    from live_sync_post [OF assms(1) l0 this] have
      "post (on_live sink_sync) ?l (\<lambda>r l'. closed_result c l rs R (ok r) l')"
    proof (rule post_mono)
      fix r :: "unit res" and l'
      assume a: "log_ok c l' rs R \<and> log_frame ?l l' \<and> wal_writer l' = wal_writer ?l \<and>
        torn l' = torn ?l \<and> wal_name_synced l' = wal_name_synced ?l \<and> wal_undo l' = wal_undo ?l \<and>
        wal_bytes l' = data f \<and> wal l' \<noteq> None \<and>
        (ok r \<longrightarrow> survivors l' = Some (data f) # wal_undo ?l)"
      have "keeps c l' (contains (set rs))" if "ok r"
        using a that undo file_holds_parse [OF assms(1) fh] good
        by (auto simp: keeps_def survivor_keeps_def parse_survivor_def)
      with a show "closed_result c l rs R (ok r) l'"
        by (auto simp: closed_result_def log_frame_def)
    qed
    with True show ?thesis by simp
  qed
  have "post (sbind (if dirty w then on_live sink_sync else ret ()) (\<lambda>_. on_live sink_close)) ?l
      (\<lambda>r l'. closed_result c l rs R (ok r) l')"
  proof (rule post_sbindI [OF first])
    fix u l1
    assume l1: "closed_result c l rs R (ok (Inr u :: unit res)) l1"
    show "post (on_live sink_close) l1 (\<lambda>r l'. closed_result c l rs R (ok r) l')"
    proof (rule post_mono [OF live_close_post])
      fix r :: "unit res" and l2
      assume a: "same_file l1 l2 \<and> log_frame l1 l2"
      with l1 have "log_ok c l2 rs R" "log_frame l l2"
        using log_ok_same log_frame_trans by (auto simp: closed_result_def)
      with a l1 show "closed_result c l rs R (ok r) l2"
        by (auto simp: closed_result_def same_file_keeps) (simp_all add: same_file_def)
    qed
  qed simp
  with Some show ?thesis by (simp add: close_writer_def post_def)
qed

lemma flush_wal_spec:
  assumes c: "codec_ok c" and l: "log_ok c l rs R" and run: "flush_wal l = (res, l')"
  shows "log_ok c l' rs R \<and> log_frame l l' \<and> torn l' = torn l \<and>
    (tracked c l rs \<longrightarrow> tracked c l' rs \<and> (ok res \<longrightarrow> keeps c l' (contains (set rs))))"
proof (cases "wal_writer l")
  case None
  with run have "same_file l l'" "log_frame l l'"
    by (auto simp: flush_wal_def on_live_def flush_writer_def same_file_def split: option.splits)
  moreover from this have "tracked c l rs \<longrightarrow> tracked c l' rs \<and> keeps c l' (contains (set rs))"
    using None by (simp add: tracked_def unsynced_count_def same_file_keeps) (simp add: same_file_def)
  ultimately show ?thesis using log_ok_same [OF _ _ l] by (auto simp: same_file_def)
next
  case (Some w)
  obtain f where f: "wal l = Some f" using log_ok_opened [OF l] Some by auto
  have sw: "sink_writer (live_sink l) = Some w" using Some by (simp add: live_sink_def)
  obtain s where s: "flush_writer (live_sink l) = (res, s)" "l' = put_live l s"
    using run by (auto simp: flush_wal_def on_live_def live_sink_def put_live_def split: prod.splits)
  note fl = postD [OF flush_writer_post [OF sw] s(1)]
  have h: "log_holds c l rs" "keeps c l R" using l by (simp_all add: log_ok_def)
  have fh: "file_holds c True (torn l) f rs" "wal_undo l = []" "wal_name_synced l"
    using h(1) f Some by (simp_all add: log_holds_def name_durable_def)
  have frame: "log_frame l l'" using s(2) by simp
  show ?thesis
  proof (cases "ok res \<and> dirty w")
    case False
    with fl have "same_file l l'"
      using f Some by (auto simp: s(2) same_file_def put_live_def live_sink_def split: if_splits)
    moreover have "tracked c l rs \<longrightarrow> tracked c l' rs \<and> (ok res \<longrightarrow> keeps c l' (contains (set rs)))"
      using calculation False Some
      by (auto simp: tracked_def unsynced_count_def same_file_keeps) (simp_all add: same_file_def)
    ultimately show ?thesis using log_ok_same [OF _ frame l] frame by (auto simp: same_file_def)
  next
    case True
    with fl f have g: "data (sink_file s) = data f" "fully_synced (sink_file s)"
      "sink_writer s = Some (w\<lparr>dirty := False, unsynced_records := 0, unsynced_bytes := 0\<rparr>)"
      "sink_torn s = torn l"
      by (auto simp: live_sink_def split: if_splits)
    have l': "wal l' = Some (sink_file s)" "torn l' = torn l" "wal_undo l' = []" "wal_name_synced l'"
      "wal_writer l' = sink_writer s"
      using f g fh by (simp_all add: s(2) put_live_def)
    have surv: "survivors l' = [Some (data f)]"
      using l' g(1) fully_synced_survivors [OF g(2)] by (simp add: survivors_def)
    obtain v where v: "parse_wal c (data f) = Inr (rs, v)"
      using file_holds_parse [OF c fh(1)] by blast
    have all: "keeps c l' (contains (set rs))"
      using surv v h(1) counters_good [of l rs]
      by (auto simp: keeps_def log_holds_def intro: survivor_keeps_parse)
    have "counters_above l' rs" "True \<notin> set (header_faults l')"
      using h(1) counters_frame [OF frame, of rs] frame by (auto simp: log_holds_def log_frame_def)
    moreover have "file_holds c True (torn l) (sink_file s) rs"
      using fh(1) g(1,2) by (simp add: file_holds_def fully_synced_def)
    ultimately have "log_holds c l' rs"
      using l' g(3) by (simp add: log_holds_def name_durable_def)
    moreover have "keeps c l' R"
      using surv v h(1) counters_good [of l rs] log_ok_kept [OF c l]
      by (auto simp: keeps_def log_holds_def intro: survivor_keeps_parse)
    ultimately have "log_ok c l' rs R"
      by (simp add: log_ok_def)
    moreover have "tracked c l' rs"
      using all l'(5) g(3) by (simp add: tracked_def unsynced_count_def)
    ultimately show ?thesis using all frame l'(2) by blast
  qed
qed

lemma create_output_post:
  assumes "codec_ok c" "log_ok c l rs R" "wal_writer l = None" "\<And>xs. R xs \<Longrightarrow> R' xs" "R' []"
  shows "post create_output l (\<lambda>r l'. log_frame l l' \<and> wal_writer l' = None \<and> torn l' = torn l \<and>
    (if ok r then log_ok c l' [] R' \<and> wal l' \<noteq> None else log_ok c l' rs R))"
  unfolding create_output_def
proof (rule post_sbindI [OF io_call_post])
  fix e l'
  assume "\<exists>fs. l' = l\<lparr>faults := fs\<rparr>"
  with assms show "log_frame l l' \<and> wal_writer l' = None \<and> torn l' = torn l \<and>
    (if ok (Inl e :: unit res) then log_ok c l' [] R' \<and> wal l' \<noteq> None else log_ok c l' rs R)"
    by (auto simp: log_ok_def)
next
  fix u l'
  assume "\<exists>fs. l' = l\<lparr>faults := fs\<rparr>"
  then obtain fs where l': "l' = l\<lparr>faults := fs\<rparr>" by blast
  have h: "log_holds c l rs" "keeps c l R" using assms(2) by (simp_all add: log_ok_def)
  have k: "keeps c l R'" using h(2) by (rule keeps_mono) (rule assms(4))
  have "survivor_keeps c R' (Some [])" "survivor_keeps c R' None"
    using assms(5) by (simp_all add: survivor_keeps_def parse_survivor_def parse_Nil)
  then show "post (modify (\<lambda>l. case wal l of
            Some f \<Rightarrow> l\<lparr>wal := Some \<lparr>data = [], synced_len = 0, before_truncate = file_survivors f\<rparr>\<rparr>
          | None \<Rightarrow> l\<lparr>wal := Some empty_file, wal_undo := None # wal_undo l\<rparr>)) l'
      (\<lambda>r l'. log_frame l l' \<and> wal_writer l' = None \<and> torn l' = torn l \<and>
        (if ok r then log_ok c l' [] R' \<and> wal l' \<noteq> None else log_ok c l' rs R))"
    using h(1) k assms(3)
    by (cases "wal l") (auto simp: post_modify l' log_ok_def log_holds_def name_durable_def
        counters_above_def file_holds_def parse_Nil empty_file_def keeps_def survivors_def
        file_survivors_def)
qed

lemma storage_sync_ok_post:
  assumes "log_ok c l rs R" "wal l \<noteq> None"
  shows "post storage_sync l (\<lambda>r l'. log_ok c l' rs R \<and> log_frame l l' \<and>
    wal_writer l' = wal_writer l \<and> torn l' = torn l)"
proof (rule post_mono [OF storage_sync_post])
  fix r :: "unit res" and l'
  assume "\<exists>fs. l' = (if ok r then l\<lparr>faults := fs, wal_undo := []\<rparr> else l\<lparr>faults := fs\<rparr>)"
  with assms show "log_ok c l' rs R \<and> log_frame l l' \<and> wal_writer l' = wal_writer l \<and> torn l' = torn l"
    by (cases "ok r") (auto simp: log_ok_def log_holds_def name_durable_def counters_above_def
        keeps_def survivors_def)
qed

definition truncated :: "document codec \<Rightarrow> nat \<Rightarrow> doc_log \<Rightarrow> document log_record list \<Rightarrow>
    (document log_record list \<Rightarrow> bool) \<Rightarrow> (document log_record list \<Rightarrow> bool) \<Rightarrow>
    bool \<Rightarrow> doc_log \<Rightarrow> bool" where
  "truncated c n l rs R R' success l' \<longleftrightarrow> log_frame l l' \<and> torn l' = torn l \<and> wal_writer l' = None \<and>
     (let rs' = filter (\<lambda>r. n < seq r) rs
      in if success then log_ok c l' rs' R' \<and> tracked c l' rs'
         else log_ok c l' rs R \<or> log_ok c l' rs' R')"

lemma truncated_frame:
  "log_frame l l1 \<Longrightarrow> torn l1 = torn l \<Longrightarrow> truncated c n l1 rs R R' b l' \<Longrightarrow> truncated c n l rs R R' b l'"
  by (auto simp: truncated_def intro: log_frame_trans)

lemma fast_path_post:
  assumes c: "codec_ok c" and l: "log_ok c l rs R" "wal_writer l = None" and n: "last_seq l \<le> n"
    and R: "\<And>xs. R xs \<Longrightarrow> R' xs" "R' (filter (\<lambda>r. n < seq r) rs)"
  shows "post (sbind create_output (\<lambda>_. sbind (on_live sink_sync)
      (\<lambda>_. sbind (on_live sink_close) (\<lambda>_. storage_sync)))) l (\<lambda>r l'. truncated c n l rs R R' (ok r) l')"
proof -
  have none: "filter (\<lambda>r. n < seq r) rs = []"
    using l(1) n by (fastforce simp: filter_empty_conv log_ok_def log_holds_def counters_above_def
        last_seq_def)
  have R0: "R' []" using R(2) none by simp
  let ?good = "\<lambda>l'. log_ok c l' [] R' \<and> log_frame l l' \<and> wal_writer l' = None \<and> torn l' = torn l \<and>
    wal l' \<noteq> None"
  have trunc: "truncated c n l rs R R' b l'" if "?good l'" for b l'
    using that none R0
    by (auto simp: truncated_def tracked_def unsynced_count_def log_ok_def contains_def
        intro: keeps_mono)
  show ?thesis
  proof (rule post_sbindI [OF create_output_post [where R = R and R' = R', OF c l R(1) R0]])
    fix e l'
    assume "log_frame l l' \<and> wal_writer l' = None \<and> torn l' = torn l \<and>
      (if ok (Inl e :: unit res) then log_ok c l' [] R' \<and> wal l' \<noteq> None else log_ok c l' rs R)"
    then show "truncated c n l rs R R' (ok (Inl e :: unit res)) l'" by (simp add: truncated_def)
  next
    fix u l1
    assume "log_frame l l1 \<and> wal_writer l1 = None \<and> torn l1 = torn l \<and>
      (if ok (Inr u :: unit res) then log_ok c l1 [] R' \<and> wal l1 \<noteq> None else log_ok c l1 rs R)"
    then have l1: "?good l1" by simp
    then obtain f where f: "wal l1 = Some f" by auto
    show "post (sbind (on_live sink_sync) (\<lambda>_. sbind (on_live sink_close) (\<lambda>_. storage_sync))) l1
        (\<lambda>r l'. truncated c n l rs R R' (ok r) l')"
    proof (rule post_sbindI)
      show "post (on_live sink_sync) l1 (\<lambda>r l'. ?good l')"
        using l1 by (intro post_mono [OF live_sync_post [OF c _ f]]) (auto intro: log_frame_trans)
    next
      fix u l2
      assume l2: "?good l2"
      show "post (sbind (on_live sink_close) (\<lambda>_. storage_sync)) l2
          (\<lambda>r l'. truncated c n l rs R R' (ok r) l')"
      proof (rule post_sbindI)
        show "post (on_live sink_close) l2 (\<lambda>r l'. ?good l')"
        proof (rule post_mono [OF live_close_post])
          fix r :: "unit res" and l3
          assume s: "same_file l2 l3 \<and> log_frame l2 l3"
          then have "log_ok c l3 [] R'" "log_frame l l3"
            using log_ok_same [of l2 l3 c "[]" R'] l2 log_frame_trans [of l l2 l3] by blast+
          with s l2 show "?good l3" by (simp add: same_file_def)
        qed
      next
        fix u l3
        assume l3: "?good l3"
        show "post storage_sync l3 (\<lambda>r l'. truncated c n l rs R R' (ok r) l')"
        proof (rule post_mono [OF post_conj [OF storage_sync_ok_post [of c l3 "[]" R'] storage_sync_post]])
          fix r :: "unit res" and l4
          assume a: "(log_ok c l4 [] R' \<and> log_frame l3 l4 \<and> wal_writer l4 = wal_writer l3 \<and>
              torn l4 = torn l3) \<and>
            (\<exists>fs. l4 = (if ok r then l3\<lparr>faults := fs, wal_undo := []\<rparr> else l3\<lparr>faults := fs\<rparr>))"
          then have "wal l4 = wal l3" by (auto split: if_splits)
          with a l3 have "?good l4" by (auto intro: log_frame_trans)
          then show "truncated c n l rs R R' (ok r) l4" by (rule trunc)
        qed (use l3 in simp_all)
      qed (rule trunc)
    qed (rule trunc)
  qed
qed

lemma slow_path_post:
  assumes c: "codec_ok c" and l: "log_ok c l rs R" "wal_writer l = None"
    and R: "\<And>xs. R xs \<Longrightarrow> R' xs" "R' (filter (\<lambda>r. n < seq r) rs)"
  shows "post (sbind (read_wal c)
      (\<lambda>(records, _). rewrite_wal c (filter (\<lambda>record. seq record > n) records))) l
    (\<lambda>r l'. truncated c n l rs R R' (ok r) l')"
proof (rule post_sbindI [OF read_wal_post [OF c]])
  show "log_holds c l rs" using l by (simp add: log_ok_def)
next
  fix e l1
  assume "read_result l rs (Inl e) l1"
  then have s: "same_file l l1" "log_frame l l1" by (simp_all add: read_result_def)
  from log_ok_same [OF s l(1)] s l(2) show "truncated c n l rs R R' (ok (Inl e :: unit res)) l1"
    by (auto simp: truncated_def same_file_def)
next
  fix v l1
  let ?rs = "filter (\<lambda>r. n < seq r) rs"
  assume v: "read_result l rs (Inr v) l1"
  then have s: "same_file l l1" "log_frame l l1" by (simp_all add: read_result_def)
  have l1: "log_ok c l1 rs R" "wal_writer l1 = None" "torn l1 = torn l"
    using log_ok_same [OF s l(1)] s l(2) by (simp_all add: same_file_def)
  have cnt: "counters_above l1 ?rs"
    using l1(1) by (intro counters_filter) (simp add: log_ok_def log_holds_def)
  have "(case v of (records, _) \<Rightarrow> rewrite_wal c (filter (\<lambda>record. seq record > n) records)) =
      rewrite_wal c ?rs"
    using v by (cases v) (simp add: read_result_def)
  moreover have "post (rewrite_wal c ?rs) l1 (\<lambda>r l'. truncated c n l rs R R' (ok r) l')"
  proof (rule post_mono [OF rewrite_wal_post])
    fix r :: "unit res" and l2
    assume rep: "replaced l1 (\<lambda>f. (\<forall>r \<in> set ?rs. encodable c r) \<and> data f = v4_content c ?rs) r l2"
    note ok = replaced_ok [where R = R and R' = R', OF c l1(1,2) rep cnt R]
    from rep have fr: "log_frame l l2" "torn l2 = torn l" "wal_writer l2 = None"
      using l1 s(2) by (auto simp: replaced_def intro: log_frame_trans)
    have "tracked c l2 ?rs" if "ok r"
    proof -
      from rep that obtain f where f: "wal l2 = Some f" "fully_synced f" "wal_undo l2 = []"
        by (auto simp: replaced_def)
      then have "survivors l2 = [Some (wal_bytes l2)]"
        by (simp add: survivors_def fully_synced_survivors wal_bytes_def)
      moreover have "parse_wal c (wal_bytes l2) = Inr (?rs, None)"
        using ok that by (simp add: clean_v4_def)
      ultimately show ?thesis
        using fr(3) counters_good [OF cnt] by (auto simp: tracked_def unsynced_count_def keeps_def contains_def
            intro: survivor_keeps_parse)
    qed
    with ok fr show "truncated c n l rs R R' (ok r) l2"
      by (auto simp: truncated_def split: if_splits)
  qed
  ultimately show "post (case v of (records, _) \<Rightarrow>
        rewrite_wal c (filter (\<lambda>record. seq record > n) records)) l1
      (\<lambda>r l'. truncated c n l rs R R' (ok r) l')"
    by simp
qed

lemma truncate_spec:
  assumes c: "codec_ok c" and l: "log_ok c l rs R"
    and R: "\<And>xs. R xs \<Longrightarrow> R' xs" "R' (filter (\<lambda>r. n < seq r) rs)"
    and run: "truncate_retaining_after c n l = (res, l')"
  shows "truncated c n l rs R R' (ok res) l'"
proof -
  have "post (truncate_retaining_after c n) l (\<lambda>r l'. truncated c n l rs R R' (ok r) l')"
    unfolding truncate_retaining_after_def
  proof (rule post_sbindI [OF close_writer_post [OF c l]])
    fix e l1
    assume "closed_result c l rs R (ok (Inl e :: unit res)) l1"
    then show "truncated c n l rs R R' (ok (Inl e :: unit res)) l1"
      by (simp add: closed_result_def truncated_def)
  next
    fix u l1
    assume "closed_result c l rs R (ok (Inr u :: unit res)) l1"
    then have l1: "log_ok c l1 rs R" "wal_writer l1 = None" "log_frame l l1" "torn l1 = torn l"
      by (simp_all add: closed_result_def)
    show "post (\<lambda>l. if last_seq l \<le> n then
            sbind create_output
              (\<lambda>_. sbind (on_live sink_sync) (\<lambda>_. sbind (on_live sink_close) (\<lambda>_. storage_sync))) l
          else
            sbind (read_wal c)
              (\<lambda>(records, _). rewrite_wal c (filter (\<lambda>record. seq record > n) records)) l) l1
        (\<lambda>r l'. truncated c n l rs R R' (ok r) l')"
    proof (cases "last_seq l1 \<le> n")
      case True
      from fast_path_post [where R = R and R' = R', OF c l1(1,2) True R] truncated_frame [OF l1(3,4)]
      show ?thesis using True by (simp add: post_def split: prod.splits)
    next
      case False
      from slow_path_post [where R = R and R' = R', OF c l1(1,2) R] truncated_frame [OF l1(3,4)]
      show ?thesis using False by (simp add: post_def split: prod.splits)
    qed
  qed
  from postD [OF this run] show ?thesis .
qed

section \<open>Opening a log\<close>

text \<open>A log that was just created over what is on the disk, before it reads the file.\<close>

definition just_opened :: "document codec \<Rightarrow> doc_log \<Rightarrow> document log_record list \<Rightarrow> bool" where
  "just_opened c l rs \<longleftrightarrow> wal_writer l = None \<and> \<not> torn l \<and> \<not> wal_name_synced l \<and>
     True \<notin> set (header_faults l) \<and> 0 < next_seq l \<and> 0 < next_doc_id l \<and>
     next_seq l \<le> u64_max \<and> next_doc_id l \<le> u64_max \<and> store_next_doc_id (docs l) \<le> u64_max \<and>
     (\<exists>v. parse_survivor c (map_option data (wal l)) = Inr (rs, v)) \<and>
     (\<forall>f. wal l = Some f \<longrightarrow> synced_len f \<le> length (data f)) \<and>
     good_records rs"

lemma raise_counters_post:
  assumes "0 < next_seq l" "0 < next_doc_id l" "next_seq l \<le> u64_max" "next_doc_id l \<le> u64_max"
    "store_next_doc_id (docs l) \<le> u64_max" "good_records rs"
  shows "counters_above (raise_counters rs l) rs" "same_file l (raise_counters rs l)"
    "header_faults (raise_counters rs l) = header_faults l"
    "store_next_doc_id (docs l) \<le> next_doc_id (raise_counters rs l)"
    "next_seq l \<le> next_seq (raise_counters rs l)"
proof -
  have m: "fold max xs a = Max (insert a (set xs))" for xs and a :: nat
  proof (induction xs arbitrary: a)
    case (Cons x xs)
    then show ?case by (cases "xs = []") (auto simp: max.commute max.left_commute)
  qed simp
  have le: "x \<in> set xs \<Longrightarrow> x \<le> fold max xs 0" for x :: nat and xs
    unfolding m by simp
  have s: "\<forall>r \<in> set rs. seq r \<le> max_seq rs" "max_seq rs < u64_max"
    using assms(6) le [of _ "map seq rs"]
      fold_max_less [of "map seq rs" u64_max 0]
    by (auto simp: max_seq_def foldl_max u64_max_def good_records_def)
  have d: "\<forall>r \<in> set rs. upsert_id r \<le> max_doc_id rs" "max_doc_id rs < u64_max"
    using assms(6) le [of _ "map upsert_id rs"]
      fold_max_less [of "map upsert_id rs" u64_max 0]
    by (auto simp: max_doc_id_eq u64_max_def good_records_def)
  have "sorted_wrt (<) (map seq rs)" using assms(6) by (simp add: good_records_def)
  moreover have "r \<in> set rs \<Longrightarrow> seq r < next_seq (raise_counters rs l) \<and>
      upsert_id r < next_doc_id (raise_counters rs l)" for r
    using s d by (fastforce simp: raise_counters_def set_next_doc_id_def Let_def wrapping_succ_small)
  moreover have "0 < next_seq (raise_counters rs l)" "next_seq (raise_counters rs l) \<le> u64_max"
    "0 < next_doc_id (raise_counters rs l)" "next_doc_id (raise_counters rs l) \<le> u64_max"
    "docs (raise_counters rs l) = docs l"
    using assms s(2) d(2)
    by (simp_all add: raise_counters_def set_next_doc_id_def Let_def wrapping_succ_small)
  ultimately show "counters_above (raise_counters rs l) rs"
    using assms(5) by (simp add: counters_above_def)
  show "same_file l (raise_counters rs l)" "header_faults (raise_counters rs l) = header_faults l"
    by (simp_all add: raise_counters_def set_next_doc_id_def Let_def same_file_def)
  show "store_next_doc_id (docs l) \<le> next_doc_id (raise_counters rs l)"
    "next_seq l \<le> next_seq (raise_counters rs l)"
    using s(2) by (simp_all add: raise_counters_def set_next_doc_id_def Let_def wrapping_succ_small)
qed

lemma just_opened_same:
  "same_file l l' \<Longrightarrow> log_frame l l' \<Longrightarrow> just_opened c l rs \<Longrightarrow> just_opened c l' rs"
  by (auto simp: just_opened_def same_file_def log_frame_def)

text \<open>Reading the file of a log just opened raises the counters above its records.\<close>

definition first_read :: "document codec \<Rightarrow> doc_log \<Rightarrow> document log_record list \<Rightarrow>
    (document log_record list \<times> nat option) res \<Rightarrow> doc_log \<Rightarrow> bool" where
  "first_read c l rs r l' \<longleftrightarrow> same_file l l' \<and>
     (case r of
        Inl e \<Rightarrow> True
      | Inr (records, v) \<Rightarrow> records = rs \<and> counters_above l' rs \<and> True \<notin> set (header_faults l') \<and>
          parse_survivor c (map_option data (wal l)) = Inr (rs, v))"

lemma first_records_post:
  assumes "just_opened c l rs" "wal l \<noteq> None" "f = detect_existing_format (wal_bytes l)"
  shows "post (read_records c f) l (first_read c l rs)"
proof -
  obtain v where v: "parse_as c f (wal_bytes l) = Inr (rs, v)"
    and p: "parse_survivor c (map_option data (wal l)) = Inr (rs, v)"
    using assms by (auto simp: just_opened_def parse_survivor_def parse_wal_def wal_bytes_def)
  then have m: "read_records c f = sbind (io_call ''reading the WAL failed'')
      (\<lambda>_ l. case parse_as c f (wal_bytes l) of
          Inl e \<Rightarrow> (Inl e, l)
        | Inr (records, cut_at) \<Rightarrow> (Inr (records, cut_at), raise_counters records l))"
    by (cases f) (simp_all add: read_records_def parse_as_def)
  show ?thesis
    unfolding m
  proof (rule post_sbindI [OF io_call_post])
    fix e l'
    assume "\<exists>fs. l' = l\<lparr>faults := fs\<rparr>"
    then show "first_read c l rs (Inl e) l'" by (auto simp: first_read_def)
  next
    fix u l'
    assume "\<exists>fs. l' = l\<lparr>faults := fs\<rparr>"
    then obtain fs where l': "l' = l\<lparr>faults := fs\<rparr>" by blast
    have r: "counters_above (raise_counters rs l') rs" "same_file l' (raise_counters rs l')"
      "header_faults (raise_counters rs l') = header_faults l'"
      using assms(1) l' by (intro raise_counters_post; simp add: just_opened_def)+
    then have "first_read c l rs (Inr (rs, v)) (raise_counters rs l')"
      using l' p assms(1) by (auto simp: first_read_def just_opened_def same_file_def)
    then show "post (\<lambda>l. case parse_as c f (wal_bytes l) of
          Inl e \<Rightarrow> (Inl e, l)
        | Inr (records, cut_at) \<Rightarrow> (Inr (records, cut_at), raise_counters records l)) l'
        (first_read c l rs)"
      using v l' by (simp add: post_def wal_bytes_def)
  qed
qed

lemma first_read_post:
  assumes "just_opened c l rs"
  shows "post (read_wal c) l (first_read c l rs)"
proof (cases "wal l = None")
  case True
  with assms have "rs = []" by (simp add: just_opened_def parse_survivor_def)
  with True assms show ?thesis
    by (auto simp: read_wal_def post_def first_read_def just_opened_def counters_above_def
        set_next_doc_id_def same_file_def parse_survivor_def)
next
  case False
  have "post (sbind (io_call ''open_input failed'') (\<lambda>_. sbind detect_format (read_records c))) l
      (first_read c l rs)"
  proof (rule post_sbindI [OF io_call_post])
    fix e l'
    assume "\<exists>fs. l' = l\<lparr>faults := fs\<rparr>"
    then show "first_read c l rs (Inl e) l'" by (auto simp: first_read_def)
  next
    fix u l1
    assume "\<exists>fs. l1 = l\<lparr>faults := fs\<rparr>"
    then have l1: "same_file l l1" "log_frame l l1" by auto
    then have hf: "True \<notin> set (header_faults l1)"
      using assms by (auto simp: log_frame_def just_opened_def)
    show "post (sbind detect_format (read_records c)) l1 (first_read c l rs)"
    proof (rule post_sbindI [OF detect_format_post [OF hf]])
      fix e l2
      assume "only_outcomes l1 l2 \<and> (\<forall>f. (Inl e :: wal_format res) = Inr f \<longrightarrow>
        f = detect_existing_format (wal_bytes l1))"
      with l1 show "first_read c l rs (Inl e) l2"
        by (auto simp: first_read_def dest!: only_outcomes_same intro: same_file_trans)
    next
      fix f l2
      assume f: "only_outcomes l1 l2 \<and> (\<forall>g. Inr f = Inr g \<longrightarrow>
        g = detect_existing_format (wal_bytes l1))"
      then have l2: "same_file l l2" "log_frame l l2"
        using l1 by (auto dest!: only_outcomes_same intro: same_file_trans log_frame_trans)
      have w: "wal_bytes l2 = wal_bytes l1" "wal l2 = wal l"
        using l2 l1 by (simp_all add: same_file_def wal_bytes_def)
      with f False have "post (read_records c f) l2 (first_read c l2 rs)"
        using just_opened_same [OF l2 assms] by (intro first_records_post) auto
      then show "post (read_records c f) l2 (first_read c l rs)"
        by (rule post_mono) (use l2(1) w(2) in \<open>auto simp: first_read_def same_file_def split: sum.splits\<close>)
    qed
  qed
  moreover have "read_wal c l = sbind (io_call ''open_input failed'')
      (\<lambda>_. sbind detect_format (read_records c)) l"
    using False by (simp only: read_wal_def if_False)
  ultimately show ?thesis by (simp only: post_def)
qed

end
