(* ===== verification/Log_Guarantees.thy ===== *)
theory Log_Guarantees
  imports Log_Recovery
begin

text \<open>
  The guarantees of the document log, as properties of its operations: what a reopen recovers, what
  an acknowledged append and a truncation leave after every crash, how much the group policy may
  lose, and the cases in which the log does not do what its documentation says.
\<close>

section \<open>Reopening\<close>

lemma cut_wal_post:
  assumes "wal l \<noteq> None"
  shows "post (cut_wal v) l (replaced l (\<lambda>f. data f = take v (wal_bytes l)))"
proof -
  let ?P = "\<lambda>f. data f = take v (wal_bytes l)"
  have build: "post (sbind (sink_call ''open_input failed'')
         (\<lambda>_. sbind (sink_write (take v (wal_bytes l))) (\<lambda>_. sbind sink_sync (\<lambda>_. sink_close)))) s
      (\<lambda>r s'. ok r \<longrightarrow> fully_synced (sink_file s') \<and> ?P (sink_file s'))"
    if s: "sink_file s = empty_file" "sink_writer s = Some writer_new" for s
  proof (rule post_sbindI [OF sink_call_post])
    fix u and s1 :: sink
    assume "sink_frame s s1 \<and> sink_file s1 = sink_file s"
    then have s1: "sink_file s1 = empty_file" using s by simp
    show "post (sbind (sink_write (take v (wal_bytes l))) (\<lambda>_. sbind sink_sync (\<lambda>_. sink_close))) s1
        (\<lambda>r s'. ok r \<longrightarrow> fully_synced (sink_file s') \<and> ?P (sink_file s'))"
    proof (rule post_sbindI [OF sink_write_post])
      fix u and s2 :: sink
      assume "sink_frame s1 s2 \<and> (\<exists>k. sink_file s2 = (sink_file s1)\<lparr>data := data (sink_file s1) @
          take k (take v (wal_bytes l))\<rparr> \<and> (ok (Inr u :: unit res) \<longrightarrow> length (take v (wal_bytes l)) \<le> k))"
      then have "?P (sink_file s2)" using s1 by (auto simp: empty_file_def simp del: take_take)
      then show "post (sbind sink_sync (\<lambda>_. sink_close)) s2
          (\<lambda>r s'. ok r \<longrightarrow> fully_synced (sink_file s') \<and> ?P (sink_file s'))"
        by (intro post_mono [OF sync_close_post]) auto
    qed simp
  qed simp
  have "cut_wal v l = replace_with (sbind (sink_call ''open_input failed'')
         (\<lambda>_. sbind (sink_write (take v (wal_bytes l))) (\<lambda>_. sbind sink_sync (\<lambda>_. sink_close)))) l"
    by (simp add: cut_wal_def)
  moreover note replace_with_post [of _ ?P l, OF build]
  ultimately show ?thesis by (simp only: post_def)
qed

lemma cut_keeps:
  assumes "keeps c l R" "replaced l (\<lambda>f. data f = take v (wal_bytes l)) r l'"
    "parse_wal c (take v (wal_bytes l)) = Inr (rs, None)" "R rs" "good_records rs"
  shows "keeps c l' R"
proof -
  from assms(2) consider (same) "wal l' = wal l" "wal_undo l' = wal_undo l"
    | (new) f where "wal l' = Some f" "fully_synced f" "data f = take v (wal_bytes l)"
        "wal_undo l' = [] \<or> wal_undo l' = survivors l"
    by (auto simp: replaced_def split: if_splits)
  then show ?thesis
  proof cases
    case same
    with assms(1) show ?thesis by (simp add: keeps_def survivors_def)
  next
    case new
    then have "set (survivors l') \<subseteq> insert (Some (take v (wal_bytes l))) (set (survivors l))"
      by (auto simp: survivors_def [of l'] fully_synced_survivors)
    moreover have "survivor_keeps c R (Some (take v (wal_bytes l)))"
      by (rule survivor_keeps_parse [where R = R, OF assms(3-5)])
    ultimately show ?thesis using assms(1) by (auto simp: keeps_def)
  qed
qed

lemma read_all_spec:
  assumes c: "codec_ok c" and l: "just_opened c l rs" "keeps c l R" "R rs"
    and run: "read_all c l = (res, l')"
  shows "keeps c l' R \<and> (\<forall>records. res = Inr records \<longrightarrow> records = rs \<and> log_ok c l' rs R \<and>
    wal_writer l' = None \<and> \<not> torn l')"
proof -
  let ?Q = "\<lambda>res l'. keeps c l' R \<and> (\<forall>records. res = Inr records \<longrightarrow> records = rs \<and> log_ok c l' rs R \<and>
    wal_writer l' = None \<and> \<not> torn l')"
  have "post (read_all c) l ?Q"
    unfolding read_all_def
  proof (rule post_sbindI [OF first_read_post [OF l(1)]])
    fix e l1
    assume "first_read c l rs (Inl e) l1"
    with l(2) show "?Q (Inl e) l1" by (simp add: first_read_def same_file_keeps)
  next
    fix x l1
    assume x: "first_read c l rs (Inr x) l1"
    obtain v where xv: "x = (rs, v)" and s: "same_file l l1"
      and l1: "counters_above l1 rs" "True \<notin> set (header_faults l1)"
      and p: "parse_survivor c (map_option data (wal l)) = Inr (rs, v)"
      using x by (cases x) (auto simp: first_read_def)
    have o: "wal_writer l1 = None" "\<not> torn l1" "\<not> wal_name_synced l1" "wal l1 = wal l"
      "keeps c l1 R" "\<forall>f. wal l = Some f \<longrightarrow> synced_len f \<le> length (data f)"
      using l s by (auto simp: just_opened_def same_file_keeps) (simp_all add: same_file_def)
    show "post (case x of (records, cut_at) \<Rightarrow> \<lambda>l. case cut_at of
            Some valid_len \<Rightarrow>
              if wal_writer l = None then sbind (cut_wal valid_len) (\<lambda>_. ret records) l
              else (Inr records, l)
          | None \<Rightarrow> (Inr records, l)) l1 ?Q"
    proof (cases v)
      case None
      have "log_holds c l1 rs"
        using l1 o p None by (auto simp: log_holds_def name_durable_def file_holds_def
            parse_survivor_def split: option.splits)
      with o xv None show ?thesis by (simp add: post_def log_ok_def)
    next
      case (Some n)
      with p obtain f where f: "wal l1 = Some f" "parse_wal c (wal_bytes l1) = Inr (rs, Some n)"
        using o(4) by (auto simp: parse_survivor_def wal_bytes_def split: option.splits)
      note cut = parse_cut [OF f(2)]
      have "post (cut_wal n) l1 (replaced l1 (\<lambda>f. data f = take n (wal_bytes l1)))"
        using f(1) by (intro cut_wal_post) simp
      then have "post (sbind (cut_wal n) (\<lambda>_. ret rs)) l1 ?Q"
      proof (rule post_sbindI)
        fix e l2
        assume "replaced l1 (\<lambda>f. data f = take n (wal_bytes l1)) (Inl e) l2"
        from cut_keeps [OF o(5) this cut(1) l(3) counters_good [OF l1(1)]] show "?Q (Inl e) l2" by simp
      next
        fix u l2
        assume rep: "replaced l1 (\<lambda>f. data f = take n (wal_bytes l1)) (Inr u) l2"
        from rep obtain g where g: "wal l2 = Some g" "fully_synced g" "data g = take n (wal_bytes l1)"
          "wal_undo l2 = []" "wal_name_synced l2" "wal_writer l2 = None" "\<not> torn l2" "log_frame l1 l2"
          using o by (auto simp: replaced_def)
        have "log_holds c l2 rs"
          using g cut(1) counters_frame [OF g(8) l1(1)] l1(2)
          by (auto simp: log_holds_def name_durable_def file_holds_def fully_synced_def log_frame_def)
        with cut_keeps [OF o(5) rep cut(1) l(3) counters_good [OF l1(1)]] g
        show "post (ret rs) l2 ?Q" by (simp add: post_simps log_ok_def)
      qed
      with o xv Some show ?thesis by (simp add: post_def)
    qed
  qed
  from postD [OF this run] show ?thesis .
qed

lemma contains_append:
  assumes "codec_ok c" "log_ok c l rs (contains S)"
  shows "contains S (rs @ xs)"
  using log_ok_kept [OF assms] by (auto simp: contains_def)

lemma contains_above:
  assumes "codec_ok c" "log_ok c l rs (contains S)"
  shows "contains {r \<in> S. n < seq r} (filter (\<lambda>r. n < seq r) rs)"
  using log_ok_kept [OF assms] by (auto simp: contains_def)

lemma contains_fewer: "contains S xs \<Longrightarrow> contains {r \<in> S. P r} xs"
  by (auto simp: contains_def)

lemma append_put_keeps:
  assumes "codec_ok c" "log_ok c l rs (contains S)" "next_seq l < u64_max"
    "next_doc_id l < u64_max" "store_next_doc_id (docs l) < u64_max"
    "append_put c e d ps l = (res, l')"
  shows "(torn l \<longrightarrow> \<not> ok res \<and> l' = l) \<and>
    (case res of
       Inr (i, q) \<Rightarrow> q = next_seq l \<and> next_doc_id l \<le> i \<and> next_doc_id l' = i + 1 \<and> next_seq l' = q + 1 \<and>
         append_result c l rs (contains S) \<lparr>seq = q, entry = Upsert i e d ps\<rparr> True l'
     | Inl _ \<Rightarrow> \<exists>i. append_result c l rs (contains S) \<lparr>seq = next_seq l, entry = Upsert i e d ps\<rparr> False l')"
  using append_put_spec [OF assms(1-5) contains_append [OF assms(1,2)] assms(6)]
  by (auto split: sum.splits)

lemma append_delete_keeps:
  assumes "codec_ok c" "log_ok c l rs (contains S)" "next_seq l < u64_max"
    "append_delete c is e l = (res, l')"
  shows "(torn l \<longrightarrow> \<not> ok res \<and> l' = l) \<and>
    append_result c l rs (contains S) \<lparr>seq = next_seq l, entry = Delete is e\<rparr> (ok res) l' \<and>
    (\<forall>q. res = Inr q \<longrightarrow> q = next_seq l \<and> next_seq l' = q + 1)"
  using append_delete_spec [OF assms(1-3) contains_append [OF assms(1,2)] assms(4)] by blast

section \<open>A small log for the witnesses\<close>

definition sample_codec :: "document codec" where
  "sample_codec =
     \<lparr>rkyv_encode = (\<lambda>r.
        if seq r < 256 then
          (case entry r of
             Delete is e \<Rightarrow> if is = [1] \<and> e = ''a'' then Some [word_of_nat (seq r)] else None
           | Upsert i e d ps \<Rightarrow>
               if i < 256 \<and> e = ''a'' \<and> d = doc_new \<and> ps = []
               then Some [word_of_nat (seq r), word_of_nat i] else None)
        else None),
      rkyv_decode = (\<lambda>p. case p of
          [q] \<Rightarrow> Some \<lparr>seq = unat q, entry = Delete [1] ''a''\<rparr>
        | [q, i] \<Rightarrow> Some \<lparr>seq = unat q, entry = Upsert (unat i) ''a'' doc_new []\<rparr>
        | _ \<Rightarrow> None),
      rkyv_decode_v3 = (\<lambda>p. None), json_decode = (\<lambda>p. None), crc32 = (\<lambda>p. 7)\<rparr>"

lemma sample_codec_ok: "codec_ok sample_codec"
proof -
  have "rkyv_decode sample_codec p = Some r" if "rkyv_encode sample_codec r = Some p" for r p
    using that by (cases r)
      (auto simp: sample_codec_def unat_of_nat split: if_splits log_entry.splits)
  then show ?thesis by (simp add: codec_ok_def) (simp add: sample_codec_def)
qed

definition sample_files :: doc_files where
  "sample_files = \<lparr>seg_files = Map.empty, manifest_file = None\<rparr>"

definition sample_log :: "wal_sync_policy \<Rightarrow> doc_log" where
  "sample_log policy = fresh_log None [] [] [] (ds_open sample_files) policy"

lemma sample_log_ok: "log_ok sample_codec (sample_log policy) [] (contains {})" "tracked sample_codec (sample_log policy) []"
  by (simp_all add: log_ok_def log_holds_def counters_above_def name_durable_def keeps_def survivors_def
      survivor_keeps_def parse_survivor_def tracked_def unsynced_count_def
      sample_log_def fresh_log_def sample_files_def ds_open_def ds_new_def u64_max_def)

lemma sample_append:
  "\<exists>l'. append_put sample_codec ''a'' doc_new [] (sample_log policy) = (Inr (1, 1), l')"
  by (cases policy) (simp_all add: append_put_def sbind_def ensure_writer_def sample_log_def fresh_log_def
      wal_bytes_def ret_def open_append_def create_output_append_def io_call_def modify_def
      ensure_name_def sync_wal_storage_def storage_sync_def write_header_def on_live_def sink_write_def
      Let_def empty_file_def write_record_def append_record_bytes_def writer_new_def
      encode_payload_def sample_codec_def sample_files_def ds_open_def ds_new_def flush_writer_def sink_sync_def
      batch_ready_def)

text \<open>
  The log a process opens on the file a crash left, with the checkpoint of its stores, when its
  document store opens (\<open>with_sync_policy_opens\<close>).
\<close>

definition reopen :: "bytes option \<Rightarrow> nat \<Rightarrow> fault list \<Rightarrow> doc_files \<Rightarrow> wal_sync_policy \<Rightarrow> doc_log" where
  "reopen x checkpoint fs store_files policy =
     advance_seq_past checkpoint
       (fresh_log
          (map_option (\<lambda>bs. \<lparr>data = bs, synced_len = length bs, before_truncate = []\<rparr>) x)
          [] fs [] (ds_open store_files) policy)"

lemma reopen_parts [simp]:
  "wal (reopen x k fs dsf policy) =
     map_option (\<lambda>bs. \<lparr>data = bs, synced_len = length bs, before_truncate = []\<rparr>) x"
  "wal_undo (reopen x k fs dsf policy) = []" "wal_writer (reopen x k fs dsf policy) = None"
  "\<not> torn (reopen x k fs dsf policy)" "\<not> wal_name_synced (reopen x k fs dsf policy)"
  "header_faults (reopen x k fs dsf policy) = []"
  "next_seq (reopen x k fs dsf policy) = max 1 (saturating_succ k)"
  "next_doc_id (reopen x k fs dsf policy) = 1" "docs (reopen x k fs dsf policy) = ds_open dsf"
  "sync_policy (reopen x k fs dsf policy) = policy"
  "sync_deferral_depth (reopen x k fs dsf policy) = 0"
  by (simp_all add: reopen_def advance_seq_past_def fresh_log_def)

lemma reopen_survivors: "survivors (reopen x k fs dsf policy) = [x]"
  by (cases x) (simp_all add: survivors_def file_survivors_def)

lemma reopen_just_opened:
  assumes "parse_survivor c x = Inr (rs, v)" "good_records rs" "store_next_doc_id (ds_open dsf) \<le> u64_max"
  shows "just_opened c (reopen x k fs dsf policy) rs" "keeps c (reopen x k fs dsf policy) ((=) rs)"
proof -
  have "saturating_succ k \<le> u64_max" by (simp add: saturating_succ_def u64_max_def)
  moreover have "(data \<circ> (\<lambda>bs. \<lparr>data = bs, synced_len = length bs, before_truncate = []\<rparr>)) = id"
    by (auto simp: fun_eq_iff)
  ultimately show "just_opened c (reopen x k fs dsf policy) rs"
    using assms by (auto simp: just_opened_def option.map_comp option.map_id u64_max_def)
  show "keeps c (reopen x k fs dsf policy) ((=) rs)"
    using assms by (auto simp: keeps_def reopen_survivors survivor_keeps_def)
qed

section \<open>Properties\<close>

text \<open>
  C1. Nothing a log keeps is lost by a crash: whatever file the crash leaves, the log opened on it
  reads records that include all the kept ones, in increasing order of their sequence numbers, cuts
  off what a torn write left, and is ready to append behind exactly these records, all of which
  every later crash keeps; its next sequence number lies above the records and the checkpoint.
\<close>

theorem crash_recovery:
  assumes "codec_ok c" and "log_ok c l rs R" and "x \<in> set (survivors l)"
    and "store_next_doc_id (ds_open dsf) \<le> u64_max" and "k < u64_max"
    and "read_all c (reopen x k fs dsf policy) = (Inr records, l')"
  shows "R records \<and> log_ok c l' records ((=) records) \<and> \<not> torn l' \<and>
    sorted_wrt (<) (map seq records) \<and> (\<forall>r \<in> set records. seq r < next_seq l')"
proof -
  from assms(2,3) obtain xs v where x: "parse_survivor c x = Inr (xs, v)" "R xs" "good_records xs"
    by (fastforce simp: log_ok_def keeps_def survivor_keeps_def)
  have "records = xs \<and> log_ok c l' xs ((=) xs) \<and> \<not> torn l'"
    using read_all_spec [OF assms(1) reopen_just_opened [OF x(1,3) assms(4)] refl assms(6)]
    by simp
  with x(2) show ?thesis by (auto simp: log_ok_def log_holds_def counters_above_def)
qed

lemma sample_read_all:
  "\<exists>l'. read_all sample_codec (reopen None 0 [] sample_files PerRecord) = (Inr [], l')"
  by (simp add: read_all_def sbind_def read_wal_def reopen_def fresh_log_def advance_seq_past_def
      set_next_doc_id_def)

theorem crash_recovery_witness:
  "\<exists>l'. read_all sample_codec (reopen None 0 [] sample_files PerRecord) = (Inr [], l') \<and>
     log_ok sample_codec l' [] ((=) [])"
proof -
  obtain l' where r: "read_all sample_codec (reopen None 0 [] sample_files PerRecord) = (Inr [], l')"
    using sample_read_all by blast
  have "None \<in> set (survivors (sample_log PerRecord))"
    by (simp add: sample_log_def fresh_log_def survivors_def)
  moreover have "store_next_doc_id (ds_open sample_files) \<le> u64_max" "0 < u64_max"
    by (simp_all add: sample_files_def ds_open_def ds_new_def u64_max_def)
  ultimately show ?thesis
    using crash_recovery [OF sample_codec_ok sample_log_ok(1) _ _ _ r] r by auto
qed

text \<open>
  C2. An acknowledged put under the per-record policy is durable when its append returns: outside a
  deferral scope, every crash from then on leaves a file with every record of the log, the new one
  included. Under either policy the append adds exactly its record, with the next sequence number
  and a new document id, and loses nothing that was kept before.
\<close>

theorem append_put_durable:
  assumes "codec_ok c" and "log_ok c l rs (contains S)"
    and "next_seq l < u64_max" and "next_doc_id l < u64_max" and "store_next_doc_id (docs l) < u64_max"
    and "append_put c e d ps l = (Inr (i, q), l')"
  shows "q = next_seq l \<and> (\<forall>r \<in> set rs. seq r < q \<and> upsert_id r < i) \<and>
    (let rs' = rs @ [\<lparr>seq = q, entry = Upsert i e d ps\<rparr>]
     in log_ok c l' rs' (contains S) \<and>
        (sync_policy l = PerRecord \<and> sync_deferral_depth l = 0 \<longrightarrow> log_ok c l' rs' (contains (set rs'))))"
proof -
  have a: "q = next_seq l" "next_doc_id l \<le> i"
    "append_result c l rs (contains S) \<lparr>seq = q, entry = Upsert i e d ps\<rparr> True l'"
    using append_put_keeps [OF assms] by auto
  have "counters_above l rs" using assms(2) by (simp add: log_ok_def log_holds_def)
  with a show ?thesis
    by (fastforce simp: append_result_def accepted_def log_ok_def counters_above_def Let_def)
qed

theorem append_put_durable_witness:
  "\<exists>l'. append_put sample_codec ''a'' doc_new [] (sample_log PerRecord) = (Inr (1, 1), l') \<and>
     keeps sample_codec l' (contains {\<lparr>seq = 1, entry = Upsert 1 ''a'' doc_new []\<rparr>})"
proof -
  obtain l' where a: "append_put sample_codec ''a'' doc_new [] (sample_log PerRecord) = (Inr (1, 1), l')"
    using sample_append by blast
  have b: "next_seq (sample_log PerRecord) < u64_max" "next_doc_id (sample_log PerRecord) < u64_max"
    "store_next_doc_id (docs (sample_log PerRecord)) < u64_max" "sync_policy (sample_log PerRecord) = PerRecord"
    "sync_deferral_depth (sample_log PerRecord) = 0"
    by (simp_all add: sample_log_def fresh_log_def sample_files_def ds_open_def ds_new_def u64_max_def)
  from append_put_durable [OF sample_codec_ok sample_log_ok(1) b(1-3) a] b(4,5)
  have "keeps sample_codec l' (contains {\<lparr>seq = 1, entry = Upsert 1 ''a'' doc_new []\<rparr>})"
    by (simp only: Let_def log_ok_def append_Nil list.set simp_thms)
  with a show ?thesis by blast
qed

text \<open>
  C4. A failed append never damages the log: it holds the same records as before or one more, the
  one that was to be appended, and keeps all it kept. A log that may end in a partial record refuses
  every append and changes nothing.
\<close>

theorem append_put_failure:
  assumes "codec_ok c" and "log_ok c l rs (contains S)"
    and "next_seq l < u64_max" and "next_doc_id l < u64_max" and "store_next_doc_id (docs l) < u64_max"
    and "append_put c e d ps l = (res, l')"
  shows "(torn l \<longrightarrow> \<not> ok res \<and> l' = l) \<and>
    (\<not> ok res \<longrightarrow> log_ok c l' rs (contains S) \<or>
      (\<exists>i. log_ok c l' (rs @ [\<lparr>seq = next_seq l, entry = Upsert i e d ps\<rparr>]) (contains S)))"
  using append_put_keeps [OF assms] by (cases res) (auto simp: append_result_def)

definition torn_log :: doc_log where
  "torn_log = (sample_log PerRecord)\<lparr>faults := [Succeed, Succeed, Succeed, Succeed, Succeed, Fail 3]\<rparr>"

theorem append_put_failure_witness:
  "\<exists>l1. append_put sample_codec ''a'' doc_new [] torn_log = (Inl (Io ''write failed''), l1) \<and> torn l1 \<and>
     (log_ok sample_codec l1 [] (contains {}) \<or>
      (\<exists>i. log_ok sample_codec l1 [\<lparr>seq = 1, entry = Upsert i ''a'' doc_new []\<rparr>] (contains {})))"
proof -
  have run: "\<exists>l1. append_put sample_codec ''a'' doc_new [] torn_log = (Inl (Io ''write failed''), l1) \<and> torn l1"
    by (simp add: append_put_def sbind_def ensure_writer_def torn_log_def sample_log_def
      fresh_log_def wal_bytes_def ret_def open_append_def create_output_append_def io_call_def
      modify_def ensure_name_def sync_wal_storage_def storage_sync_def write_header_def on_live_def
      sink_write_def Let_def empty_file_def write_record_def append_record_bytes_def writer_new_def
      encode_payload_def sample_codec_def sample_files_def ds_open_def ds_new_def)
  then obtain l1 where l1: "append_put sample_codec ''a'' doc_new [] torn_log = (Inl (Io ''write failed''), l1)"
    "torn l1" by blast
  have "log_ok sample_codec torn_log [] (contains {})" using sample_log_ok by (simp add: torn_log_def log_ok_def)
  from append_put_failure [OF sample_codec_ok this _ _ _ l1(1)] l1 show ?thesis
    by (simp add: torn_log_def sample_log_def fresh_log_def sample_files_def ds_open_def
        ds_new_def u64_max_def)
qed

text \<open>
  An append of a delete record numbers it next, makes it durable before it returns under the
  per-record policy outside a deferral scope, and on every other outcome leaves the log with the
  same records or one more, keeping all it kept; a torn log refuses it.
\<close>

theorem append_delete_durable:
  assumes "codec_ok c" and "log_ok c l rs (contains S)" and "next_seq l < u64_max"
    and "append_delete c is e l = (res, l')"
  shows "(torn l \<longrightarrow> \<not> ok res \<and> l' = l) \<and> (\<forall>q. res = Inr q \<longrightarrow> q = next_seq l \<and> next_seq l' = q + 1) \<and>
    (let rs' = rs @ [\<lparr>seq = next_seq l, entry = Delete is e\<rparr>]
     in if ok res
        then log_ok c l' rs' (contains S) \<and>
          (sync_policy l = PerRecord \<and> sync_deferral_depth l = 0 \<longrightarrow> keeps c l' (contains (set rs')))
        else log_ok c l' rs (contains S) \<or> log_ok c l' rs' (contains S))"
  using append_delete_keeps [OF assms]
  by (auto simp: append_result_def accepted_def Let_def split: if_splits)

lemma sample_delete:
  "\<exists>l'. append_delete sample_codec [1] ''a'' (sample_log policy) = (Inr 1, l')"
  by (cases policy) (simp_all add: append_delete_def sbind_def ensure_writer_def sample_log_def
      fresh_log_def wal_bytes_def ret_def open_append_def create_output_append_def io_call_def
      modify_def ensure_name_def sync_wal_storage_def storage_sync_def write_header_def on_live_def
      sink_write_def Let_def empty_file_def write_record_def append_record_bytes_def writer_new_def
      encode_payload_def sample_codec_def sample_files_def ds_open_def ds_new_def flush_writer_def
      sink_sync_def batch_ready_def)

lemma sample_log_room:
  "next_seq (sample_log policy) < u64_max" "next_doc_id (sample_log policy) < u64_max"
  "store_next_doc_id (docs (sample_log policy)) < u64_max" "sync_policy (sample_log policy) = policy"
  "sync_deferral_depth (sample_log policy) = 0" "next_seq (sample_log policy) = 1"
  by (simp_all add: sample_log_def fresh_log_def sample_files_def ds_open_def ds_new_def u64_max_def)

theorem append_delete_durable_witness:
  "\<exists>l'. append_delete sample_codec [1] ''a'' (sample_log PerRecord) = (Inr 1, l') \<and>
     keeps sample_codec l' (contains {\<lparr>seq = 1, entry = Delete [1] ''a''\<rparr>})"
proof -
  obtain l' where a: "append_delete sample_codec [1] ''a'' (sample_log PerRecord) = (Inr 1, l')"
    using sample_delete by blast
  from append_delete_durable [OF sample_codec_ok sample_log_ok(1) sample_log_room(1) a]
  have "keeps sample_codec l' (contains {\<lparr>seq = 1, entry = Delete [1] ''a''\<rparr>})"
    by (simp only: Let_def log_ok_def append_Nil list.set simp_thms ok_simps if_True sample_log_room)
  with a show ?thesis by blast
qed

text \<open>The sample log after one delete, and what its file holds.\<close>

definition delete_record :: "document log_record" where
  "delete_record = \<lparr>seq = 1, entry = Delete [1] ''a''\<rparr>"

definition delete_content :: bytes where
  "delete_content = [0x4C, 0x57, 0x41, 0x4C, 4, 1, 0, 0, 0, 7, 0, 0, 0, 1]"

lemma delete_frame:
  "rkyv_encode sample_codec delete_record = Some [1]" "crc32 sample_codec bs = 7"
  "frame_bytes sample_codec delete_record = [1, 0, 0, 0, 7, 0, 0, 0, 1]"
  "encodable sample_codec delete_record"
proof -
  have four: "le_bytes 4 n = le_bytes (Suc (Suc (Suc (Suc 0)))) n" for n
    by (rule arg_cong [of _ _ "\<lambda>k. le_bytes k n"]) simp
  show enc: "rkyv_encode sample_codec delete_record = Some [1]" "crc32 sample_codec bs = 7" for bs
    by (simp_all add: sample_codec_def delete_record_def)
  show "frame_bytes sample_codec delete_record = [1, 0, 0, 0, 7, 0, 0, 0, 1]"
    by (simp add: frame_bytes_def frame_def encode_payload_def enc frame_of_payload_def Let_def four)
  show "encodable sample_codec delete_record"
    by (simp add: encodable_def frame_def encode_payload_def enc)
qed

lemma delete_content:
  "clean_v4 sample_codec [delete_record] delete_content"
  "detect_existing_format delete_content = V4"
  "parse_as sample_codec V4 delete_content = Inr ([delete_record], None)"
proof -
  have bs: "v4_content sample_codec [delete_record] = delete_content"
    by (simp add: v4_content_def wal_header_def delete_frame delete_content_def WAL_MAGIC_def
        WAL_VERSION_def)
  show c: "clean_v4 sample_codec [delete_record] delete_content"
    using clean_v4_content [OF sample_codec_ok, of "[delete_record]"] delete_frame(4) by (simp add: bs)
  show "detect_existing_format delete_content = V4"
    "parse_as sample_codec V4 delete_content = Inr ([delete_record], None)"
    using c by (auto simp: clean_v4_def parse_wal_def)
qed

definition deleted_log :: doc_log where
  "deleted_log = (sample_log PerRecord)\<lparr>
     wal := Some \<lparr>data = delete_content, synced_len = 14, before_truncate = []\<rparr>,
     next_seq := 2, wal_writer := Some \<lparr>dirty = False, unsynced_records = 0, unsynced_bytes = 0\<rparr>,
     wal_name_synced := True\<rparr>"

lemma sample_deleted: "append_delete sample_codec [1] ''a'' (sample_log PerRecord) = (Inr 1, deleted_log)"
proof -
  have four: "le_bytes 4 n = le_bytes (Suc (Suc (Suc (Suc 0)))) n" for n
    by (rule arg_cong [of _ _ "\<lambda>k. le_bytes k n"]) simp
  show ?thesis
    by (simp add: append_delete_def sbind_def ensure_writer_def sample_log_def deleted_log_def
      fresh_log_def wal_bytes_def ret_def open_append_def create_output_append_def io_call_def
      modify_def ensure_name_def sync_wal_storage_def storage_sync_def write_header_def on_live_def
      sink_write_def Let_def empty_file_def write_record_def append_record_bytes_def writer_new_def
      encode_payload_def sample_codec_def sample_files_def ds_open_def ds_new_def flush_writer_def
      sink_sync_def batch_ready_def four delete_content_def WAL_MAGIC_def WAL_VERSION_def
      wrapping_succ_def u64_max_def)
qed

lemma sample_truncations:
  "\<exists>l2. truncate_retaining_after sample_codec 0 deleted_log = (Inr (), l2)"
  "\<exists>l3. truncate_retaining_after sample_codec 1 deleted_log = (Inr (), l3)"
proof -
  note log_simps = truncate_retaining_after_def close_writer_def sbind_def last_seq_def deleted_log_def
    sample_log_def fresh_log_def on_live_def sink_close_def sink_call_def sink_sync_def ret_def
    create_output_def io_call_def modify_def storage_sync_def Let_def
  show "\<exists>l3. truncate_retaining_after sample_codec 1 deleted_log = (Inr (), l3)"
    by (simp add: log_simps)
  have long: "\<not> length delete_content < WAL_HEADER_LEN"
    by (simp add: delete_content_def WAL_HEADER_LEN_def)
  have "\<exists>l'. read_wal sample_codec (deleted_log\<lparr>wal_writer := None\<rparr>) = (Inr ([delete_record], None), l') \<and>
      faults l' = [] \<and> sync_policy l' = PerRecord \<and> sync_deferral_depth l' = 0"
    using delete_content(2,3) long
    by (simp add: log_simps read_wal_def detect_format_def read_records_def wal_bytes_def
        raise_counters_def set_next_doc_id_def)
  then obtain l' where l': "read_wal sample_codec (deleted_log\<lparr>wal_writer := None\<rparr>) =
      (Inr ([delete_record], None), l')" "faults l' = []" "sync_policy l' = PerRecord" by blast
  have "\<exists>l2. rewrite_wal sample_codec [delete_record] l' = (Inr (), l2)"
    using l'(2,3) delete_frame(1,2)
    by (simp add: log_simps rewrite_wal_def replace_with_def sink_write_def rename_file_def
        sync_wal_storage_def write_record_def append_record_bytes_def encode_payload_def
        writer_new_def empty_file_def)
  moreover have "seq delete_record = 1" by (simp add: delete_record_def)
  moreover have "truncate_retaining_after sample_codec 0 deleted_log =
      sbind (read_wal sample_codec) (\<lambda>(records, _). rewrite_wal sample_codec
        (filter (\<lambda>record. seq record > 0) records)) (deleted_log\<lparr>wal_writer := None\<rparr>)"
    by (simp add: log_simps)
  ultimately show "\<exists>l2. truncate_retaining_after sample_codec 0 deleted_log = (Inr (), l2)"
    using l'(1) by (simp add: sbind_def)
qed

text \<open>
  C3. Truncating after a commit drops exactly the records up to the commit's checkpoint, and at no
  point of the operation can a crash lose a kept record above it: the log holds its old records or
  the retained ones, and keeps every record it kept whose number is above the checkpoint. This holds
  whichever call of the storage fails (opening, creating, writing, syncing, closing or renaming a
  file, syncing the storage), with one exception that is a hypothesis: the five bytes of the header
  are read when the records to retain are read back. When that one read fails, the file counts as
  one without records, as in the recovery C13 is about.
\<close>

theorem truncate_retains_later:
  assumes "codec_ok c" and "log_ok c l rs (contains S)" and "True \<notin> set (header_faults l)"
    and "truncate_retaining_after c n l = (res, l')"
  shows "(let retained = filter (\<lambda>r. n < seq r) rs; S' = {r \<in> S. n < seq r}
    in (if ok res then log_ok c l' retained (contains S') else log_ok c l' rs (contains S) \<or> log_ok c l' retained (contains S'))) \<and>
    keeps c l' (contains {r \<in> S. n < seq r}) \<and> next_seq l' = next_seq l"
proof -
  let ?S' = "{r \<in> S. n < seq r}"
  have t: "truncated c n l rs (contains S) (contains ?S') (ok res) l'"
    by (rule truncate_spec [where R = "contains S" and R' = "contains ?S'", OF assms(1,2) _
          contains_above [OF assms(1,2)] assms(4)]) (rule contains_fewer)
  have "log_ok c l' rs' (contains S) \<Longrightarrow> keeps c l' (contains ?S')" for rs'
    using keeps_mono [OF _ contains_fewer] by (auto simp: log_ok_def)
  with t show ?thesis
    by (auto simp: truncated_def above_def Let_def log_frame_def log_ok_def split: if_splits
        intro: keeps_mono)
qed

theorem truncate_retains_later_witness:
  "\<exists>l2 l3. truncate_retaining_after sample_codec 0 deleted_log = (Inr (), l2) \<and>
     log_ok sample_codec l2 [delete_record] (contains {delete_record}) \<and>
     truncate_retaining_after sample_codec 1 deleted_log = (Inr (), l3) \<and>
     log_ok sample_codec l3 [] (contains {})"
proof -
  obtain l2 l3 where t: "truncate_retaining_after sample_codec 0 deleted_log = (Inr (), l2)"
      "truncate_retaining_after sample_codec 1 deleted_log = (Inr (), l3)"
    using sample_truncations by blast
  from append_delete_keeps [OF sample_codec_ok sample_log_ok(1) sample_log_room(1) sample_deleted]
  have l1: "log_ok sample_codec deleted_log [delete_record] (contains {delete_record})"
    by (simp add: append_result_def accepted_def sample_log_room log_ok_def delete_record_def)
  then have hf: "True \<notin> set (header_faults deleted_log)" by (simp add: log_ok_def log_holds_def)
  have sets: "{r \<in> {delete_record}. 0 < seq r} = {delete_record}" "{r \<in> {delete_record}. 1 < seq r} = {}"
    by (auto simp: delete_record_def)
  have "log_ok sample_codec l2 [delete_record] (contains {delete_record})"
    using truncate_retains_later [OF sample_codec_ok l1 hf t(1)] unfolding sets
    by (simp add: delete_record_def)
  moreover have "log_ok sample_codec l3 [] (contains {})"
    using truncate_retains_later [OF sample_codec_ok l1 hf t(2)] unfolding sets
    by (simp add: delete_record_def)
  ultimately show ?thesis using t by blast
qed

text \<open>
  C5. Under the group policy an acknowledged append may be lost by a crash, but never more than the
  last \<open>max_records - 1\<close> records are: every crash keeps all but fewer than \<open>max 1 max_records\<close> of the
  newest ones. The bookkeeping (\<open>tracked\<close>) this rests on is kept by the append.
\<close>

theorem group_loss_window:
  assumes "codec_ok c" and "log_ok c l rs (contains S)" and "tracked c l rs"
    and "sync_policy l = Group records bytes interval"
    and "next_seq l < u64_max" and "next_doc_id l < u64_max" and "store_next_doc_id (docs l) < u64_max"
    and "append_put c e d ps l = (Inr (i, q), l')"
  shows "(let rs' = rs @ [\<lparr>seq = q, entry = Upsert i e d ps\<rparr>]
    in tracked c l' rs' \<and> (\<exists>lost < max records 1. keeps c l' (contains (set (take (length rs' - lost) rs')))))"
proof -
  let ?rs = "rs @ [\<lparr>seq = q, entry = Upsert i e d ps\<rparr>]"
  have a: "append_result c l rs (contains S) \<lparr>seq = q, entry = Upsert i e d ps\<rparr> True l'"
    using append_put_keeps [OF assms(1,2,5-8)] by auto
  then have t: "tracked c l' ?rs" using assms(3) by (simp add: append_result_def)
  from a assms(4) obtain w where "wal_writer l' = Some w" "unsynced_records w < max records 1"
    by (auto simp: append_result_def accepted_def)
  then have "unsynced_count l' < max records 1" by (simp add: unsynced_count_def)
  with t show ?thesis unfolding Let_def tracked_def by blast
qed

theorem group_loss_window_witness:
  "\<exists>l'. append_put sample_codec ''a'' doc_new [] (sample_log (Group 1 100 None)) = (Inr (1, 1), l') \<and>
     keeps sample_codec l' (contains {\<lparr>seq = 1, entry = Upsert 1 ''a'' doc_new []\<rparr>})"
proof -
  obtain l' where a: "append_put sample_codec ''a'' doc_new [] (sample_log (Group 1 100 None)) = (Inr (1, 1), l')"
    using sample_append by blast
  from group_loss_window [OF sample_codec_ok sample_log_ok sample_log_room(4,1-3) a]
  have "keeps sample_codec l' (contains {\<lparr>seq = 1, entry = Upsert 1 ''a'' doc_new []\<rparr>})"
    by (auto simp: Let_def)
  with a show ?thesis by blast
qed

text \<open>
  C6. \<open>flush_wal\<close> is a durability barrier on a log whose unsynced records are \<open>tracked\<close>: one whose
  open writer knows of every record that is not synced yet, as every log is that was opened and
  appended to (C5). When it returns Ok on such a log, every crash keeps every record of the log,
  those of a deferred batch included, and the log stays tracked. The hypothesis excludes what C14 is
  about: a log whose truncation could not sync the writer it closed.
\<close>

theorem flush_wal_barrier:
  assumes "codec_ok c" and "log_ok c l rs (contains S)" and "tracked c l rs" and "flush_wal l = (res, l')"
  shows "log_ok c l' rs (contains S) \<and> tracked c l' rs \<and> (ok res \<longrightarrow> keeps c l' (contains (set rs)))"
  using flush_wal_spec [OF assms(1,2,4)] assms(3) by blast

definition deferred_log :: doc_log where
  "deferred_log = defer_sync (sample_log PerRecord)"

theorem flush_wal_barrier_witness:
  "\<exists>l1 l2. append_delete sample_codec [1] ''a'' deferred_log = (Inr 1, l1) \<and>
     Some [] \<in> set (survivors l1) \<and> flush_wal l1 = (Inr (), l2) \<and>
     keeps sample_codec l2 (contains {\<lparr>seq = 1, entry = Delete [1] ''a''\<rparr>})"
proof -
  have d: "log_ok sample_codec deferred_log [] (contains {})" "tracked sample_codec deferred_log []"
      "next_seq deferred_log < u64_max" "next_seq deferred_log = 1"
    using sample_log_ok [of PerRecord] sample_log_room [of PerRecord]
    by (simp_all add: deferred_log_def defer_sync_def log_ok_def log_holds_def counters_above_def
      name_durable_def keeps_def survivors_def tracked_def unsynced_count_def sample_log_def
      fresh_log_def)
  have "\<exists>l1 l2. append_delete sample_codec [1] ''a'' deferred_log = (Inr 1, l1) \<and>
      Some [] \<in> set (survivors l1) \<and> flush_wal l1 = (Inr (), l2)"
    by (simp add: deferred_log_def survivors_def file_survivors_def flush_wal_def flush_writer_def
      sink_sync_def defer_sync_def append_delete_def sbind_def ensure_writer_def
      sample_log_def fresh_log_def wal_bytes_def ret_def open_append_def
      create_output_append_def io_call_def modify_def ensure_name_def sync_wal_storage_def
      storage_sync_def write_header_def on_live_def sink_write_def Let_def empty_file_def
      write_record_def append_record_bytes_def writer_new_def encode_payload_def sample_codec_def) force
  then obtain l1 l2 where a: "append_delete sample_codec [1] ''a'' deferred_log = (Inr 1, l1)"
    "Some [] \<in> set (survivors l1)" and f: "flush_wal l1 = (Inr (), l2)" by blast
  from append_delete_keeps [OF sample_codec_ok d(1,3) a(1)] d
  have l1: "log_ok sample_codec l1 [\<lparr>seq = 1, entry = Delete [1] ''a''\<rparr>] (contains {})"
    "tracked sample_codec l1 [\<lparr>seq = 1, entry = Delete [1] ''a''\<rparr>]"
    by (simp_all add: append_result_def)
  have "keeps sample_codec l2 (contains {\<lparr>seq = 1, entry = Delete [1] ''a''\<rparr>})"
    using flush_wal_barrier [OF sample_codec_ok l1 f] by simp
  with a f show ?thesis by blast
qed

section \<open>Other versions\<close>

text \<open>Before anything can change the file, a version this build does not know ends the operation.\<close>

lemma unknown_read_wal:
  assumes "wal l \<noteq> None" "detect_existing_format (wal_bytes l) = Unknown v"
    "True \<notin> set (header_faults l)"
  shows "post (read_wal c) l (\<lambda>r l'. \<not> ok r \<and> same_file l l')"
proof -
  have "post (sbind (io_call ''open_input failed'') (\<lambda>_. sbind detect_format (read_records c))) l
      (\<lambda>r l'. \<not> ok r \<and> same_file l l')"
  proof (rule post_sbindI [OF io_call_post])
    fix u l1
    assume "\<exists>fs. l1 = l\<lparr>faults := fs\<rparr>"
    then have l1: "same_file l l1" "header_faults l1 = header_faults l" by auto
    with assms(3) have hf: "True \<notin> set (header_faults l1)" by simp
    show "post (sbind detect_format (read_records c)) l1 (\<lambda>r l'. \<not> ok r \<and> same_file l l')"
    proof (rule post_sbindI [OF detect_format_post [OF hf]])
      fix f l2
      assume f: "only_outcomes l1 l2 \<and> (\<forall>g. Inr f = Inr g \<longrightarrow> g = detect_existing_format (wal_bytes l1))"
      then have "f = Unknown v" using assms(2) l1(1) by (simp add: same_file_def wal_bytes_def)
      moreover have "same_file l l2" using f l1 only_outcomes_same same_file_trans by blast
      ultimately show "post (read_records c f) l2 (\<lambda>r l'. \<not> ok r \<and> same_file l l')"
        by (simp add: read_records_def post_simps)
    qed (use l1 only_outcomes_same same_file_trans in \<open>auto\<close>)
  qed auto
  moreover have "read_wal c l = sbind (io_call ''open_input failed'')
      (\<lambda>_. sbind detect_format (read_records c)) l"
    using assms(1) by (simp only: read_wal_def if_False)
  ultimately show ?thesis by (simp only: post_def)
qed

lemma unknown_upgrade:
  assumes "detect_existing_format (wal_bytes l) = Unknown v" "True \<notin> set (header_faults l)"
  shows "post (upgrade_wal c) l (\<lambda>r l'. \<not> ok r \<and> same_file l l')"
  unfolding upgrade_wal_def
proof (rule post_sbindI [OF detect_format_post [OF assms(2)]])
  fix f l2
  assume f: "only_outcomes l l2 \<and> (\<forall>g. Inr f = Inr g \<longrightarrow> g = detect_existing_format (wal_bytes l))"
  then have "f = Unknown v" and "same_file l l2"
    using assms(1) only_outcomes_same by simp_all
  then show "post (case f of V4 \<Rightarrow> ret () | Unknown version \<Rightarrow> fail (unknown_version_error version)
      | _ \<Rightarrow> sbind (read_wal c) (\<lambda>(records, _). rewrite_wal c records)) l2
      (\<lambda>r l'. \<not> ok r \<and> same_file l l')"
    by (simp add: post_simps)
qed (use only_outcomes_same in auto)

lemma unknown_ensure:
  assumes "wal l \<noteq> None" "detect_existing_format (wal_bytes l) = Unknown v"
    "True \<notin> set (header_faults l)" "wal_writer l = None"
  shows "post (ensure_writer c) l (\<lambda>r l'. \<not> ok r \<and> same_file l l')"
proof (cases "torn l")
  case True
  then show ?thesis by (simp add: ensure_writer_def post_def)
next
  case False
  have ne: "length (wal_bytes l) \<noteq> 0"
    using assms(2) detect_long [of "wal_bytes l"] by (auto simp: WAL_HEADER_LEN_def)
  have "post (sbind (io_call ''open_input failed'') (\<lambda>_. sbind (upgrade_wal c) (\<lambda>_. open_append False))) l
      (\<lambda>r l'. \<not> ok r \<and> same_file l l')"
  proof (rule post_sbindI [OF io_call_post])
    fix u l1
    assume "\<exists>fs. l1 = l\<lparr>faults := fs\<rparr>"
    then obtain fs where l1: "l1 = l\<lparr>faults := fs\<rparr>" by blast
    have "post (upgrade_wal c) l1 (\<lambda>r l'. \<not> ok r \<and> same_file l1 l')"
      by (rule unknown_upgrade) (use assms l1 in \<open>simp_all add: wal_bytes_def\<close>)
    then show "post (sbind (upgrade_wal c) (\<lambda>_. open_append False)) l1 (\<lambda>r l'. \<not> ok r \<and> same_file l l')"
      by (rule post_sbindI) (use l1 in \<open>simp_all add: same_file_def\<close>)
  qed auto
  with ne False assms(1,4) show ?thesis by (simp add: ensure_writer_def post_def Let_def)
qed

text \<open>
  C12. A file whose header can be read and names a version this build does not know is not read and
  not appended to: recovery, an append of a document and of a delete all fail, and so does a
  truncation that has records to retain, and the file stays as it is. The one operation that does not
  look at the header is a truncation with nothing to retain, the last number being covered: it
  empties the file, whatever version it is of. (A header that cannot be read counts as none, C13.)
\<close>

theorem unknown_version_refused:
  assumes "wal l \<noteq> None" and "detect_existing_format (wal_bytes l) = Unknown v"
    and "True \<notin> set (header_faults l)" and "wal_writer l = None"
  shows "\<not> ok (fst (read_all c l)) \<and> wal (snd (read_all c l)) = wal l \<and>
    \<not> ok (fst (append_put c e d ps l)) \<and> wal (snd (append_put c e d ps l)) = wal l \<and>
    \<not> ok (fst (append_delete c is e l)) \<and> wal (snd (append_delete c is e l)) = wal l \<and>
    (if last_seq l \<le> n
     then faults l = [] \<longrightarrow>
       (\<exists>l'. truncate_retaining_after c n l = (Inr (), l') \<and> survivors l' = [Some []])
     else \<not> ok (fst (truncate_retaining_after c n l)) \<and>
       wal (snd (truncate_retaining_after c n l)) = wal l)"
proof -
  obtain r1 l1 where 1: "read_wal c l = (r1, l1)" by fastforce
  obtain r2 l2 where 2: "ensure_writer c l = (r2, l2)" by fastforce
  have "\<not> ok r1" "wal l1 = wal l"
    using postD [OF unknown_read_wal [OF assms(1-3), of c] 1] by (simp_all add: same_file_def)
  moreover have "\<not> ok r2" "wal l2 = wal l"
    using postD [OF unknown_ensure [OF assms, of c] 2] by (simp_all add: same_file_def)
  moreover have "\<exists>l'. truncate_retaining_after c n l = (Inr (), l') \<and> survivors l' = [Some []]"
    if "last_seq l \<le> n" "faults l = []"
    using that assms(1,4)
    by (auto simp: truncate_retaining_after_def close_writer_def sbind_def create_output_def io_call_def
        modify_def on_live_def sink_sync_def sink_close_def sink_call_def storage_sync_def Let_def
        survivors_def file_survivors_def)
  moreover have "truncate_retaining_after c n l =
      sbind (read_wal c) (\<lambda>(records, _). rewrite_wal c (filter (\<lambda>record. seq record > n) records)) l"
    if "\<not> last_seq l \<le> n"
    using that assms(4) by (simp add: truncate_retaining_after_def close_writer_def sbind_def)
  ultimately show ?thesis
    using 1 2 by (cases r1; cases r2)
      (auto simp: read_all_def append_put_def append_delete_def sbind_def)
qed

theorem unknown_version_refused_witness:
  "\<not> ok (fst (read_all sample_codec (reopen (Some (WAL_MAGIC @ [9])) 0 [] sample_files PerRecord)))"
proof -
  let ?l = "reopen (Some (WAL_MAGIC @ [9])) 0 [] sample_files PerRecord"
  have "wal ?l \<noteq> None" "detect_existing_format (wal_bytes ?l) = Unknown 9"
    "True \<notin> set (header_faults ?l)" "wal_writer ?l = None"
    by (simp_all add: wal_bytes_def detect_existing_format_def WAL_HEADER_LEN_def WAL_MAGIC_def Let_def
      WAL_VERSION_def WAL_VERSION_V3_def WAL_VERSION_V2_def)
  from unknown_version_refused [OF this] show ?thesis by blast
qed

text \<open>
  C11. The first acknowledged append to a file of an older version leaves a file in v4, and in v4
  only: the records the older file held, in order and with their numbers, then the new one. A file
  that holds part of a header, as a crash during the first append leaves it, counts as an older file
  without records.
\<close>

theorem append_upgrades_file:
  assumes "codec_ok c" and "log_ok c l rs (contains S)"
    and "next_seq l < u64_max" and "next_doc_id l < u64_max" and "store_next_doc_id (docs l) < u64_max"
    and "append_put c e d ps l = (Inr (i, q), l')"
  shows "clean_v4 c (rs @ [\<lparr>seq = q, entry = Upsert i e d ps\<rparr>]) (wal_bytes l')"
proof -
  have "append_result c l rs (contains S) \<lparr>seq = q, entry = Upsert i e d ps\<rparr> True l'"
    using append_put_keeps [OF assms] by auto
  then have "log_holds c l' (rs @ [\<lparr>seq = q, entry = Upsert i e d ps\<rparr>])" "ready l'"
    by (simp_all add: append_result_def accepted_def log_ok_def)
  then show ?thesis
    by (metis ready_clean(1) ready_def not_None_eq wal_bytes_def option.simps(5))
qed

text \<open>A log over the four bytes of a torn header.\<close>

definition half_header_log :: doc_log where
  "half_header_log = reopen (Some WAL_MAGIC) 0 [] sample_files PerRecord"

lemma half_header_ok: "log_ok sample_codec half_header_log [] (contains {})"
proof -
  have p: "parse_wal sample_codec WAL_MAGIC = Inr ([], Some 0)"
    "detect_existing_format WAL_MAGIC = Legacy"
    using parse_partial_header(1) [of 4 sample_codec] parse_partial_header(2) [of 4]
    by (simp_all add: wal_header_def WAL_MAGIC_def WAL_HEADER_LEN_def)
  then have "survivor_keeps sample_codec (contains {}) (Some WAL_MAGIC)"
    by (simp add: survivor_keeps_parse)
  with p show ?thesis
    by (simp add: log_ok_def log_holds_def counters_above_def name_durable_def keeps_def
      half_header_log_def reopen_survivors file_holds_def saturating_succ_def u64_max_def
      sample_files_def ds_open_def ds_new_def)
qed

theorem append_upgrades_file_witness:
  "\<exists>l'. append_put sample_codec ''a'' doc_new [] half_header_log = (Inr (1, 1), l') \<and>
     clean_v4 sample_codec [\<lparr>seq = 1, entry = Upsert 1 ''a'' doc_new []\<rparr>] (wal_bytes l')"
proof -
  have "read_frames sample_codec Legacy 0 WAL_MAGIC = ([], 0)"
    by (simp add: read_frames_next next_frame_def WAL_MAGIC_def has_crc_def)
  then have pa: "parse_as sample_codec Legacy [0x4C, 0x57, 0x41, 0x4C] = Inr ([], Some 0)"
    by (simp add: parse_as_def header_len_def WAL_MAGIC_def)
  have enc: "rkyv_encode sample_codec \<lparr>seq = 1, entry = Upsert 1 ''a'' doc_new []\<rparr> = Some [1, 1]"
    "crc32 sample_codec bs = 7" for bs
    by (simp_all add: sample_codec_def)
  have "\<exists>l'. append_put sample_codec ''a'' doc_new [] half_header_log = (Inr (1, 1), l')"
    using pa enc
    by (simp add: append_put_def sbind_def ensure_writer_def half_header_log_def reopen_def
      advance_seq_past_def fresh_log_def wal_bytes_def ret_def WAL_MAGIC_def upgrade_wal_def
      detect_format_def WAL_HEADER_LEN_def saturating_succ_def u64_max_def read_wal_def read_records_def
      raise_counters_def max_seq_def max_doc_id_def set_next_doc_id_def rewrite_wal_def replace_with_def
      rename_file_def sink_close_def sink_call_def
      open_append_def create_output_append_def io_call_def modify_def
      ensure_name_def sync_wal_storage_def storage_sync_def write_header_def on_live_def sink_write_def
      Let_def empty_file_def write_record_def append_record_bytes_def writer_new_def
      encode_payload_def sample_files_def ds_open_def ds_new_def flush_writer_def
      sink_sync_def batch_ready_def)
  then obtain l' where a: "append_put sample_codec ''a'' doc_new [] half_header_log = (Inr (1, 1), l')"
    by blast
  have "next_seq half_header_log < u64_max" "next_doc_id half_header_log < u64_max"
    "store_next_doc_id (docs half_header_log) < u64_max"
    by (simp_all add: half_header_log_def sample_files_def ds_open_def ds_new_def u64_max_def
      saturating_succ_def)
  from append_upgrades_file [OF sample_codec_ok half_header_ok this a] a show ?thesis by auto
qed

section \<open>Where the log does not do what it says\<close>

text \<open>
  C13. Recovery takes every failure to read the file's header for a file without one. When that one
  read fails on a current file, and every other call succeeds, \<open>read_all\<close> reports no records and no
  error, and cuts the file to nothing: every record is gone from the disk, acknowledged ones
  included. (The frame length a legacy file would start with is the magic, more than a gigabyte.)
\<close>

theorem header_read_error_empties_wal:
  assumes "wal l = Some f" and "WAL_HEADER_LEN \<le> length (data f)" and "take 4 (data f) = WAL_MAGIC"
    and "length (data f) \<le> 1279350604" and "wal_writer l = None"
    and "faults l = []" and "header_faults l = [True]"
  shows "\<exists>l'. read_all c l = (Inr [], l') \<and> survivors l' = [Some []]"
proof -
  have "from_le (take 4 (data f)) = 1279350604"
    by (simp add: assms(3) WAL_MAGIC_def)
  then have "next_frame c Legacy (data f) = None"
    using assms(4) by (simp add: next_frame_def has_crc_def)
  then have "parse_as c Legacy (data f) = Inr ([], Some 0)"
    using assms(2) by (simp add: parse_as_def header_len_def read_frames_next WAL_HEADER_LEN_def) auto
  moreover have "\<not> length (data f) < WAL_HEADER_LEN" using assms(2) by simp
  ultimately show ?thesis
    using assms(1,5-7)
    by (simp add: read_all_def sbind_def read_wal_def io_call_def detect_format_def wal_bytes_def
        read_records_def raise_counters_def max_seq_def max_doc_id_def set_next_doc_id_def
        cut_wal_def replace_with_def sink_call_def sink_write_def sink_sync_def sink_close_def
        rename_file_def sync_wal_storage_def storage_sync_def modify_def ret_def Let_def
        survivors_def file_survivors_def empty_file_def)
qed

theorem header_read_error_empties_wal_witness:
  "\<exists>bs l l'. clean_v4 sample_codec [\<lparr>seq = 1, entry = Delete [1] ''a''\<rparr>] bs \<and>
     survivors l = [Some bs] \<and> read_all sample_codec l = (Inr [], l') \<and> survivors l' = [Some []]"
proof -
  let ?l = "(reopen (Some delete_content) 0 [] sample_files PerRecord)\<lparr>header_faults := [True]\<rparr>"
  have "\<exists>l'. read_all sample_codec ?l = (Inr [], l') \<and> survivors l' = [Some []]"
    by (rule header_read_error_empties_wal
          [where f = "\<lparr>data = delete_content, synced_len = length delete_content, before_truncate = []\<rparr>"])
      (simp_all add: delete_content_def WAL_HEADER_LEN_def WAL_MAGIC_def reopen_def advance_seq_past_def
        fresh_log_def)
  moreover have "survivors ?l = [Some delete_content]"
    using reopen_survivors [of "Some delete_content" 0 "[]" sample_files PerRecord]
    by (simp add: survivors_def)
  ultimately show ?thesis using delete_content(1) unfolding delete_record_def by blast
qed

text \<open>
  C14. A truncation that cannot flush the writer it closes forgets that the writer held unsynced
  records: the truncation fails, but a later \<open>flush_wal\<close>, the barrier that is to make every record
  durable, finds no open writer and returns Ok without syncing anything, so the same crashes still
  lose the same records.
\<close>

theorem flush_after_failed_truncate:
  assumes "wal_writer l = Some w" and "dirty w" and "faults l = Fail k # fs"
  shows "\<exists>e l1. truncate_retaining_after c n l = (Inl e, l1) \<and> flush_wal l1 = (Inr (), l1) \<and>
    survivors l1 = survivors l"
  using assms
  by (cases "wal l") (simp_all add: truncate_retaining_after_def sbind_def close_writer_def on_live_def sink_sync_def
      flush_wal_def flush_writer_def survivors_def Let_def)

theorem flush_after_failed_truncate_witness:
  "\<exists>l l1. log_ok sample_codec l [\<lparr>seq = 1, entry = Delete [1] ''a''\<rparr>] (contains {}) \<and>
     \<not> ok (fst (truncate_retaining_after sample_codec 0 l)) \<and>
     snd (truncate_retaining_after sample_codec 0 l) = l1 \<and> flush_wal l1 = (Inr (), l1) \<and>
     Some [] \<in> set (survivors l1)"
proof -
  let ?g = "Group 10 1000 None"
  let ?r = "\<lparr>seq = 1, entry = Delete [1] ''a''\<rparr> :: document log_record"
  have "\<exists>l'. append_delete sample_codec [1] ''a'' (sample_log ?g) = (Inr 1, l') \<and>
      (\<exists>w. wal_writer l' = Some w \<and> dirty w) \<and> Some [] \<in> set (survivors l')"
    by (simp add: append_delete_def sbind_def ensure_writer_def sample_log_def
      fresh_log_def wal_bytes_def ret_def open_append_def create_output_append_def io_call_def
      modify_def ensure_name_def sync_wal_storage_def storage_sync_def write_header_def on_live_def
      sink_write_def Let_def empty_file_def write_record_def append_record_bytes_def writer_new_def
      encode_payload_def sample_codec_def sample_files_def ds_open_def ds_new_def flush_writer_def
      sink_sync_def batch_ready_def survivors_def file_survivors_def u64_max_def) force
  then obtain l0 w where l0: "append_delete sample_codec [1] ''a'' (sample_log ?g) = (Inr 1, l0)"
    "wal_writer l0 = Some w" "dirty w" "Some [] \<in> set (survivors l0)" by blast
  let ?l = "l0\<lparr>faults := [Fail 0]\<rparr>"
  from append_delete_keeps [OF sample_codec_ok sample_log_ok(1) sample_log_room(1) l0(1)]
  have "log_ok sample_codec ?l [?r] (contains {})"
    by (simp add: append_result_def log_ok_def sample_log_room)
  moreover obtain e l1 where "truncate_retaining_after sample_codec 0 ?l = (Inl e, l1)"
    "flush_wal l1 = (Inr (), l1)" "survivors l1 = survivors ?l"
    using flush_after_failed_truncate [of ?l w 0 "[]" sample_codec 0] l0 by auto
  ultimately show ?thesis using l0(4) by (intro exI [of _ ?l] exI [of _ l1]) simp
qed

end
