(* ===== verification/Replay.thy ===== *)
theory Replay
  imports Log_Recovery
begin

text \<open>
  The contract between the write-ahead log and an index: what applying a record means for a map from
  document ids to what the index holds of a document, when the content a crash leaves of an index
  is complete up to its checkpoint, and the theorem that replaying the surviving records above the
  checkpoint over such a content gives the replay of the whole history, as \<open>recover\<close> of
  \<^verbatim>\<open>laurus/src/engine.rs\<close> relies on.
\<close>

section \<open>Records as changes\<close>

definition touches :: "document log_record \<Rightarrow> nat \<Rightarrow> bool" where
  "touches r j =
     (case entry r of
        Upsert doc_id external_id doc replaces \<Rightarrow> j = doc_id \<or> j \<in> set replaces
      | Delete doc_ids external_id \<Rightarrow> j \<in> set doc_ids)"

text \<open>\<open>value\<close> is what an index holds of a document, \<open>absent\<close> what it holds of none.\<close>

definition apply_record ::
    "(document \<Rightarrow> 'v) \<Rightarrow> 'v \<Rightarrow> document log_record \<Rightarrow> (nat \<Rightarrow> 'v) \<Rightarrow> nat \<Rightarrow> 'v" where
  "apply_record val absent r content =
     (case entry r of
        Upsert doc_id external_id doc replaces \<Rightarrow>
          (\<lambda>j. if j \<in> set replaces then absent else content j)(doc_id := val doc)
      | Delete doc_ids external_id \<Rightarrow> (\<lambda>j. if j \<in> set doc_ids then absent else content j))"

definition replay ::
    "(document \<Rightarrow> 'v) \<Rightarrow> 'v \<Rightarrow> document log_record list \<Rightarrow> (nat \<Rightarrow> 'v) \<Rightarrow> nat \<Rightarrow> 'v" where
  "replay val absent rs = fold (apply_record val absent) rs"

definition history ::
    "(document \<Rightarrow> 'v) \<Rightarrow> 'v \<Rightarrow> document log_record list \<Rightarrow> nat \<Rightarrow> 'v" where
  "history val absent rs = replay val absent rs (\<lambda>_. absent)"

lemma replay_simps [simp]:
  "replay val absent [] content = content"
  "replay val absent (r # rs) content = replay val absent rs (apply_record val absent r content)"
  "replay val absent (rs @ rs') content = replay val absent rs' (replay val absent rs content)"
  by (simp_all add: replay_def)

lemma apply_untouched: "\<not> touches r j \<Longrightarrow> apply_record val absent r content j = content j"
  by (auto simp: touches_def apply_record_def split: log_entry.splits)

lemma apply_touched:
  "touches r j \<Longrightarrow> apply_record val absent r content j = apply_record val absent r content' j"
  by (auto simp: touches_def apply_record_def split: log_entry.splits)

lemma apply_cong: "content j = content' j \<Longrightarrow>
    apply_record val absent r content j = apply_record val absent r content' j"
  by (cases "touches r j") (auto intro: apply_touched simp: apply_untouched)

lemma replay_cong: "content j = content' j \<Longrightarrow>
    replay val absent rs content j = replay val absent rs content' j"
proof (induction rs arbitrary: content content')
  case (Cons r rs)
  show ?case unfolding replay_simps by (rule Cons.IH) (rule apply_cong, rule Cons.prems)
qed simp

lemma replay_untouched:
  "(\<And>r. r \<in> set rs \<Longrightarrow> \<not> touches r j) \<Longrightarrow> replay val absent rs content j = content j"
  by (induction rs arbitrary: content) (auto simp: apply_untouched)

lemma replay_touched:
  "\<exists>r \<in> set rs. touches r j \<Longrightarrow> replay val absent rs content j = replay val absent rs content' j"
proof (induction rs arbitrary: content content')
  case (Cons r rs)
  show ?case
  proof (cases "touches r j")
    case True
    show ?thesis unfolding replay_simps by (rule replay_cong) (rule apply_touched, rule True)
  next
    case False
    with Cons show ?thesis by simp
  qed
qed simp

lemma replay_filter:
  "(\<And>r. r \<in> set rs \<Longrightarrow> touches r j \<Longrightarrow> P r) \<Longrightarrow>
   replay val absent rs content j = replay val absent (filter P rs) content j"
proof (induction rs arbitrary: content)
  case (Cons r rs)
  have ih: "replay val absent rs c j = replay val absent (filter P rs) c j" for c
    by (rule Cons.IH) (simp add: Cons.prems)
  show ?case
  proof (cases "P r")
    case True
    then show ?thesis by (simp add: ih)
  next
    case False
    with Cons.prems have "\<not> touches r j" by auto
    then have "replay val absent (filter P rs) (apply_record val absent r content) j =
        replay val absent (filter P rs) content j"
      by (intro replay_cong apply_untouched)
    with False show ?thesis by (simp add: ih)
  qed
qed simp

section \<open>Contents complete up to a number\<close>

text \<open>
  A content is complete up to \<open>k\<close> when every document no record above \<open>k\<close> touches is as the whole
  history left it. Of the others nothing is asked: the replay decides them.
\<close>

definition complete_to ::
    "(document \<Rightarrow> 'v) \<Rightarrow> 'v \<Rightarrow> document log_record list \<Rightarrow> nat \<Rightarrow> (nat \<Rightarrow> 'v) \<Rightarrow> bool" where
  "complete_to val absent A k content \<longleftrightarrow>
     (\<forall>j. (\<forall>r \<in> set A. touches r j \<longrightarrow> seq r \<le> k) \<longrightarrow> content j = history val absent A j)"

lemma complete_to_mono:
  "complete_to val absent A k content \<Longrightarrow> k' \<le> k \<Longrightarrow> complete_to val absent A k' content"
  by (fastforce simp: complete_to_def)

lemma complete_to_empty: "complete_to val absent [] k (\<lambda>_. absent)"
  by (simp add: complete_to_def history_def)

lemma complete_to_snoc:
  assumes "complete_to val absent A k content" "k < seq r"
  shows "complete_to val absent (A @ [r]) k content"
  unfolding complete_to_def
proof (intro allI impI)
  fix j
  assume j: "\<forall>r' \<in> set (A @ [r]). touches r' j \<longrightarrow> seq r' \<le> k"
  with assms(2) have "\<not> touches r j" by force
  then have "history val absent (A @ [r]) j = history val absent A j"
    by (simp add: history_def apply_untouched)
  with assms(1) j show "content j = history val absent (A @ [r]) j"
    by (auto simp: complete_to_def)
qed

lemma strictly_sorted_split:
  assumes "sorted_wrt (<) (map seq rs)"
  shows "filter (\<lambda>r. seq r \<le> m) rs @ filter (\<lambda>r. m < seq r) rs = rs"
  using assms
proof (induction rs)
  case (Cons r rs)
  show ?case
  proof (cases "seq r \<le> m")
    case True
    with Cons show ?thesis by simp
  next
    case False
    with Cons.prems have "\<forall>x \<in> set rs. m < seq x" by auto
    then have "filter (\<lambda>r. seq r \<le> m) rs = []" "filter (\<lambda>r. m < seq r) rs = rs"
      by (auto simp: filter_empty_conv not_le intro: filter_True)
    with False show ?thesis by simp
  qed
qed simp

lemma strictly_sorted_same_set:
  "sorted_wrt (<) (map seq xs) \<Longrightarrow> sorted_wrt (<) (map seq ys) \<Longrightarrow> set xs = set ys \<Longrightarrow> xs = ys"
proof (induction xs arbitrary: ys)
  case (Cons x xs)
  then obtain y ys' where ys: "ys = y # ys'" by (cases ys) auto
  have "x = y"
  proof (rule ccontr)
    assume "x \<noteq> y"
    with Cons.prems(3) ys have "x \<in> set ys'" "y \<in> set xs" by auto
    with Cons.prems(1,2) ys have "seq x < seq y" "seq y < seq x" by auto
    then show False by simp
  qed
  moreover have "x \<notin> set xs" "y \<notin> set ys'" using Cons.prems(1,2) ys by auto
  ultimately have "set xs = set ys'" using Cons.prems(3) ys by auto
  with Cons \<open>x = y\<close> ys show ?case by auto
qed simp

section \<open>Surviving records\<close>

text \<open>
  What a crash leaves of the log: the records of \<open>A\<close>, whose append was acknowledged to the engine,
  above some number up to which they may have been truncated, and perhaps some of \<open>U\<close>, whose append
  failed.
\<close>

definition survives ::
    "document log_record list \<Rightarrow> document log_record set \<Rightarrow> nat \<Rightarrow> document log_record list \<Rightarrow> bool" where
  "survives A U n xs \<longleftrightarrow> set xs \<subseteq> set A \<union> U \<and>
     (\<exists>m \<le> n. set A \<inter> set xs = {r \<in> set A. m < seq r})"

lemma survivesI: "set xs \<subseteq> set A \<union> U \<Longrightarrow> m \<le> n \<Longrightarrow> set A \<inter> set xs = {r \<in> set A. m < seq r} \<Longrightarrow>
    survives A U n xs"
  by (auto simp: survives_def)

lemma survivesE:
  assumes "survives A U n xs"
  obtains m where "m \<le> n" "set A \<inter> set xs = {r \<in> set A. m < seq r}" "set xs \<subseteq> set A \<union> U"
  using assms by (auto simp: survives_def)

lemma survives_mono:
  assumes "survives A U n xs" "U \<subseteq> U'" "n \<le> n'"
  shows "survives A U' n' xs"
  using assms(1) by (rule survivesE) (rule survivesI, use assms(2,3) in auto)

lemma survives_extra:
  assumes "survives A U n xs" "r \<notin> set A" "r \<in> U'" "U \<subseteq> U'"
  shows "survives A U' n (xs @ [r])"
  using assms(1) by (rule survivesE) (rule survivesI, use assms(2-4) in auto)

lemma survives_truncated:
  assumes "survives A U n xs"
  shows "survives A U (max n k) (filter (\<lambda>r. k < seq r) xs)"
proof -
  from assms obtain m where m: "m \<le> n" "set A \<inter> set xs = {r \<in> set A. m < seq r}"
    "set xs \<subseteq> set A \<union> U" by (auto simp: survives_def)
  have "set A \<inter> set (filter (\<lambda>r. k < seq r) xs) = {r \<in> set A. max m k < seq r}"
    using m(2) by auto
  then show ?thesis using m(1,3) unfolding survives_def by (intro conjI exI [of _ "max m k"]) auto
qed

theorem replay_recovers:
  assumes A: "sorted_wrt (<) (map seq A)" and xs: "sorted_wrt (<) (map seq xs)"
    and surv: "survives A U n xs"
    and U: "\<forall>r \<in> U. k < seq r \<and> n < seq r"
    and content: "complete_to val absent A k content" "complete_to val absent A n content"
  shows "\<exists>m \<le> n. replay val absent (filter (\<lambda>r. k < seq r) xs) content =
    history val absent (filter (\<lambda>r. seq r \<le> m) A @ xs)"
proof -
  from surv obtain m where m: "m \<le> n" "set A \<inter> set xs = {r \<in> set A. m < seq r}"
    "set xs \<subseteq> set A \<union> U" by (auto simp: survives_def)
  let ?H = "filter (\<lambda>r. seq r \<le> m) A @ xs"
  have "replay val absent (filter (\<lambda>r. k < seq r) xs) content j = history val absent ?H j" for j
  proof (cases "\<exists>r \<in> set xs. k < seq r \<and> touches r j")
    case True
    let ?low = "filter (\<lambda>r. seq r \<le> k) xs" and ?high = "filter (\<lambda>r. k < seq r) xs"
    have "history val absent ?H j =
        replay val absent ?high (replay val absent (filter (\<lambda>r. seq r \<le> m) A @ ?low) (\<lambda>_. absent)) j"
      by (simp add: history_def flip: replay_simps(3)) (simp add: strictly_sorted_split [OF xs])
    also have "\<dots> = replay val absent ?high content j"
      using True by (intro replay_touched) auto
    finally show ?thesis by simp
  next
    case False
    then have "replay val absent (filter (\<lambda>r. k < seq r) xs) content j = content j"
      by (intro replay_untouched) auto
    moreover have "content j = history val absent A j"
    proof (cases "k \<le> n")
      case True
      have "seq r \<le> n" if "r \<in> set A" "touches r j" for r
      proof (cases "r \<in> set xs")
        case True
        with False that \<open>k \<le> n\<close> show ?thesis by force
      next
        case False
        with m that show ?thesis by (metis (mono_tags, lifting) IntI Int_iff le_trans mem_Collect_eq not_le)
      qed
      with content(2) show ?thesis by (auto simp: complete_to_def)
    next
      case kn: False
      have "seq r \<le> k" if "r \<in> set A" "touches r j" for r
      proof (cases "r \<in> set xs")
        case True
        with False that show ?thesis by force
      next
        case False
        with m that have "\<not> m < seq r" by blast
        with m(1) kn show ?thesis by simp
      qed
      with content(1) show ?thesis by (auto simp: complete_to_def)
    qed
    moreover have "history val absent ?H j = history val absent A j"
    proof -
      have sub: "r \<in> set A" if "r \<in> set xs" "touches r j" for r
        using that False U m(3) by force
      have "history val absent ?H j = history val absent (filter (\<lambda>r. r \<in> set A) ?H) j"
        unfolding history_def using sub by (intro replay_filter) auto
      moreover have "filter (\<lambda>r. r \<in> set A) xs = filter (\<lambda>r. m < seq r) A"
        using A xs m(2) by (intro strictly_sorted_same_set) (auto simp: sorted_wrt_map sorted_wrt_filter)
      moreover have "filter (\<lambda>r. r \<in> set A) (filter (\<lambda>r. seq r \<le> m) A) = filter (\<lambda>r. seq r \<le> m) A"
        by (rule filter_True) simp
      ultimately show ?thesis by (simp only: filter_append strictly_sorted_split [OF A])
    qed
    ultimately show ?thesis by simp
  qed
  with m(1) show ?thesis by blast
qed

end
