(* ===== verification/Index_Contract.thy ===== *)
theory Index_Contract
  imports Replay
begin

text \<open>
  What the engine relies on of an index that keeps changes in memory and publishes them, with a
  checkpoint, when it commits: the interface \<open>checkpointed_index\<close>, whose laws the lexical store and
  every field of the vector store fulfil, and the lemmas about it that the engine's recovery rests
  on. A commit has two phases, \<open>seal\<close>, which writes what is buffered, and \<open>publish\<close>, which makes it
  durable together with the checkpoint; either may fail after having written part.

  \<open>crashes s\<close> holds every content, with its checkpoint, that a crash may leave of \<open>s\<close>; \<open>unsaved s\<close> the
  documents changed since the files were last complete; \<open>level s\<close> the highest checkpoint the files
  may carry.
\<close>

section \<open>The interface\<close>

definition touch_only ::
    "('s \<Rightarrow> nat \<Rightarrow> 'v) \<Rightarrow> ('s \<Rightarrow> nat \<Rightarrow> 'v) \<Rightarrow> ('s \<Rightarrow> nat) \<Rightarrow> ('s \<Rightarrow> nat set) \<Rightarrow>
     ('s \<Rightarrow> ((nat \<Rightarrow> 'v) \<times> nat) set) \<Rightarrow> nat \<Rightarrow> 's \<Rightarrow> 's \<Rightarrow> bool" where
  "touch_only view published level unsaved crashes i s s' \<longleftrightarrow>
     (\<forall>j. j \<noteq> i \<longrightarrow> view s' j = view s j) \<and> unsaved s' \<subseteq> insert i (unsaved s) \<and>
     published s' = published s \<and> level s' = level s \<and> crashes s' = crashes s"

definition candidates ::
    "('s \<Rightarrow> nat \<Rightarrow> 'v) \<Rightarrow> ('s \<Rightarrow> nat \<Rightarrow> 'v) \<Rightarrow> ('s \<Rightarrow> nat) \<Rightarrow> ('s \<Rightarrow> nat set) \<Rightarrow>
     nat \<Rightarrow> 's \<Rightarrow> ((nat \<Rightarrow> 'v) \<times> nat) set" where
  "candidates view published level unsaved w s =
     {(content, k). k \<le> level s \<and> (\<forall>i. i \<notin> unsaved s \<longrightarrow> content i = published s i)} \<union>
     {(content, k). content = view s \<and> k \<le> max (level s) w}"

definition moved ::
    "('s \<Rightarrow> nat \<Rightarrow> 'v) \<Rightarrow> ('s \<Rightarrow> nat \<Rightarrow> 'v) \<Rightarrow> ('s \<Rightarrow> nat) \<Rightarrow> ('s \<Rightarrow> nat set) \<Rightarrow>
     ('s \<Rightarrow> ((nat \<Rightarrow> 'v) \<times> nat) set) \<Rightarrow> nat \<Rightarrow> 's \<Rightarrow> 's \<Rightarrow> bool" where
  "moved view published level unsaved crashes w s s' \<longleftrightarrow>
     view s' = view s \<and> crashes s' \<subseteq> crashes s \<union> candidates view published level unsaved w s \<and>
     (level s' = level s \<and> unsaved s' \<subseteq> unsaved s \<or>
      published s' = view s \<and> unsaved s' = {} \<and> level s' \<le> max (level s) w)"

locale checkpointed_index =
  fixes inv :: "'s \<Rightarrow> bool"
    and view :: "'s \<Rightarrow> nat \<Rightarrow> 'v"
    and published :: "'s \<Rightarrow> nat \<Rightarrow> 'v"
    and level :: "'s \<Rightarrow> nat"
    and unsaved :: "'s \<Rightarrow> nat set"
    and crashes :: "'s \<Rightarrow> ((nat \<Rightarrow> 'v) \<times> nat) set"
    and sealed :: "'s \<Rightarrow> bool"
    and holds :: "'p \<Rightarrow> 'v"
    and absent :: 'v
    and add :: "nat \<Rightarrow> 'p \<Rightarrow> ('s, unit) io"
    and remove :: "nat \<Rightarrow> ('s, unit) io"
    and seal :: "nat \<Rightarrow> ('s, unit) io"
    and publish :: "nat \<Rightarrow> ('s, unit) io"
  assumes agree: "inv s \<Longrightarrow> i \<notin> unsaved s \<Longrightarrow> published s i = view s i"
    and add_law: "inv s \<Longrightarrow> post (add i p) s (\<lambda>r s'. inv s' \<and>
      touch_only view published level unsaved crashes i s s' \<and> (ok r \<longrightarrow> view s' i = holds p))"
    and remove_law: "inv s \<Longrightarrow> post (remove i) s (\<lambda>r s'. inv s' \<and>
      touch_only view published level unsaved crashes i s s' \<and> (ok r \<longrightarrow> view s' i = absent))"
    and seal_law: "inv s \<Longrightarrow> post (seal w) s (\<lambda>r s'. inv s' \<and>
      moved view published level unsaved crashes w s s' \<and> (ok r \<longrightarrow> sealed s'))"
    and publish_law: "inv s \<Longrightarrow> sealed s \<Longrightarrow> post (publish w) s (\<lambda>r s'. inv s' \<and>
      moved view published level unsaved crashes w s s' \<and>
      (ok r \<longrightarrow> unsaved s' = {} \<and> (\<forall>(c, k) \<in> crashes s'. c = published s' \<and> k \<le> level s')))"
begin

text \<open>
  How an index stands to the history \<open>A\<close> of records: its files are complete up to \<open>G\<close>, every content
  a crash may leave is complete up to its own checkpoint, at most \<open>W\<close>, and up to \<open>C\<close>, and whatever
  the index has not published is touched by a record above \<open>G\<close>.
\<close>

definition tracks ::
    "(document \<Rightarrow> 'v) \<Rightarrow> document log_record list \<Rightarrow> nat \<Rightarrow> nat \<Rightarrow> nat \<Rightarrow> 's \<Rightarrow> bool" where
  "tracks val A C G W s \<longleftrightarrow> inv s \<and> C \<le> G \<and> level s \<le> G \<and> G \<le> W \<and>
     (\<forall>i \<in> unsaved s. \<exists>r \<in> set A. touches r i \<and> G < seq r) \<and>
     complete_to val absent A G (published s) \<and>
     (\<forall>(c, k) \<in> crashes s. k \<le> W \<and> complete_to val absent A k c \<and> complete_to val absent A C c)"

lemma tracks_record:
  assumes "tracks val A C G W s" "W < seq r"
  shows "tracks val (A @ [r]) C G W s"
proof -
  have "complete_to val absent (A @ [r]) k c" if "complete_to val absent A k c" "k \<le> W" for k c
    using complete_to_snoc that assms(2) by fastforce
  with assms(1) show ?thesis unfolding tracks_def by (fastforce split: prod.splits)
qed

lemma tracks_touched:
  assumes "tracks val A C G W s" "inv s'" "touch_only view published level unsaved crashes i s s'"
    and "r \<in> set A" "touches r i" "G < seq r"
  shows "tracks val A C G W s'"
proof -
  have "\<exists>r \<in> set A. touches r j \<and> G < seq r" if "j \<in> unsaved s'" for j
  proof (cases "j = i")
    case True
    then show ?thesis using assms(4-6) by blast
  next
    case False
    with that assms(3) have "j \<in> unsaved s" by (auto simp: touch_only_def)
    with assms(1) show ?thesis by (simp add: tracks_def)
  qed
  with assms(1-3) show ?thesis by (simp add: tracks_def touch_only_def)
qed

text \<open>What the files and the memory hold of a document no record above \<open>G\<close> touches.\<close>

lemma tracks_settled:
  assumes "tracks val A C G W s" "\<forall>r \<in> set A. touches r i \<longrightarrow> seq r \<le> G"
  shows "i \<notin> unsaved s" "view s i = history val absent A i" "published s i = history val absent A i"
proof -
  show d: "i \<notin> unsaved s" using assms by (force simp: tracks_def)
  show p: "published s i = history val absent A i"
    using assms by (auto simp: tracks_def complete_to_def)
  show "view s i = history val absent A i"
    using agree [of s i] assms(1) d p by (simp add: tracks_def)
qed

lemma view_complete:
  assumes "tracks val A C G W s" "complete_to val absent A w (view s)"
  shows "complete_to val absent A (max G w) (view s)"
  using assms(2) tracks_settled(2) [OF assms(1)]
  unfolding complete_to_def by (cases "G \<le> w") (simp_all add: max_def)

lemma candidate_complete:
  assumes "tracks val A C G W s" "complete_to val absent A w (view s)"
    and "(c, k) \<in> candidates view published level unsaved w s"
  shows "k \<le> max W w" "complete_to val absent A k c" "complete_to val absent A C c"
proof -
  note settled = tracks_settled [OF assms(1)]
  have b: "level s \<le> G" "C \<le> G" "G \<le> W" using assms(1) by (simp_all add: tracks_def)
  have off: "c i = history val absent A i" if "\<forall>r \<in> set A. touches r i \<longrightarrow> seq r \<le> G" for i
    using assms(3) settled [OF that] by (auto simp: candidates_def)
  have old: "complete_to val absent A m c" if "m \<le> G" for m
    unfolding complete_to_def
  proof (intro allI impI)
    fix i
    assume "\<forall>r \<in> set A. touches r i \<longrightarrow> seq r \<le> m"
    with that have "\<forall>r \<in> set A. touches r i \<longrightarrow> seq r \<le> G" by auto
    then show "c i = history val absent A i" by (rule off)
  qed
  show "k \<le> max W w" using assms(3) b by (auto simp: candidates_def)
  show "complete_to val absent A C c" using old b by simp
  show "complete_to val absent A k c"
  proof (cases "k \<le> G")
    case False
    with assms(3) b have c: "c = view s" "k \<le> w" by (auto simp: candidates_def)
    show ?thesis unfolding c(1) using assms(2) c(2) by (rule complete_to_mono)
  qed (rule old)
qed

lemma tracks_moved:
  assumes t: "tracks val A C G W s" "complete_to val absent A w (view s)"
    and m: "inv s'" "moved view published level unsaved crashes w s s'"
  shows "\<exists>G'. G \<le> G' \<and> G' \<le> max G w \<and> tracks val A C G' (max W w) s'"
proof -
  note settled = tracks_settled [OF t(1)]
  have b: "level s \<le> G" "C \<le> G" "G \<le> W" using t(1) by (simp_all add: tracks_def)
  have crash: "k \<le> max W w \<and> complete_to val absent A k c \<and> complete_to val absent A C c"
    if "(c, k) \<in> crashes s'" for c k
    using that t(1) m(2) candidate_complete [OF t, of c k]
    by (force simp: tracks_def moved_def)
  consider (kept) "level s' = level s" "unsaved s' \<subseteq> unsaved s" "view s' = view s"
    | (all) "published s' = view s" "unsaved s' = {}" "level s' \<le> max (level s) w"
    using m(2) by (auto simp: moved_def)
  then show ?thesis
  proof cases
    case kept
    have "published s' i = history val absent A i" if "\<forall>r \<in> set A. touches r i \<longrightarrow> seq r \<le> G" for i
      using settled [OF that] agree [OF m(1), of i] kept by auto
    then have "complete_to val absent A G (published s')" by (simp add: complete_to_def)
    then have "tracks val A C G (max W w) s'"
      using kept t(1) m(1) crash by (auto simp: tracks_def)
    then show ?thesis by force
  next
    case all
    then have "tracks val A C (max G w) (max W w) s'"
      using view_complete [OF t] m(1) crash b by (auto simp: tracks_def)
    then show ?thesis by (intro exI [of _ "max G w"]) simp
  qed
qed

text \<open>A commit that succeeds: everything is on the disk, complete up to its checkpoint.\<close>

lemma tracks_published:
  assumes t: "tracks val A C G W s" "complete_to val absent A w (view s)"
    and m: "inv s'" "moved view published level unsaved crashes w s s'"
    and d: "unsaved s' = {}" "\<forall>(c, k) \<in> crashes s'. c = published s' \<and> k \<le> level s'"
  shows "tracks val A (max C w) (max G w) (max W w) s'"
proof -
  obtain G' where G': "G \<le> G'" "G' \<le> max G w" "tracks val A C G' (max W w) s'"
    using tracks_moved [OF t m] by blast
  have "published s' = view s'" using agree [OF m(1)] d(1) by auto
  then have c: "complete_to val absent A (max G w) (published s')"
    using view_complete [OF t] m(2) by (simp add: moved_def)
  then have "complete_to val absent A (max C w) (published s')"
    by (rule complete_to_mono) (use t(1) in \<open>auto simp: tracks_def\<close>)
  with c d G' t(1) show ?thesis
    by (fastforce simp: tracks_def)
qed

text \<open>The two phases of a commit, as they are used.\<close>

lemma seal_tracks:
  assumes "tracks val A C G W s" "complete_to val absent A w (view s)" "seal w s = (r, s')"
  shows "view s' = view s \<and> (ok r \<longrightarrow> sealed s') \<and>
    (\<exists>G'. G \<le> G' \<and> G' \<le> max G w \<and> tracks val A C G' (max W w) s')"
proof -
  have "inv s" using assms(1) by (simp add: tracks_def)
  from postD [OF seal_law [OF this] assms(3)] tracks_moved [OF assms(1,2)]
  show ?thesis by (auto simp: moved_def)
qed

lemma publish_tracks:
  assumes "tracks val A C G W s" "complete_to val absent A w (view s)" "sealed s"
    "publish w s = (r, s')"
  shows "view s' = view s \<and>
    (if ok r then tracks val A (max C w) (max G w) (max W w) s'
     else \<exists>G'. G \<le> G' \<and> G' \<le> max G w \<and> tracks val A C G' (max W w) s')"
proof -
  have "inv s" using assms(1) by (simp add: tracks_def)
  note p = postD [OF publish_law [OF this assms(3)] assms(4)]
  then show ?thesis
    using tracks_moved [OF assms(1,2)] tracks_published [OF assms(1,2)] by (auto simp: moved_def)
qed

lemma add_tracks:
  assumes "tracks val A C G W s" "rec \<in> set A" "touches rec i" "G < seq rec" "add i p s = (r, s')"
  shows "tracks val A C G W s' \<and> (\<forall>j. j \<noteq> i \<longrightarrow> view s' j = view s j) \<and> (ok r \<longrightarrow> view s' i = holds p)"
proof -
  have "inv s" using assms(1) by (simp add: tracks_def)
  from postD [OF add_law [OF this] assms(5)] show ?thesis
    using tracks_touched [OF assms(1) _ _ assms(2-4)] by (auto simp: touch_only_def)
qed

lemma remove_tracks:
  assumes "tracks val A C G W s" "rec \<in> set A" "touches rec i" "G < seq rec" "remove i s = (r, s')"
  shows "tracks val A C G W s' \<and> (\<forall>j. j \<noteq> i \<longrightarrow> view s' j = view s j) \<and> (ok r \<longrightarrow> view s' i = absent)"
proof -
  have "inv s" using assms(1) by (simp add: tracks_def)
  from postD [OF remove_law [OF this] assms(5)] show ?thesis
    using tracks_touched [OF assms(1) _ _ assms(2-4)] by (auto simp: touch_only_def)
qed

text \<open>Recovery: replaying the surviving records over what a crash left.\<close>

lemma crash_replay:
  assumes "tracks val A C G W s" "(c, k) \<in> crashes s" "n \<le> C"
    and "sorted_wrt (<) (map seq A)" "sorted_wrt (<) (map seq xs)" "survives A U n xs"
    and "\<forall>r \<in> U. W < seq r"
  shows "\<exists>m \<le> n. replay val absent (filter (\<lambda>r. k < seq r) xs) c =
    history val absent (filter (\<lambda>r. seq r \<le> m) A @ xs)"
proof (rule replay_recovers [OF assms(4-6)])
  have b: "C \<le> W" "k \<le> W" using assms(1,2) by (auto simp: tracks_def)
  then show "\<forall>r \<in> U. k < seq r \<and> n < seq r" using assms(3,7) by force
  have c: "complete_to val absent A k c \<and> complete_to val absent A C c"
    using assms(1,2) by (auto simp: tracks_def)
  then show "complete_to val absent A k c" by simp
  from c have "complete_to val absent A C c" by simp
  then show "complete_to val absent A n c" by (rule complete_to_mono) (rule assms(3))
qed

end

end
