(* ===== verification/Lexical_Store.thy ===== *)
theory Lexical_Store
  imports Index_Contract "HOL-Library.AList"
begin

text \<open>
  The lexical store, \<^verbatim>\<open>laurus/src/lexical/store.rs\<close>, with the parts of the index writer
  (\<^verbatim>\<open>laurus/src/lexical/index/inverted/writer.rs\<close>) that decide what is pending and what a commit
  leaves: the buffer, the segments flushed from it, the deletion bitmaps, the manifest and the
  metadata with the WAL checkpoint. What the analyzer makes of a document is the type \<open>'p\<close>, and a
  segment is the list of the analyzed documents it holds with those its bitmap marks deleted; the
  byte layout of a segment's files is not modelled, nor is the automatic merge after a commit, which
  rewrites live documents and whose failure a commit ignores.

  A call of the storage takes its outcome from \<open>lex_faults\<close>. A failed write of the deletions has
  written those of some documents; a failed save of the manifest or of the metadata may have renamed
  the file and failed to sync it. \<open>lex_undo\<close> holds what the files were since the last sync of the
  storage, to which a crash may bring them back.
\<close>

section \<open>State\<close>

datatype index_fault = Works | Fails (written: "nat list") (partway: bool)

record 'p segment =
  held :: "(nat \<times> 'p) list"
  marks :: "nat list"

record index_metadata =
  doc_count :: nat
  deleted_count :: nat
  last_wal_seq :: nat

record 'p index_disk =
  manifest :: "'p segment list"
  metadata :: index_metadata

record 'p lexical_writer =
  buffered_docs :: "(nat \<times> 'p) list"
  pending_publish :: "'p segment list"
  retained_segments :: "'p segment list"
  dirty_marks :: "nat list"
  pending_deletions :: "nat list"
  writer_wal_seq :: nat

record 'p lexical_store =
  lex_disk :: "'p index_disk"
  lex_undo :: "'p index_disk list"
  shared_metadata :: index_metadata
  writer_cache :: "'p lexical_writer option"
  lex_faults :: "index_fault list"

text \<open>
  The live documents of a list of segments, the newest segment first; the documents of the index
  that the files hold; and what a writer has not published.
\<close>

definition without :: "nat list \<Rightarrow> (nat \<times> 'p) list \<Rightarrow> (nat \<times> 'p) list" where
  "without ids ds = filter (\<lambda>(i, p). i \<notin> set ids) ds"

definition live :: "'p segment \<Rightarrow> (nat \<times> 'p) list" where
  "live sg = without (marks sg) (held sg)"

definition live_docs :: "'p segment list \<Rightarrow> (nat \<times> 'p) list" where
  "live_docs sgs = concat (map live (rev sgs))"

abbreviation contents :: "'p index_disk \<Rightarrow> (nat \<times> 'p) list" where
  "contents d \<equiv> live_docs (manifest d)"

abbreviation wal_seq :: "'p index_disk \<Rightarrow> nat" where
  "wal_seq d \<equiv> last_wal_seq (metadata d)"

definition pending :: "'p lexical_writer \<Rightarrow> (nat \<times> 'p) list" where
  "pending w = buffered_docs w @ live_docs (pending_publish w)"

definition holds_doc :: "nat \<Rightarrow> 'p segment \<Rightarrow> bool" where
  "holds_doc i sg \<longleftrightarrow> i \<in> fst ` set (held sg)"

definition mark :: "nat list \<Rightarrow> 'p segment \<Rightarrow> 'p segment" where
  "mark ids sg = sg\<lparr>marks := filter (\<lambda>i. holds_doc i sg) ids @ marks sg\<rparr>"

text \<open>A store opened on what the disk holds, and the files of a new index.\<close>

definition lex_open :: "'p index_disk \<Rightarrow> index_fault list \<Rightarrow> 'p lexical_store" where
  "lex_open d fs = \<lparr>lex_disk = d, lex_undo = [], shared_metadata = metadata d, writer_cache = None,
     lex_faults = fs\<rparr>"

definition lex_empty :: "'p index_disk" where
  "lex_empty = \<lparr>manifest = [], metadata = \<lparr>doc_count = 0, deleted_count = 0, last_wal_seq = 0\<rparr>\<rparr>"

definition lex_io ::
    "string \<Rightarrow> ('p lexical_store \<Rightarrow> 'p lexical_store) \<Rightarrow>
     (nat list \<Rightarrow> bool \<Rightarrow> 'p lexical_store \<Rightarrow> 'p lexical_store) \<Rightarrow> ('p lexical_store, unit) io" where
  "lex_io what done failed s =
     (case lex_faults s of
        Fails ids b # fs \<Rightarrow> (Inl (Io what), failed ids b (s\<lparr>lex_faults := fs\<rparr>))
      | fs \<Rightarrow> (Inr (), done (s\<lparr>lex_faults := tl fs\<rparr>)))"

definition set_disk :: "'p index_disk \<Rightarrow> 'p lexical_store \<Rightarrow> 'p lexical_store" where
  "set_disk d s = s\<lparr>lex_disk := d, lex_undo := lex_disk s # lex_undo s\<rparr>"

section \<open>The writer\<close>

definition lexical_writer_new :: "nat \<Rightarrow> 'p lexical_writer" where
  "lexical_writer_new seq_no =
     \<lparr>buffered_docs = [], pending_publish = [], retained_segments = [], dirty_marks = [],
      pending_deletions = [], writer_wal_seq = seq_no\<rparr>"

definition lex_cached_writer :: "('p lexical_store, unit) io" where
  "lex_cached_writer s =
     (if writer_cache s = None then
        lex_io ''creating the writer failed''
          (\<lambda>s. s\<lparr>writer_cache := Some (lexical_writer_new (last_wal_seq (shared_metadata s)))\<rparr>)
          (\<lambda>_ _ s. s) s
      else (Inr (), s))"

definition on_writer :: "('p lexical_writer \<Rightarrow> 'p lexical_writer) \<Rightarrow> 'p lexical_store \<Rightarrow> 'p lexical_store" where
  "on_writer f s = s\<lparr>writer_cache := map_option f (writer_cache s)\<rparr>"

definition remove_pending_document :: "nat \<Rightarrow> 'p lexical_writer \<Rightarrow> 'p lexical_writer" where
  "remove_pending_document i w = w\<lparr>buffered_docs := AList.delete i (buffered_docs w)\<rparr>"

text \<open>The committed segments and those the writer flushed that hold a document.\<close>

definition find_segments_for_doc :: "nat \<Rightarrow> 'p lexical_store \<Rightarrow> 'p lexical_writer \<Rightarrow> 'p segment list" where
  "find_segments_for_doc i s w =
     filter (holds_doc i) (manifest (lex_disk s) @ pending_publish w)"

text \<open>
  The bitmaps a deletion sets. Those of the committed segments stay in memory until the commit
  writes them.
\<close>

definition mark_in_segments :: "nat \<Rightarrow> 'p lexical_writer \<Rightarrow> 'p lexical_writer" where
  "mark_in_segments i w =
     w\<lparr>pending_publish := map (mark [i]) (pending_publish w),
       retained_segments := map (mark [i]) (retained_segments w),
       dirty_marks := List.insert i (dirty_marks w)\<rparr>"

definition mark_persisted_doc_deleted :: "nat \<Rightarrow> ('p lexical_store, unit) io" where
  "mark_persisted_doc_deleted i s =
     (case writer_cache s of
        None \<Rightarrow> (Inr (), s)
      | Some w \<Rightarrow>
          if find_segments_for_doc i s w = [] then (Inr (), s)
          else lex_io ''marking the document deleted failed''
                 (on_writer (\<lambda>w. (mark_in_segments i w)\<lparr>pending_deletions :=
                    List.insert i (pending_deletions w)\<rparr>))
                 (\<lambda>_ b s. if b then on_writer (mark_in_segments i) s else s) s)"

definition writer_delete_document :: "nat \<Rightarrow> ('p lexical_store, unit) io" where
  "writer_delete_document i =
     sbind (modify (on_writer (remove_pending_document i))) (\<lambda>_. mark_persisted_doc_deleted i)"

definition buffer_analyzed :: "nat \<Rightarrow> 'p \<Rightarrow> 'p lexical_writer \<Rightarrow> 'p lexical_writer" where
  "buffer_analyzed i doc w = w\<lparr>buffered_docs := buffered_docs w @ [(i, doc)]\<rparr>"

definition buffer_analyzed_document :: "nat \<Rightarrow> 'p \<Rightarrow> ('p lexical_store, unit) io" where
  "buffer_analyzed_document i doc =
     sbind (modify (on_writer (remove_pending_document i)))
       (\<lambda>_. sbind (mark_persisted_doc_deleted i)
         (\<lambda>_. modify (on_writer (buffer_analyzed i doc))))"

text \<open>Flushing the buffer writes a segment that only the commit publishes.\<close>

definition flush_buffer :: "'p lexical_writer \<Rightarrow> 'p lexical_writer" where
  "flush_buffer w =
     w\<lparr>pending_publish := pending_publish w @ [\<lparr>held = buffered_docs w, marks = []\<rparr>],
       buffered_docs := []\<rparr>"

definition flush_segment :: "('p lexical_store, unit) io" where
  "flush_segment s =
     (case writer_cache s of
        None \<Rightarrow> (Inr (), s)
      | Some w \<Rightarrow>
          if buffered_docs w = [] then (Inr (), s)
          else lex_io ''writing the segment failed'' (on_writer flush_buffer) (\<lambda>_ _ s. s) s)"

text \<open>\<open>full\<close> stands for the bounds on the number and the memory of the buffered documents.\<close>

definition flush_if_full :: "('p lexical_writer \<Rightarrow> bool) \<Rightarrow> ('p lexical_store, unit) io" where
  "flush_if_full full s =
     (case writer_cache s of
        None \<Rightarrow> (Inr (), s)
      | Some w \<Rightarrow> if full w then flush_segment s else (Inr (), s))"

text \<open>
  The writer's commit: the buffer becomes a segment, the deletions are written, the flushed segments
  are published in the manifest, and last the metadata with the checkpoint is saved.
\<close>

definition drop_deletions :: "nat list \<Rightarrow> 'p lexical_store \<Rightarrow> 'p lexical_store" where
  "drop_deletions ids s =
     (let d = lex_disk s
      in on_writer (\<lambda>w. w\<lparr>dirty_marks := filter (\<lambda>i. i \<notin> set ids) (dirty_marks w)\<rparr>)
           (set_disk (d\<lparr>manifest := map (mark ids) (manifest d)\<rparr>) s))"

definition flush_deletions :: "('p lexical_store, unit) io" where
  "flush_deletions s =
     (case writer_cache s of
        None \<Rightarrow> (Inr (), s)
      | Some w \<Rightarrow>
          if dirty_marks w = [] then (Inr (), s)
          else lex_io ''writing the deletions failed'' (drop_deletions (dirty_marks w))
                 (\<lambda>ids _. drop_deletions (filter (\<lambda>i. i \<in> set ids) (dirty_marks w))) s)"

definition with_segments :: "'p segment list \<Rightarrow> 'p index_disk \<Rightarrow> 'p index_disk" where
  "with_segments sgs d = d\<lparr>manifest := manifest d @ sgs\<rparr>"

definition publish_pending_segments :: "('p lexical_store, unit) io" where
  "publish_pending_segments s =
     (case writer_cache s of
        None \<Rightarrow> (Inr (), s)
      | Some w \<Rightarrow>
          if pending_publish w = [] then (Inr (), s)
          else lex_io ''saving the manifest failed''
                 (\<lambda>s. on_writer (\<lambda>w. w\<lparr>retained_segments := retained_segments w @ pending_publish w,
                                        pending_publish := []\<rparr>)
                        (set_disk (with_segments (pending_publish w) (lex_disk s)) s))
                 (\<lambda>_ b s. if b then s\<lparr>lex_undo := with_segments (pending_publish w) (lex_disk s) # lex_undo s\<rparr>
                          else s) s)"

text \<open>
  The document and deletion counts are sums over the manifest; a commit that changes neither them
  nor the checkpoint saves nothing.
\<close>

definition index_counts :: "'p segment list \<Rightarrow> nat \<times> nat" where
  "index_counts sgs =
     foldl (\<lambda>(n, k) sg. (n + length (held sg),
                          k + length (filter (\<lambda>(i, p). i \<in> set (marks sg)) (held sg)))) (0, 0) sgs"

definition write_metadata_json :: "('p lexical_store, unit) io" where
  "write_metadata_json s =
     (case writer_cache s of
        None \<Rightarrow> (Inr (), s)
      | Some w \<Rightarrow>
          let m = shared_metadata s;
              (docs_no, deleted_no) = index_counts (manifest (lex_disk s));
              m' = \<lparr>doc_count = docs_no, deleted_count = deleted_no,
                    last_wal_seq = max (last_wal_seq m) (writer_wal_seq w)\<rparr>;
              d = (lex_disk s)\<lparr>metadata := m'\<rparr>
          in if doc_count m = docs_no \<and> deleted_count m = deleted_no \<and> writer_wal_seq w \<le> last_wal_seq m
             then (Inr (), s)
             else lex_io ''saving the metadata failed''
                    (\<lambda>s. (set_disk d s)\<lparr>shared_metadata := m'\<rparr>)
                    (\<lambda>_ b s. if b then set_disk d s else s) s)"

definition writer_commit :: "('p lexical_store, unit) io" where
  "writer_commit =
     sbind flush_segment
       (\<lambda>_. sbind flush_deletions
         (\<lambda>_. sbind publish_pending_segments
           (\<lambda>_. sbind write_metadata_json
             (\<lambda>_. modify (on_writer (\<lambda>w. w\<lparr>retained_segments := [], pending_deletions := []\<rparr>))))))"

section \<open>The store\<close>

definition lex_prepare_upsert ::
    "('p lexical_writer \<Rightarrow> bool) \<Rightarrow> (document \<Rightarrow> 'p res) \<Rightarrow> document \<Rightarrow> ('p lexical_store, 'p) io" where
  "lex_prepare_upsert full analyze doc =
     sbind lex_cached_writer
       (\<lambda>_ s. case analyze doc of
                Inl e \<Rightarrow> (Inl e, s)
              | Inr analyzed \<Rightarrow> sbind (flush_if_full full) (\<lambda>_. ret analyzed) s)"

definition apply_prepared_upsert :: "nat \<Rightarrow> 'p \<Rightarrow> ('p lexical_store, unit) io" where
  "apply_prepared_upsert i doc = sbind lex_cached_writer (\<lambda>_. buffer_analyzed_document i doc)"

definition lex_delete_document :: "nat \<Rightarrow> ('p lexical_store, unit) io" where
  "lex_delete_document i = sbind lex_cached_writer (\<lambda>_. writer_delete_document i)"

definition abandon_writer :: "'p lexical_store \<Rightarrow> 'p lexical_store" where
  "abandon_writer s = s\<lparr>writer_cache := None\<rparr>"

definition set_pending_wal_seq :: "nat \<Rightarrow> 'p lexical_store \<Rightarrow> 'p lexical_store" where
  "set_pending_wal_seq seq_no = on_writer (\<lambda>w. w\<lparr>writer_wal_seq := seq_no\<rparr>)"

text \<open>
  The documents with an external id: those the writer holds, in its buffer or in segments it flushed,
  then the committed ones it has not superseded. \<open>id_of\<close> reads the \<open>_id\<close> term of an analyzed
  document.
\<close>

definition matching_ids :: "('p \<Rightarrow> string option) \<Rightarrow> string \<Rightarrow> (nat \<times> 'p) list \<Rightarrow> nat list" where
  "matching_ids id_of external_id ds = map fst (filter (\<lambda>(i, p). id_of p = Some external_id) ds)"

definition push_new :: "nat \<Rightarrow> nat list \<Rightarrow> nat list" where
  "push_new i ids = (if i \<in> set ids then ids else ids @ [i])"

definition writer_find_doc_ids :: "('p \<Rightarrow> string option) \<Rightarrow> string \<Rightarrow> 'p lexical_writer \<Rightarrow> nat list" where
  "writer_find_doc_ids id_of external_id w =
     fold push_new
       (matching_ids id_of external_id (buffered_docs w) @
        concat (map (\<lambda>sg. matching_ids id_of external_id (live sg))
          (retained_segments w @ pending_publish w))) []"

definition find_doc_ids :: "('p \<Rightarrow> string option) \<Rightarrow> string \<Rightarrow> 'p lexical_store \<Rightarrow> nat list" where
  "find_doc_ids id_of external_id s =
     (let ids = (case writer_cache s of None \<Rightarrow> [] | Some w \<Rightarrow> writer_find_doc_ids id_of external_id w);
          superseded = (case writer_cache s of None \<Rightarrow> [] | Some w \<Rightarrow> pending_deletions w)
      in fold (\<lambda>i ids. if i \<in> set superseded then ids else push_new i ids)
           (matching_ids id_of external_id (contents (lex_disk s))) ids)"

text \<open>The commit: everything up to the writer's commit, then the syncs of the storage.\<close>

definition lex_seal :: "nat \<Rightarrow> ('p lexical_store, unit) io" where
  "lex_seal seq_no s =
     (case writer_cache s of
        None \<Rightarrow> (Inr (), s)
      | Some w \<Rightarrow>
          sbind (modify (set_pending_wal_seq seq_no))
            (\<lambda>_. sbind writer_commit (\<lambda>_. modify (\<lambda>s. s\<lparr>writer_cache := None\<rparr>))) s)"

definition lex_sync :: "('p lexical_store, unit) io" where
  "lex_sync = lex_io ''syncing the storage failed'' (\<lambda>s. s\<lparr>lex_undo := []\<rparr>) (\<lambda>_ _ s. s)"

definition finish_commit :: "('p lexical_store, unit) io" where
  "finish_commit = sbind lex_sync (\<lambda>_. lex_sync)"

definition lex_commit_through :: "nat \<Rightarrow> ('p lexical_store, unit) io" where
  "lex_commit_through seq_no = sbind (lex_seal seq_no) (\<lambda>_. finish_commit)"

section \<open>Meaning\<close>

definition lex_view :: "'p lexical_store \<Rightarrow> nat \<Rightarrow> 'p option" where
  "lex_view s i =
     (case writer_cache s of
        None \<Rightarrow> map_of (contents (lex_disk s)) i
      | Some w \<Rightarrow>
          (case map_of (pending w) i of
             Some p \<Rightarrow> Some p
           | None \<Rightarrow> if i \<in> set (dirty_marks w) then None
                     else map_of (contents (lex_disk s)) i))"

definition lex_published :: "'p lexical_store \<Rightarrow> nat \<Rightarrow> 'p option" where
  "lex_published s = map_of (contents (lex_disk s))"

definition lex_level :: "'p lexical_store \<Rightarrow> nat" where
  "lex_level s = Max (wal_seq ` set (lex_disk s # lex_undo s))"

definition lex_unsaved :: "'p lexical_store \<Rightarrow> nat set" where
  "lex_unsaved s =
     (case writer_cache s of
        None \<Rightarrow> {}
      | Some w \<Rightarrow> fst ` set (pending w) \<union> set (dirty_marks w))"

definition lex_crashes :: "'p lexical_store \<Rightarrow> ((nat \<Rightarrow> 'p option) \<times> nat) set" where
  "lex_crashes s = (\<lambda>d. (map_of (contents d), wal_seq d)) ` set (lex_disk s # lex_undo s)"

definition lex_inv :: "'p lexical_store \<Rightarrow> bool" where
  "lex_inv s \<longleftrightarrow> last_wal_seq (shared_metadata s) \<le> wal_seq (lex_disk s)"

section \<open>The laws of the index contract\<close>

lemma lex_io_post:
  "post (lex_io what f g) s (\<lambda>r s'. \<exists>fs.
     if ok r then s' = f (s\<lparr>lex_faults := fs\<rparr>) else \<exists>ids b. s' = g ids b (s\<lparr>lex_faults := fs\<rparr>))"
  by (auto simp: post_def lex_io_def split: list.splits index_fault.splits)

lemma lex_io_postI:
  assumes "\<And>fs. Q (Inr ()) (f (s\<lparr>lex_faults := fs\<rparr>))"
    and "\<And>e ids b fs. Q (Inl e) (g ids b (s\<lparr>lex_faults := fs\<rparr>))"
  shows "post (lex_io what f g) s Q"
  unfolding post_def lex_io_def using assms by (simp split: list.splits index_fault.splits)

lemma pending_unchanged [simp]:
  "pending (w\<lparr>dirty_marks := ids\<rparr>) = pending w" "pending (w\<lparr>pending_deletions := ids\<rparr>) = pending w"
  "pending (w\<lparr>retained_segments := sgs\<rparr>) = pending w" "pending (w\<lparr>writer_wal_seq := k\<rparr>) = pending w"
  by (simp_all add: pending_def)

lemma live_docs_Nil [simp]: "live_docs [] = []"
  by (simp add: live_docs_def)

lemma pending_new [simp]: "pending (lexical_writer_new k) = []" "dirty_marks (lexical_writer_new k) = []"
  by (simp_all add: pending_def lexical_writer_new_def)

lemma lex_faults_irrelevant [simp]:
  "lex_view (s\<lparr>lex_faults := fs\<rparr>) = lex_view s"
  "lex_published (s\<lparr>lex_faults := fs\<rparr>) = lex_published s"
  "lex_level (s\<lparr>lex_faults := fs\<rparr>) = lex_level s"
  "lex_unsaved (s\<lparr>lex_faults := fs\<rparr>) = lex_unsaved s"
  "lex_crashes (s\<lparr>lex_faults := fs\<rparr>) = lex_crashes s"
  "lex_inv (s\<lparr>lex_faults := fs\<rparr>) = lex_inv s"
  by (cases "writer_cache s"; simp add: fun_eq_iff lex_view_def lex_published_def lex_level_def
      lex_unsaved_def lex_crashes_def lex_inv_def split: option.splits)+

abbreviation lex_touch :: "nat \<Rightarrow> 'p lexical_store \<Rightarrow> 'p lexical_store \<Rightarrow> bool" where
  "lex_touch \<equiv> touch_only lex_view lex_published lex_level lex_unsaved lex_crashes"

abbreviation lex_moved :: "nat \<Rightarrow> 'p lexical_store \<Rightarrow> 'p lexical_store \<Rightarrow> bool" where
  "lex_moved \<equiv> moved lex_view lex_published lex_level lex_unsaved lex_crashes"

lemma lex_cached_writer_post:
  assumes "lex_inv s"
  shows "post lex_cached_writer s (\<lambda>r s'. lex_inv s' \<and> lex_view s' = lex_view s \<and>
    lex_unsaved s' = lex_unsaved s \<and> lex_disk s' = lex_disk s \<and> lex_undo s' = lex_undo s \<and>
    (ok r \<longrightarrow> writer_cache s' \<noteq> None))"
proof (cases "writer_cache s")
  case None
  show ?thesis
    unfolding lex_cached_writer_def post_def
  proof (simp add: None flip: post_def, rule post_mono [OF lex_io_post])
    fix r :: "unit res" and s'
    assume "\<exists>fs. if ok r
       then s' = s\<lparr>lex_faults := fs,
            writer_cache := Some (lexical_writer_new (last_wal_seq (shared_metadata (s\<lparr>lex_faults := fs\<rparr>))))\<rparr>
       else \<exists>(ids :: nat list) (b :: bool). s' = s\<lparr>lex_faults := fs\<rparr>"
    with None assms show "lex_inv s' \<and> lex_view s' = lex_view s \<and> lex_unsaved s' = lex_unsaved s \<and>
        lex_disk s' = lex_disk s \<and> lex_undo s' = lex_undo s \<and> (ok r \<longrightarrow> (\<exists>y. writer_cache s' = Some y))"
      by (auto simp: fun_eq_iff lex_inv_def lex_view_def lex_unsaved_def split: if_splits)
  qed
next
  case (Some w)
  with assms show ?thesis by (simp add: lex_cached_writer_def post_def)
qed

lemma same_disk:
  assumes "lex_disk s' = lex_disk s" "lex_undo s' = lex_undo s"
  shows "lex_published s' = lex_published s" "lex_level s' = lex_level s" "lex_crashes s' = lex_crashes s"
  using assms by (simp_all add: lex_published_def lex_level_def lex_crashes_def)

lemma writer_touch:
  assumes "lex_disk s' = lex_disk s" "lex_undo s' = lex_undo s"
    and "writer_cache s = Some w" "writer_cache s' = Some w'"
    and "\<And>j. j \<noteq> i \<Longrightarrow> map_of (pending w') j = map_of (pending w) j"
    and "\<And>j. j \<noteq> i \<Longrightarrow> j \<in> set (dirty_marks w') \<longleftrightarrow> j \<in> set (dirty_marks w)"
  shows "lex_touch i s s'"
proof -
  have "lex_unsaved s' \<subseteq> insert i (lex_unsaved s)"
  proof
    fix j
    assume j: "j \<in> lex_unsaved s'"
    show "j \<in> insert i (lex_unsaved s)"
    proof (cases "j = i")
      case False
      have "j \<in> fst ` set (pending w') \<longleftrightarrow> j \<in> fst ` set (pending w)"
        using assms(5) [OF False] by (simp flip: map_of_eq_None_iff not_Some_eq)
          (metis map_of_eq_None_iff)
      with j assms(3,4,6) False show ?thesis by (simp add: lex_unsaved_def)
    qed simp
  qed
  moreover have "lex_view s' j = lex_view s j" if "j \<noteq> i" for j
    using that assms by (simp add: lex_view_def split: option.split)
  ultimately show ?thesis using same_disk [OF assms(1,2)] by (simp add: touch_only_def)
qed

lemma live_mark [simp]: "live (mark ids sg) = without ids (live sg)"
  by (force simp: live_def mark_def without_def holds_doc_def intro!: filter_cong)

lemma live_docs_mark: "live_docs (map (mark ids) sgs) = without ids (live_docs sgs)"
  by (simp add: live_docs_def without_def filter_concat comp_def rev_map)

lemma live_docs_append: "live_docs (sgs @ sgs') = live_docs sgs' @ live_docs sgs"
  by (simp add: live_docs_def)

lemma live_docs_single: "live_docs [\<lparr>held = ds, marks = []\<rparr>] = ds"
  by (simp add: live_docs_def live_def without_def)

lemma map_of_without: "map_of (without ids xs) i = (if i \<in> set ids then None else map_of xs i)"
  by (induction xs) (auto simp: without_def)

lemma not_held: "filter (holds_doc i) sgs = [] \<Longrightarrow> map_of (live_docs sgs) i = None"
  by (force simp: filter_empty_conv map_of_eq_None_iff live_docs_def live_def without_def holds_doc_def)

lemma mark_post:
  assumes "lex_inv s" "writer_cache s = Some w" "map_of (buffered_docs w) i = None"
  shows "post (mark_persisted_doc_deleted i) s (\<lambda>r s'. lex_inv s' \<and> lex_touch i s s' \<and>
    writer_cache s' \<noteq> None \<and> (ok r \<longrightarrow> lex_view s' i = None \<and>
      (\<exists>w'. writer_cache s' = Some w' \<and> map_of (pending w') i = None)))"
proof (cases "find_segments_for_doc i s w = []")
  case True
  then have "map_of (contents (lex_disk s)) i = None" "map_of (live_docs (pending_publish w)) i = None"
    by (simp_all add: find_segments_for_doc_def not_held)
  with assms have "lex_view s i = None" "map_of (pending w) i = None"
    by (simp_all add: lex_view_def pending_def map_add_def)
  moreover have "lex_touch i s s" by (auto simp: touch_only_def)
  ultimately show ?thesis using True assms
    by (simp add: mark_persisted_doc_deleted_def post_def)
next
  case False
  let ?done = "on_writer (\<lambda>w. (mark_in_segments i w)\<lparr>pending_deletions := List.insert i (pending_deletions w)\<rparr>)"
  have w': "map_of (pending (mark_in_segments i w)) i = None"
    "\<And>j. j \<noteq> i \<Longrightarrow> map_of (pending (mark_in_segments i w)) j = map_of (pending w) j"
    "\<And>j. j \<noteq> i \<Longrightarrow> j \<in> set (dirty_marks (mark_in_segments i w)) \<longleftrightarrow> j \<in> set (dirty_marks w)"
    "i \<in> set (dirty_marks (mark_in_segments i w))"
    using assms(3) by (simp_all add: pending_def mark_in_segments_def live_docs_mark map_of_without map_add_def
        cong: option.case_cong)
  have "post (lex_io ''marking the document deleted failed'' ?done
      (\<lambda>_ b s. if b then on_writer (mark_in_segments i) s else s)) s (\<lambda>r s'. lex_inv s' \<and> lex_touch i s s' \<and>
    writer_cache s' \<noteq> None \<and> (ok r \<longrightarrow> lex_view s' i = None \<and>
      (\<exists>w'. writer_cache s' = Some w' \<and> map_of (pending w') i = None)))"
  proof (rule lex_io_postI, goal_cases)
    case (1 fs)
    have "lex_touch i s (?done (s\<lparr>lex_faults := fs\<rparr>))"
      by (rule writer_touch [OF _ _ assms(2), where
            w' = "(mark_in_segments i w)\<lparr>pending_deletions := List.insert i (pending_deletions w)\<rparr>"])
        (use w' assms(2) in \<open>simp_all add: on_writer_def\<close>)
    then show ?case using assms(1,2) w' by (simp add: lex_inv_def lex_view_def on_writer_def)
  next
    case (2 e ids b fs)
    have "lex_touch i s (on_writer (mark_in_segments i) (s\<lparr>lex_faults := fs\<rparr>))"
      by (rule writer_touch [OF _ _ assms(2), where w' = "mark_in_segments i w"])
        (use w' assms(2) in \<open>simp_all add: on_writer_def\<close>)
    moreover have "lex_touch i s (s\<lparr>lex_faults := fs\<rparr>)" by (auto simp: touch_only_def)
    ultimately show ?case using assms(1,2) by (auto simp: lex_inv_def on_writer_def)
  qed
  with False assms(2) show ?thesis by (simp add: mark_persisted_doc_deleted_def post_def)
qed

lemma touch_trans: "lex_touch i s s' \<Longrightarrow> lex_touch i s' s'' \<Longrightarrow> lex_touch i s s''"
  by (auto simp: touch_only_def)

lemma touch_no_change:
  "lex_view s' = lex_view s \<Longrightarrow> lex_unsaved s' = lex_unsaved s \<Longrightarrow> lex_disk s' = lex_disk s \<Longrightarrow>
   lex_undo s' = lex_undo s \<Longrightarrow> lex_touch i s s'"
  using same_disk [of s' s] by (auto simp: touch_only_def)

lemma remove_then_mark_post:
  assumes "lex_inv s" "writer_cache s \<noteq> None"
  shows "post (sbind (modify (on_writer (remove_pending_document i))) (\<lambda>_. mark_persisted_doc_deleted i)) s
    (\<lambda>r s'. lex_inv s' \<and> lex_touch i s s' \<and> writer_cache s' \<noteq> None \<and> (ok r \<longrightarrow> lex_view s' i = None \<and>
      (\<exists>w'. writer_cache s' = Some w' \<and> map_of (pending w') i = None)))"
proof -
  from assms(2) obtain w where w: "writer_cache s = Some w" by auto
  let ?s = "on_writer (remove_pending_document i) s"
  have s: "lex_inv ?s" "writer_cache ?s = Some (remove_pending_document i w)"
    "map_of (buffered_docs (remove_pending_document i w)) i = None"
    using assms(1) w by (simp_all add: on_writer_def lex_inv_def remove_pending_document_def AList.delete_conv')
  have "lex_touch i s ?s"
    by (rule writer_touch [OF _ _ w s(2)])
      (simp_all add: w on_writer_def pending_def remove_pending_document_def AList.delete_conv' map_add_def)
  then have "post (mark_persisted_doc_deleted i) ?s (\<lambda>r s'. lex_inv s' \<and> lex_touch i s s' \<and>
      writer_cache s' \<noteq> None \<and> (ok r \<longrightarrow> lex_view s' i = None \<and>
      (\<exists>w'. writer_cache s' = Some w' \<and> map_of (pending w') i = None)))"
    by (intro post_mono [OF mark_post [OF s]]) (blast intro: touch_trans)
  then show ?thesis by (simp only: post_sbind post_modify sum.case)
qed

lemma lex_remove_law:
  assumes "lex_inv s"
  shows "post (lex_delete_document i) s (\<lambda>r s'. lex_inv s' \<and> lex_touch i s s' \<and>
    (ok r \<longrightarrow> lex_view s' i = None))"
  unfolding lex_delete_document_def writer_delete_document_def
proof (rule post_sbindI [OF lex_cached_writer_post [OF assms]], goal_cases)
  case (1 e s')
  then show ?case by (auto intro: touch_no_change)
next
  case (2 u s')
  then show ?case
    by (intro post_mono [OF remove_then_mark_post]) (auto intro: touch_trans touch_no_change)
qed

lemma buffer_analyzed_document_sbind:
  "buffer_analyzed_document i p =
   sbind (sbind (modify (on_writer (remove_pending_document i))) (\<lambda>_. mark_persisted_doc_deleted i))
     (\<lambda>_. modify (on_writer (buffer_analyzed i p)))"
  by (simp add: fun_eq_iff buffer_analyzed_document_def sbind_def modify_def split: prod.split)

lemma lex_add_law:
  assumes "lex_inv s"
  shows "post (apply_prepared_upsert i p) s (\<lambda>r s'. lex_inv s' \<and> lex_touch i s s' \<and>
    (ok r \<longrightarrow> lex_view s' i = Some p))"
  unfolding apply_prepared_upsert_def buffer_analyzed_document_sbind
proof (rule post_sbindI [OF lex_cached_writer_post [OF assms]], goal_cases)
  case (1 e s')
  then show ?case by (auto intro: touch_no_change)
next
  case (2 u s')
  then have s': "lex_inv s'" "writer_cache s' \<noteq> None" "lex_touch i s s'" by (auto intro: touch_no_change)
  show ?case
  proof (rule post_sbindI [OF remove_then_mark_post [OF s'(1,2)]], goal_cases)
    case (1 e s'')
    then show ?case using s'(3) by (auto intro: touch_trans)
  next
    case (2 u' s'')
    then obtain w where w: "writer_cache s'' = Some w" "map_of (pending w) i = None" "lex_inv s''"
      "lex_touch i s' s''" by auto
    let ?t = "on_writer (buffer_analyzed i p) s''"
    have p: "map_of (pending (buffer_analyzed i p w)) j = (if j = i then Some p else map_of (pending w) j)" for j
      using w(2) by (auto simp: pending_def buffer_analyzed_def map_add_def split: option.splits)
    have "lex_touch i s'' ?t"
      by (rule writer_touch [OF _ _ w(1), where w' = "buffer_analyzed i p w"])
        (simp_all add: on_writer_def w(1) p, simp_all add: buffer_analyzed_def)
    moreover have "lex_view ?t i = Some p"
      using p [of i] w(1) by (simp add: on_writer_def lex_view_def)
    moreover have "lex_inv ?t" using w(3) by (simp add: on_writer_def lex_inv_def)
    ultimately show ?case
      using touch_trans [OF touch_trans [OF s'(3) w(4)]] by (simp add: post_simps)
  qed
qed

text \<open>What the writer's commit may have done before it saves the metadata.\<close>

definition lex_partial :: "'p lexical_store \<Rightarrow> 'p lexical_store \<Rightarrow> bool" where
  "lex_partial s0 s \<longleftrightarrow> lex_inv s \<and> lex_view s = lex_view s0 \<and> lex_unsaved s \<subseteq> lex_unsaved s0 \<and>
     (\<exists>w0 w. writer_cache s0 = Some w0 \<and> writer_cache s = Some w \<and> writer_wal_seq w = writer_wal_seq w0) \<and>
     last_wal_seq (shared_metadata s) = last_wal_seq (shared_metadata s0) \<and> set (lex_disk s0 # lex_undo s0) \<subseteq> set (lex_disk s # lex_undo s) \<and>
     wal_seq (lex_disk s) = wal_seq (lex_disk s0) \<and>
     (\<forall>d \<in> set (lex_disk s # lex_undo s) - set (lex_disk s0 # lex_undo s0).
        wal_seq d = wal_seq (lex_disk s0) \<and>
        (\<forall>i. i \<notin> lex_unsaved s0 \<longrightarrow> map_of (contents d) i = lex_published s0 i))"

lemma lex_partial_refl: "lex_inv s \<Longrightarrow> writer_cache s \<noteq> None \<Longrightarrow> lex_partial s s"
  by (auto simp: lex_partial_def)

lemma lex_agree:
  assumes "i \<notin> lex_unsaved s"
  shows "lex_published s i = lex_view s i"
proof (cases "writer_cache s")
  case None
  then show ?thesis by (simp add: lex_published_def lex_view_def)
next
  case (Some w)
  with assms have "map_of (pending w) i = None" "i \<notin> set (dirty_marks w)"
    by (simp_all add: lex_unsaved_def map_of_eq_None_iff)
  with Some show ?thesis by (simp add: lex_published_def lex_view_def)
qed

text \<open>A change of the files, or one that only a crash can reveal, that keeps what is pending whole.\<close>

lemma lex_partial_step:
  assumes p: "lex_partial s0 s" and w: "writer_cache s = Some w" "writer_cache s' = Some w'"
    and same: "writer_wal_seq w' = writer_wal_seq w" "last_wal_seq (shared_metadata s') = last_wal_seq (shared_metadata s)"
      "lex_view s' = lex_view s" "lex_unsaved s' \<subseteq> lex_unsaved s" "wal_seq (lex_disk s') = wal_seq (lex_disk s)"
    and new: "set (lex_disk s # lex_undo s) \<subseteq> set (lex_disk s' # lex_undo s')"
      "\<And>d. d \<in> set (lex_disk s' # lex_undo s') \<Longrightarrow> d \<notin> set (lex_disk s # lex_undo s) \<Longrightarrow>
         wal_seq d = wal_seq (lex_disk s) \<and>
         (\<forall>i. i \<notin> lex_unsaved s \<longrightarrow> map_of (contents d) i = lex_published s i)"
  shows "lex_partial s0 s'"
proof -
  have pub: "lex_published s i = lex_published s0 i" if "i \<notin> lex_unsaved s0" for i
    using p that lex_agree [of i s] lex_agree [of i s0] by (auto simp: lex_partial_def)
  have "wal_seq d = wal_seq (lex_disk s0) \<and>
      (\<forall>i. i \<notin> lex_unsaved s0 \<longrightarrow> map_of (contents d) i = lex_published s0 i)"
    if "d \<in> set (lex_disk s' # lex_undo s')" "d \<notin> set (lex_disk s0 # lex_undo s0)" for d
  proof (cases "d \<in> set (lex_disk s # lex_undo s)")
    case True
    then have "d \<in> set (lex_disk s # lex_undo s) - set (lex_disk s0 # lex_undo s0)"
      using that(2) by blast
    with p show ?thesis unfolding lex_partial_def by blast
  next
    case False
    have "wal_seq (lex_disk s) = wal_seq (lex_disk s0)" "lex_unsaved s \<subseteq> lex_unsaved s0"
      using p by (simp_all add: lex_partial_def)
    then show ?thesis using new(2) [OF that(1) False] pub by (metis subsetD)
  qed
  moreover from p w(1) obtain w0 where "writer_cache s0 = Some w0" "writer_wal_seq w = writer_wal_seq w0"
    by (auto simp: lex_partial_def)
  moreover have "set (lex_disk s0 # lex_undo s0) \<subseteq> set (lex_disk s' # lex_undo s')"
    using p new(1) unfolding lex_partial_def by blast
  moreover have "lex_inv s'" "lex_view s' = lex_view s0" "lex_unsaved s' \<subseteq> lex_unsaved s0"
    "last_wal_seq (shared_metadata s') = last_wal_seq (shared_metadata s0)" "wal_seq (lex_disk s') = wal_seq (lex_disk s0)"
    using p same by (auto simp: lex_partial_def lex_inv_def)
  ultimately show ?thesis using w(2) same(1) unfolding lex_partial_def by simp
qed

lemma drop_deletions_partial:
  assumes "lex_partial s0 s" "writer_cache s = Some w" "set ids \<subseteq> set (dirty_marks w)"
  shows "lex_partial s0 (drop_deletions ids s)"
proof (rule lex_partial_step [OF assms(1,2)])
  let ?s = "drop_deletions ids s"
  show "writer_cache ?s = Some (w\<lparr>dirty_marks := filter (\<lambda>i. i \<notin> set ids) (dirty_marks w)\<rparr>)"
    using assms(2) by (simp add: drop_deletions_def Let_def on_writer_def set_disk_def)
  show "lex_view ?s = lex_view s"
    using assms(2,3)
    by (auto simp: fun_eq_iff lex_view_def drop_deletions_def Let_def on_writer_def set_disk_def
        map_of_without live_docs_mark split: option.split)
  show "lex_unsaved ?s \<subseteq> lex_unsaved s"
    using assms(2) by (auto simp: lex_unsaved_def drop_deletions_def Let_def on_writer_def set_disk_def)
  show "wal_seq d = wal_seq (lex_disk s) \<and>
      (\<forall>i. i \<notin> lex_unsaved s \<longrightarrow> map_of (contents d) i = lex_published s i)"
    if "d \<in> set (lex_disk ?s # lex_undo ?s)" "d \<notin> set (lex_disk s # lex_undo s)" for d
    using that assms(2,3)
    by (auto simp: drop_deletions_def Let_def on_writer_def set_disk_def map_of_without
        live_docs_mark lex_published_def lex_unsaved_def)
qed (auto simp: drop_deletions_def Let_def on_writer_def set_disk_def)

lemma faults_partial: "lex_partial s0 (s\<lparr>lex_faults := fs\<rparr>) = lex_partial s0 s"
  by (simp add: lex_partial_def)

lemma map_of_with_segments:
  "map_of (contents (with_segments sgs d)) i =
   (case map_of (live_docs sgs) i of Some p \<Rightarrow> Some p | None \<Rightarrow> map_of (contents d) i)"
  by (simp add: with_segments_def live_docs_append map_add_def)

lemma flush_buffer_pending: "pending (flush_buffer w) = pending w"
  by (simp add: pending_def flush_buffer_def live_docs_append live_docs_single)

lemma flush_buffer_partial:
  assumes "lex_partial s0 s" "writer_cache s = Some w"
  shows "lex_partial s0 (on_writer flush_buffer s)"
proof (rule lex_partial_step [OF assms])
  show "writer_cache (on_writer flush_buffer s) = Some (flush_buffer w)"
    using assms(2) by (simp add: on_writer_def)
  show "lex_view (on_writer flush_buffer s) = lex_view s"
    using assms(2) flush_buffer_pending [of w]
    by (simp add: fun_eq_iff lex_view_def on_writer_def) (simp add: flush_buffer_def cong: option.case_cong)
  show "lex_unsaved (on_writer flush_buffer s) \<subseteq> lex_unsaved s"
    using assms(2) flush_buffer_pending [of w]
    by (simp add: lex_unsaved_def on_writer_def) (simp add: flush_buffer_def)
qed (auto simp: on_writer_def flush_buffer_def)

lemma publish_partial:
  assumes "lex_partial s0 s" "writer_cache s = Some w" "buffered_docs w = []" "dirty_marks w = []"
  shows "lex_partial s0 (on_writer (\<lambda>w. w\<lparr>retained_segments := retained_segments w @ pending_publish w,
      pending_publish := []\<rparr>) (set_disk (with_segments (pending_publish w) (lex_disk s)) s))"
    and "lex_partial s0 (s\<lparr>lex_undo := with_segments (pending_publish w) (lex_disk s) # lex_undo s\<rparr>)"
proof -
  let ?d = "with_segments (pending_publish w) (lex_disk s)"
  have d: "wal_seq ?d = wal_seq (lex_disk s)" by (simp add: with_segments_def)
  have off: "map_of (contents ?d) i = lex_published s i" if "i \<notin> lex_unsaved s" for i
  proof -
    have "map_of (live_docs (pending_publish w)) i = None"
      using that assms(2) by (auto simp: lex_unsaved_def pending_def map_of_eq_None_iff)
    then show ?thesis by (simp add: map_of_with_segments lex_published_def)
  qed
  let ?t = "on_writer (\<lambda>w. w\<lparr>retained_segments := retained_segments w @ pending_publish w,
      pending_publish := []\<rparr>) (set_disk ?d s)"
  show "lex_partial s0 ?t"
  proof (rule lex_partial_step [OF assms(1,2)])
    show "writer_cache ?t = Some (w\<lparr>retained_segments := retained_segments w @ pending_publish w,
        pending_publish := []\<rparr>)"
      using assms(2) by (simp add: on_writer_def set_disk_def)
    show "lex_view ?t = lex_view s"
      using assms(2-4)
      by (simp add: fun_eq_iff lex_view_def pending_def on_writer_def set_disk_def map_of_with_segments)
    show "lex_unsaved ?t \<subseteq> lex_unsaved s"
      using assms(2-4) by (auto simp: lex_unsaved_def pending_def on_writer_def set_disk_def)
  qed (use d off in \<open>auto simp: on_writer_def set_disk_def\<close>)
  show "lex_partial s0 (s\<lparr>lex_undo := ?d # lex_undo s\<rparr>)"
  proof (rule lex_partial_step [OF assms(1,2)])
    show "lex_view (s\<lparr>lex_undo := ?d # lex_undo s\<rparr>) = lex_view s"
      using assms(2) by (auto simp: fun_eq_iff lex_view_def split: option.split)
    show "lex_unsaved (s\<lparr>lex_undo := ?d # lex_undo s\<rparr>) \<subseteq> lex_unsaved s"
      using assms(2) by (auto simp: lex_unsaved_def)
  qed (use d off assms(2) in auto)
qed

lemma lex_partial_inv: "lex_partial s0 s \<Longrightarrow> lex_inv s"
  by (simp add: lex_partial_def)

lemma lex_partial_level:
  assumes "lex_partial s0 s"
  shows "lex_level s = lex_level s0"
proof -
  have "wal_seq ` set (lex_disk s # lex_undo s) = wal_seq ` set (lex_disk s0 # lex_undo s0)"
    using assms unfolding lex_partial_def by (auto simp: image_iff)
  then show ?thesis by (simp only: lex_level_def)
qed

lemma lex_level_ge: "d \<in> set (lex_disk s # lex_undo s) \<Longrightarrow> wal_seq d \<le> lex_level s"
  unfolding lex_level_def by (intro Max_ge) auto

lemma lex_partial_moved:
  assumes "lex_partial s0 s"
  shows "lex_moved k s0 s"
proof -
  have "c \<in> lex_crashes s0 \<union> candidates lex_view lex_published lex_level lex_unsaved k s0"
    if "c \<in> lex_crashes s" for c
  proof -
    from that obtain d where d: "d \<in> set (lex_disk s # lex_undo s)"
      "c = (map_of (contents d), wal_seq d)" by (auto simp: lex_crashes_def)
    show ?thesis
    proof (cases "d \<in> set (lex_disk s0 # lex_undo s0)")
      case True
      then show ?thesis unfolding d(2) lex_crashes_def by blast
    next
      case False
      with d(1) assms have "wal_seq d = wal_seq (lex_disk s0)"
        "\<forall>i. i \<notin> lex_unsaved s0 \<longrightarrow> map_of (contents d) i = lex_published s0 i"
        unfolding lex_partial_def by blast+
      then show ?thesis using lex_level_ge [of "lex_disk s0" s0] by (simp add: d(2) candidates_def)
    qed
  qed
  then show ?thesis using assms lex_partial_level [OF assms]
    by (auto simp: moved_def lex_partial_def)
qed

abbreviation nothing_pending :: "'p lexical_store \<Rightarrow> bool" where
  "nothing_pending s \<equiv>
     (\<exists>w. writer_cache s = Some w \<and> buffered_docs w = [] \<and> pending_publish w = [] \<and> dirty_marks w = [])"

lemma flush_segment_post:
  assumes "lex_partial s0 s"
  shows "post flush_segment s (\<lambda>r s'. lex_partial s0 s' \<and>
    (ok r \<longrightarrow> (\<exists>w. writer_cache s' = Some w \<and> buffered_docs w = [])))"
proof -
  from assms obtain w where w: "writer_cache s = Some w" by (auto simp: lex_partial_def)
  have "lex_partial s0 (on_writer flush_buffer (s\<lparr>lex_faults := fs\<rparr>))" for fs
    by (rule flush_buffer_partial [of _ _ w]) (use assms w in \<open>simp_all add: faults_partial\<close>)
  moreover have "\<exists>w. writer_cache (on_writer flush_buffer (s\<lparr>lex_faults := fs\<rparr>)) = Some w \<and> buffered_docs w = []" for fs
    using w by (simp add: on_writer_def flush_buffer_def)
  ultimately have "post (lex_io ''writing the segment failed'' (on_writer flush_buffer) (\<lambda>_ _ s. s)) s
      (\<lambda>r s'. lex_partial s0 s' \<and> (ok r \<longrightarrow> (\<exists>w. writer_cache s' = Some w \<and> buffered_docs w = [])))"
    using assms by (intro lex_io_postI) (simp_all add: faults_partial)
  with w assms show ?thesis by (simp add: flush_segment_def post_def)
qed

lemma flush_deletions_post:
  assumes "lex_partial s0 s" "writer_cache s = Some w" "buffered_docs w = []"
  shows "post flush_deletions s (\<lambda>r s'. lex_partial s0 s' \<and>
    (ok r \<longrightarrow> (\<exists>w. writer_cache s' = Some w \<and> buffered_docs w = [] \<and> dirty_marks w = [])))"
proof (cases "dirty_marks w = []")
  case True
  with assms show ?thesis by (simp add: flush_deletions_def post_def)
next
  case False
  have p: "lex_partial s0 (drop_deletions ids (s\<lparr>lex_faults := fs\<rparr>))"
    if "set ids \<subseteq> set (dirty_marks w)" for ids fs
    using assms that by (intro drop_deletions_partial [of _ _ w]) (simp_all add: faults_partial)
  have q: "\<exists>w'. writer_cache (drop_deletions (dirty_marks w) (s\<lparr>lex_faults := fs\<rparr>)) = Some w' \<and>
      buffered_docs w' = [] \<and> dirty_marks w' = []" for fs
    using assms(2,3) by (simp add: drop_deletions_def on_writer_def set_disk_def Let_def)
  have "post (lex_io ''writing the deletions failed'' (drop_deletions (dirty_marks w))
      (\<lambda>ids _. drop_deletions (filter (\<lambda>i. i \<in> set ids) (dirty_marks w)))) s
      (\<lambda>r s'. lex_partial s0 s' \<and>
        (ok r \<longrightarrow> (\<exists>w. writer_cache s' = Some w \<and> buffered_docs w = [] \<and> dirty_marks w = [])))"
    by (rule lex_io_postI) (use p q in \<open>simp_all add: subset_iff\<close>)
  with assms False show ?thesis by (simp add: flush_deletions_def post_def)
qed

lemma publish_pending_post:
  assumes "lex_partial s0 s" "writer_cache s = Some w" "buffered_docs w = []" "dirty_marks w = []"
  shows "post publish_pending_segments s (\<lambda>r s'. lex_partial s0 s' \<and> (ok r \<longrightarrow> nothing_pending s'))"
proof (cases "pending_publish w = []")
  case True
  with assms show ?thesis by (simp add: publish_pending_segments_def post_def)
next
  case False
  let ?ok = "\<lambda>s. on_writer (\<lambda>w. w\<lparr>retained_segments := retained_segments w @ pending_publish w,
      pending_publish := []\<rparr>) (set_disk (with_segments (pending_publish w) (lex_disk s)) s)"
  let ?undo = "\<lambda>_ b s. if b then s\<lparr>lex_undo := with_segments (pending_publish w) (lex_disk s) # lex_undo s\<rparr> else s"
  have p: "lex_partial s0 (?ok (s\<lparr>lex_faults := fs\<rparr>))"
    "lex_partial s0 (?undo ids b (s\<lparr>lex_faults := fs\<rparr>))" for fs and ids :: "nat list" and b
    using publish_partial [of s0 "s\<lparr>lex_faults := fs\<rparr>" w] assms by (simp_all add: faults_partial)
  have n: "nothing_pending (?ok (s\<lparr>lex_faults := fs\<rparr>))" for fs
    using assms by (simp add: on_writer_def set_disk_def)
  have "post (lex_io ''saving the manifest failed'' ?ok ?undo) s
      (\<lambda>r s'. lex_partial s0 s' \<and> (ok r \<longrightarrow> nothing_pending s'))"
    by (intro lex_io_postI conjI impI p n) simp
  with assms False show ?thesis by (simp add: publish_pending_segments_def post_def)
qed

lemma moved_new_disk:
  assumes p: "lex_partial s0 s" and v: "lex_published s = lex_view s0"
    and d: "contents d = contents (lex_disk s)" "wal_seq d \<le> max (lex_level s0) k"
    and s': "set (lex_disk s' # lex_undo s') = insert d (set (lex_disk s # lex_undo s))"
      "lex_disk s' = d" "lex_view s' = lex_view s" "lex_unsaved s' = {}"
  shows "lex_moved k s0 s'"
proof -
  note pm = lex_partial_moved [OF p, of k]
  have "lex_crashes s' = insert (lex_view s0, wal_seq d) (lex_crashes s)"
    using v d(1) unfolding lex_crashes_def s'(1) by (simp add: lex_published_def)
  moreover have "(lex_view s0, wal_seq d) \<in> candidates lex_view lex_published lex_level lex_unsaved k s0"
    using d(2) by (simp add: candidates_def)
  ultimately have "lex_crashes s' \<subseteq> lex_crashes s0 \<union>
      candidates lex_view lex_published lex_level lex_unsaved k s0"
    using pm by (auto simp: moved_def)
  moreover have "lex_level s' \<le> max (lex_level s0) k"
  proof -
    have "lex_level s' = Max (insert (wal_seq d) (wal_seq ` set (lex_disk s # lex_undo s)))"
      unfolding lex_level_def s'(1) by simp
    also have "\<dots> = max (wal_seq d) (lex_level s)"
      unfolding lex_level_def by (subst Max_insert) auto
    finally show ?thesis using d(2) lex_partial_level [OF p] by simp
  qed
  moreover have "lex_published s' = lex_view s0" using v d(1) s'(2) by (simp add: lex_published_def)
  ultimately show ?thesis using s'(3,4) p by (simp add: moved_def lex_partial_def)
qed

lemma nothing_pending_facts:
  assumes "nothing_pending s"
  shows "lex_unsaved s = {}" "lex_view s = lex_published s"
  using assms by (auto simp: fun_eq_iff lex_unsaved_def lex_view_def lex_published_def pending_def)

text \<open>The metadata, once everything else is on the disk.\<close>

lemma write_metadata_post:
  assumes p: "lex_partial s0 s" and n: "nothing_pending s"
    and k: "\<And>w. writer_cache s = Some w \<Longrightarrow> writer_wal_seq w = k"
  shows "post write_metadata_json s (\<lambda>r s'. lex_inv s' \<and> lex_moved k s0 s' \<and> nothing_pending s')"
proof -
  from n obtain w where w: "writer_cache s = Some w" "buffered_docs w = []" "pending_publish w = []"
    "dirty_marks w = []" by blast
  obtain n1 n2 where c: "index_counts (manifest (lex_disk s)) = (n1, n2)" by fastforce
  let ?q = "max (last_wal_seq (shared_metadata s)) k"
  let ?m = "\<lparr>doc_count = n1, deleted_count = n2, last_wal_seq = ?q\<rparr>"
  let ?d = "(lex_disk s)\<lparr>metadata := ?m\<rparr>"
  have m: "last_wal_seq (shared_metadata s) \<le> wal_seq (lex_disk s)"
    using p unfolding lex_partial_def lex_inv_def by blast
  also have "\<dots> \<le> lex_level s0"
    using lex_level_ge [of "lex_disk s" s] unfolding lex_partial_level [OF p] by simp
  finally have q: "?q \<le> max (lex_level s0) k" by (simp add: max.coboundedI1 max.mono)
  have v: "lex_published s = lex_view s0"
    using nothing_pending_facts [OF n] p by (simp add: lex_partial_def)
  have new: "lex_inv s' \<and> lex_moved k s0 s' \<and> nothing_pending s'"
    if "lex_disk s' = ?d" "lex_undo s' = lex_disk s # lex_undo s"
      "writer_cache s' = writer_cache s" "last_wal_seq (shared_metadata s') \<le> ?q" for s'
  proof -
    have n': "nothing_pending s'" using n that(3) by simp
    have "lex_published s' = lex_published s" using that(1) by (simp add: lex_published_def)
    then have "lex_view s' = lex_view s"
      using nothing_pending_facts(2) [OF n] nothing_pending_facts(2) [OF n'] by simp
    then have "lex_moved k s0 s'"
      using that(1,2) nothing_pending_facts(1) [OF n'] q
      by (intro moved_new_disk [OF p v, of ?d]) simp_all
    moreover have "lex_inv s'" using that(1,4) by (simp add: lex_inv_def)
    ultimately show ?thesis using n' by blast
  qed
  have old: "lex_inv s' \<and> lex_moved k s0 s' \<and> nothing_pending s'" if "s' = s\<lparr>lex_faults := fs\<rparr>" for s' fs
  proof -
    have "lex_partial s0 s'" "nothing_pending s'" using that p n by (simp_all add: faults_partial)
    then show ?thesis using lex_partial_inv lex_partial_moved by blast
  qed
  let ?Q = "\<lambda>(r :: unit res) s'. lex_inv s' \<and> lex_moved k s0 s' \<and> nothing_pending s'"
  have "post (lex_io ''saving the metadata failed'' (\<lambda>s. (set_disk ?d s)\<lparr>shared_metadata := ?m\<rparr>)
      (\<lambda>_ b s. if b then set_disk ?d s else s)) s ?Q"
  proof (rule lex_io_postI)
    have "lex_inv s' \<and> lex_moved k s0 s' \<and> nothing_pending s'"
      if "s' = (set_disk ?d (s\<lparr>lex_faults := fs\<rparr>))\<lparr>shared_metadata := ?m\<rparr>" for s' fs
      by (rule new) (simp_all add: that set_disk_def)
    then show "?Q (Inr ()) ((set_disk ?d (s\<lparr>lex_faults := fs\<rparr>))\<lparr>shared_metadata := ?m\<rparr>)" for fs by blast
    show "?Q (Inl e) (if b then set_disk ?d (s\<lparr>lex_faults := fs\<rparr>) else s\<lparr>lex_faults := fs\<rparr>)" for e fs b
    proof (cases b)
      case True
      have "lex_inv s' \<and> lex_moved k s0 s' \<and> nothing_pending s'" if "s' = set_disk ?d (s\<lparr>lex_faults := fs\<rparr>)" for s'
        by (rule new) (use m in \<open>simp_all add: that set_disk_def max.coboundedI1\<close>)
      with True show ?thesis by simp
    next
      case False
      with old [of "s\<lparr>lex_faults := fs\<rparr>" fs] show ?thesis by simp
    qed
  qed
  moreover have "?Q (Inr ()) s" using old [of s "lex_faults s"] by simp
  ultimately show ?thesis using w(1) k c unfolding write_metadata_json_def post_def
    by (simp add: Let_def split: prod.splits)
qed

lemma writer_commit_post:
  assumes "lex_inv s0" "writer_cache s0 = Some w0" "writer_wal_seq w0 = k"
  shows "post writer_commit s0 (\<lambda>r s'. lex_inv s' \<and> lex_moved k s0 s' \<and> (ok r \<longrightarrow> nothing_pending s'))"
proof -
  have fin: "lex_inv s \<and> lex_moved k s0 s" if "lex_partial s0 s" for s
    using lex_partial_inv [OF that] lex_partial_moved [OF that] by blast
  have p0: "lex_partial s0 s0" using assms by (intro lex_partial_refl) auto
  let ?Q = "\<lambda>(r :: unit res) s'. lex_inv s' \<and> lex_moved k s0 s' \<and> (ok r \<longrightarrow> nothing_pending s')"
  let ?last = "\<lambda>w. w\<lparr>retained_segments := [], pending_deletions := []\<rparr>"
  have last: "?Q (Inr ()) (on_writer ?last s)" if "lex_inv s \<and> lex_moved k s0 s \<and> nothing_pending s" for s
  proof -
    let ?s = "on_writer ?last s"
    have n: "nothing_pending s" "nothing_pending ?s" using that by (auto simp: on_writer_def)
    have d: "lex_disk ?s = lex_disk s" "lex_undo ?s = lex_undo s" "shared_metadata ?s = shared_metadata s"
      by (simp_all add: on_writer_def)
    have "lex_view ?s = lex_view s" "lex_unsaved ?s = lex_unsaved s"
      using nothing_pending_facts [OF n(1)] nothing_pending_facts [OF n(2)] same_disk(1) [OF d(1,2)] by simp_all
    then have "lex_moved k s0 ?s" using that same_disk [OF d(1,2)] by (simp add: moved_def)
    moreover have "lex_inv ?s" using that d by (simp add: lex_inv_def)
    ultimately show ?thesis using n(2) by blast
  qed
  show ?thesis
    unfolding writer_commit_def
  proof (rule post_sbindI [OF flush_segment_post [OF p0]], goal_cases)
    case (1 e s1)
    then show ?case using fin by simp
  next
    case (2 u s1)
    then obtain w1 where w1: "writer_cache s1 = Some w1" "buffered_docs w1 = []" by auto
    have p1: "lex_partial s0 s1" using 2 by simp
    show ?case
    proof (rule post_sbindI [OF flush_deletions_post [OF p1 w1]], goal_cases)
      case (1 e s2)
      then show ?case using fin by simp
    next
      case (2 u s2)
      then obtain w where w: "writer_cache s2 = Some w" "buffered_docs w = []" "dirty_marks w = []" by auto
      have p2: "lex_partial s0 s2" using 2 by simp
      show ?case
      proof (rule post_sbindI [OF publish_pending_post [OF p2 w]])
        show "?Q (Inl e) s3"
          if "lex_partial s0 s3 \<and> (ok (Inl e :: unit res) \<longrightarrow> nothing_pending s3)" for e s3
          using that fin by simp
        show "post (sbind write_metadata_json (\<lambda>_. modify (on_writer ?last))) s3 ?Q"
          if "lex_partial s0 s3 \<and> (ok (Inr x :: unit res) \<longrightarrow> nothing_pending s3)" for x s3
        proof -
          have p: "lex_partial s0 s3" and n: "nothing_pending s3" using that by simp_all
          have "writer_wal_seq w = k" if "writer_cache s3 = Some w" for w
            using p that assms(2,3) by (auto simp: lex_partial_def)
          then have "post write_metadata_json s3 (\<lambda>r s'. lex_inv s' \<and> lex_moved k s0 s' \<and> nothing_pending s')"
            by (intro write_metadata_post [OF p n]) simp
          then show ?thesis
            by (rule post_sbindI) (simp, simp only: post_modify, rule last)
        qed
      qed
    qed
  qed
qed

lemma set_pending_facts:
  "lex_view (set_pending_wal_seq k s) = lex_view s" "lex_unsaved (set_pending_wal_seq k s) = lex_unsaved s"
  "lex_disk (set_pending_wal_seq k s) = lex_disk s" "lex_undo (set_pending_wal_seq k s) = lex_undo s"
  "lex_inv (set_pending_wal_seq k s) = lex_inv s"
  by (cases "writer_cache s"; simp add: set_pending_wal_seq_def on_writer_def fun_eq_iff lex_view_def
      lex_unsaved_def lex_inv_def split: option.split)+

lemma moved_from:
  assumes "lex_view s1 = lex_view s" "lex_unsaved s1 = lex_unsaved s" "lex_disk s1 = lex_disk s"
    "lex_undo s1 = lex_undo s"
  shows "lex_moved k s1 s' = lex_moved k s s'"
  using assms same_disk [of s1 s] by (simp add: moved_def candidates_def)

lemma moved_refl: "lex_moved k s s"
  by (simp add: moved_def)

abbreviation lex_sealed :: "'p lexical_store \<Rightarrow> bool" where
  "lex_sealed s \<equiv> writer_cache s = None"

lemma lex_seal_writer:
  assumes "writer_cache s = Some w"
  shows "lex_seal k s =
    sbind writer_commit (\<lambda>_. modify (\<lambda>s. s\<lparr>writer_cache := None\<rparr>)) (set_pending_wal_seq k s)"
  using assms by (simp add: lex_seal_def sbind_def [of "modify _"] modify_def [of "set_pending_wal_seq k"])

lemma lex_seal_law:
  assumes "lex_inv s"
  shows "post (lex_seal k) s (\<lambda>r s'. lex_inv s' \<and> lex_moved k s s' \<and> (ok r \<longrightarrow> lex_sealed s'))"
proof (cases "writer_cache s")
  case None
  with assms show ?thesis by (simp add: lex_seal_def post_def moved_refl)
next
  case (Some w)
  let ?s = "set_pending_wal_seq k s"
  have w: "writer_cache ?s = Some (w\<lparr>writer_wal_seq := k\<rparr>)" "lex_inv ?s"
    using Some assms by (simp_all add: set_pending_wal_seq_def on_writer_def lex_inv_def)
  have "post (sbind writer_commit (\<lambda>_. modify (\<lambda>s. s\<lparr>writer_cache := None\<rparr>))) ?s
      (\<lambda>r s'. lex_inv s' \<and> lex_moved k ?s s' \<and> (ok r \<longrightarrow> lex_sealed s'))"
  proof (rule post_sbindI [OF writer_commit_post [OF w(2,1), of k]])
    show "writer_wal_seq (w\<lparr>writer_wal_seq := k\<rparr>) = k" by simp
    show "lex_inv s' \<and> lex_moved k ?s s' \<and> (ok (Inl e :: unit res) \<longrightarrow> lex_sealed s')"
      if "lex_inv s' \<and> lex_moved k ?s s' \<and> (ok (Inl e :: unit res) \<longrightarrow> nothing_pending s')" for e s'
      using that by simp
    show "post (modify (\<lambda>s. s\<lparr>writer_cache := None\<rparr>)) s'
        (\<lambda>r s'. lex_inv s' \<and> lex_moved k ?s s' \<and> (ok r \<longrightarrow> lex_sealed s'))"
      if a: "lex_inv s' \<and> lex_moved k ?s s' \<and> (ok (Inr x :: unit res) \<longrightarrow> nothing_pending s')" for x s'
    proof -
      let ?t = "s'\<lparr>writer_cache := None\<rparr>"
      have n: "nothing_pending s'" using a by simp
      have t: "lex_view ?t = lex_view s'" "lex_unsaved ?t = lex_unsaved s'"
        using nothing_pending_facts [OF n]
        by (simp_all add: fun_eq_iff lex_view_def lex_published_def lex_unsaved_def)
      have "lex_inv ?t" using a by (simp add: lex_inv_def)
      moreover have "lex_moved k ?s ?t"
        using a t same_disk [of ?t s'] by (simp add: moved_def)
      ultimately show ?thesis by (simp add: post_simps)
    qed
  qed
  then have "post (sbind writer_commit (\<lambda>_. modify (\<lambda>s. s\<lparr>writer_cache := None\<rparr>))) ?s
      (\<lambda>r s'. lex_inv s' \<and> lex_moved k s s' \<and> (ok r \<longrightarrow> lex_sealed s'))"
    by (simp only: moved_from [OF set_pending_facts(1-4)])
  then show ?thesis by (simp only: post_def lex_seal_writer [OF Some])
qed

lemma lex_sync_post:
  assumes "lex_inv s" "lex_sealed s"
  shows "post lex_sync s (\<lambda>r s'. lex_inv s' \<and> lex_moved k s s' \<and> lex_sealed s' \<and>
    (ok r \<longrightarrow> lex_unsaved s' = {} \<and> (\<forall>(c, j) \<in> lex_crashes s'. c = lex_published s' \<and> j \<le> lex_level s')))"
  unfolding lex_sync_def
proof (rule post_mono [OF lex_io_post])
  fix r :: "unit res" and s'
  assume "\<exists>fs. if ok r then s' = s\<lparr>lex_faults := fs, lex_undo := []\<rparr>
    else \<exists>(ids :: nat list) (b :: bool). s' = s\<lparr>lex_faults := fs\<rparr>"
  then consider (synced) fs where "ok r" "s' = s\<lparr>lex_faults := fs, lex_undo := []\<rparr>"
    | (failed) fs where "\<not> ok r" "s' = s\<lparr>lex_faults := fs\<rparr>"
    by (auto split: if_splits)
  moreover have *: "lex_published s = lex_view s" "lex_unsaved s = {}" "wal_seq (lex_disk s) \<le> lex_level s"
    using assms(2) lex_level_ge [of "lex_disk s" s]
    by (auto simp: fun_eq_iff lex_published_def lex_view_def lex_unsaved_def)
  ultimately show "lex_inv s' \<and> lex_moved k s s' \<and> lex_sealed s' \<and>
      (ok r \<longrightarrow> lex_unsaved s' = {} \<and> (\<forall>(c, j) \<in> lex_crashes s'. c = lex_published s' \<and> j \<le> lex_level s'))"
  proof cases
    case synced
    have "lex_view s' = lex_view s" "lex_published s' = lex_published s" "lex_unsaved s' = {}"
      "lex_level s' = wal_seq (lex_disk s)" "lex_crashes s' = {(lex_published s, wal_seq (lex_disk s))}"
      using synced(2) assms(2)
      by (simp_all add: fun_eq_iff lex_view_def lex_published_def lex_unsaved_def lex_level_def lex_crashes_def)
    moreover have "(lex_published s, wal_seq (lex_disk s)) \<in> lex_crashes s"
      by (simp add: lex_crashes_def lex_published_def)
    ultimately show ?thesis
      using * assms synced by (auto simp: moved_def lex_inv_def)
  next
    case failed
    then have "lex_moved k s s'" using moved_refl [of k s] by (simp add: moved_def)
    then show ?thesis using failed assms by simp
  qed
qed

lemma lex_sync_again: "lex_undo s = [] \<Longrightarrow> post lex_sync s (\<lambda>r s'. \<exists>fs. s' = s\<lparr>lex_faults := fs\<rparr>)"
  unfolding lex_sync_def by (rule lex_io_postI) (cases s, simp, blast)+

lemma lex_synced_undo: "post lex_sync s (\<lambda>r s'. ok r \<longrightarrow> lex_undo s' = [])"
  unfolding lex_sync_def by (rule lex_io_postI) simp_all

lemma lex_publish_law:
  assumes "lex_inv s" "lex_sealed s"
  shows "post finish_commit s (\<lambda>r s'. lex_inv s' \<and> lex_moved k s s' \<and>
    (ok r \<longrightarrow> lex_unsaved s' = {} \<and> (\<forall>(c, j) \<in> lex_crashes s'. c = lex_published s' \<and> j \<le> lex_level s')))"
  unfolding finish_commit_def
proof (rule post_sbindI [OF post_conj [OF lex_sync_post [OF assms, of k] lex_synced_undo]], goal_cases)
  case (1 e s')
  then show ?case by simp
next
  case (2 x s')
  then have "lex_undo s' = []" by simp
  from lex_sync_again [OF this] show ?case
    by (rule post_mono) (use 2 in \<open>auto simp: moved_def\<close>)
qed

interpretation lexical: checkpointed_index
  lex_inv lex_view lex_published lex_level lex_unsaved lex_crashes lex_sealed
  Some None apply_prepared_upsert lex_delete_document lex_seal "\<lambda>_. finish_commit"
  by unfold_locales
    (rule lex_agree lex_add_law lex_remove_law lex_seal_law lex_publish_law, assumption+)+

section \<open>Lookups by external id\<close>

text \<open>
  What keeps the lookup exact: the committed documents are distinct, a pending one supersedes the
  committed one of its id by a mark, a deletion still hides a committed document only while its mark
  is not written, and what a failed commit has already published is still served by the writer.
\<close>

abbreviation keys :: "(nat \<times> 'p) list \<Rightarrow> nat set" where
  "keys ds \<equiv> fst ` set ds"

definition writer_wf :: "(nat \<times> 'p) list \<Rightarrow> 'p lexical_writer \<Rightarrow> bool" where
  "writer_wf ds w \<longleftrightarrow> distinct (map fst (pending w)) \<and> keys (pending w) \<inter> keys ds \<subseteq> set (dirty_marks w) \<and>
     set (dirty_marks w) \<subseteq> set (pending_deletions w) \<and>
     set (live_docs (retained_segments w)) \<subseteq> set ds \<and>
     keys (live_docs (retained_segments w)) \<inter> set (dirty_marks w) = {} \<and>
     (set (pending_deletions w) - set (dirty_marks w)) \<inter> keys ds \<subseteq> keys (live_docs (retained_segments w))"

definition lex_wf :: "'p lexical_store \<Rightarrow> bool" where
  "lex_wf s \<longleftrightarrow> distinct (map fst (contents (lex_disk s))) \<and>
     (\<forall>w. writer_cache s = Some w \<longrightarrow> writer_wf (contents (lex_disk s)) w)"

lemma set_push_new: "set (fold push_new xs ids) = set ids \<union> set xs"
  by (induction xs arbitrary: ids) (auto simp: push_new_def)

lemma distinct_push_new: "distinct ids \<Longrightarrow> distinct (fold push_new xs ids)"
  by (induction xs arbitrary: ids) (auto simp: push_new_def)

lemma set_push_unless:
  "set (fold (\<lambda>i ids. if i \<in> S then ids else push_new i ids) xs ids) = set ids \<union> (set xs - S)"
  by (induction xs arbitrary: ids) (auto simp: push_new_def)

lemma distinct_push_unless:
  "distinct ids \<Longrightarrow> distinct (fold (\<lambda>i ids. if i \<in> S then ids else push_new i ids) xs ids)"
  by (induction xs arbitrary: ids) (auto simp: push_new_def)

lemma set_matching: "i \<in> set (matching_ids f e ds) \<longleftrightarrow> (\<exists>p. (i, p) \<in> set ds \<and> f p = Some e)"
  by (force simp: matching_ids_def)

lemma set_writer_find:
  "i \<in> set (writer_find_doc_ids f e w) \<longleftrightarrow>
   (\<exists>p. ((i, p) \<in> set (pending w) \<or> (i, p) \<in> set (live_docs (retained_segments w))) \<and> f p = Some e)"
  unfolding writer_find_doc_ids_def set_push_new
  by (auto simp: set_matching pending_def live_docs_def)

lemma lex_view_wf:
  assumes "lex_wf s" "writer_cache s = Some w"
  shows "lex_view s i = Some p \<longleftrightarrow> (i, p) \<in> set (pending w) \<or>
    i \<notin> keys (pending w) \<and> i \<notin> set (dirty_marks w) \<and> (i, p) \<in> set (contents (lex_disk s))"
proof -
  have d: "distinct (map fst (pending w))" "distinct (map fst (contents (lex_disk s)))"
    using assms by (simp_all add: lex_wf_def writer_wf_def)
  show ?thesis
  proof (cases "map_of (pending w) i")
    case None
    then have "i \<notin> keys (pending w)" by (simp add: map_of_eq_None_iff)
    then show ?thesis using None assms(2) d by (auto simp: lex_view_def rev_image_eqI)
  next
    case (Some q)
    then have "(i, q) \<in> set (pending w)" by (rule map_of_SomeD)
    moreover have "p = q" if "(i, p) \<in> set (pending w)"
      using that Some d(1) by (simp add: map_of_is_SomeI)
    ultimately show ?thesis using Some assms(2) by (force simp: lex_view_def)
  qed
qed

lemma find_doc_ids_set:
  assumes "lex_wf s"
  shows "i \<in> set (find_doc_ids f e s) \<longleftrightarrow> (\<exists>p. lex_view s i = Some p \<and> f p = Some e)"
proof (cases "writer_cache s")
  case None
  have "distinct (map fst (contents (lex_disk s)))" using assms by (simp add: lex_wf_def)
  with None show ?thesis
    by (simp add: find_doc_ids_def set_push_new set_matching lex_view_def)
next
  case (Some w)
  let ?C = "contents (lex_disk s)" and ?R = "live_docs (retained_segments w)"
  have d: "distinct (map fst ?C)" and w: "writer_wf ?C w" using assms Some by (simp_all add: lex_wf_def)
  have "i \<in> set (find_doc_ids f e s) \<longleftrightarrow> (\<exists>p. ((i, p) \<in> set (pending w) \<or> (i, p) \<in> set ?R \<or>
      i \<notin> set (pending_deletions w) \<and> (i, p) \<in> set ?C) \<and> f p = Some e)"
    using Some by (auto simp: find_doc_ids_def Let_def set_push_unless set_matching set_writer_find)
  moreover have "((i, p) \<in> set (pending w) \<or> (i, p) \<in> set ?R \<or>
      i \<notin> set (pending_deletions w) \<and> (i, p) \<in> set ?C) \<longleftrightarrow> lex_view s i = Some p" for p
  proof -
    have w1: "keys (pending w) \<inter> keys ?C \<subseteq> set (dirty_marks w)" "set (dirty_marks w) \<subseteq> set (pending_deletions w)"
      and w2: "set ?R \<subseteq> set ?C" "keys ?R \<inter> set (dirty_marks w) = {}"
      and w3: "(set (pending_deletions w) - set (dirty_marks w)) \<inter> keys ?C \<subseteq> keys ?R"
      using w by (simp_all add: writer_wf_def)
    have key: "i \<in> keys ds" if "(i, p) \<in> set ds" for ds using that by (rule rev_image_eqI) simp
    have 1: "(i, p) \<in> set ?R" if "(i, p) \<in> set ?C" "i \<in> set (pending_deletions w)" "i \<notin> set (dirty_marks w)"
    proof -
      have "i \<in> keys ?R" using key [OF that(1)] that(2,3) w3 by blast
      then obtain q where q: "(i, q) \<in> set ?R" by auto
      with w2(1) have "(i, q) \<in> set ?C" by blast
      then have "q = p" using eq_key_imp_eq_value [OF d _ that(1)] by blast
      with q show ?thesis by simp
    qed
    have 2: "i \<notin> keys (pending w) \<and> i \<notin> set (dirty_marks w) \<and> (i, p) \<in> set ?C" if "(i, p) \<in> set ?R"
    proof -
      have "(i, p) \<in> set ?C" "i \<notin> set (dirty_marks w)" using key [OF that] that w2 by blast+
      with key w1(1) show ?thesis by blast
    qed
    have 3: "i \<notin> keys (pending w) \<and> i \<notin> set (dirty_marks w)"
      if "i \<notin> set (pending_deletions w)" "(i, p) \<in> set ?C"
      using key [OF that(2)] that(1) w1 by blast
    show ?thesis unfolding lex_view_wf [OF assms Some] using 1 2 3 by blast
  qed
  ultimately show ?thesis by simp
qed

lemma find_doc_ids_distinct: "distinct (find_doc_ids f e s)"
  unfolding find_doc_ids_def Let_def
  by (rule distinct_push_unless) (simp add: writer_find_doc_ids_def distinct_push_new split: option.split)

text \<open>Every operation that returns Ok keeps the lookup exact, and a commit does even when it fails.\<close>

lemma lex_wfI:
  "distinct (map fst (contents (lex_disk s))) \<Longrightarrow> writer_cache s = Some w \<Longrightarrow>
   writer_wf (contents (lex_disk s)) w \<Longrightarrow> lex_wf s"
  by (simp add: lex_wf_def)

lemma lex_wf_faults [simp]: "lex_wf (s\<lparr>lex_faults := fs\<rparr>) = lex_wf s"
  by (simp add: lex_wf_def)

lemma lex_wf_undo [simp]: "lex_wf (s\<lparr>lex_undo := ds\<rparr>) = lex_wf s"
  by (simp add: lex_wf_def)

lemma writer_wf_new: "writer_wf ds (lexical_writer_new k)"
  by (simp add: writer_wf_def) (simp add: lexical_writer_new_def)

lemma cached_writer_wf: "lex_wf s \<Longrightarrow> post lex_cached_writer s (\<lambda>r s'. lex_wf s' \<and> (ok r \<longrightarrow> writer_cache s' \<noteq> None))"
proof (cases "writer_cache s = None")
  case True
  assume "lex_wf s"
  then have "post (lex_io ''creating the writer failed''
          (\<lambda>s. s\<lparr>writer_cache := Some (lexical_writer_new (last_wal_seq (shared_metadata s)))\<rparr>)
          (\<lambda>_ _ s. s)) s (\<lambda>r s'. lex_wf s' \<and> (ok r \<longrightarrow> writer_cache s' \<noteq> None))"
    by (intro lex_io_postI) (simp_all add: lex_wf_def writer_wf_new)
  with True show ?thesis by (simp add: lex_cached_writer_def post_def)
next
  case False
  then have "lex_cached_writer s = (Inr (), s)" by (auto simp: lex_cached_writer_def)
  moreover assume "lex_wf s"
  ultimately show ?thesis using False by (simp add: post_def)
qed

lemma keys_without [simp]: "keys (without ids ds) = keys ds - set ids"
  by (force simp: without_def)

lemma set_without: "set (without ids ds) = {(i, p) \<in> set ds. i \<notin> set ids}"
  by (auto simp: without_def)

lemma distinct_without: "distinct (map fst ds) \<Longrightarrow> distinct (map fst (without ids ds))"
  unfolding without_def by (rule distinct_map_filter)

lemma delete_is_without: "AList.delete i ds = without [i] ds"
  by (induction ds) (auto simp: without_def)

lemma pending_removed:
  "pending (mark_in_segments i (remove_pending_document i w)) = without [i] (pending w)"
  by (simp add: pending_def mark_in_segments_def remove_pending_document_def delete_is_without live_docs_mark)
    (simp add: without_def)

lemma not_held_keys: "filter (holds_doc i) sgs = [] \<Longrightarrow> i \<notin> keys (live_docs sgs)"
  using not_held [of i sgs] by (simp add: map_of_eq_None_iff)

lemma remove_then_mark_wf:
  assumes "lex_wf s" "writer_cache s = Some w"
  shows "post (sbind (modify (on_writer (remove_pending_document i))) (\<lambda>_. mark_persisted_doc_deleted i)) s
    (\<lambda>r s'. ok r \<longrightarrow> lex_wf s' \<and> (\<exists>w'. writer_cache s' = Some w' \<and> i \<notin> keys (pending w') \<and>
      (i \<in> keys (contents (lex_disk s')) \<longrightarrow> i \<in> set (dirty_marks w'))))"
proof -
  let ?C = "contents (lex_disk s)" and ?s = "on_writer (remove_pending_document i) s"
    and ?w = "remove_pending_document i w"
  have d: "distinct (map fst ?C)" and wf: "writer_wf ?C w" using assms by (simp_all add: lex_wf_def)
  have w: "writer_cache ?s = Some ?w" "lex_disk ?s = lex_disk s" using assms(2) by (simp_all add: on_writer_def)
  have same: "dirty_marks ?w = dirty_marks w" "pending_deletions ?w = pending_deletions w"
    "retained_segments ?w = retained_segments w" "pending_publish ?w = pending_publish w"
    by (simp_all add: remove_pending_document_def)
  let ?Q = "\<lambda>(r :: unit res) s'. ok r \<longrightarrow> lex_wf s' \<and> (\<exists>w'. writer_cache s' = Some w' \<and> i \<notin> keys (pending w') \<and>
      (i \<in> keys (contents (lex_disk s')) \<longrightarrow> i \<in> set (dirty_marks w')))"
  have "post (mark_persisted_doc_deleted i) ?s ?Q"
  proof (cases "find_segments_for_doc i ?s ?w = []")
    case True
    then have n: "i \<notin> keys ?C" "i \<notin> keys (live_docs (pending_publish w))"
      using not_held_keys same w(2) by (auto simp: find_segments_for_doc_def)
    have p: "pending ?w = without [i] (pending w)"
      using n(2) by (simp add: pending_def remove_pending_document_def delete_is_without)
        (force simp: without_def intro!: filter_True [symmetric])
    have "writer_wf ?C ?w" using wf by (auto simp: writer_wf_def p same distinct_without)
    moreover have "i \<notin> keys (pending ?w)" by (simp only: p keys_without) simp
    ultimately show ?thesis
      using True w d n(1) by (simp add: mark_persisted_doc_deleted_def post_def lex_wf_def)
  next
    case False
    let ?w' = "(mark_in_segments i ?w)\<lparr>pending_deletions := List.insert i (pending_deletions w)\<rparr>"
    have p: "pending ?w' = without [i] (pending w)" by (simp add: pending_removed)
    have f: "set (dirty_marks ?w') = insert i (set (dirty_marks w))"
      "set (pending_deletions ?w') = insert i (set (pending_deletions w))"
      "live_docs (retained_segments ?w') = without [i] (live_docs (retained_segments w))"
      by (simp_all add: mark_in_segments_def same live_docs_mark)
    have wf': "writer_wf ?C ?w'"
      unfolding writer_wf_def p f keys_without unfolding set_without
      using wf by (auto simp: writer_wf_def distinct_without)
    have "post (lex_io ''marking the document deleted failed''
          (on_writer (\<lambda>w. (mark_in_segments i w)\<lparr>pending_deletions := List.insert i (pending_deletions w)\<rparr>))
          (\<lambda>_ b s. if b then on_writer (mark_in_segments i) s else s)) ?s ?Q"
    proof (rule lex_io_postI)
      fix fs
      let ?t = "on_writer (\<lambda>w. (mark_in_segments i w)\<lparr>pending_deletions := List.insert i (pending_deletions w)\<rparr>)
        (?s\<lparr>lex_faults := fs\<rparr>)"
      have t: "writer_cache ?t = Some ?w'" "lex_disk ?t = lex_disk s"
        using assms(2) same by (simp_all add: on_writer_def)
      then have "lex_wf ?t" using d wf' by (intro lex_wfI [of _ ?w']) simp_all
      moreover have "i \<notin> keys (pending ?w')" "i \<in> set (dirty_marks ?w')" using p f by simp_all
      ultimately show "?Q (Inr ()) ?t" using t(1) by blast
    qed simp
    with False w show ?thesis by (simp add: mark_persisted_doc_deleted_def post_def)
  qed
  then show ?thesis by (simp only: post_sbind post_modify sum.case)
qed

lemma delete_wf: "lex_wf s \<Longrightarrow> post (lex_delete_document i) s (\<lambda>r s'. ok r \<longrightarrow> lex_wf s')"
  unfolding lex_delete_document_def writer_delete_document_def
proof (rule post_sbindI [OF cached_writer_wf], goal_cases)
  case (3 x s')
  then obtain w where "writer_cache s' = Some w" by auto
  with 3 show ?case by (intro post_mono [OF remove_then_mark_wf]) auto
qed simp_all

lemma upsert_wf: "lex_wf s \<Longrightarrow> post (apply_prepared_upsert i p) s (\<lambda>r s'. ok r \<longrightarrow> lex_wf s')"
  unfolding apply_prepared_upsert_def buffer_analyzed_document_sbind
proof (rule post_sbindI [OF cached_writer_wf], goal_cases)
  case (3 x s')
  then obtain w where w: "writer_cache s' = Some w" "lex_wf s'" by auto
  show ?case
  proof (rule post_sbindI [OF remove_then_mark_wf [OF w(2,1), of i]], goal_cases)
    case (2 x s'')
    then obtain w' where w': "writer_cache s'' = Some w'" "i \<notin> keys (pending w')" "lex_wf s''"
      "i \<in> keys (contents (lex_disk s'')) \<Longrightarrow> i \<in> set (dirty_marks w')" by auto
    let ?w = "buffer_analyzed i p w'"
    have f: "set (pending ?w) = insert (i, p) (set (pending w'))" "distinct (map fst (pending ?w))"
      "dirty_marks ?w = dirty_marks w'" "pending_deletions ?w = pending_deletions w'"
      "retained_segments ?w = retained_segments w'"
      using w' by (auto simp: lex_wf_def writer_wf_def buffer_analyzed_def pending_def)
    have "writer_wf (contents (lex_disk s'')) ?w"
      using w' f by (auto simp: lex_wf_def writer_wf_def)
    then show ?case using w'(1,3) by (simp add: post_simps on_writer_def lex_wf_def)
  qed simp
qed simp_all


text \<open>The steps of a commit, whatever they return.\<close>

lemma flush_segment_wf:
  assumes "lex_wf s"
  shows "post flush_segment s (\<lambda>r s'. lex_wf s')"
proof (cases "writer_cache s")
  case (Some w)
  have "writer_wf ds (flush_buffer w) = writer_wf ds w" for ds
    using flush_buffer_pending [of w] by (simp add: writer_wf_def) (simp add: flush_buffer_def)
  then have "post (lex_io ''writing the segment failed'' (on_writer flush_buffer) (\<lambda>_ _ s. s)) s
      (\<lambda>r s'. lex_wf s')"
    using assms Some by (intro lex_io_postI) (simp_all add: lex_wf_def on_writer_def)
  with Some assms show ?thesis by (simp add: flush_segment_def post_def)
qed (use assms in \<open>simp add: flush_segment_def post_def\<close>)

lemma drop_deletions_wf:
  assumes "lex_wf s" "writer_cache s = Some w" "set ids \<subseteq> set (dirty_marks w)"
  shows "lex_wf (drop_deletions ids s)"
proof -
  let ?C = "contents (lex_disk s)" and ?w = "w\<lparr>dirty_marks := filter (\<lambda>i. i \<notin> set ids) (dirty_marks w)\<rparr>"
  have C: "contents (lex_disk (drop_deletions ids s)) = without ids ?C"
    by (simp add: drop_deletions_def on_writer_def set_disk_def Let_def live_docs_mark)
  have w: "writer_wf ?C w" "distinct (map fst ?C)" using assms by (simp_all add: lex_wf_def)
  have w1: "keys (pending w) \<inter> keys ?C \<subseteq> set (dirty_marks w)" "set (dirty_marks w) \<subseteq> set (pending_deletions w)"
    and w2: "set (live_docs (retained_segments w)) \<subseteq> set ?C"
      "keys (live_docs (retained_segments w)) \<inter> set (dirty_marks w) = {}"
    and w3: "(set (pending_deletions w) - set (dirty_marks w)) \<inter> keys ?C \<subseteq> keys (live_docs (retained_segments w))"
    and w4: "distinct (map fst (pending w))"
    using w(1) by (simp_all add: writer_wf_def)
  have R: "set (live_docs (retained_segments w)) \<subseteq> {(i, p) \<in> set ?C. i \<notin> set ids}"
  proof
    fix x
    assume x: "x \<in> set (live_docs (retained_segments w))"
    then have "fst x \<notin> set (dirty_marks w)" using w2(2) by blast
    with x w2(1) assms(3) show "x \<in> {(i, p) \<in> set ?C. i \<notin> set ids}" by auto
  qed
  have "writer_wf (without ids ?C) ?w"
    unfolding writer_wf_def keys_without unfolding set_without
    using w4 R
  proof (intro conjI)
    show "keys (pending ?w) \<inter> (keys ?C - set ids) \<subseteq> set (dirty_marks ?w)" using w1(1) by auto
    show "set (dirty_marks ?w) \<subseteq> set (pending_deletions ?w)" using w1(2) by auto
    show "keys (live_docs (retained_segments ?w)) \<inter> set (dirty_marks ?w) = {}" using w2(2) by auto
    show "(set (pending_deletions ?w) - set (dirty_marks ?w)) \<inter> (keys ?C - set ids)
      \<subseteq> keys (live_docs (retained_segments ?w))" using w3 by auto
  qed simp_all
  moreover have "writer_cache (drop_deletions ids s) = Some ?w"
    using assms(2) by (simp add: drop_deletions_def on_writer_def set_disk_def Let_def)
  ultimately show ?thesis using w(2) by (simp add: lex_wf_def C distinct_without)
qed

lemma flush_deletions_wf:
  assumes "lex_wf s" "writer_cache s = Some w"
  shows "post flush_deletions s (\<lambda>r s'. lex_wf s' \<and>
    (ok r \<longrightarrow> (\<exists>w'. writer_cache s' = Some w' \<and> dirty_marks w' = [])))"
proof (cases "dirty_marks w = []")
  case True
  with assms show ?thesis by (simp add: flush_deletions_def post_def)
next
  case False
  have p: "lex_wf (drop_deletions ids (s\<lparr>lex_faults := fs\<rparr>))" if "set ids \<subseteq> set (dirty_marks w)" for ids fs
    by (rule drop_deletions_wf [of _ w]) (use assms that in simp_all)
  have q: "\<exists>w'. writer_cache (drop_deletions (dirty_marks w) (s\<lparr>lex_faults := fs\<rparr>)) = Some w' \<and>
      dirty_marks w' = []" for fs
    using assms(2) by (simp add: drop_deletions_def on_writer_def set_disk_def Let_def)
  have "post (lex_io ''writing the deletions failed'' (drop_deletions (dirty_marks w))
      (\<lambda>ids _. drop_deletions (filter (\<lambda>i. i \<in> set ids) (dirty_marks w)))) s
      (\<lambda>r s'. lex_wf s' \<and> (ok r \<longrightarrow> (\<exists>w'. writer_cache s' = Some w' \<and> dirty_marks w' = [])))"
    by (rule lex_io_postI) (use p q in \<open>simp_all add: subset_iff\<close>)
  with False assms show ?thesis by (simp add: flush_deletions_def post_def)
qed

lemma publish_pending_wf:
  assumes "lex_wf s" "writer_cache s = Some w" "dirty_marks w = []"
  shows "post publish_pending_segments s (\<lambda>r s'. lex_wf s' \<and>
    (ok r \<longrightarrow> (\<exists>w'. writer_cache s' = Some w' \<and> dirty_marks w' = [])))"
proof (cases "pending_publish w = []")
  case True
  with assms show ?thesis by (simp add: publish_pending_segments_def post_def)
next
  case False
  let ?C = "contents (lex_disk s)" and ?P = "live_docs (pending_publish w)"
    and ?w = "w\<lparr>retained_segments := retained_segments w @ pending_publish w, pending_publish := []\<rparr>"
  let ?ok = "\<lambda>s. on_writer (\<lambda>w. w\<lparr>retained_segments := retained_segments w @ pending_publish w,
      pending_publish := []\<rparr>) (set_disk (with_segments (pending_publish w) (lex_disk s)) s)"
  have d: "distinct (map fst ?C)" and w: "writer_wf ?C w" using assms by (simp_all add: lex_wf_def)
  have p: "set (pending w) = set (buffered_docs w) \<union> set ?P" "set (pending ?w) = set (buffered_docs w)"
    "distinct (map fst (buffered_docs w @ ?P))"
    using w by (auto simp: pending_def writer_wf_def)
  have disj: "keys ?P \<inter> keys ?C = {}" "keys (buffered_docs w) \<inter> keys ?P = {}" "keys (buffered_docs w) \<inter> keys ?C = {}"
    using w assms(3) p by (auto simp: writer_wf_def)
  have "distinct (map fst (?P @ ?C))" using d p(3) disj(1) by auto
  moreover have "writer_wf (?P @ ?C) ?w"
    using w disj p assms(3) by (auto simp: writer_wf_def live_docs_append) (auto simp: pending_def)
  ultimately have good: "lex_wf (?ok (s\<lparr>lex_faults := fs\<rparr>))" for fs
    using assms(2) by (simp add: lex_wf_def on_writer_def set_disk_def with_segments_def live_docs_append)
  have "post (lex_io ''saving the manifest failed'' ?ok
      (\<lambda>_ b s. if b then s\<lparr>lex_undo := with_segments (pending_publish w) (lex_disk s) # lex_undo s\<rparr> else s)) s
      (\<lambda>r s'. lex_wf s' \<and> (ok r \<longrightarrow> (\<exists>w'. writer_cache s' = Some w' \<and> dirty_marks w' = [])))"
    by (rule lex_io_postI) (use good assms in \<open>simp_all add: on_writer_def set_disk_def\<close>)
  with False assms show ?thesis by (simp add: publish_pending_segments_def post_def)
qed

lemma write_metadata_wf:
  assumes "lex_wf s" "writer_cache s = Some w" "dirty_marks w = []"
  shows "post write_metadata_json s (\<lambda>r s'. lex_wf s' \<and>
    (ok r \<longrightarrow> (\<exists>w'. writer_cache s' = Some w' \<and> dirty_marks w' = [])))"
proof -
  obtain n1 n2 where c: "index_counts (manifest (lex_disk s)) = (n1, n2)" by fastforce
  let ?m = "\<lparr>doc_count = n1, deleted_count = n2,
      last_wal_seq = max (last_wal_seq (shared_metadata s)) (writer_wal_seq w)\<rparr>"
  let ?Q = "\<lambda>(r :: unit res) s'. lex_wf s' \<and> (ok r \<longrightarrow> (\<exists>w'. writer_cache s' = Some w' \<and> dirty_marks w' = []))"
  have "post (lex_io ''saving the metadata failed''
      (\<lambda>t. (set_disk ((lex_disk s)\<lparr>metadata := ?m\<rparr>) t)\<lparr>shared_metadata := ?m\<rparr>)
      (\<lambda>_ b t. if b then set_disk ((lex_disk s)\<lparr>metadata := ?m\<rparr>) t else t)) s ?Q"
    by (rule lex_io_postI) (use assms in \<open>simp_all add: lex_wf_def set_disk_def\<close>)
  then show ?thesis
    using assms c unfolding write_metadata_json_def post_def by (simp add: Let_def split: prod.splits)
qed

lemma seal_wf:
  assumes "lex_wf s"
  shows "post (lex_seal k) s (\<lambda>r s'. lex_wf s')"
proof (cases "writer_cache s")
  case None
  with assms show ?thesis by (simp add: lex_seal_def post_def)
next
  case (Some w)
  let ?s = "set_pending_wal_seq k s"
  have wf: "lex_wf ?s" "writer_cache ?s = Some (w\<lparr>writer_wal_seq := k\<rparr>)"
    using assms Some by (simp_all add: lex_wf_def writer_wf_def set_pending_wal_seq_def on_writer_def)
  have kept: "post flush_segment ?s (\<lambda>r s'. writer_cache s' \<noteq> None)"
    using wf(2) unfolding flush_segment_def post_def
    by (auto simp: lex_io_def on_writer_def split: list.splits index_fault.splits)
  have "post (sbind writer_commit (\<lambda>_. modify (\<lambda>s. s\<lparr>writer_cache := None\<rparr>))) ?s (\<lambda>r s'. lex_wf s')"
  proof (rule post_sbindI [where P = "\<lambda>r s'. lex_wf s'"])
    show "post writer_commit ?s (\<lambda>r s'. lex_wf s')"
      unfolding writer_commit_def
    proof (rule post_sbindI [OF post_conj [OF flush_segment_wf [OF wf(1)] kept]], goal_cases)
      case (2 u s1)
      then obtain w1 where w1: "lex_wf s1" "writer_cache s1 = Some w1" by auto
      show ?case
      proof (rule post_sbindI [OF flush_deletions_wf [OF w1]], goal_cases)
        case (2 u s2)
        then obtain w2 where w2: "lex_wf s2" "writer_cache s2 = Some w2" "dirty_marks w2 = []" by auto
        show ?case
        proof (rule post_sbindI [OF publish_pending_wf [OF w2]], goal_cases)
          case (2 u s3)
          then obtain w3 where w3: "lex_wf s3" "writer_cache s3 = Some w3" "dirty_marks w3 = []" by auto
          show ?case
          proof (rule post_sbindI [OF write_metadata_wf [OF w3]], goal_cases)
            case (2 u s4)
            then show ?case
              by (clarsimp simp: post_simps lex_wf_def on_writer_def) (simp add: writer_wf_def)
          qed simp
        qed simp
      qed simp
    qed simp
  qed (simp_all add: post_simps lex_wf_def)
  then show ?thesis by (simp only: post_def lex_seal_writer [OF Some])
qed

lemma commit_wf: "lex_wf s \<Longrightarrow> post (lex_commit_through k) s (\<lambda>r s'. lex_wf s')"
  unfolding lex_commit_through_def
proof (rule post_sbindI [OF seal_wf], goal_cases)
  case (3 x s')
  have sync: "post lex_sync t (\<lambda>r s'. lex_wf s')" if "lex_wf t" for t :: "'a lexical_store"
    unfolding lex_sync_def by (rule lex_io_postI) (use that in simp_all)
  show ?case unfolding finish_commit_def by (rule post_sbindI [OF sync [OF 3(2)]]) (simp_all add: sync)
qed simp_all

lemma prepare_wf: "lex_wf s \<Longrightarrow> post (lex_prepare_upsert full analyze doc) s (\<lambda>r s'. lex_wf s')"
  unfolding lex_prepare_upsert_def
proof (rule post_sbindI [OF cached_writer_wf], goal_cases)
  case (3 x s')
  then have wf: "lex_wf s'" by simp
  have "post (sbind (flush_if_full full) (\<lambda>_. ret a)) s' (\<lambda>r s'. lex_wf s')" for a :: 'a
  proof (rule post_sbindI [where P = "\<lambda>r s'. lex_wf s'"])
    show "post (flush_if_full full) s' (\<lambda>r s'. lex_wf s')"
      using flush_segment_wf [OF wf] wf by (simp add: flush_if_full_def post_def split: option.split)
  qed (simp_all add: post_simps)
  then show ?case using wf by (simp add: post_def split: sum.split)
qed simp_all


section \<open>Properties\<close>

text \<open>
  C17. A commit of the lexical store never changes what the store holds, whatever storage call fails;
  when it returns Ok, every crash finds all of it on the disk, under a checkpoint no higher than the
  one committed or an older one, and a lookup that was exact stays exact even when it fails.
\<close>

theorem lex_commit_durable:
  assumes "lex_inv s"
  shows "post (lex_commit_through k) s (\<lambda>r s'. lex_inv s' \<and> lex_view s' = lex_view s \<and>
    (lex_wf s \<longrightarrow> lex_wf s') \<and>
    (ok r \<longrightarrow> (\<forall>(c, j) \<in> lex_crashes s'. c = lex_view s \<and> j \<le> max (lex_level s) k)))"
proof -
  have "post (lex_commit_through k) s (\<lambda>r s'. lex_inv s' \<and> lex_view s' = lex_view s \<and>
    (ok r \<longrightarrow> (\<forall>(c, j) \<in> lex_crashes s'. c = lex_view s \<and> j \<le> max (lex_level s) k)))"
    unfolding lex_commit_through_def
  proof (rule post_sbindI [OF lex_seal_law [OF assms, of k]], goal_cases)
    case (1 e s1)
    then show ?case by (simp add: moved_def)
  next
    case (2 u s1)
    then have s1: "lex_inv s1" "lex_sealed s1" "lex_view s1 = lex_view s" "lex_level s1 \<le> max (lex_level s) k"
      by (auto simp: moved_def)
    show ?case
    proof (rule post_mono [OF lex_publish_law [OF s1(1,2), of k]])
      fix r :: "unit res" and s'
      assume a: "lex_inv s' \<and> lex_moved k s1 s' \<and> (ok r \<longrightarrow> lex_unsaved s' = {} \<and>
        (\<forall>(c, j) \<in> lex_crashes s'. c = lex_published s' \<and> j \<le> lex_level s'))"
      then have v: "lex_view s' = lex_view s" "lex_level s' \<le> max (lex_level s) k"
        using s1 by (auto simp: moved_def)
      moreover have "lex_published s' = lex_view s" if "ok r"
        using a that lex_agree [of _ s'] v(1) by auto
      ultimately show "lex_inv s' \<and> lex_view s' = lex_view s \<and>
          (ok r \<longrightarrow> (\<forall>(c, j) \<in> lex_crashes s'. c = lex_view s \<and> j \<le> max (lex_level s) k))"
        using a by fastforce
    qed
  qed
  moreover have "post (lex_commit_through k) s (\<lambda>r s'. lex_wf s \<longrightarrow> lex_wf s')"
    using commit_wf [of s k] by (cases "lex_wf s") (simp_all add: post_def)
  ultimately show ?thesis by (rule post_mono [OF post_conj]) simp
qed

text \<open>A store with a put, an earlier put of the same document replaced, and a failing manifest.\<close>

definition example_lexical :: "index_fault list \<Rightarrow> string lexical_store" where
  "example_lexical fs =
  \<lparr>lex_disk = \<lparr>manifest = [\<lparr>held = [(7, ''a'')], marks = []\<rparr>],
     metadata = \<lparr>doc_count = 1, deleted_count = 0, last_wal_seq = 1\<rparr>\<rparr>,
   lex_undo = [], shared_metadata = \<lparr>doc_count = 1, deleted_count = 0, last_wal_seq = 1\<rparr>,
   writer_cache = Some \<lparr>buffered_docs = [(7, ''b''), (8, ''b'')],
     pending_publish = [], retained_segments = [], dirty_marks = [7], pending_deletions = [7],
     writer_wal_seq = 1\<rparr>,
   lex_faults = fs\<rparr>"

lemma example_lexical_store:
  "lex_disk (example_lexical fs) = \<lparr>manifest = [\<lparr>held = [(7, ''a'')], marks = []\<rparr>],
     metadata = \<lparr>doc_count = 1, deleted_count = 0, last_wal_seq = 1\<rparr>\<rparr>"
  "shared_metadata (example_lexical fs) = \<lparr>doc_count = 1, deleted_count = 0, last_wal_seq = 1\<rparr>"
  "writer_cache (example_lexical fs) = Some \<lparr>buffered_docs = [(7, ''b''), (8, ''b'')],
     pending_publish = [], retained_segments = [], dirty_marks = [7], pending_deletions = [7],
     writer_wal_seq = 1\<rparr>"
  by (simp_all add: example_lexical_def)

theorem lex_commit_durable_witness:
  "post (lex_commit_through 3) (example_lexical [Works, Works, Fails [] True]) (\<lambda>r s'.
     lex_view s' 7 = Some ''b'')"
proof -
  have "lex_inv (example_lexical [Works, Works, Fails [] True])"
    by (simp add: lex_inv_def example_lexical_store)
  then show ?thesis
    by (rule post_mono [OF lex_commit_durable])
      (simp add: lex_view_def example_lexical_store pending_def live_docs_def)
qed

text \<open>
  C18. The lookup of an external id returns exactly the documents with that id that the store holds,
  each once: no superseded or deleted version, none twice, none missing, with documents buffered,
  flushed, published by a commit that then failed, or committed; and puts, deletes and commits keep
  it so.
\<close>

theorem find_doc_ids_exact:
  assumes "lex_wf s"
  shows "set (find_doc_ids f e s) = {i. \<exists>p. lex_view s i = Some p \<and> f p = Some e} \<and>
    distinct (find_doc_ids f e s) \<and>
    post (apply_prepared_upsert i p) s (\<lambda>r s'. ok r \<longrightarrow> lex_wf s') \<and>
    post (lex_delete_document i) s (\<lambda>r s'. ok r \<longrightarrow> lex_wf s') \<and>
    post (lex_prepare_upsert full analyze doc) s (\<lambda>r s'. lex_wf s') \<and>
    post (lex_commit_through k) s (\<lambda>r s'. lex_wf s')"
  by (intro conjI upsert_wf [OF assms] delete_wf [OF assms] prepare_wf [OF assms] commit_wf [OF assms]
      find_doc_ids_distinct) (simp add: set_eq_iff find_doc_ids_set [OF assms])

lemma example_lexical_wf: "lex_wf (example_lexical fs)"
  by (simp add: lex_wf_def writer_wf_def example_lexical_store pending_def live_docs_def live_def without_def)

theorem find_doc_ids_exact_witness:
  "set (find_doc_ids Some ''b'' (example_lexical [])) = {7, 8}"
proof -
  have "{i. \<exists>p. lex_view (example_lexical []) i = Some p \<and> Some p = Some ''b''} = {7, 8}"
    by (auto simp: lex_view_def example_lexical_store pending_def live_docs_def live_def without_def
        split: if_splits)
  then show ?thesis using find_doc_ids_exact [OF example_lexical_wf, of Some "''b''" "[]"] by simp
qed


end
