(* ===== verification/Posting_Iterator.thy ===== *)
theory Posting_Iterator
  imports Prelude
begin

text \<open>
  The skip table of a posting list, \<open>build_skip_levels\<close> of
  \<^verbatim>\<open>laurus/src/lexical/index/inverted/core/posting.rs\<close>, and the cursor over a decoded list,
  \<open>InvertedIndexPostingIterator\<close> of \<^verbatim>\<open>laurus/src/lexical/index/inverted/reader.rs\<close>, which descends
  the table before it scans. Document ids and positions are natural numbers; ids are \<open>u32\<close> values.
\<close>

section \<open>The skip table\<close>

definition SKIP_INTERVAL :: nat where
  "SKIP_INTERVAL = 8"

definition u32_max :: nat where
  "u32_max = 2 ^ 32 - 1"

text \<open>
  Each level's stride and number of entries, bottom level first. \<open>checked_mul\<close> stops the table where
  the stride would overflow.
\<close>

function skip_level_shape_from :: "nat \<Rightarrow> nat \<Rightarrow> (nat \<times> nat) list" where
  "skip_level_shape_from n current =
     (let len = n div current
      in if len = 0 then []
         else if len \<le> 1 \<or> current * SKIP_INTERVAL > u64_max then [(current, len)]
         else (current, len) # skip_level_shape_from n (current * SKIP_INTERVAL))"
  by pat_completeness auto
termination
proof (relation "measure (\<lambda>(n, current). n - current)", goal_cases)
  case (2 n current len)
  then have "current \<noteq> 0" by (intro notI) simp
  moreover have "2 * current \<le> n div current * current" using 2 by simp
  then have "2 * current \<le> n" using div_times_less_eq_dividend [of n current] by linarith
  ultimately show ?case by (auto simp: SKIP_INTERVAL_def)
qed simp

declare skip_level_shape_from.simps [simp del]

definition skip_level_shape :: "nat \<Rightarrow> (nat \<times> nat) list" where
  "skip_level_shape n =
     (if n \<ge> SKIP_INTERVAL then skip_level_shape_from n SKIP_INTERVAL else [])"

definition build_skip_levels :: "nat list \<Rightarrow> nat list list" where
  "build_skip_levels doc_ids =
     map (\<lambda>(step, len). map (\<lambda>i. doc_ids ! ((i + 1) * step - 1)) [0..<len])
       (skip_level_shape (length doc_ids))"

section \<open>The cursor\<close>

record posting_iterator =
  doc_ids :: "nat list"
  skip_levels :: "nat list list"
  position :: nat
  started :: bool

definition posting_iterator_new :: "nat list \<Rightarrow> posting_iterator" where
  "posting_iterator_new ds =
     \<lparr>doc_ids = ds, skip_levels = build_skip_levels ds, position = 0, started = False\<rparr>"

definition partition_point :: "nat \<Rightarrow> nat list \<Rightarrow> nat" where
  "partition_point target xs = length (takeWhile (\<lambda>x. x < target) xs)"

definition slice :: "nat \<Rightarrow> nat \<Rightarrow> 'a list \<Rightarrow> 'a list" where
  "slice lo hi xs = take (hi - lo) (drop lo xs)"

text \<open>The loop over the lower levels: \<open>k\<close> levels are left, the next one is \<open>levels ! (k - 1)\<close>.\<close>

fun descend :: "nat list list \<Rightarrow> nat \<Rightarrow> nat \<Rightarrow> nat \<Rightarrow> nat \<Rightarrow> nat \<Rightarrow> nat \<Rightarrow> nat" where
  "descend levels cursor target 0 step bucket_index lower = lower"
| "descend levels cursor target (Suc level) step bucket_index lower =
     (let step' = step div SKIP_INTERVAL;
          lvl = levels ! level;
          parent_lo = bucket_index * SKIP_INTERVAL;
          parent_hi = min (parent_lo + SKIP_INTERVAL) (length lvl);
          lo = max (cursor div step') parent_lo
      in if lo \<ge> parent_hi then
           descend levels cursor target level step' (parent_hi - 1) (max lower cursor)
         else
           let bucket_index' = lo + partition_point target (slice lo parent_hi lvl)
           in descend levels cursor target level step' bucket_index' (bucket_index' * step'))"

definition saturating_pow :: "nat \<Rightarrow> nat \<Rightarrow> nat" where
  "saturating_pow b k = min (b ^ k) u64_max"

definition skip_via_levels :: "nat \<Rightarrow> posting_iterator \<Rightarrow> nat" where
  "skip_via_levels target it =
     (let n = length (doc_ids it); cursor = position it; levels = skip_levels it
      in if cursor \<ge> n then n
         else if levels = [] then cursor
         else
           let top = length levels - 1;
               step = saturating_pow SKIP_INTERVAL (top + 1);
               top_lvl = levels ! top;
               bucket_lo = cursor div step
           in if bucket_lo \<ge> length top_lvl then cursor
              else
                let bucket_index = bucket_lo + partition_point target (drop bucket_lo top_lvl);
                    lower = descend levels cursor target top step bucket_index (bucket_index * step)
                in min (max lower cursor) n)"

definition it_doc_id :: "posting_iterator \<Rightarrow> nat" where
  "it_doc_id it = (if position it < length (doc_ids it) then doc_ids it ! position it else u64_max)"

definition it_next :: "posting_iterator \<Rightarrow> bool \<times> posting_iterator" where
  "it_next it =
     (if doc_ids it = [] then (False, it)
      else if \<not> started it then (True, it\<lparr>started := True\<rparr>)
      else (position it + 1 < length (doc_ids it), it\<lparr>position := position it + 1\<rparr>))"

text \<open>The final scan of \<open>skip_to\<close>: the first position from \<open>p\<close> on whose id reaches the target.\<close>

function scan_from :: "nat list \<Rightarrow> nat \<Rightarrow> nat \<Rightarrow> nat" where
  "scan_from ds target p =
     (if p < length ds then (if ds ! p \<ge> target then p else scan_from ds target (p + 1)) else p)"
  by pat_completeness auto
termination by (relation "measure (\<lambda>(ds, target, p). length ds - p)") auto

declare scan_from.simps [simp del]

definition it_skip_to :: "nat \<Rightarrow> posting_iterator \<Rightarrow> bool \<times> posting_iterator" where
  "it_skip_to target it =
     (let n = length (doc_ids it)
      in if n = 0 then (False, it\<lparr>started := True\<rparr>)
         else if target > u32_max then (False, it\<lparr>started := True, position := n\<rparr>)
         else let p = scan_from (doc_ids it) target (skip_via_levels target it)
              in (p < n, it\<lparr>started := True, position := p\<rparr>))"


section \<open>The shape of the table\<close>

lemma shape_from_nth:
  "l < length (skip_level_shape_from n c) \<Longrightarrow>
   skip_level_shape_from n c ! l = (c * SKIP_INTERVAL ^ l, n div (c * SKIP_INTERVAL ^ l)) \<and>
   0 < n div (c * SKIP_INTERVAL ^ l)"
proof (induction n c arbitrary: l rule: skip_level_shape_from.induct)
  case (1 n c)
  show ?case
  proof (cases l)
    case 0
    with "1.prems" show ?thesis
      by (subst (asm) skip_level_shape_from.simps, subst skip_level_shape_from.simps)
        (auto simp: Let_def split: if_splits)
  next
    case (Suc l')
    with "1.prems" have c: "\<not> n div c = 0" "\<not> (n div c \<le> 1 \<or> c * SKIP_INTERVAL > u64_max)"
      "l' < length (skip_level_shape_from n (c * SKIP_INTERVAL))"
      by (subst (asm) skip_level_shape_from.simps, auto simp: Let_def split: if_splits)+
    then have "skip_level_shape_from n c ! l = skip_level_shape_from n (c * SKIP_INTERVAL) ! l'"
      using Suc by (subst skip_level_shape_from.simps) (simp add: Let_def)
    with "1.IH" [OF refl c(1,2,3)] Suc show ?thesis by (simp add: mult.assoc)
  qed
qed

lemma level_nth:
  assumes "l < length (build_skip_levels ds)"
  shows "build_skip_levels ds ! l =
      map (\<lambda>i. ds ! ((i + 1) * SKIP_INTERVAL ^ (l + 1) - 1)) [0..<length ds div SKIP_INTERVAL ^ (l + 1)]"
    and "SKIP_INTERVAL ^ (l + 1) \<le> length ds"
proof -
  have l: "l < length (skip_level_shape_from (length ds) SKIP_INTERVAL)"
    and s: "skip_level_shape (length ds) = skip_level_shape_from (length ds) SKIP_INTERVAL"
    using assms by (auto simp: build_skip_levels_def skip_level_shape_def split: if_splits)
  note n = shape_from_nth [OF l]
  then show "build_skip_levels ds ! l =
      map (\<lambda>i. ds ! ((i + 1) * SKIP_INTERVAL ^ (l + 1) - 1)) [0..<length ds div SKIP_INTERVAL ^ (l + 1)]"
    using l s by (simp add: build_skip_levels_def)
  show "SKIP_INTERVAL ^ (l + 1) \<le> length ds"
    using n by (simp add: div_greater_zero_iff)
qed

section \<open>Skipping agrees with scanning\<close>

definition below :: "nat list \<Rightarrow> nat \<Rightarrow> nat \<Rightarrow> nat \<Rightarrow> bool" where
  "below ds target cursor hi \<longleftrightarrow> (\<forall>p. cursor \<le> p \<and> p < hi \<and> p < length ds \<longrightarrow> ds ! p < target)"

lemma below_mono: "below ds target cursor hi \<Longrightarrow> hi' \<le> hi \<Longrightarrow> below ds target cursor hi'"
  by (auto simp: below_def)

lemma below_cursor: "hi \<le> cursor \<Longrightarrow> below ds target cursor hi"
  by (auto simp: below_def)

lemma below_max: "below ds target cursor hi \<Longrightarrow> below ds target cursor (max hi cursor)"
  by (auto simp: below_def)

lemma partition_point_less:
  "i < partition_point target xs \<Longrightarrow> i < length xs \<and> xs ! i < target"
  unfolding partition_point_def
  by (metis length_takeWhile_le less_le_trans nth_mem set_takeWhileD takeWhile_nth)

lemma below_buckets:
  assumes s: "sorted ds" "0 < S" and hi: "hi \<le> length ds div S"
    and b: "below ds target cursor (lo * S)"
    and lvl: "lvl = map (\<lambda>i. ds ! ((i + 1) * S - 1)) [0..<length ds div S]"
  shows "below ds target cursor ((lo + partition_point target (slice lo hi lvl)) * S)"
  unfolding below_def
proof (intro allI impI, elim conjE)
  fix p
  assume p: "cursor \<le> p" "p < (lo + partition_point target (slice lo hi lvl)) * S" "p < length ds"
  show "ds ! p < target"
  proof (cases "p < lo * S")
    case True
    with b p show ?thesis by (auto simp: below_def)
  next
    case False
    let ?i = "p div S"
    have i: "lo \<le> ?i" using False s(2) by (simp add: less_eq_div_iff_mult_less_eq)
    have "?i < lo + partition_point target (slice lo hi lvl)"
      using p(2) s(2) by (simp add: div_less_iff_less_mult)
    then have "?i - lo < partition_point target (slice lo hi lvl)" using i by linarith
    then have q: "?i - lo < length (slice lo hi lvl)" "slice lo hi lvl ! (?i - lo) < target"
      using partition_point_less by blast+
    then have "?i < hi" "?i < length ds div S" using i hi by (auto simp: slice_def lvl)
    then have "slice lo hi lvl ! (?i - lo) = ds ! ((?i + 1) * S - 1)"
      using i hi by (simp add: slice_def lvl)
    with q have "ds ! ((?i + 1) * S - 1) < target" by simp
    moreover have "p \<le> (?i + 1) * S - 1"
      using s(2) dividend_less_div_times [of S p] by (simp add: algebra_simps)
    moreover have "(?i + 1) * S - 1 < length ds"
    proof -
      have "(?i + 1) * S \<le> length ds div S * S" using \<open>?i < length ds div S\<close> by (intro mult_right_mono) auto
      also have "\<dots> \<le> length ds" by simp
      finally show ?thesis using s(2) by (simp add: algebra_simps)
    qed
    ultimately show ?thesis using sorted_nth_mono [OF s(1), of p "(?i + 1) * S - 1"] by linarith
  qed
qed

lemma descend_below:
  assumes "sorted ds"
  shows "k < length (build_skip_levels ds) \<Longrightarrow> step = SKIP_INTERVAL ^ (k + 1) \<Longrightarrow>
    below ds target cursor (b * step) \<Longrightarrow> below ds target cursor lower \<Longrightarrow>
    below ds target cursor (descend (build_skip_levels ds) cursor target k step b lower)"
proof (induction k arbitrary: step b lower)
  case (Suc level)
  let ?S = "SKIP_INTERVAL ^ (level + 1)" and ?lvl = "build_skip_levels ds ! level"
  let ?plo = "b * SKIP_INTERVAL"
  let ?phi = "min (?plo + SKIP_INTERVAL) (length ?lvl)"
  let ?lo = "max (cursor div ?S) ?plo"
  have S: "step div SKIP_INTERVAL = ?S" "0 < ?S" using Suc.prems(2) by (simp_all add: SKIP_INTERVAL_def)
  have lev: "level < length (build_skip_levels ds)" using Suc.prems(1) by simp
  note lvl = level_nth(1) [OF lev]
  have plo: "below ds target cursor (?plo * ?S)"
    using Suc.prems(2,3) by (simp add: mult.assoc)
  show ?case
  proof (cases "?lo \<ge> ?phi")
    case True
    have "below ds target cursor ((?phi - 1) * ?S)"
    proof (cases "?phi \<le> ?plo")
      case True
      then have "(?phi - 1) * ?S \<le> ?plo * ?S" by (intro mult_right_mono) auto
      with plo show ?thesis by (rule below_mono)
    next
      case False
      with True have "?phi \<le> cursor div ?S" by linarith
      then have "(?phi - 1) * ?S \<le> cursor div ?S * ?S" by (intro mult_right_mono) auto
      also have "\<dots> \<le> cursor" by simp
      finally show ?thesis by (rule below_cursor)
    qed
    with Suc.IH [OF lev refl _ below_max [OF Suc.prems(4)], of "?phi - 1"] True show ?thesis
      by (simp add: S(1) Let_def del: power_Suc)
  next
    case False
    have "below ds target cursor (?lo * ?S)"
    proof (cases "cursor div ?S \<le> ?plo")
      case True
      with plo show ?thesis by (simp add: max_absorb2)
    next
      case False
      then show ?thesis by (intro below_cursor) (simp add: max_absorb1)
    qed
    moreover have "?phi \<le> length ds div ?S" using lvl by simp
    ultimately have "below ds target cursor ((?lo + partition_point target (slice ?lo ?phi ?lvl)) * ?S)"
      using assms S(2) lvl by (intro below_buckets) simp_all
    with Suc.IH [OF lev refl this this] False show ?thesis
      by (simp add: S(1) Let_def del: power_Suc)
  qed
qed simp

definition posting_inv :: "posting_iterator \<Rightarrow> bool" where
  "posting_inv it \<longleftrightarrow> sorted_wrt (<) (doc_ids it) \<and> (\<forall>d \<in> set (doc_ids it). d \<le> u32_max) \<and>
     skip_levels it = build_skip_levels (doc_ids it)"

lemma posting_length: "posting_inv it \<Longrightarrow> length (doc_ids it) \<le> u64_max"
proof -
  assume inv: "posting_inv it"
  then have "distinct (doc_ids it)"
    using strict_sorted_iff [of "doc_ids it"] by (simp add: posting_inv_def)
  moreover have "set (doc_ids it) \<subseteq> {..u32_max}" using inv by (auto simp: posting_inv_def)
  ultimately have "length (doc_ids it) \<le> card {..u32_max}"
    by (metis card_mono distinct_card finite_atMost)
  also have "\<dots> \<le> u64_max" by (simp add: u32_max_def u64_max_def)
  finally show ?thesis .
qed

lemma skip_via_levels_below:
  assumes "posting_inv it" "position it < length (doc_ids it)"
  shows "below (doc_ids it) target (position it) (skip_via_levels target it)"
    and "position it \<le> skip_via_levels target it" "skip_via_levels target it \<le> length (doc_ids it)"
proof -
  let ?ds = "doc_ids it" and ?c = "position it" and ?levels = "skip_levels it"
  have sorted: "sorted ?ds" using assms(1) strict_sorted_imp_sorted by (auto simp: posting_inv_def)
  have levels: "?levels = build_skip_levels ?ds" using assms(1) by (simp add: posting_inv_def)
  show "?c \<le> skip_via_levels target it" "skip_via_levels target it \<le> length ?ds"
    using assms(2) by (auto simp: skip_via_levels_def Let_def)
  show "below ?ds target ?c (skip_via_levels target it)"
  proof (cases "?levels = []")
    case True
    then show ?thesis using assms(2) by (auto simp: skip_via_levels_def Let_def intro: below_cursor)
  next
    case False
    let ?top = "length ?levels - 1"
    let ?S = "SKIP_INTERVAL ^ (?top + 1)" and ?lvl = "?levels ! ?top"
    have top: "?top < length (build_skip_levels ?ds)" using False levels by simp
    note lvl = level_nth(1) [OF top, folded levels] and bound = level_nth(2) [OF top]
    have step: "saturating_pow SKIP_INTERVAL (?top + 1) = ?S"
      using bound posting_length [OF assms(1)] by (simp add: saturating_pow_def del: power_Suc)
    have S: "0 < ?S" by (simp add: SKIP_INTERVAL_def)
    show ?thesis
    proof (cases "?c div ?S \<ge> length ?lvl")
      case True
      then show ?thesis using assms(2) False step
        by (auto simp: skip_via_levels_def Let_def intro: below_cursor)
    next
      case F: False
      let ?b = "?c div ?S + partition_point target (drop (?c div ?S) ?lvl)"
      have "below ?ds target ?c (?c div ?S * ?S)" by (rule below_cursor) simp
      from below_buckets [OF sorted S order_refl this lvl]
      have "below ?ds target ?c ((?c div ?S + partition_point target
        (slice (?c div ?S) (length ?ds div ?S) ?lvl)) * ?S)" .
      moreover have "length ?lvl = length ?ds div ?S" by (subst lvl) simp
      then have "slice (?c div ?S) (length ?ds div ?S) ?lvl = drop (?c div ?S) ?lvl"
        unfolding slice_def by (metis append_Nil2 length_drop take_all_iff order_refl)
      ultimately have "below ?ds target ?c (?b * ?S)" by (simp only:)
      from descend_below [OF sorted top refl this this]
      have "below ?ds target ?c (descend ?levels ?c target ?top ?S ?b (?b * ?S))"
        unfolding levels .
      then have b: "below ?ds target ?c (max (descend ?levels ?c target ?top ?S ?b (?b * ?S)) ?c)"
        by (rule below_max)
      have e: "skip_via_levels target it =
          min (max (descend ?levels ?c target ?top ?S ?b (?b * ?S)) ?c) (length ?ds)"
        using assms(2) False F step by (simp add: skip_via_levels_def Let_def del: power_Suc)
      show ?thesis unfolding e by (rule below_mono [OF b min.cobounded1])
    qed
  qed
qed

lemma scan_from_skips:
  "below ds target c q \<Longrightarrow> c \<le> q \<Longrightarrow> q \<le> length ds \<Longrightarrow> scan_from ds target c = scan_from ds target q"
proof (induction "q - c" arbitrary: c)
  case (Suc n)
  then have "c < q" "ds ! c < target" by (auto simp: below_def)
  then have "scan_from ds target c = scan_from ds target (c + 1)"
    using Suc.prems(3) by (subst scan_from.simps) simp
  also have "\<dots> = scan_from ds target q"
    using Suc by (intro Suc.hyps(1)) (auto simp: below_def)
  finally show ?case .
qed simp

lemma skip_to_scan:
  assumes "posting_inv it" "position it \<le> length (doc_ids it)" "target \<le> u32_max" "doc_ids it \<noteq> []"
  shows "position (snd (it_skip_to target it)) = scan_from (doc_ids it) target (position it) \<and>
    (fst (it_skip_to target it) \<longleftrightarrow> scan_from (doc_ids it) target (position it) < length (doc_ids it))"
proof -
  have "scan_from (doc_ids it) target (skip_via_levels target it) =
      scan_from (doc_ids it) target (position it)"
  proof (cases "position it < length (doc_ids it)")
    case True
    from scan_from_skips [OF skip_via_levels_below [OF assms(1) True]] show ?thesis by simp
  next
    case False
    then show ?thesis using assms(2) by (simp add: skip_via_levels_def)
  qed
  then show ?thesis using assms(3,4) by (simp add: it_skip_to_def Let_def)
qed

text \<open>
  C31. Descending the skip table and scanning from where it leads finds exactly what a scan from the
  cursor finds: the first posting at or behind the cursor whose document reaches the target.
\<close>

theorem skip_to_is_scan:
  assumes "posting_inv it" "position it \<le> length (doc_ids it)" "target \<le> u32_max" "doc_ids it \<noteq> []"
  shows "position (snd (it_skip_to target it)) = scan_from (doc_ids it) target (position it) \<and>
    (fst (it_skip_to target it) \<longleftrightarrow> scan_from (doc_ids it) target (position it) < length (doc_ids it))"
  using assms by (rule skip_to_scan)

definition example_postings :: posting_iterator where
  "example_postings = posting_iterator_new [2, 3, 5, 7, 11, 13, 17, 19, 23, 29, 31, 37]"

lemma example_postings_inv: "posting_inv example_postings \<and> doc_ids example_postings \<noteq> []"
  by (simp add: example_postings_def posting_iterator_new_def posting_inv_def u32_max_def)

lemma example_postings_scan: "scan_from (doc_ids example_postings) 20 (position example_postings) = 8 \<and>
    position example_postings \<le> length (doc_ids example_postings) \<and> 20 \<le> u32_max"
  by (simp add: example_postings_def posting_iterator_new_def u32_max_def scan_from.simps)

theorem skip_to_is_scan_witness: "position (snd (it_skip_to 20 example_postings)) = 8"
  using skip_to_is_scan [of example_postings 20] example_postings_inv example_postings_scan by simp


end
