(* ===== verification/Matchers.thy ===== *)
theory Matchers
  imports Posting_Iterator
begin

text \<open>
  Document matchers, \<^verbatim>\<open>laurus/src/lexical/query/matcher.rs\<close>: the \<open>Matcher\<close> trait as the record
  \<open>vtable\<close> of its operations on a state, the interface \<open>matcher\<close> of what the combinators rely on,
  and the matchers that stand at the leaves of a query, each an interpretation of it. An operation
  may return an error or, the result being \<open>None\<close>, not return at all.
\<close>

section \<open>The trait and its contract\<close>

record 's vtable =
  vt_doc_id :: "'s \<Rightarrow> nat"
  vt_next :: "'s \<Rightarrow> (bool res \<times> 's) option"
  vt_skip_to :: "nat \<Rightarrow> 's \<Rightarrow> (bool res \<times> 's) option"
  vt_is_exhausted :: "'s \<Rightarrow> bool"

text \<open>
  A matcher denotes the finite set \<open>docs s\<close> of the documents it still matches: it stands on the
  smallest, \<open>next\<close> drops that one, \<open>skip_to\<close> those below the target, and both say whether one is left.
\<close>

locale matcher =
  fixes v :: "'s vtable" and inv :: "'s \<Rightarrow> bool" and docs :: "'s \<Rightarrow> nat set"
  assumes docs_bound: "inv s \<Longrightarrow> finite (docs s) \<and> docs s \<subseteq> {..<u64_max}"
    and doc_id_law: "inv s \<Longrightarrow> vt_doc_id v s = (if docs s = {} then u64_max else Min (docs s))"
    and exhausted_law: "inv s \<Longrightarrow> vt_is_exhausted v s \<longleftrightarrow> docs s = {}"
    and next_law: "inv s \<Longrightarrow> \<exists>s'. vt_next v s = Some (Inr (docs s' \<noteq> {}), s') \<and> inv s' \<and>
      docs s' = docs s - {vt_doc_id v s}"
    and skip_to_law: "inv s \<Longrightarrow> \<exists>s'. vt_skip_to v t s = Some (Inr (docs s' \<noteq> {}), s') \<and> inv s' \<and>
      docs s' = {d \<in> docs s. t \<le> d}"

text \<open>Running a matcher to its end, as the collector of a search does.\<close>

fun matched_docs :: "'s vtable \<Rightarrow> nat \<Rightarrow> 's \<Rightarrow> nat list option" where
  "matched_docs v 0 s = (if vt_is_exhausted v s then Some [] else None)"
| "matched_docs v (Suc fuel) s =
     (if vt_is_exhausted v s then Some []
      else case vt_next v s of
             Some (Inr b, s') \<Rightarrow> map_option (\<lambda>ds. vt_doc_id v s # ds) (matched_docs v fuel s')
           | _ \<Rightarrow> None)"

context matcher
begin

lemma doc_id_in: "inv s \<Longrightarrow> docs s \<noteq> {} \<Longrightarrow> vt_doc_id v s \<in> docs s"
  using docs_bound doc_id_law Min_in by auto

lemma doc_id_le: "inv s \<Longrightarrow> d \<in> docs s \<Longrightarrow> vt_doc_id v s \<le> d"
  using docs_bound doc_id_law Min_le by auto

lemma doc_id_max: "inv s \<Longrightarrow> vt_doc_id v s = u64_max \<longleftrightarrow> docs s = {}"
  using doc_id_in [of s] docs_bound [of s] doc_id_law [of s] by (cases "docs s = {}") (simp, force)

lemma doc_id_bound: "inv s \<Longrightarrow> vt_doc_id v s \<le> u64_max"
  by (metis doc_id_in doc_id_max docs_bound lessThan_iff less_imp_le order_refl subsetD)

lemma nextE:
  assumes "inv s" "vt_next v s = r"
  obtains s' where "r = Some (Inr (docs s' \<noteq> {}), s')" "inv s'" "docs s' = docs s - {vt_doc_id v s}"
  using next_law [OF assms(1)] assms(2) by auto

lemma skip_toE:
  assumes "inv s" "vt_skip_to v t s = r"
  obtains s' where "r = Some (Inr (docs s' \<noteq> {}), s')" "inv s'" "docs s' = {d \<in> docs s. t \<le> d}"
  using skip_to_law [OF assms(1), of t] assms(2) by blast

lemma matched_docs_sorted:
  assumes "inv s" "card (docs s) \<le> fuel"
  shows "matched_docs v fuel s = Some (sorted_list_of_set (docs s))"
  using assms
proof (induction fuel arbitrary: s)
  case 0
  then have "docs s = {}" using docs_bound by auto
  with 0 show ?case by (simp add: exhausted_law)
next
  case (Suc fuel)
  show ?case
  proof (cases "docs s = {}")
    case True
    with Suc show ?thesis by (simp add: exhausted_law)
  next
    case False
    have fin: "finite (docs s)" using docs_bound Suc.prems(1) by blast
    obtain s' where s': "vt_next v s = Some (Inr (docs s' \<noteq> {}), s')" "inv s'"
      "docs s' = docs s - {vt_doc_id v s}" using next_law [OF Suc.prems(1)] by blast
    have d: "vt_doc_id v s = Min (docs s)" using doc_id_law [OF Suc.prems(1)] False by simp
    have "card (docs s') \<le> fuel"
      using Suc.prems(2) fin False d s'(3) by (simp add: card_Diff_singleton)
    from Suc.IH [OF s'(2) this] have "matched_docs v fuel s' = Some (sorted_list_of_set (docs s'))" .
    moreover have "sorted_list_of_set (docs s) = Min (docs s) # sorted_list_of_set (docs s - {Min (docs s)})"
      using sorted_list_of_set_nonempty [OF fin False] .
    ultimately show ?thesis
      using s' d exhausted_law [OF Suc.prems(1)] False by simp
  qed
qed

end

section \<open>Leaf matchers\<close>

definition empty_vt :: "unit vtable" where
  "empty_vt = \<lparr>vt_doc_id = \<lambda>_. u64_max, vt_next = \<lambda>s. Some (Inr False, s),
     vt_skip_to = \<lambda>t s. Some (Inr False, s), vt_is_exhausted = \<lambda>_. True\<rparr>"

interpretation empty: matcher empty_vt "\<lambda>_. True" "\<lambda>_. {}"
  by unfold_locales (simp_all add: empty_vt_def)

text \<open>
  The dense range \<open>[current_doc, max_doc)\<close>. Its \<open>skip_to\<close> moves to any target below the end, also
  backwards, so it fulfils the contract for targets at or behind the current document only.
\<close>

record all_matcher =
  all_current_doc :: nat
  all_max_doc :: nat

definition all_doc_id :: "all_matcher \<Rightarrow> nat" where
  "all_doc_id m = (if all_current_doc m \<ge> all_max_doc m then u64_max else all_current_doc m)"

definition all_next :: "all_matcher \<Rightarrow> bool \<times> all_matcher" where
  "all_next m =
     (if all_current_doc m \<ge> all_max_doc m then (False, m)
      else (all_current_doc m + 1 < all_max_doc m, m\<lparr>all_current_doc := all_current_doc m + 1\<rparr>))"

definition all_skip_to :: "nat \<Rightarrow> all_matcher \<Rightarrow> bool \<times> all_matcher" where
  "all_skip_to target m =
     (if target \<ge> all_max_doc m then (False, m\<lparr>all_current_doc := all_max_doc m\<rparr>)
      else (True, m\<lparr>all_current_doc := target\<rparr>))"

definition all_docs :: "all_matcher \<Rightarrow> nat set" where
  "all_docs m = {all_current_doc m..<all_max_doc m}"

lemma all_matcher_forward:
  "all_docs (snd (all_next m)) = all_docs m - {all_doc_id m} \<or> u64_max < all_max_doc m"
  "all_current_doc m \<le> t \<Longrightarrow> all_docs (snd (all_skip_to t m)) = {d \<in> all_docs m. t \<le> d}"
  "t < all_current_doc m \<Longrightarrow> t < all_max_doc m \<Longrightarrow> all_current_doc (snd (all_skip_to t m)) = t"
  by (auto simp: all_next_def all_skip_to_def all_docs_def all_doc_id_def)

text \<open>
  \<open>PostingMatcher\<close> walks any \<open>PostingIterator\<close>. The trait is the record of its operations; the interface
  \<open>posting_cursor\<close> says what its implementations promise: before the first \<open>next\<close> an iterator is
  \<open>fresh\<close>, then it stands \<open>on\<close> the smallest of the documents that are left, until one of the calls
  returns \<open>False\<close>. None of the implementations returns an error.
\<close>

record 'i cursor =
  cu_doc_id :: "'i \<Rightarrow> nat"
  cu_next :: "'i \<Rightarrow> (bool \<times> 'i) option"
  cu_skip_to :: "nat \<Rightarrow> 'i \<Rightarrow> (bool \<times> 'i) option"

definition steps_to :: "('i \<Rightarrow> bool) \<Rightarrow> ('i \<Rightarrow> nat set) \<Rightarrow> (bool \<times> 'i) option \<Rightarrow> nat set \<Rightarrow> bool" where
  "steps_to on left r X \<longleftrightarrow> (\<exists>i. r = Some (X \<noteq> {}, i) \<and> (X \<noteq> {} \<longrightarrow> on i \<and> left i = X))"

locale posting_cursor =
  fixes c :: "'i cursor" and fresh :: "'i \<Rightarrow> bool" and on :: "'i \<Rightarrow> bool" and left :: "'i \<Rightarrow> nat set"
  assumes start_law: "fresh i \<Longrightarrow> steps_to on left (cu_next c i) (left i)"
    and left_bound: "on i \<Longrightarrow> finite (left i) \<and> left i \<noteq> {} \<and> left i \<subseteq> {..<u64_max}"
    and stands_law: "on i \<Longrightarrow> cu_doc_id c i = Min (left i)"
    and cu_next_law: "on i \<Longrightarrow> steps_to on left (cu_next c i) (left i - {cu_doc_id c i})"
    and cu_skip_to_law: "on i \<Longrightarrow> steps_to on left (cu_skip_to c t i) {d \<in> left i. t \<le> d}"

record 'i posting_matcher =
  posting_iter :: 'i
  pm_exhausted :: bool

definition posting_matcher_new :: "'i cursor \<Rightarrow> 'i \<Rightarrow> 'i posting_matcher option" where
  "posting_matcher_new c it =
     map_option (\<lambda>(b, it'). \<lparr>posting_iter = it', pm_exhausted = \<not> b\<rparr>) (cu_next c it)"

definition pm_doc_id :: "'i cursor \<Rightarrow> 'i posting_matcher \<Rightarrow> nat" where
  "pm_doc_id c m = (if pm_exhausted m then u64_max else cu_doc_id c (posting_iter m))"

definition pm_next :: "'i cursor \<Rightarrow> 'i posting_matcher \<Rightarrow> (bool res \<times> 'i posting_matcher) option" where
  "pm_next c m =
     (if pm_exhausted m then Some (Inr False, m)
      else map_option (\<lambda>(has_next, it'). (Inr has_next, \<lparr>posting_iter = it', pm_exhausted = \<not> has_next\<rparr>))
             (cu_next c (posting_iter m)))"

definition pm_skip_to :: "'i cursor \<Rightarrow> nat \<Rightarrow> 'i posting_matcher \<Rightarrow> (bool res \<times> 'i posting_matcher) option" where
  "pm_skip_to c target m =
     (if pm_exhausted m then Some (Inr False, m)
      else map_option (\<lambda>(result, it'). (Inr result, \<lparr>posting_iter = it', pm_exhausted = \<not> result\<rparr>))
             (cu_skip_to c target (posting_iter m)))"

definition total :: "(bool \<times> 's) \<Rightarrow> (bool res \<times> 's) option" where
  "total r = (case r of (b, s) \<Rightarrow> Some (Inr b, s))"

definition posting_vt :: "'i cursor \<Rightarrow> 'i posting_matcher vtable" where
  "posting_vt c = \<lparr>vt_doc_id = pm_doc_id c, vt_next = pm_next c, vt_skip_to = pm_skip_to c, vt_is_exhausted = pm_exhausted\<rparr>"

definition pm_inv :: "('i \<Rightarrow> bool) \<Rightarrow> 'i posting_matcher \<Rightarrow> bool" where
  "pm_inv on m \<longleftrightarrow> (\<not> pm_exhausted m \<longrightarrow> on (posting_iter m))"

definition pm_docs :: "('i \<Rightarrow> nat set) \<Rightarrow> 'i posting_matcher \<Rightarrow> nat set" where
  "pm_docs left m = (if pm_exhausted m then {} else left (posting_iter m))"

context posting_cursor
begin

lemma stepped:
  assumes "steps_to on left r X"
  shows "\<exists>m. map_option (\<lambda>(b, it'). (Inr b, \<lparr>posting_iter = it', pm_exhausted = \<not> b\<rparr>)) r =
      Some (Inr (pm_docs left m \<noteq> {}) :: bool res, m) \<and> pm_inv on m \<and> pm_docs left m = X"
proof -
  obtain i where i: "r = Some (X \<noteq> {}, i)" "X \<noteq> {} \<longrightarrow> on i \<and> left i = X"
    using assms by (auto simp: steps_to_def)
  then show ?thesis
    by (intro exI [of _ "\<lparr>posting_iter = i, pm_exhausted = (X = {})\<rparr>"]) (auto simp: pm_inv_def pm_docs_def)
qed

lemma posting_matcher_new_ok:
  assumes "fresh i"
  shows "\<exists>m. posting_matcher_new c i = Some m \<and> pm_inv on m \<and> pm_docs left m = left i"
proof -
  obtain j where j: "cu_next c i = Some (left i \<noteq> {}, j)" "left i \<noteq> {} \<longrightarrow> on j \<and> left j = left i"
    using start_law [OF assms] by (auto simp: steps_to_def)
  then show ?thesis
    by (intro exI [of _ "\<lparr>posting_iter = j, pm_exhausted = (left i = {})\<rparr>"])
      (auto simp: posting_matcher_new_def pm_inv_def pm_docs_def)
qed

lemma pm_next_ok:
  assumes "pm_inv on m"
  shows "\<exists>m'. pm_next c m = Some (Inr (pm_docs left m' \<noteq> {}), m') \<and> pm_inv on m' \<and>
    pm_docs left m' = pm_docs left m - {pm_doc_id c m}"
proof (cases "pm_exhausted m")
  case True
  then show ?thesis using assms by (simp add: pm_next_def pm_docs_def)
next
  case False
  with assms have "on (posting_iter m)" by (simp add: pm_inv_def)
  from stepped [OF cu_next_law [OF this]] False show ?thesis
    by (simp add: pm_next_def pm_docs_def [of _ m] pm_doc_id_def)
qed

lemma pm_skip_to_ok:
  assumes "pm_inv on m"
  shows "\<exists>m'. pm_skip_to c t m = Some (Inr (pm_docs left m' \<noteq> {}), m') \<and> pm_inv on m' \<and>
    pm_docs left m' = {d \<in> pm_docs left m. t \<le> d}"
proof (cases "pm_exhausted m")
  case True
  then show ?thesis using assms by (simp add: pm_skip_to_def pm_docs_def)
next
  case False
  with assms have "on (posting_iter m)" by (simp add: pm_inv_def)
  from stepped [OF cu_skip_to_law [OF this, of t]] False show ?thesis
    by (simp add: pm_skip_to_def pm_docs_def [of _ m])
qed

lemma posting_matcher: "matcher (posting_vt c) (pm_inv on) (pm_docs left)"
proof
  fix m t
  assume inv: "pm_inv on m"
  show "finite (pm_docs left m) \<and> pm_docs left m \<subseteq> {..<u64_max}"
    using left_bound [of "posting_iter m"] inv by (auto simp: pm_docs_def pm_inv_def)
  show "vt_doc_id (posting_vt c) m = (if pm_docs left m = {} then u64_max else Min (pm_docs left m))"
    using inv left_bound [of "posting_iter m"] stands_law [of "posting_iter m"]
    by (auto simp: posting_vt_def pm_doc_id_def pm_docs_def pm_inv_def)
  show "vt_is_exhausted (posting_vt c) m \<longleftrightarrow> pm_docs left m = {}"
    using inv left_bound [of "posting_iter m"] by (auto simp: posting_vt_def pm_docs_def pm_inv_def)
  show "\<exists>s'. vt_next (posting_vt c) m = Some (Inr (pm_docs left s' \<noteq> {}), s') \<and> pm_inv on s' \<and>
      pm_docs left s' = pm_docs left m - {vt_doc_id (posting_vt c) m}"
    using pm_next_ok [OF inv] by (simp add: posting_vt_def)
  show "\<exists>s'. vt_skip_to (posting_vt c) t m = Some (Inr (pm_docs left s' \<noteq> {}), s') \<and> pm_inv on s' \<and>
      pm_docs left s' = {d \<in> pm_docs left m. t \<le> d}"
    using pm_skip_to_ok [OF inv, of t] by (simp add: posting_vt_def)
qed

end

text \<open>The iterator over a decoded list is such a cursor.\<close>

definition it_cursor :: "posting_iterator cursor" where
  "it_cursor = \<lparr>cu_doc_id = it_doc_id, cu_next = \<lambda>it. Some (it_next it),
     cu_skip_to = \<lambda>t it. Some (it_skip_to t it)\<rparr>"

definition it_fresh :: "posting_iterator \<Rightarrow> bool" where
  "it_fresh it \<longleftrightarrow> posting_inv it \<and> position it = 0 \<and> \<not> started it"

definition it_on :: "posting_iterator \<Rightarrow> bool" where
  "it_on it \<longleftrightarrow> posting_inv it \<and> started it \<and> position it < length (doc_ids it)"

definition it_left :: "posting_iterator \<Rightarrow> nat set" where
  "it_left it = set (drop (position it) (doc_ids it))"

lemma posting_doc_ids [simp]:
  "doc_ids (snd (it_next it)) = doc_ids it" "skip_levels (snd (it_next it)) = skip_levels it"
  "doc_ids (snd (it_skip_to t it)) = doc_ids it" "skip_levels (snd (it_skip_to t it)) = skip_levels it"
  by (simp_all add: it_next_def it_skip_to_def Let_def)

lemma posting_inv_steps [simp]:
  "posting_inv (snd (it_next it)) = posting_inv it" "posting_inv (snd (it_skip_to t it)) = posting_inv it"
  by (simp_all add: posting_inv_def)

lemma drop_strict_sorted:
  assumes "sorted_wrt (<) ds" "p < length ds"
  shows "Min (set (drop p ds)) = ds ! p" "set (drop p ds) - {ds ! p} = set (drop (p + 1) ds)"
proof -
  have d: "drop p ds = ds ! p # drop (p + 1) ds" using assms(2) by (simp add: Cons_nth_drop_Suc)
  have "sorted_wrt (<) (drop p ds)" using assms(1) by (rule sorted_wrt_drop)
  with d have less: "\<forall>x \<in> set (drop (p + 1) ds). ds ! p < x" by simp
  then show "Min (set (drop p ds)) = ds ! p" unfolding d by (intro Min_eqI) (auto simp: less_imp_le)
  have "ds ! p \<notin> set (drop (p + 1) ds)" using less by (meson less_irrefl)
  then show "set (drop p ds) - {ds ! p} = set (drop (p + 1) ds)" unfolding d by simp
qed

lemma scan_from_set:
  assumes "sorted_wrt (<) ds"
  shows "set (drop (scan_from ds t p) ds) = {d \<in> set (drop p ds). t \<le> d}"
  using assms
proof (induction ds t p rule: scan_from.induct)
  case (1 ds t p)
  show ?case
  proof (cases "p < length ds")
    case False
    then show ?thesis by (simp add: scan_from.simps)
  next
    case True
    then have d: "drop p ds = ds ! p # drop (p + 1) ds" by (simp add: Cons_nth_drop_Suc)
    show ?thesis
    proof (cases "ds ! p \<ge> t")
      case ge: True
      have "sorted_wrt (<) (drop p ds)" using "1.prems" by (rule sorted_wrt_drop)
      with d have "\<forall>x \<in> set (drop p ds). t \<le> x" using ge by auto
      then show ?thesis using True ge by (subst scan_from.simps) auto
    next
      case False
      with "1.IH" [OF True False] "1.prems" True have
        "set (drop (scan_from ds t p) ds) = {d \<in> set (drop (p + 1) ds). t \<le> d}"
        by (subst scan_from.simps) simp
      then show ?thesis unfolding d using False by auto
    qed
  qed
qed

interpretation it: posting_cursor it_cursor it_fresh it_on it_left
proof
  fix i :: posting_iterator
  show "steps_to it_on it_left (cu_next it_cursor i) (it_left i)" if "it_fresh i"
    using that by (auto simp: it_fresh_def it_cursor_def it_next_def steps_to_def it_left_def it_on_def posting_inv_def)
next
  fix i :: posting_iterator and t
  assume "it_on i"
  then have it: "posting_inv i" "started i" "position i < length (doc_ids i)" "sorted_wrt (<) (doc_ids i)"
    by (auto simp: it_on_def posting_inv_def)
  have ne: "doc_ids i \<noteq> []" "it_left i \<noteq> {}" using it(3) by (auto simp: it_left_def)
  have up: "d \<le> u32_max" if "d \<in> it_left i" for d
    using that it(1) by (auto simp: it_left_def posting_inv_def dest: in_set_dropD)
  then have "it_left i \<subseteq> {..<u64_max}" by (force simp: u32_max_def u64_max_def)
  then show "finite (it_left i) \<and> it_left i \<noteq> {} \<and> it_left i \<subseteq> {..<u64_max}"
    using ne by (auto simp: it_left_def)
  show doc: "cu_doc_id it_cursor i = Min (it_left i)"
    using drop_strict_sorted(1) [OF it(4,3)] it(3) by (simp add: it_cursor_def it_doc_id_def it_left_def)
  have "it_next i = (position i + 1 < length (doc_ids i), i\<lparr>position := position i + 1\<rparr>)"
    using it ne by (simp add: it_next_def)
  moreover have "posting_inv (i\<lparr>position := p\<rparr>)" for p using it(1) by (simp add: posting_inv_def)
  ultimately show "steps_to it_on it_left (cu_next it_cursor i) (it_left i - {cu_doc_id it_cursor i})"
    using it doc drop_strict_sorted [OF it(4,3)]
    by (auto simp: it_cursor_def steps_to_def it_left_def it_on_def it_doc_id_def)
  show "steps_to it_on it_left (cu_skip_to it_cursor t i) {d \<in> it_left i. t \<le> d}"
  proof (cases "t \<le> u32_max")
    case True
    let ?p = "scan_from (doc_ids i) t (position i)"
    have s: "position (snd (it_skip_to t i)) = ?p" "fst (it_skip_to t i) \<longleftrightarrow> ?p < length (doc_ids i)"
      using skip_to_scan [OF it(1) _ True ne(1)] it(3) by auto
    have set: "set (drop ?p (doc_ids i)) = {d \<in> it_left i. t \<le> d}"
      using scan_from_set [OF it(4), of t "position i"] by (simp add: it_left_def)
    have "?p < length (doc_ids i) \<longleftrightarrow> {d \<in> it_left i. t \<le> d} \<noteq> {}"
      unfolding set [symmetric] by (metis drop_eq_Nil2 not_le set_empty2)
    moreover have "started (snd (it_skip_to t i))" by (simp add: it_skip_to_def Let_def)
    moreover have "it_left (snd (it_skip_to t i)) = {d \<in> it_left i. t \<le> d}"
      unfolding set [symmetric] by (simp add: it_left_def s(1))
    ultimately show ?thesis
      using s it(1) posting_inv_steps(2) [of t i] posting_doc_ids(3) [of t i]
      by (cases "it_skip_to t i") (auto simp: it_cursor_def steps_to_def it_on_def
          simp del: posting_inv_steps posting_doc_ids)
  next
    case False
    then have "{d \<in> it_left i. t \<le> d} = {}" using up by force
    with False ne(1) show ?thesis by (simp add: it_cursor_def steps_to_def it_skip_to_def)
  qed
qed

lemma iterator_new_fresh:
  assumes "sorted_wrt (<) ds" "\<forall>d \<in> set ds. d \<le> u32_max"
  shows "it_fresh (posting_iterator_new ds)" "it_left (posting_iterator_new ds) = set ds"
  using assms by (auto simp: it_fresh_def it_left_def posting_iterator_new_def posting_inv_def)

section \<open>Precomputed document ids\<close>

record precomputed_matcher =
  pc_doc_ids :: "nat list"
  pc_index :: nat
  pc_exhausted :: bool

definition precomputed_new :: "nat list \<Rightarrow> precomputed_matcher" where
  "precomputed_new ids =
     (let ds = remdups_adj (sort ids)
      in \<lparr>pc_doc_ids = ds, pc_index = 0, pc_exhausted = (ds = [])\<rparr>)"

definition pc_doc_id :: "precomputed_matcher \<Rightarrow> nat" where
  "pc_doc_id m =
     (if pc_exhausted m \<or> pc_index m \<ge> length (pc_doc_ids m) then u64_max
      else pc_doc_ids m ! pc_index m)"

definition pc_next :: "precomputed_matcher \<Rightarrow> bool \<times> precomputed_matcher" where
  "pc_next m =
     (if pc_exhausted m then (False, m)
      else let m' = m\<lparr>pc_index := pc_index m + 1\<rparr>
           in if pc_index m' \<ge> length (pc_doc_ids m') then (False, m'\<lparr>pc_exhausted := True\<rparr>)
              else (True, m'))"

function binary_search :: "nat list \<Rightarrow> nat \<Rightarrow> nat \<Rightarrow> nat \<Rightarrow> nat" where
  "binary_search ds target left right =
     (if left < right then
        let mid = left + (right - left) div 2
        in if ds ! mid \<ge> target then binary_search ds target left mid
           else binary_search ds target (mid + 1) right
      else left)"
  by pat_completeness auto
termination
  by (relation "measure (\<lambda>(ds, target, left, right). right - left)") (auto simp: less_diff_conv)

declare binary_search.simps [simp del]

definition pc_skip_to :: "nat \<Rightarrow> precomputed_matcher \<Rightarrow> bool \<times> precomputed_matcher" where
  "pc_skip_to target m =
     (if pc_exhausted m then (False, m)
      else let p = binary_search (pc_doc_ids m) target (pc_index m) (length (pc_doc_ids m));
               m' = m\<lparr>pc_index := p\<rparr>
           in if p \<ge> length (pc_doc_ids m) then (False, m'\<lparr>pc_exhausted := True\<rparr>) else (True, m'))"

definition precomputed_vt :: "precomputed_matcher vtable" where
  "precomputed_vt = \<lparr>vt_doc_id = pc_doc_id, vt_next = \<lambda>m. total (pc_next m),
     vt_skip_to = \<lambda>t m. total (pc_skip_to t m), vt_is_exhausted = pc_exhausted\<rparr>"

definition pc_inv :: "precomputed_matcher \<Rightarrow> bool" where
  "pc_inv m \<longleftrightarrow> sorted_wrt (<) (pc_doc_ids m) \<and> (\<forall>d \<in> set (pc_doc_ids m). d < u64_max) \<and>
     (\<not> pc_exhausted m \<longrightarrow> pc_index m < length (pc_doc_ids m))"

definition pc_docs :: "precomputed_matcher \<Rightarrow> nat set" where
  "pc_docs m = (if pc_exhausted m then {} else set (drop (pc_index m) (pc_doc_ids m)))"

lemma binary_search_spec:
  assumes "sorted_wrt (<) ds"
  shows "left \<le> right \<Longrightarrow> right \<le> length ds \<Longrightarrow> (\<forall>q. right \<le> q \<and> q < length ds \<longrightarrow> t \<le> ds ! q) \<Longrightarrow>
    left \<le> binary_search ds t left right \<and> binary_search ds t left right \<le> right \<and>
    (\<forall>q. left \<le> q \<and> q < binary_search ds t left right \<longrightarrow> ds ! q < t) \<and>
    (\<forall>q. binary_search ds t left right \<le> q \<and> q < length ds \<longrightarrow> t \<le> ds ! q)"
  using assms
proof (induction ds t left right rule: binary_search.induct)
  case (1 ds t left right)
  show ?case
  proof (cases "left < right")
    case False
    then have "binary_search ds t left right = left" by (subst binary_search.simps) simp
    then show ?thesis using "1.prems" False by simp
  next
    case True
    define mid where "mid = left + (right - left) div 2"
    have mid: "left \<le> mid" "mid < right" "mid < length ds" using True "1.prems"(2) by (auto simp: mid_def)
    have less: "ds ! p < ds ! q" if "p < q" "q < length ds" for p q
      using "1.prems"(4) that by (rule sorted_wrt_nth_less)
    show ?thesis
    proof (cases "ds ! mid \<ge> t")
      case ge: True
      then have e: "binary_search ds t left right = binary_search ds t left mid"
        using True by (subst binary_search.simps) (simp add: mid_def)
      have up: "\<forall>q. mid \<le> q \<and> q < length ds \<longrightarrow> t \<le> ds ! q"
        using ge less [of mid] by (metis le_neq_implies_less less_imp_le order_trans)
      show ?thesis
        using "1.IH"(1) [OF True mid_def ge mid(1) _ up "1.prems"(4)] mid unfolding e by auto
    next
      case lt: False
      then have e: "binary_search ds t left right = binary_search ds t (mid + 1) right"
        using True by (subst binary_search.simps) (simp add: mid_def)
      have small: "ds ! p < t" if "p \<le> mid" for p
        using lt less [of p mid] mid that by (cases "p = mid") auto
      note IH = "1.IH"(2) [OF True mid_def lt _ "1.prems"(2-4)]
      have "ds ! q < t" if "q < binary_search ds t (mid + 1) right" for q
        using IH small [of q] that mid by (cases "q \<le> mid") auto
      then show ?thesis using IH mid unfolding e by auto
    qed
  qed
qed

lemma set_drop_split:
  fixes ds :: "nat list"
  assumes "left \<le> p" "p \<le> length ds" "\<forall>q. left \<le> q \<and> q < p \<longrightarrow> ds ! q < t"
    "\<forall>q. p \<le> q \<and> q < length ds \<longrightarrow> t \<le> ds ! q"
  shows "set (drop p ds) = {d \<in> set (drop left ds). t \<le> d}"
proof -
  let ?low = "take (p - left) (drop left ds)"
  have s: "drop left ds = ?low @ drop p ds"
    using assms(1) append_take_drop_id [of "p - left" "drop left ds"] by simp
  have low: "d < t" if "d \<in> set ?low" for d
    using that assms(1-3) by (auto simp: in_set_conv_nth)
  have high: "t \<le> d" if "d \<in> set (drop p ds)" for d
    using that assms(4) by (auto simp: in_set_conv_nth)
  have "{d \<in> set (drop left ds). t \<le> d} = {d \<in> set ?low \<union> set (drop p ds). t \<le> d}"
    by (subst s) simp
  also have "\<dots> = set (drop p ds)"
  proof (intro equalityI subsetI)
    fix x assume x: "x \<in> {d \<in> set ?low \<union> set (drop p ds). t \<le> d}"
    with low [of x] show "x \<in> set (drop p ds)" by auto
  qed (use high in auto)
  finally show ?thesis by simp
qed

lemma pc_skip_to_docs:
  assumes "pc_inv m"
  shows "pc_docs (snd (pc_skip_to t m)) = {d \<in> pc_docs m. t \<le> d} \<and> pc_inv (snd (pc_skip_to t m)) \<and>
    (fst (pc_skip_to t m) \<longleftrightarrow> pc_docs (snd (pc_skip_to t m)) \<noteq> {})"
proof (cases "pc_exhausted m")
  case True
  with assms show ?thesis by (simp add: pc_skip_to_def pc_docs_def)
next
  case False
  let ?p = "binary_search (pc_doc_ids m) t (pc_index m) (length (pc_doc_ids m))"
  have p: "pc_index m \<le> ?p" "?p \<le> length (pc_doc_ids m)"
    "\<forall>q. pc_index m \<le> q \<and> q < ?p \<longrightarrow> pc_doc_ids m ! q < t"
    "\<forall>q. ?p \<le> q \<and> q < length (pc_doc_ids m) \<longrightarrow> t \<le> pc_doc_ids m ! q"
    using binary_search_spec [of "pc_doc_ids m" "pc_index m" "length (pc_doc_ids m)" t] assms False
    by (auto simp: pc_inv_def)
  note s = p(2) set_drop_split [OF p]
  show ?thesis
  proof (cases "?p < length (pc_doc_ids m)")
    case True
    then have "set (drop ?p (pc_doc_ids m)) \<noteq> {}" by simp
    with s True False assms show ?thesis
      by (simp add: pc_skip_to_def pc_docs_def pc_inv_def Let_def)
  next
    case F: False
    then have "{d \<in> set (drop (pc_index m) (pc_doc_ids m)). t \<le> d} = {}" using s by simp
    with F False assms show ?thesis
      by (simp add: pc_skip_to_def pc_docs_def pc_inv_def Let_def)
  qed
qed

lemma pc_next_docs:
  assumes "pc_inv m"
  shows "pc_docs (snd (pc_next m)) = pc_docs m - {pc_doc_id m} \<and> pc_inv (snd (pc_next m)) \<and>
    (fst (pc_next m) \<longleftrightarrow> pc_docs (snd (pc_next m)) \<noteq> {})"
proof (cases "pc_exhausted m")
  case False
  then have "pc_index m < length (pc_doc_ids m)" "sorted_wrt (<) (pc_doc_ids m)"
    using assms by (simp_all add: pc_inv_def)
  then show ?thesis using assms False drop_strict_sorted(2) [of "pc_doc_ids m" "pc_index m"]
    by (auto simp: pc_next_def pc_docs_def pc_inv_def pc_doc_id_def Let_def)
qed (use assms in \<open>simp add: pc_next_def pc_docs_def\<close>)

interpretation precomputed: matcher precomputed_vt pc_inv pc_docs
proof
  fix m t
  assume inv: "pc_inv m"
  then show "finite (pc_docs m) \<and> pc_docs m \<subseteq> {..<u64_max}"
    by (auto simp: pc_docs_def pc_inv_def dest!: in_set_dropD)
  show "vt_doc_id precomputed_vt m = (if pc_docs m = {} then u64_max else Min (pc_docs m))"
    using inv drop_strict_sorted(1) [of "pc_doc_ids m" "pc_index m"]
    by (auto simp: precomputed_vt_def pc_doc_id_def pc_docs_def pc_inv_def)
  show "vt_is_exhausted precomputed_vt m \<longleftrightarrow> pc_docs m = {}"
    using inv by (auto simp: precomputed_vt_def pc_docs_def pc_inv_def)
  show "\<exists>s'. vt_next precomputed_vt m = Some (Inr (pc_docs s' \<noteq> {}), s') \<and> pc_inv s' \<and>
      pc_docs s' = pc_docs m - {vt_doc_id precomputed_vt m}"
    using pc_next_docs [OF inv] by (cases "pc_next m") (simp add: precomputed_vt_def total_def)
  show "\<exists>s'. vt_skip_to precomputed_vt t m = Some (Inr (pc_docs s' \<noteq> {}), s') \<and> pc_inv s' \<and>
      pc_docs s' = {d \<in> pc_docs m. t \<le> d}"
    using pc_skip_to_docs [OF inv, of t] by (cases "pc_skip_to t m") (simp add: precomputed_vt_def total_def)
qed

lemma remdups_adj_strict: "sorted (xs :: nat list) \<Longrightarrow> sorted_wrt (<) (remdups_adj xs)"
  by (induction xs rule: remdups_adj.induct) force+

lemma precomputed_new_inv:
  assumes "\<forall>d \<in> set ids. d < u64_max"
  shows "pc_inv (precomputed_new ids) \<and> pc_docs (precomputed_new ids) = set ids"
proof -
  have "sorted_wrt (<) (remdups_adj (sort ids))" by (rule remdups_adj_strict) simp
  then show ?thesis using assms
    by (auto simp: precomputed_new_def pc_inv_def pc_docs_def Let_def simp flip: set_empty)
qed


end
