(* ===== verification/Boolean_Matchers.thy ===== *)
theory Boolean_Matchers
  imports Matchers
begin

text \<open>
  The matchers that combine others: disjunction, conjunction, conjunction with excluded matchers and
  negation over a dense range, of \<^verbatim>\<open>laurus/src/lexical/query/matcher.rs\<close>. Each takes the operations
  of its parts as a \<open>vtable\<close>, as the code calls them through \<open>dyn Matcher\<close>; each is shown to fulfil
  the contract of a matcher when its parts do, with the union, the intersection or the difference of
  their documents. A loop over the parts may not end for parts that do not fulfil the contract, so
  it is a \<open>partial_function (option)\<close>, and that it ends is part of what is proved.
\<close>

section \<open>Disjunction\<close>

record 's disjunction_matcher =
  heap :: "'s list"
  dj_current_doc :: nat
  dj_exhausted :: bool

text \<open>The entry of the heap on the smallest document; which one among equals is not specified.\<close>

fun pop_min :: "('s \<Rightarrow> nat) \<Rightarrow> 's list \<Rightarrow> ('s \<times> 's list) option" where
  "pop_min doc [] = None"
| "pop_min doc (x # xs) =
     (case pop_min doc xs of
        None \<Rightarrow> Some (x, [])
      | Some (y, ys) \<Rightarrow> if doc x \<le> doc y then Some (x, xs) else Some (y, x # ys))"

lemma pop_min_None [simp]: "pop_min doc h = None \<longleftrightarrow> h = []"
  by (induction h) (auto split: option.splits)

lemma pop_min_Some:
  "pop_min doc h = Some (x, h') \<Longrightarrow>
   set h = insert x (set h') \<and> length h = Suc (length h') \<and> (\<forall>y \<in> set h'. doc x \<le> doc y)"
  by (induction h arbitrary: x h') (fastforce split: option.splits if_splits)+

text \<open>The state after the heap changed: the current document is the one of its smallest entry.\<close>

definition dj_settle :: "'s vtable \<Rightarrow> 's list \<Rightarrow> 's disjunction_matcher" where
  "dj_settle v h =
     (case pop_min (vt_doc_id v) h of
        None \<Rightarrow> \<lparr>heap = [], dj_current_doc = u64_max, dj_exhausted = True\<rparr>
      | Some (x, _) \<Rightarrow> \<lparr>heap = h, dj_current_doc = vt_doc_id v x, dj_exhausted = False\<rparr>)"

definition disjunction_new :: "'s vtable \<Rightarrow> 's list \<Rightarrow> 's disjunction_matcher" where
  "disjunction_new v matchers = dj_settle v (filter (\<lambda>m. \<not> vt_is_exhausted v m) matchers)"

text \<open>
  Both loops pop entries and collect those that stay in \<open>reinsert_buffer\<close>. An error ends the loop
  and loses the popped entries.
\<close>

function advance_loop ::
    "'s vtable \<Rightarrow> nat \<Rightarrow> 's list \<Rightarrow> 's list \<Rightarrow> (unit res \<times> 's list) option" where
  "advance_loop v current h buffer =
     (case pop_min (vt_doc_id v) h of
        None \<Rightarrow> Some (Inr (), rev buffer)
      | Some (entry, h') \<Rightarrow>
          if vt_doc_id v entry = current then
            (case vt_next v entry of
               None \<Rightarrow> None
             | Some (Inl e, entry') \<Rightarrow> Some (Inl e, h')
             | Some (Inr b, entry') \<Rightarrow>
                 advance_loop v current h'
                   (if b \<and> \<not> vt_is_exhausted v entry' then entry' # buffer else buffer))
          else Some (Inr (), rev buffer @ h))"
  by pat_completeness auto
termination
  by (relation "measure (\<lambda>(v, current, h, buffer). length h)") (auto dest: pop_min_Some)

function skip_loop ::
    "'s vtable \<Rightarrow> nat \<Rightarrow> 's list \<Rightarrow> 's list \<Rightarrow> (unit res \<times> 's list) option" where
  "skip_loop v target h buffer =
     (case pop_min (vt_doc_id v) h of
        None \<Rightarrow> Some (Inr (), rev buffer)
      | Some (entry, h') \<Rightarrow>
          (case vt_skip_to v target entry of
             None \<Rightarrow> None
           | Some (Inl e, entry') \<Rightarrow> Some (Inl e, h')
           | Some (Inr b, entry') \<Rightarrow>
               skip_loop v target h'
                 (if b \<and> \<not> vt_is_exhausted v entry' then entry' # buffer else buffer)))"
  by pat_completeness auto
termination
  by (relation "measure (\<lambda>(v, target, h, buffer). length h)") (auto dest: pop_min_Some)

declare advance_loop.simps [simp del] skip_loop.simps [simp del]

definition dj_next ::
    "'s vtable \<Rightarrow> 's disjunction_matcher \<Rightarrow> (bool res \<times> 's disjunction_matcher) option" where
  "dj_next v s =
     (if dj_exhausted s then Some (Inr False, s)
      else case advance_loop v (dj_current_doc s) (heap s) [] of
             None \<Rightarrow> None
           | Some (Inl e, h) \<Rightarrow> Some (Inl e, s\<lparr>heap := h\<rparr>)
           | Some (Inr _, h) \<Rightarrow> let s' = dj_settle v h in Some (Inr (\<not> dj_exhausted s'), s'))"

definition dj_skip_to ::
    "'s vtable \<Rightarrow> nat \<Rightarrow> 's disjunction_matcher \<Rightarrow> (bool res \<times> 's disjunction_matcher) option" where
  "dj_skip_to v target s =
     (if dj_exhausted s \<or> target \<le> dj_current_doc s then Some (Inr (\<not> dj_exhausted s), s)
      else case skip_loop v target (heap s) [] of
             None \<Rightarrow> None
           | Some (Inl e, h) \<Rightarrow> Some (Inl e, s\<lparr>heap := h\<rparr>)
           | Some (Inr _, h) \<Rightarrow> let s' = dj_settle v h in Some (Inr (\<not> dj_exhausted s'), s'))"

definition disjunction_vt :: "'s vtable \<Rightarrow> 's disjunction_matcher vtable" where
  "disjunction_vt v = \<lparr>vt_doc_id = dj_current_doc, vt_next = dj_next v, vt_skip_to = dj_skip_to v,
     vt_is_exhausted = dj_exhausted\<rparr>"

definition dj_docs :: "('s \<Rightarrow> nat set) \<Rightarrow> 's disjunction_matcher \<Rightarrow> nat set" where
  "dj_docs D s = \<Union> (D ` set (heap s))"

definition all_live :: "('s \<Rightarrow> bool) \<Rightarrow> ('s \<Rightarrow> nat set) \<Rightarrow> 's list \<Rightarrow> bool" where
  "all_live I D ms \<longleftrightarrow> (\<forall>m \<in> set ms. I m \<and> D m \<noteq> {})"

definition dj_inv ::
    "'s vtable \<Rightarrow> ('s \<Rightarrow> bool) \<Rightarrow> ('s \<Rightarrow> nat set) \<Rightarrow> 's disjunction_matcher \<Rightarrow> bool" where
  "dj_inv v I D s \<longleftrightarrow> all_live I D (heap s) \<and> s = dj_settle v (heap s)"

lemma heap_dj_settle [simp]: "heap (dj_settle v h) = h"
  by (auto simp: dj_settle_def split: option.split)

lemma dj_exhausted_settle [simp]: "dj_exhausted (dj_settle v h) \<longleftrightarrow> h = []"
  by (auto simp: dj_settle_def split: option.split dest: pop_min_Some)

lemma all_live_simps [simp]:
  "all_live I D []" "all_live I D (x # xs) \<longleftrightarrow> I x \<and> D x \<noteq> {} \<and> all_live I D xs"
  "all_live I D (xs @ ys) \<longleftrightarrow> all_live I D xs \<and> all_live I D ys" "all_live I D (rev xs) \<longleftrightarrow> all_live I D xs"
  by (auto simp: all_live_def)

lemma all_live_pop:
  "all_live I D h \<Longrightarrow> pop_min doc h = Some (x, h') \<Longrightarrow> I x \<and> D x \<noteq> {} \<and> all_live I D h'"
  by (auto dest!: pop_min_Some simp: all_live_def)

context matcher
begin

text \<open>An advanced entry goes back to the heap exactly if it has documents left.\<close>

lemma kept_entry:
  assumes "inv x'"
  shows "\<Union> (docs ` set (if docs x' \<noteq> {} \<and> \<not> vt_is_exhausted v x' then x' # buf else buf)) =
      docs x' \<union> \<Union> (docs ` set buf)"
    and "all_live inv docs (if docs x' \<noteq> {} \<and> \<not> vt_is_exhausted v x' then x' # buf else buf) \<longleftrightarrow>
      all_live inv docs buf"
  using assms exhausted_law [OF assms] by auto

lemma advance_loop_docs:
  assumes "all_live inv docs h" "all_live inv docs buf" "\<forall>m \<in> set h. current \<le> vt_doc_id v m"
  shows "\<exists>h'. advance_loop v current h buf = Some (Inr (), h') \<and> all_live inv docs h' \<and>
    \<Union> (docs ` set h') = \<Union> (docs ` set buf) \<union> (\<Union> (docs ` set h) - {current})"
  using assms
proof (induction "length h" arbitrary: h buf rule: less_induct)
  case less
  show ?case
  proof (cases "pop_min (vt_doc_id v) h")
    case None
    then show ?thesis using less.prems by (simp add: advance_loop.simps)
  next
    case (Some p)
    then obtain x h' where p: "pop_min (vt_doc_id v) h = Some (x, h')" by (cases p) auto
    note x = all_live_pop [OF less.prems(1) p] and h = pop_min_Some [OF p]
    show ?thesis
    proof (cases "vt_doc_id v x = current")
      case True
      obtain x' where x': "vt_next v x = Some (Inr (docs x' \<noteq> {}), x')" "inv x'"
        "docs x' = docs x - {current}" using next_law [of x] x True by auto
      let ?buf = "if docs x' \<noteq> {} \<and> \<not> vt_is_exhausted v x' then x' # buf else buf"
      have step: "advance_loop v current h buf = advance_loop v current h' ?buf"
        using p True x'(1) by (subst advance_loop.simps) simp
      have "length h' < length h" "all_live inv docs h'" "all_live inv docs ?buf"
        "\<forall>m \<in> set h'. current \<le> vt_doc_id v m"
        using h x less.prems kept_entry(2) [OF x'(2)] by auto
      from less.hyps [OF this] obtain h'' where
        "advance_loop v current h buf = Some (Inr (), h'')" "all_live inv docs h''"
        "\<Union> (docs ` set h'') = \<Union> (docs ` set ?buf) \<union> (\<Union> (docs ` set h') - {current})"
        unfolding step by blast
      moreover have "\<Union> (docs ` set ?buf) = docs x' \<union> \<Union> (docs ` set buf)" by (rule kept_entry(1) [OF x'(2)])
      moreover have "\<Union> (docs ` set h) = docs x \<union> \<Union> (docs ` set h')" using h by simp
      ultimately show ?thesis using x'(3) by (intro exI [of _ h'']) (simp, blast)
    next
      case False
      have "current \<notin> docs m" if m: "m \<in> set h" for m
      proof
        assume c: "current \<in> docs m"
        have "inv m" using less.prems(1) m by (auto simp: all_live_def)
        then have "vt_doc_id v m \<le> current" using c by (rule doc_id_le)
        moreover have "vt_doc_id v x \<le> vt_doc_id v m" using h m by auto
        moreover have "current \<le> vt_doc_id v x" using less.prems(3) h by auto
        ultimately show False using False by simp
      qed
      then have "\<Union> (docs ` set h) - {current} = \<Union> (docs ` set h)" by auto
      then show ?thesis using p False less.prems by (subst advance_loop.simps) (simp add: Un_commute)
    qed
  qed
qed

lemma skip_loop_docs:
  assumes "all_live inv docs h" "all_live inv docs buf"
  shows "\<exists>h'. skip_loop v t h buf = Some (Inr (), h') \<and> all_live inv docs h' \<and>
    \<Union> (docs ` set h') = \<Union> (docs ` set buf) \<union> {d \<in> \<Union> (docs ` set h). t \<le> d}"
  using assms
proof (induction "length h" arbitrary: h buf rule: less_induct)
  case less
  show ?case
  proof (cases "pop_min (vt_doc_id v) h")
    case None
    then show ?thesis using less.prems by (simp add: skip_loop.simps)
  next
    case (Some p)
    then obtain x h' where p: "pop_min (vt_doc_id v) h = Some (x, h')" by (cases p) auto
    note x = all_live_pop [OF less.prems(1) p] and h = pop_min_Some [OF p]
    obtain x' where x': "vt_skip_to v t x = Some (Inr (docs x' \<noteq> {}), x')" "inv x'"
      "docs x' = {d \<in> docs x. t \<le> d}" using skip_to_law [of x t] x by auto
    let ?buf = "if docs x' \<noteq> {} \<and> \<not> vt_is_exhausted v x' then x' # buf else buf"
    have step: "skip_loop v t h buf = skip_loop v t h' ?buf"
      using p x'(1) by (subst skip_loop.simps) simp
    have "length h' < length h" "all_live inv docs h'" "all_live inv docs ?buf"
      using h x less.prems kept_entry(2) [OF x'(2)] by auto
    from less.hyps [OF this] obtain h'' where
      "skip_loop v t h buf = Some (Inr (), h'')" "all_live inv docs h''"
      "\<Union> (docs ` set h'') = \<Union> (docs ` set ?buf) \<union> {d \<in> \<Union> (docs ` set h'). t \<le> d}"
      unfolding step by blast
    moreover have "\<Union> (docs ` set ?buf) = docs x' \<union> \<Union> (docs ` set buf)" by (rule kept_entry(1) [OF x'(2)])
    moreover have "\<Union> (docs ` set h) = docs x \<union> \<Union> (docs ` set h')" using h by simp
    ultimately show ?thesis using x'(3) by (intro exI [of _ h'']) (simp, blast)
  qed
qed

lemma dj_settle_doc:
  assumes "all_live inv docs h"
  shows "dj_current_doc (dj_settle v h) = (if h = [] then u64_max else Min (\<Union> (docs ` set h)))"
    and "\<forall>m \<in> set h. dj_current_doc (dj_settle v h) \<le> vt_doc_id v m"
proof -
  have "dj_current_doc (dj_settle v h) = Min (\<Union> (docs ` set h)) \<and>
    (\<forall>m \<in> set h. dj_current_doc (dj_settle v h) \<le> vt_doc_id v m)" if ne: "h \<noteq> []"
  proof -
    obtain x h' where p: "pop_min (vt_doc_id v) h = Some (x, h')"
      using ne pop_min_None [of "vt_doc_id v" h] by (cases "pop_min (vt_doc_id v) h") auto
    have x: "inv x" "docs x \<noteq> {}" using all_live_pop [OF assms p] by simp_all
    have least: "\<forall>m \<in> set h. vt_doc_id v x \<le> vt_doc_id v m" using pop_min_Some [OF p] by auto
    have "Min (\<Union> (docs ` set h)) = vt_doc_id v x"
    proof (rule Min_eqI)
      show "finite (\<Union> (docs ` set h))" using assms docs_bound by (auto simp: all_live_def)
      show "vt_doc_id v x \<in> \<Union> (docs ` set h)" using doc_id_in [OF x] pop_min_Some [OF p] by auto
      fix d assume "d \<in> \<Union> (docs ` set h)"
      then obtain m where "m \<in> set h" "d \<in> docs m" by auto
      then show "vt_doc_id v x \<le> d" using least doc_id_le [of m d] assms by (force simp: all_live_def)
    qed
    with p least show ?thesis by (simp add: dj_settle_def)
  qed
  then show "dj_current_doc (dj_settle v h) = (if h = [] then u64_max else Min (\<Union> (docs ` set h)))"
    "\<forall>m \<in> set h. dj_current_doc (dj_settle v h) \<le> vt_doc_id v m"
    by (cases "h = []"; simp add: dj_settle_def)+
qed

lemma dj_docs_empty: "all_live inv docs (heap s) \<Longrightarrow> dj_docs docs s = {} \<longleftrightarrow> heap s = []"
  by (cases "heap s") (auto simp: dj_docs_def)

lemma dj_inv_settle [simp]: "dj_inv v inv docs (dj_settle v h) \<longleftrightarrow> all_live inv docs h"
  by (simp add: dj_inv_def)

lemma disjunction_matcher: "matcher (disjunction_vt v) (dj_inv v inv docs) (dj_docs docs)"
proof
  fix s t
  assume "dj_inv v inv docs s"
  then have live: "all_live inv docs (heap s)" and s: "s = dj_settle v (heap s)" by (auto simp: dj_inv_def)
  have ex: "dj_exhausted s \<longleftrightarrow> heap s = []" and cur: "dj_current_doc s = dj_current_doc (dj_settle v (heap s))"
    using s dj_exhausted_settle [of v "heap s"] by metis+
  note doc = dj_settle_doc [OF live, folded cur] and empty = dj_docs_empty [OF live]
  show "finite (dj_docs docs s) \<and> dj_docs docs s \<subseteq> {..<u64_max}"
    using live docs_bound by (fastforce simp: dj_docs_def all_live_def)
  show "vt_doc_id (disjunction_vt v) s = (if dj_docs docs s = {} then u64_max else Min (dj_docs docs s))"
    using doc(1) empty by (simp add: disjunction_vt_def dj_docs_def)
  show "vt_is_exhausted (disjunction_vt v) s \<longleftrightarrow> dj_docs docs s = {}"
    using ex empty by (simp add: disjunction_vt_def)
  obtain h1 where h1: "advance_loop v (dj_current_doc s) (heap s) [] = Some (Inr (), h1)" "all_live inv docs h1"
    "\<Union> (docs ` set h1) = \<Union> (docs ` set (heap s)) - {dj_current_doc s}"
    using advance_loop_docs [OF live all_live_simps(1) doc(2)] by auto
  show "\<exists>s'. vt_next (disjunction_vt v) s = Some (Inr (dj_docs docs s' \<noteq> {}), s') \<and> dj_inv v inv docs s' \<and>
      dj_docs docs s' = dj_docs docs s - {vt_doc_id (disjunction_vt v) s}"
  proof (cases "heap s = []")
    case True
    with live ex s empty show ?thesis
      by (intro exI [of _ s]) (simp add: disjunction_vt_def dj_next_def dj_inv_def)
  next
    case False
    with h1 ex dj_docs_empty [of "dj_settle v h1"] show ?thesis
      by (intro exI [of _ "dj_settle v h1"]) (simp add: disjunction_vt_def dj_next_def dj_docs_def)
  qed
  obtain h2 where h2: "skip_loop v t (heap s) [] = Some (Inr (), h2)" "all_live inv docs h2"
    "\<Union> (docs ` set h2) = {d \<in> \<Union> (docs ` set (heap s)). t \<le> d}"
    using skip_loop_docs [OF live all_live_simps(1), of t] by auto
  show "\<exists>s'. vt_skip_to (disjunction_vt v) t s = Some (Inr (dj_docs docs s' \<noteq> {}), s') \<and> dj_inv v inv docs s' \<and>
      dj_docs docs s' = {d \<in> dj_docs docs s. t \<le> d}"
  proof (cases "dj_exhausted s \<or> t \<le> dj_current_doc s")
    case True
    have "d \<in> dj_docs docs s \<Longrightarrow> t \<le> d" for d
    proof -
      assume d: "d \<in> dj_docs docs s"
      then obtain m where m: "m \<in> set (heap s)" "d \<in> docs m" by (auto simp: dj_docs_def)
      then have "dj_current_doc s \<le> d" using doc(2) doc_id_le [of m d] live by (force simp: all_live_def)
      then show "t \<le> d" using True ex m by auto
    qed
    with True live ex s empty show ?thesis
      by (intro exI [of _ s]) (auto simp: disjunction_vt_def dj_skip_to_def dj_inv_def)
  next
    case False
    with h2 ex dj_docs_empty [of "dj_settle v h2"] show ?thesis
      by (intro exI [of _ "dj_settle v h2"]) (simp add: disjunction_vt_def dj_skip_to_def dj_docs_def)
  qed
qed

lemma disjunction_new_docs:
  assumes "\<forall>m \<in> set ms. inv m"
  shows "dj_inv v inv docs (disjunction_new v ms)" "dj_docs docs (disjunction_new v ms) = \<Union> (docs ` set ms)"
  using assms exhausted_law by (auto simp: disjunction_new_def all_live_def dj_docs_def)

end

section \<open>Conjunction\<close>

record 's conjunction_matcher =
  cj_matchers :: "'s list"
  cj_current_doc :: nat
  cj_exhausted :: bool

text \<open>The largest current document of the parts, or \<open>None\<close> when a part has none.\<close>

fun max_doc_of :: "'s vtable \<Rightarrow> nat \<Rightarrow> 's list \<Rightarrow> nat option" where
  "max_doc_of v max_doc [] = Some max_doc"
| "max_doc_of v max_doc (m # ms) =
     (if vt_doc_id v m = u64_max then None
      else max_doc_of v (if vt_doc_id v m > max_doc then vt_doc_id v m else max_doc) ms)"

text \<open>
  One pass that skips the parts behind \<open>max_doc\<close>. Its value is whether all parts are aligned, or
  \<open>None\<close> when a part ended.
\<close>

fun align_pass ::
    "'s vtable \<Rightarrow> nat \<Rightarrow> bool \<Rightarrow> 's list \<Rightarrow> (bool option res \<times> 's list) option" where
  "align_pass v max_doc all_aligned [] = Some (Inr (Some all_aligned), [])"
| "align_pass v max_doc all_aligned (m # ms) =
     (if vt_doc_id v m < max_doc then
        (case vt_skip_to v max_doc m of
           None \<Rightarrow> None
         | Some (Inl e, m') \<Rightarrow> Some (Inl e, m' # ms)
         | Some (Inr False, m') \<Rightarrow> Some (Inr None, m' # ms)
         | Some (Inr True, m') \<Rightarrow>
             map_option (map_prod id ((#) m'))
               (align_pass v max_doc (if vt_doc_id v m' \<noteq> max_doc then False else all_aligned) ms))
      else map_option (map_prod id ((#) m)) (align_pass v max_doc all_aligned ms))"

partial_function (option) align_loop ::
    "'s vtable \<Rightarrow> 's conjunction_matcher \<Rightarrow> (bool res \<times> 's conjunction_matcher) option" where
  "align_loop v s =
     (case max_doc_of v 0 (cj_matchers s) of
        None \<Rightarrow> Some (Inr False, s\<lparr>cj_exhausted := True\<rparr>)
      | Some max_doc \<Rightarrow>
          (case align_pass v max_doc True (cj_matchers s) of
             None \<Rightarrow> None
           | Some (Inl e, ms) \<Rightarrow> Some (Inl e, s\<lparr>cj_matchers := ms\<rparr>)
           | Some (Inr None, ms) \<Rightarrow> Some (Inr False, s\<lparr>cj_matchers := ms, cj_exhausted := True\<rparr>)
           | Some (Inr (Some all_aligned), ms) \<Rightarrow>
               if all_aligned then Some (Inr True, s\<lparr>cj_matchers := ms, cj_current_doc := max_doc\<rparr>)
               else align_loop v (s\<lparr>cj_matchers := ms\<rparr>)))"

definition advance_to_alignment ::
    "'s vtable \<Rightarrow> 's conjunction_matcher \<Rightarrow> (bool res \<times> 's conjunction_matcher) option" where
  "advance_to_alignment v s =
     (if cj_matchers s = [] \<or> cj_exhausted s then Some (Inr False, s) else align_loop v s)"

definition conjunction_new :: "'s vtable \<Rightarrow> 's list \<Rightarrow> 's conjunction_matcher option" where
  "conjunction_new v matchers =
     (if matchers = [] then Some \<lparr>cj_matchers = [], cj_current_doc = u64_max, cj_exhausted = True\<rparr>
      else case advance_to_alignment v
               \<lparr>cj_matchers = matchers, cj_current_doc = 0, cj_exhausted = False\<rparr> of
             None \<Rightarrow> None
           | Some (r, s) \<Rightarrow>
               Some (if r = Inr True then s else s\<lparr>cj_exhausted := True, cj_current_doc := u64_max\<rparr>))"

definition cj_doc_id :: "'s conjunction_matcher \<Rightarrow> nat" where
  "cj_doc_id s = (if cj_exhausted s then u64_max else cj_current_doc s)"

text \<open>The first part moves, and the others follow it.\<close>

definition lead_and_align ::
    "'s vtable \<Rightarrow> ('s \<Rightarrow> (bool res \<times> 's) option) \<Rightarrow> 's conjunction_matcher \<Rightarrow>
     (bool res \<times> 's conjunction_matcher) option" where
  "lead_and_align v move s =
     (case move (hd (cj_matchers s)) of
        None \<Rightarrow> None
      | Some (r, m) \<Rightarrow>
          let s' = s\<lparr>cj_matchers := m # tl (cj_matchers s)\<rparr>
          in case r of
               Inl e \<Rightarrow> Some (Inl e, s')
             | Inr False \<Rightarrow> Some (Inr False, s'\<lparr>cj_exhausted := True, cj_current_doc := u64_max\<rparr>)
             | Inr True \<Rightarrow> advance_to_alignment v s')"

definition cj_next ::
    "'s vtable \<Rightarrow> 's conjunction_matcher \<Rightarrow> (bool res \<times> 's conjunction_matcher) option" where
  "cj_next v s =
     (if cj_exhausted s \<or> cj_matchers s = [] then Some (Inr False, s)
      else lead_and_align v (vt_next v) s)"

definition cj_skip_to ::
    "'s vtable \<Rightarrow> nat \<Rightarrow> 's conjunction_matcher \<Rightarrow> (bool res \<times> 's conjunction_matcher) option" where
  "cj_skip_to v target s =
     (if cj_exhausted s \<or> target \<le> cj_current_doc s
      then Some (Inr (\<not> cj_exhausted s \<and> cj_current_doc s \<ge> target), s)
      else lead_and_align v (vt_skip_to v target) s)"

definition conjunction_vt :: "'s vtable \<Rightarrow> 's conjunction_matcher vtable" where
  "conjunction_vt v = \<lparr>vt_doc_id = cj_doc_id, vt_next = cj_next v, vt_skip_to = cj_skip_to v,
     vt_is_exhausted = cj_exhausted\<rparr>"

definition cj_docs :: "('s \<Rightarrow> nat set) \<Rightarrow> 's conjunction_matcher \<Rightarrow> nat set" where
  "cj_docs D s = (if cj_exhausted s then {} else \<Inter> (D ` set (cj_matchers s)))"

text \<open>Between two operations the parts of a conjunction with documents left stand on the same document.\<close>

definition cj_inv ::
    "'s vtable \<Rightarrow> ('s \<Rightarrow> bool) \<Rightarrow> ('s \<Rightarrow> nat set) \<Rightarrow> 's conjunction_matcher \<Rightarrow> bool" where
  "cj_inv v I D s \<longleftrightarrow> cj_exhausted s \<or> cj_matchers s \<noteq> [] \<and> all_live I D (cj_matchers s) \<and>
     (\<forall>m \<in> set (cj_matchers s). vt_doc_id v m = cj_current_doc s)"

context matcher
begin

lemma max_doc_of_None: "\<forall>m \<in> set ms. inv m \<Longrightarrow> max_doc_of v k ms = None \<Longrightarrow> \<exists>m \<in> set ms. docs m = {}"
  by (induction ms arbitrary: k) (auto simp: doc_id_max split: if_splits)

lemma max_doc_of_Some:
  "\<forall>m \<in> set ms. inv m \<Longrightarrow> max_doc_of v k ms = Some d \<Longrightarrow>
   all_live inv docs ms \<and> k \<le> d \<and> (\<forall>m \<in> set ms. vt_doc_id v m \<le> d) \<and> (d = k \<or> (\<exists>m \<in> set ms. vt_doc_id v m = d))"
proof (induction ms arbitrary: k)
  case (Cons m ms)
  let ?k = "if vt_doc_id v m > k then vt_doc_id v m else k"
  have live: "docs m \<noteq> {}" and d: "max_doc_of v ?k ms = Some d"
    using Cons.prems doc_id_max [of m] by (auto split: if_splits)
  have "\<forall>m \<in> set ms. inv m" using Cons.prems(1) by simp
  note IH = Cons.IH [OF this d]
  then have "k \<le> d" "vt_doc_id v m \<le> d" by (auto split: if_splits)
  with IH live Cons.prems(1) show ?case by (auto split: if_splits)
qed simp

text \<open>What a pass does to a part: it drops the documents below the target.\<close>

definition dropped_below :: "nat \<Rightarrow> 's \<Rightarrow> 's \<Rightarrow> bool" where
  "dropped_below t m m' \<longleftrightarrow> inv m' \<and> docs m' \<noteq> {} \<and> docs m' = {d \<in> docs m. t \<le> d}"

definition remaining :: "'s list \<Rightarrow> nat" where
  "remaining ms = sum_list (map (\<lambda>m. card (docs m)) ms)"

definition pass_result :: "nat \<Rightarrow> bool \<Rightarrow> 's list \<Rightarrow> bool option \<Rightarrow> 's list \<Rightarrow> bool" where
  "pass_result t aligned ms r ms' \<longleftrightarrow>
     (case r of
        None \<Rightarrow> \<exists>m \<in> set ms. {d \<in> docs m. t \<le> d} = {}
      | Some a \<Rightarrow> list_all2 (dropped_below t) ms ms' \<and>
          (a \<longrightarrow> aligned \<and> (\<forall>m \<in> set ms'. vt_doc_id v m = t)) \<and> remaining ms' \<le> remaining ms \<and>
          (aligned \<and> \<not> a \<longrightarrow> remaining ms' < remaining ms))"

lemma pass_result_Cons:
  assumes "pass_result t a' ms r ms'" "dropped_below t m m'" "card (docs m') \<le> card (docs m)"
    "a' \<Longrightarrow> aligned \<and> vt_doc_id v m' = t" "aligned \<and> \<not> a' \<Longrightarrow> card (docs m') < card (docs m)"
  shows "pass_result t aligned (m # ms) r (m' # ms')"
proof (cases r)
  case None
  then show ?thesis using assms(1) by (auto simp: pass_result_def)
next
  case (Some a)
  with assms show ?thesis
    by (cases a'; cases aligned; cases a) (simp_all add: pass_result_def remaining_def)
qed

lemma align_pass_docs:
  assumes "all_live inv docs ms" "\<forall>m \<in> set ms. vt_doc_id v m \<le> t"
  shows "\<exists>r ms'. align_pass v t aligned ms = Some (Inr r, ms') \<and> pass_result t aligned ms r ms'"
  using assms
proof (induction ms arbitrary: aligned)
  case Nil
  then show ?case by (simp add: pass_result_def remaining_def)
next
  case (Cons m ms)
  then have m: "inv m" "docs m \<noteq> {}" "vt_doc_id v m \<le> t" and fin: "finite (docs m)"
    using docs_bound by auto
  have tail: "all_live inv docs ms" "\<forall>m \<in> set ms. vt_doc_id v m \<le> t" using Cons.prems by auto
  show ?case
  proof (cases "vt_doc_id v m < t")
    case False
    then have t: "{d \<in> docs m. t \<le> d} = docs m" "vt_doc_id v m = t" using m doc_id_le [of m] by fastforce+
    obtain r ms' where r: "align_pass v t aligned ms = Some (Inr r, ms')" "pass_result t aligned ms r ms'"
      using Cons.IH [OF tail] by blast
    have "pass_result t aligned (m # ms) r (m # ms')"
      using t m by (intro pass_result_Cons [OF r(2)]) (simp_all add: dropped_below_def)
    with False r(1) show ?thesis by simp
  next
    case True
    obtain m' where m': "vt_skip_to v t m = Some (Inr (docs m' \<noteq> {}), m')" "inv m'"
      "docs m' = {d \<in> docs m. t \<le> d}" using skip_to_law [OF m(1), of t] by auto
    show ?thesis
    proof (cases "docs m' = {}")
      case empty: True
      then have "pass_result t aligned (m # ms) None (m' # ms)" using m'(3) by (simp add: pass_result_def)
      with True m'(1) empty show ?thesis by simp
    next
      case False
      have "vt_doc_id v m \<notin> docs m'" using m'(3) True by simp
      then have "docs m' \<subset> docs m" using m'(3) doc_id_in [OF m(1,2)] by blast
      then have less: "card (docs m') < card (docs m)" using fin by (rule psubset_card_mono [rotated])
      let ?a = "if vt_doc_id v m' \<noteq> t then False else aligned"
      obtain r ms' where r: "align_pass v t ?a ms = Some (Inr r, ms')" "pass_result t ?a ms r ms'"
        using Cons.IH [OF tail] by blast
      have "pass_result t aligned (m # ms) r (m' # ms')"
        using m' False less by (intro pass_result_Cons [OF r(2)]) (simp_all add: dropped_below_def split: if_splits)
      with True False m'(1) r(1) show ?thesis by simp
    qed
  qed
qed

lemma dropped_below_Inter:
  assumes "list_all2 (dropped_below t) ms ms'" "ms \<noteq> []"
  shows "\<Inter> (docs ` set ms') = {d \<in> \<Inter> (docs ` set ms). t \<le> d} \<and> all_live inv docs ms' \<and> ms' \<noteq> []"
  using assms
proof (induction rule: list_all2_induct)
  case (Cons m ms m' ms')
  then show ?case by (cases "ms = []") (auto simp: dropped_below_def)
qed simp

lemma align_loop_docs:
  assumes "\<forall>m \<in> set (cj_matchers s). inv m" "cj_matchers s \<noteq> []" "\<not> cj_exhausted s"
  shows "\<exists>s'. align_loop v s = Some (Inr (cj_docs docs s' \<noteq> {}), s') \<and> cj_inv v inv docs s' \<and>
    cj_docs docs s' = \<Inter> (docs ` set (cj_matchers s))"
  using assms
proof (induction "remaining (cj_matchers s)" arbitrary: s rule: less_induct)
  case less
  let ?ms = "cj_matchers s"
  show ?case
  proof (cases "max_doc_of v 0 ?ms")
    case None
    from max_doc_of_None [OF less.prems(1) this] have "\<Inter> (docs ` set ?ms) = {}" by auto
    with None show ?thesis by (subst align_loop.simps) (auto simp: cj_docs_def cj_inv_def)
  next
    case (Some d)
    have d: "all_live inv docs ?ms" "\<forall>m \<in> set ?ms. vt_doc_id v m \<le> d"
      "\<exists>m \<in> set ?ms. vt_doc_id v m = d"
      using max_doc_of_Some [OF less.prems(1) Some] less.prems(2) by (auto simp: neq_Nil_conv)
    have above: "{x \<in> \<Inter> (docs ` set ?ms). d \<le> x} = \<Inter> (docs ` set ?ms)"
      using d(3) doc_id_le less.prems(1) by blast
    obtain r ms' where r: "align_pass v d True ?ms = Some (Inr r, ms')" "pass_result d True ?ms r ms'"
      using align_pass_docs [OF d(1,2)] by blast
    show ?thesis
    proof (cases r)
      case None
      with r(2) obtain m where "m \<in> set ?ms" "{x \<in> docs m. d \<le> x} = {}" by (auto simp: pass_result_def)
      then have "\<Inter> (docs ` set ?ms) = {}" using above by blast
      with None r(1) Some show ?thesis by (subst align_loop.simps) (auto simp: cj_docs_def cj_inv_def)
    next
      case a: (Some a)
      then have pass: "list_all2 (dropped_below d) ?ms ms'" "a \<longrightarrow> (\<forall>m \<in> set ms'. vt_doc_id v m = d)"
        "\<not> a \<longrightarrow> remaining ms' < remaining ?ms" using r(2) by (simp_all add: pass_result_def)
      note ms' = dropped_below_Inter [OF pass(1) less.prems(2), unfolded above]
      show ?thesis
      proof (cases a)
        case False
        let ?s = "s\<lparr>cj_matchers := ms'\<rparr>"
        have "align_loop v s = align_loop v ?s"
          using Some r(1) a False by (subst align_loop.simps) simp
        moreover have "remaining (cj_matchers ?s) < remaining ?ms" "\<forall>m \<in> set (cj_matchers ?s). inv m"
          "cj_matchers ?s \<noteq> []" "\<not> cj_exhausted ?s"
          using pass(3) False ms' less.prems(3) by (simp_all add: all_live_def)
        ultimately show ?thesis using less.hyps [of ?s] ms' by simp
      next
        case True
        let ?s = "s\<lparr>cj_matchers := ms', cj_current_doc := d\<rparr>"
        have run: "align_loop v s = Some (Inr True, ?s)" using Some r(1) a True by (subst align_loop.simps) simp
        have "d \<in> docs m" if "m \<in> set ms'" for m
          using that pass(2) True ms' doc_id_in [of m] by (auto simp: all_live_def)
        then have "d \<in> \<Inter> (docs ` set ms')" by blast
        with run ms' pass(2) True less.prems(3) show ?thesis
          by (intro exI [of _ ?s]) (auto simp: cj_docs_def cj_inv_def)
      qed
    qed
  qed
qed


lemma lead_and_align_docs:
  assumes "cj_inv v inv docs s" "\<not> cj_exhausted s"
    and "move (hd (cj_matchers s)) = Some (Inr (docs m \<noteq> {}), m)" "inv m"
  shows "\<exists>s'. lead_and_align v move s = Some (Inr (cj_docs docs s' \<noteq> {}), s') \<and> cj_inv v inv docs s' \<and>
    cj_docs docs s' = docs m \<inter> \<Inter> (docs ` set (tl (cj_matchers s)))"
proof (cases "docs m = {}")
  case True
  with assms(3) show ?thesis by (simp add: lead_and_align_def cj_docs_def cj_inv_def Let_def)
next
  case False
  let ?s = "s\<lparr>cj_matchers := m # tl (cj_matchers s)\<rparr>"
  have run: "lead_and_align v move s = align_loop v ?s"
    using assms(2,3) False by (simp add: lead_and_align_def Let_def advance_to_alignment_def)
  have "\<forall>x \<in> set (cj_matchers ?s). inv x"
    using assms by (auto simp: cj_inv_def all_live_def dest: list.set_sel(2) [rotated])
  then show ?thesis using align_loop_docs [of ?s] assms(2) unfolding run by simp
qed

lemma Inter_hd_tl: "ms \<noteq> [] \<Longrightarrow> \<Inter> (docs ` set ms) = docs (hd ms) \<inter> \<Inter> (docs ` set (tl ms))"
  by (cases ms) auto

lemma conjunction_matcher: "matcher (conjunction_vt v) (cj_inv v inv docs) (cj_docs docs)"
proof
  fix s t
  assume s: "cj_inv v inv docs s"
  let ?ms = "cj_matchers s" and ?D = "\<Inter> (docs ` set (cj_matchers s))"
  have parts: "?ms \<noteq> []" "inv (hd ?ms)" "vt_doc_id v (hd ?ms) = cj_current_doc s"
    "cj_current_doc s \<in> ?D" "?D \<subseteq> docs (hd ?ms)" "cj_current_doc s \<noteq> u64_max" if "\<not> cj_exhausted s"
  proof -
    have ms: "?ms \<noteq> []" "all_live inv docs ?ms" "\<forall>m \<in> set ?ms. vt_doc_id v m = cj_current_doc s"
      using s that by (auto simp: cj_inv_def)
    then show "?ms \<noteq> []" by simp
    have hd: "hd ?ms \<in> set ?ms" using ms(1) by simp
    then show h: "inv (hd ?ms)" "vt_doc_id v (hd ?ms) = cj_current_doc s" using ms by (auto simp: all_live_def)
    show "cj_current_doc s \<in> ?D" using ms doc_id_in by (force simp: all_live_def)
    show "?D \<subseteq> docs (hd ?ms)" using hd by blast
    show "cj_current_doc s \<noteq> u64_max" using doc_id_max [OF h(1)] h(2) ms(2) hd by (auto simp: all_live_def)
  qed
  show "finite (cj_docs docs s) \<and> cj_docs docs s \<subseteq> {..<u64_max}"
    using parts docs_bound [of "hd ?ms"] by (cases "cj_exhausted s") (auto simp: cj_docs_def intro: finite_subset)
  show "vt_doc_id (conjunction_vt v) s = (if cj_docs docs s = {} then u64_max else Min (cj_docs docs s))"
  proof (cases "cj_exhausted s")
    case False
    have "Min ?D = cj_current_doc s"
      using parts [OF False] doc_id_le [OF parts(2) [OF False]] docs_bound [OF parts(2) [OF False]]
      by (intro Min_eqI) (auto intro: finite_subset)
    with False parts(4) show ?thesis by (auto simp: conjunction_vt_def cj_doc_id_def cj_docs_def)
  qed (simp add: conjunction_vt_def cj_doc_id_def cj_docs_def)
  show "vt_is_exhausted (conjunction_vt v) s \<longleftrightarrow> cj_docs docs s = {}"
    using parts(4) by (auto simp: conjunction_vt_def cj_docs_def)
  show "\<exists>s'. vt_next (conjunction_vt v) s = Some (Inr (cj_docs docs s' \<noteq> {}), s') \<and> cj_inv v inv docs s' \<and>
      cj_docs docs s' = cj_docs docs s - {vt_doc_id (conjunction_vt v) s}"
  proof (cases "cj_exhausted s")
    case True
    with s show ?thesis by (simp add: conjunction_vt_def cj_next_def cj_docs_def)
  next
    case False
    note p = parts [OF False]
    obtain m where m: "vt_next v (hd ?ms) = Some (Inr (docs m \<noteq> {}), m)" "inv m"
      "docs m = docs (hd ?ms) - {cj_current_doc s}" using next_law [OF p(2)] p(3) by auto
    have "cj_docs docs s = docs (hd ?ms) \<inter> \<Inter> (docs ` set (tl ?ms))"
      using False Inter_hd_tl [OF p(1)] by (simp add: cj_docs_def)
    then have "docs m \<inter> \<Inter> (docs ` set (tl ?ms)) = cj_docs docs s - {cj_current_doc s}"
      using m(3) by blast
    then show ?thesis
      using lead_and_align_docs [of s "vt_next v" m, OF s False m(1,2)] False p(1)
      by (simp add: conjunction_vt_def cj_next_def cj_doc_id_def)
  qed
  show "\<exists>s'. vt_skip_to (conjunction_vt v) t s = Some (Inr (cj_docs docs s' \<noteq> {}), s') \<and> cj_inv v inv docs s' \<and>
      cj_docs docs s' = {d \<in> cj_docs docs s. t \<le> d}"
  proof (cases "cj_exhausted s \<or> t \<le> cj_current_doc s")
    case True
    have least: "\<not> cj_exhausted s \<and> cj_current_doc s \<le> d" if d: "d \<in> cj_docs docs s" for d
    proof -
      have ex: "\<not> cj_exhausted s" using d by (auto simp: cj_docs_def)
      then have "d \<in> docs (hd ?ms)" using d parts(5) by (auto simp: cj_docs_def)
      then show ?thesis using doc_id_le [OF parts(2)] parts(3) ex by simp
    qed
    have "{d \<in> cj_docs docs s. t \<le> d} = cj_docs docs s"
      using True least order_trans by blast
    moreover have "cj_docs docs s \<noteq> {} \<longleftrightarrow> \<not> cj_exhausted s" using parts(4) by (auto simp: cj_docs_def)
    ultimately show ?thesis using True s by (auto simp: conjunction_vt_def cj_skip_to_def)
  next
    case False
    then have ex: "\<not> cj_exhausted s" by simp
    note p = parts [OF ex]
    obtain m where m: "vt_skip_to v t (hd ?ms) = Some (Inr (docs m \<noteq> {}), m)" "inv m"
      "docs m = {d \<in> docs (hd ?ms). t \<le> d}" using skip_to_law [OF p(2), of t] by auto
    have "cj_docs docs s = docs (hd ?ms) \<inter> \<Inter> (docs ` set (tl ?ms))"
      using ex Inter_hd_tl [OF p(1)] by (simp add: cj_docs_def)
    then have "docs m \<inter> \<Inter> (docs ` set (tl ?ms)) = {d \<in> cj_docs docs s. t \<le> d}"
      using m(3) by blast
    then show ?thesis
      using lead_and_align_docs [of s "vt_skip_to v t" m, OF s ex m(1,2)] False
      by (simp add: conjunction_vt_def cj_skip_to_def)
  qed
qed

lemma conjunction_new_docs:
  assumes "\<forall>m \<in> set ms. inv m" "ms \<noteq> []"
  shows "\<exists>s. conjunction_new v ms = Some s \<and> cj_inv v inv docs s \<and> cj_docs docs s = \<Inter> (docs ` set ms)"
proof -
  let ?s = "\<lparr>cj_matchers = ms, cj_current_doc = 0, cj_exhausted = False\<rparr>"
  obtain s' where s': "align_loop v ?s = Some (Inr (cj_docs docs s' \<noteq> {}), s')" "cj_inv v inv docs s'"
    "cj_docs docs s' = \<Inter> (docs ` set ms)"
    using align_loop_docs [of ?s] assms by auto
  then have "conjunction_new v ms = Some (if cj_docs docs s' \<noteq> {} then s'
      else s'\<lparr>cj_exhausted := True, cj_current_doc := u64_max\<rparr>)"
    using assms(2) by (simp add: conjunction_new_def advance_to_alignment_def)
  with s' show ?thesis by (cases "cj_docs docs s' = {}") (simp_all add: cj_inv_def cj_docs_def)
qed

end

section \<open>Conjunction with excluded matchers\<close>

record 's conjunction_not_matcher =
  cn_positive :: 's
  cn_negatives :: "'s list"
  cn_current_doc :: nat
  cn_exhausted :: bool

text \<open>The matchers that exclude are taken forward to the document they are asked about, and no further.\<close>

fun is_excluded :: "'s vtable \<Rightarrow> nat \<Rightarrow> 's list \<Rightarrow> (bool res \<times> 's list) option" where
  "is_excluded v doc [] = Some (Inr False, [])"
| "is_excluded v doc (m # ms) =
     (case (if vt_doc_id v m < doc then vt_skip_to v doc m else Some (Inr True, m)) of
        None \<Rightarrow> None
      | Some (Inl e, m') \<Rightarrow> Some (Inl e, m' # ms)
      | Some (Inr _, m') \<Rightarrow>
          if vt_doc_id v m' = doc then Some (Inr True, m' # ms)
          else map_option (map_prod id ((#) m')) (is_excluded v doc ms))"

definition cn_end :: "'s conjunction_not_matcher \<Rightarrow> 's conjunction_not_matcher" where
  "cn_end s = s\<lparr>cn_exhausted := True, cn_current_doc := u64_max\<rparr>"

partial_function (option) advance_to_next_valid ::
    "'s vtable \<Rightarrow> 's conjunction_not_matcher \<Rightarrow> (bool res \<times> 's conjunction_not_matcher) option" where
  "advance_to_next_valid v s =
     (if vt_is_exhausted v (cn_positive s) then Some (Inr False, cn_end s)
      else if vt_doc_id v (cn_positive s) = u64_max then Some (Inr False, cn_end s)
      else case is_excluded v (vt_doc_id v (cn_positive s)) (cn_negatives s) of
             None \<Rightarrow> None
           | Some (Inl e, ns) \<Rightarrow> Some (Inl e, s\<lparr>cn_negatives := ns\<rparr>)
           | Some (Inr excluded, ns) \<Rightarrow>
               if \<not> excluded
               then Some (Inr True, s\<lparr>cn_negatives := ns, cn_current_doc := vt_doc_id v (cn_positive s)\<rparr>)
               else (case vt_next v (cn_positive s) of
                       None \<Rightarrow> None
                     | Some (Inl e, p) \<Rightarrow> Some (Inl e, s\<lparr>cn_negatives := ns, cn_positive := p\<rparr>)
                     | Some (Inr has_next, p) \<Rightarrow>
                         if \<not> has_next then Some (Inr False, cn_end (s\<lparr>cn_negatives := ns, cn_positive := p\<rparr>))
                         else advance_to_next_valid v (s\<lparr>cn_negatives := ns, cn_positive := p\<rparr>)))"

definition conjunction_not_new :: "'s vtable \<Rightarrow> 's \<Rightarrow> 's list \<Rightarrow> 's conjunction_not_matcher option" where
  "conjunction_not_new v positive negatives =
     (case advance_to_next_valid v \<lparr>cn_positive = positive, cn_negatives = negatives,
             cn_current_doc = 0, cn_exhausted = False\<rparr> of
        None \<Rightarrow> None
      | Some (r, s) \<Rightarrow> Some (if r = Inr True then s else cn_end s))"

definition cn_doc_id :: "'s conjunction_not_matcher \<Rightarrow> nat" where
  "cn_doc_id s = (if cn_exhausted s then u64_max else cn_current_doc s)"

definition lead_and_advance ::
    "'s vtable \<Rightarrow> ('s \<Rightarrow> (bool res \<times> 's) option) \<Rightarrow> 's conjunction_not_matcher \<Rightarrow>
     (bool res \<times> 's conjunction_not_matcher) option" where
  "lead_and_advance v move s =
     (case move (cn_positive s) of
        None \<Rightarrow> None
      | Some (Inl e, p) \<Rightarrow> Some (Inl e, s\<lparr>cn_positive := p\<rparr>)
      | Some (Inr has_next, p) \<Rightarrow>
          if \<not> has_next then Some (Inr False, cn_end (s\<lparr>cn_positive := p\<rparr>))
          else advance_to_next_valid v (s\<lparr>cn_positive := p\<rparr>))"

definition cn_next ::
    "'s vtable \<Rightarrow> 's conjunction_not_matcher \<Rightarrow> (bool res \<times> 's conjunction_not_matcher) option" where
  "cn_next v s = (if cn_exhausted s then Some (Inr False, s) else lead_and_advance v (vt_next v) s)"

definition cn_skip_to ::
    "'s vtable \<Rightarrow> nat \<Rightarrow> 's conjunction_not_matcher \<Rightarrow> (bool res \<times> 's conjunction_not_matcher) option" where
  "cn_skip_to v target s =
     (if cn_exhausted s \<or> target \<le> cn_current_doc s
      then Some (Inr (\<not> cn_exhausted s \<and> cn_current_doc s \<ge> target), s)
      else lead_and_advance v (vt_skip_to v target) s)"

definition conjunction_not_vt :: "'s vtable \<Rightarrow> 's conjunction_not_matcher vtable" where
  "conjunction_not_vt v = \<lparr>vt_doc_id = cn_doc_id, vt_next = cn_next v, vt_skip_to = cn_skip_to v,
     vt_is_exhausted = cn_exhausted\<rparr>"

definition cn_docs :: "('s \<Rightarrow> nat set) \<Rightarrow> 's conjunction_not_matcher \<Rightarrow> nat set" where
  "cn_docs D s = (if cn_exhausted s then {} else D (cn_positive s) - \<Union> (D ` set (cn_negatives s)))"

definition cn_inv ::
    "'s vtable \<Rightarrow> ('s \<Rightarrow> bool) \<Rightarrow> ('s \<Rightarrow> nat set) \<Rightarrow> 's conjunction_not_matcher \<Rightarrow> bool" where
  "cn_inv v I D s \<longleftrightarrow> cn_exhausted s \<or> I (cn_positive s) \<and> (\<forall>m \<in> set (cn_negatives s). I m) \<and>
     D (cn_positive s) \<noteq> {} \<and> cn_current_doc s = vt_doc_id v (cn_positive s) \<and>
     cn_current_doc s \<notin> \<Union> (D ` set (cn_negatives s))"

lemma cn_end_simps [simp]: "cn_exhausted (cn_end s)" "cn_docs D (cn_end s) = {}" "cn_inv v I D (cn_end s)"
  by (simp_all add: cn_end_def cn_docs_def cn_inv_def)

context matcher
begin

lemma is_excluded_docs:
  assumes "\<forall>m \<in> set ms. inv m" "t < u64_max"
  shows "\<exists>ms'. is_excluded v t ms = Some (Inr (t \<in> \<Union> (docs ` set ms)), ms') \<and> (\<forall>m \<in> set ms'. inv m) \<and>
    {d \<in> \<Union> (docs ` set ms'). t \<le> d} = {d \<in> \<Union> (docs ` set ms). t \<le> d}"
  using assms(1)
proof (induction ms)
  case (Cons m ms)
  have m: "inv m" "\<forall>m \<in> set ms. inv m" using Cons.prems by simp_all
  obtain ms' where ms': "is_excluded v t ms = Some (Inr (t \<in> \<Union> (docs ` set ms)), ms')"
    "\<forall>m \<in> set ms'. inv m" "{d \<in> \<Union> (docs ` set ms'). t \<le> d} = {d \<in> \<Union> (docs ` set ms). t \<le> d}"
    using Cons.IH [OF m(2)] by blast
  obtain b m' where m': "(if vt_doc_id v m < t then vt_skip_to v t m else Some (Inr True, m)) = Some (Inr b, m')"
    "inv m'" "{d \<in> docs m'. t \<le> d} = {d \<in> docs m. t \<le> d}" "t \<le> vt_doc_id v m'"
  proof (cases "vt_doc_id v m < t")
    case True
    obtain m' where m': "vt_skip_to v t m = Some (Inr (docs m' \<noteq> {}), m')" "inv m'"
      "docs m' = {d \<in> docs m. t \<le> d}" using skip_to_law [OF m(1), of t] by auto
    have "t \<le> vt_doc_id v m'"
      using assms(2) doc_id_max [OF m'(2)] doc_id_in [OF m'(2)] m'(3) by (cases "docs m' = {}") auto
    with True m' that show ?thesis by auto
  next
    case False
    with m that [of True m] show ?thesis by simp
  qed
  have hit: "vt_doc_id v m' = t \<longleftrightarrow> t \<in> docs m"
  proof
    assume e: "vt_doc_id v m' = t"
    then have "docs m' \<noteq> {}" using doc_id_max [OF m'(2)] assms(2) by auto
    then have "t \<in> docs m'" using doc_id_in [OF m'(2)] e by blast
    then show "t \<in> docs m" using m'(3) by blast
  next
    assume "t \<in> docs m"
    then have "t \<in> docs m'" using m'(3) by blast
    then show "vt_doc_id v m' = t" using doc_id_le [OF m'(2)] m'(4) by (simp add: eq_iff)
  qed
  show ?case
  proof (cases "t \<in> docs m")
    case True
    then have "is_excluded v t (m # ms) = Some (Inr True, m' # ms)" using m'(1) hit by simp
    with True m'(2,3) m(2) show ?thesis by (intro exI [of _ "m' # ms"]) auto
  next
    case False
    then have "is_excluded v t (m # ms) = Some (Inr (t \<in> \<Union> (docs ` set ms)), m' # ms')"
      using m'(1) hit ms'(1) by simp
    with False m'(2,3) ms'(2,3) show ?thesis by (intro exI [of _ "m' # ms'"]) auto
  qed
qed simp

lemma advance_to_next_valid_docs:
  assumes "inv (cn_positive s)" "\<forall>m \<in> set (cn_negatives s). inv m" "\<not> cn_exhausted s"
  shows "\<exists>s'. advance_to_next_valid v s = Some (Inr (cn_docs docs s' \<noteq> {}), s') \<and> cn_inv v inv docs s' \<and>
    cn_docs docs s' = docs (cn_positive s) - \<Union> (docs ` set (cn_negatives s))"
  using assms
proof (induction "card (docs (cn_positive s))" arbitrary: s rule: less_induct)
  case less
  let ?p = "cn_positive s" and ?ns = "cn_negatives s"
  show ?case
  proof (cases "docs ?p = {}")
    case True
    then have "advance_to_next_valid v s = Some (Inr False, cn_end s)"
      using exhausted_law [OF less.prems(1)] by (subst advance_to_next_valid.simps) simp
    with True show ?thesis by simp
  next
    case False
    let ?t = "vt_doc_id v ?p"
    have t: "?t \<in> docs ?p" "?t < u64_max" "\<And>d. d \<in> docs ?p \<Longrightarrow> ?t \<le> d" "\<not> vt_is_exhausted v ?p"
      using doc_id_in [OF less.prems(1) False] docs_bound [OF less.prems(1)] doc_id_le [OF less.prems(1)]
        exhausted_law [OF less.prems(1)] False by auto
    obtain ns where ns: "is_excluded v ?t ?ns = Some (Inr (?t \<in> \<Union> (docs ` set ?ns)), ns)"
      "\<forall>m \<in> set ns. inv m" "{d \<in> \<Union> (docs ` set ns). ?t \<le> d} = {d \<in> \<Union> (docs ` set ?ns). ?t \<le> d}"
      using is_excluded_docs [OF less.prems(2) t(2)] by blast
    have same: "docs ?p - \<Union> (docs ` set ns) = docs ?p - \<Union> (docs ` set ?ns)"
      using ns(3) t(3) by blast
    show ?thesis
    proof (cases "?t \<in> \<Union> (docs ` set ?ns)")
      case out: False
      let ?s = "s\<lparr>cn_negatives := ns, cn_current_doc := ?t\<rparr>"
      have "advance_to_next_valid v s = Some (Inr True, ?s)"
        using t ns(1) out by (subst advance_to_next_valid.simps) simp
      moreover have "?t \<notin> \<Union> (docs ` set ns)" using same t(1) out by blast
      moreover have "cn_docs docs ?s = docs ?p - \<Union> (docs ` set ?ns)"
        using same less.prems(3) by (simp add: cn_docs_def)
      moreover have "cn_docs docs ?s \<noteq> {}" using calculation(3) t(1) out by blast
      moreover have "cn_inv v inv docs ?s"
        using less.prems False ns(2) calculation(2) by (simp add: cn_inv_def)
      ultimately show ?thesis by auto
    next
      case excluded: True
      obtain p where p: "vt_next v ?p = Some (Inr (docs p \<noteq> {}), p)" "inv p" "docs p = docs ?p - {?t}"
        using next_law [OF less.prems(1)] by auto
      have rest: "docs p - \<Union> (docs ` set ns) = docs ?p - \<Union> (docs ` set ?ns)"
        using same p(3) excluded by blast
      let ?s = "s\<lparr>cn_negatives := ns, cn_positive := p\<rparr>"
      have run: "advance_to_next_valid v s =
          (if docs p = {} then Some (Inr False, cn_end ?s) else advance_to_next_valid v ?s)"
        using t ns(1) excluded p(1) by (subst advance_to_next_valid.simps) simp
      show ?thesis
      proof (cases "docs p = {}")
        case True
        then have "docs ?p - \<Union> (docs ` set ?ns) = {}" using rest by blast
        with True run show ?thesis by simp
      next
        case more: False
        have "card (docs p) < card (docs ?p)"
          unfolding p(3) using t(1) docs_bound [OF less.prems(1)] by (intro card_Diff1_less) auto
        then show ?thesis
          using less.hyps [of ?s] p(2) ns(2) less.prems(3) rest run more by simp
      qed
    qed
  qed
qed

lemma lead_and_advance_docs:
  assumes "cn_inv v inv docs s" "\<not> cn_exhausted s"
    and "move (cn_positive s) = Some (Inr (docs p \<noteq> {}), p)" "inv p"
  shows "\<exists>s'. lead_and_advance v move s = Some (Inr (cn_docs docs s' \<noteq> {}), s') \<and> cn_inv v inv docs s' \<and>
    cn_docs docs s' = docs p - \<Union> (docs ` set (cn_negatives s))"
proof (cases "docs p = {}")
  case True
  with assms(3) show ?thesis by (simp add: lead_and_advance_def)
next
  case False
  let ?s = "s\<lparr>cn_positive := p\<rparr>"
  have "lead_and_advance v move s = advance_to_next_valid v ?s"
    using assms(3) False by (simp add: lead_and_advance_def)
  moreover have "\<forall>m \<in> set (cn_negatives ?s). inv m" using assms(1,2) by (simp add: cn_inv_def)
  ultimately show ?thesis using advance_to_next_valid_docs [of ?s] assms(2,4) by simp
qed

lemma conjunction_not_matcher: "matcher (conjunction_not_vt v) (cn_inv v inv docs) (cn_docs docs)"
proof
  fix s t
  assume s: "cn_inv v inv docs s"
  let ?p = "cn_positive s" and ?N = "\<Union> (docs ` set (cn_negatives s))"
  have parts: "inv ?p" "cn_current_doc s = vt_doc_id v ?p" "cn_current_doc s \<in> cn_docs docs s"
    "cn_docs docs s = docs ?p - ?N" if "\<not> cn_exhausted s"
    using s that doc_id_in [of ?p] by (auto simp: cn_inv_def cn_docs_def)
  have least: "\<not> cn_exhausted s \<and> cn_current_doc s \<le> d" if d: "d \<in> cn_docs docs s" for d
  proof -
    have ex: "\<not> cn_exhausted s" using d by (auto simp: cn_docs_def)
    then show ?thesis using d parts doc_id_le [of ?p d] by auto
  qed
  show bound: "finite (cn_docs docs s) \<and> cn_docs docs s \<subseteq> {..<u64_max}"
    using parts(1) docs_bound [of ?p] by (cases "cn_exhausted s") (auto simp: cn_docs_def)
  have empty: "cn_docs docs s = {} \<longleftrightarrow> cn_exhausted s" using parts(3) by (auto simp: cn_docs_def)
  then show "vt_is_exhausted (conjunction_not_vt v) s \<longleftrightarrow> cn_docs docs s = {}"
    by (simp add: conjunction_not_vt_def)
  show "vt_doc_id (conjunction_not_vt v) s = (if cn_docs docs s = {} then u64_max else Min (cn_docs docs s))"
  proof (cases "cn_exhausted s")
    case False
    then have "Min (cn_docs docs s) = cn_current_doc s"
      using parts(3) least bound by (intro Min_eqI) auto
    with False empty show ?thesis by (simp add: conjunction_not_vt_def cn_doc_id_def)
  qed (use empty in \<open>simp add: conjunction_not_vt_def cn_doc_id_def\<close>)
  show "\<exists>s'. vt_next (conjunction_not_vt v) s = Some (Inr (cn_docs docs s' \<noteq> {}), s') \<and> cn_inv v inv docs s' \<and>
      cn_docs docs s' = cn_docs docs s - {vt_doc_id (conjunction_not_vt v) s}"
  proof (cases "cn_exhausted s")
    case True
    with s show ?thesis by (simp add: conjunction_not_vt_def cn_next_def cn_docs_def)
  next
    case False
    obtain p where p: "vt_next v ?p = Some (Inr (docs p \<noteq> {}), p)" "inv p"
      "docs p = docs ?p - {cn_current_doc s}" using next_law [OF parts(1) [OF False]] parts(2) [OF False] by auto
    have "docs p - ?N = cn_docs docs s - {cn_current_doc s}" using parts(4) [OF False] p(3) by blast
    then show ?thesis
      using lead_and_advance_docs [of s "vt_next v" p, OF s False p(1,2)] False
      by (simp add: conjunction_not_vt_def cn_next_def cn_doc_id_def)
  qed
  show "\<exists>s'. vt_skip_to (conjunction_not_vt v) t s = Some (Inr (cn_docs docs s' \<noteq> {}), s') \<and> cn_inv v inv docs s' \<and>
      cn_docs docs s' = {d \<in> cn_docs docs s. t \<le> d}"
  proof (cases "cn_exhausted s \<or> t \<le> cn_current_doc s")
    case True
    have "{d \<in> cn_docs docs s. t \<le> d} = cn_docs docs s" using True least order_trans by blast
    then show ?thesis using True s empty by (auto simp: conjunction_not_vt_def cn_skip_to_def)
  next
    case False
    then have ex: "\<not> cn_exhausted s" by simp
    obtain p where p: "vt_skip_to v t ?p = Some (Inr (docs p \<noteq> {}), p)" "inv p"
      "docs p = {d \<in> docs ?p. t \<le> d}" using skip_to_law [OF parts(1) [OF ex], of t] by auto
    have "docs p - ?N = {d \<in> cn_docs docs s. t \<le> d}" using parts(4) [OF ex] p(3) by blast
    then show ?thesis
      using lead_and_advance_docs [of s "vt_skip_to v t" p, OF s ex p(1,2)] False
      by (simp add: conjunction_not_vt_def cn_skip_to_def)
  qed
qed

lemma conjunction_not_new_docs:
  assumes "inv p" "\<forall>m \<in> set ns. inv m"
  shows "\<exists>s. conjunction_not_new v p ns = Some s \<and> cn_inv v inv docs s \<and>
    cn_docs docs s = docs p - \<Union> (docs ` set ns)"
proof -
  let ?s = "\<lparr>cn_positive = p, cn_negatives = ns, cn_current_doc = 0, cn_exhausted = False\<rparr>"
  obtain s' where s': "advance_to_next_valid v ?s = Some (Inr (cn_docs docs s' \<noteq> {}), s')" "cn_inv v inv docs s'"
    "cn_docs docs s' = docs p - \<Union> (docs ` set ns)"
    using advance_to_next_valid_docs [of ?s] assms by auto
  then have "conjunction_not_new v p ns = Some (if cn_docs docs s' \<noteq> {} then s' else cn_end s')"
    by (simp add: conjunction_not_new_def)
  with s' show ?thesis by (cases "cn_docs docs s' = {}") simp_all
qed

end

section \<open>Negation over a dense range\<close>

record 's not_matcher =
  nm_negative :: 's
  nm_max_doc :: nat
  nm_current_doc :: nat
  nm_exhausted :: bool

partial_function (option) nm_advance ::
    "'s vtable \<Rightarrow> 's not_matcher \<Rightarrow> (bool res \<times> 's not_matcher) option" where
  "nm_advance v s =
     (if nm_current_doc s < nm_max_doc s then
        if vt_doc_id v (nm_negative s) > nm_current_doc s \<or> vt_doc_id v (nm_negative s) = u64_max
        then Some (Inr True, s)
        else if vt_doc_id v (nm_negative s) = nm_current_doc s then
          if vt_doc_id v (nm_negative s) < nm_current_doc s + 1 \<and> \<not> vt_is_exhausted v (nm_negative s)
          then (case vt_skip_to v (nm_current_doc s + 1) (nm_negative s) of
                  None \<Rightarrow> None
                | Some (Inl e, n) \<Rightarrow>
                    Some (Inl e, s\<lparr>nm_current_doc := nm_current_doc s + 1, nm_negative := n\<rparr>)
                | Some (Inr b, n) \<Rightarrow>
                    nm_advance v (s\<lparr>nm_current_doc := nm_current_doc s + 1, nm_negative := n\<rparr>))
          else nm_advance v (s\<lparr>nm_current_doc := nm_current_doc s + 1\<rparr>)
        else (case vt_skip_to v (nm_current_doc s) (nm_negative s) of
                None \<Rightarrow> None
              | Some (Inl e, n) \<Rightarrow> Some (Inl e, s\<lparr>nm_negative := n\<rparr>)
              | Some (Inr b, n) \<Rightarrow> nm_advance v (s\<lparr>nm_negative := n\<rparr>))
      else Some (Inr False, s\<lparr>nm_current_doc := u64_max, nm_exhausted := True\<rparr>))"

definition not_matcher_new :: "'s vtable \<Rightarrow> 's \<Rightarrow> nat \<Rightarrow> 's not_matcher option" where
  "not_matcher_new v negative max_doc =
     (case nm_advance v \<lparr>nm_negative = negative, nm_max_doc = max_doc, nm_current_doc = 0,
             nm_exhausted = False\<rparr> of
        None \<Rightarrow> None
      | Some (r, s) \<Rightarrow> Some (if r = Inr True then s else s\<lparr>nm_exhausted := True\<rparr>))"

definition nm_doc_id :: "'s not_matcher \<Rightarrow> nat" where
  "nm_doc_id s = (if nm_exhausted s \<or> nm_current_doc s \<ge> nm_max_doc s then u64_max else nm_current_doc s)"

definition nm_next :: "'s vtable \<Rightarrow> 's not_matcher \<Rightarrow> (bool res \<times> 's not_matcher) option" where
  "nm_next v s =
     (if nm_exhausted s \<or> nm_current_doc s \<ge> nm_max_doc s then Some (Inr False, s)
      else nm_advance v (s\<lparr>nm_current_doc := nm_current_doc s + 1\<rparr>))"

definition nm_skip_to :: "'s vtable \<Rightarrow> nat \<Rightarrow> 's not_matcher \<Rightarrow> (bool res \<times> 's not_matcher) option" where
  "nm_skip_to v target s =
     (if nm_exhausted s \<or> target \<le> nm_current_doc s
      then Some (Inr (\<not> nm_exhausted s \<and> nm_current_doc s < nm_max_doc s), s)
      else if target \<ge> nm_max_doc s
      then Some (Inr False, s\<lparr>nm_current_doc := nm_max_doc s, nm_exhausted := True\<rparr>)
      else nm_advance v (s\<lparr>nm_current_doc := target\<rparr>))"

definition not_vt :: "'s vtable \<Rightarrow> 's not_matcher vtable" where
  "not_vt v = \<lparr>vt_doc_id = nm_doc_id, vt_next = nm_next v, vt_skip_to = nm_skip_to v,
     vt_is_exhausted = \<lambda>s. nm_exhausted s \<or> nm_current_doc s \<ge> nm_max_doc s\<rparr>"

definition nm_docs :: "('s \<Rightarrow> nat set) \<Rightarrow> 's not_matcher \<Rightarrow> nat set" where
  "nm_docs D s = (if nm_exhausted s then {} else {nm_current_doc s..<nm_max_doc s} - D (nm_negative s))"

definition nm_inv :: "('s \<Rightarrow> bool) \<Rightarrow> ('s \<Rightarrow> nat set) \<Rightarrow> 's not_matcher \<Rightarrow> bool" where
  "nm_inv I D s \<longleftrightarrow> nm_exhausted s \<or> I (nm_negative s) \<and> nm_max_doc s \<le> u64_max \<and>
     nm_current_doc s < nm_max_doc s \<and> nm_current_doc s \<notin> D (nm_negative s)"

context matcher
begin

lemma range_without: "c \<in> D \<Longrightarrow> {Suc c..<n} - {d \<in> D. Suc c \<le> d} = {c..<n} - D"
proof (intro set_eqI)
  fix x assume "c \<in> D"
  then show "x \<in> {Suc c..<n} - {d \<in> D. Suc c \<le> d} \<longleftrightarrow> x \<in> {c..<n} - D"
    by (cases "x = c") auto
qed

lemma nm_advance_docs:
  assumes "inv (nm_negative s)" "nm_max_doc s \<le> u64_max" "\<not> nm_exhausted s"
  shows "\<exists>s'. nm_advance v s = Some (Inr (nm_docs docs s' \<noteq> {}), s') \<and> nm_inv inv docs s' \<and>
    nm_docs docs s' = nm_docs docs s"
  using assms
proof (induction "2 * (nm_max_doc s - nm_current_doc s) +
      (if vt_doc_id v (nm_negative s) < nm_current_doc s then 1 else 0)" arbitrary: s rule: less_induct)
  case less
  let ?n = "nm_negative s" and ?c = "nm_current_doc s"
  note n = less.prems(1)
  show ?case
  proof (cases "?c < nm_max_doc s")
    case False
    then show ?thesis using less.prems(3) by (subst nm_advance.simps) (simp add: nm_docs_def nm_inv_def)
  next
    case c: True
    consider (ahead) "vt_doc_id v ?n > ?c \<or> vt_doc_id v ?n = u64_max" | (at) "vt_doc_id v ?n = ?c" "?c \<noteq> u64_max"
      | (behind) "vt_doc_id v ?n < ?c" "vt_doc_id v ?n \<noteq> u64_max" by linarith
    then show ?thesis
    proof cases
      case ahead
      then have "?c \<notin> docs ?n" using doc_id_le [OF n] doc_id_max [OF n] by fastforce
      then have "nm_docs docs s \<noteq> {}" "nm_inv inv docs s" using c less.prems by (auto simp: nm_docs_def nm_inv_def)
      moreover have "nm_advance v s = Some (Inr True, s)" using ahead c by (subst nm_advance.simps) simp
      ultimately show ?thesis by auto
    next
      case at
      then have live: "docs ?n \<noteq> {}" using doc_id_max [OF n] by auto
      obtain m where m: "vt_skip_to v (?c + 1) ?n = Some (Inr (docs m \<noteq> {}), m)" "inv m"
        "docs m = {d \<in> docs ?n. ?c + 1 \<le> d}" using skip_to_law [OF n, of "?c + 1"] by auto
      let ?s = "s\<lparr>nm_current_doc := ?c + 1, nm_negative := m\<rparr>"
      have run: "nm_advance v s = nm_advance v ?s"
        using at c m(1) live exhausted_law [OF n] by (subst nm_advance.simps) simp
      have "?c \<in> docs ?n" using doc_id_in [OF n live] at by simp
      then have same: "nm_docs docs ?s = nm_docs docs s"
        using m(3) less.prems(3) range_without [of ?c "docs ?n" "nm_max_doc s"] by (simp add: nm_docs_def)
      have "2 * (nm_max_doc ?s - nm_current_doc ?s) + (if vt_doc_id v (nm_negative ?s) < nm_current_doc ?s then 1 else 0) <
          2 * (nm_max_doc s - ?c) + (if vt_doc_id v ?n < ?c then 1 else 0)"
        using c by (auto split: if_split)
      from less.hyps [OF this] have "\<exists>s'. nm_advance v ?s = Some (Inr (nm_docs docs s' \<noteq> {}), s') \<and>
          nm_inv inv docs s' \<and> nm_docs docs s' = nm_docs docs ?s"
        using m(2) less.prems(2,3) by simp
      then show ?thesis unfolding run same .
    next
      case behind
      obtain m where m: "vt_skip_to v ?c ?n = Some (Inr (docs m \<noteq> {}), m)" "inv m"
        "docs m = {d \<in> docs ?n. ?c \<le> d}" using skip_to_law [OF n, of ?c] by auto
      let ?s = "s\<lparr>nm_negative := m\<rparr>"
      have run: "nm_advance v s = nm_advance v ?s" using behind c m(1) by (subst nm_advance.simps) simp
      have "{?c..<nm_max_doc s} - {d \<in> docs ?n. ?c \<le> d} = {?c..<nm_max_doc s} - docs ?n" by auto
      then have same: "nm_docs docs ?s = nm_docs docs s" using m(3) less.prems(3) by (simp add: nm_docs_def)
      have "?c \<le> vt_doc_id v m"
      proof (cases "docs m = {}")
        case True
        then show ?thesis using doc_id_max [OF m(2)] c less.prems(2) by simp
      next
        case False
        then show ?thesis using doc_id_in [OF m(2)] m(3) by simp
      qed
      then have "2 * (nm_max_doc ?s - nm_current_doc ?s) + (if vt_doc_id v (nm_negative ?s) < nm_current_doc ?s then 1 else 0) <
          2 * (nm_max_doc s - ?c) + (if vt_doc_id v ?n < ?c then 1 else 0)" using behind by simp
      from less.hyps [OF this] have "\<exists>s'. nm_advance v ?s = Some (Inr (nm_docs docs s' \<noteq> {}), s') \<and>
          nm_inv inv docs s' \<and> nm_docs docs s' = nm_docs docs ?s"
        using m(2) less.prems(2,3) by simp
      then show ?thesis unfolding run same .
    qed
  qed
qed

lemma not_matcher: "matcher (not_vt v) (nm_inv inv docs) (nm_docs docs)"
proof
  fix s t
  assume s: "nm_inv inv docs s"
  let ?c = "nm_current_doc s"
  have parts: "inv (nm_negative s)" "nm_max_doc s \<le> u64_max" "?c < nm_max_doc s" "?c \<in> nm_docs docs s"
    if "\<not> nm_exhausted s" using s that by (auto simp: nm_inv_def nm_docs_def)
  have least: "\<not> nm_exhausted s \<and> ?c \<le> d" if "d \<in> nm_docs docs s" for d
    using that by (auto simp: nm_docs_def split: if_splits)
  show bound: "finite (nm_docs docs s) \<and> nm_docs docs s \<subseteq> {..<u64_max}"
    using parts(2) by (auto simp: nm_docs_def)
  have empty: "nm_docs docs s = {} \<longleftrightarrow> nm_exhausted s" using parts(4) by (auto simp: nm_docs_def)
  show "vt_is_exhausted (not_vt v) s \<longleftrightarrow> nm_docs docs s = {}"
    using empty parts(3) by (auto simp: not_vt_def)
  show "vt_doc_id (not_vt v) s = (if nm_docs docs s = {} then u64_max else Min (nm_docs docs s))"
  proof (cases "nm_exhausted s")
    case False
    then have "Min (nm_docs docs s) = ?c" using parts(4) least bound by (intro Min_eqI) auto
    with False empty parts(3) show ?thesis by (simp add: not_vt_def nm_doc_id_def)
  qed (use empty in \<open>simp add: not_vt_def nm_doc_id_def\<close>)
  show "\<exists>s'. vt_next (not_vt v) s = Some (Inr (nm_docs docs s' \<noteq> {}), s') \<and> nm_inv inv docs s' \<and>
      nm_docs docs s' = nm_docs docs s - {vt_doc_id (not_vt v) s}"
  proof (cases "nm_exhausted s")
    case True
    with s show ?thesis by (simp add: not_vt_def nm_next_def nm_docs_def)
  next
    case False
    let ?s = "s\<lparr>nm_current_doc := ?c + 1\<rparr>"
    have "nm_docs docs ?s = nm_docs docs s - {?c}" using False by (auto simp: nm_docs_def)
    then show ?thesis
      using nm_advance_docs [of ?s] parts [OF False] False by (simp add: not_vt_def nm_next_def nm_doc_id_def)
  qed
  show "\<exists>s'. vt_skip_to (not_vt v) t s = Some (Inr (nm_docs docs s' \<noteq> {}), s') \<and> nm_inv inv docs s' \<and>
      nm_docs docs s' = {d \<in> nm_docs docs s. t \<le> d}"
  proof -
    consider (stay) "nm_exhausted s \<or> t \<le> ?c" | (past) "\<not> nm_exhausted s" "t > ?c" "t \<ge> nm_max_doc s"
      | (move) "\<not> nm_exhausted s" "t > ?c" "t < nm_max_doc s" by linarith
    then show ?thesis
    proof cases
      case stay
      then have "{d \<in> nm_docs docs s. t \<le> d} = nm_docs docs s" using least order_trans by blast
      with stay s empty parts(3) show ?thesis by (auto simp: not_vt_def nm_skip_to_def)
    next
      case past
      then have "{d \<in> nm_docs docs s. t \<le> d} = {}" by (auto simp: nm_docs_def)
      with past show ?thesis by (simp add: not_vt_def nm_skip_to_def nm_docs_def nm_inv_def)
    next
      case move
      let ?s = "s\<lparr>nm_current_doc := t\<rparr>"
      have "nm_docs docs ?s = {d \<in> nm_docs docs s. t \<le> d}" using move by (auto simp: nm_docs_def)
      then show ?thesis
        using nm_advance_docs [of ?s] parts [OF move(1)] move by (simp add: not_vt_def nm_skip_to_def)
    qed
  qed
qed

lemma not_matcher_new_docs:
  assumes "inv n" "max_doc \<le> u64_max"
  shows "\<exists>s. not_matcher_new v n max_doc = Some s \<and> nm_inv inv docs s \<and> nm_docs docs s = {..<max_doc} - docs n"
proof -
  let ?s = "\<lparr>nm_negative = n, nm_max_doc = max_doc, nm_current_doc = 0, nm_exhausted = False\<rparr>"
  obtain s' where s': "nm_advance v ?s = Some (Inr (nm_docs docs s' \<noteq> {}), s')" "nm_inv inv docs s'"
    "nm_docs docs s' = nm_docs docs ?s" using nm_advance_docs [of ?s] assms by auto
  moreover have "nm_docs docs ?s = {..<max_doc} - docs n" by (auto simp: nm_docs_def)
  ultimately show ?thesis
    by (cases "nm_docs docs s' = {}") (auto simp: not_matcher_new_def nm_inv_def nm_docs_def)
qed

end

end
