(* ===== verification/Boolean_Query.thy ===== *)
theory Boolean_Query
  imports Boolean_Matchers
begin

text \<open>
  Boolean queries: the matcher a query builds from those of its clauses,
  \<^verbatim>\<open>laurus/src/lexical/query/boolean.rs\<close>, and the evaluation that runs the clauses in parallel and
  combines their hits as bitmaps, \<open>search_boolean_query_parallel\<close> of
  \<^verbatim>\<open>laurus/src/lexical/index/inverted/searcher.rs\<close>. Both are compared with the set of documents a
  boolean query stands for.
\<close>

section \<open>Boxed matchers\<close>

text \<open>A \<open>Box<dyn Matcher>\<close> that is one of two kinds passes each call on to the matcher it holds.\<close>

definition boxed :: "('s \<Rightarrow> 'b) \<Rightarrow> (bool res \<times> 's) option \<Rightarrow> (bool res \<times> 'b) option" where
  "boxed c = map_option (map_prod id c)"

definition boxed_vt :: "'a vtable \<Rightarrow> 'b vtable \<Rightarrow> ('a + 'b) vtable" where
  "boxed_vt v w = \<lparr>vt_doc_id = case_sum (vt_doc_id v) (vt_doc_id w),
     vt_next = case_sum (\<lambda>s. boxed Inl (vt_next v s)) (\<lambda>s. boxed Inr (vt_next w s)),
     vt_skip_to = \<lambda>t. case_sum (\<lambda>s. boxed Inl (vt_skip_to v t s)) (\<lambda>s. boxed Inr (vt_skip_to w t s)),
     vt_is_exhausted = case_sum (vt_is_exhausted v) (vt_is_exhausted w)\<rparr>"

lemma boxed_Some [simp]: "boxed c (Some (r, s)) = Some (r, c s)"
  by (simp add: boxed_def)

lemma boxed_matcher:
  assumes "matcher v I D" "matcher w J E"
  shows "matcher (boxed_vt v w) (case_sum I J) (case_sum D E)"
proof
  fix s t
  assume s: "case_sum I J s"
  show "finite (case_sum D E s) \<and> case_sum D E s \<subseteq> {..<u64_max}"
    using s matcher.docs_bound [OF assms(1)] matcher.docs_bound [OF assms(2)] by (cases s) auto
  show "vt_doc_id (boxed_vt v w) s = (if case_sum D E s = {} then u64_max else Min (case_sum D E s))"
    using s matcher.doc_id_law [OF assms(1)] matcher.doc_id_law [OF assms(2)]
    by (cases s) (simp_all add: boxed_vt_def)
  show "vt_is_exhausted (boxed_vt v w) s \<longleftrightarrow> case_sum D E s = {}"
    using s matcher.exhausted_law [OF assms(1)] matcher.exhausted_law [OF assms(2)]
    by (cases s) (simp_all add: boxed_vt_def)
  show "\<exists>s'. vt_next (boxed_vt v w) s = Some (Inr (case_sum D E s' \<noteq> {}), s') \<and> case_sum I J s' \<and>
      case_sum D E s' = case_sum D E s - {vt_doc_id (boxed_vt v w) s}"
  proof (cases s)
    case (Inl a)
    then obtain a' where "vt_next v a = Some (Inr (D a' \<noteq> {}), a')" "I a'" "D a' = D a - {vt_doc_id v a}"
      using s matcher.next_law [OF assms(1), of a] by auto
    with Inl show ?thesis by (intro exI [of _ "Inl a'"]) (simp add: boxed_vt_def)
  next
    case (Inr b)
    then obtain b' where "vt_next w b = Some (Inr (E b' \<noteq> {}), b')" "J b'" "E b' = E b - {vt_doc_id w b}"
      using s matcher.next_law [OF assms(2), of b] by auto
    with Inr show ?thesis by (intro exI [of _ "Inr b'"]) (simp add: boxed_vt_def)
  qed
  show "\<exists>s'. vt_skip_to (boxed_vt v w) t s = Some (Inr (case_sum D E s' \<noteq> {}), s') \<and> case_sum I J s' \<and>
      case_sum D E s' = {d \<in> case_sum D E s. t \<le> d}"
  proof (cases s)
    case (Inl a)
    then obtain a' where "vt_skip_to v t a = Some (Inr (D a' \<noteq> {}), a')" "I a'" "D a' = {d \<in> D a. t \<le> d}"
      using s matcher.skip_to_law [OF assms(1), of a t] by auto
    with Inl show ?thesis by (intro exI [of _ "Inl a'"]) (simp add: boxed_vt_def)
  next
    case (Inr b)
    then obtain b' where "vt_skip_to w t b = Some (Inr (E b' \<noteq> {}), b')" "J b'" "E b' = {d \<in> E b. t \<le> d}"
      using s matcher.skip_to_law [OF assms(2), of b t] by auto
    with Inr show ?thesis by (intro exI [of _ "Inr b'"]) (simp add: boxed_vt_def)
  qed
qed

section \<open>Queries\<close>

datatype occur = Must | Should | MustNot | Filter

record 'q boolean_clause =
  cl_query :: 'q
  cl_occur :: occur

record 'q boolean_query =
  bq_clauses :: "'q boolean_clause list"
  minimum_should_match :: nat

definition clauses_by_occur :: "occur \<Rightarrow> 'q boolean_query \<Rightarrow> 'q boolean_clause list" where
  "clauses_by_occur occur q = filter (\<lambda>c. cl_occur c = occur) (bq_clauses q)"

text \<open>
  What a boolean query asks of its clauses and of the reader: the matcher of a clause, whether the
  clause has a cache key, its document ids when the reader has a filter cache, whether it is empty,
  how it is rewritten, and the live documents.
\<close>

record ('q, 's) search_ops =
  op_matcher :: "'q \<Rightarrow> 's res"
  op_cache_key :: "'q \<Rightarrow> bytes option"
  op_cached_filter_doc_ids :: "'q \<Rightarrow> nat list option res"
  op_is_empty :: "'q \<Rightarrow> bool res"
  op_rewrite :: "'q \<Rightarrow> 'q option res"
  op_live_doc_ids :: "nat list res"
  op_doc_count :: nat

text \<open>The kinds of matcher that occur in a boolean query, from the inside out.\<close>

type_synonym 's clause_m = "'s + precomputed_matcher"
type_synonym 's simple_m =
  "'s clause_m + ('s clause_m conjunction_matcher + ('s clause_m disjunction_matcher + unit))"
type_synonym 's positive_m = "'s simple_m + 's simple_m conjunction_matcher"
type_synonym 's boolean_m = "'s positive_m + 's positive_m conjunction_not_matcher"

definition clause_vt :: "'s vtable \<Rightarrow> 's clause_m vtable" where
  "clause_vt v = boxed_vt v precomputed_vt"

definition simple_vt :: "'s vtable \<Rightarrow> 's simple_m vtable" where
  "simple_vt v = boxed_vt (clause_vt v) (boxed_vt (conjunction_vt (clause_vt v))
     (boxed_vt (disjunction_vt (clause_vt v)) empty_vt))"

definition positive_vt :: "'s vtable \<Rightarrow> 's positive_m vtable" where
  "positive_vt v = boxed_vt (simple_vt v) (conjunction_vt (simple_vt v))"

definition boolean_vt :: "'s vtable \<Rightarrow> 's boolean_m vtable" where
  "boolean_vt v = boxed_vt (positive_vt v) (conjunction_not_vt (positive_vt v))"

definition one_of :: "'s clause_m \<Rightarrow> 's simple_m" where "one_of m = Inl m"

definition all_of :: "'s clause_m conjunction_matcher \<Rightarrow> 's simple_m" where "all_of m = Inr (Inl m)"

definition any_of :: "'s clause_m disjunction_matcher \<Rightarrow> 's simple_m" where "any_of m = Inr (Inr (Inl m))"

definition nothing :: "'s boolean_m" where "nothing = Inl (Inl (Inr (Inr (Inr ()))))"

section \<open>The matcher of a query\<close>

text \<open>A step that may fail or not return, and what follows it.\<close>

definition and_then :: "'a res option \<Rightarrow> ('a \<Rightarrow> 'b res option) \<Rightarrow> 'b res option" where
  "and_then m f = (case m of None \<Rightarrow> None | Some (Inl e) \<Rightarrow> Some (Inl e) | Some (Inr x) \<Rightarrow> f x)"

definition clause_matcher :: "('q, 's) search_ops \<Rightarrow> 'q boolean_clause \<Rightarrow> 's clause_m res" where
  "clause_matcher ops c =
     (if cl_occur c = Filter \<and> op_cache_key ops (cl_query c) \<noteq> None then
        case op_cached_filter_doc_ids ops (cl_query c) of
          Inl e \<Rightarrow> Inl e
        | Inr (Some ids) \<Rightarrow> Inr (Inr (precomputed_new ids))
        | Inr None \<Rightarrow> map_sum id Inl (op_matcher ops (cl_query c))
      else map_sum id Inl (op_matcher ops (cl_query c)))"

text \<open>The matchers of the required clauses, or \<open>None\<close> as soon as one of them has no document.\<close>

fun required_matchers ::
    "'s vtable \<Rightarrow> ('q, 's) search_ops \<Rightarrow> 'q boolean_clause list \<Rightarrow> 's clause_m list option res" where
  "required_matchers v ops [] = Inr (Some [])"
| "required_matchers v ops (c # cs) =
     (case clause_matcher ops c of
        Inl e \<Rightarrow> Inl e
      | Inr m \<Rightarrow>
          if vt_is_exhausted (clause_vt v) m then Inr None
          else map_sum id (map_option ((#) m)) (required_matchers v ops cs))"

text \<open>The matchers of optional or excluded clauses, without those that have no document.\<close>

fun live_matchers ::
    "'s vtable \<Rightarrow> ('q, 's) search_ops \<Rightarrow> 'q boolean_clause list \<Rightarrow> 's list res" where
  "live_matchers v ops [] = Inr []"
| "live_matchers v ops (c # cs) =
     (case op_matcher ops (cl_query c) of
        Inl e \<Rightarrow> Inl e
      | Inr m \<Rightarrow> map_sum id (\<lambda>ms. if vt_is_exhausted v m then ms else m # ms) (live_matchers v ops cs))"

definition required_positive ::
    "'s vtable \<Rightarrow> ('q, 's) search_ops \<Rightarrow> 'q boolean_clause list \<Rightarrow> 's simple_m option res option" where
  "required_positive v ops required =
     (if required \<noteq> [] then
        if length required = 1 then Some (map_sum id (\<lambda>m. Some (one_of m)) (clause_matcher ops (hd required)))
        else and_then (Some (required_matchers v ops required)) (\<lambda>r.
               case r of
                 None \<Rightarrow> Some (Inr None)
               | Some ms \<Rightarrow> map_option (\<lambda>m. Inr (Some (all_of m))) (conjunction_new (clause_vt v) ms))
      else Some (map_sum id (\<lambda>ids. Some (one_of (Inr (precomputed_new ids)))) (op_live_doc_ids ops)))"

definition should_matcher :: "'s vtable \<Rightarrow> 's list \<Rightarrow> 's simple_m" where
  "should_matcher v ms =
     (if length ms = 1 then one_of (Inl (hd ms)) else any_of (disjunction_new (clause_vt v) (map Inl ms)))"

definition with_should ::
    "'s vtable \<Rightarrow> ('q, 's) search_ops \<Rightarrow> nat \<Rightarrow> 'q boolean_clause list \<Rightarrow> 'q boolean_clause list \<Rightarrow>
     's simple_m \<Rightarrow> 's positive_m option res option" where
  "with_should v ops minimum required should positive =
     (if minimum > 0 \<and> should \<noteq> [] then
        and_then (Some (live_matchers v ops should)) (\<lambda>ms.
          if ms \<noteq> [] then
            map_option (\<lambda>m. Inr (Some (Inr m))) (conjunction_new (simple_vt v) [positive, should_matcher v ms])
          else if required \<noteq> [] then Some (Inr None)
          else Some (Inr (Some (Inl positive))))
      else Some (Inr (Some (Inl positive))))"

definition with_must_not ::
    "'s vtable \<Rightarrow> ('q, 's) search_ops \<Rightarrow> 'q boolean_clause list \<Rightarrow> 's positive_m \<Rightarrow> 's boolean_m res option" where
  "with_must_not v ops must_not positive =
     (if must_not \<noteq> [] then
        and_then (Some (live_matchers v ops must_not)) (\<lambda>ns.
          if ns \<noteq> [] then
            map_option (\<lambda>m. Inr (Inr m))
              (conjunction_not_new (positive_vt v) positive (map (\<lambda>n. Inl (one_of (Inl n))) ns))
          else Some (Inr (Inl positive)))
      else Some (Inr (Inl positive)))"

definition boolean_matcher ::
    "'s vtable \<Rightarrow> ('q, 's) search_ops \<Rightarrow> 'q boolean_query \<Rightarrow> 's boolean_m res option" where
  "boolean_matcher v ops q =
     (if bq_clauses q = [] then Some (Inr nothing)
      else
        let required = clauses_by_occur Must q @ clauses_by_occur Filter q;
            should = clauses_by_occur Should q; must_not = clauses_by_occur MustNot q
        in if required \<noteq> [] \<or> (must_not \<noteq> [] \<and> should = []) then
             and_then (required_positive v ops required) (\<lambda>r.
               case r of
                 None \<Rightarrow> Some (Inr nothing)
               | Some positive \<Rightarrow>
                   and_then (with_should v ops (minimum_should_match q) required should positive) (\<lambda>r.
                     case r of
                       None \<Rightarrow> Some (Inr nothing)
                     | Some positive \<Rightarrow> with_must_not v ops must_not positive))
           else if should \<noteq> [] then
             and_then (Some (live_matchers v ops should)) (\<lambda>ms.
               if ms = [] then Some (Inr nothing)
               else with_must_not v ops must_not (Inl (should_matcher v ms)))
           else Some (Inr nothing))"

section \<open>What a query asks its source for\<close>

lemma required_matchers_cong:
  "\<forall>c \<in> set cs. clause_matcher ops c = clause_matcher ops' c \<Longrightarrow> required_matchers v ops cs = required_matchers v ops' cs"
  by (induction cs) (auto split: sum.split)

lemma live_matchers_cong:
  "\<forall>c \<in> set cs. op_matcher ops (cl_query c) = op_matcher ops' (cl_query c) \<Longrightarrow> live_matchers v ops cs = live_matchers v ops' cs"
  by (induction cs) (auto split: sum.split)

text \<open>A query asks the matcher of its clauses, that of Filter clauses through the cache, and the live documents.\<close>

lemma boolean_matcher_cong:
  assumes "\<forall>c \<in> set (bq_clauses q). clause_matcher ops c = clause_matcher ops' c \<and>
      (cl_occur c \<noteq> Filter \<longrightarrow> op_matcher ops (cl_query c) = op_matcher ops' (cl_query c))"
    and live: "op_live_doc_ids ops = op_live_doc_ids ops'"
  shows "boolean_matcher v ops q = boolean_matcher v ops' q"
proof -
  let ?r = "clauses_by_occur Must q @ clauses_by_occur Filter q"
  have "\<forall>c \<in> set ?r. clause_matcher ops c = clause_matcher ops' c" using assms(1) by (auto simp: clauses_by_occur_def)
  then have "required_matchers v ops ?r = required_matchers v ops' ?r" "?r \<noteq> [] \<Longrightarrow> clause_matcher ops (hd ?r) = clause_matcher ops' (hd ?r)"
    by (auto intro: required_matchers_cong simp del: set_append)
  then have r: "required_positive v ops ?r = required_positive v ops' ?r" by (simp add: required_positive_def live)
  have "live_matchers v ops (clauses_by_occur occ q) = live_matchers v ops' (clauses_by_occur occ q)" if "occ \<noteq> Filter" for occ
    using assms(1) that by (intro live_matchers_cong) (auto simp: clauses_by_occur_def)
  then have s: "live_matchers v ops (clauses_by_occur Should q) = live_matchers v ops' (clauses_by_occur Should q)"
    and n: "live_matchers v ops (clauses_by_occur MustNot q) = live_matchers v ops' (clauses_by_occur MustNot q)" by simp_all
  show ?thesis unfolding boolean_matcher_def Let_def r with_should_def with_must_not_def s n ..
qed

section \<open>What a query stands for\<close>

text \<open>
  The documents a boolean query is searched for, as its matcher counts: a positive minimum of optional
  matches asks for one of them, whatever its value, and for none when there is no optional clause.
\<close>

definition boolean_docs :: "('q \<Rightarrow> nat set) \<Rightarrow> nat set \<Rightarrow> 'q boolean_query \<Rightarrow> nat set" where
  "boolean_docs M live q =
     (let required = clauses_by_occur Must q @ clauses_by_occur Filter q;
          should = clauses_by_occur Should q; must_not = clauses_by_occur MustNot q;
          D = \<lambda>cs. (\<lambda>c. M (cl_query c)) ` set cs
      in (if required \<noteq> [] then
            \<Inter> (D required) \<inter> (if minimum_should_match q > 0 \<and> should \<noteq> [] then \<Union> (D should) else UNIV)
          else if should \<noteq> [] then \<Union> (D should)
          else if must_not \<noteq> [] then live
          else {}) - \<Union> (D must_not))"

text \<open>
  The documents a boolean query stands for, as its fields are documented: all required clauses match,
  no excluding one does, and at least \<open>minimum_should_match\<close> of the optional ones do, of which one has
  to when nothing is required. The two agree for a minimum of at most one, of none where there is no
  optional clause; for a larger one the matcher asks for less than is documented.
\<close>

definition documented_docs :: "('q \<Rightarrow> nat set) \<Rightarrow> nat set \<Rightarrow> 'q boolean_query \<Rightarrow> nat set" where
  "documented_docs M live q =
     (let required = clauses_by_occur Must q @ clauses_by_occur Filter q;
          should = clauses_by_occur Should q; must_not = clauses_by_occur MustNot q;
          matches = \<lambda>d c. d \<in> M (cl_query c)
      in {d. (\<forall>c \<in> set required. matches d c) \<and> (\<forall>c \<in> set must_not. \<not> matches d c) \<and>
             minimum_should_match q \<le> length (filter (matches d) should) \<and>
             (required = [] \<longrightarrow>
                (if should \<noteq> [] then 0 < length (filter (matches d) should) else must_not \<noteq> [] \<and> d \<in> live))})"

definition minimum_plain :: "'q boolean_query \<Rightarrow> bool" where
  "minimum_plain q \<longleftrightarrow> minimum_should_match q \<le> (if clauses_by_occur Should q = [] then 0 else 1)"

lemma count_matches: "0 < length (filter P xs) \<longleftrightarrow> (\<exists>x \<in> set xs. P x)"
  by (auto simp: filter_empty_conv)

lemma boolean_docs_documented:
  assumes "minimum_plain q"
  shows "boolean_docs M live q = documented_docs M live q"
proof -
  consider "minimum_should_match q = 0" | "minimum_should_match q = 1" "clauses_by_occur Should q \<noteq> []"
    using assms by (cases "minimum_should_match q") (auto simp: minimum_plain_def split: if_splits)
  then show ?thesis
  proof cases
    case 1
    then show ?thesis
      unfolding boolean_docs_def documented_docs_def Let_def count_matches by auto
  next
    case 2
    then have one: "minimum_should_match q \<le> n \<longleftrightarrow> 0 < n" for n by auto
    show ?thesis
      unfolding boolean_docs_def documented_docs_def Let_def one count_matches using 2 by auto
  qed
qed

lemma documented_unreachable:
  "0 < minimum_should_match q \<Longrightarrow> clauses_by_occur Should q = [] \<Longrightarrow> documented_docs M live q = {}"
  by (simp add: documented_docs_def)

section \<open>The matcher of a query matches what the query stands for\<close>

text \<open>
  What a query relies on: a clause gives a matcher of its documents, the filter cache holds the same
  documents, and the reader knows those that are live.
\<close>

locale clause_source = matcher v inv docs
  for v :: "'s vtable" and inv :: "'s \<Rightarrow> bool" and docs :: "'s \<Rightarrow> nat set" +
  fixes ops :: "('q, 's) search_ops" and M :: "'q \<Rightarrow> nat set" and live :: "nat set"
  assumes matcher_of_clause: "op_matcher ops q = Inr m \<Longrightarrow> inv m \<and> docs m = M q"
    and cached_ids: "op_cached_filter_doc_ids ops q = Inr (Some ids) \<Longrightarrow> set ids = M q"
    and live_ids: "op_live_doc_ids ops = Inr ids \<Longrightarrow> set ids = live"
    and doc_id_bound: "M q \<subseteq> {..<u64_max}" "live \<subseteq> {..<u64_max}"

definition clause_inv :: "('s \<Rightarrow> bool) \<Rightarrow> 's clause_m \<Rightarrow> bool" where
  "clause_inv I = case_sum I pc_inv"

definition clause_docs :: "('s \<Rightarrow> nat set) \<Rightarrow> 's clause_m \<Rightarrow> nat set" where
  "clause_docs D = case_sum D pc_docs"

definition simple_inv :: "'s vtable \<Rightarrow> ('s \<Rightarrow> bool) \<Rightarrow> ('s \<Rightarrow> nat set) \<Rightarrow> 's simple_m \<Rightarrow> bool" where
  "simple_inv v I D = case_sum (clause_inv I)
     (case_sum (cj_inv (clause_vt v) (clause_inv I) (clause_docs D))
       (case_sum (dj_inv (clause_vt v) (clause_inv I) (clause_docs D)) (\<lambda>_. True)))"

definition simple_docs :: "('s \<Rightarrow> nat set) \<Rightarrow> 's simple_m \<Rightarrow> nat set" where
  "simple_docs D = case_sum (clause_docs D) (case_sum (cj_docs (clause_docs D))
     (case_sum (dj_docs (clause_docs D)) (\<lambda>_. {})))"

definition positive_inv :: "'s vtable \<Rightarrow> ('s \<Rightarrow> bool) \<Rightarrow> ('s \<Rightarrow> nat set) \<Rightarrow> 's positive_m \<Rightarrow> bool" where
  "positive_inv v I D =
     case_sum (simple_inv v I D) (cj_inv (simple_vt v) (simple_inv v I D) (simple_docs D))"

definition positive_docs :: "('s \<Rightarrow> nat set) \<Rightarrow> 's positive_m \<Rightarrow> nat set" where
  "positive_docs D = case_sum (simple_docs D) (cj_docs (simple_docs D))"

definition boolean_inv :: "'s vtable \<Rightarrow> ('s \<Rightarrow> bool) \<Rightarrow> ('s \<Rightarrow> nat set) \<Rightarrow> 's boolean_m \<Rightarrow> bool" where
  "boolean_inv v I D =
     case_sum (positive_inv v I D) (cn_inv (positive_vt v) (positive_inv v I D) (positive_docs D))"

definition boolean_m_docs :: "('s \<Rightarrow> nat set) \<Rightarrow> 's boolean_m \<Rightarrow> nat set" where
  "boolean_m_docs D = case_sum (positive_docs D) (cn_docs (positive_docs D))"

context matcher
begin

lemma clause_m: "matcher (clause_vt v) (clause_inv inv) (clause_docs docs)"
  unfolding clause_vt_def clause_inv_def clause_docs_def
  by (rule boxed_matcher [OF matcher_axioms precomputed.matcher_axioms])

lemma simple_m: "matcher (simple_vt v) (simple_inv v inv docs) (simple_docs docs)"
  unfolding simple_vt_def simple_inv_def simple_docs_def
  by (intro boxed_matcher clause_m matcher.conjunction_matcher matcher.disjunction_matcher empty.matcher_axioms)

lemma positive_m: "matcher (positive_vt v) (positive_inv v inv docs) (positive_docs docs)"
  unfolding positive_vt_def positive_inv_def positive_docs_def
  by (intro boxed_matcher simple_m matcher.conjunction_matcher)

lemma boolean_m: "matcher (boolean_vt v) (boolean_inv v inv docs) (boolean_m_docs docs)"
  unfolding boolean_vt_def boolean_inv_def boolean_m_docs_def
  by (intro boxed_matcher positive_m matcher.conjunction_not_matcher)

lemma should_matcher_docs:
  assumes "\<forall>m \<in> set ms. inv m"
  shows "simple_inv v inv docs (should_matcher v ms)" "simple_docs docs (should_matcher v ms) = \<Union> (docs ` set ms)"
proof -
  note new = matcher.disjunction_new_docs [OF clause_m, of "map Inl ms"]
  show "simple_inv v inv docs (should_matcher v ms)"
    using assms new(1)
    by (cases "length ms = 1") (auto simp: should_matcher_def one_of_def any_of_def simple_inv_def
        clause_inv_def length_Suc_conv)
  show "simple_docs docs (should_matcher v ms) = \<Union> (docs ` set ms)"
    using assms new(2)
    by (cases "length ms = 1") (auto simp: should_matcher_def one_of_def any_of_def simple_docs_def
        clause_docs_def clause_inv_def length_Suc_conv image_image)
qed

end

context clause_source
begin

text \<open>Every error a query returns is one of a clause or of the reader.\<close>

definition source_error :: "laurus_error \<Rightarrow> bool" where
  "source_error e \<longleftrightarrow> (\<exists>q. op_matcher ops q = Inl e \<or> op_cached_filter_doc_ids ops q = Inl e) \<or>
     op_live_doc_ids ops = Inl e"

definition yields :: "('a \<Rightarrow> bool) \<Rightarrow> 'a res option \<Rightarrow> bool" where
  "yields P r \<longleftrightarrow> (\<exists>x. r = Some x \<and> (case x of Inl e \<Rightarrow> source_error e | Inr y \<Rightarrow> P y))"

lemma yields_simps [simp]:
  "yields P (Some (Inr x)) \<longleftrightarrow> P x" "yields P (Some (Inl e)) \<longleftrightarrow> source_error e"
  "yields P (Some (map_sum id f r)) \<longleftrightarrow> yields (\<lambda>x. P (f x)) (Some r)"
  by (auto simp: yields_def split: sum.splits)

lemma yields_and_then:
  assumes "yields P m" "\<And>x. P x \<Longrightarrow> yields Q (f x)"
  shows "yields Q (and_then m f)"
proof -
  obtain r where r: "m = Some r" "yields P (Some r)" using assms(1) by (auto simp: yields_def)
  with assms(2) show ?thesis by (cases r) (simp_all add: and_then_def)
qed

lemma yields_mono: "yields P r \<Longrightarrow> (\<And>x. P x \<Longrightarrow> Q x) \<Longrightarrow> yields Q r"
  by (auto simp: yields_def split: sum.splits)

lemma yields_new: "\<exists>m. r = Some m \<and> P m \<Longrightarrow> (\<And>m. P m \<Longrightarrow> Q (f m)) \<Longrightarrow> yields Q (map_option (\<lambda>m. Inr (f m)) r)"
  by auto

definition clause_ok :: "nat set \<Rightarrow> 's clause_m \<Rightarrow> bool" where
  "clause_ok X m \<longleftrightarrow> clause_inv inv m \<and> clause_docs docs m = X"

lemma precomputed_ok: "X \<subseteq> {..<u64_max} \<Longrightarrow> set ids = X \<Longrightarrow> clause_ok X (Inr (precomputed_new ids))"
  using precomputed_new_inv [of ids] by (auto simp: clause_ok_def clause_inv_def clause_docs_def)

lemma op_matcher_yields: "yields (\<lambda>m. inv m \<and> docs m = M q) (Some (op_matcher ops q))"
  using matcher_of_clause [of q] by (auto simp: yields_def source_error_def split: sum.split)

lemma clause_matcher_yields: "yields (clause_ok (M (cl_query c))) (Some (clause_matcher ops c))"
proof -
  have walk: "yields (clause_ok (M (cl_query c))) (Some (map_sum id Inl (op_matcher ops (cl_query c))))"
    using op_matcher_yields [of "cl_query c"] by (simp add: clause_ok_def clause_inv_def clause_docs_def)
  show ?thesis
  proof (cases "cl_occur c = Filter \<and> op_cache_key ops (cl_query c) \<noteq> None")
    case True
    then show ?thesis
      using walk cached_ids [of "cl_query c"] precomputed_ok [OF doc_id_bound(1)]
      by (auto simp: clause_matcher_def source_error_def split: sum.split option.split)
  next
    case False
    with walk show ?thesis by (auto simp: clause_matcher_def)
  qed
qed

abbreviation matches :: "'q boolean_clause list \<Rightarrow> nat set set" where
  "matches cs \<equiv> (\<lambda>c. M (cl_query c)) ` set cs"

lemma required_matchers_yields:
  "yields (\<lambda>r. case r of
       None \<Rightarrow> \<Inter> (matches cs) = {}
     | Some ms \<Rightarrow> length ms = length cs \<and> (\<forall>m \<in> set ms. clause_inv inv m) \<and> \<Inter> (clause_docs docs ` set ms) = \<Inter> (matches cs))
   (Some (required_matchers v ops cs))"
proof (induction cs)
  case (Cons c cs)
  show ?case
  proof (cases "clause_matcher ops c")
    case (Inl e)
    then show ?thesis using clause_matcher_yields [of c] by simp
  next
    case (Inr m)
    then have m: "clause_inv inv m" "clause_docs docs m = M (cl_query c)"
      using clause_matcher_yields [of c] by (simp_all add: clause_ok_def)
    then have ex: "vt_is_exhausted (clause_vt v) m \<longleftrightarrow> M (cl_query c) = {}"
      using matcher.exhausted_law [OF clause_m] by simp
    show ?thesis
    proof (cases "M (cl_query c) = {}")
      case True
      with Inr ex show ?thesis by simp
    next
      case False
      with Inr ex have "required_matchers v ops (c # cs) =
        map_sum id (map_option ((#) m)) (required_matchers v ops cs)" by simp
      then show ?thesis
        using m by (simp only: yields_simps) (rule yields_mono [OF Cons.IH], auto split: option.splits)
    qed
  qed
qed simp

lemma live_matchers_yields:
  "yields (\<lambda>ms. (\<forall>m \<in> set ms. inv m) \<and> \<Union> (docs ` set ms) = \<Union> (matches cs)) (Some (live_matchers v ops cs))"
proof (induction cs)
  case (Cons c cs)
  show ?case
  proof (cases "op_matcher ops (cl_query c)")
    case (Inl e)
    then show ?thesis by (auto simp: source_error_def)
  next
    case (Inr m)
    then have m: "inv m" "docs m = M (cl_query c)" using matcher_of_clause by blast+
    have "live_matchers v ops (c # cs) =
      map_sum id (\<lambda>ms. if vt_is_exhausted v m then ms else m # ms) (live_matchers v ops cs)" using Inr by simp
    then show ?thesis using m exhausted_law [OF m(1)]
      by (simp only: yields_simps) (rule yields_mono [OF Cons.IH], auto)
  qed
qed simp

definition simple_ok :: "nat set \<Rightarrow> 's simple_m \<Rightarrow> bool" where
  "simple_ok X m \<longleftrightarrow> simple_inv v inv docs m \<and> simple_docs docs m = X"

definition positive_ok :: "nat set \<Rightarrow> 's positive_m \<Rightarrow> bool" where
  "positive_ok X m \<longleftrightarrow> positive_inv v inv docs m \<and> positive_docs docs m = X"

definition boolean_ok :: "nat set \<Rightarrow> 's boolean_m \<Rightarrow> bool" where
  "boolean_ok X m \<longleftrightarrow> boolean_inv v inv docs m \<and> boolean_m_docs docs m = X"

lemma kind_simps [simp]:
  "simple_ok X (one_of m) \<longleftrightarrow> clause_ok X m" "positive_ok X (Inl s) \<longleftrightarrow> simple_ok X s"
  "boolean_ok X (Inl p) \<longleftrightarrow> positive_ok X p" "clause_ok X (Inl m') \<longleftrightarrow> inv m' \<and> docs m' = X"
  "boolean_ok {} nothing"
  by (simp_all add: simple_ok_def positive_ok_def boolean_ok_def clause_ok_def simple_inv_def simple_docs_def
      positive_inv_def positive_docs_def boolean_inv_def boolean_m_docs_def clause_inv_def clause_docs_def
      one_of_def nothing_def)


lemma required_positive_yields:
  "yields (\<lambda>r. case r of
       None \<Rightarrow> \<Inter> (matches cs) = {}
     | Some p \<Rightarrow> simple_ok (if cs = [] then live else \<Inter> (matches cs)) p)
   (required_positive v ops cs)"
proof -
  consider (none) "cs = []" | (one) c where "cs = [c]" | (more) "cs \<noteq> []" "length cs \<noteq> 1"
    by (metis One_nat_def length_0_conv length_Suc_conv)
  then show ?thesis
  proof cases
    case none
    then show ?thesis
      using live_ids precomputed_ok [OF doc_id_bound(2)]
      by (cases "op_live_doc_ids ops") (auto simp: required_positive_def source_error_def)
  next
    case one
    then show ?thesis using clause_matcher_yields [of c] by (simp add: required_positive_def)
  next
    case more
    then have "required_positive v ops cs = and_then (Some (required_matchers v ops cs)) (\<lambda>r.
               case r of
                 None \<Rightarrow> Some (Inr None)
               | Some ms \<Rightarrow> map_option (\<lambda>m. Inr (Some (all_of m))) (conjunction_new (clause_vt v) ms))"
      by (simp add: required_positive_def)
    also have "yields (\<lambda>r. case r of None \<Rightarrow> \<Inter> (matches cs) = {}
       | Some p \<Rightarrow> simple_ok (if cs = [] then live else \<Inter> (matches cs)) p) \<dots>"
    proof (rule yields_and_then [OF required_matchers_yields])
      fix r
      assume r: "case r of
           None \<Rightarrow> \<Inter> (matches cs) = {}
         | Some ms \<Rightarrow> length ms = length cs \<and> (\<forall>m \<in> set ms. clause_inv inv m) \<and>
             \<Inter> (clause_docs docs ` set ms) = \<Inter> (matches cs)"
      show "yields (\<lambda>r. case r of None \<Rightarrow> \<Inter> (matches cs) = {}
           | Some p \<Rightarrow> simple_ok (if cs = [] then live else \<Inter> (matches cs)) p)
         (case r of None \<Rightarrow> Some (Inr None)
           | Some ms \<Rightarrow> map_option (\<lambda>m. Inr (Some (all_of m))) (conjunction_new (clause_vt v) ms))"
      proof (cases r)
        case (Some ms)
        then have "\<forall>m \<in> set ms. clause_inv inv m" "ms \<noteq> []" using r more(1) by auto
        from matcher.conjunction_new_docs [OF clause_m this] obtain m where
          "conjunction_new (clause_vt v) ms = Some m" "cj_inv (clause_vt v) (clause_inv inv) (clause_docs docs) m"
          "cj_docs (clause_docs docs) m = \<Inter> (clause_docs docs ` set ms)" by blast
        with Some r more(1) show ?thesis
          by (simp add: simple_ok_def all_of_def simple_inv_def simple_docs_def)
      qed (use r in simp)
    qed
    finally show ?thesis .
  qed
qed

lemma conjunction_of_two:
  assumes "simple_ok X a" "simple_ok Y b"
  shows "\<exists>m. conjunction_new (simple_vt v) [a, b] = Some m \<and> positive_ok (X \<inter> Y) (Inr m)"
proof -
  have "\<forall>m \<in> set [a, b]. simple_inv v inv docs m" "[a, b] \<noteq> []" using assms by (simp_all add: simple_ok_def)
  from matcher.conjunction_new_docs [OF simple_m this] obtain m where
    "conjunction_new (simple_vt v) [a, b] = Some m" "cj_inv (simple_vt v) (simple_inv v inv docs) (simple_docs docs) m"
    "cj_docs (simple_docs docs) m = \<Inter> (simple_docs docs ` set [a, b])" by blast
  then show ?thesis using assms by (simp add: positive_ok_def positive_inv_def positive_docs_def simple_ok_def)
qed

lemma with_should_yields:
  assumes "simple_ok X p" "should \<noteq> [] \<Longrightarrow> required \<noteq> []"
  shows "yields (\<lambda>r. case r of
       None \<Rightarrow> minimum > 0 \<and> should \<noteq> [] \<and> \<Union> (matches should) = {}
     | Some p' \<Rightarrow> positive_ok (if minimum > 0 \<and> should \<noteq> []
                     then X \<inter> \<Union> (matches should) else X) p')
   (with_should v ops minimum required should p)"
proof (cases "minimum > 0 \<and> should \<noteq> []")
  case False
  then show ?thesis using assms by (auto simp: with_should_def)
next
  case True
  have "yields (\<lambda>r. case r of
       None \<Rightarrow> minimum > 0 \<and> should \<noteq> [] \<and> \<Union> (matches should) = {}
     | Some p' \<Rightarrow> positive_ok (if minimum > 0 \<and> should \<noteq> []
                     then X \<inter> \<Union> (matches should) else X) p')
     (and_then (Some (live_matchers v ops should)) (\<lambda>ms.
          if ms \<noteq> [] then
            map_option (\<lambda>m. Inr (Some (Inr m))) (conjunction_new (simple_vt v) [p, should_matcher v ms])
          else if required \<noteq> [] then Some (Inr None)
          else Some (Inr (Some (Inl p)))))"
  proof (rule yields_and_then [OF live_matchers_yields])
    fix ms
    assume ms: "(\<forall>m \<in> set ms. inv m) \<and> \<Union> (docs ` set ms) = \<Union> (matches should)"
    then have "simple_ok (\<Union> (matches should)) (should_matcher v ms)"
      using should_matcher_docs [of ms] by (simp add: simple_ok_def)
    from conjunction_of_two [OF assms(1) this] obtain m where m:
      "conjunction_new (simple_vt v) [p, should_matcher v ms] = Some m"
      "positive_ok (X \<inter> \<Union> (matches should)) (Inr m)" by blast
    show "yields (\<lambda>r. case r of
         None \<Rightarrow> minimum > 0 \<and> should \<noteq> [] \<and> \<Union> (matches should) = {}
       | Some p' \<Rightarrow> positive_ok (if minimum > 0 \<and> should \<noteq> []
                       then X \<inter> \<Union> (matches should) else X) p')
       (if ms \<noteq> [] then
          map_option (\<lambda>m. Inr (Some (Inr m))) (conjunction_new (simple_vt v) [p, should_matcher v ms])
        else if required \<noteq> [] then Some (Inr None)
        else Some (Inr (Some (Inl p))))"
      using m ms assms True by (cases "ms = []") auto
  qed
  with True show ?thesis by (simp add: with_should_def)
qed

lemma with_must_not_yields:
  assumes "positive_ok X p"
  shows "yields (boolean_ok (X - \<Union> (matches ns))) (with_must_not v ops ns p)"
proof (cases "ns = []")
  case True
  then show ?thesis using assms by (simp add: with_must_not_def)
next
  case False
  have "yields (boolean_ok (X - \<Union> (matches ns))) (and_then (Some (live_matchers v ops ns)) (\<lambda>ms.
          if ms \<noteq> [] then
            map_option (\<lambda>m. Inr (Inr m))
              (conjunction_not_new (positive_vt v) p (map (\<lambda>n. Inl (one_of (Inl n))) ms))
          else Some (Inr (Inl p))))"
  proof (rule yields_and_then [OF live_matchers_yields])
    fix ms
    assume ms: "(\<forall>m \<in> set ms. inv m) \<and> \<Union> (docs ` set ms) = \<Union> (matches ns)"
    let ?ms = "map (\<lambda>n. Inl (one_of (Inl n))) ms :: 's positive_m list"
    have pos: "positive_inv v inv docs p" using assms by (simp add: positive_ok_def)
    have "positive_ok (docs m) (Inl (one_of (Inl m)))" if "m \<in> set ms" for m using ms that by simp
    then have neg: "\<forall>m \<in> set ?ms. positive_inv v inv docs m" "\<Union> (positive_docs docs ` set ?ms) = \<Union> (docs ` set ms)"
      by (auto simp: positive_ok_def)
    from matcher.conjunction_not_new_docs [OF positive_m pos neg(1)] obtain m where m:
      "conjunction_not_new (positive_vt v) p ?ms = Some m"
      "cn_inv (positive_vt v) (positive_inv v inv docs) (positive_docs docs) m"
      "cn_docs (positive_docs docs) m = positive_docs docs p - \<Union> (positive_docs docs ` set ?ms)" by blast
    then have "boolean_ok (X - \<Union> (matches ns)) (Inr m)"
      using assms ms neg(2) by (simp add: boolean_ok_def boolean_inv_def boolean_m_docs_def positive_ok_def)
    with m(1) ms assms show "yields (boolean_ok (X - \<Union> (matches ns)))
       (if ms \<noteq> [] then map_option (\<lambda>m. Inr (Inr m)) (conjunction_not_new (positive_vt v) p ?ms)
        else Some (Inr (Inl p)))"
      by (cases "ms = []") auto
  qed
  with False show ?thesis by (simp add: with_must_not_def)
qed

lemma boolean_matcher_yields: "yields (boolean_ok (boolean_docs M live q)) (boolean_matcher v ops q)"
proof -
  let ?r = "clauses_by_occur Must q @ clauses_by_occur Filter q" and ?s = "clauses_by_occur Should q"
  let ?n = "clauses_by_occur MustNot q"
  consider (empty) "bq_clauses q = []" | (required) "bq_clauses q \<noteq> []" "?r \<noteq> [] \<or> ?n \<noteq> [] \<and> ?s = []"
    | (should) "bq_clauses q \<noteq> []" "?r = []" "?s \<noteq> []" | (rest) "bq_clauses q \<noteq> []" "?r = []" "?s = []" "?n = []"
    by blast
  then show ?thesis
  proof cases
    case empty
    then have "boolean_docs M live q = {}" by (simp add: boolean_docs_def clauses_by_occur_def)
    with empty show ?thesis by (simp add: boolean_matcher_def)
  next
    case rest
    then have "boolean_docs M live q = {}" by (simp add: boolean_docs_def)
    with rest show ?thesis by (simp add: boolean_matcher_def Let_def)
  next
    case should
    then have spec: "boolean_docs M live q = \<Union> (matches ?s) - \<Union> (matches ?n)" by (simp add: boolean_docs_def)
    have "yields (boolean_ok (boolean_docs M live q)) (and_then (Some (live_matchers v ops ?s)) (\<lambda>ms.
               if ms = [] then Some (Inr nothing)
               else with_must_not v ops ?n (Inl (should_matcher v ms))))"
    proof (rule yields_and_then [OF live_matchers_yields])
      fix ms
      assume ms: "(\<forall>m \<in> set ms. inv m) \<and> \<Union> (docs ` set ms) = \<Union> (matches ?s)"
      show "yields (boolean_ok (boolean_docs M live q)) (if ms = [] then Some (Inr nothing)
               else with_must_not v ops ?n (Inl (should_matcher v ms)))"
      proof (cases "ms = []")
        case True
        then have "boolean_docs M live q = {}" using ms spec by auto
        with True show ?thesis by simp
      next
        case False
        have "positive_ok (\<Union> (matches ?s)) (Inl (should_matcher v ms))"
          using should_matcher_docs [of ms] ms by (simp add: simple_ok_def)
        from with_must_not_yields [OF this, of ?n] False show ?thesis by (simp add: spec)
      qed
    qed
    with should show ?thesis by (simp add: boolean_matcher_def Let_def)
  next
    case required
    let ?P = "if ?r = [] then live else \<Inter> (matches ?r)"
    let ?Q = "if minimum_should_match q > 0 \<and> ?s \<noteq> [] then ?P \<inter> \<Union> (matches ?s) else ?P"
    have spec: "boolean_docs M live q = ?Q - \<Union> (matches ?n)"
      using required by (auto simp: boolean_docs_def Let_def)
    have outer: "yields (boolean_ok (boolean_docs M live q))
        (case r of None \<Rightarrow> Some (Inr nothing) | Some p \<Rightarrow> with_must_not v ops ?n p)"
      if "case r of None \<Rightarrow> minimum_should_match q > 0 \<and> ?s \<noteq> [] \<and> \<Union> (matches ?s) = {}
          | Some p \<Rightarrow> positive_ok ?Q p" for r
    proof (cases r)
      case None
      with that have "boolean_docs M live q = {}" unfolding spec by auto
      with None show ?thesis by simp
    next
      case (Some p)
      with that with_must_not_yields [of ?Q p ?n] show ?thesis unfolding spec by simp
    qed
    have inner: "yields (boolean_ok (boolean_docs M live q))
        (case r of None \<Rightarrow> Some (Inr nothing)
         | Some p \<Rightarrow> and_then (with_should v ops (minimum_should_match q) ?r ?s p) (\<lambda>r.
             case r of None \<Rightarrow> Some (Inr nothing) | Some p \<Rightarrow> with_must_not v ops ?n p))"
      if "case r of None \<Rightarrow> \<Inter> (matches ?r) = {} | Some p \<Rightarrow> simple_ok ?P p" for r
    proof (cases r)
      case None
      then have "\<Inter> (matches ?r) = {}" using that by simp
      then have "?r \<noteq> []" "?P = {}" by auto
      then have "boolean_docs M live q = {}" unfolding spec by auto
      with None show ?thesis by simp
    next
      case (Some p)
      then have "simple_ok ?P p" using that by simp
      moreover have "?s \<noteq> [] \<Longrightarrow> ?r \<noteq> []" using required by blast
      ultimately have "yields (\<lambda>r. case r of
           None \<Rightarrow> minimum_should_match q > 0 \<and> ?s \<noteq> [] \<and> \<Union> (matches ?s) = {} | Some p \<Rightarrow> positive_ok ?Q p)
         (with_should v ops (minimum_should_match q) ?r ?s p)"
        by (rule with_should_yields)
      from yields_and_then [OF this outer] Some show ?thesis by simp
    qed
    have "yields (boolean_ok (boolean_docs M live q)) (and_then (required_positive v ops ?r) (\<lambda>r.
               case r of
                 None \<Rightarrow> Some (Inr nothing)
               | Some p \<Rightarrow> and_then (with_should v ops (minimum_should_match q) ?r ?s p) (\<lambda>r.
                     case r of None \<Rightarrow> Some (Inr nothing) | Some p \<Rightarrow> with_must_not v ops ?n p)))"
      by (rule yields_and_then [OF required_positive_yields inner])
    with required show ?thesis by (simp only: boolean_matcher_def Let_def if_True if_False simp_thms)
  qed
qed

end

section \<open>Whether a query is empty, and its rewriting\<close>

fun some_nonempty :: "('q, 's) search_ops \<Rightarrow> 'q boolean_clause list \<Rightarrow> bool \<Rightarrow> (bool \<times> bool) res" where
  "some_nonempty ops [] has_positive = Inr (False, has_positive)"
| "some_nonempty ops (c # cs) has_positive =
     (if cl_occur c = MustNot then some_nonempty ops cs has_positive
      else case op_is_empty ops (cl_query c) of
             Inl e \<Rightarrow> Inl e
           | Inr True \<Rightarrow> some_nonempty ops cs True
           | Inr False \<Rightarrow> Inr (True, True))"

definition boolean_is_empty :: "('q, 's) search_ops \<Rightarrow> 'q boolean_query \<Rightarrow> bool res" where
  "boolean_is_empty ops q =
     (if bq_clauses q = [] then Inr True
      else case some_nonempty ops (bq_clauses q) False of
             Inl e \<Rightarrow> Inl e
           | Inr (found, has_positive) \<Rightarrow>
               Inr (if found then False else if \<not> has_positive then op_doc_count ops = 0 else True))"

fun rewrite_clauses ::
    "('q, 's) search_ops \<Rightarrow> 'q boolean_clause list \<Rightarrow> (bool \<times> 'q boolean_clause list) res" where
  "rewrite_clauses ops [] = Inr (False, [])"
| "rewrite_clauses ops (c # cs) =
     (case (if cl_occur c = Filter then Inr None else op_rewrite ops (cl_query c)) of
        Inl e \<Rightarrow> Inl e
      | Inr (Some query) \<Rightarrow>
          map_sum id (\<lambda>(_, cs'). (True, \<lparr>cl_query = query, cl_occur = cl_occur c\<rparr> # cs')) (rewrite_clauses ops cs)
      | Inr None \<Rightarrow> map_sum id (map_prod id ((#) c)) (rewrite_clauses ops cs))"

definition boolean_rewrite :: "('q, 's) search_ops \<Rightarrow> 'q boolean_query \<Rightarrow> 'q boolean_query option res" where
  "boolean_rewrite ops q =
     map_sum id (\<lambda>(rewritten_any, cs).
       if \<not> rewritten_any then None
       else Some \<lparr>bq_clauses = cs, minimum_should_match = minimum_should_match q\<rparr>)
     (rewrite_clauses ops (bq_clauses q))"

lemma some_nonempty_False:
  "some_nonempty ops cs hp = Inr (False, hp') \<Longrightarrow>
   (\<forall>c \<in> set cs. cl_occur c \<noteq> MustNot \<longrightarrow> op_is_empty ops (cl_query c) = Inr True) \<and>
   (hp' \<longleftrightarrow> hp \<or> (\<exists>c \<in> set cs. cl_occur c \<noteq> MustNot))"
  by (induction ops cs hp rule: some_nonempty.induct) (auto split: if_splits sum.splits bool.splits)

lemma occur_cases: "bq_clauses q \<noteq> [] \<Longrightarrow> \<forall>c \<in> set (bq_clauses q). cl_occur c = MustNot \<Longrightarrow>
   clauses_by_occur Must q = [] \<and> clauses_by_occur Filter q = [] \<and> clauses_by_occur Should q = [] \<and>
   clauses_by_occur MustNot q \<noteq> []"
  by (auto simp: clauses_by_occur_def filter_empty_conv neq_Nil_conv)

lemma positive_empty_docs:
  assumes "\<forall>c \<in> set (bq_clauses q). cl_occur c \<noteq> MustNot \<longrightarrow> M (cl_query c) = {}"
    and "\<exists>c \<in> set (bq_clauses q). cl_occur c \<noteq> MustNot"
  shows "boolean_docs M live q = {}"
proof -
  let ?r = "clauses_by_occur Must q @ clauses_by_occur Filter q" and ?s = "clauses_by_occur Should q"
  have empty: "\<forall>c \<in> set ?r \<union> set ?s. M (cl_query c) = {}" using assms(1) by (auto simp: clauses_by_occur_def)
  have "?r \<noteq> [] \<or> ?s \<noteq> []"
  proof -
    obtain c where "c \<in> set (bq_clauses q)" "cl_occur c \<noteq> MustNot" using assms(2) by blast
    then have "c \<in> set ?r \<union> set ?s" by (cases "cl_occur c") (auto simp: clauses_by_occur_def)
    then show ?thesis by auto
  qed
  moreover have "\<Inter> ((\<lambda>c. M (cl_query c)) ` set cs) = {}"
    if "cs \<noteq> []" "\<forall>c \<in> set cs. M (cl_query c) = {}" for cs using that by (cases cs) auto
  from this [of ?r] have "?r \<noteq> [] \<Longrightarrow> \<Inter> ((\<lambda>c. M (cl_query c)) ` set ?r) = {}" using empty by blast
  moreover have "\<Union> ((\<lambda>c. M (cl_query c)) ` set ?s) = {}" using empty by auto
  ultimately show ?thesis unfolding boolean_docs_def Let_def by (cases "?r = []") (simp_all only: if_True if_False simp_thms Int_empty_left empty_Diff)
qed

lemma is_empty_docs:
  assumes "boolean_is_empty ops q = Inr True"
    and "\<And>q. op_is_empty ops q = Inr True \<Longrightarrow> M q = {}" "op_doc_count ops = 0 \<Longrightarrow> live = {}"
  shows "boolean_docs M live q = {}"
proof (cases "bq_clauses q = []")
  case True
  then show ?thesis by (simp add: boolean_docs_def clauses_by_occur_def)
next
  case False
  obtain hp where hp: "some_nonempty ops (bq_clauses q) False = Inr (False, hp)" "\<not> hp \<Longrightarrow> op_doc_count ops = 0"
    using assms(1) False by (auto simp: boolean_is_empty_def split: sum.splits if_splits)
  note s = some_nonempty_False [OF hp(1)]
  show ?thesis
  proof (cases hp)
    case True
    with s assms(2) show ?thesis by (intro positive_empty_docs) auto
  next
    case False
    with s occur_cases [OF \<open>bq_clauses q \<noteq> []\<close>] have "boolean_docs M live q \<subseteq> live"
      by (auto simp: boolean_docs_def)
    with False hp(2) assms(3) show ?thesis by simp
  qed
qed

text \<open>A rewriting that keeps what each clause matches keeps what the query matches.\<close>

lemma rewrite_clauses_docs:
  assumes "\<And>q q'. op_rewrite ops q = Inr (Some q') \<Longrightarrow> M q' = M q"
  shows "rewrite_clauses ops cs = Inr (b, cs') \<Longrightarrow>
    map (\<lambda>c. (cl_occur c, M (cl_query c))) cs' = map (\<lambda>c. (cl_occur c, M (cl_query c))) cs"
proof (induction cs arbitrary: b cs')
  case (Cons c cs)
  then show ?case using assms
    by (cases "rewrite_clauses ops cs") (auto split: sum.splits option.splits if_splits)
qed simp

text \<open>The document sets of the clauses of one kind, of which alone \<open>boolean_docs\<close> is made.\<close>

definition matched_by :: "('q \<Rightarrow> nat set) \<Rightarrow> occur \<Rightarrow> 'q boolean_query \<Rightarrow> nat set set" where
  "matched_by M occur q = (\<lambda>c. M (cl_query c)) ` set (clauses_by_occur occur q)"

lemma matched_by_empty [simp]: "matched_by M occur q = {} \<longleftrightarrow> clauses_by_occur occur q = []"
  by (simp add: matched_by_def)

lemma boolean_docs_matched_by:
  "boolean_docs M live q =
     (if matched_by M Must q \<union> matched_by M Filter q \<noteq> {} then
        \<Inter> (matched_by M Must q \<union> matched_by M Filter q) \<inter>
          (if minimum_should_match q > 0 \<and> matched_by M Should q \<noteq> {} then \<Union> (matched_by M Should q) else UNIV)
      else if matched_by M Should q \<noteq> {} then \<Union> (matched_by M Should q)
      else if matched_by M MustNot q \<noteq> {} then live
      else {}) - \<Union> (matched_by M MustNot q)"
  unfolding boolean_docs_def Let_def matched_by_def set_append image_Un image_is_empty set_empty Un_empty
    append_is_Nil_conv by (rule refl)

lemma boolean_docs_cong:
  assumes "map (\<lambda>c. (cl_occur c, M (cl_query c))) (bq_clauses q') = map (\<lambda>c. (cl_occur c, M (cl_query c))) (bq_clauses q)"
    and "minimum_should_match q' = minimum_should_match q"
  shows "boolean_docs M live q' = boolean_docs M live q"
proof -
  have "map (\<lambda>c. M (cl_query c)) (clauses_by_occur occ q) =
      map snd (filter (\<lambda>p. fst p = occ) (map (\<lambda>c. (cl_occur c, M (cl_query c))) (bq_clauses q)))" for occ q
    by (simp add: clauses_by_occur_def filter_map comp_def)
  then have by_occur: "map (\<lambda>c. M (cl_query c)) (clauses_by_occur occ q') = map (\<lambda>c. M (cl_query c)) (clauses_by_occur occ q)" for occ
    using assms(1) by metis
  then have "matched_by M occ q' = matched_by M occ q" for occ
    unfolding matched_by_def by (metis list.set_map)
  then show ?thesis unfolding boolean_docs_matched_by assms(2) by simp
qed

section \<open>Parallel evaluation\<close>

text \<open>
  The clauses run on their own; their hits, document ids with scores, are folded into bitmaps.
  Scores are of a type \<open>'f\<close> with the operations of 32-bit floating point.
\<close>

record 'f float_ops =
  f_zero :: 'f
  f_add :: "'f \<Rightarrow> 'f \<Rightarrow> 'f"
  f_mul :: "'f \<Rightarrow> 'f \<Rightarrow> 'f"

record ('c, 'f) collector_ops =
  op_collect :: "nat \<Rightarrow> 'f \<Rightarrow> 'c \<Rightarrow> 'c res"
  op_needs_more :: "'c \<Rightarrow> bool"

record ('q, 'c, 'f) run_ops =
  run_clause :: "'q \<Rightarrow> (nat \<times> 'f) list res"
  run_scaled :: "'f \<Rightarrow> 'q \<Rightarrow> 'c \<Rightarrow> 'c res"
  run_serial :: "'q boolean_query \<Rightarrow> 'c \<Rightarrow> 'c res"

record 'f folded =
  must_bitmaps :: "nat set list"
  should_bitmap :: "nat set"
  must_not_bitmap :: "nat set"
  scored_hits :: "(nat \<times> 'f) list"
  first_error :: "laurus_error option"

definition fold_hits :: "occur \<Rightarrow> (nat \<times> 'f) list \<Rightarrow> 'f folded \<Rightarrow> 'f folded" where
  "fold_hits occur hits a =
     (case occur of
        Must \<Rightarrow> a\<lparr>must_bitmaps := must_bitmaps a @ [fst ` set hits], scored_hits := scored_hits a @ hits\<rparr>
      | Filter \<Rightarrow> a\<lparr>must_bitmaps := must_bitmaps a @ [fst ` set hits]\<rparr>
      | Should \<Rightarrow> a\<lparr>should_bitmap := should_bitmap a \<union> fst ` set hits, scored_hits := scored_hits a @ hits\<rparr>
      | MustNot \<Rightarrow> a\<lparr>must_not_bitmap := must_not_bitmap a \<union> fst ` set hits\<rparr>)"

definition fold_result :: "occur \<times> (nat \<times> 'f) list res \<Rightarrow> 'f folded \<Rightarrow> 'f folded" where
  "fold_result r a =
     (case snd r of
        Inr hits \<Rightarrow> fold_hits (fst r) hits a
      | Inl e \<Rightarrow> if first_error a = None then a\<lparr>first_error := Some e\<rparr> else a)"

definition fold_results :: "(occur \<times> (nat \<times> 'f) list res) list \<Rightarrow> 'f folded" where
  "fold_results rs = fold fold_result rs
     \<lparr>must_bitmaps = [], should_bitmap = {}, must_not_bitmap = {}, scored_hits = [], first_error = None\<rparr>"

definition survivors :: "nat \<Rightarrow> 'f folded \<Rightarrow> nat set" where
  "survivors minimum a =
     (let has_must = must_bitmaps a \<noteq> [];
          base = if has_must then
                   (case sort_key card (must_bitmaps a) of [] \<Rightarrow> {} | b # bs \<Rightarrow> fold (\<lambda>b acc. acc \<inter> b) bs b)
                 else should_bitmap a;
          base = if has_must \<and> minimum > 0 then base \<inter> should_bitmap a else base
      in if must_not_bitmap a \<noteq> {} then base - must_not_bitmap a else base)"

definition score_of :: "'f float_ops \<Rightarrow> (nat \<times> 'f) list \<Rightarrow> nat \<Rightarrow> 'f" where
  "score_of f hits d = foldl (f_add f) (f_zero f) (map snd (filter (\<lambda>h. fst h = d) hits))"

fun feed :: "('c, 'f) collector_ops \<Rightarrow> (nat \<Rightarrow> 'f) \<Rightarrow> nat list \<Rightarrow> 'c \<Rightarrow> 'c res" where
  "feed co score [] c = Inr c"
| "feed co score (d # ds) c =
     (case op_collect co d (score d) c of
        Inl e \<Rightarrow> Inl e
      | Inr c' \<Rightarrow> if op_needs_more co c' then feed co score ds c' else Inr c')"

definition search_boolean_query_parallel ::
    "'f float_ops \<Rightarrow> ('c, 'f) collector_ops \<Rightarrow> ('q, 'c, 'f) run_ops \<Rightarrow> 'f \<Rightarrow> 'q boolean_query \<Rightarrow> 'c \<Rightarrow> 'c res" where
  "search_boolean_query_parallel f co run boost q c =
     (let clauses = bq_clauses q in
      if clauses = [] then Inr c
      else if \<forall>cl \<in> set clauses. cl_occur cl = MustNot then run_serial run q c
      else if length clauses = 1 then run_scaled run boost (cl_query (hd clauses)) c
      else
        let a = fold_results (map (\<lambda>cl. (cl_occur cl, run_clause run (cl_query cl))) clauses)
        in case first_error a of
             Some e \<Rightarrow> Inl e
           | None \<Rightarrow> feed co (\<lambda>d. f_mul f (score_of f (scored_hits a) d) boost)
                      (sorted_list_of_set (survivors (minimum_should_match q) a)) c)"

text \<open>The bitmaps after the fold, clause by clause.\<close>

lemma fold_results_bitmaps:
  assumes "\<forall>c \<in> set cs. \<exists>hits. run (cl_query c) = Inr hits \<and> fst ` set hits = M (cl_query c)"
  defines "a \<equiv> \<lambda>a0. fold fold_result (map (\<lambda>c. (cl_occur c, run (cl_query c))) cs) a0"
  shows "must_bitmaps (a a0) = must_bitmaps a0 @
           map (\<lambda>c. M (cl_query c)) (filter (\<lambda>c. cl_occur c = Must \<or> cl_occur c = Filter) cs) \<and>
    should_bitmap (a a0) = should_bitmap a0 \<union> (\<Union>c \<in> {c \<in> set cs. cl_occur c = Should}. M (cl_query c)) \<and>
    must_not_bitmap (a a0) = must_not_bitmap a0 \<union> (\<Union>c \<in> {c \<in> set cs. cl_occur c = MustNot}. M (cl_query c)) \<and>
    first_error (a a0) = first_error a0"
  using assms(1) unfolding a_def
proof (induction cs arbitrary: a0)
  case (Cons c cs)
  obtain hits where hits: "run (cl_query c) = Inr hits" "fst ` set hits = M (cl_query c)" using Cons.prems by auto
  let ?a = "fold_result (cl_occur c, run (cl_query c)) a0"
  have step: "must_bitmaps ?a = must_bitmaps a0 @ (if cl_occur c = Must \<or> cl_occur c = Filter then [M (cl_query c)] else [])"
    "should_bitmap ?a = should_bitmap a0 \<union> (if cl_occur c = Should then M (cl_query c) else {})"
    "must_not_bitmap ?a = must_not_bitmap a0 \<union> (if cl_occur c = MustNot then M (cl_query c) else {})"
    "first_error ?a = first_error a0"
    using hits by (auto simp: fold_result_def fold_hits_def split: occur.split)
  have "\<forall>c \<in> set cs. \<exists>hits. run (cl_query c) = Inr hits \<and> fst ` set hits = M (cl_query c)" using Cons.prems by simp
  note IH = Cons.IH [OF this, of ?a]
  have split: "(\<Union>c' \<in> {c' \<in> set (c # cs). cl_occur c' = occ}. M (cl_query c')) =
    (if cl_occur c = occ then M (cl_query c) else {}) \<union> (\<Union>c' \<in> {c' \<in> set cs. cl_occur c' = occ}. M (cl_query c'))" for occ
    by auto
  show ?case unfolding split using IH by (simp add: step Un_assoc)
qed simp

lemma fold_inter: "fold (\<lambda>b acc. acc \<inter> b) bs (b :: nat set) = b \<inter> \<Inter> (set bs)"
  by (induction bs arbitrary: b) auto

lemma intersect_smallest_first:
  "bs \<noteq> [] \<Longrightarrow> (case sort_key card bs of [] \<Rightarrow> {} | b # cs \<Rightarrow> fold (\<lambda>b acc. acc \<inter> b) cs b) = \<Inter> (set bs)"
  for bs :: "nat set list"
proof -
  assume "bs \<noteq> []"
  then obtain b cs where bc: "sort_key card bs = b # cs" by (metis neq_Nil_conv set_empty set_sort)
  then have "set bs = insert b (set cs)" by (metis list.simps(15) set_sort)
  with bc show ?thesis by (simp add: fold_inter)
qed

lemma some_positive:
  "\<exists>c \<in> set (bq_clauses q). cl_occur c \<noteq> MustNot \<Longrightarrow>
   matched_by M Must q \<union> matched_by M Filter q \<noteq> {} \<or> matched_by M Should q \<noteq> {}"
proof -
  assume "\<exists>c \<in> set (bq_clauses q). cl_occur c \<noteq> MustNot"
  then obtain c where "c \<in> set (bq_clauses q)" "cl_occur c \<noteq> MustNot" by blast
  then show ?thesis
    by (cases "cl_occur c") (auto simp: matched_by_def clauses_by_occur_def filter_empty_conv)
qed

lemma survivors_docs:
  fixes run :: "'q \<Rightarrow> (nat \<times> 'f) list res"
  assumes "\<forall>c \<in> set (bq_clauses q). \<exists>hits. run (cl_query c) = Inr hits \<and> fst ` set hits = M (cl_query c)"
    and "\<exists>c \<in> set (bq_clauses q). cl_occur c \<noteq> MustNot"
  defines "a \<equiv> fold_results (map (\<lambda>c. (cl_occur c, run (cl_query c))) (bq_clauses q))"
  shows "first_error a = None \<and> survivors (minimum_should_match q) a =
    (if minimum_should_match q > 0 \<and> clauses_by_occur Must q @ clauses_by_occur Filter q \<noteq> [] \<and>
        clauses_by_occur Should q = [] then {} else boolean_docs M live q)"
proof -
  let ?R = "matched_by M Must q \<union> matched_by M Filter q" and ?S = "matched_by M Should q"
  let ?N = "matched_by M MustNot q"
  let ?req = "filter (\<lambda>c. cl_occur c = Must \<or> cl_occur c = Filter) (bq_clauses q)"
  have by_occur: "(\<Union>c \<in> {c \<in> set (bq_clauses q). cl_occur c = occ}. M (cl_query c)) = \<Union> (matched_by M occ q)" for occ
    by (simp add: clauses_by_occur_def matched_by_def)
  have a: "must_bitmaps a = map (\<lambda>c. M (cl_query c)) ?req" "should_bitmap a = \<Union> ?S"
    "must_not_bitmap a = \<Union> ?N" "first_error a = None"
    using fold_results_bitmaps [OF assms(1), of "\<lparr>must_bitmaps = [], should_bitmap = {}, must_not_bitmap = {},
        scored_hits = [], first_error = None\<rparr>"]
    unfolding by_occur a_def fold_results_def by simp_all
  have "set ?req = set (clauses_by_occur Must q) \<union> set (clauses_by_occur Filter q)"
    by (auto simp: clauses_by_occur_def)
  then have req: "set (must_bitmaps a) = ?R" unfolding a(1) by (simp add: matched_by_def image_Un)
  then have none: "must_bitmaps a = [] \<longleftrightarrow> ?R = {}" by (metis set_empty)
  have base: "must_bitmaps a \<noteq> [] \<Longrightarrow>
      (case sort_key card (must_bitmaps a) of [] \<Rightarrow> {} | b # cs \<Rightarrow> fold (\<lambda>b acc. acc \<inter> b) cs b) = \<Inter> ?R"
    using intersect_smallest_first [of "must_bitmaps a"] unfolding req .
  have s: "survivors (minimum_should_match q) a =
    (if ?R \<noteq> {} then (if minimum_should_match q > 0 then \<Inter> ?R \<inter> \<Union> ?S else \<Inter> ?R) else \<Union> ?S) - \<Union> ?N"
    unfolding survivors_def Let_def a(2,3) none
    by (cases "?R = {}"; cases "minimum_should_match q > 0"; cases "\<Union> ?N = {}") (simp_all only: none base
        simp_thms if_True if_False not_False_eq_True Diff_empty)
  have r: "clauses_by_occur Must q @ clauses_by_occur Filter q \<noteq> [] \<longleftrightarrow> ?R \<noteq> {}"
    "clauses_by_occur Should q = [] \<longleftrightarrow> ?S = {}" by simp_all
  show ?thesis
    unfolding boolean_docs_matched_by r s using some_positive [OF assms(2), of M] a(4)
    by (cases "?R = {}"; cases "?S = {}"; cases "minimum_should_match q > 0") (simp_all only: simp_thms
        if_True if_False Int_UNIV_right Union_empty Int_empty_right empty_Diff not_False_eq_True)
qed

text \<open>A collector that takes everything: the documents and scores in the order they came.\<close>

definition take_all :: "((nat \<times> 'f) list, 'f) collector_ops" where
  "take_all = \<lparr>op_collect = \<lambda>d x c. Inr (c @ [(d, x)]), op_needs_more = \<lambda>_. True\<rparr>"

lemma feed_take_all: "feed take_all score ds c = Inr (c @ map (\<lambda>d. (d, score d)) ds)"
  by (induction ds arbitrary: c) (simp_all add: take_all_def)

section \<open>Properties of the parallel evaluation\<close>

text \<open>
  The scores of a document's hits: those of the required and the optional clauses, in the order of the
  clauses. Filter clauses and excluding clauses give none.
\<close>

definition clause_scores :: "('q \<Rightarrow> (nat \<times> 'f) list) \<Rightarrow> 'q boolean_query \<Rightarrow> nat \<Rightarrow> 'f list" where
  "clause_scores hits q d =
     concat (map (\<lambda>c. map snd (filter (\<lambda>h. fst h = d) (hits (cl_query c))))
       (filter (\<lambda>c. cl_occur c = Must \<or> cl_occur c = Should) (bq_clauses q)))"

lemma fold_scored_hits:
  "\<forall>c \<in> set cs. run (cl_query c) = Inr (hits (cl_query c)) \<Longrightarrow>
   scored_hits (fold fold_result (map (\<lambda>c. (cl_occur c, run (cl_query c))) cs) a) =
     scored_hits a @ concat (map (\<lambda>c. hits (cl_query c)) (filter (\<lambda>c. cl_occur c = Must \<or> cl_occur c = Should) cs))"
proof (induction cs arbitrary: a)
  case (Cons c cs)
  then show ?case by (cases "cl_occur c") (simp_all add: fold_result_def fold_hits_def)
qed simp

lemma score_of_scored:
  assumes "\<forall>c \<in> set (bq_clauses q). run (cl_query c) = Inr (hits (cl_query c))"
  shows "score_of f (scored_hits (fold_results (map (\<lambda>c. (cl_occur c, run (cl_query c))) (bq_clauses q)))) d =
    foldl (f_add f) (f_zero f) (clause_scores hits q d)"
  unfolding score_of_def fold_results_def fold_scored_hits [of "bq_clauses q" run hits, OF assms]
  by (simp add: clause_scores_def filter_concat map_concat comp_def)

text \<open>
  C30. The parallel evaluation of a query of at least two clauses, one of them not excluding, each of
  which runs without an error and gives hits, collects exactly the documents the query stands for as
  its fields are documented, each once and in ascending order, when the minimum of optional matches is
  at most one. The score of each is the sum of the scores of its hits in the required and the optional
  clauses, added in the order of the clauses, times the boost. (A larger minimum counts as one.)
\<close>

theorem parallel_search_exact:
  assumes "2 \<le> length (bq_clauses q)" "\<exists>c \<in> set (bq_clauses q). cl_occur c \<noteq> MustNot"
    and "\<forall>c \<in> set (bq_clauses q). run_clause run (cl_query c) = Inr (hits (cl_query c))"
    and "minimum_should_match q \<le> 1"
  shows "search_boolean_query_parallel f take_all run boost q [] =
    Inr (map (\<lambda>d. (d, f_mul f (foldl (f_add f) (f_zero f) (clause_scores hits q d)) boost))
      (sorted_list_of_set (documented_docs (\<lambda>t. fst ` set (hits t)) live q)))"
proof -
  let ?M = "\<lambda>t. fst ` set (hits t)"
  let ?a = "fold_results (map (\<lambda>c. (cl_occur c, run_clause run (cl_query c))) (bq_clauses q))"
  have runs: "\<forall>c \<in> set (bq_clauses q). \<exists>hs. run_clause run (cl_query c) = Inr hs \<and> fst ` set hs = ?M (cl_query c)"
    using assms(3) by blast
  note found = survivors_docs [OF runs assms(2), of live]
  have "survivors (minimum_should_match q) ?a = documented_docs ?M live q"
  proof (cases "minimum_should_match q > 0 \<and> clauses_by_occur Should q = []")
    case True
    then have "documented_docs ?M live q = {}" by (simp add: documented_unreachable)
    moreover have "clauses_by_occur Must q @ clauses_by_occur Filter q \<noteq> []"
      using some_positive [OF assms(2), of ?M] True by simp
    ultimately show ?thesis using found True by simp
  next
    case False
    with assms(4) have "minimum_plain q" by (auto simp: minimum_plain_def)
    with found False boolean_docs_documented [of q ?M live] show ?thesis by auto
  qed
  moreover have "bq_clauses q \<noteq> []" "\<not> (\<forall>c \<in> set (bq_clauses q). cl_occur c = MustNot)" "length (bq_clauses q) \<noteq> 1"
    using assms(1,2) by auto
  ultimately show ?thesis
    using found
    by (simp only: search_boolean_query_parallel_def Let_def if_False option.case feed_take_all append_Nil
        score_of_scored [OF assms(3)])
qed

definition nat_floats :: "nat float_ops" where
  "nat_floats = \<lparr>f_zero = 0, f_add = (+), f_mul = (*)\<rparr>"

definition multiples :: "(nat, (nat \<times> nat) list, nat) run_ops" where
  "multiples = \<lparr>run_clause = \<lambda>k. Inr (map (\<lambda>i. (i * k, 1)) [1..<7]), run_scaled = \<lambda>_ _ c. Inr c,
     run_serial = \<lambda>_ c. Inr c\<rparr>"

text \<open>The multiples of two, and of three, up to six times: a multiple of both scores twice, times two.\<close>

lemma parallel_search_exact_witness:
  "\<exists>hits. search_boolean_query_parallel nat_floats take_all multiples 2
     \<lparr>bq_clauses = [\<lparr>cl_query = 2, cl_occur = Must\<rparr>, \<lparr>cl_query = 3, cl_occur = Should\<rparr>], minimum_should_match = 1\<rparr> [] =
   Inr hits \<and> set hits = {(6, 4), (12, 4)}"
proof -
  let ?q = "\<lparr>bq_clauses = [\<lparr>cl_query = 2, cl_occur = Must\<rparr>, \<lparr>cl_query = 3, cl_occur = Should\<rparr>], minimum_should_match = 1\<rparr>"
  let ?hits = "\<lambda>k. map (\<lambda>i. (i * k, 1 :: nat)) [1..<7 :: nat]"
  have up: "[1..<7] = [1, 2, 3, 4, 5, 6 :: nat]" by (simp add: upt_rec)
  have ids: "fst ` set (?hits k) = {k, 2 * k, 3 * k, 4 * k, 5 * k, 6 * k}" for k
    unfolding up by auto
  have docs: "documented_docs (\<lambda>t. fst ` set (?hits t)) {} ?q = {6, 12}"
    unfolding ids by (auto simp: documented_docs_def clauses_by_occur_def)
  have "search_boolean_query_parallel nat_floats take_all multiples 2 ?q [] =
      Inr (map (\<lambda>d. (d, f_mul nat_floats (foldl (f_add nat_floats) (f_zero nat_floats)
        (clause_scores ?hits ?q d)) 2)) (sorted_list_of_set {6, 12}))"
    unfolding docs [symmetric]
    by (rule parallel_search_exact) (simp_all add: multiples_def)
  then show ?thesis
    by (simp add: clause_scores_def up [simplified] nat_floats_def)
qed

text \<open>
  A query with two required clauses, no optional one and a minimum of one optional match: the
  matcher ignores the minimum, the parallel evaluation returns nothing.
\<close>

theorem parallel_ignores_required:
  "search_boolean_query_parallel nat_floats take_all multiples 1
     \<lparr>bq_clauses = [\<lparr>cl_query = 2, cl_occur = Must\<rparr>, \<lparr>cl_query = 3, cl_occur = Must\<rparr>], minimum_should_match = 1\<rparr> [] =
   Inr [] \<and>
   6 \<in> boolean_docs (\<lambda>k. (\<lambda>i. i * k) ` {1..<7}) live
     \<lparr>bq_clauses = [\<lparr>cl_query = 2, cl_occur = Must\<rparr>, \<lparr>cl_query = 3, cl_occur = Must\<rparr>], minimum_should_match = 1\<rparr>"
proof
  let ?q = "\<lparr>bq_clauses = [\<lparr>cl_query = 2, cl_occur = Must\<rparr>, \<lparr>cl_query = 3, cl_occur = Must\<rparr>], minimum_should_match = 1\<rparr>"
  let ?M = "\<lambda>k. (\<lambda>i. i * k) ` {1..<7::nat}"
  have hits: "\<forall>c \<in> set (bq_clauses ?q). \<exists>hits. run_clause multiples (cl_query c) = Inr hits \<and> fst ` set hits = ?M (cl_query c)"
    by (simp add: multiples_def image_image)
  have "first_error (fold_results (map (\<lambda>c. (cl_occur c, run_clause multiples (cl_query c))) (bq_clauses ?q))) = None \<and>
    survivors (minimum_should_match ?q) (fold_results (map (\<lambda>c. (cl_occur c, run_clause multiples (cl_query c))) (bq_clauses ?q))) = {}"
    using survivors_docs [OF hits] by (simp add: clauses_by_occur_def)
  then show "search_boolean_query_parallel nat_floats take_all multiples 1 ?q [] = Inr []"
    by (simp add: search_boolean_query_parallel_def Let_def)
  have "6 \<in> ?M 2" "6 \<in> ?M 3" by (rule image_eqI [of _ _ 3], simp, simp) (rule image_eqI [of _ _ 2], simp, simp)
  then show "6 \<in> boolean_docs ?M live ?q"
    by (simp add: boolean_docs_def clauses_by_occur_def)
qed

text \<open>
  A boolean query that reports itself empty stands for no document, when each clause and the
  reader do so truthfully; a query of excluding clauses only is empty when the reader is.
\<close>

theorem boolean_is_empty_sound:
  assumes "boolean_is_empty ops q = Inr True"
    and "\<And>q. op_is_empty ops q = Inr True \<Longrightarrow> M q = {}" "op_doc_count ops = 0 \<Longrightarrow> live = {}"
  shows "boolean_docs M live q = {}"
  by (rule is_empty_docs [OF assms])

lemma boolean_is_empty_sound_witness:
  "boolean_docs (\<lambda>_. {}) {} \<lparr>bq_clauses = [\<lparr>cl_query = (1::nat), cl_occur = Must\<rparr>, \<lparr>cl_query = 2, cl_occur = MustNot\<rparr>],
     minimum_should_match = 0\<rparr> = {}"
  by (rule boolean_is_empty_sound [of "\<lparr>op_matcher = \<lambda>_. Inr (), op_cache_key = \<lambda>_. None,
        op_cached_filter_doc_ids = \<lambda>_. Inr None, op_is_empty = \<lambda>_. Inr True, op_rewrite = \<lambda>_. Inr None,
        op_live_doc_ids = Inr [], op_doc_count = 0\<rparr>"]) (simp_all add: boolean_is_empty_def)

text \<open>
  The rewriting of a query before it is fanned out to the segments keeps the documents the query
  stands for, filters left as they are, when the rewriting of each clause does.
\<close>

theorem boolean_rewrite_same_docs:
  assumes "boolean_rewrite ops q = Inr (Some q')"
    and "\<And>q q'. op_rewrite ops q = Inr (Some q') \<Longrightarrow> M q' = M q"
  shows "boolean_docs M live q' = boolean_docs M live q"
proof -
  obtain b cs where cs: "rewrite_clauses ops (bq_clauses q) = Inr (b, cs)"
    "q' = \<lparr>bq_clauses = cs, minimum_should_match = minimum_should_match q\<rparr>"
    using assms(1) by (cases "rewrite_clauses ops (bq_clauses q)") (auto simp: boolean_rewrite_def split: if_splits)
  show ?thesis
    using rewrite_clauses_docs [OF assms(2) cs(1)] by (intro boolean_docs_cong) (simp_all add: cs(2))
qed

lemma boolean_rewrite_same_docs_witness:
  "boolean_docs (\<lambda>q. {q mod 2}) {} \<lparr>bq_clauses = [\<lparr>cl_query = (3::nat), cl_occur = Must\<rparr>], minimum_should_match = 0\<rparr> =
   boolean_docs (\<lambda>q. {q mod 2}) {} \<lparr>bq_clauses = [\<lparr>cl_query = 1, cl_occur = Must\<rparr>], minimum_should_match = 0\<rparr>"
  by (rule boolean_rewrite_same_docs [of "\<lparr>op_matcher = \<lambda>_. Inr (), op_cache_key = \<lambda>_. None,
        op_cached_filter_doc_ids = \<lambda>_. Inr None, op_is_empty = \<lambda>_. Inr True, op_rewrite = \<lambda>q. Inr (Some (q + 2)),
        op_live_doc_ids = Inr [], op_doc_count = 0\<rparr>"]) (auto simp: boolean_rewrite_def)

end
