(* ===== verification/Struct_Writer.thy ===== *)
theory Struct_Writer
  imports Varint
begin

text \<open>
  Structured binary output, \<open>StructWriter\<close> of \<^verbatim>\<open>laurus/src/storage/structured.rs\<close>: typed fields in
  little-endian order, a running checksum of every byte, a header that may be written last, and a
  footer of the checksum and a magic number. \<open>emits\<close> says which bytes an operation writes.
\<close>

type_synonym u16 = "16 word"
type_synonym u32 = "32 word"

section \<open>State\<close>

text \<open>
  The output is its content, the place of its cursor, the bytes it can still take, at which a
  write fails, and whether it can be synced and closed once it is written. The hasher is the bytes it has hashed; \<open>crc\<close>, the CRC-32 of a third-party crate, is a
  parameter of the operations that finalise it.
\<close>

record struct_writer =
  sw_content :: bytes
  sw_cursor :: nat
  sw_capacity :: nat
  sw_closed :: bool
  sw_hashed :: bytes
  sw_position :: nat
  sw_reserved_header :: "nat option"
  sw_syncs :: bool

definition struct_writer_new :: "nat \<Rightarrow> struct_writer" where
  "struct_writer_new capacity = \<lparr>sw_content = [], sw_cursor = 0, sw_capacity = capacity, sw_closed = False,
     sw_hashed = [], sw_position = 0, sw_reserved_header = None, sw_syncs = True\<rparr>"

definition FOOTER_MAGIC :: nat where "FOOTER_MAGIC = 0x4352434C"

definition FOOTER_LEN :: nat where "FOOTER_LEN = 8"

text \<open>A write replaces what stands at the cursor; beyond the capacity only a prefix is written.\<close>

definition overwrite :: "nat \<Rightarrow> bytes \<Rightarrow> bytes \<Rightarrow> bytes" where
  "overwrite at bs content = take at content @ bs @ drop (at + length bs) content"

definition write_all :: "bytes \<Rightarrow> (struct_writer, unit) io" where
  "write_all bs s =
     (let n = min (length bs) (sw_capacity s - sw_cursor s);
          s' = s\<lparr>sw_content := overwrite (sw_cursor s) (take n bs) (sw_content s), sw_cursor := sw_cursor s + n\<rparr>
      in if n < length bs then (Inl (Io ''write''), s') else (Inr (), s'))"

definition sw_seek :: "nat \<Rightarrow> (struct_writer, unit) io" where
  "sw_seek at = modify (\<lambda>s. s\<lparr>sw_cursor := at\<rparr>)"

section \<open>Fields\<close>

text \<open>Every field is written, hashed and counted, in this order.\<close>

definition put_hashed :: "bytes \<Rightarrow> (struct_writer, unit) io" where
  "put_hashed bs = sbind (write_all bs) (\<lambda>_. modify (\<lambda>s.
     s\<lparr>sw_hashed := sw_hashed s @ bs, sw_position := sw_position s + length bs\<rparr>))"

definition sw_write_u8 :: "u8 \<Rightarrow> (struct_writer, unit) io" where
  "sw_write_u8 v = put_hashed [v]"

definition sw_write_u16 :: "u16 \<Rightarrow> (struct_writer, unit) io" where
  "sw_write_u16 v = put_hashed (le_bytes 2 (unat v))"

definition sw_write_u32 :: "u32 \<Rightarrow> (struct_writer, unit) io" where
  "sw_write_u32 v = put_hashed (le_bytes 4 (unat v))"

definition sw_write_u64 :: "u64 \<Rightarrow> (struct_writer, unit) io" where
  "sw_write_u64 v = put_hashed (le_bytes 8 (unat v))"

text \<open>Floating-point numbers are their bits.\<close>

definition sw_write_f32 :: "u32 \<Rightarrow> (struct_writer, unit) io" where
  "sw_write_f32 bits = put_hashed (le_bytes 4 (unat bits))"

definition sw_write_f64 :: "u64 \<Rightarrow> (struct_writer, unit) io" where
  "sw_write_f64 bits = put_hashed (le_bytes 8 (unat bits))"

definition sw_write_varint :: "u64 \<Rightarrow> (struct_writer, unit) io" where
  "sw_write_varint v = put_hashed (encode_u64 v)"

definition sw_write_raw :: "bytes \<Rightarrow> (struct_writer, unit) io" where
  "sw_write_raw bs = put_hashed bs"

definition sw_write_bytes :: "bytes \<Rightarrow> (struct_writer, unit) io" where
  "sw_write_bytes bs = sbind (sw_write_varint (word_of_nat (length bs))) (\<lambda>_. put_hashed bs)"

text \<open>A string is its UTF-8 bytes.\<close>

definition sw_write_string :: "bytes \<Rightarrow> (struct_writer, unit) io" where
  "sw_write_string bs = sbind (sw_write_varint (word_of_nat (length bs))) (\<lambda>_. put_hashed bs)"

fun write_deltas :: "u32 \<Rightarrow> u32 list \<Rightarrow> (struct_writer, unit) io" where
  "write_deltas previous [] = ret ()"
| "write_deltas previous (v # vs) =
     sbind (sw_write_varint (ucast (v - previous))) (\<lambda>_. write_deltas v vs)"

definition sw_write_delta_compressed_u32s :: "u32 list \<Rightarrow> (struct_writer, unit) io" where
  "sw_write_delta_compressed_u32s vs =
     (if vs = [] then sw_write_varint 0
      else sbind (sw_write_varint (word_of_nat (length vs))) (\<lambda>_. write_deltas 0 vs))"

text \<open>The entries of a map, in the order it iterates.\<close>

fun write_entries :: "(bytes \<times> u64) list \<Rightarrow> (struct_writer, unit) io" where
  "write_entries [] = ret ()"
| "write_entries ((k, v) # es) =
     sbind (sw_write_string k) (\<lambda>_. sbind (sw_write_u64 v) (\<lambda>_. write_entries es))"

definition sw_write_string_u64_map :: "(bytes \<times> u64) list \<Rightarrow> (struct_writer, unit) io" where
  "sw_write_string_u64_map es =
     sbind (sw_write_varint (word_of_nat (length es))) (\<lambda>_. write_entries es)"

section \<open>Header and footer\<close>

definition internal :: "string \<Rightarrow> laurus_error" where
  "internal msg = Other (''Internal error: '' @ msg)"

definition reserve_header :: "nat \<Rightarrow> (struct_writer, unit) io" where
  "reserve_header len s =
     (if sw_position s \<noteq> 0 \<or> sw_reserved_header s \<noteq> None
      then fail (internal ''StructWriter: a header can only be reserved at the start of the output'') s
      else sbind (write_all (replicate len 0)) (\<lambda>_. modify (\<lambda>s.
             s\<lparr>sw_position := len, sw_reserved_header := Some len\<rparr>)) s)"

definition fill_header :: "(struct_writer, unit) io \<Rightarrow> (struct_writer, unit) io" where
  "fill_header w s =
     (case sw_reserved_header s of
        None \<Rightarrow> fail (internal ''StructWriter: fill_header called without a reserved header'') s
      | Some len \<Rightarrow>
          let end_pos = sw_position s; body = sw_hashed s
          in sbind (sw_seek 0) (\<lambda>_.
             sbind (modify (\<lambda>s. s\<lparr>sw_position := 0\<rparr>)) (\<lambda>_.
             sbind w (\<lambda>_ s.
               if sw_position s \<noteq> len then fail (internal ''StructWriter: wrote a header of another length'') s
               else sbind (sw_seek end_pos) (\<lambda>_. modify (\<lambda>s.
                      s\<lparr>sw_position := end_pos, sw_hashed := sw_hashed s @ body\<rparr>)) s)))
             (s\<lparr>sw_reserved_header := None, sw_hashed := []\<rparr>))"

definition footer :: "(bytes \<Rightarrow> u32) \<Rightarrow> bytes \<Rightarrow> bytes" where
  "footer crc payload = le_bytes 4 (unat (crc payload)) @ le_bytes 4 FOOTER_MAGIC"

definition sw_close :: "(bytes \<Rightarrow> u32) \<Rightarrow> (struct_writer, unit) io" where
  "sw_close crc s =
     (if sw_reserved_header s \<noteq> None
      then fail (internal ''StructWriter: closed with a header reserved but never filled'') s
      else sbind (write_all (le_bytes 4 (unat (crc (sw_hashed s))))) (\<lambda>_.
           sbind (write_all (le_bytes 4 FOOTER_MAGIC)) (\<lambda>_.
           \<lambda>s. if sw_syncs s then (Inr (), s\<lparr>sw_closed := True\<rparr>)
               else (Inl (Io ''flush_and_sync''), s))) s)"

section \<open>What an operation writes\<close>

text \<open>A writer whose cursor and position agree and stand within what is written.\<close>

definition sw_wf :: "struct_writer \<Rightarrow> bool" where
  "sw_wf s \<longleftrightarrow> sw_cursor s = sw_position s \<and> sw_cursor s \<le> length (sw_content s) \<and>
     length (sw_content s) \<le> sw_capacity s"

definition written :: "bytes \<Rightarrow> struct_writer \<Rightarrow> struct_writer" where
  "written bs s = s\<lparr>sw_content := overwrite (sw_cursor s) bs (sw_content s), sw_cursor := sw_cursor s + length bs,
     sw_hashed := sw_hashed s @ bs, sw_position := sw_position s + length bs\<rparr>"

lemma syncs_kept [simp]: "sw_syncs (struct_writer_new capacity)" "sw_syncs (written bs s) = sw_syncs s"
  by (simp_all add: struct_writer_new_def written_def)

text \<open>The operation writes exactly these bytes at the cursor when they fit, and fails when they do not.\<close>

definition emits :: "(struct_writer, unit) io \<Rightarrow> bytes \<Rightarrow> bool" where
  "emits w bs \<longleftrightarrow> (\<forall>s. sw_wf s \<longrightarrow>
     (if sw_cursor s + length bs \<le> sw_capacity s then w s = (Inr (), written bs s)
      else \<exists>e s'. w s = (Inl e, s')))"

named_theorems emits_rules \<open>the bytes of each field\<close>

lemma overwrite_append:
  "at \<le> length c \<Longrightarrow> overwrite (at + length as) bs (overwrite at as c) = overwrite at (as @ bs) c"
  by (simp add: overwrite_def min_absorb2 ac_simps)

lemma overwrite_Nil [simp]: "overwrite at [] c = c"
  by (simp add: overwrite_def)

lemma length_overwrite: "at \<le> length c \<Longrightarrow> length (overwrite at bs c) = max (length c) (at + length bs)"
  by (simp add: overwrite_def)

lemma overwrite_end: "overwrite (length c) bs c = c @ bs"
  by (simp add: overwrite_def)

lemma written_wf: "sw_wf s \<Longrightarrow> sw_cursor s + length bs \<le> sw_capacity s \<Longrightarrow> sw_wf (written bs s)"
  by (simp add: sw_wf_def written_def length_overwrite)

lemma written_simps [simp]:
  "sw_cursor (written bs s) = sw_cursor s + length bs" "sw_capacity (written bs s) = sw_capacity s"
  "sw_wf s \<Longrightarrow> written bs (written as s) = written (as @ bs) s"
  by (simp_all add: written_def add.assoc sw_wf_def overwrite_append)

lemma emits_sbind [emits_rules]:
  assumes "emits w as" "\<And>x. emits (w' x) bs"
  shows "emits (sbind w w') (as @ bs)"
  unfolding emits_def
proof (intro allI impI)
  fix s
  assume s: "sw_wf s"
  show "if sw_cursor s + length (as @ bs) \<le> sw_capacity s then sbind w w' s = (Inr (), written (as @ bs) s)
    else \<exists>e s'. sbind w w' s = (Inl e, s')"
  proof (cases "sw_cursor s + length as \<le> sw_capacity s")
    case True
    then have w: "w s = (Inr (), written as s)" using assms(1) s by (simp add: emits_def)
    have "sw_wf (written as s)" using s True by (rule written_wf)
    with assms(2) have "if sw_cursor s + length (as @ bs) \<le> sw_capacity s
      then w' () (written as s) = (Inr (), written bs (written as s))
      else \<exists>e s'. w' () (written as s) = (Inl e, s')"
      unfolding emits_def by (simp add: add.assoc)
    with w s show ?thesis by (auto simp: sbind_def split: if_splits)
  next
    case False
    with assms(1) s have "\<exists>e s'. w s = (Inl e, s')" unfolding emits_def by simp
    with False show ?thesis by (auto simp: sbind_def)
  qed
qed

lemma emits_ret [emits_rules]: "emits (ret ()) []"
  by (simp add: emits_def ret_def sw_wf_def written_def)

lemma emits_put [emits_rules]: "emits (put_hashed bs) bs"
  by (auto simp: emits_def put_hashed_def sbind_def write_all_def modify_def written_def sw_wf_def Let_def)

lemma emits_fixed [emits_rules]:
  "emits (sw_write_u8 v) [v]" "emits (sw_write_u16 v2) (le_bytes 2 (unat v2))"
  "emits (sw_write_u32 v3) (le_bytes 4 (unat v3))" "emits (sw_write_u64 v4) (le_bytes 8 (unat v4))"
  "emits (sw_write_f32 v3) (le_bytes 4 (unat v3))" "emits (sw_write_f64 v4) (le_bytes 8 (unat v4))"
  "emits (sw_write_varint v4) (encode_u64 v4)" "emits (sw_write_raw bs) bs"
  by (simp_all add: sw_write_u8_def sw_write_u16_def sw_write_u32_def sw_write_u64_def sw_write_f32_def
      sw_write_f64_def sw_write_varint_def sw_write_raw_def emits_put)

definition string_bytes :: "bytes \<Rightarrow> bytes" where
  "string_bytes bs = encode_u64 (word_of_nat (length bs)) @ bs"

lemma emits_string [emits_rules]:
  "emits (sw_write_string bs) (string_bytes bs)" "emits (sw_write_bytes bs) (string_bytes bs)"
  by (simp_all add: sw_write_string_def sw_write_bytes_def string_bytes_def emits_sbind emits_fixed emits_put)

fun delta_bytes :: "u32 \<Rightarrow> u32 list \<Rightarrow> bytes" where
  "delta_bytes previous [] = []"
| "delta_bytes previous (v # vs) = encode_u64 (ucast (v - previous)) @ delta_bytes v vs"

lemma emits_deltas [emits_rules]: "emits (write_deltas p vs) (delta_bytes p vs)"
  by (induction vs arbitrary: p) (auto intro: emits_rules)

lemma emits_delta_u32s [emits_rules]:
  "emits (sw_write_delta_compressed_u32s vs) (encode_u64 (word_of_nat (length vs)) @ delta_bytes 0 vs)"
  by (cases "vs = []") (auto simp: sw_write_delta_compressed_u32s_def intro: emits_rules)

fun entry_bytes :: "(bytes \<times> u64) list \<Rightarrow> bytes" where
  "entry_bytes [] = []"
| "entry_bytes ((k, v) # es) = string_bytes k @ le_bytes 8 (unat v) @ entry_bytes es"

lemma emits_entries [emits_rules]: "emits (write_entries es) (entry_bytes es)"
  by (induction es) (auto intro!: emits_rules)

lemma emits_map [emits_rules]:
  "emits (sw_write_string_u64_map es) (encode_u64 (word_of_nat (length es)) @ entry_bytes es)"
  by (auto simp: sw_write_string_u64_map_def intro!: emits_rules)

end
