(* ===== verification/Struct_Reader.thy ===== *)
theory Struct_Reader
  imports Struct_Writer
begin

text \<open>
  Structured binary input, \<open>StructReader\<close> of \<^verbatim>\<open>laurus/src/storage/structured.rs\<close>, with the bounds of
  \<^verbatim>\<open>laurus/src/util/alloc_bounds.rs\<close> on every length read from a file, and the verification of
  footers. \<open>reads\<close> says what an operation returns at a place of a file and how far it goes.
\<close>

section \<open>Bounds on lengths read from a file\<close>

text \<open>A \<open>usize\<close> has 64 bits, so \<open>checked_usize\<close> lets every \<open>u64\<close> through.\<close>

definition checked_usize :: "u64 \<Rightarrow> string \<Rightarrow> nat res" where
  "checked_usize v what = Inr (unat v)"

definition checked_capacity_u64 :: "u64 \<Rightarrow> nat \<Rightarrow> nat \<Rightarrow> string \<Rightarrow> nat res" where
  "checked_capacity_u64 count min_stride available what =
     (if unat count > available div max min_stride 1
      then Inl (Index (what @ '': header declares more elements than fit''))
      else checked_usize count what)"

definition checked_len_u64 :: "u64 \<Rightarrow> nat \<Rightarrow> string \<Rightarrow> nat res" where
  "checked_len_u64 len available what =
     (if unat len > available then Inl (Index (what @ '': header declares more bytes than are left'')) 
      else checked_usize len what)"

definition checked_len :: "nat \<Rightarrow> nat \<Rightarrow> string \<Rightarrow> nat res" where
  "checked_len len available what = checked_len_u64 (word_of_nat len) available what"

section \<open>State\<close>

text \<open>
  The input is its content and cursor, and whether it lends its bytes as a slice. The hasher is the
  bytes it has hashed.
\<close>

record struct_reader =
  sr_content :: bytes
  sr_cursor :: nat
  sr_lends :: bool
  sr_hashed :: bytes
  sr_sequential :: bool
  sr_position :: nat
  sr_file_size :: nat
  sr_trailer_len :: "nat option"

definition struct_reader_new :: "bytes \<Rightarrow> bool \<Rightarrow> struct_reader" where
  "struct_reader_new content lends = \<lparr>sr_content = content, sr_cursor = 0, sr_lends = lends, sr_hashed = [],
     sr_sequential = True, sr_position = 0, sr_file_size = length content, sr_trailer_len = None\<rparr>"

definition sr_remaining :: "struct_reader \<Rightarrow> nat" where
  "sr_remaining s = sr_file_size s - sr_position s"

text \<open>\<open>read_exact\<close> of the input, which fails at its end.\<close>

definition read_exact :: "nat \<Rightarrow> (struct_reader, bytes) io" where
  "read_exact n s =
     (if sr_cursor s + n \<le> length (sr_content s)
      then (Inr (take n (drop (sr_cursor s) (sr_content s))), s\<lparr>sr_cursor := sr_cursor s + n\<rparr>)
      else (Inl (Io ''failed to fill whole buffer''), s\<lparr>sr_cursor := length (sr_content s)\<rparr>))"

definition sr_update_checksum :: "bytes \<Rightarrow> struct_reader \<Rightarrow> struct_reader" where
  "sr_update_checksum bs s = (if sr_sequential s then s\<lparr>sr_hashed := sr_hashed s @ bs\<rparr> else s)"

definition took :: "bytes \<Rightarrow> struct_reader \<Rightarrow> struct_reader" where
  "took bs s = (sr_update_checksum bs s)\<lparr>sr_position := sr_position s + length bs\<rparr>"

definition sr_seek_start :: "nat \<Rightarrow> (struct_reader, nat) io" where
  "sr_seek_start to s =
     (Inr to, s\<lparr>sr_cursor := to, sr_sequential := (sr_sequential s \<and> to = sr_position s), sr_position := to\<rparr>)"

section \<open>Fields\<close>

text \<open>A field of fixed length is read, hashed and counted.\<close>

definition read_fixed :: "nat \<Rightarrow> (bytes \<Rightarrow> 'a) \<Rightarrow> (struct_reader, 'a) io" where
  "read_fixed n f = sbind (read_exact n) (\<lambda>bs. sbind (modify (took bs)) (\<lambda>_. ret (f bs)))"

definition sr_read_u8 :: "(struct_reader, u8) io" where
  "sr_read_u8 = read_fixed 1 hd"

definition sr_read_u16 :: "(struct_reader, u16) io" where
  "sr_read_u16 = read_fixed 2 (\<lambda>bs. word_of_nat (from_le bs))"

definition sr_read_u32 :: "(struct_reader, u32) io" where
  "sr_read_u32 = read_fixed 4 (\<lambda>bs. word_of_nat (from_le bs))"

definition sr_read_u64 :: "(struct_reader, u64) io" where
  "sr_read_u64 = read_fixed 8 (\<lambda>bs. word_of_nat (from_le bs))"

definition sr_read_f32 :: "(struct_reader, u32) io" where
  "sr_read_f32 = read_fixed 4 (\<lambda>bs. word_of_nat (from_le bs))"

definition sr_read_f64 :: "(struct_reader, u64) io" where
  "sr_read_f64 = read_fixed 8 (\<lambda>bs. word_of_nat (from_le bs))"

text \<open>The bytes of a varint, at most ten; the argument counts those that may still come.\<close>

fun varint_bytes :: "nat \<Rightarrow> bytes \<Rightarrow> (struct_reader, bytes) io" where
  "varint_bytes 0 buf = fail (Other ''VarInt overflow'')"
| "varint_bytes (Suc n) buf =
     sbind (read_exact 1) (\<lambda>b.
       let buf' = buf @ b
       in if hd b AND 0x80 = 0 then ret buf'
          else if n = 0 then fail (Other ''VarInt overflow'')
          else varint_bytes n buf')"

definition sr_read_varint :: "(struct_reader, u64) io" where
  "sr_read_varint = sbind (varint_bytes 10 []) (\<lambda>buf.
     case decode_u64 buf of
       Inl e \<Rightarrow> fail e
     | Inr (v, _) \<Rightarrow> sbind (modify (took buf)) (\<lambda>_. ret v))"

definition lift_res :: "'a res \<Rightarrow> ('s, 'a) io" where
  "lift_res r = (case r of Inl e \<Rightarrow> fail e | Inr x \<Rightarrow> ret x)"

text \<open>\<open>String::from_utf8\<close>: the well-formed byte sequences of Unicode, table 3-7.\<close>

fun valid_utf8 :: "bytes \<Rightarrow> bool" where
  "valid_utf8 [] = True"
| "valid_utf8 (a # bs) =
     (let tail = (\<lambda>b. 0x80 \<le> b \<and> b \<le> (0xBF :: u8)) in
      if a \<le> 0x7F then valid_utf8 bs
      else case bs of
        [] \<Rightarrow> False
      | b # bs1 \<Rightarrow>
          if 0xC2 \<le> a \<and> a \<le> 0xDF then tail b \<and> valid_utf8 bs1
          else case bs1 of
            [] \<Rightarrow> False
          | c # bs2 \<Rightarrow>
              if a = 0xE0 then 0xA0 \<le> b \<and> b \<le> 0xBF \<and> tail c \<and> valid_utf8 bs2
              else if a = 0xED then 0x80 \<le> b \<and> b \<le> 0x9F \<and> tail c \<and> valid_utf8 bs2
              else if 0xE1 \<le> a \<and> a \<le> 0xEF then tail b \<and> tail c \<and> valid_utf8 bs2
              else case bs2 of
                [] \<Rightarrow> False
              | d # bs3 \<Rightarrow>
                  (if a = 0xF0 then 0x90 \<le> b \<and> b \<le> 0xBF
                   else if a = 0xF4 then 0x80 \<le> b \<and> b \<le> 0x8F
                   else 0xF1 \<le> a \<and> a \<le> 0xF3 \<and> tail b) \<and> tail c \<and> tail d \<and> valid_utf8 bs3)"

text \<open>A field whose length comes from the file is bounded before it is read.\<close>

definition sr_read_raw :: "nat \<Rightarrow> (struct_reader, bytes) io" where
  "sr_read_raw n s = sbind (lift_res (checked_len n (sr_remaining s) ''StructReader::read_raw length''))
     (\<lambda>n. read_fixed n id) s"

definition sr_read_bytes :: "(struct_reader, bytes) io" where
  "sr_read_bytes = sbind sr_read_varint (\<lambda>len s.
     sbind (lift_res (checked_len_u64 len (sr_remaining s) ''StructReader::read_bytes length''))
       (\<lambda>n. read_fixed n id) s)"

definition sr_read_string :: "(struct_reader, bytes) io" where
  "sr_read_string = sbind sr_read_varint (\<lambda>len s.
     sbind (lift_res (checked_len_u64 len (sr_remaining s) ''StructReader::read_string length''))
       (\<lambda>n. sbind (read_fixed n id) (\<lambda>bs.
          if valid_utf8 bs then ret bs else fail (Storage ''Invalid UTF-8''))) s)"

text \<open>\<open>read_raw_with\<close> borrows the bytes when the input lends enough of them.\<close>

definition sr_read_raw_with :: "nat \<Rightarrow> (bytes \<Rightarrow> 'a) \<Rightarrow> (struct_reader, 'a) io" where
  "sr_read_raw_with n f s =
     (let slice = drop (sr_cursor s) (sr_content s)
      in if sr_lends s \<and> length slice \<ge> n
         then let chunk = take n slice
              in (Inr (f chunk), (sr_update_checksum chunk s)\<lparr>sr_position := sr_position s + n,
                    sr_cursor := sr_cursor s + n\<rparr>)
         else sbind (sr_read_raw n) (\<lambda>bs. ret (f bs)) s)"

text \<open>A counted loop: \<open>for _ in 0..n\<close> pushing what each round returns.\<close>

fun repeat_read :: "nat \<Rightarrow> ('s, 'a) io \<Rightarrow> ('s, 'a list) io" where
  "repeat_read 0 m = ret []"
| "repeat_read (Suc n) m = sbind m (\<lambda>x. sbind (repeat_read n m) (\<lambda>xs. ret (x # xs)))"

fun read_deltas :: "nat \<Rightarrow> u32 \<Rightarrow> (struct_reader, u32 list) io" where
  "read_deltas 0 previous = ret []"
| "read_deltas (Suc n) previous = sbind sr_read_varint (\<lambda>delta.
     let v = previous + ucast delta in sbind (read_deltas n v) (\<lambda>vs. ret (v # vs)))"

definition sr_read_delta_compressed_u32s :: "(struct_reader, u32 list) io" where
  "sr_read_delta_compressed_u32s = sbind sr_read_varint (\<lambda>len s.
     sbind (lift_res (checked_capacity_u64 len 1 (sr_remaining s) ''StructReader::read_delta_compressed_u32s count''))
       (\<lambda>n. if n = 0 then ret [] else read_deltas n 0) s)"

text \<open>The entries of the map in the order they are inserted: a later key replaces an earlier one.\<close>

definition sr_read_string_u64_map :: "(struct_reader, (bytes \<times> u64) list) io" where
  "sr_read_string_u64_map = sbind sr_read_varint (\<lambda>len s.
     sbind (lift_res (checked_capacity_u64 len (1 + 8) (sr_remaining s) ''StructReader::read_string_u64_map count''))
       (\<lambda>n. repeat_read n (sbind sr_read_string (\<lambda>k. sbind sr_read_u64 (\<lambda>v. ret (k, v))))) s)"

section \<open>The trailer\<close>

datatype checksum_status = Verified | Legacy u32 | Mismatch

definition vouches_for :: "(bytes \<Rightarrow> u32) \<Rightarrow> checksum_status \<Rightarrow> bytes \<Rightarrow> bool" where
  "vouches_for crc status last_write =
     (case status of Verified \<Rightarrow> True | Legacy stored \<Rightarrow> stored = crc last_write | Mismatch \<Rightarrow> False)"

definition LEGACY_TRAILER_LEN :: nat where "LEGACY_TRAILER_LEN = 4"

definition u32_at :: "nat \<Rightarrow> bytes \<Rightarrow> u32" where
  "u32_at n bs = word_of_nat (from_le (take 4 (drop n bs)))"

text \<open>The peek of \<open>trailer_len\<close> puts the cursor back, so the reader stays sequential.\<close>

definition trailer_len :: "(struct_reader, nat) io" where
  "trailer_len s =
     (case sr_trailer_len s of
        Some len \<Rightarrow> (Inr len, s)
      | None \<Rightarrow>
          if sr_file_size s \<ge> FOOTER_LEN then
            sbind (\<lambda>s. read_exact 4 (s\<lparr>sr_cursor := sr_file_size s - LEGACY_TRAILER_LEN\<rparr>)) (\<lambda>last s.
              let len = (if from_le last = FOOTER_MAGIC then FOOTER_LEN else LEGACY_TRAILER_LEN)
              in (Inr len, s\<lparr>sr_cursor := sr_position s, sr_trailer_len := Some len\<rparr>)) s
          else (Inr LEGACY_TRAILER_LEN, s\<lparr>sr_trailer_len := Some LEGACY_TRAILER_LEN\<rparr>))"

definition is_eof :: "(struct_reader, bool) io" where
  "is_eof = sbind trailer_len (\<lambda>len s. (Inr (sr_position s \<ge> sr_file_size s - len), s))"

definition peek_u32 :: "(struct_reader, u32 option) io" where
  "peek_u32 s =
     (if sr_remaining s < 4 then (Inr None, s)
      else sbind (read_exact 4) (\<lambda>bs s.
             (Inr (Some (word_of_nat (from_le bs))), s\<lparr>sr_cursor := sr_position s\<rparr>)) s)"

definition verify_checksum :: "(bytes \<Rightarrow> u32) \<Rightarrow> (struct_reader, checksum_status) io" where
  "verify_checksum crc s =
     (if \<not> sr_sequential s
      then fail (internal ''StructReader: a checksum cannot be verified after a seek'') s
      else let computed = crc (sr_hashed s)
           in if sr_remaining s = FOOTER_LEN then
                sbind (read_exact 4) (\<lambda>stored. sbind (read_exact 4) (\<lambda>magic.
                  sbind (modify (\<lambda>s. s\<lparr>sr_position := sr_position s + FOOTER_LEN\<rparr>)) (\<lambda>_.
                    ret (if from_le magic = FOOTER_MAGIC \<and> from_le stored = unat computed
                         then Verified else Mismatch)))) s
              else if sr_remaining s = LEGACY_TRAILER_LEN then
                sbind (read_exact 4) (\<lambda>stored.
                  sbind (modify (\<lambda>s. s\<lparr>sr_position := sr_position s + LEGACY_TRAILER_LEN\<rparr>)) (\<lambda>_.
                    ret (if from_le stored = FOOTER_MAGIC then Mismatch
                         else Legacy (word_of_nat (from_le stored))))) s
              else (Inr Mismatch, s))"

definition expect_checksum :: "(bytes \<Rightarrow> u32) \<Rightarrow> string \<Rightarrow> (struct_reader, unit) io" where
  "expect_checksum crc what = sbind (verify_checksum crc) (\<lambda>status.
     if status = Mismatch then fail (Index (what @ '': checksum mismatch'')) else ret ())"

text \<open>
  \<open>verify_file_checksum\<close> of an input that can be read to its end: both ways it hashes, from a slice
  or in chunks, cover the bytes before the footer.
\<close>

fun hash_chunks :: "nat \<Rightarrow> bytes \<Rightarrow> bytes \<Rightarrow> bytes" where
  "hash_chunks chunk hashed [] = hashed"
| "hash_chunks chunk hashed (b # bs) =
     (let n = min (length (b # bs)) (max chunk 1)
      in hash_chunks chunk (hashed @ take n (b # bs)) (drop n (b # bs)))"

definition VERIFY_CHUNK :: nat where "VERIFY_CHUNK = 64 * 1024"

definition verify_file_checksum :: "(bytes \<Rightarrow> u32) \<Rightarrow> bool \<Rightarrow> bytes \<Rightarrow> checksum_status" where
  "verify_file_checksum crc lends content =
     (let size = length content in
      if size < LEGACY_TRAILER_LEN then Mismatch
      else let last = u32_at (size - LEGACY_TRAILER_LEN) content
           in if size < FOOTER_LEN \<or> unat last \<noteq> FOOTER_MAGIC then Legacy last
              else let payload = take (size - FOOTER_LEN) content;
                       stored = u32_at (size - FOOTER_LEN) content;
                       hashed = (if lends then payload else hash_chunks VERIFY_CHUNK [] payload)
                   in if crc hashed = stored then Verified else Mismatch)"

definition ends_in_footer :: "bytes \<Rightarrow> bool" where
  "ends_in_footer content \<longleftrightarrow> length content \<ge> FOOTER_LEN \<and>
     unat (u32_at (length content - LEGACY_TRAILER_LEN) content) = FOOTER_MAGIC"

section \<open>What an operation reads\<close>

text \<open>A reader whose cursor and position agree, and that has hashed all it passed while sequential.\<close>

definition sr_wf :: "struct_reader \<Rightarrow> bool" where
  "sr_wf s \<longleftrightarrow> sr_cursor s = sr_position s \<and> sr_position s \<le> length (sr_content s) \<and>
     sr_file_size s = length (sr_content s) \<and>
     (sr_sequential s \<longrightarrow> sr_hashed s = take (sr_position s) (sr_content s))"

definition rest_of :: "struct_reader \<Rightarrow> bytes" where
  "rest_of s = drop (sr_position s) (sr_content s)"

definition advanced :: "nat \<Rightarrow> struct_reader \<Rightarrow> struct_reader" where
  "advanced n s = (took (take n (rest_of s)) s)\<lparr>sr_cursor := sr_cursor s + n\<rparr>"

text \<open>
  In front of \<open>bs\<close>, and then \<open>rest\<close> up to the end of the file, the operation returns \<open>x\<close> and stands
  behind \<open>bs\<close>.
\<close>

definition reads :: "(struct_reader, 'a) io \<Rightarrow> bytes \<Rightarrow> bytes \<Rightarrow> 'a \<Rightarrow> bool" where
  "reads m bs rest x \<longleftrightarrow>
     (\<forall>s. sr_wf s \<longrightarrow> rest_of s = bs @ rest \<longrightarrow> m s = (Inr x, advanced (length bs) s))"

named_theorems reads_rules \<open>what each field reads\<close>

lemma sr_wf_new [simp]: "sr_wf (struct_reader_new content lends)" "rest_of (struct_reader_new content lends) = content"
  by (simp_all add: sr_wf_def struct_reader_new_def rest_of_def)

lemma remaining_rest: "sr_wf s \<Longrightarrow> sr_remaining s = length (rest_of s)"
  by (simp add: sr_wf_def sr_remaining_def rest_of_def)

lemma advanced_0 [simp]: "sr_wf s \<Longrightarrow> advanced 0 s = s"
  by (auto simp: advanced_def took_def sr_update_checksum_def)

lemma advanced_frame [simp]:
  "sr_content (advanced n s) = sr_content s" "sr_file_size (advanced n s) = sr_file_size s"
  "sr_cursor (advanced n s) = sr_cursor s + n" "sr_lends (advanced n s) = sr_lends s"
  "sr_sequential (advanced n s) = sr_sequential s" "sr_trailer_len (advanced n s) = sr_trailer_len s"
  "sr_position (advanced n s) = sr_position s + min (length (rest_of s)) n"
  "sr_hashed (advanced n s) = (if sr_sequential s then sr_hashed s @ take n (rest_of s) else sr_hashed s)"
  by (simp_all add: advanced_def took_def sr_update_checksum_def)

lemma rest_length: "sr_wf s \<Longrightarrow> sr_position s + length (rest_of s) = length (sr_content s)"
  by (simp add: sr_wf_def rest_of_def)

lemma rest_of_advanced: "n \<le> length (rest_of s) \<Longrightarrow> rest_of (advanced n s) = drop n (rest_of s)"
  by (simp add: rest_of_def min_absorb2 add.commute)

lemma advanced_wf:
  assumes "sr_wf s" "n \<le> length (rest_of s)"
  shows "sr_wf (advanced n s)" "rest_of (advanced n s) = drop n (rest_of s)"
proof -
  have "take (sr_position s + n) (sr_content s) = take (sr_position s) (sr_content s) @ take n (rest_of s)"
    by (simp add: take_add rest_of_def)
  moreover have "sr_position s + n \<le> length (sr_content s)" using rest_length [OF assms(1)] assms(2) by simp
  ultimately show "sr_wf (advanced n s)" using assms by (simp add: sr_wf_def min_absorb2)
qed (rule rest_of_advanced [OF assms(2)])

lemma advanced_add:
  assumes "n + m \<le> length (rest_of s)"
  shows "advanced m (advanced n s) = advanced (n + m) s"
proof -
  have r: "rest_of (advanced n s) = drop n (rest_of s)" using assms by (simp add: rest_of_advanced)
  have a: "advanced m (advanced n s) = (took (take m (drop n (rest_of s))) (advanced n s))\<lparr>sr_cursor := sr_cursor s + n + m\<rparr>"
    by (simp add: advanced_def [of m] r)
  have "take (n + m) (rest_of s) = take n (rest_of s) @ take m (drop n (rest_of s))" by (simp add: take_add)
  with assms show ?thesis
    unfolding a by (cases "sr_sequential s") (simp_all add: took_def sr_update_checksum_def advanced_def min_absorb2)
qed

lemma reads_sbind [reads_rules]:
  assumes "reads m as (bs @ rest) x" "reads (f x) bs rest y"
  shows "reads (sbind m f) (as @ bs) rest y"
  unfolding reads_def
proof (intro allI impI)
  fix s
  assume s: "sr_wf s" "rest_of s = (as @ bs) @ rest"
  then have m: "m s = (Inr x, advanced (length as) s)" using assms(1) by (simp add: reads_def)
  have "sr_wf (advanced (length as) s)" "rest_of (advanced (length as) s) = bs @ rest"
    using advanced_wf [OF s(1), of "length as"] s(2) by simp_all
  then have "f x (advanced (length as) s) = (Inr y, advanced (length bs) (advanced (length as) s))"
    using assms(2) by (simp add: reads_def)
  with m s(2) show "sbind m f s = (Inr y, advanced (length (as @ bs)) s)"
    by (simp add: sbind_def advanced_add)
qed

lemma reads_ret [reads_rules]: "reads (ret x) [] rest x"
  by (simp add: reads_def ret_def)

text \<open>An operation that looks at the state first, which is in front of the bytes.\<close>

lemma reads_state:
  assumes "\<And>s. sr_wf s \<Longrightarrow> rest_of s = bs @ rest \<Longrightarrow> reads (m s) bs rest x"
  shows "reads (\<lambda>s. m s s) bs rest x"
  using assms by (auto simp: reads_def)

lemma reads_fixed: "reads (read_fixed (length bs) f) bs rest (f bs)"
  unfolding reads_def
proof (intro allI impI)
  fix s
  assume s: "sr_wf s" "rest_of s = bs @ rest"
  then have "drop (sr_cursor s) (sr_content s) = bs @ rest" "sr_cursor s + length bs \<le> length (sr_content s)"
    using rest_length [OF s(1)] by (simp_all add: sr_wf_def rest_of_def)
  with s show "read_fixed (length bs) f s = (Inr (f bs), advanced (length bs) s)"
    by (simp add: read_fixed_def sbind_def read_exact_def modify_def ret_def advanced_def took_def
        sr_update_checksum_def)
qed

lemma reads_fixed_len: "length bs = n \<Longrightarrow> y = f bs \<Longrightarrow> reads (read_fixed n f) bs rest y"
  using reads_fixed by blast

lemma le_bytes_word: "word_of_nat (from_le (le_bytes 2 (unat a))) = (a :: u16)"
  "word_of_nat (from_le (le_bytes 4 (unat b))) = (b :: u32)" "word_of_nat (from_le (le_bytes 8 (unat c))) = (c :: u64)"
proof -
  have "unat a < 256 ^ 2" "unat b < 256 ^ 4" "unat c < 256 ^ 8"
    using unsigned_less [of a] unsigned_less [of b] unsigned_less [of c] by simp_all
  then show "word_of_nat (from_le (le_bytes 2 (unat a))) = a" "word_of_nat (from_le (le_bytes 4 (unat b))) = b"
    "word_of_nat (from_le (le_bytes 8 (unat c))) = c"
    by (simp_all add: from_le_le_bytes_small)
qed

lemma reads_ints [reads_rules]:
  "reads sr_read_u8 [a] rest a" "reads sr_read_u16 (le_bytes 2 (unat b)) rest b"
  "reads sr_read_u32 (le_bytes 4 (unat c)) rest c" "reads sr_read_u64 (le_bytes 8 (unat d)) rest d"
  "reads sr_read_f32 (le_bytes 4 (unat c)) rest c" "reads sr_read_f64 (le_bytes 8 (unat d)) rest d"
  unfolding sr_read_u8_def sr_read_u16_def sr_read_u32_def sr_read_u64_def sr_read_f32_def sr_read_f64_def
  by (rule reads_fixed_len; simp add: le_bytes_word)+

text \<open>The encoder flags every byte but the last.\<close>

lemma encode_u64_shape:
  "\<exists>init last. encode_u64 v = init @ [last] \<and> last AND 0x80 = 0 \<and> (\<forall>b \<in> set init. b AND 0x80 \<noteq> 0)"
proof (induction v rule: encode_u64.induct)
  case (1 v)
  show ?case
  proof (cases "drop_bit 7 v = 0")
    case True
    then have "encode_u64 v = [] @ [ucast (v AND 0x7F)]" by (simp add: encode_u64.simps [of v])
    with low_bits_no_flag show ?thesis by (metis empty_iff list.set(1))
  next
    case False
    then obtain i l where il: "encode_u64 (drop_bit 7 v) = i @ [l]" "l AND 0x80 = 0" "\<forall>b \<in> set i. b AND 0x80 \<noteq> 0"
      using 1 by blast
    have "encode_u64 v = ((ucast (v AND 0x7F) OR 0x80) # i) @ [l]"
      using False il(1) by (simp add: encode_u64.simps [of v] Let_def)
    with il(2,3) flag_set show ?thesis
      by (intro exI [of _ "(ucast (v AND 0x7F) OR 0x80) # i"] exI [of _ l]) auto
  qed
qed

lemma varint_bytes_reads:
  assumes "l AND 0x80 = 0" "\<forall>b \<in> set init. b AND 0x80 \<noteq> 0"
  shows "length init < n \<Longrightarrow> drop (sr_cursor s) (sr_content s) = init @ l # rest \<Longrightarrow>
    varint_bytes n buf s = (Inr (buf @ init @ [l]), s\<lparr>sr_cursor := sr_cursor s + length init + 1\<rparr>)"
  using assms(2)
proof (induction init arbitrary: n buf s)
  case Nil
  then obtain k where n: "n = Suc k" by (cases n) auto
  have "sr_cursor s + 1 \<le> length (sr_content s)"
    using arg_cong [OF Nil.prems(2), of length] by simp
  with Nil.prems(2) assms(1) show ?case by (simp add: n sbind_def read_exact_def ret_def)
next
  case (Cons b init)
  then obtain k where n: "n = Suc k" "k \<noteq> 0" by (cases n) auto
  let ?s = "s\<lparr>sr_cursor := sr_cursor s + 1\<rparr>"
  have "sr_cursor s + 1 \<le> length (sr_content s)"
    using arg_cong [OF Cons.prems(2), of length] by simp
  then have step: "varint_bytes n buf s = varint_bytes k (buf @ [b]) ?s"
    using Cons.prems(2,3) n by (simp add: sbind_def read_exact_def)
  have "drop (sr_cursor ?s) (sr_content ?s) = init @ l # rest"
    using Cons.prems(2) by (simp flip: tl_drop add: drop_Suc [symmetric])
      (metis append_Cons drop_Suc list.sel(3) tl_drop)
  with Cons.IH [of k ?s "buf @ [b]"] Cons.prems n show ?case unfolding step by simp
qed

lemma reads_varint [reads_rules]: "reads sr_read_varint (encode_u64 v) rest v"
  unfolding reads_def
proof (intro allI impI)
  fix s
  assume s: "sr_wf s" "rest_of s = encode_u64 v @ rest"
  obtain i l where il: "encode_u64 v = i @ [l]" "l AND 0x80 = 0" "\<forall>b \<in> set i. b AND 0x80 \<noteq> 0"
    using encode_u64_shape by blast
  have len: "length i < 10" using length_encode_u64_bound [OF room_0, of v] by (simp add: il(1))
  have "drop (sr_cursor s) (sr_content s) = i @ l # rest" using s il(1) by (simp add: sr_wf_def rest_of_def)
  from varint_bytes_reads [OF il(2,3) len this, of "[]"]
  have v: "varint_bytes 10 [] s = (Inr (encode_u64 v), s\<lparr>sr_cursor := sr_cursor s + length (encode_u64 v)\<rparr>)"
    by (simp add: il(1))
  have "decode_u64 (encode_u64 v) = Inr (v, length (encode_u64 v))"
    using decode_loop_encode [OF room_0, where r = 0 and n = 0 and rest = "[]" and v = v] by (simp add: decode_u64_def)
  with v s show "sr_read_varint s = (Inr v, advanced (length (encode_u64 v)) s)"
    by (simp add: sr_read_varint_def sbind_def modify_def ret_def advanced_def took_def sr_update_checksum_def
        del: varint_bytes.simps)
qed

lemma reads_lift [reads_rules]: "reads (lift_res (Inr x)) [] rest x"
  by (simp add: lift_res_def reads_ret)

lemma reads_sized:
  assumes "length bs < 2 ^ 64"
    and "\<And>s. sr_wf s \<Longrightarrow> rest_of s = bs @ rest \<Longrightarrow> reads (f (word_of_nat (length bs)) s) bs rest x"
  shows "reads (sbind sr_read_varint (\<lambda>len s. f len s s)) (string_bytes bs) rest x"
  unfolding string_bytes_def
  by (rule reads_sbind [OF reads_varint]) (rule reads_state, rule assms(2))

lemma reads_raw [reads_rules]:
  assumes "length bs < 2 ^ 64"
  shows "reads (sr_read_raw (length bs)) bs rest bs"
proof -
  have "reads (sbind (lift_res (checked_len (length bs) (sr_remaining s) what)) (\<lambda>n. read_fixed n id)) bs rest bs"
    if "sr_wf s" "rest_of s = bs @ rest" for s what
  proof -
    have "checked_len (length bs) (sr_remaining s) what = Inr (length bs)"
      using that assms by (simp add: remaining_rest checked_len_def checked_len_u64_def checked_usize_def unat_of_nat)
    then show ?thesis using reads_sbind [OF reads_lift, of _ bs rest] reads_fixed_len [of bs "length bs" bs id rest]
      by (simp add: reads_sbind [OF reads_lift, where bs = bs, simplified])
  qed
  from reads_state [OF this] show ?thesis unfolding sr_read_raw_def [abs_def] .
qed

end
