(* ===== verification/Struct_File.thy ===== *)
theory Struct_File
  imports Struct_Reader
begin

text \<open>
  Whole structured files: what the compound fields of \<^verbatim>\<open>laurus/src/storage/structured.rs\<close> read back,
  the footer that \<open>close\<close> writes and the two ways of verifying it, headers written last, and the block
  layer on top.
\<close>

section \<open>Compound fields\<close>

lemma word_length [simp]: "length bs < 2 ^ 64 \<Longrightarrow> unat (word_of_nat (length bs) :: u64) = length bs"
  by (simp add: unat_of_nat)

lemma lift_checked:
  "unat len \<le> available \<Longrightarrow> lift_res (checked_len_u64 len available what) = ret (unat len)"
  "unat len \<le> available div max k 1 \<Longrightarrow> lift_res (checked_capacity_u64 len k available what) = ret (unat len)"
  by (simp_all add: checked_len_u64_def checked_capacity_u64_def checked_usize_def lift_res_def)

lemma sbind_ret [simp]: "sbind (ret x) f = f x"
  by (simp add: sbind_def ret_def fun_eq_iff)

lemma reads_sbind0: "reads m bs rest x \<Longrightarrow> reads (f x) [] rest y \<Longrightarrow> reads (sbind m f) bs rest y"
  using reads_sbind [where as = bs and bs = "[]"] by simp

lemma reads_then_ret: "reads m bs rest x \<Longrightarrow> y = f x \<Longrightarrow> reads (sbind m (\<lambda>x. ret (f x))) bs rest y"
  by (rule reads_sbind0) (simp, simp, rule reads_ret)

lemma reads_sized_len:
  assumes "length bs < 2 ^ 64" "reads (f (length bs)) bs rest x"
  shows "reads (sbind sr_read_varint (\<lambda>len s. sbind (lift_res (checked_len_u64 len (sr_remaining s) what)) f s))
    (string_bytes bs) rest x"
proof (rule reads_sized [where
    f = "\<lambda>len s. sbind (lift_res (checked_len_u64 len (sr_remaining s) what)) f", OF assms(1)])
  fix s
  assume "sr_wf s" "rest_of s = bs @ rest"
  then have "(lift_res (checked_len_u64 (word_of_nat (length bs)) (sr_remaining s) what) :: (struct_reader, nat) io) =
      ret (length bs)"
    using assms(1) by (simp add: remaining_rest lift_checked)
  with assms(2) show "reads (sbind (lift_res (checked_len_u64 (word_of_nat (length bs)) (sr_remaining s) what)) f) bs rest x"
    by simp
qed

lemma reads_string_bytes [reads_rules]:
  assumes "length bs < 2 ^ 64" "valid_utf8 bs"
  shows "reads sr_read_string (string_bytes bs) rest bs"
proof -
  have "reads (sbind (read_fixed (length bs) id) (\<lambda>bs. if valid_utf8 bs then ret bs else fail (Storage ''Invalid UTF-8''))) bs rest bs"
    using reads_ret [of bs] assms(2) by (intro reads_sbind0 [OF reads_fixed_len [where f = id and y = bs]]) simp_all
  with assms(1) show ?thesis unfolding sr_read_string_def by (rule reads_sized_len)
qed

lemma reads_bytes [reads_rules]:
  "length bs < 2 ^ 64 \<Longrightarrow> reads sr_read_bytes (string_bytes bs) rest bs"
  unfolding sr_read_bytes_def by (rule reads_sized_len) (simp_all add: reads_fixed_len)

lemma ucast_u64_u32 [simp]: "ucast (ucast w :: u64) = (w :: u32)"
  by (rule bit_word_eqI) (simp add: bit_simps)

lemma reads_deltas: "reads (read_deltas (length vs) p) (delta_bytes p vs) rest vs"
proof (induction vs arbitrary: p)
  case (Cons v vs)
  show ?case
    by (auto intro!: reads_sbind [OF reads_varint] reads_then_ret [OF Cons] simp: Let_def)
qed (simp add: reads_ret)

lemma encode_u64_nonempty: "0 < length (encode_u64 v)"
  using encode_u64_shape [of v] by auto

lemma length_delta_bytes: "length vs \<le> length (delta_bytes p vs)"
proof (induction vs arbitrary: p)
  case (Cons v vs)
  then show ?case using Cons [of v] encode_u64_nonempty [of "ucast (v - p)"]
    unfolding delta_bytes.simps length_append list.size by linarith
qed simp

lemma reads_counted:
  assumes "n < 2 ^ 64" "n * max k 1 \<le> length bs + length rest"
    and "reads (f n) bs rest x"
  shows "reads (sbind sr_read_varint (\<lambda>len s. sbind (lift_res (checked_capacity_u64 len k (sr_remaining s) what)) f s))
    (encode_u64 (word_of_nat n) @ bs) rest x"
proof (rule reads_sbind [OF reads_varint], rule reads_state [where
    m = "\<lambda>s. sbind (lift_res (checked_capacity_u64 (word_of_nat n) k (sr_remaining s) what)) f"])
  fix s
  assume "sr_wf s" "rest_of s = bs @ rest"
  then have "sr_remaining s = length bs + length rest" by (simp add: remaining_rest)
  moreover have "n \<le> (length bs + length rest) div max k 1"
    using assms(2) by (simp add: less_eq_div_iff_mult_less_eq)
  moreover have "unat (word_of_nat n :: u64) = n" using assms(1) by (simp add: unat_of_nat)
  ultimately have "(lift_res (checked_capacity_u64 (word_of_nat n) k (sr_remaining s) what) :: (struct_reader, nat) io) = ret n"
    by (simp add: lift_checked)
  with assms(3) show "reads (sbind (lift_res (checked_capacity_u64 (word_of_nat n) k (sr_remaining s) what)) f) bs rest x"
    by simp
qed

lemma reads_delta_u32s [reads_rules]:
  assumes "length vs < 2 ^ 64"
  shows "reads sr_read_delta_compressed_u32s (encode_u64 (word_of_nat (length vs)) @ delta_bytes 0 vs) rest vs"
  unfolding sr_read_delta_compressed_u32s_def
  using assms length_delta_bytes [of vs 0]
  by (intro reads_counted) (auto simp: reads_ret intro: reads_deltas)

lemma repeat_read_reads:
  assumes "\<And>x rest. x \<in> set xs \<Longrightarrow> reads m (f x) rest x"
  shows "reads (repeat_read (length xs) m) (concat (map f xs)) rest xs"
  using assms by (induction xs) (auto intro!: reads_rules reads_sbind reads_then_ret)

lemma entry_bytes_concat: "entry_bytes es = concat (map (\<lambda>(k, v). string_bytes k @ le_bytes 8 (unat v)) es)"
  by (induction es rule: entry_bytes.induct) auto

lemma length_entry_bytes: "length es * 9 \<le> length (entry_bytes es)"
proof (induction es rule: entry_bytes.induct)
  case (2 k v es)
  then show ?case using encode_u64_nonempty [of "word_of_nat (length k)"]
    by (simp add: string_bytes_def del: length_greater_0_conv)
qed simp

lemma reads_map [reads_rules]:
  assumes "length es < 2 ^ 64" "\<forall>(k, v) \<in> set es. length k < 2 ^ 64 \<and> valid_utf8 k"
  shows "reads sr_read_string_u64_map (encode_u64 (word_of_nat (length es)) @ entry_bytes es) rest es"
  unfolding sr_read_string_u64_map_def
proof (intro reads_counted)
  show "reads (repeat_read (length es) (sbind sr_read_string (\<lambda>k. sbind sr_read_u64 (\<lambda>v. ret (k, v)))))
    (entry_bytes es) rest es"
    unfolding entry_bytes_concat
  proof (rule repeat_read_reads)
    fix x rest
    assume "x \<in> set es"
    then have "length (fst x) < 2 ^ 64" "valid_utf8 (fst x)" using assms(2) by auto
    then have "reads (sbind sr_read_string (\<lambda>k. sbind sr_read_u64 (\<lambda>v. ret (k, v))))
        (string_bytes (fst x) @ le_bytes 8 (unat (snd x))) rest (fst x, snd x)"
      by (intro reads_sbind [OF reads_string_bytes] reads_then_ret [OF reads_ints(4)]) auto
    then show "reads (sbind sr_read_string (\<lambda>k. sbind sr_read_u64 (\<lambda>v. ret (k, v))))
        (case x of (k, v) \<Rightarrow> string_bytes k @ le_bytes 8 (unat v)) rest x" by (simp add: case_prod_beta)
  qed
qed (use assms(1) length_entry_bytes [of es] in auto)

section \<open>The footer\<close>

lemma footer_length [simp]: "length (footer crc p) = FOOTER_LEN"
  by (simp add: footer_def FOOTER_LEN_def)

lemma close_appends_footer:
  assumes "sw_wf s" "sw_reserved_header s = None" "sw_cursor s = length (sw_content s)"
    "length (sw_content s) + FOOTER_LEN \<le> sw_capacity s" "sw_syncs s"
  shows "\<exists>s'. sw_close crc s = (Inr (), s') \<and> sw_content s' = sw_content s @ footer crc (sw_hashed s) \<and> sw_closed s'"
  using assms
  by (simp add: sw_close_def sbind_def write_all_def overwrite_def modify_def sw_wf_def footer_def FOOTER_LEN_def
      Let_def min_absorb1)

lemma read_exact_take:
  "drop (sr_cursor s) (sr_content s) = bs @ rest \<Longrightarrow> sr_cursor s \<le> length (sr_content s) \<Longrightarrow> length bs = n \<Longrightarrow>
   read_exact n s = (Inr bs, s\<lparr>sr_cursor := sr_cursor s + n\<rparr>)"
proof -
  assume a: "drop (sr_cursor s) (sr_content s) = bs @ rest" "sr_cursor s \<le> length (sr_content s)" "length bs = n"
  have "length (sr_content s) - sr_cursor s = n + length rest" using arg_cong [OF a(1), of length] a(3) by simp
  then have "sr_cursor s + n \<le> length (sr_content s)" using a(2) by arith
  with a show ?thesis by (simp add: read_exact_def)
qed

lemma magic_bound: "FOOTER_MAGIC < 256 ^ 4"
  by (simp add: FOOTER_MAGIC_def)

lemma from_le_u32: "from_le (le_bytes 4 (unat (w :: u32))) = unat w"
  using unsigned_less [of w] by (intro from_le_le_bytes_small) simp

text \<open>At the footer, a reader that never seeked compares the checksum of all it passed.\<close>

lemma verify_at_footer:
  assumes "sr_wf s" "sr_sequential s" "rest_of s = le_bytes 4 (unat stored) @ le_bytes 4 FOOTER_MAGIC"
  shows "fst (verify_checksum crc s) =
    Inr (if crc (take (sr_position s) (sr_content s)) = stored then Verified else Mismatch)"
proof -
  let ?s1 = "s\<lparr>sr_cursor := sr_cursor s + 4\<rparr>"
  have len: "length (sr_content s) = sr_position s + 8" using rest_length [OF assms(1)] assms(3) by simp
  have c: "sr_cursor s = sr_position s" "sr_hashed s = take (sr_position s) (sr_content s)"
    using assms(1,2) by (simp_all add: sr_wf_def)
  have d: "drop (sr_cursor s) (sr_content s) = le_bytes 4 (unat stored) @ le_bytes 4 FOOTER_MAGIC"
    using assms(3) c by (simp add: rest_of_def)
  have r1: "read_exact 4 s = (Inr (le_bytes 4 (unat stored)), ?s1)"
    using read_exact_take [OF d] c len by simp
  have "drop (sr_cursor ?s1) (sr_content ?s1) = le_bytes 4 FOOTER_MAGIC @ []"
    using arg_cong [OF d, of "drop 4"] by (simp add: add.commute)
  from read_exact_take [OF this] have r2: "read_exact 4 ?s1 = (Inr (le_bytes 4 FOOTER_MAGIC), ?s1\<lparr>sr_cursor := sr_cursor ?s1 + 4\<rparr>)"
    using c len by simp
  have m: "from_le (le_bytes 4 FOOTER_MAGIC) = FOOTER_MAGIC" by (rule from_le_le_bytes_small [OF magic_bound])
  have "sr_remaining s = FOOTER_LEN" using remaining_rest [OF assms(1)] assms(3) by (simp add: FOOTER_LEN_def)
  then show ?thesis
    using assms(2) r1 r2 c(2)
    by (simp add: verify_checksum_def Let_def sbind_def modify_def ret_def from_le_u32 m)
      (auto simp: word_unat_eq_iff)
qed

text \<open>The same file verified without parsing it: the chunks cover the payload.\<close>

lemma hash_chunks_all: "hash_chunks c h bs = h @ bs"
  by (induction c h bs rule: hash_chunks.induct) (simp add: Let_def)+

lemma verify_file_footer:
  "verify_file_checksum crc lends (payload @ le_bytes 4 (unat stored) @ le_bytes 4 FOOTER_MAGIC) =
     (if crc payload = stored then Verified else Mismatch)"
proof -
  have m: "from_le (le_bytes 4 FOOTER_MAGIC) = FOOTER_MAGIC" by (rule from_le_le_bytes_small [OF magic_bound])
  have "unat (word_of_nat FOOTER_MAGIC :: u32) = FOOTER_MAGIC" by (simp add: unat_of_nat FOOTER_MAGIC_def)
  moreover have "drop (length payload + 4) (payload @ le_bytes 4 (unat stored) @ le_bytes 4 FOOTER_MAGIC) = le_bytes 4 FOOTER_MAGIC"
    by simp
  ultimately show ?thesis
    by (simp add: verify_file_checksum_def Let_def u32_at_def hash_chunks_all m from_le_u32 FOOTER_LEN_def
        LEGACY_TRAILER_LEN_def)
qed

section \<open>Fields of a file\<close>

text \<open>The fields a file is made of, and what writes and reads them; a raw field is read by its length.\<close>

datatype field =
    F_u8 u8 | F_u16 u16 | F_u32 u32 | F_u64 u64 | F_varint u64 | F_f32 u32 | F_f64 u64
  | F_string bytes | F_bytes bytes | F_raw bytes | F_deltas "u32 list" | F_map "(bytes \<times> u64) list"

fun write_field :: "field \<Rightarrow> (struct_writer, unit) io" where
  "write_field (F_u8 v) = sw_write_u8 v"
| "write_field (F_u16 v) = sw_write_u16 v"
| "write_field (F_u32 v) = sw_write_u32 v"
| "write_field (F_u64 v) = sw_write_u64 v"
| "write_field (F_varint v) = sw_write_varint v"
| "write_field (F_f32 v) = sw_write_f32 v"
| "write_field (F_f64 v) = sw_write_f64 v"
| "write_field (F_string bs) = sw_write_string bs"
| "write_field (F_bytes bs) = sw_write_bytes bs"
| "write_field (F_raw bs) = sw_write_raw bs"
| "write_field (F_deltas vs) = sw_write_delta_compressed_u32s vs"
| "write_field (F_map es) = sw_write_string_u64_map es"

fun read_field :: "field \<Rightarrow> (struct_reader, field) io" where
  "read_field (F_u8 _) = sbind sr_read_u8 (\<lambda>v. ret (F_u8 v))"
| "read_field (F_u16 _) = sbind sr_read_u16 (\<lambda>v. ret (F_u16 v))"
| "read_field (F_u32 _) = sbind sr_read_u32 (\<lambda>v. ret (F_u32 v))"
| "read_field (F_u64 _) = sbind sr_read_u64 (\<lambda>v. ret (F_u64 v))"
| "read_field (F_varint _) = sbind sr_read_varint (\<lambda>v. ret (F_varint v))"
| "read_field (F_f32 _) = sbind sr_read_f32 (\<lambda>v. ret (F_f32 v))"
| "read_field (F_f64 _) = sbind sr_read_f64 (\<lambda>v. ret (F_f64 v))"
| "read_field (F_string _) = sbind sr_read_string (\<lambda>v. ret (F_string v))"
| "read_field (F_bytes _) = sbind sr_read_bytes (\<lambda>v. ret (F_bytes v))"
| "read_field (F_raw bs) = sbind (sr_read_raw (length bs)) (\<lambda>v. ret (F_raw v))"
| "read_field (F_deltas _) = sbind sr_read_delta_compressed_u32s (\<lambda>v. ret (F_deltas v))"
| "read_field (F_map _) = sbind sr_read_string_u64_map (\<lambda>v. ret (F_map v))"

fun field_bytes :: "field \<Rightarrow> bytes" where
  "field_bytes (F_u8 v) = [v]"
| "field_bytes (F_u16 v) = le_bytes 2 (unat v)"
| "field_bytes (F_u32 v) = le_bytes 4 (unat v)"
| "field_bytes (F_u64 v) = le_bytes 8 (unat v)"
| "field_bytes (F_varint v) = encode_u64 v"
| "field_bytes (F_f32 v) = le_bytes 4 (unat v)"
| "field_bytes (F_f64 v) = le_bytes 8 (unat v)"
| "field_bytes (F_string bs) = string_bytes bs"
| "field_bytes (F_bytes bs) = string_bytes bs"
| "field_bytes (F_raw bs) = bs"
| "field_bytes (F_deltas vs) = encode_u64 (word_of_nat (length vs)) @ delta_bytes 0 vs"
| "field_bytes (F_map es) = encode_u64 (word_of_nat (length es)) @ entry_bytes es"

text \<open>Strings are UTF-8, and a length fits in 64 bits.\<close>

fun field_ok :: "field \<Rightarrow> bool" where
  "field_ok (F_string bs) \<longleftrightarrow> length bs < 2 ^ 64 \<and> valid_utf8 bs"
| "field_ok (F_bytes bs) \<longleftrightarrow> length bs < 2 ^ 64"
| "field_ok (F_raw bs) \<longleftrightarrow> length bs < 2 ^ 64"
| "field_ok (F_deltas vs) \<longleftrightarrow> length vs < 2 ^ 64"
| "field_ok (F_map es) \<longleftrightarrow> length es < 2 ^ 64 \<and> (\<forall>(k, v) \<in> set es. length k < 2 ^ 64 \<and> valid_utf8 k)"
| "field_ok _ \<longleftrightarrow> True"

fun write_fields :: "field list \<Rightarrow> (struct_writer, unit) io" where
  "write_fields [] = ret ()"
| "write_fields (f # fs) = sbind (write_field f) (\<lambda>_. write_fields fs)"

fun read_fields :: "field list \<Rightarrow> (struct_reader, field list) io" where
  "read_fields [] = ret []"
| "read_fields (f # fs) = sbind (read_field f) (\<lambda>x. sbind (read_fields fs) (\<lambda>xs. ret (x # xs)))"

lemma emits_field: "emits (write_field f) (field_bytes f)"
  by (cases f) (auto intro: emits_rules simp del: sw_write_delta_compressed_u32s_def)

lemma emits_fields: "emits (write_fields fs) (concat (map field_bytes fs))"
  by (induction fs) (auto intro: emits_rules emits_field)

lemma reads_field: "field_ok f \<Longrightarrow> reads (read_field f) (field_bytes f) rest f"
  by (cases f) (auto intro!: reads_then_ret reads_map intro: reads_rules)

lemma reads_fields: "\<forall>f \<in> set fs. field_ok f \<Longrightarrow> reads (read_fields fs) (concat (map field_bytes fs)) rest fs"
  by (induction fs) (auto intro!: reads_sbind [OF reads_field] reads_then_ret reads_ret)

section \<open>Blocks\<close>

text \<open>\<open>BlockWriter\<close> and \<open>BlockReader\<close> batch small writes into blocks with a size and a number.\<close>

record block_writer =
  bw_writer :: struct_writer
  bw_block_size :: nat
  bw_current_block :: bytes
  bw_blocks_written :: nat

definition on_writer :: "(struct_writer, 'a) io \<Rightarrow> (block_writer, 'a) io" where
  "on_writer m s = (case m (bw_writer s) of (r, w) \<Rightarrow> (r, s\<lparr>bw_writer := w\<rparr>))"

definition block_writer_new :: "nat \<Rightarrow> nat \<Rightarrow> block_writer" where
  "block_writer_new capacity block_size = \<lparr>bw_writer = struct_writer_new capacity, bw_block_size = block_size,
     bw_current_block = [], bw_blocks_written = 0\<rparr>"

definition flush_block :: "(block_writer, unit) io" where
  "flush_block s =
     (if bw_current_block s \<noteq> [] then
        sbind (on_writer (sw_write_u32 (word_of_nat (length (bw_current_block s))))) (\<lambda>_.
        sbind (on_writer (sw_write_u64 (word_of_nat (bw_blocks_written s)))) (\<lambda>_.
        sbind (on_writer (sw_write_raw (bw_current_block s))) (\<lambda>_.
        modify (\<lambda>s. s\<lparr>bw_current_block := [], bw_blocks_written := bw_blocks_written s + 1\<rparr>)))) s
      else (Inr (), s))"

definition write_to_block :: "bytes \<Rightarrow> (block_writer, unit) io" where
  "write_to_block bs s =
     sbind (if length (bw_current_block s) + length bs > bw_block_size s then flush_block else ret ()) (\<lambda>_ s.
       if length bs > bw_block_size s then on_writer (sw_write_raw bs) s
       else modify (\<lambda>s. s\<lparr>bw_current_block := bw_current_block s @ bs\<rparr>) s) s"

definition bw_close :: "(bytes \<Rightarrow> u32) \<Rightarrow> (block_writer, unit) io" where
  "bw_close crc = sbind flush_block (\<lambda>_. on_writer (sw_close crc))"

record block_reader =
  br_reader :: struct_reader
  br_block_cache :: bytes
  br_block_size :: nat
  br_block_pos :: nat
  br_blocks_read :: nat

definition on_reader :: "(struct_reader, 'a) io \<Rightarrow> (block_reader, 'a) io" where
  "on_reader m s = (case m (br_reader s) of (r, w) \<Rightarrow> (r, s\<lparr>br_reader := w\<rparr>))"

definition block_reader_new :: "bytes \<Rightarrow> bool \<Rightarrow> block_reader" where
  "block_reader_new content lends = \<lparr>br_reader = struct_reader_new content lends, br_block_cache = [],
     br_block_size = 0, br_block_pos = 0, br_blocks_read = 0\<rparr>"

definition read_block :: "(block_reader, bytes option) io" where
  "read_block = sbind (on_reader is_eof) (\<lambda>eof.
     if eof then ret None
     else sbind (on_reader sr_read_u32) (\<lambda>block_size.
          sbind (on_reader sr_read_u64) (\<lambda>block_number s.
            if unat block_number \<noteq> br_blocks_read s then fail (Storage ''Block number mismatch'') s
            else sbind (on_reader (sr_read_raw (unat block_size))) (\<lambda>bs.
                 sbind (modify (\<lambda>s. s\<lparr>br_block_cache := bs, br_block_size := unat block_size, br_block_pos := 0,
                   br_blocks_read := br_blocks_read s + 1\<rparr>)) (\<lambda>_. ret (Some bs))) s)))"

definition read_from_block :: "nat \<Rightarrow> (block_reader, bytes option) io" where
  "read_from_block n s =
     (if br_block_pos s + n > br_block_size s then (Inr None, s)
      else (Inr (Some (take n (drop (br_block_pos s) (br_block_cache s)))), s\<lparr>br_block_pos := br_block_pos s + n\<rparr>))"

section \<open>Properties\<close>

lemma new_wf: "sw_wf (struct_writer_new c)"
  by (simp add: sw_wf_def struct_writer_new_def)

text \<open>
  C38. A structured file reads back: fields written one after the other and closed with a footer come
  back in order when they are read as what they were written as, with the checksum verified, and the
  same file verifies without being parsed. The writer succeeds whenever the output has room.
\<close>

theorem struct_file_roundtrip:
  assumes "\<forall>f \<in> set fs. field_ok f" "length (concat (map field_bytes fs)) + FOOTER_LEN \<le> capacity"
  shows "\<exists>s. sbind (write_fields fs) (\<lambda>_. sw_close crc) (struct_writer_new capacity) = (Inr (), s) \<and>
    fst (sbind (read_fields fs) (\<lambda>fs'. sbind (verify_checksum crc) (\<lambda>st. ret (fs', st)))
      (struct_reader_new (sw_content s) lends)) = Inr (fs, Verified) \<and>
    verify_file_checksum crc lends (sw_content s) = Verified"
proof -
  let ?bs = "concat (map field_bytes fs)" and ?w = "struct_writer_new capacity"
  have w: "write_fields fs ?w = (Inr (), written ?bs ?w)"
    using emits_fields [of fs] assms(2) new_wf [of capacity]
    by (simp add: emits_def) (simp add: struct_writer_new_def)
  have wf: "sw_wf (written ?bs ?w)"
    using assms(2) by (intro written_wf new_wf) (simp add: struct_writer_new_def)
  have c: "sw_content (written ?bs ?w) = ?bs" "sw_hashed (written ?bs ?w) = ?bs" "sw_cursor (written ?bs ?w) = length ?bs"
    "sw_reserved_header (written ?bs ?w) = None" "sw_capacity (written ?bs ?w) = capacity"
    by (simp_all add: written_def struct_writer_new_def overwrite_def)
  obtain s where s: "sw_close crc (written ?bs ?w) = (Inr (), s)" "sw_content s = ?bs @ footer crc ?bs"
    using close_appends_footer [OF wf, of crc] assms(2) unfolding c by auto
  let ?r = "struct_reader_new (sw_content s) lends"
  have r: "read_fields fs ?r = (Inr fs, advanced (length ?bs) ?r)"
    using reads_fields [OF assms(1), of "footer crc ?bs"] s(2) by (simp add: reads_def)
  have wf_at: "sr_wf (advanced (length ?bs) ?r)" "rest_of (advanced (length ?bs) ?r) = footer crc ?bs"
    using advanced_wf [OF sr_wf_new(1) [of "sw_content s" lends], of "length ?bs"] s(2) by simp_all
  have at: "sr_sequential (advanced (length ?bs) ?r)" "sr_position (advanced (length ?bs) ?r) = length ?bs"
    "sr_content (advanced (length ?bs) ?r) = sw_content s"
    using s(2) by (simp_all add: struct_reader_new_def rest_of_def)
  have v: "fst (verify_checksum crc (advanced (length ?bs) ?r)) = Inr Verified"
    using verify_at_footer [OF wf_at(1) at(1) wf_at(2) [unfolded footer_def], of crc] at(2,3) s(2) by simp
  then obtain r' where "verify_checksum crc (advanced (length ?bs) ?r) = (Inr Verified, r')" by (metis prod.collapse)
  with r have "fst (sbind (read_fields fs) (\<lambda>fs'. sbind (verify_checksum crc) (\<lambda>st. ret (fs', st))) ?r) =
    Inr (fs, Verified)" by (simp add: sbind_def ret_def)
  moreover have "verify_file_checksum crc lends (sw_content s) = Verified"
    using verify_file_footer [of crc lends ?bs "crc ?bs"] s(2) by (simp add: footer_def)
  moreover have "sbind (write_fields fs) (\<lambda>_. sw_close crc) ?w = (Inr (), s)"
    using w s(1) by (simp add: sbind_def)
  ultimately show ?thesis by blast
qed

lemma struct_file_roundtrip_witness:
  "\<exists>s. sbind (write_fields [F_string [0x61, 0xC3, 0xA9], F_varint 300, F_deltas [5, 3]]) (\<lambda>_. sw_close (\<lambda>bs. word_of_nat (length bs)))
       (struct_writer_new 100) = (Inr (), s) \<and>
    fst (sbind (read_fields [F_string [0x61, 0xC3, 0xA9], F_varint 300, F_deltas [5, 3]])
         (\<lambda>fs'. sbind (verify_checksum (\<lambda>bs. word_of_nat (length bs))) (\<lambda>st. ret (fs', st)))
      (struct_reader_new (sw_content s) True)) = Inr ([F_string [0x61, 0xC3, 0xA9], F_varint 300, F_deltas [5, 3]], Verified) \<and>
    verify_file_checksum (\<lambda>bs. word_of_nat (length bs)) True (sw_content s) = Verified"
  by (rule struct_file_roundtrip) (simp_all add: string_bytes_def encode_u64.simps FOOTER_LEN_def Let_def)

text \<open>What is left of a file when its reader stops, read as a footer.\<close>

lemma from_le_iff: "length bs = 4 \<Longrightarrow> n < 256 ^ 4 \<Longrightarrow> from_le bs = n \<longleftrightarrow> bs = le_bytes 4 n"
  using le_bytes_from_le [of bs] from_le_le_bytes_small [of n 4] by auto

lemma trailer_is_footer:
  assumes "length trailer = FOOTER_LEN"
  shows "trailer = footer crc p \<longleftrightarrow>
    from_le (take 4 trailer) = unat (crc p) \<and> from_le (drop 4 trailer) = FOOTER_MAGIC"
proof -
  have len: "length (take 4 trailer) = 4" "length (drop 4 trailer) = 4" using assms by (simp_all add: FOOTER_LEN_def)
  have "unat (crc p) < 256 ^ 4" using unsigned_less [of "crc p"] by simp
  note parts = from_le_iff [OF len(1) this] from_le_iff [OF len(2) magic_bound]
  have "trailer = footer crc p \<longleftrightarrow> take 4 trailer @ drop 4 trailer = footer crc p" by simp
  also have "\<dots> \<longleftrightarrow> take 4 trailer = le_bytes 4 (unat (crc p)) \<and> drop 4 trailer = le_bytes 4 FOOTER_MAGIC"
    unfolding footer_def using len by (subst append_eq_append_conv) simp_all
  finally show ?thesis unfolding parts .
qed

lemma verify_at_trailer:
  assumes "sr_wf s" "sr_sequential s" "sr_content s = payload @ trailer" "sr_position s = length payload"
  shows "fst (verify_checksum crc s) = Inr
    (if length trailer = FOOTER_LEN then if trailer = footer crc payload then Verified else Mismatch
     else if length trailer = LEGACY_TRAILER_LEN \<and> trailer \<noteq> le_bytes 4 FOOTER_MAGIC
     then Legacy (word_of_nat (from_le trailer)) else Mismatch)"
proof -
  have c: "sr_cursor s = length payload" "sr_hashed s = payload" "sr_cursor s \<le> length (sr_content s)"
    "drop (sr_cursor s) (sr_content s) = trailer"
    using assms by (simp_all add: sr_wf_def)
  have "rest_of s = trailer" using assms(3,4) by (simp add: rest_of_def)
  then have rem: "sr_remaining s = length trailer" using remaining_rest [OF assms(1)] by simp
  consider (footer) "length trailer = FOOTER_LEN" | (legacy) "length trailer = LEGACY_TRAILER_LEN"
    | (other) "length trailer \<noteq> FOOTER_LEN" "length trailer \<noteq> LEGACY_TRAILER_LEN" by blast
  then show ?thesis
  proof cases
    case footer
    let ?s1 = "s\<lparr>sr_cursor := sr_cursor s + 4\<rparr>"
    have r1: "read_exact 4 s = (Inr (take 4 trailer), ?s1)"
      by (rule read_exact_take [where rest = "drop 4 trailer"]) (use c footer in \<open>simp_all add: FOOTER_LEN_def\<close>)
    have r2: "read_exact 4 ?s1 = (Inr (drop 4 trailer), ?s1\<lparr>sr_cursor := sr_cursor ?s1 + 4\<rparr>)"
      by (rule read_exact_take [where rest = "[]"]) (use assms(3) c(1) footer in \<open>simp_all add: FOOTER_LEN_def\<close>)
    show ?thesis
      using assms(2) r1 r2 rem footer c(2) trailer_is_footer [OF footer, of crc payload]
      by (auto simp: verify_checksum_def Let_def sbind_def modify_def ret_def)
  next
    case legacy
    have r: "read_exact 4 s = (Inr trailer, s\<lparr>sr_cursor := sr_cursor s + 4\<rparr>)"
      by (rule read_exact_take [where rest = "[]"]) (use c legacy in \<open>simp_all add: LEGACY_TRAILER_LEN_def\<close>)
    have "from_le trailer = FOOTER_MAGIC \<longleftrightarrow> trailer = le_bytes 4 FOOTER_MAGIC"
      using from_le_iff [OF _ magic_bound] legacy by (simp add: LEGACY_TRAILER_LEN_def)
    with r show ?thesis
      using assms(2) rem legacy
      by (simp add: verify_checksum_def Let_def sbind_def modify_def ret_def FOOTER_LEN_def LEGACY_TRAILER_LEN_def)
  next
    case other
    then show ?thesis using assms(2) rem by (simp add: verify_checksum_def Let_def)
  qed
qed

lemma verify_file_trailer:
  assumes "length trailer = FOOTER_LEN"
  shows "verify_file_checksum crc lends (payload @ trailer) =
    (if trailer = footer crc payload then Verified
     else if drop 4 trailer = le_bytes 4 FOOTER_MAGIC then Mismatch
     else Legacy (word_of_nat (from_le (drop 4 trailer))))"
proof (cases "drop 4 trailer = le_bytes 4 FOOTER_MAGIC")
  case True
  let ?stored = "word_of_nat (from_le (take 4 trailer)) :: u32"
  have len: "length (take 4 trailer) = 4" using assms by (simp add: FOOTER_LEN_def)
  then have "from_le (take 4 trailer) < 2 ^ 32" using from_le_bound [of "take 4 trailer"] by simp
  then have u: "unat ?stored = from_le (take 4 trailer)" by (simp add: unat_of_nat)
  then have t: "trailer = le_bytes 4 (unat ?stored) @ le_bytes 4 FOOTER_MAGIC"
    using True len le_bytes_from_le [of "take 4 trailer"] by (metis append_take_drop_id)
  have "crc payload = ?stored \<longleftrightarrow> trailer = footer crc payload"
    using trailer_is_footer [OF assms, of crc payload] u from_le_iff [OF _ magic_bound, of "drop 4 trailer"] True assms
    by (auto simp: word_unat_eq_iff FOOTER_LEN_def)
  with verify_file_footer [of crc lends payload ?stored] t True show ?thesis by simp
next
  case False
  have len: "length (drop 4 trailer) = 4" using assms by (simp add: FOOTER_LEN_def)
  then have m: "from_le (drop 4 trailer) \<noteq> FOOTER_MAGIC" using False from_le_iff [OF len magic_bound] by simp
  have "from_le (drop 4 trailer) < 2 ^ 32" using from_le_bound [of "drop 4 trailer"] len by simp
  then have "unat (word_of_nat (from_le (drop 4 trailer)) :: u32) = from_le (drop 4 trailer)"
    by (simp add: unat_of_nat)
  moreover have "trailer \<noteq> footer crc payload" using m trailer_is_footer [OF assms] by simp
  moreover have "drop (length payload + 4) (payload @ trailer) = drop 4 trailer" by simp
  ultimately show ?thesis
    using False m assms
    by (simp add: verify_file_checksum_def Let_def u32_at_def FOOTER_LEN_def LEGACY_TRAILER_LEN_def)
qed

text \<open>
  C39. Which damage is told. A reader that has parsed some bytes in one run verifies them exactly when
  the eight bytes left are the footer of what it parsed: a damaged payload of another checksum, a
  damaged checksum and a damaged magic are all mismatches, and so is any other number of bytes left,
  but for four that are not the magic, which pass as the trailer of an older file. The verification of
  a whole file, which goes by its last four bytes, reports the same files as verified and the same
  damage as a mismatch as long as the magic is intact; a file of at least eight bytes that does not
  end in the magic, by damage to the magic or because it was cut, it takes for an older file.
\<close>

theorem damaged_file_detected:
  assumes "sr_wf s" "sr_sequential s" "sr_content s = payload @ trailer" "sr_position s = length payload"
  shows "fst (verify_checksum crc s) = Inr
      (if length trailer = FOOTER_LEN then if trailer = footer crc payload then Verified else Mismatch
       else if length trailer = LEGACY_TRAILER_LEN \<and> trailer \<noteq> le_bytes 4 FOOTER_MAGIC
       then Legacy (word_of_nat (from_le trailer)) else Mismatch) \<and>
    (length trailer = FOOTER_LEN \<longrightarrow>
       (ok (fst (expect_checksum crc what s)) \<longleftrightarrow> trailer = footer crc payload) \<and>
       verify_file_checksum crc lends (sr_content s) =
         (if trailer = footer crc payload then Verified
          else if drop 4 trailer = le_bytes 4 FOOTER_MAGIC then Mismatch
          else Legacy (word_of_nat (from_le (drop 4 trailer)))))"
proof -
  note v = verify_at_trailer [OF assms, of crc]
  have "ok (fst (expect_checksum crc what s)) \<longleftrightarrow> trailer = footer crc payload" if "length trailer = FOOTER_LEN"
    using v that by (cases "verify_checksum crc s") (auto simp: expect_checksum_def sbind_def fail_def ret_def)
  with v verify_file_trailer [of trailer crc lends payload] assms(3) show ?thesis by simp
qed

definition sum_crc :: "bytes \<Rightarrow> u32" where
  "sum_crc bs = word_of_nat (sum_list (map unat bs))"

text \<open>A reader that passed the one byte of a file written as [5], once the byte and once the magic is damaged.\<close>

definition passed_one :: "bytes \<Rightarrow> struct_reader" where
  "passed_one content =
     (struct_reader_new content False)\<lparr>sr_cursor := 1, sr_position := 1, sr_hashed := take 1 content\<rparr>"

lemma damaged_file_detected_witness:
  "fst (verify_checksum sum_crc (passed_one (7 # footer sum_crc [5]))) = Inr Mismatch \<and>
   verify_file_checksum sum_crc True (7 # footer sum_crc [5]) = Mismatch \<and>
   fst (verify_checksum sum_crc (passed_one (5 # le_bytes 4 5 @ [0, 0, 0, 0]))) = Inr Mismatch \<and>
   verify_file_checksum sum_crc True (5 # le_bytes 4 5 @ [0, 0, 0, 0]) = Legacy 0"
proof -
  have wf: "sr_wf (passed_one (b # footer sum_crc p))" "sr_wf (passed_one (b # le_bytes 4 5 @ [0, 0, 0, 0]))"
    "sr_sequential (passed_one c)" "sr_content (passed_one c) = c" "sr_position (passed_one c) = 1" for b p c
    by (simp_all add: passed_one_def sr_wf_def struct_reader_new_def)
  have "footer sum_crc [5] \<noteq> footer sum_crc [7]"
    using from_le_le_bytes_small [of 5 4] by (simp add: trailer_is_footer) (simp add: footer_def sum_crc_def)
  moreover have "drop 4 (footer sum_crc [5]) = le_bytes 4 FOOTER_MAGIC" by (simp add: footer_def)
  ultimately have 1: "fst (verify_checksum sum_crc (passed_one (7 # footer sum_crc [5]))) = Inr Mismatch"
    "verify_file_checksum sum_crc True (7 # footer sum_crc [5]) = Mismatch"
    using damaged_file_detected [of "passed_one (7 # footer sum_crc [5])" "[7]" "footer sum_crc [5]" sum_crc "''part''" True]
    by (simp_all add: wf)
  have "from_le [0, 0, 0, 0] \<noteq> FOOTER_MAGIC" by (simp add: FOOTER_MAGIC_def)
  then have m: "[0, 0, 0, 0] \<noteq> le_bytes 4 FOOTER_MAGIC"
    using from_le_le_bytes_small [OF magic_bound] by metis
  then have "le_bytes 4 5 @ [0, 0, 0, 0] \<noteq> footer sum_crc [5]"
    by (auto simp: footer_def)
  then have 2: "fst (verify_checksum sum_crc (passed_one (5 # le_bytes 4 5 @ [0, 0, 0, 0]))) = Inr Mismatch"
    "verify_file_checksum sum_crc True (5 # le_bytes 4 5 @ [0, 0, 0, 0]) = Legacy 0"
    using damaged_file_detected [of "passed_one (5 # le_bytes 4 5 @ [0, 0, 0, 0])" "[5]" "le_bytes 4 5 @ [0, 0, 0, 0]"
        sum_crc "''part''" True] m
    by (simp_all add: wf FOOTER_LEN_def)
  from 1 2 show ?thesis by blast
qed

text \<open>
  A header written last: the file is the header, the body and the footer of both, although the
  header was only reserved while the body was written; a header of another length is refused.
\<close>

theorem fill_header_in_front:
  assumes "emits w hdr" "emits body_w body" "length hdr + length body + FOOTER_LEN \<le> capacity"
  shows "\<exists>s. sbind (reserve_header (length hdr)) (\<lambda>_. sbind body_w (\<lambda>_. sbind (fill_header w) (\<lambda>_. sw_close crc)))
      (struct_writer_new capacity) = (Inr (), s) \<and> sw_content s = hdr @ body @ footer crc (hdr @ body)"
proof -
  let ?n = "length hdr"
  let ?s1 = "struct_writer_new capacity\<lparr>sw_content := replicate ?n 0, sw_cursor := ?n, sw_position := ?n, sw_reserved_header := Some ?n\<rparr>"
  let ?s2 = "?s1\<lparr>sw_content := replicate ?n 0 @ body, sw_cursor := ?n + length body, sw_position := ?n + length body, sw_hashed := body\<rparr>"
  let ?s3 = "?s2\<lparr>sw_reserved_header := None, sw_hashed := [], sw_cursor := 0, sw_position := 0\<rparr>"
  have 1: "reserve_header ?n (struct_writer_new capacity) = (Inr (), ?s1)"
    using assms(3) by (simp add: reserve_header_def sbind_def write_all_def overwrite_def modify_def
        struct_writer_new_def Let_def)
  have "sw_wf ?s1" using assms(3) by (simp add: sw_wf_def struct_writer_new_def)
  then have "body_w ?s1 = (Inr (), written body ?s1)"
    using assms(2,3) by (simp add: emits_def) (simp add: struct_writer_new_def)
  then have 2: "body_w ?s1 = (Inr (), ?s2)" by (simp add: written_def overwrite_def struct_writer_new_def)
  have "sw_wf ?s3" using assms(3) by (simp add: sw_wf_def struct_writer_new_def)
  then have "w ?s3 = (Inr (), written hdr ?s3)"
    using assms(1,3) by (simp add: emits_def) (simp add: struct_writer_new_def)
  then have w: "w ?s3 = (Inr (), ?s3\<lparr>sw_content := hdr @ body, sw_cursor := ?n, sw_position := ?n, sw_hashed := hdr\<rparr>)"
    by (simp add: written_def overwrite_def struct_writer_new_def)
  let ?s4 = "?s3\<lparr>sw_content := hdr @ body, sw_cursor := ?n + length body, sw_position := ?n + length body, sw_hashed := hdr @ body\<rparr>"
  have 3: "fill_header w ?s2 = (Inr (), ?s4)"
    using w by (simp add: fill_header_def sbind_def sw_seek_def modify_def Let_def struct_writer_new_def)
  have "sw_wf ?s4" "sw_reserved_header ?s4 = None" "sw_cursor ?s4 = length (sw_content ?s4)"
    "length (sw_content ?s4) + FOOTER_LEN \<le> sw_capacity ?s4"
    using assms(3) by (simp_all add: sw_wf_def struct_writer_new_def)
  from close_appends_footer [OF this, of crc] obtain s where
    4: "sw_close crc ?s4 = (Inr (), s)" "sw_content s = (hdr @ body) @ footer crc (hdr @ body)" by auto
  have "sbind (reserve_header ?n) (\<lambda>_. sbind body_w (\<lambda>_. sbind (fill_header w) (\<lambda>_. sw_close crc)))
      (struct_writer_new capacity) = (Inr (), s)"
    by (simp only: sbind_def 1 2 3 4(1) prod.case sum.case)
  with 4(2) show ?thesis by auto
qed

lemma fill_header_in_front_witness:
  "\<exists>s. sbind (reserve_header (length (le_bytes 4 9))) (\<lambda>_. sbind (sw_write_raw [1, 2, 3])
       (\<lambda>_. sbind (fill_header (sw_write_u32 9)) (\<lambda>_. sw_close sum_crc))) (struct_writer_new 20) = (Inr (), s) \<and>
     sw_content s = le_bytes 4 9 @ [1, 2, 3] @ footer sum_crc (le_bytes 4 9 @ [1, 2, 3])"
  by (rule fill_header_in_front) (use emits_fixed(3) [of 9] emits_fixed(8) in \<open>simp_all add: FOOTER_LEN_def\<close>)

text \<open>
  Data larger than a block goes out without a block header, and the block reader does not find it
  again: it takes the data for a header and fails.
\<close>

theorem oversized_block_unreadable:
  "let (r, w) = sbind (write_to_block (replicate 12 9)) (\<lambda>_. bw_close sum_crc) (block_writer_new 100 4)
   in r = Inr () \<and>
      fst (read_block (block_reader_new (sw_content (bw_writer w)) True)) = Inl (Storage ''Block number mismatch'')"
proof -
  let ?c = "replicate 12 9 @ footer sum_crc (replicate 12 9)"
  obtain w where w: "sbind (write_to_block (replicate 12 9)) (\<lambda>_. bw_close sum_crc) (block_writer_new 100 4) = (Inr (), w)"
    "sw_content (bw_writer w) = ?c"
    by (simp add: sbind_def write_to_block_def block_writer_new_def flush_block_def ret_def on_writer_def bw_close_def
        sw_write_raw_def put_hashed_def write_all_def overwrite_def modify_def sw_close_def struct_writer_new_def
        footer_def Let_def)
  have c: "?c = replicate 12 9 @ le_bytes 4 (unat (sum_crc (replicate 12 9))) @ le_bytes 4 FOOTER_MAGIC"
    by (simp add: footer_def)
  have m: "from_le (le_bytes 4 FOOTER_MAGIC) = FOOTER_MAGIC" by (rule from_le_le_bytes_small [OF magic_bound])
  let ?r = "struct_reader_new ?c True" and ?f = "footer sum_crc (replicate 12 9)"
  have d: "drop 16 ?c = le_bytes 4 FOOTER_MAGIC" unfolding c by (simp add: drop_Cons')
  have len: "length ?c = 20" by (simp add: FOOTER_LEN_def)
  have eof: "is_eof ?r = (Inr False, ?r\<lparr>sr_trailer_len := Some FOOTER_LEN\<rparr>)"
    using d len by (simp add: is_eof_def trailer_len_def sbind_def read_exact_def struct_reader_new_def
        FOOTER_LEN_def LEGACY_TRAILER_LEN_def m Let_def del: append_replicate_commute replicate.simps)
  let ?r1 = "?r\<lparr>sr_trailer_len := Some FOOTER_LEN\<rparr>"
  have wf: "sr_wf ?r1" "rest_of ?r1 = replicate 4 9 @ replicate 8 9 @ ?f"
    by (simp_all add: sr_wf_def struct_reader_new_def rest_of_def flip: replicate_add append_assoc)
  have "reads sr_read_u32 (replicate 4 9) (replicate 8 9 @ ?f) (word_of_nat (from_le (replicate 4 9)))"
    unfolding sr_read_u32_def by (rule reads_fixed_len) simp_all
  then have u32: "sr_read_u32 ?r1 = (Inr (word_of_nat (from_le (replicate 4 9))), advanced 4 ?r1)"
    using wf by (simp add: reads_def)
  have wf2: "sr_wf (advanced 4 ?r1)" "rest_of (advanced 4 ?r1) = replicate 8 9 @ ?f"
    using advanced_wf [OF wf(1), of 4] wf(2) by simp_all
  have "reads sr_read_u64 (replicate 8 9) ?f (word_of_nat (from_le (replicate 8 9)))"
    unfolding sr_read_u64_def by (rule reads_fixed_len) simp_all
  then have u64: "sr_read_u64 (advanced 4 ?r1) = (Inr (word_of_nat (from_le (replicate 8 9))), advanced 8 (advanced 4 ?r1))"
    using wf2 by (simp add: reads_def)
  have "unat (word_of_nat (from_le (replicate 8 9)) :: u64) \<noteq> 0"
  proof -
    have "replicate 8 9 = (9 :: u8) # replicate 7 9" using replicate_Suc [of 7 "9 :: u8"] by (simp del: replicate_Suc)
    then have "from_le (replicate 8 9) \<noteq> 0" by simp
    moreover have "from_le (replicate 8 9) < 2 ^ 64" using from_le_bound [of "replicate 8 9"] by simp
    ultimately show ?thesis by (simp add: unat_of_nat)
  qed
  with eof u32 u64 have "fst (read_block (block_reader_new ?c True)) = Inl (Storage ''Block number mismatch'')"
    by (simp only: read_block_def sbind_def on_reader_def block_reader_new_def block_reader.simps prod.case sum.case
        if_False fail_def fst_conv not_True_eq_False not_False_eq_True if_True)
  with w show ?thesis by simp
qed

end
