(* ===== verification/Posting_Lists.thy ===== *)
theory Posting_Lists
  imports Posting_Iterator Struct_File
begin

text \<open>
  Posting lists in memory, \<^verbatim>\<open>laurus/src/lexical/index/inverted/core/posting.rs\<close>: postings added in
  any order and kept by document, the structure-of-arrays views and their cursors, and the index of
  the terms of a segment under construction. The estimates of heap use are left out.
\<close>

section \<open>Postings\<close>

text \<open>Weights are the bits of a 32-bit float; the default is one.\<close>

definition ONE_F32 :: u32 where "ONE_F32 = 0x3F800000"

record posting =
  p_doc_id :: nat
  p_frequency :: u32
  p_positions :: "u32 list option"
  p_weight :: u32

definition posting_with_frequency :: "nat \<Rightarrow> u32 \<Rightarrow> posting" where
  "posting_with_frequency doc frequency =
     \<lparr>p_doc_id = doc, p_frequency = frequency, p_positions = None, p_weight = ONE_F32\<rparr>"

definition posting_with_positions :: "nat \<Rightarrow> u32 list \<Rightarrow> posting" where
  "posting_with_positions doc positions = \<lparr>p_doc_id = doc, p_frequency = word_of_nat (length positions),
     p_positions = Some positions, p_weight = ONE_F32\<rparr>"

definition posting_add_position :: "u32 \<Rightarrow> posting \<Rightarrow> posting" where
  "posting_add_position pos p =
     (case p_positions p of
        Some ps \<Rightarrow> p\<lparr>p_positions := Some (ps @ [pos]), p_frequency := word_of_nat (length (ps @ [pos]))\<rparr>
      | None \<Rightarrow> p\<lparr>p_positions := Some [pos], p_frequency := 1\<rparr>)"

record posting_list =
  pl_term :: bytes
  pl_postings :: "posting list"
  pl_total_frequency :: u64
  pl_doc_frequency :: u64

definition posting_list_new :: "bytes \<Rightarrow> posting_list" where
  "posting_list_new term = \<lparr>pl_term = term, pl_postings = [], pl_total_frequency = 0, pl_doc_frequency = 0\<rparr>"

text \<open>\<open>binary_search_by_key\<close> over the ids: the place of the id, or where it is to be inserted.\<close>

function search_by_key :: "nat list \<Rightarrow> nat \<Rightarrow> nat \<Rightarrow> nat \<Rightarrow> nat + nat" where
  "search_by_key ids key left right =
     (if left < right then
        let mid = left + (right - left) div 2
        in if ids ! mid = key then Inr mid
           else if ids ! mid < key then search_by_key ids key (mid + 1) right
           else search_by_key ids key left mid
      else Inl left)"
  by pat_completeness auto
termination by (relation "measure (\<lambda>(ids, key, left, right). right - left)") (auto simp: less_diff_conv)

declare search_by_key.simps [simp del]

definition merge_posting :: "posting \<Rightarrow> posting \<Rightarrow> posting" where
  "merge_posting new existing =
     (let e = existing\<lparr>p_frequency := p_frequency existing + p_frequency new\<rparr>
      in case p_positions new of
           None \<Rightarrow> e
         | Some ps \<Rightarrow> (case p_positions e of
                         Some qs \<Rightarrow> e\<lparr>p_positions := Some (qs @ ps)\<rparr>
                       | None \<Rightarrow> e\<lparr>p_positions := Some ps\<rparr>))"

definition add_posting :: "posting \<Rightarrow> posting_list \<Rightarrow> posting_list" where
  "add_posting p l =
     (case search_by_key (map p_doc_id (pl_postings l)) (p_doc_id p) 0 (length (pl_postings l)) of
        Inr pos \<Rightarrow> l\<lparr>pl_postings := (pl_postings l)[pos := merge_posting p (pl_postings l ! pos)],
                    pl_total_frequency := pl_total_frequency l + ucast (p_frequency p)\<rparr>
      | Inl pos \<Rightarrow> l\<lparr>pl_postings := take pos (pl_postings l) @ p # drop pos (pl_postings l),
                    pl_total_frequency := pl_total_frequency l + ucast (p_frequency p),
                    pl_doc_frequency := pl_doc_frequency l + 1\<rparr>)"

text \<open>\<open>dedup_by_key\<close> keeps the first of each run.\<close>

fun dedup_by_id :: "posting list \<Rightarrow> posting list" where
  "dedup_by_id [] = []"
| "dedup_by_id [p] = [p]"
| "dedup_by_id (p # q # ps) =
     (if p_doc_id q = p_doc_id p then dedup_by_id (p # ps) else p # dedup_by_id (q # ps))"

definition optimize_list :: "posting_list \<Rightarrow> posting_list" where
  "optimize_list l = l\<lparr>pl_postings := dedup_by_id (sort_key p_doc_id (pl_postings l))\<rparr>"

section \<open>Views and cursors\<close>

definition to_compact :: "posting_list \<Rightarrow> (nat \<times> u32 \<times> u32) list" where
  "to_compact l = map (\<lambda>p. (p_doc_id p, p_frequency p, p_weight p)) (pl_postings l)"

record soa_posting_list =
  soa_doc_ids :: "nat list"
  soa_frequencies :: "u32 list"
  soa_weights :: "u32 list"

definition to_soa :: "posting_list \<Rightarrow> soa_posting_list" where
  "to_soa l = \<lparr>soa_doc_ids = map p_doc_id (pl_postings l), soa_frequencies = map p_frequency (pl_postings l),
     soa_weights = map p_weight (pl_postings l)\<rparr>"

definition soa_next :: "soa_posting_list \<Rightarrow> nat \<Rightarrow> (nat \<times> u32 \<times> u32) option \<times> nat" where
  "soa_next l i =
     (if i < length (soa_doc_ids l)
      then (Some (soa_doc_ids l ! i, soa_frequencies l ! i, soa_weights l ! i), i + 1) else (None, i))"

text \<open>The two cursors skip alike, but the one over arrays returns \<open>true\<close> in either case.\<close>

definition soa_skip_to :: "nat \<Rightarrow> soa_posting_list \<Rightarrow> nat \<Rightarrow> bool \<times> nat" where
  "soa_skip_to target l i =
     (let p = scan_from (soa_doc_ids l) target i in if p < length (soa_doc_ids l) then (True, p) else (True, p))"

definition pit_skip_to :: "nat \<Rightarrow> posting list \<Rightarrow> nat \<Rightarrow> bool \<times> nat" where
  "pit_skip_to target ps i = (let p = scan_from (map p_doc_id ps) target i in (p < length ps, p))"

definition pit_next :: "posting list \<Rightarrow> nat \<Rightarrow> posting option \<times> nat" where
  "pit_next ps i = (if i < length ps then (Some (ps ! i), i + 1) else (None, i))"

record decoded_posting_list =
  d_term :: bytes
  d_doc_ids :: "u32 list"
  d_frequencies :: "u32 list"
  d_weights :: "u32 list"
  d_positions :: "u32 list option list option"
  d_skip_levels :: "u32 list list"
  d_total_frequency :: u64
  d_doc_frequency :: u64

definition skip_table :: "u32 list \<Rightarrow> u32 list list" where
  "skip_table ids = map (map word_of_nat) (build_skip_levels (map unat ids))"

definition any_positions :: "posting_list \<Rightarrow> bool" where
  "any_positions l \<longleftrightarrow> (\<exists>p \<in> set (pl_postings l). p_positions p \<noteq> None)"

text \<open>The cast \<open>as u32\<close> keeps the low 32 bits.\<close>

definition from_posting_list :: "posting_list \<Rightarrow> decoded_posting_list" where
  "from_posting_list l =
     (let ids = map (\<lambda>p. word_of_nat (p_doc_id p)) (pl_postings l)
      in \<lparr>d_term = pl_term l, d_doc_ids = ids, d_frequencies = map p_frequency (pl_postings l),
          d_weights = map p_weight (pl_postings l),
          d_positions = (if any_positions l then Some (map p_positions (pl_postings l)) else None),
          d_skip_levels = skip_table ids, d_total_frequency = pl_total_frequency l,
          d_doc_frequency = pl_doc_frequency l\<rparr>)"

definition into_posting_list :: "decoded_posting_list \<Rightarrow> posting_list" where
  "into_posting_list d =
     (let n = length (d_doc_ids d);
          positions = (case d_positions d of Some v \<Rightarrow> v | None \<Rightarrow> replicate n None);
          weights = (if d_weights d = [] then replicate n ONE_F32 else d_weights d)
      in \<lparr>pl_term = d_term d,
          pl_postings = map (\<lambda>(((did, freq), w), pos). \<lparr>p_doc_id = unat did, p_frequency = freq, p_positions = pos,
              p_weight = w\<rparr>) (zip (zip (zip (d_doc_ids d) (d_frequencies d)) weights) positions),
          pl_total_frequency = d_total_frequency d, pl_doc_frequency = d_doc_frequency d\<rparr>)"

section \<open>The index of the terms\<close>

record term_posting_index =
  ti_terms :: "bytes \<rightharpoonup> posting_list"
  ti_doc_count :: nat
  ti_term_count :: nat

definition term_posting_index_new :: term_posting_index where
  "term_posting_index_new = \<lparr>ti_terms = Map.empty, ti_doc_count = 0, ti_term_count = 0\<rparr>"

definition index_add_posting :: "bytes \<Rightarrow> posting \<Rightarrow> term_posting_index \<Rightarrow> term_posting_index" where
  "index_add_posting term p i =
     (case ti_terms i term of
        Some l \<Rightarrow> i\<lparr>ti_terms := (ti_terms i)(term \<mapsto> add_posting p l)\<rparr>
      | None \<Rightarrow> i\<lparr>ti_terms := (ti_terms i)(term \<mapsto> add_posting p (posting_list_new term)),
                 ti_term_count := ti_term_count i + 1\<rparr>)"

fun index_add_terms ::
    "nat \<Rightarrow> (bytes \<times> u32 \<times> u32 list option) list \<Rightarrow> term_posting_index \<Rightarrow> term_posting_index" where
  "index_add_terms doc [] i = i"
| "index_add_terms doc ((term, frequency, positions) # ts) i =
     (let p = (case positions of Some ps \<Rightarrow> posting_with_positions doc ps | None \<Rightarrow> posting_with_frequency doc frequency)
      in index_add_terms doc ts (index_add_posting term p i))"

definition index_add_document ::
    "nat \<Rightarrow> (bytes \<times> u32 \<times> u32 list option) list \<Rightarrow> term_posting_index \<Rightarrow> term_posting_index" where
  "index_add_document doc ts i =
     (let i' = index_add_terms doc ts i in i'\<lparr>ti_doc_count := max (ti_doc_count i') (doc + 1)\<rparr>)"

definition get_posting_iterator :: "bytes \<Rightarrow> term_posting_index \<Rightarrow> posting list" where
  "get_posting_iterator term i = (case ti_terms i term of Some l \<Rightarrow> pl_postings l | None \<Rightarrow> [])"

definition index_optimize :: "term_posting_index \<Rightarrow> term_posting_index" where
  "index_optimize i = i\<lparr>ti_terms := (\<lambda>t. map_option optimize_list (ti_terms i t))\<rparr>"

definition retain_postings :: "(nat \<Rightarrow> bool) \<Rightarrow> posting_list \<Rightarrow> posting_list" where
  "retain_postings keep l =
     (let ps = filter (\<lambda>p. keep (p_doc_id p)) (pl_postings l)
      in l\<lparr>pl_postings := ps, pl_doc_frequency := word_of_nat (length ps),
          pl_total_frequency := sum_list (map (\<lambda>p. ucast (p_frequency p)) ps)\<rparr>)"

definition retain_docs :: "(nat \<Rightarrow> bool) \<Rightarrow> term_posting_index \<Rightarrow> term_posting_index" where
  "retain_docs keep i =
     (let terms = (\<lambda>t. case ti_terms i t of
                      Some l \<Rightarrow> if pl_postings (retain_postings keep l) = [] then None
                               else Some (retain_postings keep l)
                    | None \<Rightarrow> None)
      in i\<lparr>ti_terms := terms, ti_term_count := card (dom terms)\<rparr>)"


section \<open>A list is kept in order\<close>

abbreviation ids_of :: "posting_list \<Rightarrow> nat list" where
  "ids_of l \<equiv> map p_doc_id (pl_postings l)"

definition posting_of :: "posting_list \<Rightarrow> nat \<Rightarrow> posting option" where
  "posting_of l = map_of (map (\<lambda>p. (p_doc_id p, p)) (pl_postings l))"

definition frequencies_of :: "posting_list \<Rightarrow> u64" where
  "frequencies_of l = sum_list (map (\<lambda>p. ucast (p_frequency p)) (pl_postings l))"

definition list_ok :: "posting_list \<Rightarrow> bool" where
  "list_ok l \<longleftrightarrow> sorted_wrt (<) (ids_of l) \<and> pl_doc_frequency l = word_of_nat (length (pl_postings l)) \<and>
     pl_total_frequency l = frequencies_of l"

lemma search_by_key_spec:
  assumes "sorted_wrt (<) ids"
  shows "left \<le> right \<Longrightarrow> right \<le> length ids \<Longrightarrow> \<forall>i < left. ids ! i < key \<Longrightarrow> \<forall>i. right \<le> i \<and> i < length ids \<longrightarrow> key < ids ! i \<Longrightarrow>
    (case search_by_key ids key left right of
       Inr pos \<Rightarrow> pos < length ids \<and> ids ! pos = key
     | Inl pos \<Rightarrow> pos \<le> length ids \<and> (\<forall>i < pos. ids ! i < key) \<and> (\<forall>i. pos \<le> i \<and> i < length ids \<longrightarrow> key < ids ! i))"
  using assms
proof (induction ids key left right rule: search_by_key.induct)
  case (1 ids key left right)
  show ?case
  proof (cases "left < right")
    case False
    then show ?thesis using "1.prems" by (subst search_by_key.simps) auto
  next
    case True
    define mid where "mid = left + (right - left) div 2"
    have mid: "left \<le> mid" "mid < right" "mid < length ids" using True "1.prems"(2) by (auto simp: mid_def)
    have less: "ids ! p < ids ! q" if "p < q" "q < length ids" for p q
      using "1.prems"(5) that by (rule sorted_wrt_nth_less)
    consider (eq) "ids ! mid = key" | (lt) "ids ! mid < key" | (gt) "key < ids ! mid" by linarith
    then show ?thesis
    proof cases
      case eq
      then show ?thesis using True mid by (subst search_by_key.simps) (simp add: mid_def)
    next
      case lt
      have "\<forall>i < mid + 1. ids ! i < key" using less [of _ mid] lt mid by (metis Suc_eq_plus1 less_SucE order.strict_trans)
      with "1.IH"(1) [OF True mid_def] lt mid "1.prems" True show ?thesis
        by (subst search_by_key.simps) (simp add: mid_def Let_def)
    next
      case gt
      have "\<forall>i. mid \<le> i \<and> i < length ids \<longrightarrow> key < ids ! i"
        using less [of mid] gt by (metis le_neq_implies_less order.strict_trans)
      then have "\<not> ids ! mid < key" "ids ! mid \<noteq> key" using mid by auto
      moreover from this have "search_by_key ids key left right = search_by_key ids key left mid"
        using True by (subst search_by_key.simps) (simp add: mid_def Let_def)
      ultimately show ?thesis
        using "1.IH"(2) [OF True mid_def] mid "1.prems" \<open>\<forall>i. mid \<le> i \<and> i < length ids \<longrightarrow> key < ids ! i\<close>
        by (simp only:) simp
    qed
  qed
qed

lemma search_by_key_all:
  assumes "sorted_wrt (<) ids"
  shows "search_by_key ids key 0 (length ids) = Inr pos \<Longrightarrow> pos < length ids \<and> ids ! pos = key"
    and "search_by_key ids key 0 (length ids) = Inl pos \<Longrightarrow> pos \<le> length ids \<and>
      (\<forall>x \<in> set (take pos ids). x < key) \<and> (\<forall>x \<in> set (drop pos ids). key < x)"
  using search_by_key_spec [OF assms, of 0 "length ids" key] by (auto simp: in_set_conv_nth)

text \<open>Where the search stops is where the list is split.\<close>

lemma add_posting_cases:
  assumes "sorted_wrt (<) (ids_of l)"
  obtains (merge) as e bs where "pl_postings l = as @ e # bs" "p_doc_id e = p_doc_id p"
      "add_posting p l = l\<lparr>pl_postings := as @ merge_posting p e # bs,
         pl_total_frequency := pl_total_frequency l + ucast (p_frequency p)\<rparr>"
  | (insert) as bs where "pl_postings l = as @ bs" "\<forall>q \<in> set as. p_doc_id q < p_doc_id p"
      "\<forall>q \<in> set bs. p_doc_id p < p_doc_id q"
      "add_posting p l = l\<lparr>pl_postings := as @ p # bs, pl_total_frequency := pl_total_frequency l + ucast (p_frequency p),
         pl_doc_frequency := pl_doc_frequency l + 1\<rparr>"
proof (cases "search_by_key (ids_of l) (p_doc_id p) 0 (length (pl_postings l))")
  case (Inr pos)
  let ?ps = "pl_postings l"
  have pos: "pos < length ?ps" "p_doc_id (?ps ! pos) = p_doc_id p"
    using search_by_key_all(1) [OF assms, of "p_doc_id p" pos] Inr by auto
  show ?thesis
    by (rule merge [of "take pos ?ps" "?ps ! pos" "drop (Suc pos) ?ps"])
      (use pos Inr in \<open>simp_all add: id_take_nth_drop [symmetric] add_posting_def upd_conv_take_nth_drop\<close>)
next
  case (Inl pos)
  let ?ps = "pl_postings l"
  have "\<forall>x \<in> set (take pos (ids_of l)). x < p_doc_id p" "\<forall>x \<in> set (drop pos (ids_of l)). p_doc_id p < x"
    using search_by_key_all(2) [OF assms, of "p_doc_id p" pos] Inl by auto
  then show ?thesis
    by (intro insert [of "take pos ?ps" "drop pos ?ps"]) (use Inl in \<open>simp_all add: add_posting_def take_map drop_map\<close>)
qed

lemma merge_posting_id [simp]: "p_doc_id (merge_posting p e) = p_doc_id e"
  "p_frequency (merge_posting p e) = p_frequency e + p_frequency p"
  by (auto simp: merge_posting_def Let_def split: option.splits)

lemma posting_of_split:
  "\<forall>q \<in> set as. p_doc_id q \<noteq> p_doc_id x \<Longrightarrow> \<forall>q \<in> set bs. p_doc_id q \<noteq> p_doc_id x \<Longrightarrow>
   map_of (map (\<lambda>p. (p_doc_id p, p)) (as @ x # bs)) = (map_of (map (\<lambda>p. (p_doc_id p, p)) (as @ bs)))(p_doc_id x \<mapsto> x)"
  by (induction as) (auto simp: fun_eq_iff)

lemma map_of_ids_None: "\<forall>q \<in> set ps. p_doc_id q \<noteq> d \<Longrightarrow> map_of (map (\<lambda>p. (p_doc_id p, p)) ps) d = None"
  by (induction ps) auto

definition add_or_merge :: "posting \<Rightarrow> (nat \<rightharpoonup> posting) \<Rightarrow> (nat \<rightharpoonup> posting)" where
  "add_or_merge p m = m(p_doc_id p \<mapsto> (case m (p_doc_id p) of None \<Rightarrow> p | Some e \<Rightarrow> merge_posting p e))"

lemma add_posting_lookup:
  assumes "sorted_wrt (<) (ids_of l)"
  shows "sorted_wrt (<) (ids_of (add_posting p l))" "posting_of (add_posting p l) = add_or_merge p (posting_of l)"
    "set (ids_of (add_posting p l)) = insert (p_doc_id p) (set (ids_of l))"
proof (atomize (full), cases rule: add_posting_cases [OF assms, of p])
  case (1 as e bs)
  have dist: "\<forall>q \<in> set as. p_doc_id q \<noteq> p_doc_id e" "\<forall>q \<in> set bs. p_doc_id q \<noteq> p_doc_id e"
    using assms by (auto simp: 1(1) sorted_wrt_append)
  note split = posting_of_split [of as e bs, OF dist] posting_of_split [of as "merge_posting p e" bs] 
  show "sorted_wrt (<) (ids_of (add_posting p l)) \<and> posting_of (add_posting p l) = add_or_merge p (posting_of l) \<and>
      set (ids_of (add_posting p l)) = insert (p_doc_id p) (set (ids_of l))"
    using assms dist 1(2) split by (auto simp: 1(1,3) sorted_wrt_append posting_of_def add_or_merge_def)
next
  case (2 as bs)
  have dist: "\<forall>q \<in> set as. p_doc_id q \<noteq> p_doc_id p" "\<forall>q \<in> set bs. p_doc_id q \<noteq> p_doc_id p" using 2(2,3) by auto
  have none: "map_of (map (\<lambda>p. (p_doc_id p, p)) (as @ bs)) (p_doc_id p) = None" using dist by (intro map_of_ids_None) auto
  show "sorted_wrt (<) (ids_of (add_posting p l)) \<and> posting_of (add_posting p l) = add_or_merge p (posting_of l) \<and>
      set (ids_of (add_posting p l)) = insert (p_doc_id p) (set (ids_of l))"
  proof (intro conjI)
    show "posting_of (add_posting p l) = add_or_merge p (posting_of l)"
      unfolding posting_of_def add_or_merge_def 2(1) none by (simp add: 2(4) posting_of_split [OF dist] del: map_append)
  qed (use assms 2(2,3) in \<open>auto simp: 2(1,4) sorted_wrt_append\<close>)
qed


text \<open>The counters are kept too, as long as no frequency of a document overflows 32 bits.\<close>

definition no_overflow :: "posting \<Rightarrow> posting_list \<Rightarrow> bool" where
  "no_overflow p l \<longleftrightarrow> (\<forall>e. posting_of l (p_doc_id p) = Some e \<longrightarrow> unat (p_frequency e) + unat (p_frequency p) < 2 ^ 32)"

lemma ucast_add_no_overflow:
  assumes "unat (a :: u32) + unat b < 2 ^ 32"
  shows "(ucast (a + b) :: u64) = ucast a + ucast b"
proof -
  have "unat (a + b) = unat a + unat b" using assms by (simp add: unat_plus_if')
  then have "(word_of_nat (unat (a + b)) :: u64) = word_of_nat (unat a) + word_of_nat (unat b)" by simp
  then show ?thesis by (simp only: of_nat_unat)
qed

lemma add_posting_ok:
  assumes "list_ok l" "no_overflow p l"
  shows "list_ok (add_posting p l)"
proof -
  have sorted: "sorted_wrt (<) (ids_of l)" using assms(1) by (simp add: list_ok_def)
  from add_posting_lookup(1) [OF sorted] have "sorted_wrt (<) (ids_of (add_posting p l))" .
  moreover have "pl_doc_frequency (add_posting p l) = word_of_nat (length (pl_postings (add_posting p l))) \<and>
      pl_total_frequency (add_posting p l) = frequencies_of (add_posting p l)"
  proof (cases rule: add_posting_cases [OF sorted, of p])
    case (1 as e bs)
    have "\<forall>q \<in> set as. p_doc_id q \<noteq> p_doc_id e" using sorted by (auto simp: 1(1) sorted_wrt_append)
    then have "posting_of l (p_doc_id p) = Some e"
      by (simp add: posting_of_def 1(1) 1(2) [symmetric] map_add_Some_iff map_of_ids_None)
    then have "(ucast (p_frequency e + p_frequency p) :: u64) = ucast (p_frequency e) + ucast (p_frequency p)"
      using assms(2) by (intro ucast_add_no_overflow) (simp add: no_overflow_def)
    with assms(1) show ?thesis by (simp add: list_ok_def 1(1,3) frequencies_of_def)
  next
    case (2 as bs)
    with assms(1) show ?thesis by (simp add: list_ok_def frequencies_of_def)
  qed
  ultimately show ?thesis by (simp add: list_ok_def)
qed

section \<open>The index is kept in order\<close>

definition index_ok :: "term_posting_index \<Rightarrow> bool" where
  "index_ok i \<longleftrightarrow> finite (dom (ti_terms i)) \<and> ti_term_count i = card (dom (ti_terms i)) \<and>
     (\<forall>t l. ti_terms i t = Some l \<longrightarrow> list_ok l \<and> pl_term l = t \<and> pl_postings l \<noteq> [])"

text \<open>What an index holds: the postings of each term by document.\<close>

definition index_postings :: "term_posting_index \<Rightarrow> bytes \<Rightarrow> nat \<rightharpoonup> posting" where
  "index_postings i t = (case ti_terms i t of None \<Rightarrow> Map.empty | Some l \<Rightarrow> posting_of l)"

lemma list_new_ok [simp]: "list_ok (posting_list_new t)" "posting_of (posting_list_new t) = Map.empty"
  "no_overflow p (posting_list_new t)" "pl_term (posting_list_new t) = t"
  by (simp_all add: list_ok_def posting_list_new_def posting_of_def frequencies_of_def no_overflow_def)

lemma add_posting_frame: "pl_term (add_posting p l) = pl_term l" "pl_postings (add_posting p l) \<noteq> []"
  by (auto simp: add_posting_def search_by_key.simps [of "[]"] split: sum.split)

definition room_for :: "bytes \<Rightarrow> posting \<Rightarrow> term_posting_index \<Rightarrow> bool" where
  "room_for t p i \<longleftrightarrow> (\<forall>e. index_postings i t (p_doc_id p) = Some e \<longrightarrow>
     unat (p_frequency e) + unat (p_frequency p) < 2 ^ 32)"

lemma index_add_posting_effect:
  assumes "index_ok i" "room_for t p i"
  shows "index_ok (index_add_posting t p i)"
    "index_postings (index_add_posting t p i) = (index_postings i)(t := add_or_merge p (index_postings i t))"
proof -
  have l: "list_ok (add_posting p l) \<and> posting_of (add_posting p l) = add_or_merge p (posting_of l)"
    if "list_ok l" "no_overflow p l" for l
    using add_posting_ok [OF that] add_posting_lookup(2) [of l p] that(1) by (simp add: list_ok_def)
  have old: "list_ok l" "no_overflow p l" "pl_term l = t" if "ti_terms i t = Some l" for l
    using assms that by (auto simp: index_ok_def room_for_def index_postings_def no_overflow_def)
  show "index_ok (index_add_posting t p i)"
  proof (cases "ti_terms i t")
    case None
    then have "t \<notin> dom (ti_terms i)" by auto
    with None assms(1) l [of "posting_list_new t"] show ?thesis
      by (auto simp: index_add_posting_def index_ok_def add_posting_frame)
  next
    case (Some x)
    then have "insert t (dom (ti_terms i)) = dom (ti_terms i)" by auto
    with Some assms(1) l [of x] old [OF Some] show ?thesis
      by (auto simp: index_add_posting_def index_ok_def add_posting_frame)
  qed
  show "index_postings (index_add_posting t p i) = (index_postings i)(t := add_or_merge p (index_postings i t))"
    using l [of "posting_list_new t"] l old
    by (auto simp: index_add_posting_def index_postings_def fun_eq_iff split: option.splits)
qed

text \<open>
  C35. Adding a posting keeps every list of the index strictly ordered by document, with its two
  counters equal to what the list holds and one list per term, and changes one entry of the index:
  the posting is stored under its term and document, merged with the one that is there.
\<close>

theorem index_add_posting_spec:
  assumes "index_ok i" "room_for t p i"
  shows "index_ok (index_add_posting t p i) \<and>
    index_postings (index_add_posting t p i) = (index_postings i)(t := add_or_merge p (index_postings i t))"
  using index_add_posting_effect [OF assms] by blast

lemma index_new_ok [simp]: "index_ok term_posting_index_new" "index_postings term_posting_index_new = (\<lambda>_. Map.empty)"
  by (auto simp: index_ok_def term_posting_index_new_def index_postings_def)

lemma index_add_posting_spec_witness:
  "index_postings (index_add_posting [1] (posting_with_frequency 7 2) term_posting_index_new) [1] 7 =
     Some (posting_with_frequency 7 2)"
  using index_add_posting_spec [of term_posting_index_new "[1]" "posting_with_frequency 7 2"]
  by (simp add: room_for_def add_or_merge_def posting_with_frequency_def)

section \<open>Purging documents\<close>

lemma map_of_filter_ids:
  "map_of (map (\<lambda>p. (p_doc_id p, p)) (filter (\<lambda>p. keep (p_doc_id p)) ps)) d =
   (if keep d then map_of (map (\<lambda>p. (p_doc_id p, p)) ps) d else None)"
  by (induction ps) auto

lemma retain_postings_ok:
  assumes "list_ok l"
  shows "list_ok (retain_postings keep l)" "posting_of (retain_postings keep l) d = (if keep d then posting_of l d else None)"
    "pl_term (retain_postings keep l) = pl_term l"
proof -
  have "sorted_wrt (<) (ids_of l)" using assms by (simp add: list_ok_def)
  then have "sorted_wrt (<) (filter keep (ids_of l))" by (rule sorted_wrt_less_filter)
  then show "list_ok (retain_postings keep l)"
    by (simp add: list_ok_def retain_postings_def Let_def frequencies_of_def filter_map comp_def)
  show "posting_of (retain_postings keep l) d = (if keep d then posting_of l d else None)"
    unfolding retain_postings_def posting_of_def Let_def by (simp add: map_of_filter_ids)
  show "pl_term (retain_postings keep l) = pl_term l" by (simp add: retain_postings_def Let_def)
qed

lemma posting_of_Nil: "pl_postings l = [] \<Longrightarrow> posting_of l = Map.empty"
  by (simp add: posting_of_def)

text \<open>
  Purging documents from an index keeps exactly the postings of the documents to keep, of every
  term, drops the lists that become empty, and leaves the counters equal to what remains.
\<close>

theorem retain_docs_exact:
  assumes "index_ok i"
  shows "index_ok (retain_docs keep i) \<and>
    index_postings (retain_docs keep i) t d = (if keep d then index_postings i t d else None) \<and>
    ti_doc_count (retain_docs keep i) = ti_doc_count i"
proof (intro conjI)
  have lists: "list_ok l" "pl_term l = t" if "ti_terms i t = Some l" for t l using assms that by (auto simp: index_ok_def)
  have "dom (ti_terms (retain_docs keep i)) \<subseteq> dom (ti_terms i)"
    by (auto simp: retain_docs_def Let_def split: option.splits)
  then have "finite (dom (ti_terms (retain_docs keep i)))" using assms finite_subset by (auto simp: index_ok_def)
  then show "index_ok (retain_docs keep i)"
    using lists retain_postings_ok(1,3)
    by (auto simp: index_ok_def retain_docs_def Let_def split: option.splits if_splits)
  show "index_postings (retain_docs keep i) t d = (if keep d then index_postings i t d else None)"
    using lists retain_postings_ok(2) [of _ keep d] posting_of_Nil
    by (force simp: index_postings_def retain_docs_def Let_def split: option.splits)
  show "ti_doc_count (retain_docs keep i) = ti_doc_count i" by (simp add: retain_docs_def Let_def)
qed

lemma retain_docs_exact_witness:
  "index_postings (retain_docs (\<lambda>d. d \<noteq> 7) (index_add_posting [1] (posting_with_frequency 7 2) term_posting_index_new)) [1] 7 = None"
  using retain_docs_exact [of "index_add_posting [1] (posting_with_frequency 7 2) term_posting_index_new" "\<lambda>d. d \<noteq> 7" "[1]" 7]
    index_add_posting_effect(1) [of term_posting_index_new "[1]" "posting_with_frequency 7 2"] by (simp add: room_for_def)

section \<open>Sorting, views and conversions\<close>

lemma dedup_id: "sorted_wrt (<) (map p_doc_id ps) \<Longrightarrow> dedup_by_id ps = ps"
  by (induction ps rule: dedup_by_id.induct) auto

lemma optimize_id: "list_ok l \<Longrightarrow> optimize_list l = l"
  using strict_sorted_imp_sorted [of "ids_of l"]
  by (auto simp: optimize_list_def list_ok_def dedup_id sorted_sort_id sort_key_id_if_sorted)

lemma dedup_sorted: "sorted (map p_doc_id ps) \<Longrightarrow>
   sorted_wrt (<) (map p_doc_id (dedup_by_id ps)) \<and> p_doc_id ` set (dedup_by_id ps) = p_doc_id ` set ps"
proof (induction ps rule: dedup_by_id.induct)
  case (3 p q ps)
  then show ?case by (cases "p_doc_id q = p_doc_id p") force+
qed auto

lemma optimize_sorts: "sorted_wrt (<) (ids_of (optimize_list l))" "set (ids_of (optimize_list l)) = set (ids_of l)"
  using dedup_sorted [of "sort_key p_doc_id (pl_postings l)"] by (simp_all add: optimize_list_def)

lemma zip_map_all: "zip (map f xs) (map g xs) = map (\<lambda>x. (f x, g x)) xs"
  by (induction xs) auto

lemma into_from:
  assumes "\<forall>p \<in> set (pl_postings l). p_doc_id p < 2 ^ 32"
  shows "into_posting_list (from_posting_list l) = l"
proof -
  let ?ps = "pl_postings l"
  have ids: "unat (word_of_nat (p_doc_id p) :: u32) = p_doc_id p" if "p \<in> set ?ps" for p
    using assms that by (simp add: unat_of_nat)
  have none: "replicate (length ?ps) None = map p_positions ?ps" if "\<not> any_positions l"
    using that by (intro nth_equalityI) (auto simp: any_positions_def)
  have w: "(if map p_weight ?ps = [] then replicate (length ?ps) ONE_F32 else map p_weight ?ps) = map p_weight ?ps" by simp
  have "map (\<lambda>p. \<lparr>p_doc_id = unat (word_of_nat (p_doc_id p) :: u32), p_frequency = p_frequency p,
      p_positions = p_positions p, p_weight = p_weight p\<rparr>) ?ps = ?ps"
    by (rule map_idI) (simp add: ids)
  then show ?thesis
    using none by (cases "any_positions l") (simp_all add: into_posting_list_def from_posting_list_def Let_def zip_map_all comp_def w)
qed

text \<open>
  The cursor over the arrays of a posting list says \<open>true\<close> at the end of the list, where the
  cursor over the list itself says \<open>false\<close>: the caller reads a document that is not there.
\<close>

theorem soa_skip_to_past_the_end:
  "soa_skip_to 9 (to_soa (add_posting (posting_with_frequency 7 2) (posting_list_new [1]))) 0 = (True, 1) \<and>
   fst (soa_next (to_soa (add_posting (posting_with_frequency 7 2) (posting_list_new [1]))) 1) = None \<and>
   pit_skip_to 9 (pl_postings (add_posting (posting_with_frequency 7 2) (posting_list_new [1]))) 0 = (False, 1)"
  by (simp add: add_posting_def posting_list_new_def search_by_key.simps [of "[]"] posting_with_frequency_def
      to_soa_def soa_skip_to_def soa_next_def pit_skip_to_def scan_from.simps)

end
