(* ===== verification/Posting_Codec.thy ===== *)
theory Posting_Codec
  imports Posting_Lists
begin

text \<open>
  Posting lists on disk, \<^verbatim>\<open>laurus/src/lexical/index/inverted/core/posting.rs\<close>: the encoder and the
  decoder of the three formats, with the checks by which the decoder rejects what no encoder wrote.
\<close>

section \<open>Formats and the bit packer\<close>

datatype posting_format = V1 | V2 | V3

fun has_skip_levels :: "posting_format \<Rightarrow> bool" where
  "has_skip_levels V1 = False"
| "has_skip_levels V2 = True"
| "has_skip_levels V3 = True"

fun has_weight_flag :: "posting_format \<Rightarrow> bool" where
  "has_weight_flag V1 = False"
| "has_weight_flag V2 = False"
| "has_weight_flag V3 = True"

definition POSTING_BLOCK_LEN :: nat where "POSTING_BLOCK_LEN = 128"

text \<open>
  The packing of a block of 128 numbers is that of the \<open>bitpacking\<close> crate, a parameter. Its documented
  behaviour: a block takes the number of bits it asks for, at most 32, times 16 bytes, and unpacks to
  what was packed, for an ascending block relative to a number not above its first.
\<close>

record bitpacker =
  num_bits :: "u32 list \<Rightarrow> u8"
  compress :: "u32 list \<Rightarrow> u8 \<Rightarrow> bytes"
  decompress :: "bytes \<Rightarrow> u8 \<Rightarrow> u32 list"
  num_bits_sorted :: "u32 \<Rightarrow> u32 list \<Rightarrow> u8"
  compress_sorted :: "u32 \<Rightarrow> u32 list \<Rightarrow> u8 \<Rightarrow> bytes"
  decompress_sorted :: "u32 \<Rightarrow> bytes \<Rightarrow> u8 \<Rightarrow> u32 list"

definition packed_len :: "u8 \<Rightarrow> nat" where
  "packed_len bits = unat bits * POSTING_BLOCK_LEN div 8"

definition packs_blocks :: "bitpacker \<Rightarrow> bool" where
  "packs_blocks bp \<longleftrightarrow>
     (\<forall>b. length b = POSTING_BLOCK_LEN \<longrightarrow> num_bits bp b \<le> 32 \<and>
        length (compress bp b (num_bits bp b)) = packed_len (num_bits bp b) \<and>
        decompress bp (compress bp b (num_bits bp b)) (num_bits bp b) = b) \<and>
     (\<forall>i b. length b = POSTING_BLOCK_LEN \<longrightarrow> sorted (i # b) \<longrightarrow> num_bits_sorted bp i b \<le> 32 \<and>
        length (compress_sorted bp i b (num_bits_sorted bp i b)) = packed_len (num_bits_sorted bp i b) \<and>
        decompress_sorted bp i (compress_sorted bp i b (num_bits_sorted bp i b)) (num_bits_sorted bp i b) = b)"

text \<open>Whatever it is given, unpacking fills the buffer of 128 numbers.\<close>

definition fills_blocks :: "bitpacker \<Rightarrow> bool" where
  "fills_blocks bp \<longleftrightarrow> (\<forall>z n. length (decompress bp z n) = POSTING_BLOCK_LEN) \<and>
     (\<forall>i z n. length (decompress_sorted bp i z n) = POSTING_BLOCK_LEN)"

section \<open>Encoding\<close>

definition u32_of_doc :: "nat \<Rightarrow> u32 res" where
  "u32_of_doc did =
     (if did < 2 ^ 32 then Inr (word_of_nat did)
      else Inl (Index ''doc_id exceeds u32::MAX; segment is too large for bit-packed posting format''))"

fun u32_ids :: "posting list \<Rightarrow> u32 list res" where
  "u32_ids [] = Inr []"
| "u32_ids (p # ps) = rbind (u32_of_doc (p_doc_id p)) (\<lambda>did. map_sum id ((#) did) (u32_ids ps))"

fun write_each :: "('a \<Rightarrow> (struct_writer, unit) io) \<Rightarrow> 'a list \<Rightarrow> (struct_writer, unit) io" where
  "write_each w [] = ret ()"
| "write_each w (x # xs) = sbind (w x) (\<lambda>_. write_each w xs)"

definition flag :: "bool \<Rightarrow> u8" where
  "flag b = (if b then 1 else 0)"

definition write_level :: "u32 list \<Rightarrow> (struct_writer, unit) io" where
  "write_level level = sbind (sw_write_varint (word_of_nat (length level))) (\<lambda>_. write_each sw_write_u32 level)"

definition write_skip_table :: "posting list \<Rightarrow> (struct_writer, unit) io" where
  "write_skip_table ps = sbind (lift_res (u32_ids ps)) (\<lambda>ids.
     let levels = skip_table ids
     in if length levels < 256 then sbind (sw_write_u8 (word_of_nat (length levels))) (\<lambda>_. write_each write_level levels)
        else fail (Index ''skip level count exceeds u8::MAX; refusing to encode''))"

text \<open>The subtraction of ids wraps on 64 bits; ids ascend in every list that \<open>add_posting\<close> built.\<close>

fun write_doc_tail :: "u64 \<Rightarrow> posting list \<Rightarrow> (struct_writer, unit) io" where
  "write_doc_tail prev_did [] = ret ()"
| "write_doc_tail prev_did (p # ps) =
     sbind (lift_res (u32_of_doc (p_doc_id p))) (\<lambda>_.
     sbind (sw_write_varint (word_of_nat (p_doc_id p) - prev_did)) (\<lambda>_.
     write_doc_tail (word_of_nat (p_doc_id p)) ps))"

text \<open>The first argument counts the full blocks that are left.\<close>

fun write_doc_blocks :: "bitpacker \<Rightarrow> nat \<Rightarrow> u32 \<Rightarrow> posting list \<Rightarrow> (struct_writer, unit) io" where
  "write_doc_blocks bp 0 initial ps = write_doc_tail (ucast initial) ps"
| "write_doc_blocks bp (Suc k) initial ps =
     sbind (lift_res (u32_ids (take POSTING_BLOCK_LEN ps))) (\<lambda>buf.
       let bits = num_bits_sorted bp initial buf
       in sbind (sw_write_u8 bits) (\<lambda>_.
          sbind (sw_write_raw (compress_sorted bp initial buf bits)) (\<lambda>_.
          write_doc_blocks bp k (buf ! (POSTING_BLOCK_LEN - 1)) (drop POSTING_BLOCK_LEN ps))))"

fun write_freq_blocks :: "bitpacker \<Rightarrow> nat \<Rightarrow> u32 list \<Rightarrow> (struct_writer, unit) io" where
  "write_freq_blocks bp 0 fs = write_each (\<lambda>f. sw_write_varint (ucast f)) fs"
| "write_freq_blocks bp (Suc k) fs =
     (let buf = take POSTING_BLOCK_LEN fs; bits = num_bits bp buf
      in sbind (sw_write_u8 bits) (\<lambda>_.
         sbind (sw_write_raw (compress bp buf bits)) (\<lambda>_.
         write_freq_blocks bp k (drop POSTING_BLOCK_LEN fs))))"

definition write_positions :: "u32 list option \<Rightarrow> (struct_writer, unit) io" where
  "write_positions positions =
     (case positions of
        None \<Rightarrow> sw_write_u8 0
      | Some ps \<Rightarrow>
          let ps' = (if sorted ps then ps else sort ps)
          in sbind (sw_write_u8 1) (\<lambda>_. sbind (sw_write_varint (word_of_nat (length ps'))) (\<lambda>_. write_deltas 0 ps')))"

definition encode_header_and_payload :: "bitpacker \<Rightarrow> posting_format \<Rightarrow> posting_list \<Rightarrow> (struct_writer, unit) io" where
  "encode_header_and_payload bp format l =
     (let ps = pl_postings l; n = length ps;
          any_weights = (has_weight_flag format \<and> (\<exists>p \<in> set ps. p_weight p \<noteq> ONE_F32))
      in sbind (sw_write_string (pl_term l)) (\<lambda>_.
         sbind (sw_write_varint (pl_total_frequency l)) (\<lambda>_.
         sbind (sw_write_varint (pl_doc_frequency l)) (\<lambda>_.
         sbind (sw_write_varint (word_of_nat n)) (\<lambda>_.
         sbind (sw_write_u8 (flag (any_positions l))) (\<lambda>_.
         sbind (if has_weight_flag format then sw_write_u8 (flag any_weights) else ret ()) (\<lambda>_.
         sbind (if has_skip_levels format then write_skip_table ps else ret ()) (\<lambda>_.
         if n = 0 then ret ()
         else sbind (write_doc_blocks bp (n div POSTING_BLOCK_LEN) 0 ps) (\<lambda>_.
              sbind (write_freq_blocks bp (n div POSTING_BLOCK_LEN) (map p_frequency ps)) (\<lambda>_.
              sbind (if \<not> has_weight_flag format \<or> any_weights
                     then write_each (\<lambda>p. sw_write_f32 (p_weight p)) ps else ret ()) (\<lambda>_.
              if any_positions l then write_each (\<lambda>p. write_positions (p_positions p)) ps else ret ())))))))))))"

section \<open>Decoding\<close>

definition sat :: "nat \<Rightarrow> nat" where
  "sat n = min n u64_max"

definition bounded_posting_count :: "nat \<Rightarrow> u64 \<Rightarrow> bool \<Rightarrow> bool \<Rightarrow> u64 option \<Rightarrow> nat res" where
  "bounded_posting_count available n any_weights positions max_postings =
     (if (case max_postings of Some m \<Rightarrow> m < n | None \<Rightarrow> False)
      then Inl (Index ''posting list: header declares more postings than the segment holds documents'')
      else let per_posting = (if any_weights then 4 else 0) + (if positions then 1 else 0);
               min_bytes = sat (sat (sat (unat n div POSTING_BLOCK_LEN * 2) + sat (unat n mod POSTING_BLOCK_LEN * 2)) +
                                sat (unat n * per_posting))
           in if min_bytes > available then Inl (Index ''posting list: header declares more postings than bytes are left for'')
              else checked_usize n ''posting list posting count'')"

definition checked_num_bits :: "u8 \<Rightarrow> u8 res" where
  "checked_num_bits bits =
     (if bits > 32 then Inl (Index ''posting list: a block declares more than 32 bits per value'') else Inr bits)"

definition read_flag :: "(struct_reader, bool) io" where
  "read_flag = sbind sr_read_u8 (\<lambda>b.
     if b = 0 then ret False else if b = 1 then ret True
     else fail (Index ''posting list: a flag is not 0 or 1''))"

definition check_ascending_doc_ids :: "u32 list \<Rightarrow> unit res" where
  "check_ascending_doc_ids ids =
     (if fold (\<lambda>(a, b) bad. bad \<or> a \<ge> b) (zip ids (tl ids)) False
      then Inl (Index ''posting list: doc ids are not strictly ascending'') else Inr ())"

text \<open>The table on disk is compared level by level with the one the shape calls for.\<close>

fun levels_match :: "(nat \<times> nat) list \<Rightarrow> u32 list list \<Rightarrow> u32 list \<Rightarrow> bool" where
  "levels_match [] levels ids = (levels = [])"
| "levels_match ((step, len) # shape) [] ids = False"
| "levels_match ((step, len) # shape) (level # levels) ids =
     (length level = len \<and> list_all (\<lambda>i. level ! i = ids ! ((i + 1) * step - 1)) [0..<len] \<and>
      levels_match shape levels ids)"

definition skip_levels_match :: "u32 list list \<Rightarrow> u32 list \<Rightarrow> bool" where
  "skip_levels_match levels ids = levels_match (skip_level_shape (length ids)) levels ids"

definition check_skip_levels :: "posting_format \<Rightarrow> u32 list list \<Rightarrow> u32 list \<Rightarrow> unit res" where
  "check_skip_levels format levels ids =
     (if has_skip_levels format \<and> \<not> skip_levels_match levels ids
      then Inl (Index ''posting list: the skip table does not match its doc ids'') else Inr ())"

definition read_level :: "(struct_reader, u32 list) io" where
  "read_level = sbind sr_read_varint (\<lambda>len s.
     sbind (lift_res (checked_capacity_u64 len 4 (sr_remaining s) ''posting skip level length''))
       (\<lambda>n. repeat_read n sr_read_u32) s)"

definition read_skip_table :: "(struct_reader, u32 list list) io" where
  "read_skip_table = sbind sr_read_u8 (\<lambda>levels. repeat_read (unat levels) read_level)"

definition read_packed :: "(bytes \<Rightarrow> u8 \<Rightarrow> u32 list) \<Rightarrow> (struct_reader, u32 list) io" where
  "read_packed unpack = sbind sr_read_u8 (\<lambda>b. sbind (lift_res (checked_num_bits b)) (\<lambda>bits.
     sr_read_raw_with (packed_len bits) (\<lambda>z. unpack z bits)))"

fun read_doc_blocks :: "bitpacker \<Rightarrow> nat \<Rightarrow> u32 \<Rightarrow> (struct_reader, u32 list \<times> u32) io" where
  "read_doc_blocks bp 0 initial = ret ([], initial)"
| "read_doc_blocks bp (Suc k) initial =
     sbind (read_packed (decompress_sorted bp initial)) (\<lambda>buf.
     sbind (read_doc_blocks bp k (buf ! (POSTING_BLOCK_LEN - 1))) (\<lambda>(ids, prev). ret (buf @ ids, prev)))"

text \<open>\<open>checked_add\<close> in 64 bits, then \<open>try_from\<close> to 32.\<close>

definition add_u32 :: "u32 \<Rightarrow> u64 \<Rightarrow> u32 option" where
  "add_u32 prev delta = (if unat prev + unat delta < 2 ^ 32 then Some (word_of_nat (unat prev + unat delta)) else None)"

fun read_doc_tail :: "nat \<Rightarrow> u32 \<Rightarrow> (struct_reader, u32 list) io" where
  "read_doc_tail 0 prev_did = ret []"
| "read_doc_tail (Suc k) prev_did = sbind sr_read_varint (\<lambda>delta.
     case add_u32 prev_did delta of
       None \<Rightarrow> fail (Index ''posting list: a doc id delta exceeds u32::MAX'')
     | Some did \<Rightarrow> sbind (read_doc_tail k did) (\<lambda>ids. ret (did # ids)))"

fun read_freq_blocks :: "bitpacker \<Rightarrow> nat \<Rightarrow> (struct_reader, u32 list) io" where
  "read_freq_blocks bp 0 = ret []"
| "read_freq_blocks bp (Suc k) =
     sbind (read_packed (decompress bp)) (\<lambda>buf. sbind (read_freq_blocks bp k) (\<lambda>fs. ret (buf @ fs)))"

definition read_freq :: "(struct_reader, u32) io" where
  "read_freq = sbind sr_read_varint (\<lambda>f.
     if unat f < 2 ^ 32 then ret (ucast f) else fail (Index ''posting list: a frequency exceeds u32::MAX''))"

fun read_position_deltas :: "nat \<Rightarrow> u32 \<Rightarrow> (struct_reader, u32 list) io" where
  "read_position_deltas 0 prev_pos = ret []"
| "read_position_deltas (Suc k) prev_pos = sbind sr_read_varint (\<lambda>delta.
     case add_u32 prev_pos delta of
       None \<Rightarrow> fail (Index ''posting list: a position delta exceeds u32::MAX'')
     | Some pos \<Rightarrow> sbind (read_position_deltas k pos) (\<lambda>ps. ret (pos # ps)))"

definition read_positions :: "u32 \<Rightarrow> (struct_reader, u32 list option) io" where
  "read_positions frequency = sbind read_flag (\<lambda>has.
     if has then
       sbind sr_read_varint (\<lambda>count s.
         sbind (lift_res (checked_capacity_u64 count 1 (sr_remaining s) ''posting position count'')) (\<lambda>n.
           if n \<noteq> unat frequency then fail (Index ''posting list: a frequency is not its number of positions'')
           else sbind (read_position_deltas n 0) (\<lambda>ps. ret (Some ps))) s)
     else ret None)"

fun read_all_positions :: "u32 list \<Rightarrow> (struct_reader, u32 list option list) io" where
  "read_all_positions [] = ret []"
| "read_all_positions (f # fs) =
     sbind (read_positions f) (\<lambda>ps. sbind (read_all_positions fs) (\<lambda>pss. ret (ps # pss)))"

definition decode_sections ::
    "bitpacker \<Rightarrow> posting_format \<Rightarrow> nat \<Rightarrow> bool \<Rightarrow> bool \<Rightarrow> u32 list list \<Rightarrow> decoded_posting_list \<Rightarrow>
     (struct_reader, decoded_posting_list) io" where
  "decode_sections bp format n any_weights positions disk_levels header =
     sbind (read_doc_blocks bp (n div POSTING_BLOCK_LEN) 0) (\<lambda>(block_ids, initial).
     sbind (read_doc_tail (n mod POSTING_BLOCK_LEN) initial) (\<lambda>tail_ids.
     let ids = block_ids @ tail_ids in
     sbind (lift_res (check_ascending_doc_ids ids)) (\<lambda>_.
     sbind (lift_res (check_skip_levels format disk_levels ids)) (\<lambda>_.
     sbind (read_freq_blocks bp (n div POSTING_BLOCK_LEN)) (\<lambda>block_fs.
     sbind (repeat_read (n mod POSTING_BLOCK_LEN) read_freq) (\<lambda>tail_fs.
     let fs = block_fs @ tail_fs in
     sbind (if any_weights then repeat_read n sr_read_f32 else ret []) (\<lambda>weights.
     sbind (if positions then sbind (read_all_positions fs) (\<lambda>pss. ret (Some pss)) else ret None) (\<lambda>positions.
     ret (header\<lparr>d_doc_ids := ids, d_frequencies := fs, d_weights := weights, d_positions := positions,
       d_skip_levels := if has_skip_levels format then disk_levels else skip_table ids\<rparr>)))))))))"

definition decode_soa_inner ::
    "bitpacker \<Rightarrow> posting_format \<Rightarrow> u64 option \<Rightarrow> (struct_reader, decoded_posting_list) io" where
  "decode_soa_inner bp format max_postings =
     sbind sr_read_string (\<lambda>term.
     sbind sr_read_varint (\<lambda>total_frequency.
     sbind sr_read_varint (\<lambda>doc_frequency.
     sbind sr_read_varint (\<lambda>n.
     sbind read_flag (\<lambda>positions.
     sbind (if has_weight_flag format then read_flag else ret True) (\<lambda>any_weights.
     sbind (if has_skip_levels format then read_skip_table else ret []) (\<lambda>disk_levels s.
     sbind (lift_res (bounded_posting_count (sr_remaining s) n any_weights positions max_postings)) (\<lambda>n.
       let header = \<lparr>d_term = term, d_doc_ids = [], d_frequencies = [], d_weights = [],
             d_positions = (if positions then Some [] else None), d_skip_levels = disk_levels,
             d_total_frequency = total_frequency, d_doc_frequency = doc_frequency\<rparr>
       in if n = 0 then sbind (lift_res (check_skip_levels format disk_levels [])) (\<lambda>_. ret header)
          else decode_sections bp format n any_weights positions disk_levels header) s)))))))"

definition decode_soa_for_segment ::
    "bitpacker \<Rightarrow> nat \<Rightarrow> u64 \<Rightarrow> (struct_reader, decoded_posting_list) io" where
  "decode_soa_for_segment bp version max_postings =
     decode_soa_inner bp (if version = 1 then V1 else if version = 2 then V2 else V3) (Some max_postings)"

definition decode_list :: "bitpacker \<Rightarrow> posting_format \<Rightarrow> (struct_reader, posting_list) io" where
  "decode_list bp format = sbind (decode_soa_inner bp format None) (\<lambda>d. ret (into_posting_list d))"

section \<open>The bytes of a list\<close>

definition ids32 :: "posting list \<Rightarrow> u32 list" where
  "ids32 ps = map (\<lambda>p. word_of_nat (p_doc_id p)) ps"

definition level_bytes :: "u32 list \<Rightarrow> bytes" where
  "level_bytes level = encode_u64 (word_of_nat (length level)) @ concat (map (\<lambda>v. le_bytes 4 (unat v)) level)"

definition skip_bytes :: "u32 list \<Rightarrow> bytes" where
  "skip_bytes ids = word_of_nat (length (skip_table ids)) # concat (map level_bytes (skip_table ids))"

fun doc_tail_bytes :: "u64 \<Rightarrow> u32 list \<Rightarrow> bytes" where
  "doc_tail_bytes prev [] = []"
| "doc_tail_bytes prev (v # vs) = encode_u64 (ucast v - prev) @ doc_tail_bytes (ucast v) vs"

fun doc_block_bytes :: "bitpacker \<Rightarrow> nat \<Rightarrow> u32 \<Rightarrow> u32 list \<Rightarrow> bytes" where
  "doc_block_bytes bp 0 initial ids = []"
| "doc_block_bytes bp (Suc k) initial ids =
     (let buf = take POSTING_BLOCK_LEN ids; bits = num_bits_sorted bp initial buf
      in (bits # compress_sorted bp initial buf bits) @
         doc_block_bytes bp k (buf ! (POSTING_BLOCK_LEN - 1)) (drop POSTING_BLOCK_LEN ids))"

text \<open>The last id of the blocks, from which the tail goes on.\<close>

fun block_end :: "nat \<Rightarrow> u32 \<Rightarrow> u32 list \<Rightarrow> u32" where
  "block_end 0 initial ids = initial"
| "block_end (Suc k) initial ids = block_end k (take POSTING_BLOCK_LEN ids ! (POSTING_BLOCK_LEN - 1)) (drop POSTING_BLOCK_LEN ids)"

fun freq_block_bytes :: "bitpacker \<Rightarrow> nat \<Rightarrow> u32 list \<Rightarrow> bytes" where
  "freq_block_bytes bp 0 fs = []"
| "freq_block_bytes bp (Suc k) fs =
     (let buf = take POSTING_BLOCK_LEN fs; bits = num_bits bp buf
      in (bits # compress bp buf bits) @ freq_block_bytes bp k (drop POSTING_BLOCK_LEN fs))"

definition freq_tail_bytes :: "u32 list \<Rightarrow> bytes" where
  "freq_tail_bytes fs = concat (map (\<lambda>f. encode_u64 (ucast f)) fs)"

definition position_bytes :: "u32 list option \<Rightarrow> bytes" where
  "position_bytes positions = (case positions of
     None \<Rightarrow> [0] | Some ps \<Rightarrow> 1 # encode_u64 (word_of_nat (length ps)) @ delta_bytes 0 (sort ps))"

definition section_bytes :: "bitpacker \<Rightarrow> bool \<Rightarrow> bool \<Rightarrow> posting list \<Rightarrow> bytes" where
  "section_bytes bp weights positions ps =
     (let ids = ids32 ps; fs = map p_frequency ps; k = length ps div POSTING_BLOCK_LEN; m = k * POSTING_BLOCK_LEN
      in (doc_block_bytes bp k 0 ids @ doc_tail_bytes (ucast (block_end k 0 ids)) (drop m ids)) @
         (freq_block_bytes bp k fs @ freq_tail_bytes (drop m fs)) @
         (if weights then concat (map (\<lambda>p. le_bytes 4 (unat (p_weight p))) ps) else []) @
         (if positions then concat (map (\<lambda>p. position_bytes (p_positions p)) ps) else []))"

definition any_weights :: "posting_list \<Rightarrow> bool" where
  "any_weights l \<longleftrightarrow> (\<exists>p \<in> set (pl_postings l). p_weight p \<noteq> ONE_F32)"

definition posting_bytes :: "bitpacker \<Rightarrow> posting_format \<Rightarrow> posting_list \<Rightarrow> bytes" where
  "posting_bytes bp format l =
     string_bytes (pl_term l) @ encode_u64 (pl_total_frequency l) @ encode_u64 (pl_doc_frequency l) @
     encode_u64 (word_of_nat (length (pl_postings l))) @ [flag (any_positions l)] @
     (if has_weight_flag format then [flag (any_weights l)] else []) @
     (if has_skip_levels format then skip_bytes (ids32 (pl_postings l)) else []) @
     (if pl_postings l = [] then []
      else section_bytes bp (\<not> has_weight_flag format \<or> any_weights l) (any_positions l) (pl_postings l))"

section \<open>What the encoder writes\<close>

lemma sbind_lift [simp]: "sbind (lift_res (Inr x)) f = f x"
  by (simp add: lift_res_def)

lemma emits_each: "(\<And>x. emits (w x) (f x)) \<Longrightarrow> emits (write_each w xs) (concat (map f xs))"
  by (induction xs) (simp_all add: emits_ret emits_sbind)

lemma emits_opt: "(b \<Longrightarrow> emits w bs) \<Longrightarrow> emits (if b then w else ret ()) (if b then bs else [])"
  by (simp add: emits_ret)

lemma u32_ids_ok: "\<forall>p \<in> set ps. p_doc_id p < 2 ^ 32 \<Longrightarrow> u32_ids ps = Inr (ids32 ps)"
  by (induction ps) (auto simp: ids32_def u32_of_doc_def)

lemma emits_skip_table:
  assumes "\<forall>p \<in> set ps. p_doc_id p < 2 ^ 32" "length (skip_table (ids32 ps)) < 256"
  shows "emits (write_skip_table ps) (skip_bytes (ids32 ps))"
proof -
  have "emits (write_level l) (level_bytes l)" for l
    unfolding write_level_def level_bytes_def by (intro emits_sbind emits_each emits_fixed)
  then have "emits (sbind (sw_write_u8 b) (\<lambda>_. write_each write_level ls)) ([b] @ concat (map level_bytes ls))" for b ls
    by (intro emits_sbind emits_each emits_fixed)
  with assms show ?thesis by (simp add: write_skip_table_def u32_ids_ok skip_bytes_def Let_def)
qed

lemma doc_u64: "d < 2 ^ 32 \<Longrightarrow> (ucast (word_of_nat d :: u32) :: u64) = word_of_nat d"
  using of_nat_unat [of "word_of_nat d :: u32", where 'a = "64 word"] by (simp add: unat_of_nat)

lemma emits_doc_tail:
  "\<forall>p \<in> set ps. p_doc_id p < 2 ^ 32 \<Longrightarrow> emits (write_doc_tail prev ps) (doc_tail_bytes prev (ids32 ps))"
proof (induction ps arbitrary: prev)
  case (Cons p ps)
  then have "emits (sbind (sw_write_varint (word_of_nat (p_doc_id p) - prev)) (\<lambda>_. write_doc_tail (word_of_nat (p_doc_id p)) ps))
      (encode_u64 (word_of_nat (p_doc_id p) - prev) @ doc_tail_bytes (word_of_nat (p_doc_id p)) (ids32 ps))"
    by (intro emits_sbind emits_fixed) auto
  with Cons.prems show ?case by (simp add: u32_of_doc_def ids32_def doc_u64)
qed (simp add: emits_ret ids32_def)

lemma ids32_take_drop: "ids32 (take n ps) = take n (ids32 ps)" "ids32 (drop n ps) = drop n (ids32 ps)"
  by (simp_all add: ids32_def take_map drop_map)

lemma emits_doc_blocks:
  "\<forall>p \<in> set ps. p_doc_id p < 2 ^ 32 \<Longrightarrow> emits (write_doc_blocks bp k initial ps)
     (doc_block_bytes bp k initial (ids32 ps) @
      doc_tail_bytes (ucast (block_end k initial (ids32 ps))) (drop (k * POSTING_BLOCK_LEN) (ids32 ps)))"
proof (induction bp k initial ps rule: write_doc_blocks.induct)
  case (1 bp initial ps)
  then show ?case using emits_doc_tail by simp
next
  case (2 bp k initial ps)
  let ?buf = "take POSTING_BLOCK_LEN (ids32 ps)"
  let ?bits = "num_bits_sorted bp initial ?buf"
  have small: "\<forall>p \<in> set (take POSTING_BLOCK_LEN ps). p_doc_id p < 2 ^ 32" "\<forall>p \<in> set (drop POSTING_BLOCK_LEN ps). p_doc_id p < 2 ^ 32"
    using 2(2) by (auto dest: in_set_takeD in_set_dropD)
  note IH = 2(1) [OF refl small(2), of ?buf, unfolded ids32_take_drop]
  have "emits (sbind (sw_write_u8 ?bits) (\<lambda>_. sbind (sw_write_raw (compress_sorted bp initial ?buf ?bits)) (\<lambda>_.
      write_doc_blocks bp k (?buf ! (POSTING_BLOCK_LEN - 1)) (drop POSTING_BLOCK_LEN ps))))
    ([?bits] @ compress_sorted bp initial ?buf ?bits @
      (doc_block_bytes bp k (?buf ! (POSTING_BLOCK_LEN - 1)) (drop POSTING_BLOCK_LEN (ids32 ps)) @
       doc_tail_bytes (ucast (block_end k (?buf ! (POSTING_BLOCK_LEN - 1)) (drop POSTING_BLOCK_LEN (ids32 ps))))
         (drop (k * POSTING_BLOCK_LEN) (drop POSTING_BLOCK_LEN (ids32 ps)))))"
    by (intro emits_sbind emits_fixed IH)
  then show ?case by (simp add: u32_ids_ok [OF small(1)] ids32_take_drop Let_def add.commute)
qed

lemma emits_freq_blocks:
  "emits (write_freq_blocks bp k fs) (freq_block_bytes bp k fs @ freq_tail_bytes (drop (k * POSTING_BLOCK_LEN) fs))"
proof (induction bp k fs rule: write_freq_blocks.induct)
  case (1 bp fs)
  show ?case by (simp add: freq_tail_bytes_def emits_each emits_fixed)
next
  case (2 bp k fs)
  let ?buf = "take POSTING_BLOCK_LEN fs"
  have "emits (sbind (sw_write_u8 (num_bits bp ?buf)) (\<lambda>_. sbind (sw_write_raw (compress bp ?buf (num_bits bp ?buf))) (\<lambda>_.
      write_freq_blocks bp k (drop POSTING_BLOCK_LEN fs))))
    ([num_bits bp ?buf] @ compress bp ?buf (num_bits bp ?buf) @
     (freq_block_bytes bp k (drop POSTING_BLOCK_LEN fs) @
      freq_tail_bytes (drop (k * POSTING_BLOCK_LEN) (drop POSTING_BLOCK_LEN fs))))"
    by (intro emits_sbind emits_fixed 2 [OF refl refl])
  then show ?case by (simp add: Let_def add.commute)
qed

lemma emits_positions: "emits (write_positions ps) (position_bytes ps)"
proof (cases ps)
  case (Some qs)
  have "(if sorted qs then qs else sort qs) = sort qs" by (simp add: sorted_sort_id)
  moreover have "emits (sbind (sw_write_u8 1) (\<lambda>_. sbind (sw_write_varint (word_of_nat (length qs))) (\<lambda>_. write_deltas 0 (sort qs))))
      ([1] @ encode_u64 (word_of_nat (length qs)) @ delta_bytes 0 (sort qs))"
    by (intro emits_sbind emits_fixed emits_deltas)
  ultimately show ?thesis by (simp add: Some write_positions_def position_bytes_def Let_def)
qed (simp add: write_positions_def position_bytes_def emits_fixed)

text \<open>A list that can be written: its ids fit in 32 bits, and its table has as many levels as a byte counts.\<close>

definition writable :: "posting_list \<Rightarrow> bool" where
  "writable l \<longleftrightarrow> (\<forall>p \<in> set (pl_postings l). p_doc_id p < 2 ^ 32) \<and> length (skip_table (ids32 (pl_postings l))) < 256"

lemma encode_emits:
  assumes "writable l"
  shows "emits (encode_header_and_payload bp format l) (posting_bytes bp format l)"
proof -
  let ?ps = "pl_postings l"
  have small: "\<forall>p \<in> set ?ps. p_doc_id p < 2 ^ 32" and levels: "length (skip_table (ids32 ?ps)) < 256"
    using assms by (auto simp: writable_def)
  have w: "(has_weight_flag format \<and> (\<exists>p \<in> set ?ps. p_weight p \<noteq> ONE_F32)) = (has_weight_flag format \<and> any_weights l)"
    by (simp add: any_weights_def)
  have sections: "emits (sbind (write_doc_blocks bp k 0 ?ps) (\<lambda>_. sbind (write_freq_blocks bp k (map p_frequency ?ps)) (\<lambda>_.
      sbind (if c then write_each (\<lambda>p. sw_write_f32 (p_weight p)) ?ps else ret ()) (\<lambda>_.
      if d then write_each (\<lambda>p. write_positions (p_positions p)) ?ps else ret ()))))
    ((doc_block_bytes bp k 0 (ids32 ?ps) @
      doc_tail_bytes (ucast (block_end k 0 (ids32 ?ps))) (drop (k * POSTING_BLOCK_LEN) (ids32 ?ps))) @
     (freq_block_bytes bp k (map p_frequency ?ps) @ freq_tail_bytes (drop (k * POSTING_BLOCK_LEN) (map p_frequency ?ps))) @
     (if c then concat (map (\<lambda>p. le_bytes 4 (unat (p_weight p))) ?ps) else []) @
     (if d then concat (map (\<lambda>p. position_bytes (p_positions p)) ?ps) else []))" for k c d
    by (intro emits_sbind emits_doc_blocks small emits_freq_blocks emits_opt emits_each emits_fixed emits_positions)
  have payload: "emits (if length ?ps = 0 then ret () else m) (if ?ps = [] then [] else bs)"
    if "emits m bs" for m bs using that by (simp add: emits_ret)
  have flags: "flag (has_weight_flag format \<and> any_weights l) = flag (any_weights l)" if "has_weight_flag format"
    using that by simp
  have "emits (encode_header_and_payload bp format l)
    (string_bytes (pl_term l) @ encode_u64 (pl_total_frequency l) @ encode_u64 (pl_doc_frequency l) @
     encode_u64 (word_of_nat (length ?ps)) @ [flag (any_positions l)] @
     (if has_weight_flag format then [flag (has_weight_flag format \<and> any_weights l)] else []) @
     (if has_skip_levels format then skip_bytes (ids32 ?ps) else []) @
     (if ?ps = [] then []
      else section_bytes bp (\<not> has_weight_flag format \<or> has_weight_flag format \<and> any_weights l) (any_positions l) ?ps))"
    unfolding encode_header_and_payload_def Let_def w section_bytes_def
    by (intro emits_sbind emits_string emits_fixed emits_opt emits_skip_table small levels payload sections)
  then show ?thesis by (simp add: posting_bytes_def flags cong: if_cong)
qed

section \<open>What the decoder reads\<close>

lemma reads_opt: "(b \<Longrightarrow> reads m bs rest x) \<Longrightarrow> reads (if b then m else ret y) (if b then bs else []) rest (if b then x else y)"
  by (simp add: reads_ret)

lemma reads_flag: "reads read_flag [flag b] rest b"
  unfolding read_flag_def by (rule reads_sbind0 [OF reads_ints(1)]) (simp add: flag_def reads_ret)

lemma reads_raw_with:
  assumes "length bs < 2 ^ 64"
  shows "reads (sr_read_raw_with (length bs) f) bs rest (f bs)"
  unfolding reads_def
proof (intro allI impI)
  fix s
  assume s: "sr_wf s" "rest_of s = bs @ rest"
  then have d: "drop (sr_cursor s) (sr_content s) = bs @ rest" by (simp add: sr_wf_def rest_of_def)
  show "sr_read_raw_with (length bs) f s = (Inr (f bs), advanced (length bs) s)"
  proof (cases "sr_lends s")
    case True
    then show ?thesis
      using d s(2) by (simp add: sr_read_raw_with_def Let_def advanced_def took_def)
  next
    case False
    have "reads (sbind (sr_read_raw (length bs)) (\<lambda>bs. ret (f bs))) bs rest (f bs)"
      by (rule reads_then_ret [OF reads_raw [OF assms]]) simp
    with s False show ?thesis by (simp add: sr_read_raw_with_def reads_def Let_def)
  qed
qed

lemma length_words: "length (concat (map (\<lambda>v. le_bytes 4 (unat v)) vs)) = 4 * length vs"
  by (induction vs) simp_all

lemma reads_words: "reads (repeat_read (length vs) sr_read_u32) (concat (map (\<lambda>v. le_bytes 4 (unat v)) vs)) rest vs"
  by (rule repeat_read_reads) (rule reads_ints(3))

lemma reads_level: "length level < 2 ^ 64 \<Longrightarrow> reads read_level (level_bytes level) rest level"
  unfolding read_level_def level_bytes_def by (rule reads_counted) (simp_all add: length_words reads_words)

lemma shape_bound:
  assumes "n < 2 ^ 64"
  shows "length (skip_level_shape n) \<le> 21"
proof (rule ccontr)
  assume "\<not> length (skip_level_shape n) \<le> 21"
  then have "21 < length (skip_level_shape_from n SKIP_INTERVAL)"
    by (auto simp: skip_level_shape_def split: if_splits)
  from shape_from_nth [OF this] have "SKIP_INTERVAL * SKIP_INTERVAL ^ 21 \<le> n"
    by (simp add: div_greater_zero_iff)
  with assms show False by (simp add: SKIP_INTERVAL_def)
qed

lemma length_skip_table [simp]: "length (skip_table ids) = length (skip_level_shape (length ids))"
  by (simp add: skip_table_def build_skip_levels_def)

lemma level_length: "level \<in> set (skip_table ids) \<Longrightarrow> length level \<le> length ids"
proof -
  assume "level \<in> set (skip_table ids)"
  then obtain i where i: "i < length (build_skip_levels (map unat ids))"
    "level = map word_of_nat (build_skip_levels (map unat ids) ! i)" by (auto simp: skip_table_def in_set_conv_nth)
  have "length level = length ids div SKIP_INTERVAL ^ (i + 1)"
    unfolding i(2) by (simp only: level_nth(1) [OF i(1)] length_map length_upt diff_zero)
  then show ?thesis by simp
qed

lemma reads_skip_table:
  assumes "length ids < 2 ^ 64"
  shows "reads read_skip_table (skip_bytes ids) rest (skip_table ids)"
proof -
  let ?t = "skip_table ids"
  have len: "unat (word_of_nat (length ?t) :: u8) = length ?t" using shape_bound [OF assms] by (simp add: unat_of_nat)
  have "reads (repeat_read (length ?t) read_level) (concat (map level_bytes ?t)) rest ?t"
    by (rule repeat_read_reads, rule reads_level) (meson assms level_length le_less_trans)
  then have "reads (repeat_read (unat (word_of_nat (length ?t) :: u8)) read_level) (concat (map level_bytes ?t)) rest ?t"
    by (simp only: len)
  then have "reads read_skip_table ([word_of_nat (length ?t)] @ concat (map level_bytes ?t)) rest ?t"
    unfolding read_skip_table_def by (rule reads_sbind [OF reads_ints(1)])
  then show ?thesis by (simp add: skip_bytes_def)
qed

lemma packed_len_small: "packed_len b < 2 ^ 64"
proof -
  have "unat b < 256" by (rule unat_u8)
  then have "unat b * 128 div 8 \<le> 256 * 128" by (simp del: unat_u8)
  then show ?thesis by (simp add: packed_len_def POSTING_BLOCK_LEN_def)
qed

lemma reads_packed:
  assumes "bits \<le> 32" "length z = packed_len bits"
  shows "reads (read_packed unpack) (bits # z) rest (unpack z bits)"
proof -
  have "reads (sr_read_raw_with (packed_len bits) (\<lambda>z. unpack z bits)) z rest (unpack z bits)"
    using reads_raw_with [of z "\<lambda>z. unpack z bits"] assms(2) packed_len_small [of bits] by simp
  then have "reads (read_packed unpack) ([bits] @ z) rest (unpack z bits)"
    unfolding read_packed_def using assms(1)
    by (intro reads_sbind [OF reads_ints(1)]) (auto simp: checked_num_bits_def dest: leD)
  then show ?thesis by simp
qed

lemma sorted_block:
  assumes "sorted (i # ids)" "POSTING_BLOCK_LEN \<le> length ids"
  shows "sorted (i # take POSTING_BLOCK_LEN ids)"
    "sorted ((take POSTING_BLOCK_LEN ids ! (POSTING_BLOCK_LEN - 1)) # drop POSTING_BLOCK_LEN ids)"
proof -
  have s: "sorted (take POSTING_BLOCK_LEN ids @ drop POSTING_BLOCK_LEN ids)" using assms(1) by simp
  have "ids ! (POSTING_BLOCK_LEN - 1) \<in> set (take POSTING_BLOCK_LEN ids)"
    using assms(2) by (auto simp: in_set_conv_nth POSTING_BLOCK_LEN_def intro!: exI [of _ 127])
  with s show "sorted ((take POSTING_BLOCK_LEN ids ! (POSTING_BLOCK_LEN - 1)) # drop POSTING_BLOCK_LEN ids)"
    unfolding sorted_append by (simp add: POSTING_BLOCK_LEN_def)
  show "sorted (i # take POSTING_BLOCK_LEN ids)"
    using assms(1) by (auto dest: in_set_takeD intro: sorted_wrt_take)
qed

lemma reads_doc_blocks:
  assumes "packs_blocks bp"
  shows "k * POSTING_BLOCK_LEN \<le> length ids \<Longrightarrow> sorted (initial # ids) \<Longrightarrow>
    reads (read_doc_blocks bp k initial) (doc_block_bytes bp k initial ids) rest
      (take (k * POSTING_BLOCK_LEN) ids, block_end k initial ids) \<and>
    sorted (block_end k initial ids # drop (k * POSTING_BLOCK_LEN) ids)"
proof (induction k arbitrary: initial ids)
  case 0
  then show ?case by (simp add: reads_ret)
next
  case (Suc k)
  let ?buf = "take POSTING_BLOCK_LEN ids" and ?tl = "drop POSTING_BLOCK_LEN ids"
  let ?bits = "num_bits_sorted bp initial ?buf"
  let ?z = "compress_sorted bp initial ?buf ?bits"
  have len: "POSTING_BLOCK_LEN \<le> length ids" "k * POSTING_BLOCK_LEN \<le> length ?tl" using Suc.prems(1) by auto
  note sorted = sorted_block [OF Suc.prems(2) len(1)]
  note IH = Suc.IH [OF len(2) sorted(2)]
  have b: "length ?buf = POSTING_BLOCK_LEN" using len(1) by simp
  from assms b sorted(1) have bits: "?bits \<le> 32" "length ?z = packed_len ?bits" "decompress_sorted bp initial ?z ?bits = ?buf"
    unfolding packs_blocks_def by blast+
  have p: "reads (read_packed (decompress_sorted bp initial)) (?bits # ?z) r ?buf" for r
    using reads_packed [OF bits(1,2), of "decompress_sorted bp initial" r] by (simp only: bits(3))
  have q: "reads (sbind (read_doc_blocks bp k (?buf ! (POSTING_BLOCK_LEN - 1))) (\<lambda>(ids, prev). ret (?buf @ ids, prev)))
      (doc_block_bytes bp k (?buf ! (POSTING_BLOCK_LEN - 1)) ?tl) rest
      (?buf @ take (k * POSTING_BLOCK_LEN) ?tl, block_end k (?buf ! (POSTING_BLOCK_LEN - 1)) ?tl)"
    by (rule reads_sbind0 [OF IH [THEN conjunct1]]) (simp add: reads_ret)
  have "reads (read_doc_blocks bp (Suc k) initial)
     ((?bits # ?z) @ doc_block_bytes bp k (?buf ! (POSTING_BLOCK_LEN - 1)) ?tl) rest
     (?buf @ take (k * POSTING_BLOCK_LEN) ?tl, block_end k (?buf ! (POSTING_BLOCK_LEN - 1)) ?tl)"
    unfolding read_doc_blocks.simps by (rule reads_sbind [OF p]) (rule q)
  moreover have "take (Suc k * POSTING_BLOCK_LEN) ids = ?buf @ take (k * POSTING_BLOCK_LEN) ?tl"
    by (simp add: take_add)
  moreover have "drop (Suc k * POSTING_BLOCK_LEN) ids = drop (k * POSTING_BLOCK_LEN) ?tl" by (simp add: add.commute)
  ultimately show ?case using IH [THEN conjunct2] by (simp add: Let_def)
qed

lemma unat_u32 [simp]: "unat (w :: u32) < 4294967296"
  using unsigned_less [of w, where 'a = nat] by simp

lemma unat_u32_u64: "unat (ucast (w :: u32) :: u64) = unat w"
proof -
  have "unat w < 2 ^ 64" by (rule less_trans [OF unat_u32]) simp
  then show ?thesis by (simp add: unsigned_ucast_eq take_bit_nat_eq_self del: unat_u32)
qed

lemma add_u32_doc: "prev \<le> v \<Longrightarrow> add_u32 prev (ucast v - ucast prev) = Some (v :: u32)"
  "prev \<le> v \<Longrightarrow> add_u32 prev (ucast (v - prev)) = Some v"
proof -
  assume le: "prev \<le> v"
  note u = unat_u32_u64
  have le': "(ucast prev :: u64) \<le> ucast v" using le by (simp add: word_le_nat_alt u)
  have "unat (ucast v - ucast prev :: u64) = unat v - unat prev"
    using le' by (simp add: unat_sub u)
  moreover have "unat (ucast (v - prev) :: u64) = unat v - unat prev" using le by (simp add: u unat_sub)
  moreover have "unat prev \<le> unat v" "unat v < 2 ^ 32" using le by (simp_all add: word_le_nat_alt)
  ultimately show "add_u32 prev (ucast v - ucast prev) = Some v" "add_u32 prev (ucast (v - prev)) = Some v"
    by (simp_all add: add_u32_def)
qed

lemma reads_doc_tail:
  "sorted (prev # ids) \<Longrightarrow> reads (read_doc_tail (length ids) prev) (doc_tail_bytes (ucast prev) ids) rest ids"
proof (induction ids arbitrary: prev)
  case (Cons v ids)
  then have "prev \<le> v" "sorted (v # ids)" by auto
  with Cons.IH [of v] show ?case
    by (auto intro!: reads_sbind [OF reads_varint] reads_then_ret simp: add_u32_doc)
qed (simp add: reads_ret)

lemma reads_freq_blocks:
  assumes "packs_blocks bp"
  shows "k * POSTING_BLOCK_LEN \<le> length fs \<Longrightarrow>
    reads (read_freq_blocks bp k) (freq_block_bytes bp k fs) rest (take (k * POSTING_BLOCK_LEN) fs)"
proof (induction k arbitrary: fs)
  case (Suc k)
  let ?buf = "take POSTING_BLOCK_LEN fs" and ?tl = "drop POSTING_BLOCK_LEN fs"
  let ?bits = "num_bits bp ?buf"
  let ?z = "compress bp ?buf ?bits"
  have len: "length ?buf = POSTING_BLOCK_LEN" "k * POSTING_BLOCK_LEN \<le> length ?tl" using Suc.prems by auto
  from assms len(1) have bits: "?bits \<le> 32" "length ?z = packed_len ?bits" "decompress bp ?z ?bits = ?buf"
    unfolding packs_blocks_def by blast+
  have p: "reads (read_packed (decompress bp)) (?bits # ?z) r ?buf" for r
    using reads_packed [OF bits(1,2), of "decompress bp" r] by (simp only: bits(3))
  have "reads (read_freq_blocks bp (Suc k)) ((?bits # ?z) @ freq_block_bytes bp k ?tl) rest (?buf @ take (k * POSTING_BLOCK_LEN) ?tl)"
    unfolding read_freq_blocks.simps
    by (rule reads_sbind [OF p]) (rule reads_then_ret [OF Suc.IH [OF len(2)]], simp)
  then show ?case by (simp add: Let_def take_add)
qed (simp add: reads_ret)

lemma reads_freq_tail: "reads (repeat_read (length fs) read_freq) (freq_tail_bytes fs) rest fs"
  unfolding freq_tail_bytes_def
proof (rule repeat_read_reads)
  fix f :: u32 and rest
  have "unat (ucast f :: u64) < 2 ^ 32"
    by (simp add: unat_u32_u64)
  then show "reads read_freq (encode_u64 (ucast f)) rest f"
    unfolding read_freq_def by (intro reads_sbind0 [OF reads_varint]) (simp add: reads_ret)
qed

lemma reads_position_deltas:
  "sorted (prev # ps) \<Longrightarrow> reads (read_position_deltas (length ps) prev) (delta_bytes prev ps) rest ps"
proof (induction ps arbitrary: prev)
  case (Cons v ps)
  then have "prev \<le> v" "sorted (v # ps)" by auto
  with Cons.IH [of v] show ?case
    by (auto intro!: reads_sbind [OF reads_varint] reads_then_ret simp: add_u32_doc)
qed (simp add: reads_ret)

text \<open>What the decoder asks of a posting: its frequency is the number of its positions.\<close>

definition counts_positions :: "posting \<Rightarrow> bool" where
  "counts_positions p \<longleftrightarrow> (\<forall>ps. p_positions p = Some ps \<longrightarrow> length ps = unat (p_frequency p))"

lemma reads_positions:
  assumes "counts_positions p"
  shows "reads (read_positions (p_frequency p)) (position_bytes (p_positions p)) rest (map_option sort (p_positions p))"
proof (cases "p_positions p")
  case None
  have "reads (read_positions (p_frequency p)) [flag False] rest None"
    unfolding read_positions_def by (rule reads_sbind0 [OF reads_flag]) (simp add: reads_ret)
  then show ?thesis by (simp add: None position_bytes_def flag_def)
next
  case (Some ps)
  have len: "length ps = unat (p_frequency p)" using assms Some by (simp add: counts_positions_def)
  then have small: "length ps < 2 ^ 32" by simp
  have "reads (read_position_deltas (length ps) 0) (delta_bytes 0 (sort ps)) rest (sort ps)"
    using reads_position_deltas [of 0 "sort ps" rest] by simp
  then have "reads (sbind (read_position_deltas (length ps) 0) (\<lambda>ps. ret (Some ps))) (delta_bytes 0 (sort ps)) rest (Some (sort ps))"
    by (rule reads_then_ret) simp
  then have body: "reads (if length ps \<noteq> unat (p_frequency p) then fail e
      else sbind (read_position_deltas (length ps) 0) (\<lambda>ps. ret (Some ps))) (delta_bytes 0 (sort ps)) rest (Some (sort ps))" for e
    using len by simp
  have "length ps * max 1 1 \<le> length (delta_bytes 0 (sort ps)) + length rest"
    using length_delta_bytes [of "sort ps" 0] by simp
  from reads_counted [where f = "\<lambda>n. if n \<noteq> unat (p_frequency p) then fail e
      else sbind (read_position_deltas n 0) (\<lambda>ps. ret (Some ps))" for e, OF _ this body] small
  have "reads (read_positions (p_frequency p)) ([flag True] @ encode_u64 (word_of_nat (length ps)) @ delta_bytes 0 (sort ps))
      rest (Some (sort ps))"
    unfolding read_positions_def by (intro reads_sbind [OF reads_flag]) simp
  then show ?thesis by (simp add: Some position_bytes_def flag_def)
qed

lemma reads_all_positions:
  "\<forall>p \<in> set ps. counts_positions p \<Longrightarrow>
   reads (read_all_positions (map p_frequency ps)) (concat (map (\<lambda>p. position_bytes (p_positions p)) ps)) rest
     (map (\<lambda>p. map_option sort (p_positions p)) ps)"
  by (induction ps) (auto intro!: reads_ret reads_sbind [OF reads_positions] reads_then_ret)

section \<open>The checks of the decoder\<close>

lemma fold_bad: "fold (\<lambda>(a, b) bad. bad \<or> P a b) ps bad \<longleftrightarrow> bad \<or> (\<exists>(a, b) \<in> set ps. P a b)"
  by (induction ps arbitrary: bad) auto

lemma ascending_windows: "sorted_wrt (<) ids \<longleftrightarrow> (\<forall>(a, b) \<in> set (zip ids (tl ids)). a < (b :: 'a :: linorder))"
proof (induction ids)
  case (Cons a ids)
  show ?case
  proof (cases ids)
    case (Cons b bs)
    then have "sorted_wrt (<) (a # ids) \<longleftrightarrow> a < b \<and> sorted_wrt (<) ids" by (auto intro: less_trans)
    with Cons Cons.IH show ?thesis by simp
  qed simp
qed simp

lemma check_ascending_iff: "check_ascending_doc_ids ids = Inr x \<longleftrightarrow> sorted_wrt (<) ids"
  using fold_bad [of "(\<ge>)" "zip ids (tl ids)" False] ascending_windows [of ids]
  by (auto simp: check_ascending_doc_ids_def)

lemma list_of_indices: "length xs = n \<and> list_all (\<lambda>i. xs ! i = f i) [0..<n] \<longleftrightarrow> xs = map f [0..<n]"
proof
  assume "length xs = n \<and> list_all (\<lambda>i. xs ! i = f i) [0..<n]"
  then show "xs = map f [0..<n]" by (intro nth_equalityI) (simp_all add: list_all_iff)
next
  assume "xs = map f [0..<n]"
  then show "length xs = n \<and> list_all (\<lambda>i. xs ! i = f i) [0..<n]" by (simp add: list_all_iff)
qed

lemma levels_match_iff:
  "levels_match shape levels ids \<longleftrightarrow> levels = map (\<lambda>(step, len). map (\<lambda>i. ids ! ((i + 1) * step - 1)) [0..<len]) shape"
proof (induction shape levels ids rule: levels_match.induct)
  case (3 step len shape level levels ids)
  have "length level = len \<and> list_all (\<lambda>i. level ! i = f i) [0..<len] \<longleftrightarrow> level = map f [0..<len]" for f
    by (rule list_of_indices)
  from this [of "\<lambda>i. ids ! ((i + 1) * step - 1)"] 3 show ?case
    by (simp only: levels_match.simps list.map prod.case list.inject conj_assoc [symmetric])
qed simp_all

lemma shape_entry:
  "(step, len) \<in> set (skip_level_shape n) \<Longrightarrow> len = n div step \<and> 0 < step"
proof -
  assume "(step, len) \<in> set (skip_level_shape n)"
  then obtain i where "i < length (skip_level_shape_from n SKIP_INTERVAL)" "skip_level_shape_from n SKIP_INTERVAL ! i = (step, len)"
    by (auto simp: skip_level_shape_def in_set_conv_nth split: if_splits)
  with shape_from_nth [of i n SKIP_INTERVAL] show ?thesis by (auto simp: SKIP_INTERVAL_def)
qed

lemma skip_levels_match_iff: "skip_levels_match levels ids \<longleftrightarrow> levels = skip_table ids"
proof -
  have "map (\<lambda>i. ids ! ((i + 1) * step - 1)) [0..<len] = map word_of_nat (map (\<lambda>i. map unat ids ! ((i + 1) * step - 1)) [0..<len])"
    if "(step, len) \<in> set (skip_level_shape (length ids))" for step len
  proof -
    have "(i + 1) * step - 1 < length ids" if i: "i < len" for i
    proof -
      note s = shape_entry [OF \<open>(step, len) \<in> set (skip_level_shape (length ids))\<close>]
      have "(i + 1) * step \<le> length ids div step * step" using i s by (intro mult_right_mono) auto
      also have "\<dots> \<le> length ids" by simp
      finally show ?thesis using s i by (cases step) auto
    qed
    then show ?thesis by auto
  qed
  then have "map (\<lambda>(step, len). map (\<lambda>i. ids ! ((i + 1) * step - 1)) [0..<len]) (skip_level_shape (length ids)) = skip_table ids"
    unfolding skip_table_def build_skip_levels_def by auto
  then show ?thesis by (simp add: skip_levels_match_def levels_match_iff)
qed

lemma check_skip_levels_iff: "check_skip_levels format levels ids = Inr x \<longleftrightarrow> (has_skip_levels format \<longrightarrow> levels = skip_table ids)"
  by (auto simp: check_skip_levels_def skip_levels_match_iff)

section \<open>A list takes at least the bytes the decoder asks for\<close>

lemma length_doc_blocks: "k \<le> length (doc_block_bytes bp k i ids)"
proof (induction k arbitrary: i ids)
  case (Suc k)
  show ?case
    using Suc [of "take POSTING_BLOCK_LEN ids ! (POSTING_BLOCK_LEN - 1)" "drop POSTING_BLOCK_LEN ids"] by (simp add: Let_def)
qed simp

lemma length_freq_blocks: "k \<le> length (freq_block_bytes bp k fs)"
proof (induction k arbitrary: fs)
  case (Suc k)
  show ?case using Suc [of "drop POSTING_BLOCK_LEN fs"] by (simp add: Let_def)
qed simp

lemma length_doc_tail: "length ids \<le> length (doc_tail_bytes p ids)"
proof (induction ids arbitrary: p)
  case (Cons v ids)
  show ?case using Cons [of "ucast v"] encode_u64_nonempty [of "ucast v - p"]
    unfolding doc_tail_bytes.simps length_append list.size by linarith
qed simp

lemma length_concat_bound: "(\<And>x. x \<in> set xs \<Longrightarrow> n \<le> length (f x)) \<Longrightarrow> length xs * n \<le> length (concat (map f xs))"
  by (induction xs) (simp, fastforce)

lemma length_freq_tail: "length fs \<le> length (freq_tail_bytes fs)"
  unfolding freq_tail_bytes_def
  using length_concat_bound [of fs 1 "\<lambda>f. encode_u64 (ucast f)"] encode_u64_nonempty by (simp add: Suc_leI del: length_greater_0_conv)

lemma section_bytes_bound:
  "length ps div POSTING_BLOCK_LEN * 2 + length ps mod POSTING_BLOCK_LEN * 2 +
   length ps * ((if w then 4 else 0) + (if p then 1 else 0)) \<le> length (section_bytes bp w p ps)"
proof -
  let ?k = "length ps div POSTING_BLOCK_LEN"
  let ?m = "?k * POSTING_BLOCK_LEN"
  have m: "length ps - ?m = length ps mod POSTING_BLOCK_LEN" by (simp add: modulo_nat_def)
  have sum: "a * 2 + b * 2 + (x + y) \<le> A + B + (C + D + (E + F))"
    if "a \<le> A" "b \<le> B" "a \<le> C" "b \<le> D" "x \<le> E" "y \<le> F" for a b x y A B C D E F :: nat
    using that by linarith
  have tails: "length ps mod POSTING_BLOCK_LEN \<le> length (doc_tail_bytes q (drop ?m (ids32 ps)))"
    "length ps mod POSTING_BLOCK_LEN \<le> length (freq_tail_bytes (drop ?m (map p_frequency ps)))" for q
    using length_doc_tail [of "drop ?m (ids32 ps)" q] length_freq_tail [of "drop ?m (map p_frequency ps)"]
    by (simp_all add: ids32_def m)
  have w: "(if w then length ps * 4 else 0) \<le> length (if w then concat (map (\<lambda>p. le_bytes 4 (unat (p_weight p))) ps) else [])"
    using length_concat_bound [of ps 4 "\<lambda>p. le_bytes 4 (unat (p_weight p))"] by simp
  have "length ps * 1 \<le> length (concat (map (\<lambda>p. position_bytes (p_positions p)) ps))"
    by (rule length_concat_bound) (simp add: position_bytes_def split: option.split)
  then have p: "(if p then length ps else 0) \<le> length (if p then concat (map (\<lambda>p. position_bytes (p_positions p)) ps) else [])"
    by simp
  have "length ps * ((if w then 4 else 0) + (if p then 1 else 0)) = (if w then length ps * 4 else 0) + (if p then length ps else 0)"
    by simp
  then show ?thesis
    unfolding section_bytes_def Let_def length_append
    by (simp only:) (rule sum [OF length_doc_blocks tails(1) length_freq_blocks tails(2) w p])
qed

section \<open>Round trip\<close>

text \<open>
  What \<open>add_posting\<close> keeps of a list, ids of 32 bits, lengths of 64 bits, and a term that is a string;
  and what the decoder asks of the postings besides.
\<close>

definition encodable :: "posting_list \<Rightarrow> bool" where
  "encodable l \<longleftrightarrow> sorted_wrt (<) (ids_of l) \<and> (\<forall>p \<in> set (pl_postings l). p_doc_id p < 2 ^ 32) \<and>
     (\<forall>p \<in> set (pl_postings l). \<forall>ps. p_positions p = Some ps \<longrightarrow> length ps < 2 ^ 64) \<and>
     length (pl_term l) < 2 ^ 64 \<and> valid_utf8 (pl_term l)"

definition counted :: "posting_list \<Rightarrow> bool" where
  "counted l \<longleftrightarrow> (\<forall>p \<in> set (pl_postings l). counts_positions p)"

text \<open>In front of the bytes, an operation either reads them all and returns, or fails.\<close>

definition outcome :: "(struct_reader, 'a) io \<Rightarrow> bytes \<Rightarrow> bytes \<Rightarrow> 'a option \<Rightarrow> bool" where
  "outcome m bs rest r \<longleftrightarrow> (case r of
     Some x \<Rightarrow> reads m bs rest x
   | None \<Rightarrow> \<forall>s. sr_wf s \<longrightarrow> rest_of s = bs @ rest \<longrightarrow> \<not> ok (fst (m s)))"

lemma outcome_reads: "reads m bs rest x \<Longrightarrow> outcome m bs rest (Some x)"
  by (simp add: outcome_def)

lemma outcome_fail: "outcome (fail e) bs rest None"
  by (simp add: outcome_def fail_def)

lemma outcome_sbind:
  assumes "reads m as (bs @ rest) x" "outcome (f x) bs rest r"
  shows "outcome (sbind m f) (as @ bs) rest r"
proof (cases r)
  case None
  have "\<not> ok (fst (sbind m f s))" if s: "sr_wf s" "rest_of s = (as @ bs) @ rest" for s
  proof -
    have "m s = (Inr x, advanced (length as) s)" using assms(1) s by (simp add: reads_def)
    moreover have "sr_wf (advanced (length as) s)" "rest_of (advanced (length as) s) = bs @ rest"
      using advanced_wf [OF s(1), of "length as"] s(2) by simp_all
    then have "\<not> ok (fst (f x (advanced (length as) s)))" using assms(2) None by (simp add: outcome_def)
    ultimately show ?thesis by (simp add: sbind_def)
  qed
  then show ?thesis by (simp add: None outcome_def)
next
  case (Some y)
  then show ?thesis using assms reads_sbind [OF assms(1), of f y] by (simp add: outcome_def)
qed

lemma outcome_then:
  assumes "outcome m as (bs @ rest) r" "\<And>x. r = Some x \<Longrightarrow> reads (f x) bs rest (g x)"
  shows "outcome (sbind m f) (as @ bs) rest (map_option g r)"
proof (cases r)
  case None
  with assms(1) show ?thesis
    by (auto simp: outcome_def sbind_def ok_def split: prod.split sum.splits)
next
  case (Some x)
  with assms have "reads m as (bs @ rest) x" "reads (f x) bs rest (g x)" by (simp_all add: outcome_def)
  then show ?thesis using reads_sbind by (simp add: Some outcome_def)
qed

lemma outcome_state:
  assumes "\<And>s. sr_wf s \<Longrightarrow> rest_of s = bs @ rest \<Longrightarrow> outcome (m s) bs rest r"
  shows "outcome (\<lambda>s. m s s) bs rest r"
  using assms by (auto simp: outcome_def reads_def split: option.splits)

lemma outcome_positions:
  assumes "\<not> counts_positions p" "\<forall>ps. p_positions p = Some ps \<longrightarrow> length ps < 2 ^ 64"
  shows "outcome (read_positions (p_frequency p)) (position_bytes (p_positions p)) rest None"
proof -
  obtain ps where ps: "p_positions p = Some ps" "length ps \<noteq> unat (p_frequency p)"
    using assms(1) by (auto simp: counts_positions_def)
  let ?m = "\<lambda>s. sbind (lift_res (checked_capacity_u64 (word_of_nat (length ps)) 1 (sr_remaining s) ''posting position count'')) (\<lambda>n.
           if n \<noteq> unat (p_frequency p) then fail (Index ''posting list: a frequency is not its number of positions'')
           else sbind (read_position_deltas n 0) (\<lambda>ps. ret (Some ps)))"
  have len: "unat (word_of_nat (length ps) :: u64) = length ps" using assms(2) ps(1) by (simp add: unat_of_nat)
  have "outcome (\<lambda>s. ?m s s) (delta_bytes 0 (sort ps)) rest None"
  proof (rule outcome_state [where m = ?m])
    fix s
    show "outcome (?m s) (delta_bytes 0 (sort ps)) rest None"
      using ps(2) len
      by (cases "checked_capacity_u64 (word_of_nat (length ps)) 1 (sr_remaining s) ''posting position count''")
        (auto simp: lift_res_def outcome_def sbind_def fail_def checked_capacity_u64_def checked_usize_def split: if_splits)
  qed
  then have "outcome (read_positions (p_frequency p)) ([flag True] @ encode_u64 (word_of_nat (length ps)) @ delta_bytes 0 (sort ps)) rest None"
    unfolding read_positions_def
    by (intro outcome_sbind [OF reads_flag]) (simp add: outcome_sbind [OF reads_varint])
  then show ?thesis by (simp add: ps(1) position_bytes_def flag_def)
qed

lemma outcome_all_positions:
  assumes "\<forall>p \<in> set ps. \<forall>qs. p_positions p = Some qs \<longrightarrow> length qs < 2 ^ 64"
  shows "outcome (read_all_positions (map p_frequency ps)) (concat (map (\<lambda>p. position_bytes (p_positions p)) ps)) rest
     (if \<forall>p \<in> set ps. counts_positions p then Some (map (\<lambda>p. map_option sort (p_positions p)) ps) else None)"
proof (cases "\<forall>p \<in> set ps. counts_positions p")
  case False
  have "outcome (read_all_positions (map p_frequency ps)) (concat (map (\<lambda>p. position_bytes (p_positions p)) ps)) rest None"
    if "\<exists>p \<in> set ps. \<not> counts_positions p" using that assms
  proof (induction ps)
    case (Cons p ps)
    show ?case
    proof (cases "counts_positions p")
      case True
      with Cons have "outcome (read_all_positions (map p_frequency ps)) (concat (map (\<lambda>p. position_bytes (p_positions p)) ps)) rest None"
        by simp
      then have "outcome (sbind (read_all_positions (map p_frequency ps)) f) (concat (map (\<lambda>p. position_bytes (p_positions p)) ps)) rest None" for f
        using outcome_then [where bs = "[]" and r = None] by simp
      from outcome_sbind [OF reads_positions [OF True] this] show ?thesis by simp
    next
      case False
      then have "outcome (read_positions (p_frequency p)) (position_bytes (p_positions p))
          (concat (map (\<lambda>p. position_bytes (p_positions p)) ps) @ rest) None"
        using Cons.prems(2) by (intro outcome_positions) auto
      from outcome_then [OF this] show ?thesis by simp
    qed
  qed simp
  with False show ?thesis by auto
next
  case True
  with reads_all_positions [OF True] show ?thesis by (simp add: outcome_def)
qed

definition sort_positions :: "posting_list \<Rightarrow> posting_list" where
  "sort_positions l = l\<lparr>pl_postings := map (\<lambda>p. p\<lparr>p_positions := map_option sort (p_positions p)\<rparr>) (pl_postings l)\<rparr>"

definition decoded_form :: "posting_format \<Rightarrow> posting_list \<Rightarrow> decoded_posting_list" where
  "decoded_form format l = (from_posting_list (sort_positions l))
     \<lparr>d_weights := if \<not> has_weight_flag format \<or> any_weights l then map p_weight (pl_postings l) else []\<rparr>"

lemma encodable_length: "encodable l \<Longrightarrow> length (pl_postings l) < 2 ^ 64"
proof -
  assume l: "encodable l"
  then have "distinct (ids_of l)" "set (ids_of l) \<subseteq> {..<2 ^ 32}"
    using strict_sorted_iff [of "ids_of l"] by (auto simp: encodable_def)
  then have "length (ids_of l) \<le> card {..<2 ^ 32 :: nat}"
    by (metis card_mono distinct_card finite_lessThan)
  then show ?thesis by simp
qed

lemma ids32_sorted: "encodable l \<Longrightarrow> sorted_wrt (<) (ids32 (pl_postings l))"
  unfolding encodable_def ids32_def sorted_wrt_map
  by (auto elim!: sorted_wrt_mono_rel [rotated] simp: word_less_nat_alt unat_of_nat)

lemma encodable_writable: "encodable l \<Longrightarrow> writable l"
  using shape_bound [of "length (pl_postings l)"] encodable_length [of l]
  by (auto simp: writable_def encodable_def ids32_def)

lemma sat_le: "sat n \<le> n"
  by (simp add: sat_def)

lemma bounded_count:
  assumes "n < 2 ^ 64" "\<forall>m. max_postings = Some m \<longrightarrow> n \<le> unat m"
    and "n div POSTING_BLOCK_LEN * 2 + n mod POSTING_BLOCK_LEN * 2 + n * ((if w then 4 else 0) + (if p then 1 else 0)) \<le> available"
  shows "bounded_posting_count available (word_of_nat n) w p max_postings = Inr n"
proof -
  have u: "unat (word_of_nat n :: u64) = n" using assms(1) by (simp add: unat_of_nat)
  have "\<not> (case max_postings of Some m \<Rightarrow> m < word_of_nat n | None \<Rightarrow> False)"
    using assms(2) by (auto simp: word_less_nat_alt u split: option.split)
  moreover have "sat (sat (sat a + sat b) + sat c) \<le> a + b + c" for a b c
    by (meson add_mono order_trans sat_le)
  from this [of "n div POSTING_BLOCK_LEN * 2" "n mod POSTING_BLOCK_LEN * 2" "n * ((if w then 4 else 0) + (if p then 1 else 0))"]
  have "sat (sat (sat (n div POSTING_BLOCK_LEN * 2) + sat (n mod POSTING_BLOCK_LEN * 2)) +
      sat (n * ((if w then 4 else 0) + (if p then 1 else 0)))) \<le> available"
    using assms(3) by (rule order_trans)
  ultimately show ?thesis
    unfolding bounded_posting_count_def Let_def u checked_usize_def by (simp only: if_False not_less [symmetric] simp_thms)
qed

lemma reads_weights:
  "reads (repeat_read (length ps) sr_read_f32) (concat (map (\<lambda>p. le_bytes 4 (unat (p_weight p))) ps)) rest (map p_weight ps)"
  using repeat_read_reads [of "map p_weight ps" sr_read_f32 "\<lambda>w. le_bytes 4 (unat w)" rest] reads_ints(5)
  by (simp add: comp_def)

lemma map_option_unless: "map_option f (if b then None else Some x) = (if b then None else Some (f x))"
  by simp

lemma outcome_sections:
  assumes "packs_blocks bp" "encodable l" and levels: "has_skip_levels format \<longrightarrow> levels = skip_table (ids32 (pl_postings l))"
  shows "outcome (decode_sections bp format (length (pl_postings l)) w p levels header) (section_bytes bp w p (pl_postings l)) rest
    (if p \<and> \<not> counted l then None else Some (header\<lparr>d_doc_ids := ids32 (pl_postings l), d_frequencies := map p_frequency (pl_postings l),
       d_weights := if w then map p_weight (pl_postings l) else [],
       d_positions := if p then Some (map (\<lambda>p. map_option sort (p_positions p)) (pl_postings l)) else None,
       d_skip_levels := skip_table (ids32 (pl_postings l))\<rparr>))"
proof -
  let ?ps = "pl_postings l"
  let ?ids = "ids32 ?ps" and ?fs = "map p_frequency ?ps"
  let ?k = "length ?ps div POSTING_BLOCK_LEN"
  let ?m = "?k * POSTING_BLOCK_LEN"
  have strict: "sorted_wrt (<) ?ids" by (rule ids32_sorted [OF assms(2)])
  then have sorted: "sorted (0 # ?ids)" using strict_sorted_imp_sorted by simp
  have k: "?m \<le> length ?ids" "?m \<le> length ?fs" by (simp_all add: ids32_def)
  have tail: "length ?ps mod POSTING_BLOCK_LEN = length (drop ?m ?ids)" "length ?ps mod POSTING_BLOCK_LEN = length (drop ?m ?fs)"
    by (simp_all add: ids32_def modulo_nat_def)
  note blocks = reads_doc_blocks [OF assms(1) k(1) sorted]
  have join: "take ?m ?ids @ drop ?m ?ids = ?ids" "take ?m ?fs @ drop ?m ?fs = ?fs" by simp_all
  have checks: "lift_res (check_ascending_doc_ids ?ids) = (ret () :: (struct_reader, unit) io)"
    "lift_res (check_skip_levels format levels ?ids) = (ret () :: (struct_reader, unit) io)"
    using check_ascending_iff [of ?ids "()"] strict check_skip_levels_iff [of format levels ?ids "()"] levels
    by (simp_all add: lift_res_def)
  have small: "\<forall>p \<in> set ?ps. \<forall>qs. p_positions p = Some qs \<longrightarrow> length qs < 2 ^ 64" using assms(2) by (simp add: encodable_def)
  let ?pss = "map (\<lambda>p. map_option sort (p_positions p)) ?ps"
  have pos: "outcome (if p then sbind (read_all_positions ?fs) (\<lambda>pss. ret (Some pss)) else ret None)
      (if p then concat (map (\<lambda>p. position_bytes (p_positions p)) ?ps) else []) r
      (if p \<and> \<not> counted l then None else Some (if p then Some ?pss else None))" for r
  proof (cases p)
    case True
    have "outcome (sbind (read_all_positions ?fs) (\<lambda>pss. ret (Some pss)))
        (concat (map (\<lambda>p. position_bytes (p_positions p)) ?ps) @ []) r
        (map_option Some (if counted l then Some ?pss else None))"
      unfolding counted_def by (rule outcome_then) (use outcome_all_positions [OF small, of r] in \<open>simp_all add: reads_ret\<close>)
    with True show ?thesis by (cases "counted l") simp_all
  qed (simp add: outcome_reads reads_ret)
  have levels': "(if has_skip_levels format then levels else skip_table ?ids) = skip_table ?ids" using levels by simp
  have last: "reads (ret (header\<lparr>d_doc_ids := ?ids, d_frequencies := ?fs, d_weights := a, d_positions := b,
        d_skip_levels := if has_skip_levels format then levels else skip_table ?ids\<rparr>)) [] r
      (header\<lparr>d_doc_ids := ?ids, d_frequencies := ?fs, d_weights := a, d_positions := b, d_skip_levels := skip_table ?ids\<rparr>)"
    for a b r unfolding levels' by (rule reads_ret)
  have "outcome (decode_sections bp format (length ?ps) w p levels header) (section_bytes bp w p ?ps) rest
    (map_option (\<lambda>pos. header\<lparr>d_doc_ids := ?ids, d_frequencies := ?fs, d_weights := if w then map p_weight ?ps else [],
       d_positions := pos, d_skip_levels := skip_table ?ids\<rparr>) (if p \<and> \<not> counted l then None else Some (if p then Some ?pss else None)))"
    unfolding decode_sections_def section_bytes_def Let_def append_assoc
    apply (rule outcome_sbind [OF blocks [THEN conjunct1]], unfold prod.case)
    apply (rule outcome_sbind [OF reads_doc_tail [OF blocks [THEN conjunct2], folded tail(1)]], unfold join checks sbind_ret)
    apply (rule outcome_sbind [OF reads_freq_blocks [OF assms(1) k(2)]])
    apply (rule outcome_sbind [OF reads_freq_tail [of "drop ?m ?fs", folded tail(2)]], unfold join)
    apply (rule outcome_sbind [OF reads_opt [OF reads_weights]])
    apply (rule outcome_then [where bs = "[]", unfolded append_Nil2, OF _ last])
    apply (rule pos)
    done
  then show ?thesis unfolding map_option_unless .
qed

lemma positions_form:
  "(if any_positions l then Some (map (\<lambda>p. map_option sort (p_positions p)) (pl_postings l)) else None) =
   d_positions (from_posting_list (sort_positions l))"
proof -
  have "any_positions (sort_positions l) = any_positions l"
    by (auto simp: any_positions_def sort_positions_def)
  then show ?thesis by (simp add: from_posting_list_def Let_def sort_positions_def comp_def)
qed

lemma decoded_form_fields:
  "decoded_form format l = \<lparr>d_term = pl_term l, d_doc_ids = ids32 (pl_postings l), d_frequencies = map p_frequency (pl_postings l),
     d_weights = if \<not> has_weight_flag format \<or> any_weights l then map p_weight (pl_postings l) else [],
     d_positions = if any_positions l then Some (map (\<lambda>p. map_option sort (p_positions p)) (pl_postings l)) else None,
     d_skip_levels = skip_table (ids32 (pl_postings l)), d_total_frequency = pl_total_frequency l,
     d_doc_frequency = pl_doc_frequency l\<rparr>"
  unfolding positions_form
  by (simp add: decoded_form_def from_posting_list_def Let_def sort_positions_def comp_def ids32_def)

lemma skip_table_Nil [simp]: "skip_table [] = []"
  by (simp add: skip_table_def build_skip_levels_def skip_level_shape_def SKIP_INTERVAL_def)

lemma decode_outcome:
  assumes "packs_blocks bp" "encodable l" "\<forall>m. max_postings = Some m \<longrightarrow> length (pl_postings l) \<le> unat m"
  shows "outcome (decode_soa_inner bp format max_postings) (posting_bytes bp format l) rest
    (if counted l then Some (decoded_form format l) else None)"
proof -
  let ?ps = "pl_postings l"
  let ?n = "length ?ps" and ?w = "\<not> has_weight_flag format \<or> any_weights l" and ?p = "any_positions l"
  let ?levels = "if has_skip_levels format then skip_table (ids32 ?ps) else []"
  let ?body = "if ?ps = [] then [] else section_bytes bp ?w ?p ?ps"
  have len: "?n < 2 ^ 64" by (rule encodable_length [OF assms(2)])
  have name: "length (pl_term l) < 2 ^ 64" "valid_utf8 (pl_term l)" using assms(2) by (simp_all add: encodable_def)
  have flag: "reads (if has_weight_flag format then read_flag else ret True)
      (if has_weight_flag format then [flag (any_weights l)] else []) r ?w" for r
    using reads_flag [of "any_weights l" r] reads_ret [of True r] by (cases "has_weight_flag format") simp_all
  have table: "reads (if has_skip_levels format then read_skip_table else ret [])
      (if has_skip_levels format then skip_bytes (ids32 ?ps) else []) r ?levels" for r
    by (rule reads_opt [OF reads_skip_table]) (use len in \<open>simp add: ids32_def\<close>)
  define header where "header = \<lparr>d_term = pl_term l, d_doc_ids = [], d_frequencies = [], d_weights = [],
        d_positions = (if ?p then Some [] else None), d_skip_levels = ?levels,
        d_total_frequency = pl_total_frequency l, d_doc_frequency = pl_doc_frequency l\<rparr>"
  define sections where "sections = (\<lambda>n. if n = 0 then sbind (lift_res (check_skip_levels format ?levels [])) (\<lambda>_. ret header)
        else decode_sections bp format n ?w ?p ?levels header)" for n
  let ?out = "if counted l then Some (decoded_form format l) else None"
  have body: "outcome (sections ?n) ?body rest ?out"
  proof (cases "?ps = []")
    case True
    then have "check_skip_levels format ?levels [] = Inr ()" "\<not> ?p"
      by (simp_all add: check_skip_levels_iff ids32_def any_positions_def)
    with True show ?thesis by (simp add: sections_def reads_ret outcome_reads decoded_form_fields header_def ids32_def counted_def)
  next
    case False
    have "\<not> counted l \<Longrightarrow> ?p" by (auto simp: counted_def counts_positions_def any_positions_def)
    with outcome_sections [OF assms(1,2), of format ?levels ?w ?p header rest] False show ?thesis
      by (cases "counted l") (simp_all add: sections_def decoded_form_fields header_def)
  qed
  have count: "outcome (\<lambda>s. sbind (lift_res (bounded_posting_count (sr_remaining s) (word_of_nat ?n) ?w ?p max_postings)) sections s)
      ?body rest ?out"
  proof (rule outcome_state [where m = "\<lambda>s. sbind (lift_res (bounded_posting_count (sr_remaining s) (word_of_nat ?n) ?w ?p max_postings)) sections"])
    fix s
    assume s: "sr_wf s" "rest_of s = ?body @ rest"
    have "?n div POSTING_BLOCK_LEN * 2 + ?n mod POSTING_BLOCK_LEN * 2 + ?n * ((if ?w then 4 else 0) + (if ?p then 1 else 0))
        \<le> length ?body"
      using section_bytes_bound [of ?ps ?w ?p bp] by (cases "?ps = []") simp_all
    also have "\<dots> \<le> sr_remaining s" using s by (simp add: remaining_rest)
    finally have "bounded_posting_count (sr_remaining s) (word_of_nat ?n) ?w ?p max_postings = Inr ?n"
      using bounded_count len assms(3) by blast
    then show "outcome (sbind (lift_res (bounded_posting_count (sr_remaining s) (word_of_nat ?n) ?w ?p max_postings)) sections)
        ?body rest ?out" using body by simp
  qed
  show ?thesis
    unfolding decode_soa_inner_def posting_bytes_def Let_def
    apply (rule outcome_sbind [OF reads_string_bytes [OF name]])
    apply (rule outcome_sbind [OF reads_varint])
    apply (rule outcome_sbind [OF reads_varint])
    apply (rule outcome_sbind [OF reads_varint])
    apply (rule outcome_sbind [OF reads_flag])
    apply (rule outcome_sbind [OF flag])
    apply (rule outcome_sbind [OF table])
    apply (rule count [unfolded sections_def header_def])
    done
qed

lemma decode_reads:
  assumes "packs_blocks bp" "encodable l" "counted l" "\<forall>m. max_postings = Some m \<longrightarrow> length (pl_postings l) \<le> unat m"
  shows "reads (decode_soa_inner bp format max_postings) (posting_bytes bp format l) rest (decoded_form format l)"
  using decode_outcome [OF assms(1,2,4), of format rest] assms(3) by (simp add: outcome_def)

lemma decoded_form_into:
  assumes "encodable l"
  shows "into_posting_list (decoded_form format l) = sort_positions l"
proof -
  let ?d = "from_posting_list (sort_positions l)"
  have ids: "\<forall>p \<in> set (pl_postings (sort_positions l)). p_doc_id p < 2 ^ 32"
    using assms by (auto simp: encodable_def sort_positions_def)
  have w: "d_weights ?d = map p_weight (pl_postings l)"
    by (simp add: from_posting_list_def sort_positions_def Let_def comp_def)
  show ?thesis
  proof (cases "\<not> has_weight_flag format \<or> any_weights l")
    case True
    then have "decoded_form format l = ?d" using w by (simp add: decoded_form_def)
    with into_from [OF ids] show ?thesis by simp
  next
    case False
    then have ones: "map p_weight (pl_postings l) = replicate (length (pl_postings l)) ONE_F32"
      by (intro nth_equalityI) (auto simp: any_weights_def)
    have "into_posting_list (?d\<lparr>d_weights := []\<rparr>) = into_posting_list ?d"
      using ones w by (simp add: into_posting_list_def Let_def from_posting_list_def sort_positions_def comp_def)
    with False into_from [OF ids] show ?thesis by (simp add: decoded_form_def)
  qed
qed

lemma emitted_content:
  assumes "emits w bs" "w (struct_writer_new cap) = (Inr (), s)"
  shows "sw_content s = bs"
proof -
  from assms have "length bs \<le> cap" "s = written bs (struct_writer_new cap)"
    using new_wf [of cap] by (auto simp: emits_def struct_writer_new_def split: if_splits)
  then show ?thesis by (simp add: written_def struct_writer_new_def overwrite_def)
qed

lemma reads_whole:
  assumes "reads m bs [] x"
  shows "\<exists>r. m (struct_reader_new bs lends) = (Inr x, r) \<and> sr_remaining r = 0"
proof -
  let ?r = "struct_reader_new bs lends"
  have "m ?r = (Inr x, advanced (length bs) ?r)" using assms by (simp add: reads_def)
  moreover have "sr_wf (advanced (length bs) ?r)" "rest_of (advanced (length bs) ?r) = []"
    using advanced_wf [of ?r "length bs"] by simp_all
  then have "sr_remaining (advanced (length bs) ?r) = 0" by (simp add: remaining_rest)
  ultimately show ?thesis by blast
qed

text \<open>
  C33. In each of the three formats, a posting list that was written is read back when it is
  \<open>encodable\<close>, that is in ascending order without repetition, of document ids below \<open>2 ^ 32\<close> and a term in
  UTF-8, and \<open>counted\<close>, that is where a posting has positions, its frequency is their number: whatever
  the encoder succeeds in writing, the decoder takes to the last byte and gives the same term,
  counters, documents, frequencies, weights and positions, but the positions of a posting come back in
  ascending order whatever their order was (\<open>sort_positions\<close>). The number of documents of the segment
  does not get in the way as long as the list is not longer. A list that is not counted can be written
  and not read (C40).
\<close>

theorem posting_list_roundtrip:
  assumes "packs_blocks bp" "encodable l" "counted l" "\<forall>m. max_postings = Some m \<longrightarrow> length (pl_postings l) \<le> unat m"
    and "encode_header_and_payload bp format l (struct_writer_new cap) = (Inr (), s)"
  shows "\<exists>d r. decode_soa_inner bp format max_postings (struct_reader_new (sw_content s) lends) = (Inr d, r) \<and>
    sr_remaining r = 0 \<and> into_posting_list d = sort_positions l"
proof -
  have "sw_content s = posting_bytes bp format l"
    using emitted_content [OF encode_emits [OF encodable_writable [OF assms(2)]] assms(5)] .
  with reads_whole [OF decode_reads [OF assms(1-4)]] decoded_form_into [OF assms(2)] show ?thesis by metis
qed

text \<open>A packer that keeps every number at its 32 bits.\<close>

definition unpack_words :: "bytes \<Rightarrow> u32 list" where
  "unpack_words z = map (\<lambda>i. word_of_nat (from_le (take 4 (drop (4 * i) z)))) [0..<POSTING_BLOCK_LEN]"

definition plain_packer :: bitpacker where
  "plain_packer = \<lparr>num_bits = \<lambda>_. 32, compress = \<lambda>b _. concat (map (\<lambda>v. le_bytes 4 (unat v)) b),
     decompress = \<lambda>z _. unpack_words z, num_bits_sorted = \<lambda>_ _. 32,
     compress_sorted = \<lambda>_ b _. concat (map (\<lambda>v. le_bytes 4 (unat v)) b), decompress_sorted = \<lambda>_ z _. unpack_words z\<rparr>"

lemma nth_word: "i < length vs \<Longrightarrow> take 4 (drop (4 * i) (concat (map (\<lambda>v. le_bytes 4 (unat v)) vs))) = le_bytes 4 (unat (vs ! i))"
proof (induction vs arbitrary: i)
  case (Cons v vs)
  then show ?case by (cases i) (simp_all del: le_bytes.simps)
qed simp

lemma unpack_packed: "length b = POSTING_BLOCK_LEN \<Longrightarrow> unpack_words (concat (map (\<lambda>v. le_bytes 4 (unat v)) b)) = b"
  unfolding unpack_words_def by (intro nth_equalityI) (simp_all add: nth_word le_bytes_word del: le_bytes.simps)

lemma plain_packer_ok: "packs_blocks plain_packer" "fills_blocks plain_packer"
  by (auto simp: packs_blocks_def fills_blocks_def plain_packer_def unpack_packed length_words packed_len_def
      POSTING_BLOCK_LEN_def simp del: le_bytes.simps) (simp add: unpack_words_def POSTING_BLOCK_LEN_def)

definition example_list :: posting_list where
  "example_list = add_posting (posting_with_positions 9 [4, 1]) (add_posting (posting_with_frequency 5 3) (posting_list_new [97]))"

lemma example_list_eq: "example_list = \<lparr>pl_term = [97], pl_postings = [posting_with_frequency 5 3, posting_with_positions 9 [4, 1]],
    pl_total_frequency = 5, pl_doc_frequency = 2\<rparr>"
  by (simp add: example_list_def add_posting_def posting_list_new_def search_by_key.simps posting_with_positions_def posting_with_frequency_def)

lemma example_encodable: "encodable example_list" "counted example_list"
  by (simp_all add: example_list_eq encodable_def counted_def posting_with_frequency_def posting_with_positions_def counts_positions_def)

lemma emits_fits: "emits w bs \<Longrightarrow> \<exists>s. w (struct_writer_new (length bs)) = (Inr (), s)"
  using new_wf [of "length bs"] by (auto simp: emits_def struct_writer_new_def)

lemma posting_list_roundtrip_witness:
  "\<exists>s d r. encode_header_and_payload plain_packer V3 example_list
       (struct_writer_new (length (posting_bytes plain_packer V3 example_list))) = (Inr (), s) \<and>
     decode_soa_inner plain_packer V3 (Some 2) (struct_reader_new (sw_content s) True) = (Inr d, r) \<and>
     map p_positions (pl_postings (into_posting_list d)) = [None, Some [1, 4]]"
proof -
  let ?l = example_list and ?cap = "length (posting_bytes plain_packer V3 example_list)"
  obtain s where s: "encode_header_and_payload plain_packer V3 ?l (struct_writer_new ?cap) = (Inr (), s)"
    using emits_fits [OF encode_emits [OF encodable_writable [OF example_encodable(1)]]] by blast
  have "map p_positions (pl_postings (sort_positions ?l)) = [None, Some [1, 4]]"
    by (simp add: example_list_eq sort_positions_def posting_with_frequency_def posting_with_positions_def word_le_nat_alt)
  with posting_list_roundtrip [OF plain_packer_ok(1) example_encodable _ s, of "Some 2" True] s show ?thesis
    by (auto simp: example_list_eq)
qed

section \<open>What the decoder accepts\<close>

definition returns :: "('s, 'a) io \<Rightarrow> ('a \<Rightarrow> bool) \<Rightarrow> bool" where
  "returns m P \<longleftrightarrow> (\<forall>s x s'. m s = (Inr x, s') \<longrightarrow> P x)"

named_theorems returns_rules \<open>what the steps of a decoder return\<close>

lemma returns_sbind: "returns m P \<Longrightarrow> (\<And>x. P x \<Longrightarrow> returns (f x) Q) \<Longrightarrow> returns (sbind m f) Q"
  by (fastforce simp: returns_def sbind_def split: prod.splits sum.splits)

lemma returns_any: "returns m (\<lambda>_. True)"
  by (simp add: returns_def)

lemma returns_after: "(\<And>x. returns (f x) Q) \<Longrightarrow> returns (sbind m f) Q"
  by (rule returns_sbind [OF returns_any])

lemma returns_ret: "returns (ret x) P \<longleftrightarrow> P x"
  by (simp add: returns_def ret_def)

lemma returns_fail: "returns (fail e) P"
  by (simp add: returns_def fail_def)

lemma returns_state: "(\<And>s. returns (m s) P) \<Longrightarrow> returns (\<lambda>s. m s s) P"
  by (auto simp: returns_def)

lemma returns_lift: "returns (lift_res r) P \<longleftrightarrow> (\<forall>x. r = Inr x \<longrightarrow> P x)"
  by (cases r) (simp_all add: lift_res_def returns_ret returns_fail)

lemma returns_check: "(r = Inr () \<Longrightarrow> returns m P) \<Longrightarrow> returns (sbind (lift_res r) (\<lambda>_. m)) P"
  by (rule returns_sbind [where P = "\<lambda>_. r = Inr ()"]) (simp_all add: returns_lift)

lemma returns_if: "(b \<Longrightarrow> returns m P) \<Longrightarrow> (\<not> b \<Longrightarrow> returns m' P) \<Longrightarrow> returns (if b then m else m') P"
  by simp

lemma returns_mono: "returns m P \<Longrightarrow> (\<And>x. P x \<Longrightarrow> Q x) \<Longrightarrow> returns m Q"
  by (auto simp: returns_def)

lemma returns_repeat: "returns (repeat_read n m) (\<lambda>xs. length xs = n)"
proof (induction n)
  case (Suc n)
  show ?case unfolding repeat_read.simps by (intro returns_after returns_sbind [OF Suc]) (simp add: returns_ret)
qed (simp add: returns_ret)

lemma returns_packed:
  assumes "\<And>z bits. length (unpack z bits) = POSTING_BLOCK_LEN"
  shows "returns (read_packed unpack) (\<lambda>b. length b = POSTING_BLOCK_LEN)"
proof -
  have "returns (sr_read_raw_with n (\<lambda>z. unpack z bits)) (\<lambda>b. length b = POSTING_BLOCK_LEN)" for n bits
    using assms by (auto simp: returns_def sr_read_raw_with_def Let_def sbind_def ret_def split: if_splits prod.splits sum.splits)
  then show ?thesis unfolding read_packed_def by (intro returns_after)
qed

lemma returns_doc_blocks:
  assumes "fills_blocks bp"
  shows "returns (read_doc_blocks bp k initial) (\<lambda>(ids, _). length ids = k * POSTING_BLOCK_LEN)"
proof (induction k arbitrary: initial)
  case (Suc k)
  show ?case unfolding read_doc_blocks.simps
    using assms by (intro returns_sbind [OF returns_packed] returns_sbind [OF Suc])
      (auto simp: returns_ret fills_blocks_def)
qed (simp add: returns_ret)

lemma returns_freq_blocks:
  assumes "fills_blocks bp"
  shows "returns (read_freq_blocks bp k) (\<lambda>fs. length fs = k * POSTING_BLOCK_LEN)"
proof (induction k)
  case (Suc k)
  show ?case unfolding read_freq_blocks.simps
    using assms by (intro returns_sbind [OF returns_packed] returns_sbind [OF Suc])
      (auto simp: returns_ret fills_blocks_def)
qed (simp add: returns_ret)

lemma returns_doc_tail: "returns (read_doc_tail k prev) (\<lambda>ids. length ids = k)"
proof (induction k arbitrary: prev)
  case (Suc k)
  show ?case unfolding read_doc_tail.simps
    by (intro returns_after) (auto split: option.split simp: returns_fail returns_ret intro!: returns_sbind [OF Suc])
qed (simp add: returns_ret)

lemma add_u32_le: "add_u32 a d = Some b \<Longrightarrow> a \<le> b"
  by (auto simp: add_u32_def word_le_nat_alt unat_of_nat simp del: of_nat_add of_nat_unat split: if_splits)

lemma returns_position_deltas: "returns (read_position_deltas k prev) (\<lambda>ps. length ps = k \<and> sorted (prev # ps))"
proof (induction k arbitrary: prev)
  case (Suc k)
  show ?case unfolding read_position_deltas.simps
  proof (rule returns_after)
    fix delta
    show "returns (case add_u32 prev delta of
          None \<Rightarrow> fail (Index ''posting list: a position delta exceeds u32::MAX'')
        | Some pos \<Rightarrow> sbind (read_position_deltas k pos) (\<lambda>ps. ret (pos # ps))) (\<lambda>ps. length ps = Suc k \<and> sorted (prev # ps))"
      using add_u32_le [of prev delta]
      by (auto split: option.split simp: returns_fail returns_ret intro!: returns_sbind [OF Suc])
        (meson order_trans)
  qed
qed (simp add: returns_ret)

text \<open>Positions are as many as the frequency says, and ascend.\<close>

definition positions_ok :: "u32 \<Rightarrow> u32 list option \<Rightarrow> bool" where
  "positions_ok f ps \<longleftrightarrow> (\<forall>qs. ps = Some qs \<longrightarrow> length qs = unat f \<and> sorted qs)"

lemma returns_positions: "returns (read_positions f) (positions_ok f)"
  unfolding read_positions_def
proof (intro returns_after returns_if)
  show "returns (\<lambda>s. sbind (lift_res (checked_capacity_u64 count 1 (sr_remaining s) what)) (\<lambda>n.
      if n \<noteq> unat f then fail e else sbind (read_position_deltas n 0) (\<lambda>ps. ret (Some ps))) s) (positions_ok f)"
    for count what e
    by (rule returns_state [where m = "\<lambda>s. sbind (lift_res (checked_capacity_u64 count 1 (sr_remaining s) what)) (\<lambda>n.
      if n \<noteq> unat f then fail e else sbind (read_position_deltas n 0) (\<lambda>ps. ret (Some ps)))"])
      (auto intro!: returns_after returns_sbind [OF returns_position_deltas] simp: returns_fail returns_ret positions_ok_def)
qed (simp add: returns_ret positions_ok_def)

lemma returns_all_positions: "returns (read_all_positions fs) (\<lambda>pss. list_all2 positions_ok fs pss)"
  by (induction fs) (auto simp: returns_ret intro!: returns_sbind [OF returns_positions] returns_sbind)


text \<open>A decoded list that can be searched.\<close>

definition decoded_ok :: "decoded_posting_list \<Rightarrow> bool" where
  "decoded_ok d \<longleftrightarrow> sorted_wrt (<) (d_doc_ids d) \<and> d_skip_levels d = skip_table (d_doc_ids d) \<and>
     length (d_frequencies d) = length (d_doc_ids d) \<and>
     (d_weights d = [] \<or> length (d_weights d) = length (d_doc_ids d)) \<and>
     (\<forall>pss. d_positions d = Some pss \<longrightarrow> list_all2 positions_ok (d_frequencies d) pss)"

lemma decode_sections_returns:
  assumes "fills_blocks bp" "d_weights header = []"
  shows "returns (decode_sections bp format n w p levels header) (\<lambda>d. decoded_ok d \<and> length (d_doc_ids d) = n)"
  unfolding decode_sections_def Let_def
proof (rule returns_sbind [OF returns_doc_blocks [OF assms(1)]], clarify)
  fix block_ids :: "u32 list" and initial
  assume b: "length block_ids = n div POSTING_BLOCK_LEN * POSTING_BLOCK_LEN"
  show "returns (sbind (read_doc_tail (n mod POSTING_BLOCK_LEN) initial) (\<lambda>tail_ids.
     sbind (lift_res (check_ascending_doc_ids (block_ids @ tail_ids))) (\<lambda>_.
     sbind (lift_res (check_skip_levels format levels (block_ids @ tail_ids))) (\<lambda>_.
     sbind (read_freq_blocks bp (n div POSTING_BLOCK_LEN)) (\<lambda>block_fs.
     sbind (repeat_read (n mod POSTING_BLOCK_LEN) read_freq) (\<lambda>tail_fs.
     sbind (if w then repeat_read n sr_read_f32 else ret []) (\<lambda>weights.
     sbind (if p then sbind (read_all_positions (block_fs @ tail_fs)) (\<lambda>pss. ret (Some pss)) else ret None) (\<lambda>positions.
     ret (header\<lparr>d_doc_ids := block_ids @ tail_ids, d_frequencies := block_fs @ tail_fs, d_weights := weights,
       d_positions := positions, d_skip_levels := if has_skip_levels format then levels else skip_table (block_ids @ tail_ids)\<rparr>)))))))))
    (\<lambda>d. decoded_ok d \<and> length (d_doc_ids d) = n)"
  proof (rule returns_sbind [OF returns_doc_tail], rule returns_check, rule returns_check, rule returns_sbind [OF returns_freq_blocks [OF assms(1)]], rule returns_sbind [OF returns_repeat])
    fix tail_ids block_fs tail_fs :: "u32 list"
    assume tail: "length tail_ids = n mod POSTING_BLOCK_LEN"
      and checks: "check_ascending_doc_ids (block_ids @ tail_ids) = Inr ()" "check_skip_levels format levels (block_ids @ tail_ids) = Inr ()"
      and fs: "length block_fs = n div POSTING_BLOCK_LEN * POSTING_BLOCK_LEN" "length tail_fs = n mod POSTING_BLOCK_LEN"
    have n: "length (block_ids @ tail_ids) = n" "length (block_fs @ tail_fs) = n" using b tail fs by simp_all
    have weights: "returns (if w then repeat_read n sr_read_f32 else ret []) (\<lambda>ws. ws = [] \<or> length ws = n)"
      by (auto simp: returns_ret intro: returns_mono [OF returns_repeat])
    have positions: "returns (if p then sbind (read_all_positions (block_fs @ tail_fs)) (\<lambda>pss. ret (Some pss)) else ret None)
        (\<lambda>positions. \<forall>pss. positions = Some pss \<longrightarrow> list_all2 positions_ok (block_fs @ tail_fs) pss)"
      by (auto simp: returns_ret intro!: returns_sbind [OF returns_all_positions])
    show "returns (sbind (if w then repeat_read n sr_read_f32 else ret []) (\<lambda>weights.
       sbind (if p then sbind (read_all_positions (block_fs @ tail_fs)) (\<lambda>pss. ret (Some pss)) else ret None) (\<lambda>positions.
       ret (header\<lparr>d_doc_ids := block_ids @ tail_ids, d_frequencies := block_fs @ tail_fs, d_weights := weights,
         d_positions := positions, d_skip_levels := if has_skip_levels format then levels else skip_table (block_ids @ tail_ids)\<rparr>))))
      (\<lambda>d. decoded_ok d \<and> length (d_doc_ids d) = n)"
      using n checks by (intro returns_sbind [OF weights] returns_sbind [OF positions])
        (auto simp: returns_ret decoded_ok_def check_ascending_iff check_skip_levels_iff)
  qed
qed

lemma bounded_countD:
  "bounded_posting_count available n w p max_postings = Inr k \<Longrightarrow>
   k = unat n \<and> (\<forall>m. max_postings = Some m \<longrightarrow> n \<le> m)"
  by (auto simp: bounded_posting_count_def checked_usize_def Let_def split: if_splits option.splits)

lemma decode_returns:
  assumes "fills_blocks bp"
  shows "returns (decode_soa_inner bp format max_postings)
    (\<lambda>d. decoded_ok d \<and> (\<forall>m. max_postings = Some m \<longrightarrow> length (d_doc_ids d) \<le> unat m))"
  unfolding decode_soa_inner_def
proof (rule returns_after, rule returns_after, rule returns_after, rule returns_after, rule returns_after, rule returns_after,
    rule returns_sbind [where P = "\<lambda>levels. \<not> has_skip_levels format \<longrightarrow> levels = []"])
  show "returns (if has_skip_levels format then read_skip_table else ret []) (\<lambda>levels. \<not> has_skip_levels format \<longrightarrow> levels = [])"
    by (cases "has_skip_levels format") (simp_all add: returns_ret returns_any)
  fix tm total df and n :: u64 and p w and levels :: "u32 list list"
  assume levels: "\<not> has_skip_levels format \<longrightarrow> levels = []"
  let ?header = "\<lparr>d_term = tm, d_doc_ids = [], d_frequencies = [], d_weights = [],
             d_positions = (if p then Some [] else None), d_skip_levels = levels,
             d_total_frequency = total, d_doc_frequency = df\<rparr>"
  let ?Q = "\<lambda>d. decoded_ok d \<and> (\<forall>m. max_postings = Some m \<longrightarrow> length (d_doc_ids d) \<le> unat m)"
  let ?m = "\<lambda>s. sbind (lift_res (bounded_posting_count (sr_remaining s) n w p max_postings)) (\<lambda>n.
       let header = ?header
       in if n = 0 then sbind (lift_res (check_skip_levels format levels [])) (\<lambda>_. ret header)
          else decode_sections bp format n w p levels header)"
  show "returns (\<lambda>s. ?m s s) ?Q"
  proof (rule returns_state [where m = ?m], rule returns_sbind [where P = "\<lambda>k. \<forall>m. max_postings = Some m \<longrightarrow> k \<le> unat m"])
    show "returns (lift_res (bounded_posting_count (sr_remaining s) n w p max_postings)) (\<lambda>k. \<forall>m. max_postings = Some m \<longrightarrow> k \<le> unat m)"
      for s by (auto simp: returns_lift word_le_nat_alt dest!: bounded_countD)
    fix k
    assume k: "\<forall>m. max_postings = Some m \<longrightarrow> k \<le> unat m"
    show "returns (let header = ?header
       in if k = 0 then sbind (lift_res (check_skip_levels format levels [])) (\<lambda>_. ret header)
          else decode_sections bp format k w p levels header) ?Q"
      unfolding Let_def
    proof (rule returns_if)
      show "returns (sbind (lift_res (check_skip_levels format levels [])) (\<lambda>_. ret ?header)) ?Q"
      proof (rule returns_check)
        show "returns (ret ?header) ?Q" if "check_skip_levels format levels [] = Inr ()"
          using levels that by (auto simp: returns_ret decoded_ok_def check_skip_levels_iff)
      qed
      show "returns (decode_sections bp format k w p levels ?header) ?Q"
        by (rule returns_mono [OF decode_sections_returns [OF assms]]) (use k in auto)
    qed
  qed
qed

text \<open>
  C34. Whatever bytes the decoder is given, in any format and at any place of a file: a list it accepts
  ascends strictly by document, carries the skip table its documents call for, has one frequency,
  weight and position list per document with as many ascending positions as the frequency says, and is
  not longer than the segment has documents.
\<close>

theorem decoder_accepts_only_searchable:
  assumes "fills_blocks bp" "decode_soa_inner bp format max_postings s = (Inr d, s')"
  shows "decoded_ok d \<and> (\<forall>m. max_postings = Some m \<longrightarrow> length (d_doc_ids d) \<le> unat m)"
  using decode_returns [OF assms(1), of format max_postings] assms(2) by (auto simp: returns_def)

lemma decoder_accepts_only_searchable_witness:
  "\<exists>d r. decode_soa_inner plain_packer V3 (Some 2) (struct_reader_new (posting_bytes plain_packer V3 example_list) True) = (Inr d, r) \<and>
     decoded_ok d"
proof -
  have "length (pl_postings example_list) \<le> unat (2 :: u64)" by (simp add: example_list_eq)
  then obtain d r where d: "decode_soa_inner plain_packer V3 (Some 2)
      (struct_reader_new (posting_bytes plain_packer V3 example_list) True) = (Inr d, r)"
    using reads_whole [OF decode_reads [OF plain_packer_ok(1) example_encodable, of "Some 2" V3 "[]"]] by blast
  with decoder_accepts_only_searchable [OF plain_packer_ok(2) d] show ?thesis by blast
qed

section \<open>A list that cannot be read back\<close>

text \<open>
  C40. A list in which some document has another frequency than it has positions is written without an
  error and rejected as corrupted when it is read, in every format. Such a list arises by adding a
  document first without positions and then with them, as the witness does.
\<close>

theorem miscounted_list_unreadable:
  assumes "packs_blocks bp" "encodable l" "\<not> counted l"
    and "encode_header_and_payload bp format l (struct_writer_new cap) = (Inr (), s)"
  shows "\<not> ok (fst (decode_soa_inner bp format None (struct_reader_new (sw_content s) lends)))"
proof -
  have "sw_content s = posting_bytes bp format l"
    using emitted_content [OF encode_emits [OF encodable_writable [OF assms(2)]] assms(4)] .
  with decode_outcome [OF assms(1,2), of None format "[]"] assms(3) show ?thesis by (simp add: outcome_def)
qed

definition mixed_list :: posting_list where
  "mixed_list = add_posting (posting_with_positions 9 [4]) (add_posting (posting_with_frequency 9 1) (posting_list_new [97]))"

lemma mixed_list_ok: "encodable mixed_list" "\<not> counted mixed_list"
  by (simp_all add: mixed_list_def add_posting_def posting_list_new_def search_by_key.simps posting_with_positions_def
      posting_with_frequency_def merge_posting_def Let_def encodable_def counted_def counts_positions_def)

lemma miscounted_list_unreadable_witness:
  "\<exists>s. encode_header_and_payload plain_packer V3 mixed_list
       (struct_writer_new (length (posting_bytes plain_packer V3 mixed_list))) = (Inr (), s) \<and>
     \<not> ok (fst (decode_soa_inner plain_packer V3 None (struct_reader_new (sw_content s) True)))"
proof -
  obtain s where "encode_header_and_payload plain_packer V3 mixed_list
       (struct_writer_new (length (posting_bytes plain_packer V3 mixed_list))) = (Inr (), s)"
    using emits_fits [OF encode_emits [OF encodable_writable [OF mixed_list_ok(1)]]] by blast
  with miscounted_list_unreadable [OF plain_packer_ok(1) mixed_list_ok this, of True] show ?thesis by blast
qed

end
