(* ===== verification/Caches.thy ===== *)
theory Caches
  imports Posting_Codec
begin

text \<open>
  The two caches of the readers: the decoded posting lists of a segment,
  \<^verbatim>\<open>laurus/src/lexical/index/inverted/posting_cache.rs\<close>, and the matching documents of a query,
  \<^verbatim>\<open>laurus/src/lexical/index/inverted/query_cache.rs\<close>. Both keep their entries in the map of the
  \<open>lru\<close> crate, which is a parameter.
\<close>

section \<open>The map of the \<open>lru\<close> crate\<close>

record ('v, 'c) lru_ops =
  lru_unbounded :: 'c
  lru_sparse :: "nat \<Rightarrow> 'c"
  lru_get :: "bytes \<Rightarrow> 'c \<Rightarrow> 'v option \<times> 'c"
  lru_put :: "bytes \<Rightarrow> 'v \<Rightarrow> 'c \<Rightarrow> 'v option \<times> 'c"
  lru_pop_lru :: "'c \<Rightarrow> (bytes \<times> 'v) option \<times> 'c"
  lru_len :: "'c \<Rightarrow> nat"

text \<open>
  Its documented behaviour, in terms of the capacity of a map and its entries, the most recently used
  first: both \<open>get\<close> and \<open>put\<close> move an entry to the front, a map with a capacity drops the last entry
  beyond it, and \<open>pop_lru\<close> takes the last one.
\<close>

definition without_key :: "bytes \<Rightarrow> (bytes \<times> 'v) list \<Rightarrow> (bytes \<times> 'v) list" where
  "without_key k es = filter (\<lambda>(k', _). k' \<noteq> k) es"

definition to_front :: "bytes \<Rightarrow> (bytes \<times> 'v) list \<Rightarrow> (bytes \<times> 'v) list" where
  "to_front k es = (case map_of es k of None \<Rightarrow> es | Some v \<Rightarrow> (k, v) # without_key k es)"

definition within :: "nat option \<Rightarrow> 'a list \<Rightarrow> 'a list" where
  "within cap es = (case cap of None \<Rightarrow> es | Some n \<Rightarrow> take n es)"

definition lru_behaves :: "('v, 'c) lru_ops \<Rightarrow> ('c \<Rightarrow> nat option) \<Rightarrow> ('c \<Rightarrow> (bytes \<times> 'v) list) \<Rightarrow> bool" where
  "lru_behaves lru cap entries \<longleftrightarrow>
     cap (lru_unbounded lru) = None \<and> entries (lru_unbounded lru) = [] \<and>
     (\<forall>n. cap (lru_sparse lru n) = Some n \<and> entries (lru_sparse lru n) = []) \<and>
     (\<forall>k c. fst (lru_get lru k c) = map_of (entries c) k \<and> cap (snd (lru_get lru k c)) = cap c \<and>
        entries (snd (lru_get lru k c)) = to_front k (entries c)) \<and>
     (\<forall>k v c. fst (lru_put lru k v c) = map_of (entries c) k \<and> cap (snd (lru_put lru k v c)) = cap c \<and>
        entries (snd (lru_put lru k v c)) = within (cap c) ((k, v) # without_key k (entries c))) \<and>
     (\<forall>c. fst (lru_pop_lru lru c) = (if entries c = [] then None else Some (last (entries c))) \<and>
        cap (snd (lru_pop_lru lru c)) = cap c \<and> entries (snd (lru_pop_lru lru c)) = butlast (entries c)) \<and>
     (\<forall>c. lru_len lru c = length (entries c))"

lemma lruD:
  assumes "lru_behaves lru cap entries"
  shows "entries (lru_unbounded lru) = []" "cap (lru_unbounded lru) = None"
    "entries (lru_sparse lru n) = []" "cap (lru_sparse lru n) = Some n"
    "fst (lru_get lru k c) = map_of (entries c) k" "cap (snd (lru_get lru k c)) = cap c"
    "entries (snd (lru_get lru k c)) = to_front k (entries c)"
    "fst (lru_put lru k v c) = map_of (entries c) k" "cap (snd (lru_put lru k v c)) = cap c"
    "entries (snd (lru_put lru k v c)) = within (cap c) ((k, v) # without_key k (entries c))"
    "fst (lru_pop_lru lru c) = (if entries c = [] then None else Some (last (entries c)))"
    "cap (snd (lru_pop_lru lru c)) = cap c" "entries (snd (lru_pop_lru lru c)) = butlast (entries c)"
    "lru_len lru c = length (entries c)"
  using assms by (simp_all add: lru_behaves_def)

text \<open>A list of entries with its capacity behaves so.\<close>

definition list_lru :: "('v, nat option \<times> (bytes \<times> 'v) list) lru_ops" where
  "list_lru = \<lparr>lru_unbounded = (None, []), lru_sparse = \<lambda>n. (Some n, []),
     lru_get = \<lambda>k (c, es). (map_of es k, c, to_front k es),
     lru_put = \<lambda>k v (c, es). (map_of es k, c, within c ((k, v) # without_key k es)),
     lru_pop_lru = \<lambda>(c, es). (if es = [] then None else Some (last es), c, butlast es),
     lru_len = \<lambda>(c, es). length es\<rparr>"

lemma list_lru_behaves: "lru_behaves list_lru fst snd"
  by (auto simp: lru_behaves_def list_lru_def)

section \<open>The posting cache\<close>

text \<open>
  \<open>estimated_bytes\<close>: the size of the struct on a 64-bit target, and that of its strings and arrays.
\<close>

definition DECODED_SIZE :: nat where "DECODED_SIZE = 160"

definition estimated_bytes :: "decoded_posting_list \<Rightarrow> nat" where
  "estimated_bytes d = DECODED_SIZE + length (d_term d) + length (d_doc_ids d) * 4 + length (d_frequencies d) * 4 +
     length (d_weights d) * 4 + sum_list (map (\<lambda>level. length level * 4) (d_skip_levels d)) +
     (case d_positions d of None \<Rightarrow> 0
      | Some pss \<Rightarrow> sum_list (map (\<lambda>ps. length ps * 4) (List.map_filter id pss)))"

record 'c posting_cache_inner =
  pci_lru :: 'c
  cur_bytes :: nat
  max_bytes :: nat

record 'c posting_cache =
  pch_inner :: "'c posting_cache_inner option"
  pch_hits :: u64
  pch_misses :: u64

definition posting_cache_new :: "(decoded_posting_list, 'c) lru_ops \<Rightarrow> nat \<Rightarrow> 'c posting_cache" where
  "posting_cache_new lru budget =
     \<lparr>pch_inner = (if budget > 0 then Some \<lparr>pci_lru = lru_unbounded lru, cur_bytes = 0, max_bytes = budget\<rparr> else None),
      pch_hits = 0, pch_misses = 0\<rparr>"

definition pch_enabled :: "'c posting_cache \<Rightarrow> bool" where
  "pch_enabled s \<longleftrightarrow> pch_inner s \<noteq> None"

definition posting_cache_get ::
    "(decoded_posting_list, 'c) lru_ops \<Rightarrow> bytes \<Rightarrow> 'c posting_cache \<Rightarrow> decoded_posting_list option \<times> 'c posting_cache" where
  "posting_cache_get lru key s =
     (let (hit, s') =
        (case pch_inner s of
           None \<Rightarrow> (None, s)
         | Some i \<Rightarrow> let (hit, l) = lru_get lru key (pci_lru i) in (hit, s\<lparr>pch_inner := Some (i\<lparr>pci_lru := l\<rparr>)\<rparr>))
      in (hit, if hit \<noteq> None then s'\<lparr>pch_hits := pch_hits s' + 1\<rparr> else s'\<lparr>pch_misses := pch_misses s' + 1\<rparr>))"

text \<open>The loop that evicts until the cache is within its budget.\<close>

partial_function (option) evict ::
    "(decoded_posting_list, 'c) lru_ops \<Rightarrow> 'c posting_cache_inner \<Rightarrow> 'c posting_cache_inner option" where
  "evict lru i =
     (if cur_bytes i > max_bytes i then
        case lru_pop_lru lru (pci_lru i) of
          (Some (_, evicted), l) \<Rightarrow> evict lru (i\<lparr>pci_lru := l, cur_bytes := cur_bytes i - estimated_bytes evicted\<rparr>)
        | (None, l) \<Rightarrow> Some (i\<lparr>pci_lru := l\<rparr>)
      else Some i)"

definition posting_cache_put ::
    "(decoded_posting_list, 'c) lru_ops \<Rightarrow> bytes \<Rightarrow> decoded_posting_list \<Rightarrow> 'c posting_cache \<Rightarrow> 'c posting_cache option" where
  "posting_cache_put lru key d s =
     (case pch_inner s of
        None \<Rightarrow> Some s
      | Some i \<Rightarrow>
          let size = estimated_bytes d
          in if size > max_bytes i then Some s
             else
               let (old, l) = lru_put lru key d (pci_lru i);
                   cur = (case old of None \<Rightarrow> cur_bytes i | Some v \<Rightarrow> cur_bytes i - estimated_bytes v)
               in map_option (\<lambda>i'. s\<lparr>pch_inner := Some i'\<rparr>)
                    (evict lru (i\<lparr>pci_lru := l, cur_bytes := (cur + size) mod 2 ^ 64\<rparr>)))"

section \<open>The query filter cache\<close>

record 'c query_filter_cache =
  qfc_inner :: "'c option"
  qfc_hits :: u64
  qfc_misses :: u64

definition query_filter_cache_new :: "(nat set, 'c) lru_ops \<Rightarrow> nat \<Rightarrow> 'c query_filter_cache" where
  "query_filter_cache_new lru capacity =
     \<lparr>qfc_inner = (if capacity > 0 then Some (lru_sparse lru capacity) else None), qfc_hits = 0, qfc_misses = 0\<rparr>"

definition query_cache_get ::
    "(nat set, 'c) lru_ops \<Rightarrow> bytes \<Rightarrow> 'c query_filter_cache \<Rightarrow> nat set option \<times> 'c query_filter_cache" where
  "query_cache_get lru key s =
     (let (hit, s') =
        (case qfc_inner s of
           None \<Rightarrow> (None, s)
         | Some c \<Rightarrow> let (hit, c') = lru_get lru key c in (hit, s\<lparr>qfc_inner := Some c'\<rparr>))
      in (hit, if hit \<noteq> None then s'\<lparr>qfc_hits := qfc_hits s' + 1\<rparr> else s'\<lparr>qfc_misses := qfc_misses s' + 1\<rparr>))"

definition query_cache_put ::
    "(nat set, 'c) lru_ops \<Rightarrow> bytes \<Rightarrow> nat set \<Rightarrow> 'c query_filter_cache \<Rightarrow> 'c query_filter_cache" where
  "query_cache_put lru key ids s =
     (case qfc_inner s of None \<Rightarrow> s | Some c \<Rightarrow> s\<lparr>qfc_inner := Some (snd (lru_put lru key ids c))\<rparr>)"

section \<open>The budget\<close>

definition bytes_of :: "(bytes \<times> decoded_posting_list) list \<Rightarrow> nat" where
  "bytes_of es = sum_list (map (\<lambda>(_, d). estimated_bytes d) es)"

text \<open>
  Between two operations the keys are distinct and the running total is that of the entries, within
  the budget. The budget is below \<open>2 ^ 63\<close>, so that the total of one entry more does not wrap.
\<close>

definition pci_inv :: "('c \<Rightarrow> nat option) \<Rightarrow> ('c \<Rightarrow> (bytes \<times> decoded_posting_list) list) \<Rightarrow> 'c posting_cache_inner \<Rightarrow> bool" where
  "pci_inv cap entries i \<longleftrightarrow> cap (pci_lru i) = None \<and> distinct (map fst (entries (pci_lru i))) \<and>
     cur_bytes i = bytes_of (entries (pci_lru i)) \<and> cur_bytes i \<le> max_bytes i \<and> max_bytes i < 2 ^ 63"

definition pch_inv :: "('c \<Rightarrow> nat option) \<Rightarrow> ('c \<Rightarrow> (bytes \<times> decoded_posting_list) list) \<Rightarrow> 'c posting_cache \<Rightarrow> bool" where
  "pch_inv cap entries s \<longleftrightarrow> (\<forall>i. pch_inner s = Some i \<longrightarrow> pci_inv cap entries i)"

definition pch_entries :: "('c \<Rightarrow> (bytes \<times> decoded_posting_list) list) \<Rightarrow> 'c posting_cache \<Rightarrow> (bytes \<times> decoded_posting_list) list" where
  "pch_entries entries s = (case pch_inner s of None \<Rightarrow> [] | Some i \<Rightarrow> entries (pci_lru i))"

lemma without_key_simps [simp]:
  "k \<notin> fst ` set (without_key k es)" "set (without_key k es) \<subseteq> set es"
  "map_of (without_key k es) k' = (if k' = k then None else map_of es k')"
  by (induction es) (auto simp: without_key_def)

lemma distinct_without_key: "distinct (map fst es) \<Longrightarrow> distinct (map fst (without_key k es))"
  by (auto simp: without_key_def distinct_map intro: inj_on_subset)

lemma bytes_of_simps [simp]: "bytes_of [] = 0" "bytes_of ((k, d) # es) = estimated_bytes d + bytes_of es"
  "bytes_of (es @ fs) = bytes_of es + bytes_of fs"
  by (simp_all add: bytes_of_def)

lemma bytes_without_key:
  assumes "distinct (map fst es)"
  shows "bytes_of es = (case map_of es k of None \<Rightarrow> 0 | Some d \<Rightarrow> estimated_bytes d) + bytes_of (without_key k es)"
  using assms
proof (induction es)
  case (Cons e es)
  obtain k' d where e: "e = (k', d)" by (cases e)
  show ?case
  proof (cases "k' = k")
    case True
    have none: "map_of es k = None" using Cons.prems e True by (simp add: map_of_eq_None_iff)
    moreover have "without_key k es = es"
      using none by (force simp: without_key_def filter_id_conv map_of_eq_None_iff)
    ultimately show ?thesis using e True by (simp add: without_key_def)
  next
    case False
    with Cons e show ?thesis by (simp add: without_key_def)
  qed
qed (simp add: without_key_def)

lemma to_front_facts:
  assumes "distinct (map fst es)"
  shows "distinct (map fst (to_front k es))" "bytes_of (to_front k es) = bytes_of es" "map_of (to_front k es) = map_of es"
proof -
  show "distinct (map fst (to_front k es))"
    using assms without_key_simps(1) [of k es] by (auto simp: to_front_def distinct_without_key split: option.split)
  show "bytes_of (to_front k es) = bytes_of es"
    using bytes_without_key [OF assms, of k] by (auto simp: to_front_def split: option.split)
  show "map_of (to_front k es) = map_of es" by (auto simp: to_front_def fun_eq_iff split: option.split)
qed

lemma evict_spec:
  assumes "lru_behaves lru cap entries" "cap (pci_lru i) = None" "distinct (map fst (entries (pci_lru i)))"
    "cur_bytes i = bytes_of (entries (pci_lru i))"
    "\<forall>e es. entries (pci_lru i) = e # es \<longrightarrow> estimated_bytes (snd e) \<le> max_bytes i"
  shows "\<exists>i' n. evict lru i = Some i' \<and> cap (pci_lru i') = None \<and> max_bytes i' = max_bytes i \<and>
    entries (pci_lru i') = take n (entries (pci_lru i)) \<and> (entries (pci_lru i) \<noteq> [] \<longrightarrow> 0 < n) \<and>
    cur_bytes i' = bytes_of (entries (pci_lru i')) \<and> cur_bytes i' \<le> max_bytes i"
  using assms(2-5)
proof (induction "length (entries (pci_lru i))" arbitrary: i rule: less_induct)
  case less
  note lru = lruD [OF assms(1)]
  let ?es = "entries (pci_lru i)"
  show ?case
  proof (cases "cur_bytes i > max_bytes i")
    case False
    then have "evict lru i = Some i" by (subst evict.simps) simp
    with less.prems(1,3) False show ?thesis by (intro exI [of _ i] exI [of _ "Suc (length ?es)"]) auto
  next
    case True
    then have "?es \<noteq> []" using less.prems(3) by auto
    then obtain fs k e where es: "?es = fs @ [(k, e)]" by (metis append_butlast_last_id surj_pair)
    obtain l where pop: "lru_pop_lru lru (pci_lru i) = (Some (k, e), l)"
      using lru(11) [of "pci_lru i"] es by (cases "lru_pop_lru lru (pci_lru i)") auto
    then have l: "entries l = fs" "cap l = None"
      using lru(12,13) [of "pci_lru i"] es less.prems(1) by auto
    let ?i = "i\<lparr>pci_lru := l, cur_bytes := cur_bytes i - estimated_bytes e\<rparr>"
    have "fs \<noteq> []"
    proof
      assume "fs = []"
      with es less.prems(3,4) True show False by (auto simp: bytes_of_def)
    qed
    have "\<exists>i' n. evict lru ?i = Some i' \<and> cap (pci_lru i') = None \<and> max_bytes i' = max_bytes ?i \<and>
      entries (pci_lru i') = take n (entries (pci_lru ?i)) \<and> (entries (pci_lru ?i) \<noteq> [] \<longrightarrow> 0 < n) \<and>
      cur_bytes i' = bytes_of (entries (pci_lru i')) \<and> cur_bytes i' \<le> max_bytes ?i"
      by (rule less.hyps) (use less.prems es l in auto)
    then obtain i' n where i': "evict lru ?i = Some i'" "cap (pci_lru i') = None" "max_bytes i' = max_bytes i"
      "entries (pci_lru i') = take n fs" "0 < n" "cur_bytes i' = bytes_of (entries (pci_lru i'))" "cur_bytes i' \<le> max_bytes i"
      using l(1) \<open>fs \<noteq> []\<close> by auto
    moreover have "evict lru i = evict lru ?i" using True pop by (subst evict.simps) simp
    moreover have "take n fs = take (min n (length fs)) ?es" by (cases "n \<le> length fs") (simp_all add: es)
    ultimately show ?thesis
      using \<open>fs \<noteq> []\<close> by (intro exI [of _ i'] exI [of _ "min n (length fs)"]) auto
  qed
qed

lemma posting_cache_get_spec:
  assumes "lru_behaves lru cap entries" "pch_inv cap entries s" "posting_cache_get lru key s = (hit, s')"
  shows "hit = map_of (pch_entries entries s) key" "pch_inv cap entries s'"
    "map_of (pch_entries entries s') = map_of (pch_entries entries s)"
proof -
  note lru = lruD [OF assms(1)]
  have "hit = map_of (pch_entries entries s) key \<and> pch_inv cap entries s' \<and>
      map_of (pch_entries entries s') = map_of (pch_entries entries s)"
  proof (cases "pch_inner s")
    case None
    with assms(3) show ?thesis by (auto simp: posting_cache_get_def pch_entries_def pch_inv_def)
  next
    case (Some i)
    then have inv: "pci_inv cap entries i" using assms(2) by (simp add: pch_inv_def)
    with to_front_facts [of "entries (pci_lru i)" key] lru(5,6,7) [of key "pci_lru i"] Some assms(3) show ?thesis
      by (auto simp: posting_cache_get_def pch_entries_def pch_inv_def pci_inv_def Let_def split: prod.splits if_splits)
  qed
  then show "hit = map_of (pch_entries entries s) key" "pch_inv cap entries s'"
    "map_of (pch_entries entries s') = map_of (pch_entries entries s)" by blast+
qed

lemma posting_cache_put_spec:
  assumes "lru_behaves lru cap entries" "pch_inv cap entries s"
  shows "\<exists>s'. posting_cache_put lru key d s = Some s' \<and> pch_inv cap entries s' \<and>
    (\<exists>n. pch_entries entries s' =
       (if (\<exists>i. pch_inner s = Some i \<and> estimated_bytes d \<le> max_bytes i)
        then take (Suc n) ((key, d) # without_key key (pch_entries entries s)) else pch_entries entries s))"
proof (cases "pch_inner s")
  case None
  then show ?thesis using assms(2) by (auto simp: posting_cache_put_def)
next
  case (Some i)
  then have inv: "cap (pci_lru i) = None" "distinct (map fst (entries (pci_lru i)))"
    "cur_bytes i = bytes_of (entries (pci_lru i))" "cur_bytes i \<le> max_bytes i" "max_bytes i < 2 ^ 63"
    using assms(2) by (simp_all add: pch_inv_def pci_inv_def)
  note lru = lruD [OF assms(1)]
  show ?thesis
  proof (cases "estimated_bytes d \<le> max_bytes i")
    case False
    then show ?thesis using Some assms(2) by (auto simp: posting_cache_put_def)
  next
    case fits: True
    let ?es = "entries (pci_lru i)" and ?size = "estimated_bytes d"
    obtain l where put: "lru_put lru key d (pci_lru i) = (map_of ?es key, l)"
      using lru(8) [of key d "pci_lru i"] by (cases "lru_put lru key d (pci_lru i)") auto
    then have l: "cap l = None" "entries l = (key, d) # without_key key ?es"
      using lru(9,10) [of key d "pci_lru i"] inv(1) by (auto simp: within_def)
    let ?cur = "case map_of ?es key of None \<Rightarrow> cur_bytes i | Some v \<Rightarrow> cur_bytes i - estimated_bytes v"
    have cur: "?cur = bytes_of (without_key key ?es)"
      using bytes_without_key [OF inv(2), of key] inv(3) by (auto split: option.split)
    then have "?cur \<le> cur_bytes i" using bytes_without_key [OF inv(2), of key] inv(3) by simp
    then have "?cur + ?size < 2 ^ 64" using inv(4,5) fits by simp
    then have total: "(?cur + ?size) mod 2 ^ 64 = bytes_of (entries l)" using cur l(2) by simp
    let ?i = "i\<lparr>pci_lru := l, cur_bytes := (?cur + ?size) mod 2 ^ 64\<rparr>"
    have dist: "distinct (map fst (entries l))" using l(2) distinct_without_key [OF inv(2)] by simp
    have "\<exists>i' n. evict lru ?i = Some i' \<and> cap (pci_lru i') = None \<and> max_bytes i' = max_bytes ?i \<and>
      entries (pci_lru i') = take n (entries (pci_lru ?i)) \<and> (entries (pci_lru ?i) \<noteq> [] \<longrightarrow> 0 < n) \<and>
      cur_bytes i' = bytes_of (entries (pci_lru i')) \<and> cur_bytes i' \<le> max_bytes ?i"
      by (rule evict_spec [OF assms(1)]) (use l total dist fits in auto)
    then obtain i' n where i': "evict lru ?i = Some i'" "cap (pci_lru i') = None" "max_bytes i' = max_bytes i"
      "entries (pci_lru i') = take n (entries l)" "0 < n" "cur_bytes i' = bytes_of (entries (pci_lru i'))"
      "cur_bytes i' \<le> max_bytes i"
      using l(2) by auto
    have "posting_cache_put lru key d s = Some (s\<lparr>pch_inner := Some i'\<rparr>)"
      using Some fits put i'(1) by (simp add: posting_cache_put_def Let_def)
    moreover have "pci_inv cap entries i'"
      using i' inv(5) dist by (auto simp: pci_inv_def take_map [symmetric] distinct_take)
    moreover obtain m where "n = Suc m" using i'(5) gr0_implies_Suc by blast
    ultimately show ?thesis using Some fits i'(4) l(2)
      by (intro exI [of _ "s\<lparr>pch_inner := Some i'\<rparr>"]) (auto simp: pch_inv_def pch_entries_def intro: exI [of _ m])
  qed
qed

text \<open>
  C21. Putting a list into the posting cache returns, whatever has to be evicted: afterwards the running
  total is again that of the entries and within the budget, the new entry is the most recent one, and
  what was evicted are the least recently used entries. A list larger than the budget changes nothing.
\<close>

theorem posting_cache_within_budget:
  assumes "lru_behaves lru cap entries" "pch_inv cap entries s"
  shows "\<exists>s' n. posting_cache_put lru key d s = Some s' \<and> pch_inv cap entries s' \<and>
    pch_entries entries s' =
       (if \<exists>i. pch_inner s = Some i \<and> estimated_bytes d \<le> max_bytes i
        then take (Suc n) ((key, d) # without_key key (pch_entries entries s)) else pch_entries entries s)"
  using posting_cache_put_spec [OF assms] by blast

definition small_list :: decoded_posting_list where
  "small_list = \<lparr>d_term = [97], d_doc_ids = [3], d_frequencies = [1], d_weights = [], d_positions = None,
     d_skip_levels = [], d_total_frequency = 1, d_doc_frequency = 1\<rparr>"

lemma posting_cache_within_budget_witness:
  "\<exists>s' n. posting_cache_put list_lru [97, 1, 97] small_list (posting_cache_new list_lru 1000) = Some s' \<and>
     pch_inv fst snd s' \<and> pch_entries snd s' = take (Suc n) [([97, 1, 97], small_list)]"
proof -
  have "pch_inv fst snd (posting_cache_new list_lru 1000)"
    by (simp add: posting_cache_new_def pch_inv_def pci_inv_def list_lru_def)
  from posting_cache_within_budget [OF list_lru_behaves this, of "[97, 1, 97]" small_list] show ?thesis
    by (simp add: posting_cache_new_def list_lru_def pch_entries_def without_key_def small_list_def estimated_bytes_def
        DECODED_SIZE_def)
qed

end
