(* ===== verification/Deleted_Docs.thy ===== *)
theory Deleted_Docs
  imports Prelude
begin

text \<open>
  The deleted documents of a segment as its reader keeps them,
  \<^verbatim>\<open>laurus/src/lexical/index/inverted/deleted_docs.rs\<close>: the set of ids, and a bitset over the range of
  the segment beside it. A roaring treemap is the set it holds.
\<close>

unbundle bit_operations_syntax

section \<open>State and operations\<close>

definition MAX_BITS_PER_DOC :: nat where "MAX_BITS_PER_DOC = 8"

record range_bits =
  rb_min_doc_id :: nat
  rb_words :: "u64 list"

record deleted_docs =
  dd_ids :: "nat set"
  dd_bits :: "range_bits option"

definition range_width :: "nat \<Rightarrow> nat \<Rightarrow> nat option" where
  "range_width min_doc_id max_doc_id =
     (if max_doc_id < min_doc_id then None
      else if max_doc_id - min_doc_id + 1 < 2 ^ 64 then Some (max_doc_id - min_doc_id + 1) else None)"

text \<open>The offsets of the ids from the lowest one on, up to the end of the last word.\<close>

definition bit_offsets :: "nat set \<Rightarrow> nat \<Rightarrow> nat \<Rightarrow> nat list" where
  "bit_offsets ids min_doc_id span =
     takeWhile (\<lambda>offset. offset < span)
       (map (\<lambda>d. d - min_doc_id) (dropWhile (\<lambda>d. d < min_doc_id) (sorted_list_of_set ids)))"

definition mark_bit :: "nat \<Rightarrow> u64 list \<Rightarrow> u64 list" where
  "mark_bit offset words = words[offset div 64 := words ! (offset div 64) OR push_bit (offset mod 64) 1]"

definition range_bits_new :: "nat set \<Rightarrow> nat \<Rightarrow> nat \<Rightarrow> range_bits option" where
  "range_bits_new ids min_doc_id width =
     (let len = (width + 63) div 64; span = len * 64
      in if span < 2 ^ 64
         then Some \<lparr>rb_min_doc_id = min_doc_id,
                rb_words = fold mark_bit (bit_offsets ids min_doc_id span) (replicate len 0)\<rparr>
         else None)"

definition wrapping_sub :: "nat \<Rightarrow> nat \<Rightarrow> nat" where
  "wrapping_sub a b = (a + 2 ^ 64 - b) mod 2 ^ 64"

definition range_bits_get :: "nat \<Rightarrow> range_bits \<Rightarrow> bool option" where
  "range_bits_get doc_id b =
     (let offset = wrapping_sub doc_id (rb_min_doc_id b)
      in if offset div 64 < length (rb_words b)
         then Some (drop_bit (offset mod 64) (rb_words b ! (offset div 64)) AND 1 = 1) else None)"

definition deleted_docs_new :: "nat set \<Rightarrow> nat \<Rightarrow> nat \<Rightarrow> nat \<Rightarrow> deleted_docs" where
  "deleted_docs_new ids min_doc_id max_doc_id doc_count =
     \<lparr>dd_ids = ids, dd_bits = (case range_width min_doc_id max_doc_id of
        Some width \<Rightarrow> if width \<le> min (doc_count * MAX_BITS_PER_DOC) u64_max
                      then range_bits_new ids min_doc_id width else None
      | None \<Rightarrow> None)\<rparr>"

definition contains :: "nat \<Rightarrow> deleted_docs \<Rightarrow> bool" where
  "contains doc_id d =
     (case Option.bind (dd_bits d) (range_bits_get doc_id) of
        Some deleted \<Rightarrow> deleted
      | None \<Rightarrow> doc_id \<in> dd_ids d)"

section \<open>The bitset mirrors the set\<close>

lemma length_mark_bit [simp]: "length (mark_bit o' ws) = length ws"
  by (simp add: mark_bit_def)

lemma bit_mark_bit:
  assumes "o' div 64 < length ws" "i < length ws" "j < 64"
  shows "bit (mark_bit o' ws ! i) j \<longleftrightarrow> bit (ws ! i) j \<or> (i = o' div 64 \<and> j = o' mod 64)"
  using assms by (auto simp: mark_bit_def nth_list_update bit_simps)

lemma bit_fold_mark:
  assumes "i < length ws" "j < 64"
  shows "\<forall>o' \<in> set offs. o' div 64 < length ws \<Longrightarrow>
    bit (fold mark_bit offs ws ! i) j \<longleftrightarrow> bit (ws ! i) j \<or> i * 64 + j \<in> set offs"
  using assms
proof (induction offs arbitrary: ws)
  case (Cons o' offs)
  have "i = o' div 64 \<and> j = o' mod 64 \<longleftrightarrow> i * 64 + j = o'" using Cons.prems(3) by auto
  with Cons.IH [of "mark_bit o' ws"] bit_mark_bit [of o' ws i j] Cons.prems show ?case by auto
qed simp

lemma takeWhile_sorted: "sorted xs \<Longrightarrow> set (takeWhile (\<lambda>x. x < (n :: nat)) xs) = {x \<in> set xs. x < n}"
  by (induction xs) (auto dest: le_less_trans)

lemma dropWhile_sorted: "sorted xs \<Longrightarrow> set (dropWhile (\<lambda>x. x < (n :: nat)) xs) = {x \<in> set xs. n \<le> x}"
proof (induction xs)
  case (Cons x xs)
  show ?case
  proof (cases "x < n")
    case True
    with Cons show ?thesis by auto
  next
    case False
    with Cons.prems have "\<forall>y \<in> set (x # xs). n \<le> y" by auto
    with False show ?thesis by auto
  qed
qed simp

lemma set_bit_offsets:
  assumes "finite ids"
  shows "set (bit_offsets ids m span) = {d - m | d. d \<in> ids \<and> m \<le> d \<and> d - m < span}"
proof -
  let ?ds = "dropWhile (\<lambda>d. d < m) (sorted_list_of_set ids)"
  have "sorted ?ds" by (rule sorted_dropWhile) simp
  then have "sorted (map (\<lambda>d. d - m) ?ds)" by (auto simp: sorted_iff_nth_mono intro: diff_le_mono)
  moreover have "set ?ds = {d \<in> ids. m \<le> d}" using dropWhile_sorted [of "sorted_list_of_set ids" m] assms by simp
  ultimately show ?thesis
    unfolding bit_offsets_def by (simp add: takeWhile_sorted) auto
qed

lemma and_1_bit: "(drop_bit n (w :: u64) AND 1 = 1) \<longleftrightarrow> bit w n"
  by (simp add: and_one_eq odd_iff_mod_2_eq_one [symmetric] bit_iff_odd_drop_bit mod_2_eq_odd)

lemma range_bits_mirror:
  assumes "finite ids" "range_bits_new ids m width = Some b" "m \<le> d" "d < 2 ^ 64"
  shows "range_bits_get d b = (if d - m < (width + 63) div 64 * 64 then Some (d \<in> ids) else None)"
proof -
  let ?len = "(width + 63) div 64"
  have b: "b = \<lparr>rb_min_doc_id = m, rb_words = fold mark_bit (bit_offsets ids m (?len * 64)) (replicate ?len 0)\<rparr>"
    using assms(2) by (auto simp: range_bits_new_def Let_def split: if_splits)
  have len: "length (fold mark_bit offs ws) = length ws" for offs ws by (induction offs arbitrary: ws) simp_all
  have off: "wrapping_sub d m = d - m"
  proof -
    have e: "d + 2 ^ 64 - m = (d - m) + 2 ^ 64" using assms(3) by linarith
    have "d - m < 2 ^ 64" using assms(4) by linarith
    then show ?thesis unfolding wrapping_sub_def e by (simp only: mod_add_self2 mod_less)
  qed
  show ?thesis
  proof (cases "d - m < ?len * 64")
    case True
    then have w: "(d - m) div 64 < ?len" by (simp add: div_less_iff_less_mult)
    have offs: "\<forall>x \<in> set (bit_offsets ids m (?len * 64)). x div 64 < length (replicate ?len (0 :: u64))"
      using set_bit_offsets [OF assms(1)] by (auto simp: div_less_iff_less_mult)
    have "bit (fold mark_bit (bit_offsets ids m (?len * 64)) (replicate ?len 0) ! ((d - m) div 64)) ((d - m) mod 64)
        \<longleftrightarrow> (d - m) div 64 * 64 + (d - m) mod 64 \<in> set (bit_offsets ids m (?len * 64))"
      using bit_fold_mark [OF _ _ offs, of "(d - m) div 64" "(d - m) mod 64"] w by simp
    also have "\<dots> \<longleftrightarrow> d \<in> ids"
      using True assms(1,3) by (auto simp: set_bit_offsets) (metis le_add_diff_inverse)
    finally show ?thesis using True w by (simp add: range_bits_get_def Let_def b off len and_1_bit)
  next
    case False
    then have "\<not> (d - m) div 64 < ?len" by (simp add: div_less_iff_less_mult)
    with False show ?thesis by (simp add: range_bits_get_def Let_def b off len)
  qed
qed

lemma contains_iff:
  assumes "finite ids" "doc_id < 2 ^ 64" "max_doc_id \<le> 2 ^ 64 - 64"
  shows "contains doc_id (deleted_docs_new ids min_doc_id max_doc_id doc_count) \<longleftrightarrow> doc_id \<in> ids"
proof (cases "dd_bits (deleted_docs_new ids min_doc_id max_doc_id doc_count)")
  case None
  then show ?thesis by (simp add: contains_def deleted_docs_new_def)
next
  case (Some b)
  then obtain width where w: "range_width min_doc_id max_doc_id = Some width" "range_bits_new ids min_doc_id width = Some b"
    by (auto simp: deleted_docs_new_def split: option.splits if_splits)
  have "range_bits_get doc_id b \<in> {None, Some (doc_id \<in> ids)}"
  proof (cases "min_doc_id \<le> doc_id")
    case True
    with range_bits_mirror [OF assms(1) w(2) True assms(2)] show ?thesis by simp
  next
    case False
    have "width = max_doc_id - min_doc_id + 1" "min_doc_id \<le> max_doc_id" using w(1) by (auto simp: range_width_def split: if_splits)
    then have "(width + 63) div 64 * 64 \<le> max_doc_id - min_doc_id + 64" by simp
    moreover have "(0 :: nat) < 2 ^ 64" by simp
    then have "doc_id + 2 ^ 64 - min_doc_id < 2 ^ 64" using False by linarith
    then have "wrapping_sub doc_id min_doc_id = doc_id + 2 ^ 64 - min_doc_id" unfolding wrapping_sub_def by (rule mod_less)
    moreover have "max_doc_id - min_doc_id + 64 \<le> doc_id + 2 ^ 64 - min_doc_id"
    proof -
      have "(64 :: nat) \<le> 2 ^ 64" by simp
      with assms(3) \<open>min_doc_id \<le> max_doc_id\<close> show ?thesis by linarith
    qed
    ultimately have "(width + 63) div 64 \<le> wrapping_sub doc_id min_doc_id div 64"
      by (metis div_le_mono div_mult_self_is_m order_trans zero_less_numeral)
    moreover have "length (rb_words b) = (width + 63) div 64" "rb_min_doc_id b = min_doc_id"
    proof -
      have "length (fold mark_bit offs ws) = length ws" for offs ws by (induction offs arbitrary: ws) simp_all
      then show "length (rb_words b) = (width + 63) div 64" "rb_min_doc_id b = min_doc_id"
        using w(2) by (auto simp: range_bits_new_def Let_def split: if_splits)
    qed
    ultimately show ?thesis by (simp add: range_bits_get_def Let_def)
  qed
  with Some show ?thesis by (auto simp: contains_def deleted_docs_new_def)
qed

text \<open>
  A check of the deleted documents answers exactly as the set of deleted ids does, for ids inside
  the range of the segment, on either side of it, and around the ends of the last word, whether the
  segment has a bitset or not; as long as the range does not reach the last 63 ids there are.
\<close>

theorem deleted_docs_exact:
  assumes "finite ids" "doc_id < 2 ^ 64" "max_doc_id \<le> 2 ^ 64 - 64"
  shows "contains doc_id (deleted_docs_new ids min_doc_id max_doc_id doc_count) \<longleftrightarrow> doc_id \<in> ids"
  using assms by (rule contains_iff)

lemma deleted_docs_exact_witness:
  "contains 163 (deleted_docs_new {3, 99, 163, 300} 100 299 200) \<and> \<not> contains 164 (deleted_docs_new {3, 99, 163, 300} 100 299 200) \<and>
   contains 3 (deleted_docs_new {3, 99, 163, 300} 100 299 200) \<and> contains 300 (deleted_docs_new {3, 99, 163, 300} 100 299 200)"
  by (simp add: deleted_docs_exact)

text \<open>
  In a segment whose range ends at the last id there is, the offset of an id far below the range
  wraps into the words instead of past them: the check says that a deleted id is not deleted.
\<close>

theorem deleted_docs_wraps:
  "\<not> contains 5 (deleted_docs_new {5} (2 ^ 64 - 10) (2 ^ 64 - 1) 10)"
proof -
  have "range_width (2 ^ 64 - 10) (2 ^ 64 - 1) = Some 10" by (simp add: range_width_def)
  moreover have "range_bits_new {5} (2 ^ 64 - 10) 10 = Some \<lparr>rb_min_doc_id = 2 ^ 64 - 10, rb_words = [0]\<rparr>"
    by (simp add: range_bits_new_def bit_offsets_def Let_def)
  moreover have "range_bits_get 5 \<lparr>rb_min_doc_id = 2 ^ 64 - 10, rb_words = [0]\<rparr> = Some False"
    by (simp add: range_bits_get_def wrapping_sub_def Let_def)
  ultimately show ?thesis
    by (simp add: contains_def deleted_docs_new_def MAX_BITS_PER_DOC_def u64_max_def)
qed

end
