(* ===== verification/Segment_Members.thy ===== *)
theory Segment_Members
  imports Deleted_Docs Matchers
begin

text \<open>
  What a segment holds and which of it is live: \<open>Membership\<close> of
  \<^verbatim>\<open>laurus/src/lexical/index/inverted/segment.rs\<close>, and the counts and checks of the segment and index
  readers that rest on it, \<^verbatim>\<open>laurus/src/lexical/index/inverted/reader.rs\<close>.
\<close>

section \<open>Membership\<close>

datatype membership = No_Docs | Whole_Range | Exactly "nat set" | Not_Known

definition from_shape :: "nat \<Rightarrow> nat \<Rightarrow> nat \<Rightarrow> membership option" where
  "from_shape min_doc_id max_doc_id doc_count =
     (if doc_count = 0 then Some No_Docs
      else if range_width min_doc_id max_doc_id = Some doc_count then Some Whole_Range else None)"

text \<open>A loaded set is trusted when its size, minimum and maximum are those of the segment.\<close>

definition from_loaded :: "nat \<Rightarrow> nat \<Rightarrow> nat \<Rightarrow> nat set option res \<Rightarrow> membership" where
  "from_loaded min_doc_id max_doc_id doc_count loaded =
     (case loaded of
        Inr (Some ids) \<Rightarrow>
          if card ids = doc_count \<and> ids \<noteq> {} \<and> Min ids = min_doc_id \<and> Max ids = max_doc_id then Exactly ids else Not_Known
      | Inr None \<Rightarrow> Not_Known
      | Inl _ \<Rightarrow> Not_Known)"

fun holds :: "membership \<Rightarrow> nat \<Rightarrow> bool option" where
  "holds No_Docs doc_id = Some False"
| "holds Whole_Range doc_id = Some True"
| "holds (Exactly ids) doc_id = Some (doc_id \<in> ids)"
| "holds Not_Known doc_id = None"

definition range_cardinality :: "nat set \<Rightarrow> nat \<Rightarrow> nat \<Rightarrow> nat" where
  "range_cardinality ids lo hi = card {d \<in> ids. lo \<le> d \<and> d \<le> hi}"

fun held_deletions :: "membership \<Rightarrow> nat set \<Rightarrow> nat \<Rightarrow> nat \<Rightarrow> nat \<Rightarrow> nat" where
  "held_deletions No_Docs deleted min_doc_id max_doc_id doc_count = 0"
| "held_deletions Whole_Range deleted min_doc_id max_doc_id doc_count = range_cardinality deleted min_doc_id max_doc_id"
| "held_deletions (Exactly ids) deleted min_doc_id max_doc_id doc_count = card (deleted \<inter> ids)"
| "held_deletions Not_Known deleted min_doc_id max_doc_id doc_count =
     range_cardinality deleted min_doc_id max_doc_id -
     ((case range_width min_doc_id max_doc_id of Some width \<Rightarrow> width | None \<Rightarrow> u64_max) - doc_count)"

section \<open>Segment and index readers\<close>

record segment_info =
  si_segment_id :: string
  si_doc_count :: nat
  si_min_doc_id :: nat
  si_max_doc_id :: nat
  si_has_deletions :: bool

text \<open>
  A segment's ids: what its \<open>.ids\<close> part gives when it is read, the ids of its stored documents, and the
  deletions its reader opened with.
\<close>

record segment_ids =
  sg_info :: segment_info
  sg_loaded_ids :: "nat set option res"
  sg_stored_ids :: "nat set res"
  sg_deleted :: "deleted_docs option"

definition sg_membership :: "segment_ids \<Rightarrow> membership" where
  "sg_membership s =
     (case from_shape (si_min_doc_id (sg_info s)) (si_max_doc_id (sg_info s)) (si_doc_count (sg_info s)) of
        Some m \<Rightarrow> m
      | None \<Rightarrow> from_loaded (si_min_doc_id (sg_info s)) (si_max_doc_id (sg_info s)) (si_doc_count (sg_info s)) (sg_loaded_ids s))"

text \<open>\<open>deleted_docs\<close> and \<open>read_deleted_ids\<close>: the \<open>.delmap\<close> is \<open>None\<close> when there is no such file.\<close>

definition open_deletions :: "segment_info \<Rightarrow> nat set option res \<Rightarrow> deleted_docs option res" where
  "open_deletions info delmap =
     (if \<not> si_has_deletions info then Inr None
      else map_sum id (map_option (\<lambda>ids. deleted_docs_new ids (si_min_doc_id info) (si_max_doc_id info) (si_doc_count info))) delmap)"

definition sg_is_deleted :: "segment_ids \<Rightarrow> nat \<Rightarrow> bool" where
  "sg_is_deleted s doc_id = (case sg_deleted s of None \<Rightarrow> False | Some d \<Rightarrow> contains doc_id d)"

definition held_deleted :: "segment_ids \<Rightarrow> deleted_docs \<Rightarrow> nat" where
  "held_deleted s d = held_deletions (sg_membership s) (dd_ids d) (si_min_doc_id (sg_info s))
     (si_max_doc_id (sg_info s)) (si_doc_count (sg_info s))"

definition sg_doc_count :: "segment_ids \<Rightarrow> nat" where
  "sg_doc_count s =
     (case sg_deleted s of None \<Rightarrow> si_doc_count (sg_info s) | Some d \<Rightarrow> si_doc_count (sg_info s) - held_deleted s d)"

definition sg_has_effective_deletions :: "segment_ids \<Rightarrow> bool" where
  "sg_has_effective_deletions s =
     (case sg_deleted s of
        None \<Rightarrow> False
      | Some d \<Rightarrow>
          if sg_membership s = Not_Known
          then range_cardinality (dd_ids d) (si_min_doc_id (sg_info s)) (si_max_doc_id (sg_info s)) > 0
          else held_deleted s d > 0)"

definition sg_live_doc_ids :: "segment_ids \<Rightarrow> nat set res" where
  "sg_live_doc_ids s =
     (case sg_membership s of
        No_Docs \<Rightarrow> Inr {}
      | m \<Rightarrow> map_sum id (\<lambda>held. case sg_deleted s of Some d \<Rightarrow> held - dd_ids d | None \<Rightarrow> held)
               (case m of
                  Whole_Range \<Rightarrow> Inr {si_min_doc_id (sg_info s)..si_max_doc_id (sg_info s)}
                | Exactly ids \<Rightarrow> Inr ids
                | _ \<Rightarrow> sg_stored_ids s))"

definition covers :: "segment_ids \<Rightarrow> nat \<Rightarrow> bool" where
  "covers s doc_id \<longleftrightarrow> si_min_doc_id (sg_info s) \<le> doc_id \<and> doc_id \<le> si_max_doc_id (sg_info s)"

text \<open>The vote of the segments that cover a document, in order.\<close>

fun vote :: "(segment_ids \<times> bool) list \<Rightarrow> nat \<Rightarrow> bool \<Rightarrow> bool" where
  "vote [] doc_id deleted = deleted"
| "vote ((s, marked) # ss) doc_id deleted =
     (if \<not> marked \<and> holds (sg_membership s) doc_id = Some True then False
      else if marked \<and> holds (sg_membership s) doc_id \<noteq> Some False then vote ss doc_id True
      else vote ss doc_id deleted)"

definition ir_is_deleted :: "segment_ids list \<Rightarrow> nat \<Rightarrow> bool" where
  "ir_is_deleted ss doc_id =
     (let covering = filter (\<lambda>s. covers s doc_id) ss; marked = map (\<lambda>s. sg_is_deleted s doc_id) covering
      in if \<not> list_ex id marked then False else vote (zip covering marked) doc_id False)"

definition ir_doc_count :: "segment_ids list \<Rightarrow> nat" where
  "ir_doc_count ss = sum_list (map sg_doc_count ss)"

definition ir_has_effective_deletions :: "segment_ids list \<Rightarrow> bool" where
  "ir_has_effective_deletions ss = list_ex sg_has_effective_deletions ss"

fun ir_live_doc_ids :: "segment_ids list \<Rightarrow> nat set res" where
  "ir_live_doc_ids [] = Inr {}"
| "ir_live_doc_ids (s # ss) = rbind (sg_live_doc_ids s) (\<lambda>live. map_sum id ((\<union>) live) (ir_live_doc_ids ss))"

section \<open>What the counts and checks say\<close>

text \<open>
  The documents a segment really holds: as many as it records, within its range, and those its parts
  give. Only a segment whose membership is not known says less about them.
\<close>

definition really_holds :: "segment_ids \<Rightarrow> nat set \<Rightarrow> bool" where
  "really_holds s H \<longleftrightarrow> finite H \<and> card H = si_doc_count (sg_info s) \<and>
     H \<subseteq> {si_min_doc_id (sg_info s)..si_max_doc_id (sg_info s)} \<and>
     (\<forall>ids. sg_loaded_ids s = Inr (Some ids) \<longrightarrow> ids = H) \<and> (\<forall>ids. sg_stored_ids s = Inr ids \<longrightarrow> ids = H) \<and>
     si_max_doc_id (sg_info s) \<le> 2 ^ 64 - 64 \<and>
     (\<forall>d. sg_deleted s = Some d \<longrightarrow> (\<exists>ids. finite ids \<and> d = deleted_docs_new ids (si_min_doc_id (sg_info s))
        (si_max_doc_id (sg_info s)) (si_doc_count (sg_info s))))"

definition marked_ids :: "segment_ids \<Rightarrow> nat set" where
  "marked_ids s = (case sg_deleted s of None \<Rightarrow> {} | Some d \<Rightarrow> dd_ids d)"

lemma range_width_card: "range_width lo hi = Some w \<Longrightarrow> card {lo..hi} = w"
  by (auto simp: range_width_def split: if_splits)

lemma membership_agrees:
  assumes "really_holds s H"
  shows "case sg_membership s of
      No_Docs \<Rightarrow> H = {} | Whole_Range \<Rightarrow> H = {si_min_doc_id (sg_info s)..si_max_doc_id (sg_info s)}
    | Exactly ids \<Rightarrow> ids = H | Not_Known \<Rightarrow> True"
proof -
  let ?lo = "si_min_doc_id (sg_info s)" and ?hi = "si_max_doc_id (sg_info s)" and ?n = "si_doc_count (sg_info s)"
  have H: "finite H" "card H = ?n" "H \<subseteq> {?lo..?hi}" using assms by (auto simp: really_holds_def)
  have range: "H = {?lo..?hi}" if "range_width ?lo ?hi = Some ?n"
    using H range_width_card [OF that] by (intro card_subset_eq) auto
  have "?n = 0 \<Longrightarrow> H = {}" using H by auto
  with range assms show ?thesis
    by (auto simp: sg_membership_def from_shape_def from_loaded_def really_holds_def split: option.splits sum.splits)
qed

lemma sg_is_deleted_iff:
  assumes "really_holds s H" "doc_id < 2 ^ 64"
  shows "sg_is_deleted s doc_id \<longleftrightarrow> doc_id \<in> marked_ids s"
proof (cases "sg_deleted s")
  case (Some d)
  with assms(1) obtain ids where ids: "finite ids" "d = deleted_docs_new ids (si_min_doc_id (sg_info s))
        (si_max_doc_id (sg_info s)) (si_doc_count (sg_info s))" "si_max_doc_id (sg_info s) \<le> 2 ^ 64 - 64"
    by (auto simp: really_holds_def)
  then have "contains doc_id d \<longleftrightarrow> doc_id \<in> ids" using contains_iff [OF ids(1) assms(2)] by simp
  moreover have "dd_ids d = ids" using ids(2) by (simp add: deleted_docs_new_def)
  ultimately show ?thesis using Some by (simp add: sg_is_deleted_def marked_ids_def)
qed (simp add: sg_is_deleted_def marked_ids_def)

lemma range_cardinality_eq: "range_cardinality ids lo hi = card (ids \<inter> {lo..hi})"
  unfolding range_cardinality_def by (rule arg_cong [of _ _ card]) auto

lemma marked_finite: "really_holds s H \<Longrightarrow> finite (marked_ids s)"
  by (auto simp: really_holds_def marked_ids_def deleted_docs_new_def split: option.split)

lemma held_deleted_bound:
  assumes "really_holds s H" "sg_deleted s = Some d" "H \<noteq> {}"
  shows "held_deleted s d \<le> card (marked_ids s \<inter> H)"
    "sg_membership s \<noteq> Not_Known \<Longrightarrow> held_deleted s d = card (marked_ids s \<inter> H)"
proof -
  let ?lo = "si_min_doc_id (sg_info s)" and ?hi = "si_max_doc_id (sg_info s)" and ?n = "si_doc_count (sg_info s)"
  have m: "marked_ids s = dd_ids d" by (simp add: marked_ids_def assms(2))
  note agrees = membership_agrees [OF assms(1)]
  show known: "held_deleted s d = card (marked_ids s \<inter> H)" if "sg_membership s \<noteq> Not_Known"
    using that agrees by (cases "sg_membership s") (auto simp: held_deleted_def m range_cardinality_eq)
  show "held_deleted s d \<le> card (marked_ids s \<inter> H)"
  proof (cases "sg_membership s = Not_Known")
    case False
    with known show ?thesis by simp
  next
    case True
    have H: "finite H" "card H = ?n" "H \<subseteq> {?lo..?hi}" "?hi \<le> 2 ^ 64 - 64" using assms(1) by (auto simp: really_holds_def)
    then have "?lo \<le> ?hi" using assms(3) by auto
    then have w: "range_width ?lo ?hi = Some (?hi - ?lo + 1)" using H(4) by (auto simp: range_width_def)
    have "dd_ids d \<inter> {?lo..?hi} \<subseteq> (dd_ids d \<inter> H) \<union> ({?lo..?hi} - H)" by auto
    then have "card (dd_ids d \<inter> {?lo..?hi}) \<le> card ((dd_ids d \<inter> H) \<union> ({?lo..?hi} - H))"
      using H(1) by (intro card_mono) auto
    also have "\<dots> \<le> card (dd_ids d \<inter> H) + card ({?lo..?hi} - H)" by (rule card_Un_le)
    also have "card ({?lo..?hi} - H) = (?hi - ?lo + 1) - ?n" using H \<open>?lo \<le> ?hi\<close> by (simp add: card_Diff_subset)
    finally show ?thesis using True w by (simp add: held_deleted_def m range_cardinality_eq)
  qed
qed

lemma sg_counts:
  assumes "really_holds s H"
  shows "card (H - marked_ids s) \<le> sg_doc_count s"
    "sg_membership s \<noteq> Not_Known \<Longrightarrow> sg_doc_count s = card (H - marked_ids s)"
    "sg_live_doc_ids s = Inr live \<Longrightarrow> live = H - marked_ids s"
    "sg_membership s \<noteq> Not_Known \<Longrightarrow> ok (sg_live_doc_ids s)"
    "H \<inter> marked_ids s \<noteq> {} \<Longrightarrow> sg_has_effective_deletions s"
proof -
  have H: "finite H" "card H = si_doc_count (sg_info s)" "H \<subseteq> {si_min_doc_id (sg_info s)..si_max_doc_id (sg_info s)}"
    using assms by (auto simp: really_holds_def)
  note agrees = membership_agrees [OF assms] and fin = marked_finite [OF assms]
  have split: "card (H - marked_ids s) = card H - card (marked_ids s \<inter> H)"
    using H(1) by (metis Int_commute card_Diff_subset_Int finite_Int)
  have empty: "sg_doc_count s = 0" if "H = {}" using that H(2) by (auto simp: sg_doc_count_def split: option.split)
  have count: "card (H - marked_ids s) \<le> sg_doc_count s \<and> (sg_membership s \<noteq> Not_Known \<longrightarrow> sg_doc_count s = card (H - marked_ids s))"
  proof (cases "sg_deleted s")
    case None
    then show ?thesis using H(2) by (simp add: sg_doc_count_def marked_ids_def)
  next
    case (Some d)
    show ?thesis
    proof (cases "H = {}")
      case False
      with held_deleted_bound [OF assms Some] Some H(2) split show ?thesis by (auto simp: sg_doc_count_def)
    qed (use empty in simp)
  qed
  then show "card (H - marked_ids s) \<le> sg_doc_count s"
    "sg_membership s \<noteq> Not_Known \<Longrightarrow> sg_doc_count s = card (H - marked_ids s)" by blast+
  show "live = H - marked_ids s" if "sg_live_doc_ids s = Inr live"
    using that agrees assms
    by (cases "sg_membership s"; cases "sg_deleted s"; cases "sg_stored_ids s")
      (auto simp: sg_live_doc_ids_def marked_ids_def really_holds_def)
  show "ok (sg_live_doc_ids s)" if "sg_membership s \<noteq> Not_Known"
    using that by (cases "sg_membership s") (auto simp: sg_live_doc_ids_def)
  show "sg_has_effective_deletions s" if "H \<inter> marked_ids s \<noteq> {}"
  proof -
    note some = that
    obtain d where d: "sg_deleted s = Some d" "H \<inter> dd_ids d \<noteq> {}"
      using some by (cases "sg_deleted s") (auto simp: marked_ids_def)
    have "0 < card (marked_ids s \<inter> H)" using that H(1) by (simp add: card_gt_0_iff Int_commute)
    moreover have "0 < card (dd_ids d \<inter> {si_min_doc_id (sg_info s)..si_max_doc_id (sg_info s)})"
      using d(2) H(3) by (auto simp: card_gt_0_iff)
    moreover have "H \<noteq> {}" using some by blast
    ultimately show ?thesis
      using held_deleted_bound(2) [OF assms d(1)] by (auto simp: sg_has_effective_deletions_def d(1) range_cardinality_eq)
  qed
qed

text \<open>
  C36. The count of live documents of an index never falls below the live documents it holds, and is
  exact, like the list of live ids, when every segment knows what it holds and no document is live in
  two segments.
\<close>

theorem live_counts:
  assumes "\<forall>s \<in> set ss. really_holds s (H s)"
    and "\<forall>i j. i < j \<and> j < length ss \<longrightarrow> (H (ss ! i) - marked_ids (ss ! i)) \<inter> (H (ss ! j) - marked_ids (ss ! j)) = {}"
  shows "card (\<Union>s \<in> set ss. H s - marked_ids s) \<le> ir_doc_count ss \<and>
    ((\<forall>s \<in> set ss. sg_membership s \<noteq> Not_Known) \<longrightarrow>
       ir_doc_count ss = card (\<Union>s \<in> set ss. H s - marked_ids s) \<and>
       ir_live_doc_ids ss = Inr (\<Union>s \<in> set ss. H s - marked_ids s))"
  using assms
proof (induction ss)
  case (Cons s ss)
  let ?L = "\<lambda>s. H s - marked_ids s" and ?rest = "\<Union>s \<in> set ss. H s - marked_ids s"
  have IH: "card ?rest \<le> ir_doc_count ss \<and> ((\<forall>s \<in> set ss. sg_membership s \<noteq> Not_Known) \<longrightarrow>
       ir_doc_count ss = card ?rest \<and> ir_live_doc_ids ss = Inr ?rest)"
  proof (rule Cons.IH)
    show "\<forall>s \<in> set ss. really_holds s (H s)" using Cons.prems(1) by simp
    show "\<forall>i j. i < j \<and> j < length ss \<longrightarrow> ?L (ss ! i) \<inter> ?L (ss ! j) = {}"
    proof (intro allI impI)
      fix i j assume "i < j \<and> j < length ss"
      then show "?L (ss ! i) \<inter> ?L (ss ! j) = {}" using Cons.prems(2) [rule_format, of "Suc i" "Suc j"] by simp
    qed
  qed
  have s: "really_holds s (H s)" using Cons.prems(1) by simp
  have disj: "?L s \<inter> ?rest = {}"
  proof -
    have "?L s \<inter> ?L t = {}" if "t \<in> set ss" for t
    proof -
      obtain j where "j < length ss" "t = ss ! j" using \<open>t \<in> set ss\<close> by (auto simp: in_set_conv_nth)
      with Cons.prems(2) [rule_format, of 0 "Suc j"] show ?thesis by simp
    qed
    then show ?thesis by blast
  qed
  have fin: "finite (?L s)" "finite ?rest" using Cons.prems(1) by (auto simp: really_holds_def)
  have card: "card (?L s \<union> ?rest) = card (?L s) + card ?rest" using fin disj by (rule card_Un_disjoint)
  note c = sg_counts [OF s]
  have live: "sg_live_doc_ids s = Inr (?L s)" if "sg_membership s \<noteq> Not_Known"
    using c(3,4) that by (auto simp: ok_iff)
  show ?case using IH card c(1,2) live by (auto simp: ir_doc_count_def)
qed (simp add: ir_doc_count_def)

lemma vote_iff:
  "vote xs d acc \<longleftrightarrow> (\<forall>(s, m) \<in> set xs. m \<or> holds (sg_membership s) d \<noteq> Some True) \<and>
     (acc \<or> (\<exists>(s, m) \<in> set xs. m \<and> holds (sg_membership s) d \<noteq> Some False))"
  by (induction xs d acc rule: vote.induct) auto

text \<open>
  C37. When an index takes a document for deleted, whatever its segments know of the documents they
  hold: exactly when some segment whose range covers the document marks it and holds it or does not
  know whether it does, and every segment that knows to hold it marks it. A segment that does not know
  and does not mark it has no vote, though it may hold the document. So when every segment knows, the
  document is deleted exactly when some segment holds it and every segment that holds it marks it,
  however many segments carry a bit for it or hold another copy.
\<close>

theorem is_deleted_everywhere:
  assumes "\<forall>s \<in> set ss. really_holds s (H s)" "doc_id < 2 ^ 64"
  shows "(ir_is_deleted ss doc_id \<longleftrightarrow>
      (\<exists>s \<in> set ss. covers s doc_id \<and> doc_id \<in> marked_ids s \<and> (sg_membership s = Not_Known \<or> doc_id \<in> H s)) \<and>
      (\<forall>s \<in> set ss. sg_membership s \<noteq> Not_Known \<and> doc_id \<in> H s \<longrightarrow> doc_id \<in> marked_ids s)) \<and>
    ((\<forall>s \<in> set ss. sg_membership s \<noteq> Not_Known) \<longrightarrow>
      (ir_is_deleted ss doc_id \<longleftrightarrow>
        (\<exists>s \<in> set ss. doc_id \<in> H s) \<and> (\<forall>s \<in> set ss. doc_id \<in> H s \<longrightarrow> doc_id \<in> marked_ids s)))"
proof -
  let ?C = "filter (\<lambda>s. covers s doc_id) ss"
  have holds: "holds (sg_membership s) doc_id = (if sg_membership s = Not_Known then None else Some (doc_id \<in> H s))"
    if "s \<in> set ?C" for s
  proof -
    have s: "really_holds s (H s)" "covers s doc_id" using assms(1) that by auto
    from membership_agrees [OF s(1)] s(2) show ?thesis by (cases "sg_membership s") (auto simp: covers_def)
  qed
  have marked: "sg_is_deleted s doc_id \<longleftrightarrow> doc_id \<in> marked_ids s" if "s \<in> set ss" for s
    using sg_is_deleted_iff assms that by blast
  have in_C: "covers s doc_id" if "s \<in> set ss" "doc_id \<in> H s" for s
    using assms(1) that by (force simp: really_holds_def covers_def)
  have z: "set (zip ?C (map (\<lambda>s. sg_is_deleted s doc_id) ?C)) = (\<lambda>s. (s, sg_is_deleted s doc_id)) ` set ?C"
    by (simp add: zip_map2 zip_same_conv_map image_image)
  have "ir_is_deleted ss doc_id \<longleftrightarrow> (\<exists>s \<in> set ?C. sg_is_deleted s doc_id) \<and>
      (\<forall>s \<in> set ?C. sg_is_deleted s doc_id \<or> holds (sg_membership s) doc_id \<noteq> Some True) \<and>
      (\<exists>s \<in> set ?C. sg_is_deleted s doc_id \<and> holds (sg_membership s) doc_id \<noteq> Some False)"
    unfolding ir_is_deleted_def Let_def vote_iff z by (auto simp: list_ex_iff)
  also have "\<dots> \<longleftrightarrow> (\<exists>s \<in> set ?C. doc_id \<in> marked_ids s \<and> (sg_membership s = Not_Known \<or> doc_id \<in> H s)) \<and>
      (\<forall>s \<in> set ?C. sg_membership s \<noteq> Not_Known \<and> doc_id \<in> H s \<longrightarrow> doc_id \<in> marked_ids s)"
    using holds marked by (auto split: if_splits; blast)
  also have "\<dots> \<longleftrightarrow> (\<exists>s \<in> set ss. covers s doc_id \<and> doc_id \<in> marked_ids s \<and> (sg_membership s = Not_Known \<or> doc_id \<in> H s)) \<and>
      (\<forall>s \<in> set ss. sg_membership s \<noteq> Not_Known \<and> doc_id \<in> H s \<longrightarrow> doc_id \<in> marked_ids s)"
    using in_C by auto
  finally have general: "ir_is_deleted ss doc_id \<longleftrightarrow>
      (\<exists>s \<in> set ss. covers s doc_id \<and> doc_id \<in> marked_ids s \<and> (sg_membership s = Not_Known \<or> doc_id \<in> H s)) \<and>
      (\<forall>s \<in> set ss. sg_membership s \<noteq> Not_Known \<and> doc_id \<in> H s \<longrightarrow> doc_id \<in> marked_ids s)" .
  have known: "(\<exists>s \<in> set ss. covers s doc_id \<and> doc_id \<in> marked_ids s \<and> (sg_membership s = Not_Known \<or> doc_id \<in> H s)) \<and>
      (\<forall>s \<in> set ss. sg_membership s \<noteq> Not_Known \<and> doc_id \<in> H s \<longrightarrow> doc_id \<in> marked_ids s) \<longleftrightarrow>
      (\<exists>s \<in> set ss. doc_id \<in> H s) \<and> (\<forall>s \<in> set ss. doc_id \<in> H s \<longrightarrow> doc_id \<in> marked_ids s)"
    if "\<forall>s \<in> set ss. sg_membership s \<noteq> Not_Known"
    using that in_C by blast
  show ?thesis
  proof (intro conjI impI)
    assume "\<forall>s \<in> set ss. sg_membership s \<noteq> Not_Known"
    with general known show "ir_is_deleted ss doc_id \<longleftrightarrow>
        (\<exists>s \<in> set ss. doc_id \<in> H s) \<and> (\<forall>s \<in> set ss. doc_id \<in> H s \<longrightarrow> doc_id \<in> marked_ids s)" by simp
  qed (rule general)
qed


text \<open>Two segments: the second holds a newer copy of document 2, which the first marks deleted.\<close>

definition example_segment :: "nat \<Rightarrow> nat \<Rightarrow> nat set option \<Rightarrow> segment_ids" where
  "example_segment lo hi deleted =
     (let info = \<lparr>si_segment_id = ''seg'', si_doc_count = hi - lo + 1, si_min_doc_id = lo, si_max_doc_id = hi,
            si_has_deletions = deleted \<noteq> None\<rparr>
      in \<lparr>sg_info = info, sg_loaded_ids = Inr None, sg_stored_ids = Inr {lo..hi},
          sg_deleted = map_option (\<lambda>ids. deleted_docs_new ids lo hi (hi - lo + 1)) deleted\<rparr>)"

lemma example_segment_info:
  "sg_info (example_segment lo hi deleted) = \<lparr>si_segment_id = ''seg'', si_doc_count = hi - lo + 1, si_min_doc_id = lo,
     si_max_doc_id = hi, si_has_deletions = deleted \<noteq> None\<rparr>"
  by (simp add: example_segment_def Let_def)

lemma example_segment_ok:
  assumes "lo \<le> hi" "hi \<le> 1000" "\<forall>ids. deleted = Some ids \<longrightarrow> finite ids"
  shows "really_holds (example_segment lo hi deleted) {lo..hi}" "sg_membership (example_segment lo hi deleted) = Whole_Range"
    "marked_ids (example_segment lo hi deleted) = (case deleted of None \<Rightarrow> {} | Some ids \<Rightarrow> ids)"
proof -
  have "range_width lo hi = Some (hi - lo + 1)"
  proof -
    have "hi - lo + 1 \<le> 1001" using assms(2) by linarith
    also have "(1001 :: nat) < 2 ^ 64" by simp
    finally show ?thesis using assms(1) by (simp add: range_width_def)
  qed
  then show "sg_membership (example_segment lo hi deleted) = Whole_Range"
    by (simp add: sg_membership_def from_shape_def example_segment_info)
  have "(1000 :: nat) \<le> 2 ^ 64 - 64" by simp
  then have "hi \<le> 2 ^ 64 - 64" using assms(2) by linarith
  then show "really_holds (example_segment lo hi deleted) {lo..hi}"
    using assms(1,3) unfolding really_holds_def example_segment_info
    by (cases deleted) (auto simp: example_segment_def Let_def)
  show "marked_ids (example_segment lo hi deleted) = (case deleted of None \<Rightarrow> {} | Some ids \<Rightarrow> ids)"
    by (simp add: marked_ids_def example_segment_def Let_def deleted_docs_new_def split: option.split)
qed

definition example_segments :: "segment_ids list" where
  "example_segments = [example_segment 1 3 (Some {2}), example_segment 2 4 (Some {3})]"

lemma example_segments_ok:
  "\<forall>s \<in> set example_segments. really_holds s {si_min_doc_id (sg_info s)..si_max_doc_id (sg_info s)} \<and> sg_membership s \<noteq> Not_Known"
  using example_segment_ok [of 1 3 "Some {2}"] example_segment_ok [of 2 4 "Some {3}"]
  by (simp add: example_segments_def example_segment_info)

lemma live_counts_witness: "ir_live_doc_ids [example_segment 1 3 (Some {2}), example_segment 4 4 None] = Inr {1, 3, 4}"
proof -
  let ?ss = "[example_segment 1 3 (Some {2}), example_segment 4 4 None]"
  let ?H = "\<lambda>s. {si_min_doc_id (sg_info s)..si_max_doc_id (sg_info s)}"
  note a = example_segment_ok [of 1 3 "Some {2}"] and b = example_segment_ok [of 4 4 None]
  have ok: "\<forall>s \<in> set ?ss. really_holds s (?H s)" using a(1) b(1) by (simp add: example_segment_info)
  have "\<forall>i j. i < j \<and> j < length ?ss \<longrightarrow> (?H (?ss ! i) - marked_ids (?ss ! i)) \<inter> (?H (?ss ! j) - marked_ids (?ss ! j)) = {}"
    by (auto simp: less_Suc_eq example_segment_info)
  from live_counts [OF ok this] a(2,3) b(2,3) have "ir_live_doc_ids ?ss = Inr (({1..3} - {2}) \<union> {4})"
    by (simp add: example_segment_info)
  moreover have "{1..3} - {2} \<union> {4} = {1, 3, 4 :: nat}" by auto
  ultimately show ?thesis by simp
qed

lemma is_deleted_everywhere_witness:
  "\<not> ir_is_deleted example_segments 2 \<and> \<not> ir_is_deleted (rev example_segments) 3 \<and>
   ir_is_deleted [example_segment 1 3 (Some {2})] 2"
proof -
  let ?H = "\<lambda>s. {si_min_doc_id (sg_info s)..si_max_doc_id (sg_info s)}"
  have m: "marked_ids (example_segment 2 4 (Some {3})) = {3}" "marked_ids (example_segment 1 3 (Some {2})) = {2}"
    using example_segment_ok(3) [of 1 3 "Some {2}"] example_segment_ok(3) [of 2 4 "Some {3}"] by simp_all
  have ok: "\<forall>s \<in> set example_segments. really_holds s (?H s)" "\<forall>s \<in> set (rev example_segments). really_holds s (?H s)"
    "\<forall>s \<in> set [example_segment 1 3 (Some {2})]. really_holds s (?H s)"
    and known: "\<forall>s \<in> set example_segments. sg_membership s \<noteq> Not_Known"
      "\<forall>s \<in> set (rev example_segments). sg_membership s \<noteq> Not_Known"
      "\<forall>s \<in> set [example_segment 1 3 (Some {2})]. sg_membership s \<noteq> Not_Known"
    using example_segments_ok by (simp_all add: example_segments_def)
  show ?thesis
    using is_deleted_everywhere [OF ok(1), of 2] is_deleted_everywhere [OF ok(2), of 3]
      is_deleted_everywhere [OF ok(3), of 2] known m
    by (simp add: example_segments_def example_segment_info covers_def)
qed

end
