(* ===== verification/Term_Dictionary.thy ===== *)
theory Term_Dictionary
  imports Posting_Iterator "HOL-Library.List_Lexorder" "HOL-Library.Sublist"
begin

text \<open>
  The term dictionary of a segment, \<^verbatim>\<open>laurus/src/lexical/index/structures/dictionary.rs\<close>: its
  in-memory layer, how it is filled from the entries of the block section with the checks on them,
  the lookups, and the builder. Terms are byte strings and compare lexicographically, as \<open>str\<close> does.
\<close>

section \<open>Entries\<close>

record block_max =
  last_doc_id :: u64
  max_factor :: "32 word"

definition BLOCK_SIZE :: nat where "BLOCK_SIZE = 128"

record term_info =
  posting_offset :: u64
  posting_length :: u64
  ti_doc_frequency :: u64
  ti_total_frequency :: u64
  max_score_factor :: "32 word"
  ti_block_max :: "block_max list"

definition term_info_new :: "u64 \<Rightarrow> u64 \<Rightarrow> u64 \<Rightarrow> u64 \<Rightarrow> term_info" where
  "term_info_new off len df tf = \<lparr>posting_offset = off, posting_length = len, ti_doc_frequency = df,
     ti_total_frequency = tf, max_score_factor = 0, ti_block_max = []\<rparr>"

section \<open>The dictionary and its lookups\<close>

text \<open>The in-memory query layer; the bytes kept for writing the dictionary again are in \<open>Dict_File\<close>.\<close>

record term_dictionary =
  td_map :: "bytes \<rightharpoonup> nat"
  td_sorted_terms :: "bytes list"
  td_term_infos :: "term_info list"
  td_total_term_count :: nat
  td_version :: nat

definition td_get :: "bytes \<Rightarrow> term_dictionary \<Rightarrow> term_info option" where
  "td_get t d = map_option (\<lambda>ordinal. td_term_infos d ! ordinal) (td_map d t)"

definition td_iter :: "term_dictionary \<Rightarrow> (bytes \<times> term_info) list" where
  "td_iter d = zip (td_sorted_terms d) (td_term_infos d)"

text \<open>\<open>partition_point\<close> and \<open>binary_search\<close> of the standard library, on ascending terms.\<close>

definition first_not_below :: "bytes \<Rightarrow> bytes list \<Rightarrow> nat" where
  "first_not_below target ts = length (takeWhile (\<lambda>t. t < target) ts)"

definition seek_index :: "bytes \<Rightarrow> term_dictionary \<Rightarrow> nat" where
  "seek_index target d = first_not_below target (td_sorted_terms d)"

definition entry_at :: "nat \<Rightarrow> term_dictionary \<Rightarrow> (bytes \<times> term_info) option" where
  "entry_at i d =
     (if i < length (td_sorted_terms d) then Some (td_sorted_terms d ! i, td_term_infos d ! i) else None)"

fun prefix_loop :: "bytes \<Rightarrow> (bytes \<times> term_info) list \<Rightarrow> (bytes \<times> term_info) list" where
  "prefix_loop p [] = []"
| "prefix_loop p ((t, info) # es) = (if prefix p t then (t, info) # prefix_loop p es else [])"

definition find_prefix :: "bytes \<Rightarrow> term_dictionary \<Rightarrow> (bytes \<times> term_info) list" where
  "find_prefix p d = prefix_loop p (drop (first_not_below p (td_sorted_terms d)) (td_iter d))"

definition find_range :: "bytes \<Rightarrow> bytes \<Rightarrow> term_dictionary \<Rightarrow> (bytes \<times> term_info) list" where
  "find_range start stop d =
     (if start \<ge> stop then []
      else
        let start_idx = first_not_below start (td_sorted_terms d); stop_idx = first_not_below stop (td_sorted_terms d)
        in map (\<lambda>i. (td_sorted_terms d ! i, td_term_infos d ! i)) [start_idx..<min stop_idx (length (td_sorted_terms d))])"

section \<open>Filling the dictionary\<close>

definition corrupted :: "string \<Rightarrow> laurus_error" where
  "corrupted what = Index (''term dictionary: '' @ what @ '' - segment is corrupted'')"

text \<open>\<open>populate_in_memory_layer\<close>: the entries as the block section yields them, the first error ending it.\<close>

fun populate ::
    "u64 option \<Rightarrow> (bytes \<times> term_info) res list \<Rightarrow> nat \<Rightarrow> (bytes \<rightharpoonup> nat) \<Rightarrow> bytes list \<Rightarrow> term_info list \<Rightarrow>
     ((bytes \<rightharpoonup> nat) \<times> bytes list \<times> term_info list) res" where
  "populate max_docs [] ordinal m terms infos = Inr (m, terms, infos)"
| "populate max_docs (entry # es) ordinal m terms infos =
     rbind entry (\<lambda>(t, info).
       if terms \<noteq> [] \<and> last terms \<ge> t then Inl (corrupted ''terms are not in ascending order'')
       else case max_docs of
              Some n \<Rightarrow>
                if ti_doc_frequency info > n then Inl (corrupted ''term declares more documents than the segment holds'')
                else if (58 :: u8) \<notin> set t then Inl (corrupted ''key has no field separator'')
                else populate max_docs es (ordinal + 1) (m(t \<mapsto> ordinal)) (terms @ [t]) (infos @ [info])
            | None \<Rightarrow> populate max_docs es (ordinal + 1) (m(t \<mapsto> ordinal)) (terms @ [t]) (infos @ [info]))"

definition populate_in_memory_layer ::
    "(bytes \<times> term_info) res list \<Rightarrow> nat \<Rightarrow> u64 option \<Rightarrow> nat \<Rightarrow> term_dictionary res" where
  "populate_in_memory_layer entries declared max_docs version =
     rbind (populate max_docs entries 0 Map.empty [] []) (\<lambda>(m, terms, infos).
       if length terms \<noteq> declared then Inl (corrupted ''another number of terms than the header declares'')
       else Inr \<lparr>td_map = m, td_sorted_terms = terms, td_term_infos = infos, td_total_term_count = declared,
              td_version = version\<rparr>)"

text \<open>The builder: a \<open>BTreeMap\<close>, which is a list of entries in ascending order of terms.\<close>

fun add_term :: "bytes \<Rightarrow> term_info \<Rightarrow> (bytes \<times> term_info) list \<Rightarrow> (bytes \<times> term_info) list" where
  "add_term t info [] = [(t, info)]"
| "add_term t info ((u, v) # es) =
     (if t < u then (t, info) # (u, v) # es else if t = u then (t, info) # es else (u, v) # add_term t info es)"

definition build :: "(bytes \<times> term_info) list \<Rightarrow> term_dictionary" where
  "build es = \<lparr>td_map = map_of (zip (map fst es) [0..<length es]), td_sorted_terms = map fst es,
     td_term_infos = map snd es, td_total_term_count = length es, td_version = 3\<rparr>"

section \<open>What the lookups find\<close>

definition td_inv :: "term_dictionary \<Rightarrow> bool" where
  "td_inv d \<longleftrightarrow> sorted_wrt (<) (td_sorted_terms d) \<and> length (td_term_infos d) = length (td_sorted_terms d) \<and>
     td_map d = map_of (zip (td_sorted_terms d) [0..<length (td_sorted_terms d)]) \<and>
     td_total_term_count d = length (td_sorted_terms d)"

lemma map_of_zip_snoc: "length xs = length ys \<Longrightarrow> x \<notin> set xs \<Longrightarrow> (map_of (zip xs ys))(x \<mapsto> y) = map_of (zip (xs @ [x]) (ys @ [y]))"
  by (auto simp: fun_eq_iff map_add_def split: option.split dest!: map_of_SomeD set_zip_leftD)

lemma sorted_snoc: "sorted_wrt (<) (ts :: bytes list) \<Longrightarrow> (ts \<noteq> [] \<longrightarrow> last ts < t) \<Longrightarrow> sorted_wrt (<) (ts @ [t])"
  by (cases ts rule: rev_cases) (auto simp: sorted_wrt_append)

lemma populate_ok:
  assumes "populate max_docs es n m terms infos = Inr (m', terms', infos')"
    "sorted_wrt (<) terms" "length infos = length terms" "n = length terms" "m = map_of (zip terms [0..<length terms])"
  shows "sorted_wrt (<) terms' \<and> length infos' = length terms' \<and> m' = map_of (zip terms' [0..<length terms']) \<and>
    (\<exists>xs. es = map Inr xs \<and> terms' = terms @ map fst xs \<and> infos' = infos @ map snd xs \<and>
      (\<forall>k. max_docs = Some k \<longrightarrow> (\<forall>(t, info) \<in> set xs. ti_doc_frequency info \<le> k \<and> 58 \<in> set t)))"
  using assms
proof (induction es arbitrary: n m terms infos)
  case (Cons entry es)
  obtain t info where e: "entry = Inr (t, info)" and asc: "terms \<noteq> [] \<longrightarrow> last terms < t"
    and ok: "\<forall>k. max_docs = Some k \<longrightarrow> ti_doc_frequency info \<le> k \<and> 58 \<in> set t"
    and rest: "populate max_docs es (n + 1) (m(t \<mapsto> n)) (terms @ [t]) (infos @ [info]) = Inr (m', terms', infos')"
    using Cons.prems(1) by (auto simp: rbind_Inr_iff not_le not_less split: if_splits option.splits)
  have sorted: "sorted_wrt (<) (terms @ [t])" using Cons.prems(2) asc by (rule sorted_snoc)
  then have new: "t \<notin> set terms" by (auto simp: sorted_wrt_append)
  have m: "m(t \<mapsto> n) = map_of (zip (terms @ [t]) [0..<length (terms @ [t])])"
    using map_of_zip_snoc [OF _ new, of "[0..<length terms]" n] Cons.prems(4,5) by simp
  have "sorted_wrt (<) terms' \<and> length infos' = length terms' \<and> m' = map_of (zip terms' [0..<length terms']) \<and>
    (\<exists>xs. es = map Inr xs \<and> terms' = (terms @ [t]) @ map fst xs \<and> infos' = (infos @ [info]) @ map snd xs \<and>
      (\<forall>k. max_docs = Some k \<longrightarrow> (\<forall>(t, info) \<in> set xs. ti_doc_frequency info \<le> k \<and> 58 \<in> set t)))"
    by (rule Cons.IH [OF rest]) (use sorted m Cons.prems(3,4) in auto)
  then obtain xs where xs: "sorted_wrt (<) terms' \<and> length infos' = length terms' \<and> m' = map_of (zip terms' [0..<length terms'])"
    "es = map Inr xs" "terms' = (terms @ [t]) @ map fst xs" "infos' = (infos @ [info]) @ map snd xs"
    "\<forall>k. max_docs = Some k \<longrightarrow> (\<forall>(t, info) \<in> set xs. ti_doc_frequency info \<le> k \<and> 58 \<in> set t)" by blast
  then show ?case using e ok by (intro conjI exI [of _ "(t, info) # xs"]) auto
qed simp

lemma filter_sorted_split:
  assumes "sorted_wrt (<) (map fst es)"
  shows "drop (first_not_below x (map fst es)) es = filter (\<lambda>(t, _). x \<le> t) es"
    "take (first_not_below x (map fst es)) es = filter (\<lambda>(t, _). t < x) es"
proof -
  have "drop (first_not_below x (map fst es)) es = filter (\<lambda>(t, _). x \<le> t) es \<and>
      take (first_not_below x (map fst es)) es = filter (\<lambda>(t, _). t < x) es"
    using assms
  proof (induction es)
    case (Cons e es)
    obtain t info where e: "e = (t, info)" by (cases e)
    show ?case
    proof (cases "t < x")
      case True
      with Cons e show ?thesis by (simp add: first_not_below_def)
    next
      case False
      then have "x \<le> t" by simp
      moreover have "\<forall>(u, _) \<in> set es. t < u" using Cons.prems e by auto
      ultimately have "filter (\<lambda>(t, _). x \<le> t) es = es" "filter (\<lambda>(t, _). t < x) es = []"
        by (fastforce simp: filter_id_conv filter_empty_conv)+
      with e False show ?thesis by (simp add: first_not_below_def)
    qed
  qed (simp add: first_not_below_def)
  then show "drop (first_not_below x (map fst es)) es = filter (\<lambda>(t, _). x \<le> t) es"
    "take (first_not_below x (map fst es)) es = filter (\<lambda>(t, _). t < x) es" by blast+
qed

lemma prefix_interval: "p \<le> t \<Longrightarrow> t \<le> u \<Longrightarrow> prefix p u \<Longrightarrow> prefix p (t :: bytes)"
proof (induction p arbitrary: t u)
  case (Cons a p)
  then obtain u' where u: "u = a # u'" "prefix p u'" by (cases u) auto
  obtain b t' where t: "t = b # t'" using Cons.prems(1) by (cases t) auto
  with u Cons.prems have "b = a" "p \<le> t'" "t' \<le> u'" by auto
  with Cons.IH u(2) t show ?case by auto
qed simp

lemma prefix_le: "prefix p t \<Longrightarrow> p \<le> (t :: bytes)"
  by (induction p arbitrary: t) (force simp: prefix_Cons elim: prefixE)+

lemma prefix_loop_filter:
  "sorted_wrt (<) (map fst es) \<Longrightarrow> \<forall>(t, _) \<in> set es. p \<le> t \<Longrightarrow> prefix_loop p es = filter (\<lambda>(t, _). prefix p t) es"
proof (induction p es rule: prefix_loop.induct)
  case (2 p t info es)
  have "\<not> prefix p u" if "\<not> prefix p t" "(u, i) \<in> set es" for u i
    using prefix_interval [of p t u] "2.prems" that by (force intro: less_imp_le)
  then have "\<not> prefix p t \<Longrightarrow> filter (\<lambda>(t, _). prefix p t) es = []" by (auto simp: filter_empty_conv)
  then show ?case using "2.IH" "2.prems" by auto
qed simp

lemma td_iter_facts:
  assumes "td_inv d"
  shows "map fst (td_iter d) = td_sorted_terms d" "length (td_iter d) = length (td_sorted_terms d)"
    "i < length (td_sorted_terms d) \<Longrightarrow> td_iter d ! i = (td_sorted_terms d ! i, td_term_infos d ! i)"
  using assms by (auto simp: td_iter_def td_inv_def)

lemma map_of_ordinals:
  "distinct ts \<Longrightarrow> length infos = length ts \<Longrightarrow>
   map_option (\<lambda>i. infos ! i) (map_of (zip ts [0..<length ts]) t) = map_of (zip ts infos) t"
proof (cases "t \<in> set ts")
  case False
  assume "length infos = length ts"
  with False have "map_of (zip ts [0..<length ts]) t = None" "map_of (zip ts infos) t = None"
    by (auto simp: map_of_eq_None_iff dest: set_zip_leftD)
  then show ?thesis by simp
next
  case True
  assume d: "distinct ts" "length infos = length ts"
  from True obtain i where i: "i < length ts" "t = ts ! i" by (auto simp: in_set_conv_nth)
  with d have "map_of (zip ts [0..<length ts]) t = Some i" "map_of (zip ts infos) t = Some (infos ! i)"
    by (simp_all add: map_of_zip_nth)
  then show ?thesis by simp
qed

lemma td_get_iter: "td_inv d \<Longrightarrow> td_get t d = map_of (td_iter d) t"
  unfolding td_get_def td_iter_def
  using map_of_ordinals [of "td_sorted_terms d" "td_term_infos d" t] strict_sorted_iff [of "td_sorted_terms d"]
  by (simp add: td_inv_def)

lemma find_prefix_iter:
  assumes "td_inv d"
  shows "find_prefix p d = filter (\<lambda>(t, _). prefix p t) (td_iter d)"
proof -
  note it = td_iter_facts [OF assms]
  have sorted: "sorted_wrt (<) (map fst (td_iter d))" using assms by (simp add: it(1) td_inv_def)
  have "drop (first_not_below p (td_sorted_terms d)) (td_iter d) = filter (\<lambda>(t, _). p \<le> t) (td_iter d)"
    using filter_sorted_split(1) [OF sorted, of p] by (simp add: it(1))
  moreover have "sorted_wrt (<) (map fst (filter (\<lambda>(t, _). p \<le> t) (td_iter d)))"
    using sorted by (simp add: sorted_wrt_map sorted_wrt_filter)
  ultimately have "find_prefix p d = filter (\<lambda>(t, _). prefix p t) (filter (\<lambda>(t, _). p \<le> t) (td_iter d))"
    unfolding find_prefix_def by (subst prefix_loop_filter [symmetric]) auto
  also have "\<dots> = filter (\<lambda>(t, _). prefix p t) (td_iter d)" using prefix_le by (force intro: filter_cong)
  finally show ?thesis .
qed

lemma find_range_iter:
  assumes "td_inv d"
  shows "find_range a b d = filter (\<lambda>(t, _). a \<le> t \<and> t < b) (td_iter d)"
proof (cases "a \<ge> b")
  case True
  then have "filter (\<lambda>(t, _). a \<le> t \<and> t < b) (td_iter d) = []" by (auto simp: filter_empty_conv)
  with True show ?thesis by (simp add: find_range_def)
next
  case False
  note it = td_iter_facts [OF assms]
  let ?ts = "td_sorted_terms d" and ?es = "td_iter d"
  let ?i = "first_not_below a ?ts" and ?j = "first_not_below b ?ts"
  have sorted: "sorted_wrt (<) (map fst ?es)" using assms by (simp add: it(1) td_inv_def)
  have j: "?j \<le> length ?ts" unfolding first_not_below_def by (rule length_takeWhile_le)
  have "find_range a b d = map (\<lambda>i. ?es ! i) [?i..<?j]"
    using False j it(3) by (auto simp: find_range_def Let_def)
  also have "\<dots> = drop ?i (take ?j ?es)"
    by (rule nth_equalityI) (use j it(2) in \<open>auto simp: min_def\<close>)
  also have "take ?j ?es = filter (\<lambda>(t, _). t < b) ?es" using filter_sorted_split(2) [OF sorted, of b] by (simp add: it(1))
  also have "drop ?i (filter (\<lambda>(t, _). t < b) ?es) = filter (\<lambda>(t, _). a \<le> t) (filter (\<lambda>(t, _). t < b) ?es)"
  proof -
    have "a < b" using False by simp
    have below: "takeWhile (\<lambda>t. t < a) (map fst (filter (\<lambda>(t, _). t < b) es)) = takeWhile (\<lambda>t. t < a) (map fst es)"
      if "sorted_wrt (<) (map fst es)" for es :: "(bytes \<times> term_info) list"
      using that
    proof (induction es)
      case (Cons e es)
      obtain t i where e: "e = (t, i)" by (cases e)
      show ?case
      proof (cases "t < a")
        case True
        with Cons e \<open>a < b\<close> show ?thesis by auto
      next
        case above: False
        then have "\<forall>u \<in> set (map fst (e # es)). \<not> u < a" using Cons.prems e by (auto simp: not_less intro: less_imp_le order.trans)
        then have "\<forall>u \<in> set (map fst (filter (\<lambda>(t, _). t < b) (e # es))). \<not> u < a" by auto
        then show ?thesis by (cases "filter (\<lambda>(t, _). t < b) (e # es)") (use e above in auto)
      qed
    qed simp
    have "sorted_wrt (<) (map fst (filter (\<lambda>(t, _). t < b) ?es))" using sorted by (simp add: sorted_wrt_map sorted_wrt_filter)
    from filter_sorted_split(1) [OF this, of a] below [OF sorted] show ?thesis
      by (simp add: first_not_below_def it(1))
  qed
  also have "\<dots> = filter (\<lambda>(t, _). a \<le> t \<and> t < b) ?es" by (auto intro: filter_cong)
  finally show ?thesis .
qed

text \<open>
  C22. A dictionary that is filled without an error holds exactly the entries of the section, in
  ascending order of distinct terms, none with more documents than the segment; and on it the exact
  lookup, the prefix scan, the range scan and the position of a term, all by binary search, give what a
  search through all entries gives.
\<close>

theorem dictionary_lookups_exact:
  assumes "populate_in_memory_layer entries declared max_docs version = Inr d"
  shows "(\<exists>xs. entries = map Inr xs \<and> td_iter d = xs \<and> declared = length xs \<and> sorted_wrt (<) (map fst xs) \<and>
      (\<forall>k. max_docs = Some k \<longrightarrow> (\<forall>(t, info) \<in> set xs. ti_doc_frequency info \<le> k))) \<and>
    td_get t d = map_of (td_iter d) t \<and>
    find_prefix p d = filter (\<lambda>(u, _). prefix p u) (td_iter d) \<and>
    find_range a b d = filter (\<lambda>(u, _). a \<le> u \<and> u < b) (td_iter d) \<and>
    take (seek_index t d) (td_iter d) = filter (\<lambda>(u, _). u < t) (td_iter d)"
proof -
  obtain m terms infos where pop: "populate max_docs entries 0 Map.empty [] [] = Inr (m, terms, infos)"
    and d: "length terms = declared" "d = \<lparr>td_map = m, td_sorted_terms = terms, td_term_infos = infos,
      td_total_term_count = declared, td_version = version\<rparr>"
    using assms by (auto simp: populate_in_memory_layer_def rbind_Inr_iff split: if_splits)
  from populate_ok [OF pop] obtain xs where xs: "sorted_wrt (<) terms" "length infos = length terms"
    "m = map_of (zip terms [0..<length terms])" "entries = map Inr xs" "terms = map fst xs" "infos = map snd xs"
    "\<forall>k. max_docs = Some k \<longrightarrow> (\<forall>(t, info) \<in> set xs. ti_doc_frequency info \<le> k \<and> 58 \<in> set t)" by auto
  then have inv: "td_inv d" using d by (simp add: td_inv_def)
  have iter: "td_iter d = xs" using d(2) xs(5,6) by (simp add: td_iter_def zip_map_fst_snd)
  have sorted: "sorted_wrt (<) (map fst (td_iter d))" using xs(1,5) by (simp add: iter)
  have "take (seek_index t d) (td_iter d) = filter (\<lambda>(u, _). u < t) (td_iter d)"
    using filter_sorted_split(2) [OF sorted, of t] td_iter_facts(1) [OF inv] by (simp add: seek_index_def)
  with td_get_iter [OF inv] find_prefix_iter [OF inv] find_range_iter [OF inv] show ?thesis
    using xs d(1) iter by (intro conjI exI [of _ xs]) auto
qed

definition example_info :: term_info where "example_info = term_info_new 0 10 2 3"

lemma dictionary_lookups_exact_witness:
  "\<exists>d. populate_in_memory_layer [Inr ([97, 58, 98], example_info), Inr ([97, 58, 99], example_info)] 2 (Some 5) 3 = Inr d \<and>
     td_get [97, 58, 99] d = Some example_info \<and> length (find_prefix [97, 58] d) = 2"
proof -
  have "\<exists>d. populate_in_memory_layer [Inr ([97, 58, 98], example_info), Inr ([97, 58, 99], example_info)] 2 (Some 5) 3 = Inr d"
    by (simp add: populate_in_memory_layer_def example_info_def term_info_new_def)
  then obtain d where d: "populate_in_memory_layer [Inr ([97, 58, 98], example_info), Inr ([97, 58, 99], example_info)] 2 (Some 5) 3 = Inr d"
    by blast
  from dictionary_lookups_exact [OF d, of "[97, 58, 99]" "[97, 58]"] d show ?thesis
    by (auto simp: Cons_eq_map_conv)
qed

lemma add_term_sorted: "sorted_wrt (<) (map fst es) \<Longrightarrow> sorted_wrt (<) (map fst (add_term t info es)) \<and>
    map_of (add_term t info es) = (map_of es)(t \<mapsto> info)"
proof (induction t info es rule: add_term.induct)
  case (2 t info u v es)
  have "set (map fst (add_term t info es)) \<subseteq> insert t (set (map fst es))" by (induction t info es rule: add_term.induct) auto
  with 2 show ?case by (fastforce simp: fun_eq_iff)
qed simp

lemma build_inv: "sorted_wrt (<) (map fst es) \<Longrightarrow> td_inv (build es) \<and> td_iter (build es) = es"
  by (simp add: build_def td_inv_def td_iter_def zip_map_fst_snd)

end
