(* ===== verification/Segment_Postings.thy ===== *)
theory Segment_Postings
  imports Caches Segment_Members Term_Dictionary
begin

text \<open>
  The posting lists a segment answers term queries with, \<open>SegmentReader::postings\<close> of
  \<^verbatim>\<open>laurus/src/lexical/index/inverted/reader.rs\<close>: the dictionary entry of the term, the list decoded
  where it points, the checks of the list against the entry and the segment, the filter of deleted
  documents, and the cache of the lists that passed.
\<close>

section \<open>The reader of a segment\<close>

text \<open>
  What a segment's parts give when they are read: the term dictionary (\<open>None\<close> when there is no
  \<open>.dict\<close>), the content of the \<open>.post\<close> part and whether it is lent as a slice, and the answers of the
  scan of the stored documents, which replaces a missing \<open>.post\<close> part and is a parameter.
\<close>

record 'c segment_reader =
  rd_ids :: segment_ids
  rd_dict :: "term_dictionary option res"
  rd_post :: "bytes option"
  rd_lends :: bool
  rd_scan :: "bytes \<Rightarrow> bytes \<Rightarrow> posting_iterator option res"
  rd_cache :: "'c posting_cache"
  rd_warned :: bool

definition rd_info :: "'c segment_reader \<Rightarrow> segment_info" where
  "rd_info r = sg_info (rd_ids r)"

text \<open>The key of a term in the dictionary: field, colon, term.\<close>

definition full_term :: "bytes \<Rightarrow> bytes \<Rightarrow> bytes" where
  "full_term field t = field @ 58 # t"

definition rd_term_info :: "'c segment_reader \<Rightarrow> bytes \<Rightarrow> bytes \<Rightarrow> term_info option res" where
  "rd_term_info r field t =
     map_sum id (\<lambda>dict. case dict of None \<Rightarrow> None | Some d \<Rightarrow> td_get (full_term field t) d) (rd_dict r)"

definition has_term_dictionary :: "'c segment_reader \<Rightarrow> bool" where
  "has_term_dictionary r = (case rd_dict r of Inr (Some _) \<Rightarrow> True | _ \<Rightarrow> False)"

definition iterator_of :: "decoded_posting_list \<Rightarrow> posting_iterator" where
  "iterator_of d = \<lparr>doc_ids = map unat (d_doc_ids d), skip_levels = map (map unat) (d_skip_levels d),
     position = 0, started = False\<rparr>"

section \<open>Checks on a decoded list\<close>

definition bad_list :: "string \<Rightarrow> laurus_error" where
  "bad_list what = Index (''posting list: '' @ what @ '' - segment is corrupted'')"

definition check_block_max :: "block_max list \<Rightarrow> u32 list \<Rightarrow> unit res" where
  "check_block_max block_max ids =
     (let n = length ids; blocks = (n + BLOCK_SIZE - 1) div BLOCK_SIZE
      in if block_max = [] then Inr ()
         else if length block_max \<noteq> blocks then Inl (bad_list ''another number of block-max entries than blocks'')
         else if list_all (\<lambda>i. last_doc_id (block_max ! i) = ucast (ids ! (min ((i + 1) * BLOCK_SIZE) n - 1))) [0..<blocks]
         then Inr () else Inl (bad_list ''a block-max entry ends at another document than its block''))"

definition check_posting_list ::
    "'c segment_reader \<Rightarrow> decoded_posting_list \<Rightarrow> bytes \<Rightarrow> bytes \<Rightarrow> term_info \<Rightarrow> nat \<Rightarrow> unit res" where
  "check_posting_list r d field t info stop =
     (if d_term d \<noteq> full_term field t then Inl (bad_list ''the dictionary entry leads to another list'')
      else if length (d_doc_ids d) \<noteq> unat (ti_doc_frequency info)
      then Inl (bad_list ''another number of postings than the dictionary declares'')
      else if \<not> (unat (posting_offset info) \<le> stop \<and> stop - unat (posting_offset info) = unat (posting_length info))
      then Inl (bad_list ''the decode ended at another byte'')
      else if d_doc_ids d \<noteq> [] \<and> unat (hd (d_doc_ids d)) < si_min_doc_id (rd_info r)
      then Inl (bad_list ''doc id below the minimum of the segment'')
      else if d_doc_ids d \<noteq> [] \<and> unat (last (d_doc_ids d)) > si_max_doc_id (rd_info r)
      then Inl (bad_list ''doc id above the maximum of the segment'')
      else check_block_max (ti_block_max info) (d_doc_ids d))"

section \<open>Deleted documents\<close>

text \<open>The entries of the parallel arrays whose document is not deleted.\<close>

definition kept :: "deleted_docs \<Rightarrow> u32 list \<Rightarrow> 'a list \<Rightarrow> 'a list" where
  "kept deleted ids xs = map snd (filter (\<lambda>(d, _). \<not> contains (unat d) deleted) (zip ids xs))"

definition filter_deleted_soa :: "deleted_docs option \<Rightarrow> decoded_posting_list \<Rightarrow> decoded_posting_list" where
  "filter_deleted_soa deletions d =
     (case deletions of
        None \<Rightarrow> d
      | Some deleted \<Rightarrow>
          let ids = kept deleted (d_doc_ids d) (d_doc_ids d)
          in d\<lparr>d_doc_ids := ids, d_frequencies := kept deleted (d_doc_ids d) (d_frequencies d), d_weights := [],
               d_positions := map_option (kept deleted (d_doc_ids d)) (d_positions d), d_skip_levels := skip_table ids\<rparr>)"

section \<open>Postings\<close>

text \<open>An index error is given the segment and the term it was found in; others keep their variant.\<close>

definition in_segment :: "'c segment_reader \<Rightarrow> 'a res \<Rightarrow> 'a res" where
  "in_segment r x =
     (case x of Inl (Index msg) \<Rightarrow> Inl (Index (''segment '' @ si_segment_id (rd_info r) @ '': '' @ msg)) | _ \<Rightarrow> x)"

definition load_list ::
    "bitpacker \<Rightarrow> 'c segment_reader \<Rightarrow> bytes \<Rightarrow> bytes \<Rightarrow> bytes \<Rightarrow> term_info \<Rightarrow> decoded_posting_list res" where
  "load_list bp r content field t info =
     (let reader = struct_reader_new content (rd_lends r);
          reader = (if 0 < unat (posting_offset info) then snd (sr_seek_start (unat (posting_offset info)) reader) else reader);
          version = (case rd_dict r of Inr (Some d) \<Rightarrow> td_version d | _ \<Rightarrow> 3)
      in case decode_soa_for_segment bp version (word_of_nat (si_doc_count (rd_info r))) reader of
           (Inl e, _) \<Rightarrow> Inl e
         | (Inr d, reader') \<Rightarrow> rbind (check_posting_list r d field t info (sr_position reader')) (\<lambda>_. Inr d))"

text \<open>What the \<open>.post\<close> part holds for a term: its list without deleted documents, if any are left.\<close>

definition stored_postings ::
    "bitpacker \<Rightarrow> 'c segment_reader \<Rightarrow> bytes \<Rightarrow> bytes \<Rightarrow> bytes \<Rightarrow> decoded_posting_list option res" where
  "stored_postings bp r content field t =
     rbind (rd_term_info r field t) (\<lambda>info.
       case info of
         None \<Rightarrow> Inr None
       | Some info \<Rightarrow>
           map_sum id (\<lambda>d. let live = filter_deleted_soa (sg_deleted (rd_ids r)) d
                          in if d_doc_ids live = [] then None else Some live)
             (in_segment r (load_list bp r content field t info)))"

definition cache_key :: "bytes \<Rightarrow> bytes \<Rightarrow> bytes" where
  "cache_key field t = field @ 1 # t"

text \<open>A disabled cache is neither asked nor given anything.\<close>

definition probe ::
    "(decoded_posting_list, 'c) lru_ops \<Rightarrow> bytes \<Rightarrow> 'c posting_cache \<Rightarrow> decoded_posting_list option \<times> 'c posting_cache" where
  "probe lru key cache = (if pch_enabled cache then posting_cache_get lru key cache else (None, cache))"

definition remember ::
    "(decoded_posting_list, 'c) lru_ops \<Rightarrow> bytes \<Rightarrow> decoded_posting_list \<Rightarrow> 'c posting_cache \<Rightarrow> 'c posting_cache option" where
  "remember lru key d cache = (if pch_enabled cache then posting_cache_put lru key d cache else Some cache)"

definition seg_postings ::
    "(decoded_posting_list, 'c) lru_ops \<Rightarrow> bitpacker \<Rightarrow> bytes \<Rightarrow> bytes \<Rightarrow> 'c segment_reader \<Rightarrow>
     (posting_iterator option res \<times> 'c segment_reader) option" where
  "seg_postings lru bp field t r =
     (case rd_post r of
        None \<Rightarrow> Some (rd_scan r field t, r\<lparr>rd_warned := True\<rparr>)
      | Some content \<Rightarrow>
          (case probe lru (cache_key field t) (rd_cache r) of
             (Some d, cache) \<Rightarrow> Some (Inr (Some (iterator_of d)), r\<lparr>rd_cache := cache\<rparr>)
           | (None, cache) \<Rightarrow>
               (case stored_postings bp r content field t of
                  Inl e \<Rightarrow> Some (Inl e, r\<lparr>rd_cache := cache\<rparr>)
                | Inr None \<Rightarrow> Some (Inr None, r\<lparr>rd_cache := cache\<rparr>)
                | Inr (Some d) \<Rightarrow>
                    map_option (\<lambda>cache. (Inr (Some (iterator_of d)), r\<lparr>rd_cache := cache\<rparr>))
                      (remember lru (cache_key field t) d cache))))"

text \<open>The same without the cache.\<close>

definition plain_postings :: "bitpacker \<Rightarrow> 'c segment_reader \<Rightarrow> bytes \<Rightarrow> bytes \<Rightarrow> posting_iterator option res" where
  "plain_postings bp r field t =
     (case rd_post r of
        None \<Rightarrow> rd_scan r field t
      | Some content \<Rightarrow> map_sum id (map_option iterator_of) (stored_postings bp r content field t))"

section \<open>Every list a segment serves\<close>

lemma map_unat_skip_table: "map (map unat) (skip_table ids) = build_skip_levels (map unat ids)"
proof -
  have "map (\<lambda>i. unat (word_of_nat (map unat ids ! ((i + 1) * step - 1)) :: u32)) [0..<len] =
      map (\<lambda>i. map unat ids ! ((i + 1) * step - 1)) [0..<len]"
    if "(step, len) \<in> set (skip_level_shape (length ids))" for step len
  proof (rule map_cong)
    fix i assume "i \<in> set [0..<len]"
    then have i: "i < len" by simp
    note s = shape_entry [OF that]
    have "(i + 1) * step \<le> length ids div step * step" using i s by (intro mult_right_mono) auto
    also have "\<dots> \<le> length ids" by simp
    finally have "(i + 1) * step - 1 < length ids" using s i by (cases step) auto
    then show "unat (word_of_nat (map unat ids ! ((i + 1) * step - 1)) :: u32) = map unat ids ! ((i + 1) * step - 1)"
      by simp
  qed simp
  then show ?thesis unfolding skip_table_def build_skip_levels_def by (auto simp: comp_def)
qed

lemma unat_u32_le: "unat (w :: u32) \<le> u32_max"
  using unat_u32 [of w] by (simp add: u32_max_def del: unat_u32)

lemma iterator_of_fresh:
  assumes "sorted_wrt (<) (d_doc_ids d)" "d_skip_levels d = skip_table (d_doc_ids d)"
  shows "it_fresh (iterator_of d)" "it_left (iterator_of d) = unat ` set (d_doc_ids d)"
proof -
  have "sorted_wrt (<) (map unat (d_doc_ids d))"
    using assms(1) by (simp add: sorted_wrt_map word_less_nat_alt [abs_def])
  then show "it_fresh (iterator_of d)" "it_left (iterator_of d) = unat ` set (d_doc_ids d)"
    using assms(2) by (auto simp: it_fresh_def it_left_def iterator_of_def posting_inv_def map_unat_skip_table unat_u32_le)
qed

lemma kept_ids: "kept deleted ids ids = filter (\<lambda>d. \<not> contains (unat d) deleted) ids"
  by (induction ids) (auto simp: kept_def)

lemma filter_deleted_facts:
  assumes "decoded_ok d"
  shows "sorted_wrt (<) (d_doc_ids (filter_deleted_soa del d))"
    "d_skip_levels (filter_deleted_soa del d) = skip_table (d_doc_ids (filter_deleted_soa del d))"
    "set (d_doc_ids (filter_deleted_soa del d)) =
       {i \<in> set (d_doc_ids d). \<forall>deleted. del = Some deleted \<longrightarrow> \<not> contains (unat i) deleted}"
  using assms by (auto simp: filter_deleted_soa_def decoded_ok_def kept_ids Let_def sorted_wrt_filter split: option.split)

lemma stored_postingsE:
  assumes "fills_blocks bp" "stored_postings bp r content field t = Inr (Some live)"
  obtains d info where "rd_term_info r field t = Inr (Some info)" "load_list bp r content field t info = Inr d"
    "decoded_ok d" "live = filter_deleted_soa (sg_deleted (rd_ids r)) d" "d_doc_ids live \<noteq> []"
proof -
  obtain info where info: "rd_term_info r field t = Inr (Some info)"
    using assms(2) by (auto simp: stored_postings_def rbind_Inr_iff split: option.splits)
  with assms(2) obtain d where d: "load_list bp r content field t info = Inr d"
    "live = filter_deleted_soa (sg_deleted (rd_ids r)) d" "d_doc_ids live \<noteq> []"
    by (auto simp: stored_postings_def in_segment_def Let_def split: sum.splits if_splits laurus_error.splits)
  obtain s s' where "decode_soa_for_segment bp (case rd_dict r of Inr (Some d) \<Rightarrow> td_version d | _ \<Rightarrow> 3)
      (word_of_nat (si_doc_count (rd_info r))) s = (Inr d, s')"
    using d(1) by (auto simp: load_list_def Let_def rbind_Inr_iff split: prod.splits sum.splits if_splits)
  then have "decoded_ok d"
    using decode_returns [OF assms(1)] by (fastforce simp: returns_def decode_soa_for_segment_def)
  with info d that show ?thesis by blast
qed

lemma sorted_hd_last_bounds:
  fixes ids :: "u32 list"
  shows "sorted_wrt (<) ids \<Longrightarrow> i \<in> set ids \<Longrightarrow> unat (hd ids) \<le> unat i \<and> unat i \<le> unat (last ids)"
proof -
  assume s: "sorted_wrt (<) ids" and i: "i \<in> set ids"
  have "hd ids \<le> i" using s i by (cases ids) auto
  moreover have "i \<le> last ids" using s i by (cases ids rule: rev_cases) (auto simp: sorted_wrt_append)
  ultimately show ?thesis by (simp add: word_le_nat_alt)
qed

lemma stored_postings_ok:
  assumes "fills_blocks bp" "stored_postings bp r content field t = Inr (Some live)"
  shows "it_fresh (iterator_of live)" "it_left (iterator_of live) = unat ` set (d_doc_ids live)" "d_doc_ids live \<noteq> []"
    "i \<in> set (d_doc_ids live) \<Longrightarrow> si_min_doc_id (rd_info r) \<le> unat i \<and> unat i \<le> si_max_doc_id (rd_info r) \<and>
       \<not> sg_is_deleted (rd_ids r) (unat i)"
proof -
  obtain d info where d: "load_list bp r content field t info = Inr d" "decoded_ok d"
    "live = filter_deleted_soa (sg_deleted (rd_ids r)) d" "d_doc_ids live \<noteq> []"
    using stored_postingsE [OF assms] by metis
  note f = filter_deleted_facts [OF d(2), of "sg_deleted (rd_ids r)"]
  show "it_fresh (iterator_of live)" "it_left (iterator_of live) = unat ` set (d_doc_ids live)" "d_doc_ids live \<noteq> []"
    using iterator_of_fresh [of live] f d(3,4) by auto
  assume i: "i \<in> set (d_doc_ids live)"
  then have "i \<in> set (d_doc_ids d)" using f(3) d(3) by auto
  moreover obtain stop where "check_posting_list r d field t info stop = Inr ()"
    using d(1) by (auto simp: load_list_def Let_def rbind_Inr_iff split: prod.splits sum.splits if_splits)
  ultimately have "si_min_doc_id (rd_info r) \<le> unat i \<and> unat i \<le> si_max_doc_id (rd_info r)"
    using sorted_hd_last_bounds [of "d_doc_ids d" i] d(2)
    by (fastforce simp: check_posting_list_def decoded_ok_def split: if_splits)
  moreover have "\<not> sg_is_deleted (rd_ids r) (unat i)"
    using i f(3) d(3) by (auto simp: sg_is_deleted_def split: option.split)
  ultimately show "si_min_doc_id (rd_info r) \<le> unat i \<and> unat i \<le> si_max_doc_id (rd_info r) \<and>
       \<not> sg_is_deleted (rd_ids r) (unat i)" by blast
qed

text \<open>A segment of the documents 1 to 20, of which 5 is deleted, with one term and its posting 9.\<close>

definition served_list :: posting_list where
  "served_list = add_posting (posting_with_frequency 9 2) (posting_list_new (full_term [98] [97]))"

lemma served_list_eq: "served_list = \<lparr>pl_term = [98, 58, 97], pl_postings = [posting_with_frequency 9 2],
   pl_total_frequency = 2, pl_doc_frequency = 1\<rparr>"
  by (simp add: served_list_def full_term_def add_posting_def posting_list_new_def search_by_key.simps posting_with_frequency_def)

lemma served_encodable: "encodable served_list" "counted served_list"
  by (simp_all add: served_list_eq encodable_def counted_def posting_with_frequency_def counts_positions_def)

definition served_bytes :: bytes where "served_bytes = posting_bytes plain_packer V3 served_list"

lemma small_varints: "encode_u64 1 = [1]" "encode_u64 2 = [2]" "encode_u64 3 = [3]" "encode_u64 9 = [9]"
  by (simp_all add: encode_u64.simps)

lemma served_bytes_eq: "served_bytes = [3, 98, 58, 97, 2, 1, 1, 0, 0, 0, 9, 2]"
  by (simp add: served_bytes_def posting_bytes_def served_list_eq Let_def posting_with_frequency_def string_bytes_def small_varints
    any_positions_def any_weights_def section_bytes_def POSTING_BLOCK_LEN_def ids32_def freq_tail_bytes_def flag_def skip_bytes_def skip_table_def
    build_skip_levels_def skip_level_shape_def skip_level_shape_from.simps SKIP_INTERVAL_def)

lemma served_decoded: "d_doc_ids (decoded_form V3 served_list) = [9]" "d_term (decoded_form V3 served_list) = [98,58,97]"
  by (simp_all add: decoded_form_def from_posting_list_def served_list_eq sort_positions_def posting_with_frequency_def Let_def)

lemma served_decodes:
  "decode_soa_for_segment plain_packer 3 20 (struct_reader_new served_bytes True) =
    (Inr (decoded_form V3 served_list), advanced (length served_bytes) (struct_reader_new served_bytes True))"
proof -
  have "reads (decode_soa_inner plain_packer V3 (Some 20)) served_bytes [] (decoded_form V3 served_list)"
   using decode_reads [OF plain_packer_ok(1) served_encodable, of "Some 20" V3 "[]"] by (simp add: served_bytes_def served_list_eq)
  then show ?thesis by (simp add: reads_def decode_soa_for_segment_def)
qed

lemma served_stop: "sr_position (advanced (length served_bytes) (struct_reader_new served_bytes True)) = length served_bytes"
  by (simp add: advanced_def took_def sr_update_checksum_def struct_reader_new_def rest_of_def)

lemma served_bytes_length: "length served_bytes = 12"
  by (simp add: served_bytes_eq)

definition served_segment :: "('c posting_cache) \<Rightarrow> 'c segment_reader" where
  "served_segment cache = \<lparr>rd_ids = example_segment 1 20 (Some {5}),
     rd_dict = Inr (Some (build [(full_term [98] [97], term_info_new 0 (word_of_nat (length served_bytes)) 1 2)])),
     rd_post = Some served_bytes, rd_lends = True, rd_scan = (\<lambda>_ _. Inr None), rd_cache = cache, rd_warned = False\<rparr>"

lemma served_stored: "stored_postings plain_packer (served_segment cache) served_bytes [98] [97] =
   Inr (Some (filter_deleted_soa (sg_deleted (example_segment 1 20 (Some {5}))) (decoded_form V3 served_list)))"
proof -
  let ?r = "served_segment cache" and ?d = "decoded_form V3 served_list" 
  let ?live = "filter_deleted_soa (sg_deleted (example_segment 1 20 (Some {5}))) ?d"
  let ?info = "term_info_new 0 (word_of_nat (length served_bytes)) 1 2"
  have info: "rd_term_info ?r [98] [97] = Inr (Some ?info)"
    by (simp add: rd_term_info_def served_segment_def build_def td_get_def)
  have "load_list plain_packer ?r served_bytes [98] [97] ?info = Inr ?d"
    using served_decodes served_stop served_bytes_length
    by (simp add: load_list_def served_segment_def term_info_new_def build_def rd_info_def example_segment_info
        check_posting_list_def served_decoded full_term_def check_block_max_def)
  moreover have "\<not> contains 9 (deleted_docs_new {5} 1 20 20)" 
    using contains_iff [of "{5}" 9 20 1 20] by simp
  then have "d_doc_ids ?live \<noteq> []"
    by (simp add: filter_deleted_soa_def served_decoded kept_ids Let_def example_segment_def)
  ultimately show ?thesis
    by (simp add: stored_postings_def info in_segment_def Let_def) (simp add: served_segment_def)
qed
text \<open>
  C20. Whatever is in the files of a segment: the iterator a term is answered with stands before the
  first posting of a strictly ascending list with its own skip table, every document of which lies in
  the range of the segment and is not deleted in it.
\<close>

theorem segment_postings_live:
  assumes "fills_blocks bp" "stored_postings bp r content field t = Inr (Some live)"
  shows "it_fresh (iterator_of live) \<and> it_left (iterator_of live) \<noteq> {} \<and>
    (\<forall>i \<in> it_left (iterator_of live). si_min_doc_id (rd_info r) \<le> i \<and> i \<le> si_max_doc_id (rd_info r) \<and>
       \<not> sg_is_deleted (rd_ids r) i)"
  using stored_postings_ok [OF assms] by auto

lemma segment_postings_live_witness:
  "\<exists>live. stored_postings plain_packer (served_segment (posting_cache_new list_lru 1000)) served_bytes [98] [97] = Inr (Some live) \<and>
     it_fresh (iterator_of live)"
  using segment_postings_live [OF plain_packer_ok(2) served_stored] served_stored by blast

section \<open>The cache answers as the file does\<close>

text \<open>
  What a cached list must be: the one the \<open>.post\<close> part holds for the field and term of its key. The key
  tells them apart for fields without the separator \<open>U+0001\<close>.
\<close>

definition cache_ok ::
    "bitpacker \<Rightarrow> ('c \<Rightarrow> nat option) \<Rightarrow> ('c \<Rightarrow> (bytes \<times> decoded_posting_list) list) \<Rightarrow> 'c segment_reader \<Rightarrow> bool" where
  "cache_ok bp cap entries r \<longleftrightarrow> pch_inv cap entries (rd_cache r) \<and>
     (\<forall>key d. map_of (pch_entries entries (rd_cache r)) key = Some d \<longrightarrow>
        (\<exists>field t. key = cache_key field t \<and> 1 \<notin> set field \<and>
           (\<forall>content. rd_post r = Some content \<longrightarrow> stored_postings bp r content field t = Inr (Some d))))"

lemma cache_key_inj: "cache_key f t = cache_key f' t' \<Longrightarrow> 1 \<notin> set f \<Longrightarrow> 1 \<notin> set f' \<Longrightarrow> f = f' \<and> t = t'"
proof (induction f arbitrary: f')
  case Nil
  then show ?case by (cases f') (auto simp: cache_key_def)
next
  case (Cons a f)
  then show ?case by (cases f') (auto simp: cache_key_def)
qed

lemma cache_frame [simp]:
  "rd_info (r\<lparr>rd_cache := c\<rparr>) = rd_info r" "rd_term_info (r\<lparr>rd_cache := c\<rparr>) = rd_term_info r"
  by (simp_all add: rd_info_def rd_term_info_def fun_eq_iff)

lemma checks_frame [simp]:
  "check_posting_list (r\<lparr>rd_cache := c\<rparr>) = check_posting_list r" "in_segment (r\<lparr>rd_cache := c\<rparr>) = in_segment r"
  by (simp_all add: check_posting_list_def in_segment_def fun_eq_iff cong: sum.case_cong laurus_error.case_cong if_cong)

lemma load_list_frame [simp]: "load_list bp (r\<lparr>rd_cache := c\<rparr>) = load_list bp r"
  by (intro ext) (unfold load_list_def checks_frame cache_frame, simp)

lemma stored_postings_cache [simp]: "stored_postings bp (r\<lparr>rd_cache := c\<rparr>) = stored_postings bp r"
  by (simp add: stored_postings_def fun_eq_iff cong: option.case_cong)

lemma plain_postings_cache [simp]: "plain_postings bp (r\<lparr>rd_cache := c\<rparr>) field t = plain_postings bp r field t"
  by (simp add: plain_postings_def cong: option.case_cong)

lemma remember_ok:
  assumes lru: "lru_behaves lru cap entries" and ok: "cache_ok bp cap entries r"
    and d: "\<forall>content. rd_post r = Some content \<longrightarrow> stored_postings bp r content field t = Inr (Some d)" and field: "1 \<notin> set field"
  shows "\<exists>c. remember lru (cache_key field t) d (rd_cache r) = Some c \<and> cache_ok bp cap entries (r\<lparr>rd_cache := c\<rparr>)"
proof (cases "pch_enabled (rd_cache r)")
  case False
  then show ?thesis using ok by (simp add: remember_def)
next
  case True
  let ?key = "cache_key field t" and ?es = "pch_entries entries (rd_cache r)"
  have inv: "pch_inv cap entries (rd_cache r)" using ok by (simp add: cache_ok_def)
  from posting_cache_put_spec [OF lru inv, of ?key d] obtain c n where
    put: "posting_cache_put lru ?key d (rd_cache r) = Some c" "pch_inv cap entries c"
    and es: "pch_entries entries c = take (Suc n) ((?key, d) # without_key ?key ?es) \<or> pch_entries entries c = ?es"
    by (auto split: if_splits)
  have distinct: "distinct (map fst ?es)"
    using inv by (auto simp: pch_inv_def pci_inv_def pch_entries_def split: option.split)
  have "\<exists>field t. key = cache_key field t \<and> 1 \<notin> set field \<and>
      (\<forall>content. rd_post r = Some content \<longrightarrow> stored_postings bp r content field t = Inr (Some e))"
    if "map_of (pch_entries entries c) key = Some e" for key e
  proof -
    have "(key, e) \<in> set (pch_entries entries c)" using that by (rule map_of_SomeD)
    then have "key = ?key \<and> e = d \<or> (key, e) \<in> set ?es"
      using es in_set_takeD [of "(key, e)" n "without_key ?key ?es"] by (auto simp: without_key_def)
    then show ?thesis
    proof
      assume "key = ?key \<and> e = d"
      then show ?thesis using d field by blast
    next
      assume "(key, e) \<in> set ?es"
      then have "map_of ?es key = Some e" using distinct by simp
      then show ?thesis using ok by (auto simp: cache_ok_def)
    qed
  qed
  then have "cache_ok bp cap entries (r\<lparr>rd_cache := c\<rparr>)" using put(2) by (simp add: cache_ok_def)
  then show ?thesis using True put(1) by (simp add: remember_def)
qed

lemma cached_postings_spec:
  assumes lru: "lru_behaves lru cap entries" and ok: "cache_ok bp cap entries r" and field: "1 \<notin> set field"
  shows "\<exists>r'. seg_postings lru bp field t r = Some (plain_postings bp r field t, r') \<and> cache_ok bp cap entries r' \<and>
    rd_ids r' = rd_ids r \<and> rd_dict r' = rd_dict r \<and> rd_post r' = rd_post r \<and> rd_scan r' = rd_scan r \<and> rd_lends r' = rd_lends r"
proof (cases "rd_post r")
  case None
  then have "cache_ok bp cap entries (r\<lparr>rd_warned := True\<rparr>)" using ok by (simp add: cache_ok_def)
  with None show ?thesis
    by (intro exI [of _ "r\<lparr>rd_warned := True\<rparr>"]) (simp add: seg_postings_def plain_postings_def)
next
  case (Some content)
  let ?key = "cache_key field t" and ?P = "stored_postings bp r content field t"
  obtain cached c where get: "probe lru ?key (rd_cache r) = (cached, c)"
    by (cases "probe lru ?key (rd_cache r)")
  have inv: "pch_inv cap entries (rd_cache r)" using ok by (simp add: cache_ok_def)
  have c: "pch_inv cap entries c \<and> map_of (pch_entries entries c) = map_of (pch_entries entries (rd_cache r)) \<and>
      (cached \<noteq> None \<longrightarrow> cached = map_of (pch_entries entries (rd_cache r)) ?key)"
  proof (cases "pch_enabled (rd_cache r)")
    case True
    with get posting_cache_get_spec [OF lru inv, of ?key cached c] show ?thesis by (simp add: probe_def)
  next
    case False
    with get inv show ?thesis by (auto simp: probe_def)
  qed
  have ok': "cache_ok bp cap entries (r\<lparr>rd_cache := c\<rparr>)" using ok c by (simp add: cache_ok_def)
  have plain: "plain_postings bp r field t = map_sum id (map_option iterator_of) ?P"
    using Some by (simp add: plain_postings_def)
  have result: ?thesis if "seg_postings lru bp field t r = Some (plain_postings bp r field t, r\<lparr>rd_cache := c'\<rparr>)"
    "cache_ok bp cap entries (r\<lparr>rd_cache := c'\<rparr>)" for c'
    by (rule exI [of _ "r\<lparr>rd_cache := c'\<rparr>"]) (intro conjI that, simp_all)
  show ?thesis
  proof (cases cached)
    case hit: (Some d)
    then have "map_of (pch_entries entries (rd_cache r)) ?key = Some d" using c by simp
    with ok have "\<exists>f t'. ?key = cache_key f t' \<and> 1 \<notin> set f \<and>
        (\<forall>content. rd_post r = Some content \<longrightarrow> stored_postings bp r content f t' = Inr (Some d))"
      unfolding cache_ok_def by blast
    then obtain f t' where f: "?key = cache_key f t'" "1 \<notin> set f" "stored_postings bp r content f t' = Inr (Some d)"
      using Some by blast
    then have "?P = Inr (Some d)" using cache_key_inj [OF f(1) field] by auto
    then show ?thesis using Some get hit by (intro result [OF _ ok']) (simp add: seg_postings_def plain)
  next
    case miss: None
    show ?thesis
    proof (cases ?P)
      case (Inl e)
      then show ?thesis using Some get miss by (intro result [OF _ ok']) (simp add: seg_postings_def plain)
    next
      case (Inr found)
      show ?thesis
      proof (cases found)
        case None
        then show ?thesis using Some get miss Inr by (intro result [OF _ ok']) (simp add: seg_postings_def plain)
      next
        case d: (Some d)
        from remember_ok [OF lru ok' _ field, where d = d and t = t] Some Inr d obtain c' where
          "remember lru ?key d c = Some c'" "cache_ok bp cap entries (r\<lparr>rd_cache := c'\<rparr>)" by auto
        then show ?thesis using Some get miss Inr d by (intro result) (simp_all add: seg_postings_def plain)
      qed
    qed
  qed
qed

text \<open>
  C19. With the posting cache on or off, a term query on a segment returns and gives what decoding the
  \<open>.post\<close> part anew gives, error or list, and leaves the cache such that the next query does too. The
  field of the query does not contain \<open>U+0001\<close>, the separator of field and term in a key of the cache, and
  neither did those of the queries that filled the cache (\<open>cache_ok\<close>): with one that does, a key can be
  that of another field and term. The content of the \<open>.post\<close> part, where there is one, can be read and
  does not change.
\<close>

theorem cached_postings_agree:
  assumes "lru_behaves lru cap entries" "cache_ok bp cap entries r" "1 \<notin> set field"
  shows "\<exists>r'. seg_postings lru bp field t r = Some (plain_postings bp r field t, r') \<and> cache_ok bp cap entries r' \<and>
    rd_ids r' = rd_ids r \<and> rd_dict r' = rd_dict r \<and> rd_post r' = rd_post r \<and> rd_scan r' = rd_scan r \<and> rd_lends r' = rd_lends r"
  using cached_postings_spec [OF assms] .

lemma cached_postings_agree_witness:
  "\<exists>r'. seg_postings list_lru plain_packer [98] [97] (served_segment (posting_cache_new list_lru 1000)) =
     Some (plain_postings plain_packer (served_segment (posting_cache_new list_lru 1000)) [98] [97], r')"
proof -
  have "cache_ok plain_packer fst snd (served_segment (posting_cache_new list_lru 1000))"
    by (simp add: cache_ok_def served_segment_def posting_cache_new_def pch_inv_def pci_inv_def pch_entries_def list_lru_def)
  from cached_postings_agree [OF list_lru_behaves this, of "[98]" "[97]"] show ?thesis by auto
qed

end
