(* ===== verification/Merged_Postings.thy ===== *)
theory Merged_Postings
  imports Matchers "HOL-Library.Multiset"
begin

text \<open>
  The postings of a term in several segments as one stream, \<open>MergedPostingIterator\<close> of
  \<^verbatim>\<open>laurus/src/lexical/index/inverted/reader.rs\<close>: a scan for the smallest document among few
  iterators, a heap among many. It is a \<open>posting_cursor\<close> itself when no document is in two segments.
\<close>

section \<open>State\<close>

record 'i wrapper =
  mw_iter :: 'i
  mw_current :: nat

text \<open>
  A \<open>BinaryHeap\<close> gives out an element with the smallest document; the list holds its elements, of
  which \<open>pop\<close> takes the first of those.
\<close>

datatype 'i merge_impl = Linear "'i wrapper list" nat | Heap "'i wrapper list"

record 'i merged_iterator =
  mg_inner :: "'i merge_impl"
  mg_current_doc :: nat
  mg_started :: bool

definition LINEAR_THRESHOLD :: nat where "LINEAR_THRESHOLD = 8"

fun min_idx_from :: "'i wrapper list \<Rightarrow> nat \<Rightarrow> nat \<Rightarrow> nat \<Rightarrow> nat" where
  "min_idx_from [] i min_idx min_doc = min_idx"
| "min_idx_from (w # ws) i min_idx min_doc =
     (if mw_current w < min_doc then min_idx_from ws (i + 1) i (mw_current w)
      else min_idx_from ws (i + 1) min_idx min_doc)"

definition find_min_idx :: "'i wrapper list \<Rightarrow> nat" where
  "find_min_idx ws = min_idx_from (tl ws) 1 0 (mw_current (hd ws))"

definition heap_peek :: "'i wrapper list \<Rightarrow> 'i wrapper option" where
  "heap_peek ws = (if ws = [] then None else Some (ws ! find_min_idx ws))"

definition swap_remove :: "nat \<Rightarrow> 'a list \<Rightarrow> 'a list" where
  "swap_remove i xs = butlast (xs[i := last xs])"

definition heap_pop :: "'i wrapper list \<Rightarrow> ('i wrapper \<times> 'i wrapper list) option" where
  "heap_pop ws = (if ws = [] then None else Some (ws ! find_min_idx ws, swap_remove (find_min_idx ws) ws))"

section \<open>Operations\<close>

fun start_wrappers :: "'i cursor \<Rightarrow> 'i list \<Rightarrow> 'i wrapper list option" where
  "start_wrappers c [] = Some []"
| "start_wrappers c (it # its) =
     (case cu_next c it of
        None \<Rightarrow> None
      | Some (b, it') \<Rightarrow> map_option (\<lambda>ws. if b then \<lparr>mw_iter = it', mw_current = cu_doc_id c it'\<rparr> # ws else ws)
                         (start_wrappers c its))"

definition merge_impl_of :: "'i wrapper list \<Rightarrow> 'i merge_impl" where
  "merge_impl_of ws =
     (if length ws \<le> LINEAR_THRESHOLD then Linear ws (if ws = [] then 0 else find_min_idx ws) else Heap ws)"

definition top_doc :: "'i merge_impl \<Rightarrow> nat" where
  "top_doc inner = (case inner of
     Linear ws i \<Rightarrow> if ws = [] then u64_max else mw_current (ws ! i)
   | Heap ws \<Rightarrow> (case heap_peek ws of None \<Rightarrow> u64_max | Some w \<Rightarrow> mw_current w))"

definition merged_new :: "'i cursor \<Rightarrow> 'i list \<Rightarrow> 'i merged_iterator option" where
  "merged_new c its = map_option (\<lambda>ws.
     \<lparr>mg_inner = merge_impl_of ws, mg_current_doc = top_doc (merge_impl_of ws), mg_started = False\<rparr>)
     (start_wrappers c its)"

definition merged_advance :: "'i cursor \<Rightarrow> 'i merged_iterator \<Rightarrow> (bool \<times> 'i merged_iterator) option" where
  "merged_advance c m =
     (case mg_inner m of
        Linear ws idx \<Rightarrow>
          if ws = [] then Some (False, m\<lparr>mg_current_doc := u64_max\<rparr>)
          else map_option (\<lambda>(b, it).
                 let ws' = (if b then ws[idx := \<lparr>mw_iter = it, mw_current = cu_doc_id c it\<rparr>] else swap_remove idx ws)
                 in if ws' = [] then (False, m\<lparr>mg_inner := Linear ws' idx, mg_current_doc := u64_max\<rparr>)
                    else (True, m\<lparr>mg_inner := Linear ws' (find_min_idx ws'),
                                  mg_current_doc := mw_current (ws' ! find_min_idx ws')\<rparr>))
               (cu_next c (mw_iter (ws ! idx)))
      | Heap ws \<Rightarrow>
          (case heap_pop ws of
             None \<Rightarrow> Some (False, m\<lparr>mg_current_doc := u64_max\<rparr>)
           | Some (w, rest) \<Rightarrow> map_option (\<lambda>(b, it).
                 let ws' = (if b then rest @ [\<lparr>mw_iter = it, mw_current = cu_doc_id c it\<rparr>] else rest)
                 in case heap_peek ws' of
                      Some v \<Rightarrow> (True, m\<lparr>mg_inner := Heap ws', mg_current_doc := mw_current v\<rparr>)
                    | None \<Rightarrow> (False, m\<lparr>mg_inner := Heap ws', mg_current_doc := u64_max\<rparr>))
               (cu_next c (mw_iter w))))"

fun is_drained :: "'i merge_impl \<Rightarrow> bool" where
  "is_drained (Linear ws _) = (ws = [])"
| "is_drained (Heap ws) = (ws = [])"

definition merged_next :: "'i cursor \<Rightarrow> 'i merged_iterator \<Rightarrow> (bool \<times> 'i merged_iterator) option" where
  "merged_next c m =
     (if \<not> mg_started m then Some (\<not> is_drained (mg_inner m), m\<lparr>mg_started := True\<rparr>)
      else merged_advance c m)"

partial_function (option) skip_loop_to ::
    "'i cursor \<Rightarrow> nat \<Rightarrow> 'i merged_iterator \<Rightarrow> (bool \<times> 'i merged_iterator) option" where
  "skip_loop_to c target m =
     (if mg_current_doc m < target then
        Option.bind (merged_advance c m) (\<lambda>r. if fst r then skip_loop_to c target (snd r) else Some (False, snd r))
      else Some (mg_current_doc m \<noteq> u64_max, m))"

definition merged_skip_to :: "'i cursor \<Rightarrow> nat \<Rightarrow> 'i merged_iterator \<Rightarrow> (bool \<times> 'i merged_iterator) option" where
  "merged_skip_to c target m = skip_loop_to c target (m\<lparr>mg_started := True\<rparr>)"

definition merged_cursor :: "'i cursor \<Rightarrow> 'i merged_iterator cursor" where
  "merged_cursor c = \<lparr>cu_doc_id = mg_current_doc, cu_next = merged_next c, cu_skip_to = merged_skip_to c\<rparr>"

section \<open>The smallest wrapper\<close>

lemma min_idx_from_spec:
  "min_idx < i \<Longrightarrow> i + length ws = length all \<Longrightarrow> drop i all = ws \<Longrightarrow> mw_current (all ! min_idx) = min_doc \<Longrightarrow>
   \<forall>j < i. min_doc \<le> mw_current (all ! j) \<Longrightarrow>
   min_idx_from ws i min_idx min_doc < length all \<and>
   (\<forall>j < length all. mw_current (all ! min_idx_from ws i min_idx min_doc) \<le> mw_current (all ! j))"
proof (induction ws i min_idx min_doc rule: min_idx_from.induct)
  case (2 w ws i min_idx min_doc)
  then have d: "drop i all = w # ws" "i < length all" by auto
  then have w: "all ! i = w" "drop (i + 1) all = ws" "i < length all"
    using nth_via_drop [OF d(1)] tl_drop [of i all] by (simp_all add: drop_Suc)
  show ?case
  proof (cases "mw_current w < min_doc")
    case True
    have "\<forall>j < i + 1. mw_current w \<le> mw_current (all ! j)"
      using 2(7) True w(1) by (metis Suc_eq_plus1 less_SucE less_imp_le order_refl order_trans)
    with "2.IH"(1) [OF True] 2 w True show ?thesis by simp
  next
    case False
    have "\<forall>j < i + 1. min_doc \<le> mw_current (all ! j)"
      using 2(7) False w(1) by (metis Suc_eq_plus1 less_SucE not_le)
    with "2.IH"(2) [OF False] 2 w False show ?thesis by simp
  qed
qed simp

lemma find_min_idx:
  assumes "ws \<noteq> []"
  shows "find_min_idx ws < length ws" "w \<in> set ws \<Longrightarrow> mw_current (ws ! find_min_idx ws) \<le> mw_current w"
proof -
  have "find_min_idx ws < length ws \<and> (\<forall>j < length ws. mw_current (ws ! find_min_idx ws) \<le> mw_current (ws ! j))"
    unfolding find_min_idx_def
    by (rule min_idx_from_spec) (use assms in \<open>cases ws; auto simp: drop_Suc\<close>)+
  then show "find_min_idx ws < length ws" "w \<in> set ws \<Longrightarrow> mw_current (ws ! find_min_idx ws) \<le> mw_current w"
    by (auto simp: in_set_conv_nth)
qed

lemma mset_swap_remove:
  assumes "i < length xs"
  shows "mset (swap_remove i xs) = mset xs - {#xs ! i#}"
proof -
  have ne: "xs \<noteq> []" using assms by auto
  let ?n = "length xs - 1"
  have l: "last (xs[i := last xs]) = last xs"
    using ne assms by (cases "i = ?n") (auto simp: last_conv_nth)
  have ne': "xs[i := last xs] \<noteq> []" using ne by simp
  have "mset (swap_remove i xs) = mset (butlast (xs[i := last xs]) @ [last (xs[i := last xs])]) - {#last xs#}"
    by (simp add: swap_remove_def l)
  also have "\<dots> = mset (xs[i := last xs]) - {#last xs#}" using append_butlast_last_id [OF ne'] by simp
  also have "\<dots> = mset xs - {#xs ! i#}" using assms by (simp add: mset_update)
  finally show ?thesis .
qed


section \<open>The merged iterator is a cursor\<close>

text \<open>
  The documents that are left in all wrappers, with their multiplicities: the stream is in order and
  free of repeats when each is left in one wrapper only.
\<close>

context posting_cursor
begin

definition wrapper_ok :: "'i wrapper \<Rightarrow> bool" where
  "wrapper_ok w \<longleftrightarrow> on (mw_iter w) \<and> mw_current w = cu_doc_id c (mw_iter w)"

definition spread :: "'i wrapper list \<Rightarrow> nat multiset" where
  "spread ws = (\<Sum>w \<in># mset ws. mset_set (left (mw_iter w)))"

fun wrappers :: "'i merge_impl \<Rightarrow> 'i wrapper list" where
  "wrappers (Linear ws _) = ws"
| "wrappers (Heap ws) = ws"

definition min_found :: "'i merge_impl \<Rightarrow> bool" where
  "min_found inner \<longleftrightarrow> (case inner of Linear ws i \<Rightarrow> ws \<noteq> [] \<longrightarrow> i = find_min_idx ws | Heap _ \<Rightarrow> True)"

definition mg_left :: "'i merged_iterator \<Rightarrow> nat set" where
  "mg_left m = set_mset (spread (wrappers (mg_inner m)))"

definition mg_inv :: "'i merged_iterator \<Rightarrow> bool" where
  "mg_inv m \<longleftrightarrow> (\<forall>w \<in> set (wrappers (mg_inner m)). wrapper_ok w) \<and>
     spread (wrappers (mg_inner m)) = mset_set (mg_left m) \<and> min_found (mg_inner m) \<and>
     mg_current_doc m = top_doc (mg_inner m)"

definition mg_fresh :: "'i merged_iterator \<Rightarrow> bool" where
  "mg_fresh m \<longleftrightarrow> mg_inv m \<and> \<not> mg_started m"

definition mg_on :: "'i merged_iterator \<Rightarrow> bool" where
  "mg_on m \<longleftrightarrow> mg_inv m \<and> mg_started m \<and> mg_left m \<noteq> {}"

lemma left_of_ok: "wrapper_ok w \<Longrightarrow> finite (left (mw_iter w)) \<and> mw_current w = Min (left (mw_iter w)) \<and>
    mw_current w \<in> left (mw_iter w) \<and> left (mw_iter w) \<subseteq> {..<u64_max}"
  using left_bound [of "mw_iter w"] stands_law [of "mw_iter w"] Min_in by (auto simp: wrapper_ok_def)

lemma set_spread: "\<forall>w \<in> set ws. wrapper_ok w \<Longrightarrow> set_mset (spread ws) = (\<Union>w \<in> set ws. left (mw_iter w))"
  using left_of_ok by (auto simp: spread_def)

lemma spread_empty: "\<forall>w \<in> set ws. wrapper_ok w \<Longrightarrow> set_mset (spread ws) = {} \<longleftrightarrow> ws = []"
  using set_spread [of ws] left_of_ok [of "hd ws"] by (cases ws) auto

lemma spread_simps:
  "i < length ws \<Longrightarrow> spread (ws[i := w]) = spread ws - mset_set (left (mw_iter (ws ! i))) + mset_set (left (mw_iter w))"
  "i < length ws \<Longrightarrow> spread (swap_remove i ws) = spread ws - mset_set (left (mw_iter (ws ! i)))"
  "spread (ws @ [w]) = spread ws + mset_set (left (mw_iter w))"
  by (simp_all add: spread_def mset_update mset_swap_remove image_mset_Diff sum_mset_diff)

lemma top_is_min:
  assumes "\<forall>w \<in> set ws. wrapper_ok w" "ws \<noteq> []"
  shows "mw_current (ws ! find_min_idx ws) = Min (set_mset (spread ws))"
proof -
  let ?w = "ws ! find_min_idx ws"
  have w: "?w \<in> set ws" using find_min_idx(1) [OF assms(2)] by simp
  show ?thesis
  proof (rule Min_eqI [symmetric])
    show "mw_current ?w \<in> set_mset (spread ws)"
      using w assms(1) left_of_ok [of ?w] by (auto simp: set_spread)
  next
    fix x
    assume "x \<in> set_mset (spread ws)"
    then obtain v where v: "v \<in> set ws" "x \<in> left (mw_iter v)" using assms(1) by (auto simp: set_spread)
    then have "mw_current v \<le> x" using left_of_ok [of v] assms(1) by (metis Min_le)
    then show "mw_current ?w \<le> x" using find_min_idx(2) [OF assms(2) v(1)] by linarith
  qed simp
qed

text \<open>Moving the smallest wrapper on takes one copy of the current document away.\<close>

lemma moved_on:
  assumes ok: "\<forall>w \<in> set ws. wrapper_ok w" and ne: "ws \<noteq> []" and once: "spread ws = mset_set L"
    and nxt: "cu_next c (mw_iter (ws ! find_min_idx ws)) = Some (b, it)"
  defines "old \<equiv> ws ! find_min_idx ws" and "new \<equiv> \<lparr>mw_iter = it, mw_current = cu_doc_id c it\<rparr>"
  shows "b \<Longrightarrow> wrapper_ok new"
    and "spread ws - mset_set (left (mw_iter old)) + (if b then mset_set (left it) else {#}) =
      mset_set (L - {mw_current old})"
proof -
  have old: "wrapper_ok old" "old \<in> set ws" using ok find_min_idx(1) [OF ne] by (simp_all add: old_def)
  let ?X = "left (mw_iter old)" and ?d = "mw_current old"
  have X: "finite ?X" "?d \<in> ?X" using left_of_ok [OF old(1)] by auto
  have d: "?d = cu_doc_id c (mw_iter old)" using old(1) by (simp add: wrapper_ok_def)
  have "on (mw_iter old)" using old(1) by (simp add: wrapper_ok_def)
  from cu_next_law [OF this] have "steps_to on left (Some (b, it)) (?X - {?d})"
    unfolding d nxt [folded old_def] .
  then have s: "b \<longleftrightarrow> ?X - {?d} \<noteq> {}" "?X - {?d} \<noteq> {} \<longrightarrow> on it \<and> left it = ?X - {?d}"
    unfolding steps_to_def by simp_all
  then show "b \<Longrightarrow> wrapper_ok new" by (simp add: wrapper_ok_def new_def)
  have "?d \<in> set_mset (spread ws)" using old(2) X(2) by (auto simp: set_spread [OF ok])
  then have fin: "finite L" unfolding once by (metis empty_iff mset_set.infinite set_mset_empty)
  then have XL: "?X \<subseteq> L" using set_spread [OF ok] old(2) once by auto
  have "(if b then mset_set (left it) else {#}) = mset_set Y"
    if "b \<longleftrightarrow> Y \<noteq> {}" "Y \<noteq> {} \<longrightarrow> on it \<and> left it = Y" for Y using that by auto
  from this [OF s] have "spread ws - mset_set ?X + (if b then mset_set (left it) else {#}) = mset_set (L - ?X) + mset_set (?X - {?d})"
    by (simp only: once mset_set_Diff [OF fin XL])
  also have "\<dots> = mset_set ((L - ?X) \<union> (?X - {?d}))" using fin X by (intro mset_set_Union [symmetric]) auto
  also have "(L - ?X) \<union> (?X - {?d}) = L - {?d}" using XL X(2) by blast
  finally show "spread ws - mset_set ?X + (if b then mset_set (left it) else {#}) = mset_set (L - {?d})" .
qed

lemma top_doc_min:
  assumes "\<forall>w \<in> set (wrappers n). wrapper_ok w" "min_found n"
  shows "top_doc n = (if set_mset (spread (wrappers n)) = {} then u64_max else Min (set_mset (spread (wrappers n))))"
  using assms top_is_min [of "wrappers n"] spread_empty [of "wrappers n"]
  by (cases n) (auto simp: top_doc_def min_found_def heap_peek_def)

lemma rewrapped:
  assumes "\<forall>w \<in> set (wrappers n). wrapper_ok w" "spread (wrappers n) = mset_set L" "finite L" "min_found n"
  shows "mg_inv \<lparr>mg_inner = n, mg_current_doc = top_doc n, mg_started = st\<rparr>"
    "mg_left \<lparr>mg_inner = n, mg_current_doc = top_doc n, mg_started = st\<rparr> = L"
  using assms by (simp_all add: mg_inv_def mg_left_def)

lemma advance_ok:
  assumes inv: "mg_inv m" and ne: "mg_left m \<noteq> {}"
  shows "\<exists>m'. merged_advance c m = Some (mg_left m - {mg_current_doc m} \<noteq> {}, m') \<and> mg_inv m' \<and>
    mg_left m' = mg_left m - {mg_current_doc m} \<and> mg_started m' = mg_started m"
proof -
  let ?ws = "wrappers (mg_inner m)" and ?i = "find_min_idx (wrappers (mg_inner m))"
  let ?L = "mg_left m - {mg_current_doc m}"
  have ok: "\<forall>w \<in> set ?ws. wrapper_ok w" and once: "spread ?ws = mset_set (mg_left m)"
    and cur: "mg_current_doc m = top_doc (mg_inner m)" and found: "min_found (mg_inner m)"
    using inv by (auto simp: mg_inv_def)
  have ws: "?ws \<noteq> []" using ne spread_empty [OF ok] by (simp add: mg_left_def)
  have fin: "finite ?L" by (simp add: mg_left_def)
  note i = find_min_idx(1) [OF ws]
  have d: "mg_current_doc m = mw_current (?ws ! ?i)"
    using cur found ws by (cases "mg_inner m") (auto simp: top_doc_def min_found_def heap_peek_def)
  have "on (mw_iter (?ws ! ?i))" using ok i by (auto simp: wrapper_ok_def)
  from cu_next_law [OF this] obtain b it where nxt: "cu_next c (mw_iter (?ws ! ?i)) = Some (b, it)"
    by (auto simp: steps_to_def)
  let ?w = "\<lparr>mw_iter = it, mw_current = cu_doc_id c it\<rparr>"
  note moved = moved_on [OF ok ws once nxt]
  have result: "\<exists>m'. merged_advance c m = Some (?L \<noteq> {}, m') \<and> mg_inv m' \<and> mg_left m' = ?L \<and> mg_started m' = mg_started m"
    if ws': "\<forall>w \<in> set (wrappers n). wrapper_ok w" "min_found n" "spread (wrappers n) = mset_set ?L"
      and step: "merged_advance c m = Some (wrappers n \<noteq> [], m\<lparr>mg_inner := n, mg_current_doc := top_doc n\<rparr>)" for n
  proof -
    have "set_mset (spread (wrappers n)) = ?L" unfolding ws'(3) using fin by (rule finite_set_mset_mset_set)
    then have "wrappers n = [] \<longleftrightarrow> ?L = {}" using spread_empty [OF ws'(1)] by (simp only:)
    with step rewrapped [OF ws'(1,3) fin ws'(2), of "mg_started m"] show ?thesis
      by (cases m) auto
  qed
  show ?thesis
  proof (cases "mg_inner m")
    case (Linear ws idx)
    have W: "?ws = ws" by (simp add: Linear)
    have idx: "idx = find_min_idx ws" using found ws by (simp add: min_found_def Linear)
    note facts = i [unfolded W] ok [unfolded W] moved [unfolded W] d [unfolded W] nxt [unfolded W] ws [unfolded W]
    let ?ws' = "if b then ws[idx := ?w] else swap_remove idx ws"
    let ?n = "Linear ?ws' (if ?ws' = [] then idx else find_min_idx ?ws')"
    have sub: "set (swap_remove idx ws) \<subseteq> set ws"
      using mset_swap_remove [OF facts(1)] idx by (metis in_diffD set_mset_mset subsetI)
    show ?thesis
    proof (rule result [of ?n])
      show "\<forall>w \<in> set (wrappers ?n). wrapper_ok w"
        using facts(2,3) sub set_update_subset_insert [of ws idx ?w] by auto
      show "min_found ?n" by (simp add: min_found_def)
      show "spread (wrappers ?n) = mset_set ?L"
        using facts(4) spread_simps(1,2) [OF facts(1), folded idx] by (cases b) (simp_all add: facts(5) idx)
      show "merged_advance c m = Some (wrappers ?n \<noteq> [], m\<lparr>mg_inner := ?n, mg_current_doc := top_doc ?n\<rparr>)"
        using facts(6,7) by (simp add: merged_advance_def Linear top_doc_def Let_def idx)
    qed
  next
    case (Heap ws)
    have W: "?ws = ws" by (simp add: Heap)
    note facts = i [unfolded W] ok [unfolded W] moved [unfolded W] d [unfolded W] nxt [unfolded W] ws [unfolded W]
    let ?rest = "swap_remove (find_min_idx ws) ws"
    let ?ws' = "if b then ?rest @ [?w] else ?rest"
    have sub: "set ?rest \<subseteq> set ws"
      using mset_swap_remove [OF facts(1)] by (metis in_diffD set_mset_mset subsetI)
    show ?thesis
    proof (rule result [of "Heap ?ws'"])
      show "\<forall>w \<in> set (wrappers (Heap ?ws')). wrapper_ok w" using facts(2,3) sub by auto
      show "min_found (Heap ?ws')" by (simp add: min_found_def)
      show "spread (wrappers (Heap ?ws')) = mset_set ?L"
        using facts(4) spread_simps(2) [OF facts(1)] spread_simps(3) [of ?rest ?w] by (cases b) (simp_all add: facts(5))
      show "merged_advance c m = Some (wrappers (Heap ?ws') \<noteq> [],
          m\<lparr>mg_inner := Heap ?ws', mg_current_doc := top_doc (Heap ?ws')\<rparr>)"
        using facts(6,7) by (simp add: merged_advance_def Heap top_doc_def heap_pop_def heap_peek_def Let_def)
    qed
  qed
qed

lemma current_doc:
  "mg_inv m \<Longrightarrow> mg_current_doc m = (if mg_left m = {} then u64_max else Min (mg_left m))"
  using top_doc_min [of "mg_inner m"] by (simp add: mg_inv_def mg_left_def)

lemma mg_left_bound: "mg_inv m \<Longrightarrow> finite (mg_left m) \<and> mg_left m \<subseteq> {..<u64_max}"
  using set_spread [of "wrappers (mg_inner m)"] left_of_ok by (fastforce simp: mg_inv_def mg_left_def)

lemma skip_loop_ok:
  "mg_inv m \<Longrightarrow> mg_started m \<Longrightarrow> mg_left m \<noteq> {} \<Longrightarrow>
   steps_to mg_on mg_left (skip_loop_to c t m) {d \<in> mg_left m. t \<le> d}"
proof (induction "card (mg_left m)" arbitrary: m rule: less_induct)
  case less
  let ?cur = "mg_current_doc m"
  have fin: "finite (mg_left m)" "mg_left m \<subseteq> {..<u64_max}" using mg_left_bound [OF less.prems(1)] by auto
  have cur: "?cur = Min (mg_left m)" using current_doc less.prems by simp
  then have in_left: "?cur \<in> mg_left m" using fin less.prems(3) by (simp add: Min_in)
  show ?case
  proof (cases "?cur < t")
    case False
    have "t \<le> d" if "d \<in> mg_left m" for d using Min_le [OF fin(1) that] False cur by linarith
    then have all: "{d \<in> mg_left m. t \<le> d} = mg_left m" by blast
    have "?cur \<noteq> u64_max" using in_left fin(2) by force
    then have "skip_loop_to c t m = Some (True, m)" using False by (subst skip_loop_to.simps) simp
    with less.prems show ?thesis unfolding all by (simp add: steps_to_def mg_on_def)
  next
    case True
    obtain m' where m': "merged_advance c m = Some (mg_left m - {?cur} \<noteq> {}, m')" "mg_inv m'"
      "mg_left m' = mg_left m - {?cur}" "mg_started m' = mg_started m"
      using advance_ok [OF less.prems(1,3)] by blast
    have same: "{d \<in> mg_left m. t \<le> d} = {d \<in> mg_left m'. t \<le> d}"
      unfolding m'(3) using True by (metis (no_types, lifting) Diff_iff leD singletonD)
    show ?thesis
    proof (cases "mg_left m' = {}")
      case empty: True
      then have "skip_loop_to c t m = Some (False, m')"
        using m'(1,3) True by (subst skip_loop_to.simps) simp
      with empty show ?thesis unfolding same by (simp add: steps_to_def)
    next
      case False
      then have "skip_loop_to c t m = skip_loop_to c t m'"
        using m'(1,3) True by (subst skip_loop_to.simps) simp
      moreover have "card (mg_left m') < card (mg_left m)"
        unfolding m'(3) using fin(1) in_left by (rule card_Diff1_less)
      ultimately show ?thesis
        using less.hyps [of m'] m'(2,4) less.prems(2) False unfolding same by simp
    qed
  qed
qed

lemma mg_started_update [simp]:
  "mg_inv (m\<lparr>mg_started := b\<rparr>) = mg_inv m" "mg_left (m\<lparr>mg_started := b\<rparr>) = mg_left m"
  by (simp_all add: mg_inv_def mg_left_def)

lemma is_drained_iff: "mg_inv m \<Longrightarrow> is_drained (mg_inner m) \<longleftrightarrow> mg_left m = {}"
  using spread_empty [of "wrappers (mg_inner m)"] by (cases "mg_inner m") (auto simp: mg_inv_def mg_left_def)

lemma merged_cursor_laws: "posting_cursor (merged_cursor c) mg_fresh mg_on mg_left"
proof
  fix m t
  show "steps_to mg_on mg_left (cu_next (merged_cursor c) m) (mg_left m)" if "mg_fresh m"
    using that is_drained_iff [of m]
    by (auto simp: mg_fresh_def merged_cursor_def merged_next_def steps_to_def mg_on_def)
  assume on: "mg_on m"
  then have m: "mg_inv m" "mg_started m" "mg_left m \<noteq> {}" by (auto simp: mg_on_def)
  show "finite (mg_left m) \<and> mg_left m \<noteq> {} \<and> mg_left m \<subseteq> {..<u64_max}"
    using mg_left_bound m by blast
  show "cu_doc_id (merged_cursor c) m = Min (mg_left m)" using current_doc m by (simp add: merged_cursor_def)
  obtain m' where "merged_advance c m = Some (mg_left m - {mg_current_doc m} \<noteq> {}, m')" "mg_inv m'"
      "mg_left m' = mg_left m - {mg_current_doc m}" "mg_started m' = mg_started m"
    using advance_ok [OF m(1,3)] by blast
  with m(2) show "steps_to mg_on mg_left (cu_next (merged_cursor c) m) (mg_left m - {cu_doc_id (merged_cursor c) m})"
    unfolding steps_to_def merged_cursor_def merged_next_def mg_on_def by simp
  show "steps_to mg_on mg_left (cu_skip_to (merged_cursor c) t m) {d \<in> mg_left m. t \<le> d}"
    using skip_loop_ok [of "m\<lparr>mg_started := True\<rparr>" t] m by (simp add: merged_cursor_def merged_skip_to_def)
qed

lemma start_wrappers_ok:
  assumes "\<forall>it \<in> set its. fresh it" "\<forall>it \<in> set its. finite (left it)"
    "sorted_wrt (\<lambda>a b. left a \<inter> left b = {}) its"
  shows "\<exists>ws. start_wrappers c its = Some ws \<and> (\<forall>w \<in> set ws. wrapper_ok w) \<and>
    spread ws = mset_set (\<Union> (left ` set its))"
  using assms
proof (induction its)
  case (Cons it its)
  then obtain ws where ws: "start_wrappers c its = Some ws" "\<forall>w \<in> set ws. wrapper_ok w"
    "spread ws = mset_set (\<Union> (left ` set its))" by auto
  have "fresh it" using Cons.prems by simp
  from start_law [OF this] obtain i where i: "cu_next c it = Some (left it \<noteq> {}, i)"
    "left it \<noteq> {} \<longrightarrow> on i \<and> left i = left it" by (auto simp: steps_to_def)
  have "left it \<inter> \<Union> (left ` set its) = {}" using Cons.prems(3) by auto
  then have "mset_set (\<Union> (left ` set (it # its))) = mset_set (left it) + mset_set (\<Union> (left ` set its))"
    using Cons.prems(2) by (simp add: mset_set_Union)
  with ws i show ?case
    by (cases "left it = {}") (auto simp: spread_def wrapper_ok_def)
qed (simp add: spread_def)

lemma merged_new_ok:
  assumes "\<forall>it \<in> set its. fresh it" "\<forall>it \<in> set its. finite (left it)"
    "sorted_wrt (\<lambda>a b. left a \<inter> left b = {}) its"
  shows "\<exists>m. merged_new c its = Some m \<and> mg_fresh m \<and> mg_left m = \<Union> (left ` set its)"
proof -
  from start_wrappers_ok [OF assms] obtain ws where ws: "start_wrappers c its = Some ws"
    "\<forall>w \<in> set ws. wrapper_ok w" "spread ws = mset_set (\<Union> (left ` set its))" by blast
  have w: "wrappers (merge_impl_of ws) = ws" "min_found (merge_impl_of ws)"
    by (simp_all add: merge_impl_of_def min_found_def)
  have "finite (\<Union> (left ` set its))" using assms(2) by simp
  from rewrapped [of "merge_impl_of ws" _ False, unfolded w, OF ws(2,3) this] ws(1) show ?thesis
    by (simp add: merged_new_def mg_fresh_def w(2))
qed

end

interpretation merged: posting_cursor "merged_cursor it_cursor" it.mg_fresh it.mg_on it.mg_left
  by (rule it.merged_cursor_laws)

text \<open>
  C32. The postings of a term in several segments, read as one stream, are those of all of them in
  ascending order: the merged iterator is built and run to its end, and lists the union, whichever of
  its two strategies the number of segments selects.
\<close>

theorem merged_postings_in_order:
  assumes "\<forall>ds \<in> set dss. sorted_wrt (<) ds \<and> (\<forall>d \<in> set ds. d \<le> u32_max)"
    and "sorted_wrt (\<lambda>as bs. set as \<inter> set bs = {}) dss" and "length (concat dss) \<le> fuel"
  shows "Option.bind (merged_new it_cursor (map posting_iterator_new dss)) (\<lambda>m.
      Option.bind (posting_matcher_new (merged_cursor it_cursor) m) (matched_docs (posting_vt (merged_cursor it_cursor)) fuel))
    = Some (sorted_list_of_set (\<Union> (set ` set dss)))"
proof -
  have fresh: "\<forall>it \<in> set (map posting_iterator_new dss). it_fresh it"
    "\<forall>it \<in> set (map posting_iterator_new dss). finite (it_left it)"
    "it_left ` set (map posting_iterator_new dss) = set ` set dss"
    using assms(1) by (auto simp: iterator_new_fresh image_image)
  have "sorted_wrt (\<lambda>a b. it_left a \<inter> it_left b = {}) (map posting_iterator_new dss)"
    using assms(1,2) by (induction dss) (auto simp: iterator_new_fresh)
  from it.merged_new_ok [OF fresh(1,2) this] obtain m where
    m: "merged_new it_cursor (map posting_iterator_new dss) = Some m" "it.mg_fresh m" "it.mg_left m = \<Union> (set ` set dss)"
    unfolding fresh(3) by blast
  from merged.posting_matcher_new_ok [OF m(2)] obtain p where
    p: "posting_matcher_new (merged_cursor it_cursor) m = Some p" "pm_inv it.mg_on p" "pm_docs it.mg_left p = \<Union> (set ` set dss)"
    unfolding m(3) by blast
  have "card (\<Union> (set ` set dss)) \<le> fuel"
    using assms(3) card_length [of "concat dss"] by simp
  with matcher.matched_docs_sorted [OF merged.posting_matcher p(2)] show ?thesis by (simp add: m(1) p(1,3))
qed

lemma merged_postings_in_order_witness:
  "Option.bind (merged_new it_cursor (map posting_iterator_new [[3, 7], [1, 9], []])) (\<lambda>m.
      Option.bind (posting_matcher_new (merged_cursor it_cursor) m) (matched_docs (posting_vt (merged_cursor it_cursor)) 4))
    = Some [1, 3, 7, 9]"
  using merged_postings_in_order [of "[[3, 7], [1, 9], []]" 4] by (simp add: u32_max_def insert_commute)

end
