(* ===== verification/Index_Reader.thy ===== *)
theory Index_Reader
  imports Segment_Postings Merged_Postings Boolean_Query
begin

text \<open>
  The reader of an index over its segments, \<open>InvertedIndexReader\<close> of
  \<^verbatim>\<open>laurus/src/lexical/index/inverted/reader.rs\<close>: the postings of a term in all segments, the matcher of a
  term query (\<^verbatim>\<open>laurus/src/lexical/query/term.rs\<close>), the documents of a query with their cache
  (\<^verbatim>\<open>laurus/src/lexical/index/inverted/query_cache.rs\<close>), and what boolean queries are given by it and by
  the view of a single segment (\<^verbatim>\<open>laurus/src/lexical/index/inverted/per_segment_view.rs\<close>).
\<close>

section \<open>Boxed posting iterators\<close>

text \<open>A \<open>Box<dyn PostingIterator>\<close> that is one of two kinds.\<close>

definition boxed_cursor :: "'a cursor \<Rightarrow> 'b cursor \<Rightarrow> ('a + 'b) cursor" where
  "boxed_cursor c d = \<lparr>cu_doc_id = case_sum (cu_doc_id c) (cu_doc_id d),
     cu_next = case_sum (\<lambda>i. map_option (map_prod id Inl) (cu_next c i)) (\<lambda>i. map_option (map_prod id Inr) (cu_next d i)),
     cu_skip_to = \<lambda>t. case_sum (\<lambda>i. map_option (map_prod id Inl) (cu_skip_to c t i))
       (\<lambda>i. map_option (map_prod id Inr) (cu_skip_to d t i))\<rparr>"

lemma steps_to_boxed:
  "steps_to on left r X \<Longrightarrow> steps_to (case_sum on on') (case_sum left left') (map_option (map_prod id Inl) r) X"
  "steps_to on' left' r' X \<Longrightarrow> steps_to (case_sum on on') (case_sum left left') (map_option (map_prod id Inr) r') X"
  by (auto simp: steps_to_def)

lemma boxed_cursor_laws:
  assumes "posting_cursor c fresh on left" "posting_cursor d fresh' on' left'"
  shows "posting_cursor (boxed_cursor c d) (case_sum fresh fresh') (case_sum on on') (case_sum left left')"
proof
  note laws = assms [THEN posting_cursor.start_law] assms [THEN posting_cursor.left_bound]
    assms [THEN posting_cursor.stands_law] assms [THEN posting_cursor.cu_next_law] assms [THEN posting_cursor.cu_skip_to_law]
  fix i t
  show "steps_to (case_sum on on') (case_sum left left') (cu_next (boxed_cursor c d) i) (case_sum left left' i)"
    if "case_sum fresh fresh' i"
    using that laws(1,2) by (cases i) (simp_all add: boxed_cursor_def steps_to_boxed)
  assume i: "case_sum on on' i"
  show "finite (case_sum left left' i) \<and> case_sum left left' i \<noteq> {} \<and> case_sum left left' i \<subseteq> {..<u64_max}"
    using i laws(3,4) by (cases i) simp_all
  show "cu_doc_id (boxed_cursor c d) i = Min (case_sum left left' i)"
    using i laws(5,6) by (cases i) (simp_all add: boxed_cursor_def)
  show "steps_to (case_sum on on') (case_sum left left') (cu_next (boxed_cursor c d) i)
      (case_sum left left' i - {cu_doc_id (boxed_cursor c d) i})"
    using i laws(7,8) by (cases i) (simp_all add: boxed_cursor_def steps_to_boxed)
  show "steps_to (case_sum on on') (case_sum left left') (cu_skip_to (boxed_cursor c d) t i)
      {d \<in> case_sum left left' i. t \<le> d}"
    using i laws(9,10) by (cases i) (simp_all add: boxed_cursor_def steps_to_boxed)
qed

text \<open>The iterator over a segment's list, or the one that merges several.\<close>

type_synonym index_iterator = "posting_iterator + posting_iterator merged_iterator"

definition index_cursor :: "index_iterator cursor" where
  "index_cursor = boxed_cursor it_cursor (merged_cursor it_cursor)"

definition ix_fresh :: "index_iterator \<Rightarrow> bool" where "ix_fresh = case_sum it_fresh it.mg_fresh"

definition ix_on :: "index_iterator \<Rightarrow> bool" where "ix_on = case_sum it_on it.mg_on"

definition ix_left :: "index_iterator \<Rightarrow> nat set" where "ix_left = case_sum it_left it.mg_left"

interpretation ix: posting_cursor index_cursor ix_fresh ix_on ix_left
  unfolding index_cursor_def ix_fresh_def ix_on_def ix_left_def
  by (rule boxed_cursor_laws) (unfold_locales)

section \<open>The postings of a term in an index\<close>

fun collect_iterators ::
    "(decoded_posting_list, 'c) lru_ops \<Rightarrow> bitpacker \<Rightarrow> bytes \<Rightarrow> bytes \<Rightarrow> 'c segment_reader list \<Rightarrow>
     (posting_iterator list res \<times> 'c segment_reader list) option" where
  "collect_iterators lru bp field t [] = Some (Inr [], [])"
| "collect_iterators lru bp field t (r # rs) =
     (case seg_postings lru bp field t r of
        None \<Rightarrow> None
      | Some (Inl e, r') \<Rightarrow> Some (Inl e, r' # rs)
      | Some (Inr found, r') \<Rightarrow>
          map_option (\<lambda>(x, rs'). (map_sum id (\<lambda>its. case found of None \<Rightarrow> its | Some it \<Rightarrow> it # its) x, r' # rs'))
            (collect_iterators lru bp field t rs))"

definition merge_iterators :: "posting_iterator list \<Rightarrow> index_iterator option option" where
  "merge_iterators its =
     (case its of
        [] \<Rightarrow> Some None
      | [it] \<Rightarrow> Some (Some (Inl it))
      | _ \<Rightarrow> map_option (\<lambda>m. Some (Inr m)) (merged_new it_cursor its))"

text \<open>The index reader; its statistics and the caches of these are left out.\<close>

record ('c, 'd) index_reader =
  ix_segments :: "'c segment_reader list"
  ix_query_cache :: "'d query_filter_cache"
  ix_closed :: bool

definition reader_closed :: laurus_error where "reader_closed = Index ''Reader is closed''"

definition ix_postings ::
    "(decoded_posting_list, 'c) lru_ops \<Rightarrow> bitpacker \<Rightarrow> bytes \<Rightarrow> bytes \<Rightarrow> ('c, 'd) index_reader \<Rightarrow>
     (index_iterator option res \<times> ('c, 'd) index_reader) option" where
  "ix_postings lru bp field t x =
     (if ix_closed x then Some (Inl reader_closed, x)
      else case collect_iterators lru bp field t (ix_segments x) of
             None \<Rightarrow> None
           | Some (Inl e, rs) \<Rightarrow> Some (Inl e, x\<lparr>ix_segments := rs\<rparr>)
           | Some (Inr its, rs) \<Rightarrow> map_option (\<lambda>it. (Inr it, x\<lparr>ix_segments := rs\<rparr>)) (merge_iterators its))"

text \<open>\<open>TermQuery::matcher\<close>, given the postings of its term.\<close>

type_synonym term_matcher = "index_iterator posting_matcher + unit"

definition term_vt :: "term_matcher vtable" where
  "term_vt = boxed_vt (posting_vt index_cursor) empty_vt"

definition matcher_on :: "index_iterator option \<Rightarrow> term_matcher option" where
  "matcher_on it = (case it of None \<Rightarrow> Some (Inr ()) | Some i \<Rightarrow> map_option Inl (posting_matcher_new index_cursor i))"

definition ix_term_matcher ::
    "(decoded_posting_list, 'c) lru_ops \<Rightarrow> bitpacker \<Rightarrow> bytes \<times> bytes \<Rightarrow> ('c, 'd) index_reader \<Rightarrow>
     (term_matcher res \<times> ('c, 'd) index_reader) option" where
  "ix_term_matcher lru bp q x =
     (case ix_postings lru bp (fst q) (snd q) x of
        None \<Rightarrow> None
      | Some (Inl e, x') \<Rightarrow> Some (Inl e, x')
      | Some (Inr it, x') \<Rightarrow> map_option (\<lambda>m. (Inr m, x')) (matcher_on it))"

section \<open>The documents of a query\<close>

text \<open>\<open>drain_matcher\<close>: the loop that puts every document of a matcher into a bitmap.\<close>

partial_function (option) drain_loop :: "'s vtable \<Rightarrow> 's \<Rightarrow> nat set \<Rightarrow> nat set res option" where
  "drain_loop v s bitmap =
     (if vt_is_exhausted v s then Some (Inr bitmap)
      else if vt_doc_id v s = u64_max then Some (Inr bitmap)
      else case vt_next v s of
             None \<Rightarrow> None
           | Some (Inl e, _) \<Rightarrow> Some (Inl e)
           | Some (Inr go, s') \<Rightarrow>
               if go then drain_loop v s' (insert (vt_doc_id v s) bitmap)
               else Some (Inr (insert (vt_doc_id v s) bitmap)))"

definition drain_matcher :: "'s vtable \<Rightarrow> 's \<Rightarrow> nat set res option" where
  "drain_matcher v s = drain_loop v s {}"

text \<open>The cache key of a term query, where \<open>dbg\<close> is the \<open>Debug\<close> format of a string.\<close>

definition term_cache_key :: "(bytes \<Rightarrow> bytes) \<Rightarrow> bytes \<times> bytes \<Rightarrow> bytes" where
  "term_cache_key dbg q = [116, 101, 114, 109, 124] @ dbg (fst q) @ 124 # dbg (snd q)"

definition drain_matching ::
    "(decoded_posting_list, 'c) lru_ops \<Rightarrow> bitpacker \<Rightarrow> bytes \<times> bytes \<Rightarrow> ('c, 'd) index_reader \<Rightarrow>
     (nat set res \<times> ('c, 'd) index_reader) option" where
  "drain_matching lru bp q x =
     (case ix_term_matcher lru bp q x of
        None \<Rightarrow> None
      | Some (Inl e, x') \<Rightarrow> Some (Inl e, x')
      | Some (Inr m, x') \<Rightarrow> map_option (\<lambda>ids. (ids, x')) (drain_matcher term_vt m))"

definition matching_doc_ids ::
    "(decoded_posting_list, 'c) lru_ops \<Rightarrow> (nat set, 'd) lru_ops \<Rightarrow> bitpacker \<Rightarrow> (bytes \<Rightarrow> bytes) \<Rightarrow> bytes \<times> bytes \<Rightarrow>
     ('c, 'd) index_reader \<Rightarrow> (nat set res \<times> ('c, 'd) index_reader) option" where
  "matching_doc_ids lru qlru bp dbg q x =
     (let key = term_cache_key dbg q; (hit, cache) = query_cache_get qlru key (ix_query_cache x);
          x = x\<lparr>ix_query_cache := cache\<rparr>
      in case hit of
           Some ids \<Rightarrow> Some (Inr ids, x)
         | None \<Rightarrow>
             (case drain_matching lru bp q x of
                None \<Rightarrow> None
              | Some (Inl e, x') \<Rightarrow> Some (Inl e, x')
              | Some (Inr ids, x') \<Rightarrow>
                  Some (Inr ids, x'\<lparr>ix_query_cache := query_cache_put qlru key ids (ix_query_cache x')\<rparr>)))"

section \<open>What the segments hold\<close>

text \<open>The documents a segment, and an index, answer a term with.\<close>

definition seg_docs :: "bitpacker \<Rightarrow> bytes \<times> bytes \<Rightarrow> 'c segment_reader \<Rightarrow> nat set" where
  "seg_docs bp q r = (case plain_postings bp r (fst q) (snd q) of Inr (Some it) \<Rightarrow> it_left it | _ \<Rightarrow> {})"

definition index_docs :: "bitpacker \<Rightarrow> 'c segment_reader list \<Rightarrow> bytes \<times> bytes \<Rightarrow> nat set" where
  "index_docs bp rs q = (\<Union>r \<in> set rs. seg_docs bp q r)"

text \<open>
  Segments an index can be searched over: each holds documents, its lists name live ones of them, no
  document is live in two, and the scan that replaces a missing \<open>.post\<close> part gives fresh iterators.
\<close>

definition live_of :: "('c segment_reader \<Rightarrow> nat set) \<Rightarrow> 'c segment_reader \<Rightarrow> nat set" where
  "live_of H r = H r - marked_ids (rd_ids r)"

definition scans_fresh :: "'c segment_reader \<Rightarrow> bool" where
  "scans_fresh r \<longleftrightarrow> (\<forall>field t it. rd_post r = None \<longrightarrow> rd_scan r field t = Inr (Some it) \<longrightarrow> it_fresh it)"

definition served :: "bitpacker \<Rightarrow> ('c segment_reader \<Rightarrow> nat set) \<Rightarrow> 'c segment_reader list \<Rightarrow> bool" where
  "served bp H rs \<longleftrightarrow> fills_blocks bp \<and> sorted_wrt (\<lambda>r r'. live_of H r \<inter> live_of H r' = {}) rs \<and>
     (\<forall>r \<in> set rs. really_holds (rd_ids r) (H r) \<and> (\<forall>q. seg_docs bp q r \<subseteq> live_of H r) \<and> scans_fresh r)"

lemma plain_fresh:
  assumes "fills_blocks bp" "scans_fresh r" "plain_postings bp r field t = Inr (Some it)"
  shows "it_fresh it"
proof (cases "rd_post r")
  case None
  with assms(2,3) show ?thesis by (auto simp: plain_postings_def scans_fresh_def)
next
  case (Some content)
  with assms(3) obtain d where "stored_postings bp r content field t = Inr (Some d)" "it = iterator_of d"
    by (cases "stored_postings bp r content field t") (auto simp: plain_postings_def)
  with stored_postings_ok(1) [OF assms(1)] show ?thesis by blast
qed

fun found_iterators :: "bitpacker \<Rightarrow> bytes \<Rightarrow> bytes \<Rightarrow> 'c segment_reader list \<Rightarrow> posting_iterator list res" where
  "found_iterators bp field t [] = Inr []"
| "found_iterators bp field t (r # rs) =
     rbind (plain_postings bp r field t) (\<lambda>found.
       map_sum id (\<lambda>its. case found of None \<Rightarrow> its | Some it \<Rightarrow> it # its) (found_iterators bp field t rs))"

definition term_error :: "bitpacker \<Rightarrow> 'c segment_reader list \<Rightarrow> bytes \<times> bytes \<Rightarrow> laurus_error \<Rightarrow> bool" where
  "term_error bp rs q e \<longleftrightarrow> (\<exists>r \<in> set rs. plain_postings bp r (fst q) (snd q) = Inl e)"

lemma served_Cons: "served bp H (r # rs) \<Longrightarrow> served bp H rs"
  by (auto simp: served_def)

lemma found_ok:
  assumes "served bp H rs"
  shows "case found_iterators bp field t rs of
      Inl e \<Rightarrow> term_error bp rs (field, t) e
    | Inr its \<Rightarrow> (\<forall>it \<in> set its. it_fresh it) \<and> sorted_wrt (\<lambda>a b. it_left a \<inter> it_left b = {}) its \<and>
        \<Union> (it_left ` set its) = index_docs bp rs (field, t)"
  using assms
proof (induction rs)
  case Nil
  then show ?case by (simp add: index_docs_def)
next
  case (Cons r rs)
  note IH = Cons.IH [OF served_Cons [OF Cons.prems]]
  show ?case
  proof (cases "plain_postings bp r field t")
    case (Inl e)
    then show ?thesis by (simp add: term_error_def)
  next
    case found: (Inr found)
    show ?thesis
    proof (cases "found_iterators bp field t rs")
      case (Inl e)
      with IH found show ?thesis by (auto simp: term_error_def)
    next
      case (Inr its)
      have docs: "seg_docs bp (field, t) r = (case found of None \<Rightarrow> {} | Some it \<Rightarrow> it_left it)"
        using found by (simp add: seg_docs_def split: option.split)
      have "seg_docs bp (field, t) r \<inter> index_docs bp rs (field, t) = {}"
        using Cons.prems by (fastforce simp: served_def index_docs_def)
      then have disjoint: "it_left it \<inter> it_left b = {}" if "found = Some it" "b \<in> set its" for it b
        using that IH Inr docs by fastforce
      have "it_fresh it" if "found = Some it" for it
        using that plain_fresh [of bp r field t it] found Cons.prems by (simp add: served_def)
      with IH Inr found docs disjoint show ?thesis
        by (cases found) (auto simp: index_docs_def)
    qed
  qed
qed

lemma merge_iterators_ok:
  assumes "\<forall>it \<in> set its. it_fresh it" "sorted_wrt (\<lambda>a b. it_left a \<inter> it_left b = {}) its"
  shows "\<exists>x. merge_iterators its = Some x \<and>
    (case x of None \<Rightarrow> its = [] | Some i \<Rightarrow> ix_fresh i \<and> ix_left i = \<Union> (it_left ` set its))"
proof -
  have fin: "\<forall>it \<in> set its. finite (it_left it)" by (simp add: it_left_def)
  consider "its = []" | it where "its = [it]" | a b cs where "its = a # b # cs"
    by (cases its rule: remdups_adj.cases) auto
  then show ?thesis
  proof cases
    case 3
    from it.merged_new_ok [OF assms(1) fin assms(2)] 3 show ?thesis
      by (auto simp: merge_iterators_def ix_fresh_def ix_left_def)
  qed (use assms(1) in \<open>simp_all add: merge_iterators_def ix_fresh_def ix_left_def\<close>)
qed

definition term_inv :: "term_matcher \<Rightarrow> bool" where "term_inv = case_sum (pm_inv ix_on) (\<lambda>_. True)"

definition term_docs :: "term_matcher \<Rightarrow> nat set" where "term_docs = case_sum (pm_docs ix_left) (\<lambda>_. {})"

interpretation leaf: matcher term_vt term_inv term_docs
  unfolding term_vt_def term_inv_def term_docs_def
  by (rule boxed_matcher [OF ix.posting_matcher]) unfold_locales

lemma matcher_on_ok:
  assumes "case it of None \<Rightarrow> X = {} | Some i \<Rightarrow> ix_fresh i \<and> ix_left i = X"
  shows "\<exists>m. matcher_on it = Some m \<and> term_inv m \<and> term_docs m = X"
proof (cases it)
  case None
  then show ?thesis using assms by (simp add: matcher_on_def term_inv_def term_docs_def)
next
  case (Some i)
  with assms ix.posting_matcher_new_ok [of i] show ?thesis
    by (auto simp: matcher_on_def term_inv_def term_docs_def)
qed

text \<open>The matcher of a term query without the caches.\<close>

definition plain_term_matcher :: "bitpacker \<Rightarrow> 'c segment_reader list \<Rightarrow> bytes \<times> bytes \<Rightarrow> term_matcher res option" where
  "plain_term_matcher bp rs q =
     (case found_iterators bp (fst q) (snd q) rs of
        Inl e \<Rightarrow> Some (Inl e)
      | Inr its \<Rightarrow> Option.bind (merge_iterators its) (\<lambda>it. map_option Inr (matcher_on it)))"

lemma plain_term_matcher_ok:
  assumes "served bp H rs"
  shows "\<exists>x. plain_term_matcher bp rs q = Some x \<and>
    (case x of Inl e \<Rightarrow> term_error bp rs q e | Inr m \<Rightarrow> term_inv m \<and> term_docs m = index_docs bp rs q)"
proof (cases "found_iterators bp (fst q) (snd q) rs")
  case (Inl e)
  with found_ok [OF assms, of "fst q" "snd q"] show ?thesis by (simp add: plain_term_matcher_def)
next
  case (Inr its)
  with found_ok [OF assms, of "fst q" "snd q"] have its: "\<forall>it \<in> set its. it_fresh it"
    "sorted_wrt (\<lambda>a b. it_left a \<inter> it_left b = {}) its" "\<Union> (it_left ` set its) = index_docs bp rs q" by simp_all
  from merge_iterators_ok [OF its(1,2)] obtain it where it: "merge_iterators its = Some it"
    "case it of None \<Rightarrow> its = [] | Some i \<Rightarrow> ix_fresh i \<and> ix_left i = \<Union> (it_left ` set its)" by blast
  have "case it of None \<Rightarrow> index_docs bp rs q = {} | Some i \<Rightarrow> ix_fresh i \<and> ix_left i = index_docs bp rs q"
    using it(2) its(3) by (auto split: option.splits)
  from matcher_on_ok [OF this] Inr it(1) show ?thesis by (auto simp: plain_term_matcher_def)
qed

context matcher
begin

lemma drain_loop_docs: "inv s \<Longrightarrow> drain_loop v s bitmap = Some (Inr (bitmap \<union> docs s))"
proof (induction "card (docs s)" arbitrary: s bitmap rule: less_induct)
  case less
  show ?case
  proof (cases "docs s = {}")
    case True
    then show ?thesis using exhausted_law [OF less.prems] by (simp add: drain_loop.simps)
  next
    case False
    obtain s' where s': "vt_next v s = Some (Inr (docs s' \<noteq> {}), s')" "inv s'" "docs s' = docs s - {vt_doc_id v s}"
      using next_law [OF less.prems] by blast
    have d: "vt_doc_id v s \<in> docs s" "vt_doc_id v s \<noteq> u64_max"
      using doc_id_in [OF less.prems False] doc_id_max [OF less.prems] False by simp_all
    have "card (docs s') < card (docs s)"
      using d(1) s'(3) docs_bound [OF less.prems] by (metis card_Diff1_less)
    from less.hyps [OF this s'(2)] have "drain_loop v s' (insert (vt_doc_id v s) bitmap) =
        Some (Inr (insert (vt_doc_id v s) bitmap \<union> docs s'))" .
    moreover have "insert (vt_doc_id v s) bitmap \<union> docs s' = bitmap \<union> docs s" using d(1) s'(3) by auto
    ultimately show ?thesis
      using False d s' exhausted_law [OF less.prems] by (subst drain_loop.simps) auto
  qed
qed

lemma drain_matcher_docs: "inv s \<Longrightarrow> drain_matcher v s = Some (Inr (docs s))"
  by (simp add: drain_matcher_def drain_loop_docs)

end

section \<open>The caches do not change what is found\<close>

definition same_files :: "'c segment_reader \<Rightarrow> 'c segment_reader \<Rightarrow> bool" where
  "same_files r' r \<longleftrightarrow> rd_ids r' = rd_ids r \<and> rd_dict r' = rd_dict r \<and> rd_post r' = rd_post r \<and>
     rd_scan r' = rd_scan r \<and> rd_lends r' = rd_lends r"

lemma same_filesD:
  assumes "same_files r' r"
  shows "plain_postings bp r' field t = plain_postings bp r field t"
proof -
  have eqs: "rd_ids r' = rd_ids r" "rd_dict r' = rd_dict r" "rd_post r' = rd_post r" "rd_scan r' = rd_scan r"
    "rd_lends r' = rd_lends r" using assms by (simp_all add: same_files_def)
  show ?thesis
    unfolding plain_postings_def stored_postings_def rd_term_info_def load_list_def check_posting_list_def in_segment_def
      rd_info_def eqs ..
qed

lemma same_files_docs: "list_all2 same_files rs' rs \<Longrightarrow> index_docs bp rs' q = index_docs bp rs q \<and>
    found_iterators bp field t rs' = found_iterators bp field t rs"
  by (induction rule: list_all2_induct) (auto simp: index_docs_def seg_docs_def same_filesD)

definition segments_ok ::
    "bitpacker \<Rightarrow> ('c \<Rightarrow> nat option) \<Rightarrow> ('c \<Rightarrow> (bytes \<times> decoded_posting_list) list) \<Rightarrow> 'c segment_reader list \<Rightarrow> bool" where
  "segments_ok bp cap entries rs \<longleftrightarrow> (\<forall>r \<in> set rs. cache_ok bp cap entries r)"

lemma collect_agrees:
  assumes lru: "lru_behaves lru cap entries" and field: "1 \<notin> set field"
  shows "segments_ok bp cap entries rs \<Longrightarrow>
    \<exists>rs'. collect_iterators lru bp field t rs = Some (found_iterators bp field t rs, rs') \<and>
      list_all2 same_files rs' rs \<and> segments_ok bp cap entries rs'"
proof (induction rs)
  case Nil
  then show ?case by (simp add: segments_ok_def)
next
  case (Cons r rs)
  have "cache_ok bp cap entries r" using Cons.prems by (simp add: segments_ok_def)
  from cached_postings_spec [OF lru this field, of t] obtain r' where
    r': "seg_postings lru bp field t r = Some (plain_postings bp r field t, r')" "cache_ok bp cap entries r'" "same_files r' r"
    by (auto simp: same_files_def)
  from Cons obtain rs' where rs': "collect_iterators lru bp field t rs = Some (found_iterators bp field t rs, rs')"
    "list_all2 same_files rs' rs" "segments_ok bp cap entries rs'" by (auto simp: segments_ok_def)
  have refl: "list_all2 same_files rs rs" by (simp add: list.rel_refl same_files_def)
  show ?case
  proof (cases "plain_postings bp r field t")
    case (Inl e)
    with r' Cons.prems refl show ?thesis by (simp add: segments_ok_def)
  next
    case (Inr found)
    with r' rs' show ?thesis by (simp add: segments_ok_def)
  qed
qed

lemma ix_term_matcher_agrees:
  assumes "lru_behaves lru cap entries" "1 \<notin> set (fst q)" "segments_ok bp cap entries (ix_segments x)" "\<not> ix_closed x"
    and "plain_term_matcher bp (ix_segments x) q = Some m"
  obtains rs where
    "ix_term_matcher lru bp q x = Some (m, x\<lparr>ix_segments := rs\<rparr>)"
    "list_all2 same_files rs (ix_segments x)" "segments_ok bp cap entries rs"
proof -
  from collect_agrees [OF assms(1,2,3), of "snd q"] obtain rs where
    rs: "collect_iterators lru bp (fst q) (snd q) (ix_segments x) = Some (found_iterators bp (fst q) (snd q) (ix_segments x), rs)"
    "list_all2 same_files rs (ix_segments x)" "segments_ok bp cap entries rs" by blast
  with assms(4,5) have "ix_term_matcher lru bp q x = Some (m, x\<lparr>ix_segments := rs\<rparr>)"
    by (auto simp: ix_term_matcher_def ix_postings_def plain_term_matcher_def bind_eq_Some_conv split: sum.splits)
  from that [OF this rs(2,3)] show thesis .
qed

text \<open>What the query filter cache holds: the documents of a term query under its key.\<close>

definition qfc_entries :: "('d \<Rightarrow> (bytes \<times> nat set) list) \<Rightarrow> 'd query_filter_cache \<Rightarrow> (bytes \<times> nat set) list" where
  "qfc_entries entries s = (case qfc_inner s of None \<Rightarrow> [] | Some c \<Rightarrow> entries c)"

definition query_cache_ok ::
    "bitpacker \<Rightarrow> (bytes \<Rightarrow> bytes) \<Rightarrow> ('d \<Rightarrow> (bytes \<times> nat set) list) \<Rightarrow> 'c segment_reader list \<Rightarrow> 'd query_filter_cache \<Rightarrow> bool" where
  "query_cache_ok bp dbg qentries rs s \<longleftrightarrow>
     (\<forall>(key, ids) \<in> set (qfc_entries qentries s). \<exists>q. key = term_cache_key dbg q \<and> ids = index_docs bp rs q)"

lemma set_to_front: "set (to_front k es) \<subseteq> set es"
  by (auto simp: to_front_def without_key_def dest: map_of_SomeD split: option.splits)

lemma set_within: "set (within cap es) \<subseteq> set es"
  by (auto simp: within_def dest: in_set_takeD split: option.splits)

lemma query_cache_get_ok:
  assumes "lru_behaves lru cap entries" "query_cache_get lru key s = (hit, s')"
  shows "hit = map_of (qfc_entries entries s) key" "set (qfc_entries entries s') \<subseteq> set (qfc_entries entries s)"
proof -
  note laws = lruD [OF assms(1)]
  show "hit = map_of (qfc_entries entries s) key"
    using assms(2) laws(5) by (auto simp: query_cache_get_def qfc_entries_def split: option.splits prod.splits) (metis fst_conv)+
  show "set (qfc_entries entries s') \<subseteq> set (qfc_entries entries s)"
  proof (cases "qfc_inner s")
    case None
    with assms(2) show ?thesis by (auto simp: query_cache_get_def qfc_entries_def)
  next
    case (Some c)
    with assms(2) have "qfc_inner s' = Some (snd (lru_get lru key c))"
      by (auto simp: query_cache_get_def split: prod.splits if_splits)
    with Some laws(7) set_to_front [of key "entries c"] show ?thesis by (simp add: qfc_entries_def)
  qed
qed

lemma query_cache_put_ok:
  assumes "lru_behaves lru cap entries"
  shows "set (qfc_entries entries (query_cache_put lru key ids s)) \<subseteq> insert (key, ids) (set (qfc_entries entries s))"
proof (cases "qfc_inner s")
  case None
  then show ?thesis by (simp add: query_cache_put_def qfc_entries_def)
next
  case (Some c)
  have "set (within (cap c) ((key, ids) # without_key key (entries c))) \<subseteq> insert (key, ids) (set (entries c))"
    using set_within [of "cap c" "(key, ids) # without_key key (entries c)"] by (auto simp: without_key_def)
  with Some lruD(10) [OF assms] show ?thesis by (simp add: query_cache_put_def qfc_entries_def)
qed

text \<open>The \<open>Debug\<close> format of a string ends with the first quote it does not escape.\<close>

definition dbg_ok :: "(bytes \<Rightarrow> bytes) \<Rightarrow> bool" where
  "dbg_ok dbg \<longleftrightarrow> (\<forall>a b u v. dbg a @ u = dbg b @ v \<longrightarrow> a = b \<and> u = v)"

lemma term_cache_key_inj:
  assumes "dbg_ok dbg" "term_cache_key dbg q = term_cache_key dbg q'"
  shows "q = q'"
proof -
  have "dbg (fst q) @ 124 # dbg (snd q) = dbg (fst q') @ 124 # dbg (snd q')" using assms(2) by (simp add: term_cache_key_def)
  then have "fst q = fst q'" and d: "dbg (snd q) = dbg (snd q')"
    using assms(1) unfolding dbg_ok_def by blast+
  moreover have "snd q = snd q'" using d assms(1) unfolding dbg_ok_def by (metis append_Nil2)
  ultimately show ?thesis by (simp add: prod_eq_iff)
qed

definition reader_ok ::
    "bitpacker \<Rightarrow> (bytes \<Rightarrow> bytes) \<Rightarrow> ('c \<Rightarrow> nat option) \<Rightarrow> ('c \<Rightarrow> (bytes \<times> decoded_posting_list) list) \<Rightarrow>
     ('d \<Rightarrow> (bytes \<times> nat set) list) \<Rightarrow> ('c, 'd) index_reader \<Rightarrow> bool" where
  "reader_ok bp dbg cap entries qentries x \<longleftrightarrow> \<not> ix_closed x \<and> segments_ok bp cap entries (ix_segments x) \<and>
     query_cache_ok bp dbg qentries (ix_segments x) (ix_query_cache x)"

lemma matching_doc_ids_spec:
  assumes "lru_behaves lru cap entries" "lru_behaves qlru qcap qentries" "dbg_ok dbg"
    and "reader_ok bp dbg cap entries qentries x" "1 \<notin> set (fst q)"
    and "plain_term_matcher bp (ix_segments x) q = Some m"
    and "case m of Inl e \<Rightarrow> term_error bp (ix_segments x) q e
      | Inr m \<Rightarrow> term_inv m \<and> term_docs m = index_docs bp (ix_segments x) q"
  shows "\<exists>ids x'. matching_doc_ids lru qlru bp dbg q x = Some (ids, x') \<and> reader_ok bp dbg cap entries qentries x' \<and>
    list_all2 same_files (ix_segments x') (ix_segments x) \<and>
    (case ids of Inl e \<Rightarrow> term_error bp (ix_segments x) q e | Inr ids \<Rightarrow> ids = index_docs bp (ix_segments x) q)"
proof -
  let ?key = "term_cache_key dbg q" and ?rs = "ix_segments x"
  have ok: "\<not> ix_closed x" "segments_ok bp cap entries ?rs" "query_cache_ok bp dbg qentries ?rs (ix_query_cache x)"
    using assms(4) by (simp_all add: reader_ok_def)
  obtain hit cache where get: "query_cache_get qlru ?key (ix_query_cache x) = (hit, cache)"
    by (cases "query_cache_get qlru ?key (ix_query_cache x)")
  note got = query_cache_get_ok [OF assms(2) get]
  let ?x = "x\<lparr>ix_query_cache := cache\<rparr>"
  have cache: "query_cache_ok bp dbg qentries ?rs cache" using ok(3) got(2) unfolding query_cache_ok_def by blast
  have refl: "list_all2 same_files ?rs ?rs" by (simp add: list.rel_refl same_files_def)
  show ?thesis
  proof (cases hit)
    case (Some ids)
    then have "(?key, ids) \<in> set (qfc_entries qentries (ix_query_cache x))" using got(1) by (simp add: map_of_SomeD)
    from bspec [OF ok(3) [unfolded query_cache_ok_def] this] obtain q' where
      q': "?key = term_cache_key dbg q'" "ids = index_docs bp ?rs q'" by auto
    then have "ids = index_docs bp ?rs q" using term_cache_key_inj [OF assms(3) q'(1)] by simp
    with Some get cache ok refl show ?thesis by (simp add: matching_doc_ids_def reader_ok_def)
  next
    case None
    have "segments_ok bp cap entries (ix_segments ?x)" "\<not> ix_closed ?x" "plain_term_matcher bp (ix_segments ?x) q = Some m"
      using ok assms(6) by simp_all
    from ix_term_matcher_agrees [OF assms(1,5) this] obtain rs where
      m: "plain_term_matcher bp ?rs q = Some m" "ix_term_matcher lru bp q ?x = Some (m, ?x\<lparr>ix_segments := rs\<rparr>)"
      "list_all2 same_files rs ?rs" "segments_ok bp cap entries rs" using assms(6) by auto
    note found = assms(7)
    have docs: "index_docs bp rs = index_docs bp ?rs" using same_files_docs [OF m(3)] by blast
    show ?thesis
    proof (cases m)
      case (Inl e)
      with m(2-4) found get None cache ok docs show ?thesis
        by (simp add: matching_doc_ids_def drain_matching_def reader_ok_def query_cache_ok_def)
    next
      case (Inr l)
      with found have "drain_matcher term_vt l = Some (Inr (index_docs bp ?rs q))"
        using leaf.drain_matcher_docs [of l] by simp
      moreover have "query_cache_ok bp dbg qentries rs (query_cache_put qlru ?key (index_docs bp ?rs q) cache)"
        using cache query_cache_put_ok [OF assms(2), of ?key "index_docs bp ?rs q" cache]
        unfolding query_cache_ok_def docs by blast
      ultimately show ?thesis using Inr m(2-4) get None ok
        by (simp add: matching_doc_ids_def drain_matching_def reader_ok_def)
    qed
  qed
qed

text \<open>
  C26. The documents of a term query, resolved through the query filter cache and the posting caches of
  the segments, are those the segments hold live for the term; the call returns, its only errors are
  those of reading a segment, and it leaves the caches such that later calls do the same. The caches
  may be in whatever state earlier queries left them, as long as the field of the query, and those of
  the earlier ones, do not contain the character \<open>U+0001\<close> that separates field and term in a key of a
  posting cache (\<open>reader_ok\<close>; with it, another term's documents can be found). The reader is open.
\<close>

theorem matching_doc_ids_exact:
  assumes "lru_behaves lru cap entries" "lru_behaves qlru qcap qentries" "dbg_ok dbg"
    and "served bp H (ix_segments x)" "reader_ok bp dbg cap entries qentries x" "1 \<notin> set (fst q)"
  shows "\<exists>ids x'. matching_doc_ids lru qlru bp dbg q x = Some (ids, x') \<and> reader_ok bp dbg cap entries qentries x' \<and>
    list_all2 same_files (ix_segments x') (ix_segments x) \<and>
    (case ids of Inl e \<Rightarrow> term_error bp (ix_segments x) q e | Inr ids \<Rightarrow> ids = index_docs bp (ix_segments x) q)"
proof -
  from plain_term_matcher_ok [OF assms(4), of q] obtain m where "plain_term_matcher bp (ix_segments x) q = Some m"
    "case m of Inl e \<Rightarrow> term_error bp (ix_segments x) q e
      | Inr m \<Rightarrow> term_inv m \<and> term_docs m = index_docs bp (ix_segments x) q" by blast
  from matching_doc_ids_spec [OF assms(1-3,5,6) this] show ?thesis .
qed

section \<open>What a boolean query is given\<close>

text \<open>
  The calls of a boolean query over term queries, answered by the index reader, as total functions,
  since no call fails to return on segments that are served. Each call for a term finds the caches in
  some state, which is a parameter: \<open>X t\<close> is the reader as the call for \<open>t\<close> finds it. Whether a term
  query is empty takes the statistics, which are left out, as a parameter too.
\<close>

definition returned :: "'a res option \<Rightarrow> 'a res" where
  "returned x = (case x of Some r \<Rightarrow> r | None \<Rightarrow> Inl (Index ''does not return''))"

definition plain_matching :: "bitpacker \<Rightarrow> 'c segment_reader list \<Rightarrow> bytes \<times> bytes \<Rightarrow> nat set res" where
  "plain_matching bp rs q =
     (case plain_term_matcher bp rs q of
        Some (Inr m) \<Rightarrow> returned (drain_matcher term_vt m)
      | Some (Inl e) \<Rightarrow> Inl e
      | None \<Rightarrow> returned None)"

definition ix_live_doc_ids :: "('c, 'd) index_reader \<Rightarrow> nat set res" where
  "ix_live_doc_ids x =
     (if ix_closed x then Inl reader_closed else ir_live_doc_ids (map rd_ids (ix_segments x)))"

definition reader_ops ::
    "(decoded_posting_list, 'c) lru_ops \<Rightarrow> (nat set, 'd) lru_ops \<Rightarrow> bitpacker \<Rightarrow> (bytes \<Rightarrow> bytes) \<Rightarrow>
     (bytes \<times> bytes \<Rightarrow> bool res) \<Rightarrow> ('c, 'd) index_reader \<Rightarrow> (bytes \<times> bytes \<Rightarrow> ('c, 'd) index_reader) \<Rightarrow>
     (bytes \<times> bytes, term_matcher) search_ops" where
  "reader_ops lru qlru bp dbg empties x X =
     \<lparr>op_matcher = \<lambda>t. returned (map_option fst (ix_term_matcher lru bp t (X t))),
      op_cache_key = \<lambda>t. Some (term_cache_key dbg t),
      op_cached_filter_doc_ids = \<lambda>t. map_sum id (\<lambda>ids. Some (sorted_list_of_set ids))
        (returned (map_option fst (matching_doc_ids lru qlru bp dbg t (X t)))),
      op_is_empty = empties, op_rewrite = \<lambda>_. Inr None,
      op_live_doc_ids = map_sum id sorted_list_of_set (ix_live_doc_ids x),
      op_doc_count = ir_doc_count (map rd_ids (ix_segments x))\<rparr>"

text \<open>The same without the caches, by decoding every posting list anew.\<close>

definition index_ops ::
    "(bytes \<Rightarrow> bytes) \<Rightarrow> (bytes \<times> bytes \<Rightarrow> bool res) \<Rightarrow> bitpacker \<Rightarrow> 'c segment_reader list \<Rightarrow>
     (bytes \<times> bytes, term_matcher) search_ops" where
  "index_ops dbg empties bp rs =
     \<lparr>op_matcher = \<lambda>q. returned (plain_term_matcher bp rs q),
      op_cache_key = \<lambda>q. Some (term_cache_key dbg q),
      op_cached_filter_doc_ids = \<lambda>q. map_sum id (\<lambda>ids. Some (sorted_list_of_set ids)) (plain_matching bp rs q),
      op_is_empty = empties, op_rewrite = \<lambda>_. Inr None,
      op_live_doc_ids = map_sum id sorted_list_of_set (ir_live_doc_ids (map rd_ids rs)),
      op_doc_count = ir_doc_count (map rd_ids rs)\<rparr>"

definition index_live :: "'c segment_reader list \<Rightarrow> nat set" where
  "index_live rs = (case ir_live_doc_ids (map rd_ids rs) of Inr live \<Rightarrow> live | Inl _ \<Rightarrow> {})"

lemma live_of_bound: "really_holds (rd_ids r) (H r) \<Longrightarrow> finite (live_of H r) \<and> live_of H r \<subseteq> {..<u64_max}"
  by (auto simp: really_holds_def live_of_def u64_max_def)

lemma index_docs_bound: "served bp H rs \<Longrightarrow> finite (index_docs bp rs q) \<and> index_docs bp rs q \<subseteq> {..<u64_max}"
proof -
  assume "served bp H rs"
  then have r: "finite (seg_docs bp q r) \<and> seg_docs bp q r \<subseteq> {..<u64_max}" if "r \<in> set rs" for r
  proof -
    have "really_holds (rd_ids r) (H r)" "seg_docs bp q r \<subseteq> live_of H r"
      using that \<open>served bp H rs\<close> by (cases q, simp add: served_def)+
    with live_of_bound [of r H] show ?thesis by (meson finite_subset subset_trans)
  qed
  then show ?thesis unfolding index_docs_def by blast
qed

lemma index_live_bound: "served bp H rs \<Longrightarrow> ir_live_doc_ids (map rd_ids rs) = Inr live \<Longrightarrow> finite live \<and> live \<subseteq> {..<u64_max}"
proof (induction rs arbitrary: live)
  case (Cons r rs)
  then obtain l live' where l: "sg_live_doc_ids (rd_ids r) = Inr l" "ir_live_doc_ids (map rd_ids rs) = Inr live'" "live = l \<union> live'"
    by (cases "ir_live_doc_ids (map rd_ids rs)") (auto simp: rbind_Inr_iff)
  have "really_holds (rd_ids r) (H r)" using Cons.prems(1) by (simp add: served_def)
  from sg_counts(3) [OF this l(1)] live_of_bound [of r H, OF this] have "finite l \<and> l \<subseteq> {..<u64_max}" by (simp add: live_of_def)
  with Cons.IH [OF served_Cons [OF Cons.prems(1)] l(2)] l(3) show ?case by simp
qed simp

lemma plain_matching_docs: "served bp H rs \<Longrightarrow> plain_matching bp rs q = Inr ids \<Longrightarrow> ids = index_docs bp rs q"
  using plain_term_matcher_ok [of bp H rs q] leaf.drain_matcher_docs
  by (fastforce simp: plain_matching_def returned_def split: sum.splits)

lemma plain_errors:
  assumes "served bp H rs"
  shows "returned (plain_term_matcher bp rs q) = Inl e \<Longrightarrow> term_error bp rs q e"
    "plain_matching bp rs q = Inl e \<Longrightarrow> term_error bp rs q e"
  using plain_term_matcher_ok [OF assms, of q] leaf.drain_matcher_docs
  by (fastforce simp: plain_matching_def returned_def split: sum.splits)+

lemma index_clauses:
  assumes "served bp H rs"
  shows "clause_source term_vt term_inv term_docs (index_ops dbg empties bp rs) (index_docs bp rs) (index_live rs)"
proof
  fix q m ids
  show "term_inv m \<and> term_docs m = index_docs bp rs q" if "op_matcher (index_ops dbg empties bp rs) q = Inr m"
    using that plain_term_matcher_ok [OF assms, of q] by (auto simp: index_ops_def returned_def)
  show "set ids = index_docs bp rs q" if "op_cached_filter_doc_ids (index_ops dbg empties bp rs) q = Inr (Some ids)"
    using that plain_matching_docs [OF assms, of q] index_docs_bound [OF assms, of q]
    by (cases "plain_matching bp rs q") (auto simp: index_ops_def)
  show "set ids = index_live rs" if "op_live_doc_ids (index_ops dbg empties bp rs) = Inr ids"
    using that index_live_bound [OF assms]
    by (cases "ir_live_doc_ids (map rd_ids rs)") (auto simp: index_ops_def index_live_def)
  show "index_docs bp rs q \<subseteq> {..<u64_max}" using index_docs_bound [OF assms] by blast
  show "index_live rs \<subseteq> {..<u64_max}"
    using index_live_bound [OF assms] by (auto simp: index_live_def split: sum.split)
qed

context clause_source
begin

lemma boolean_search:
  assumes "card (boolean_docs M live q) \<le> fuel"
  shows "\<exists>r. boolean_matcher v ops q = Some r \<and>
    (case r of
       Inl e \<Rightarrow> (\<exists>q. op_matcher ops q = Inl e \<or> op_cached_filter_doc_ids ops q = Inl e) \<or> op_live_doc_ids ops = Inl e
     | Inr m \<Rightarrow> matched_docs (boolean_vt v) fuel m = Some (sorted_list_of_set (boolean_docs M live q)))"
proof -
  from boolean_matcher_yields [of q] obtain r where r: "boolean_matcher v ops q = Some r"
    "case r of Inl e \<Rightarrow> source_error e | Inr m \<Rightarrow> boolean_ok (boolean_docs M live q) m" unfolding yields_def by blast
  have "matched_docs (boolean_vt v) fuel m = Some (sorted_list_of_set (boolean_docs M live q))"
    if "boolean_ok (boolean_docs M live q) m" for m
    using matcher.matched_docs_sorted [OF boolean_m, of m fuel] that assms by (simp add: boolean_ok_def)
  with r show ?thesis by (intro exI [of _ r]) (simp add: source_error_def split: sum.splits)
qed

end

lemma map_sum_Inl_iff [simp]: "map_sum id f x = Inl e \<longleftrightarrow> x = Inl e"
  by (cases x) simp_all

lemma index_ops_errors:
  assumes "served bp H rs"
    and "(\<exists>q. op_matcher (index_ops dbg empties bp rs) q = Inl e \<or>
        op_cached_filter_doc_ids (index_ops dbg empties bp rs) q = Inl e) \<or> op_live_doc_ids (index_ops dbg empties bp rs) = Inl e"
  shows "(\<exists>q. term_error bp rs q e) \<or> ir_live_doc_ids (map rd_ids rs) = Inl e"
  using assms(2) unfolding index_ops_def search_ops.simps map_sum_Inl_iff by (meson plain_errors [OF assms(1)])

lemma index_ops_term_errors:
  assumes "served bp H rs" "op_matcher (index_ops dbg empties bp rs) t = Inl e \<or>
      op_cached_filter_doc_ids (index_ops dbg empties bp rs) t = Inl e"
  shows "term_error bp rs t e"
  using assms(2) unfolding index_ops_def search_ops.simps map_sum_Inl_iff by (meson plain_errors [OF assms(1)])

text \<open>The segments of an index that is open, as a type.\<close>

typedef 'c open_index = "{(bp, rs :: 'c segment_reader list). \<exists>H. served bp H rs}"
  by (rule exI [of _ "(plain_packer, [])"]) (simp add: served_def plain_packer_ok)

lemma open_index_served: "\<exists>H. served (fst (Rep_open_index x)) H (snd (Rep_open_index x))"
  using Rep_open_index [of x] by auto

definition open_ops ::
    "(bytes \<Rightarrow> bytes) \<Rightarrow> (bytes \<times> bytes \<Rightarrow> bool res) \<Rightarrow> 'c open_index \<Rightarrow> (bytes \<times> bytes, term_matcher) search_ops" where
  "open_ops dbg empties x = index_ops dbg empties (fst (Rep_open_index x)) (snd (Rep_open_index x))"

interpretation opened: clause_source term_vt term_inv term_docs "open_ops dbg empties x"
    "index_docs (fst (Rep_open_index x)) (snd (Rep_open_index x))" "index_live (snd (Rep_open_index x))"
  for dbg empties and x :: "'c open_index"
  unfolding open_ops_def using open_index_served [of x] index_clauses by blast

lemma open_index_of: "served bp H rs \<Longrightarrow> Rep_open_index (Abs_open_index (bp, rs)) = (bp, rs)"
  by (rule Abs_open_index_inverse) auto

text \<open>Without the caches a boolean query finds the documents it is searched for.\<close>

lemma plain_index_search:
  assumes "served bp H rs" "card (boolean_docs (index_docs bp rs) (index_live rs) q) \<le> fuel"
  shows "\<exists>r. boolean_matcher term_vt (index_ops dbg empties bp rs) q = Some r \<and>
    (case r of
       Inl e \<Rightarrow> (\<exists>t. term_error bp rs t e) \<or> ir_live_doc_ids (map rd_ids rs) = Inl e
     | Inr m \<Rightarrow> matched_docs (boolean_vt term_vt) fuel m =
         Some (sorted_list_of_set (boolean_docs (index_docs bp rs) (index_live rs) q)))"
proof -
  let ?D = "boolean_docs (index_docs bp rs) (index_live rs) q"
  have rep: "Rep_open_index (Abs_open_index (bp, rs)) = (bp, rs)" using open_index_of [OF assms(1)] .
  have ops: "open_ops dbg empties (Abs_open_index (bp, rs)) = index_ops dbg empties bp rs" by (simp add: open_ops_def rep)
  from opened.boolean_search [of "Abs_open_index (bp, rs)" q fuel dbg empties, unfolded ops rep fst_conv snd_conv, OF assms(2)]
  obtain r where "boolean_matcher term_vt (index_ops dbg empties bp rs) q = Some r"
    "case r of
       Inl e \<Rightarrow> (\<exists>q. op_matcher (index_ops dbg empties bp rs) q = Inl e \<or>
         op_cached_filter_doc_ids (index_ops dbg empties bp rs) q = Inl e) \<or> op_live_doc_ids (index_ops dbg empties bp rs) = Inl e
     | Inr m \<Rightarrow> matched_docs (boolean_vt term_vt) fuel m = Some (sorted_list_of_set ?D)" by blast
  then show ?thesis using index_ops_errors [OF assms(1)] by (intro exI [of _ r]) (auto split: sum.splits)
qed

section \<open>A search through the caches\<close>

definition same_index :: "('c, 'd) index_reader \<Rightarrow> ('c, 'd) index_reader \<Rightarrow> bool" where
  "same_index x' x \<longleftrightarrow> list_all2 same_files (ix_segments x') (ix_segments x)"

lemma same_index_terms:
  assumes "same_index x' x"
  shows "plain_term_matcher bp (ix_segments x') t = plain_term_matcher bp (ix_segments x) t"
    "index_docs bp (ix_segments x') t = index_docs bp (ix_segments x) t"
    "term_error bp (ix_segments x') t e \<longleftrightarrow> term_error bp (ix_segments x) t e"
proof -
  have s: "list_all2 same_files (ix_segments x') (ix_segments x)" using assms by (simp add: same_index_def)
  note same = same_files_docs [OF s]
  show "plain_term_matcher bp (ix_segments x') t = plain_term_matcher bp (ix_segments x) t"
    using same by (simp add: plain_term_matcher_def)
  show "index_docs bp (ix_segments x') t = index_docs bp (ix_segments x) t" using same by blast
  from s show "term_error bp (ix_segments x') t e \<longleftrightarrow> term_error bp (ix_segments x) t e"
    by (induction rule: list_all2_induct) (auto simp: term_error_def same_filesD)
qed

text \<open>A reader whose caches hold only what fields without the separator were asked for, and its copies.\<close>

definition search_ready ::
    "bitpacker \<Rightarrow> (bytes \<Rightarrow> bytes) \<Rightarrow> ('c \<Rightarrow> nat option) \<Rightarrow> ('c \<Rightarrow> (bytes \<times> decoded_posting_list) list) \<Rightarrow>
     ('d \<Rightarrow> (bytes \<times> nat set) list) \<Rightarrow> ('c, 'd) index_reader \<Rightarrow> (bytes \<times> bytes \<Rightarrow> ('c, 'd) index_reader) \<Rightarrow> bool" where
  "search_ready bp dbg cap entries qentries x X \<longleftrightarrow> \<not> ix_closed x \<and>
     (\<forall>t. reader_ok bp dbg cap entries qentries (X t) \<and> same_index (X t) x)"

lemma cached_answers:
  assumes lru: "lru_behaves lru cap entries" "lru_behaves qlru qcap qentries" "dbg_ok dbg"
    and "served bp H (ix_segments x)" "search_ready bp dbg cap entries qentries x X" "1 \<notin> set (fst t)"
  shows "case op_matcher (reader_ops lru qlru bp dbg empties x X) t of
      Inl e \<Rightarrow> term_error bp (ix_segments x) t e
    | Inr m \<Rightarrow> term_inv m \<and> term_docs m = index_docs bp (ix_segments x) t" (is ?matcher)
    and "case op_cached_filter_doc_ids (reader_ops lru qlru bp dbg empties x X) t of
      Inl e \<Rightarrow> term_error bp (ix_segments x) t e
    | Inr ids \<Rightarrow> ids = Some (sorted_list_of_set (index_docs bp (ix_segments x) t))" (is ?filter)
proof -
  have X: "reader_ok bp dbg cap entries qentries (X t)" "same_index (X t) x"
    using assms(5) unfolding search_ready_def by blast+
  note same = same_index_terms [OF X(2)]
  from plain_term_matcher_ok [OF assms(4), of t] obtain m where m: "plain_term_matcher bp (ix_segments (X t)) t = Some m"
    "case m of Inl e \<Rightarrow> term_error bp (ix_segments (X t)) t e
      | Inr m \<Rightarrow> term_inv m \<and> term_docs m = index_docs bp (ix_segments (X t)) t"
    unfolding same by blast
  have "segments_ok bp cap entries (ix_segments (X t))" "\<not> ix_closed (X t)" using X(1) by (simp_all add: reader_ok_def)
  from ix_term_matcher_agrees [OF lru(1) assms(6) this m(1)] obtain rs where
    "ix_term_matcher lru bp t (X t) = Some (m, (X t)\<lparr>ix_segments := rs\<rparr>)" by blast
  with m(2) show ?matcher unfolding same by (simp add: reader_ops_def returned_def)
  from matching_doc_ids_spec [OF lru X(1) assms(6) m] obtain ids x' where
    "matching_doc_ids lru qlru bp dbg t (X t) = Some (ids, x')"
    "case ids of Inl e \<Rightarrow> term_error bp (ix_segments x) t e | Inr ids \<Rightarrow> ids = index_docs bp (ix_segments x) t"
    unfolding same by blast
  then show ?filter by (cases ids) (simp_all add: reader_ops_def returned_def)
qed

text \<open>
  The reader as a source of clauses: as it is for fields without the separator, which are all that a
  query asks for, and without the caches for the others.
\<close>

definition guarded_ops ::
    "(decoded_posting_list, 'c) lru_ops \<Rightarrow> (nat set, 'd) lru_ops \<Rightarrow> bitpacker \<Rightarrow> (bytes \<Rightarrow> bytes) \<Rightarrow>
     (bytes \<times> bytes \<Rightarrow> bool res) \<Rightarrow> ('c, 'd) index_reader \<Rightarrow> (bytes \<times> bytes \<Rightarrow> ('c, 'd) index_reader) \<Rightarrow>
     (bytes \<times> bytes, term_matcher) search_ops" where
  "guarded_ops lru qlru bp dbg empties x X =
     (let cached = reader_ops lru qlru bp dbg empties x X; plain = index_ops dbg empties bp (ix_segments x)
      in cached\<lparr>op_matcher := \<lambda>t. op_matcher (if 1 \<in> set (fst t) then plain else cached) t,
           op_cached_filter_doc_ids := \<lambda>t. op_cached_filter_doc_ids (if 1 \<in> set (fst t) then plain else cached) t\<rparr>)"

lemma guarded_clauses:
  assumes "lru_behaves lru cap entries" "lru_behaves qlru qcap qentries" "dbg_ok dbg"
    and "served bp H (ix_segments x)" "search_ready bp dbg cap entries qentries x X"
  shows "clause_source term_vt term_inv term_docs (guarded_ops lru qlru bp dbg empties x X)
    (index_docs bp (ix_segments x)) (index_live (ix_segments x))"
proof
  note plain = index_clauses [OF assms(4), of dbg empties] and cached = cached_answers [OF assms, of _ empties]
  have open_reader: "ix_live_doc_ids x = ir_live_doc_ids (map rd_ids (ix_segments x))"
    using assms(5) by (simp add: ix_live_doc_ids_def search_ready_def)
  fix t m ids
  show "term_inv m \<and> term_docs m = index_docs bp (ix_segments x) t"
    if "op_matcher (guarded_ops lru qlru bp dbg empties x X) t = Inr m"
    using that clause_source.matcher_of_clause [OF plain, of t m] cached(1) [of t]
    by (auto simp: guarded_ops_def Let_def split: if_splits)
  show "set ids = index_docs bp (ix_segments x) t"
    if "op_cached_filter_doc_ids (guarded_ops lru qlru bp dbg empties x X) t = Inr (Some ids)"
    using that clause_source.cached_ids [OF plain, of t ids] cached(2) [of t] index_docs_bound [OF assms(4), of t]
    by (auto simp: guarded_ops_def Let_def split: if_splits)
  show "set ids = index_live (ix_segments x)"
    if "op_live_doc_ids (guarded_ops lru qlru bp dbg empties x X) = Inr ids"
    using that clause_source.live_ids [OF plain, of ids]
    by (simp add: guarded_ops_def reader_ops_def index_ops_def Let_def open_reader)
qed (rule clause_source.doc_id_bound [OF index_clauses [OF assms(4), of dbg empties]])+

lemma guarded_same:
  assumes "\<forall>c \<in> set (bq_clauses q). 1 \<notin> set (fst (cl_query c))"
  shows "boolean_matcher v (reader_ops lru qlru bp dbg empties x X) q = boolean_matcher v (guarded_ops lru qlru bp dbg empties x X) q"
proof (rule boolean_matcher_cong)
  show "\<forall>c \<in> set (bq_clauses q). clause_matcher (reader_ops lru qlru bp dbg empties x X) c =
      clause_matcher (guarded_ops lru qlru bp dbg empties x X) c \<and>
      (cl_occur c \<noteq> Filter \<longrightarrow> op_matcher (reader_ops lru qlru bp dbg empties x X) (cl_query c) =
        op_matcher (guarded_ops lru qlru bp dbg empties x X) (cl_query c))"
  proof
    fix c
    assume "c \<in> set (bq_clauses q)"
    then have "1 \<notin> set (fst (cl_query c))" using assms by blast
    then have "op_matcher (guarded_ops lru qlru bp dbg empties x X) (cl_query c) =
        op_matcher (reader_ops lru qlru bp dbg empties x X) (cl_query c)"
      "op_cached_filter_doc_ids (guarded_ops lru qlru bp dbg empties x X) (cl_query c) =
        op_cached_filter_doc_ids (reader_ops lru qlru bp dbg empties x X) (cl_query c)"
      by (simp_all add: guarded_ops_def Let_def)
    moreover have "op_cache_key (guarded_ops lru qlru bp dbg empties x X) = op_cache_key (reader_ops lru qlru bp dbg empties x X)"
      by (simp add: guarded_ops_def Let_def)
    ultimately show "clause_matcher (reader_ops lru qlru bp dbg empties x X) c =
        clause_matcher (guarded_ops lru qlru bp dbg empties x X) c \<and>
        (cl_occur c \<noteq> Filter \<longrightarrow> op_matcher (reader_ops lru qlru bp dbg empties x X) (cl_query c) =
          op_matcher (guarded_ops lru qlru bp dbg empties x X) (cl_query c))"
      by (simp only: clause_matcher_def simp_thms)
  qed
qed (simp add: guarded_ops_def Let_def)

text \<open>
  C25. A boolean query over the terms of an open index is answered exactly: however many segments there
  are and whatever their files hold, its matcher is built, and run to its end it lists in ascending
  order the documents the query stands for as its fields are documented (\<open>documented_docs\<close>), given the
  live documents of the segments for its terms; the only errors are those of reading a segment. The
  clauses are answered through the query filter cache and the posting caches, each call finding them in
  whatever state. Three conditions: no document is live in two segments (\<open>served\<close>), no field of the
  query, nor of a query the caches were filled by, contains the separator \<open>U+0001\<close> of the keys of a
  posting cache, and the minimum of optional matches is at most one, and zero without an optional
  clause (\<open>minimum_plain\<close>; the matcher takes a larger one for one).
\<close>

theorem index_search_exact:
  assumes "lru_behaves lru cap entries" "lru_behaves qlru qcap qentries" "dbg_ok dbg"
    and "served bp H (ix_segments x)" "search_ready bp dbg cap entries qentries x X"
    and "\<forall>c \<in> set (bq_clauses q). 1 \<notin> set (fst (cl_query c))" "minimum_plain q"
    and "card (documented_docs (index_docs bp (ix_segments x)) (index_live (ix_segments x)) q) \<le> fuel"
  shows "\<exists>r. boolean_matcher term_vt (reader_ops lru qlru bp dbg empties x X) q = Some r \<and>
    (case r of
       Inl e \<Rightarrow> (\<exists>t. term_error bp (ix_segments x) t e) \<or> ix_live_doc_ids x = Inl e
     | Inr m \<Rightarrow> matched_docs (boolean_vt term_vt) fuel m =
         Some (sorted_list_of_set (documented_docs (index_docs bp (ix_segments x)) (index_live (ix_segments x)) q)))"
proof -
  let ?ops = "guarded_ops lru qlru bp dbg empties x X" and ?M = "index_docs bp (ix_segments x)"
  note docs = boolean_docs_documented [OF assms(7), of ?M "index_live (ix_segments x)"]
  from clause_source.boolean_search [OF guarded_clauses [OF assms(1-5), of empties], of q fuel] assms(8)
  obtain r where r: "boolean_matcher term_vt ?ops q = Some r"
    "case r of
       Inl e \<Rightarrow> (\<exists>t. op_matcher ?ops t = Inl e \<or> op_cached_filter_doc_ids ?ops t = Inl e) \<or> op_live_doc_ids ?ops = Inl e
     | Inr m \<Rightarrow> matched_docs (boolean_vt term_vt) fuel m = Some (sorted_list_of_set (documented_docs ?M (index_live (ix_segments x)) q))"
    unfolding docs by blast
  have "term_error bp (ix_segments x) t e" if "op_matcher ?ops t = Inl e \<or> op_cached_filter_doc_ids ?ops t = Inl e" for t e
    using that cached_answers [OF assms(1-5), of t empties] index_ops_term_errors [OF assms(4), of dbg empties t e]
    by (auto simp: guarded_ops_def Let_def split: if_splits)
  then have terms: "\<exists>t. term_error bp (ix_segments x) t e"
    if "\<exists>t. op_matcher ?ops t = Inl e \<or> op_cached_filter_doc_ids ?ops t = Inl e" for e
    using that by blast
  have "ix_live_doc_ids x = Inl e" if "op_live_doc_ids ?ops = Inl e" for e
    using that by (simp add: guarded_ops_def reader_ops_def Let_def)
  with terms have errors: "(\<exists>t. term_error bp (ix_segments x) t e) \<or> ix_live_doc_ids x = Inl e" if "r = Inl e" for e
    using that r(2) by (simp del: split_paired_Ex) blast
  show ?thesis
    unfolding guarded_same [OF assms(6), of term_vt lru qlru bp dbg empties x X]
    using r errors by (intro exI [of _ r]) (simp del: split_paired_Ex split: sum.splits)
qed

section \<open>An index of two segments\<close>

lemma seg_docs_in_range:
  assumes "fills_blocks bp" "rd_post r = Some content" "i \<in> seg_docs bp q r"
  shows "si_min_doc_id (rd_info r) \<le> i \<and> i \<le> si_max_doc_id (rd_info r) \<and> \<not> sg_is_deleted (rd_ids r) i"
proof -
  obtain d where d: "stored_postings bp r content (fst q) (snd q) = Inr (Some d)" "i \<in> it_left (iterator_of d)"
    using assms(2,3) by (cases "stored_postings bp r content (fst q) (snd q)")
      (auto simp: seg_docs_def plain_postings_def split: option.splits)
  from stored_postings_ok [OF assms(1) d(1)] d(2) show ?thesis by auto
qed

definition whole :: "'c segment_reader \<Rightarrow> nat set" where
  "whole r = {si_min_doc_id (rd_info r)..si_max_doc_id (rd_info r)}"

lemma example_live:
  assumes "rd_ids r = example_segment lo hi deleted" "lo \<le> hi" "hi \<le> 1000" "\<forall>ids. deleted = Some ids \<longrightarrow> finite ids"
    "rd_post r = Some content"
  shows "really_holds (rd_ids r) (whole r)" "seg_docs plain_packer q r \<subseteq> live_of whole r" "scans_fresh r"
proof -
  note e = example_segment_ok [OF assms(2-4)]
  have w: "whole r = {lo..hi}" by (simp add: whole_def rd_info_def assms(1) example_segment_info)
  show holds: "really_holds (rd_ids r) (whole r)" using e(1) by (simp add: w assms(1))
  show "scans_fresh r" using assms(5) by (simp add: scans_fresh_def)
  show "seg_docs plain_packer q r \<subseteq> live_of whole r"
  proof
    fix i assume i: "i \<in> seg_docs plain_packer q r"
    from seg_docs_in_range [OF plain_packer_ok(2) assms(5) i] have r: "lo \<le> i" "i \<le> hi" "\<not> sg_is_deleted (rd_ids r) i"
      by (simp_all add: rd_info_def assms(1) example_segment_info)
    have "(1000 :: nat) < 2 ^ 64" by simp
    then have "i < 2 ^ 64" using r(2) assms(3) by linarith
    with sg_is_deleted_iff [OF holds] r show "i \<in> live_of whole r" by (simp add: live_of_def w)
  qed
qed

definition other_segment :: "'c posting_cache \<Rightarrow> 'c segment_reader" where
  "other_segment cache = \<lparr>rd_ids = example_segment 30 40 None, rd_dict = Inr (Some (build [])), rd_post = Some [],
     rd_lends = True, rd_scan = (\<lambda>_ _. Inr None), rd_cache = cache, rd_warned = False\<rparr>"

abbreviation example_index :: "(nat option \<times> (bytes \<times> decoded_posting_list) list) segment_reader list" where
  "example_index \<equiv> [served_segment (posting_cache_new list_lru 1000), other_segment (posting_cache_new list_lru 1000)]"

lemma example_index_served: "served plain_packer whole example_index"
proof -
  let ?s = "served_segment (posting_cache_new list_lru 1000)" and ?o = "other_segment (posting_cache_new list_lru 1000)"
  have s: "really_holds (rd_ids ?s) (whole ?s) \<and> seg_docs plain_packer q ?s \<subseteq> live_of whole ?s \<and> scans_fresh ?s" for q
    using example_live [of ?s 1 20 "Some {5}" served_bytes] by (simp add: served_segment_def)
  have o: "really_holds (rd_ids ?o) (whole ?o) \<and> seg_docs plain_packer q ?o \<subseteq> live_of whole ?o \<and> scans_fresh ?o" for q
    using example_live [of ?o 30 40 None "[]"] by (simp add: other_segment_def)
  have "live_of whole ?s \<inter> live_of whole ?o = {}"
    by (auto simp: live_of_def whole_def rd_info_def served_segment_def other_segment_def example_segment_info)
  with s o show ?thesis by (simp add: served_def plain_packer_ok)
qed

lemma served_plain: "plain_postings plain_packer (served_segment c) [98] [97] =
    Inr (Some (iterator_of (filter_deleted_soa (sg_deleted (example_segment 1 20 (Some {5}))) (decoded_form V3 served_list))))"
proof -
  have "rd_post (served_segment c) = Some served_bytes" by (simp add: served_segment_def)
  then show ?thesis by (simp add: plain_postings_def served_stored)
qed

lemma other_plain: "plain_postings plain_packer (other_segment c) f t = Inr None"
  by (simp add: plain_postings_def stored_postings_def rd_term_info_def other_segment_def build_def td_get_def)

lemma served_plain_else: "full_term f t \<noteq> full_term [98] [97] \<Longrightarrow> plain_postings plain_packer (served_segment c) f t = Inr None"
  by (simp add: plain_postings_def stored_postings_def rd_term_info_def served_segment_def build_def td_get_def)

lemma example_index_docs: "seg_docs plain_packer ([98], [97]) (served_segment c) = {9}" "seg_docs plain_packer q (other_segment c) = {}"
proof -
  let ?live = "filter_deleted_soa (sg_deleted (example_segment 1 20 (Some {5}))) (decoded_form V3 served_list)"
  have "\<not> contains 9 (deleted_docs_new {5} 1 20 20)" using contains_iff [of "{5}" 9 20 1 20] by simp
  then have "d_doc_ids ?live = [9]"
    by (simp add: filter_deleted_soa_def served_decoded kept_ids Let_def example_segment_def)
  with stored_postings_ok(2) [OF plain_packer_ok(2) served_stored [of c]]
  have "it_left (iterator_of ?live) = {9}" by simp
  then show "seg_docs plain_packer ([98], [97]) (served_segment c) = {9}" by (simp add: seg_docs_def served_plain)
  show "seg_docs plain_packer q (other_segment c) = {}" by (simp add: seg_docs_def other_plain)
qed

lemma example_no_error: "\<not> term_error plain_packer example_index q e"
proof -
  have "plain_postings plain_packer (served_segment c) f t \<noteq> Inl e" for c :: "(nat option \<times> (bytes \<times> decoded_posting_list) list) posting_cache" and f t
  proof (cases "full_term f t = full_term [98] [97]")
    case True
    then have "f = [98] \<and> t = [97]" by (auto simp: full_term_def append_eq_Cons_conv Cons_eq_append_conv)
    then show ?thesis by (simp add: served_plain)
  qed (simp add: served_plain_else)
  then show ?thesis by (simp add: term_error_def other_plain)
qed

lemma example_index_live: "ir_live_doc_ids (map rd_ids example_index) = Inr ({1..20} - {5} \<union> {30..40})"
proof -
  let ?a = "example_segment 1 20 (Some {5})" and ?b = "example_segment 30 40 None"
  have "sg_live_doc_ids ?a = Inr ({1..20} - {5})" "sg_live_doc_ids ?b = Inr {30..40}"
    using sg_counts(3,4) [OF example_segment_ok(1) [of 1 20 "Some {5}"]] sg_counts(3,4) [OF example_segment_ok(1) [of 30 40 None]]
      example_segment_ok(2,3) [of 1 20 "Some {5}"] example_segment_ok(2,3) [of 30 40 None] by (auto simp: ok_iff)
  then show ?thesis by (simp add: served_segment_def other_segment_def)
qed

text \<open>For strings of printable ASCII characters the \<open>Debug\<close> format is this one.\<close>

fun escaped :: "bytes \<Rightarrow> bytes" where
  "escaped [] = [34]"
| "escaped (c # cs) = (if c = 34 \<or> c = 92 then 92 # c # escaped cs else c # escaped cs)"

definition quoted :: "bytes \<Rightarrow> bytes" where "quoted s = 34 # escaped s"

lemma escaped_inj: "escaped a @ u = escaped b @ v \<Longrightarrow> a = b \<and> u = v"
proof (induction a arbitrary: b)
  case Nil
  then show ?case by (cases b) (auto split: if_splits)
next
  case (Cons c cs)
  then show ?case by (cases b) (auto split: if_splits)
qed

lemma quoted_ok: "dbg_ok quoted"
  unfolding dbg_ok_def quoted_def append_Cons list.inject using escaped_inj by blast

abbreviation example_reader where
  "example_reader \<equiv> \<lparr>ix_segments = example_index, ix_query_cache = query_filter_cache_new list_lru 4, ix_closed = False\<rparr>"

lemma example_reader_ok: "reader_ok plain_packer quoted fst snd snd example_reader"
proof -
  have "cache_ok plain_packer fst snd (served_segment (posting_cache_new list_lru 1000))"
    "cache_ok plain_packer fst snd (other_segment (posting_cache_new list_lru 1000))"
    by (simp_all add: cache_ok_def served_segment_def other_segment_def posting_cache_new_def pch_inv_def pci_inv_def
        pch_entries_def list_lru_def)
  then show ?thesis
    by (simp add: reader_ok_def segments_ok_def query_cache_ok_def qfc_entries_def query_filter_cache_new_def list_lru_def)
qed

lemma example_search_ready: "search_ready plain_packer quoted fst snd snd example_reader (\<lambda>_. example_reader)"
  by (simp add: search_ready_def example_reader_ok same_index_def same_files_def)

lemma index_search_exact_witness:
  "\<exists>m. boolean_matcher term_vt
       (reader_ops list_lru list_lru plain_packer quoted (\<lambda>_. Inr False) example_reader (\<lambda>_. example_reader))
       \<lparr>bq_clauses = [\<lparr>cl_query = ([98], [97]), cl_occur = Must\<rparr>], minimum_should_match = 0\<rparr> = Some (Inr m) \<and>
     matched_docs (boolean_vt term_vt) 1 m = Some [9]"
proof -
  let ?q = "\<lparr>bq_clauses = [\<lparr>cl_query = ([98 :: u8], [97 :: u8]), cl_occur = Must\<rparr>], minimum_should_match = 0\<rparr>"
  let ?D = "documented_docs (index_docs plain_packer (ix_segments example_reader)) (index_live (ix_segments example_reader)) ?q"
  have d: "?D = {9}"
    by (simp add: documented_docs_def clauses_by_occur_def index_docs_def example_index_docs)
  have "card ?D \<le> 1" "minimum_plain ?q" "served plain_packer whole (ix_segments example_reader)"
    "\<forall>c \<in> set (bq_clauses ?q). 1 \<notin> set (fst (cl_query c))"
    by (simp_all add: d [simplified] minimum_plain_def example_index_served)
  from index_search_exact [OF list_lru_behaves list_lru_behaves quoted_ok this(3) example_search_ready this(4,2,1), of "\<lambda>_. Inr False"]
  obtain r where r: "boolean_matcher term_vt
        (reader_ops list_lru list_lru plain_packer quoted (\<lambda>_. Inr False) example_reader (\<lambda>_. example_reader)) ?q = Some r"
    "case r of
       Inl e \<Rightarrow> (\<exists>t. term_error plain_packer (ix_segments example_reader) t e) \<or> ix_live_doc_ids example_reader = Inl e
     | Inr m \<Rightarrow> matched_docs (boolean_vt term_vt) 1 m = Some (sorted_list_of_set {9})" unfolding d by blast
  have live: "ix_live_doc_ids example_reader \<noteq> Inl e" for e
    unfolding ix_live_doc_ids_def index_reader.simps example_index_live by simp
  show ?thesis
  proof (cases r)
    case (Inl e)
    with r(2) example_no_error live show ?thesis by simp
  next
    case (Inr m)
    with r show ?thesis by (intro exI [of _ m]) (simp del: matched_docs.simps One_nat_def)
  qed
qed

lemma matching_doc_ids_exact_witness:
  "\<exists>x'. matching_doc_ids list_lru list_lru plain_packer quoted ([98], [97])
     example_reader = Some (Inr {9}, x')"
proof -
  from matching_doc_ids_exact [OF list_lru_behaves list_lru_behaves quoted_ok _ example_reader_ok, of whole "([98], [97])",
      unfolded index_reader.simps, OF example_index_served] obtain ids x' where
    m: "matching_doc_ids list_lru list_lru plain_packer quoted ([98], [97]) example_reader = Some (ids, x')"
    "case ids of Inl e \<Rightarrow> term_error plain_packer example_index ([98], [97]) e
       | Inr ids \<Rightarrow> ids = index_docs plain_packer example_index ([98], [97])"
    by auto
  have "index_docs plain_packer example_index ([98], [97]) = {9}" by (simp add: index_docs_def example_index_docs)
  with m example_no_error show ?thesis by (auto split: sum.splits)
qed

end
