(* ===== verification/Collectors.thy ===== *)
theory Collectors
  imports Boolean_Query "HOL-Library.Multiset"
begin

text \<open>
  The collectors of hits, \<^verbatim>\<open>laurus/src/lexical/query/collector.rs\<close>: the best documents by score, all
  documents, and their count; and how the per-segment search of
  \<^verbatim>\<open>laurus/src/lexical/index/inverted/searcher.rs\<close> merges the hits of the segments. Scores are of a
  linear order, which 32-bit floats are but for NaN.
\<close>

section \<open>The best documents\<close>

record 'f top_docs =
  top_max_docs :: nat
  top_min_score :: 'f
  top_hits :: "(nat \<times> 'f) list"
  top_total_hits :: nat

definition top_docs_new :: "nat \<Rightarrow> 'f \<Rightarrow> 'f top_docs" where
  "top_docs_new k zero = \<lparr>top_max_docs = k, top_min_score = zero, top_hits = [], top_total_hits = 0\<rparr>"

text \<open>
  The heap is a list, of which \<open>peek\<close> and \<open>pop\<close> of the standard library's \<open>BinaryHeap\<close> take the greatest
  element by \<open>ScoredDoc::cmp\<close>: that of the lowest score, and of these the lowest id.
\<close>

definition worse :: "nat \<times> 'f::linorder \<Rightarrow> nat \<times> 'f \<Rightarrow> bool" where
  "worse a b \<longleftrightarrow> snd a < snd b \<or> snd a = snd b \<and> fst a < fst b"

definition worst :: "(nat \<times> 'f::linorder) list \<Rightarrow> (nat \<times> 'f) option" where
  "worst hits = (case hits of [] \<Rightarrow> None | h # hs \<Rightarrow> Some (foldl (\<lambda>w h. if worse h w then h else w) h hs))"

definition top_collect :: "nat \<Rightarrow> 'f::linorder \<Rightarrow> 'f top_docs \<Rightarrow> 'f top_docs" where
  "top_collect doc_id score c0 =
     (let c = c0\<lparr>top_total_hits := top_total_hits c0 + 1\<rparr>
      in if score < top_min_score c then c
         else if length (top_hits c) < top_max_docs c then c\<lparr>top_hits := top_hits c @ [(doc_id, score)]\<rparr>
         else case worst (top_hits c) of
                Some w \<Rightarrow> if score > snd w then c\<lparr>top_hits := remove1 w (top_hits c) @ [(doc_id, score)]\<rparr> else c
              | None \<Rightarrow> c)"

text \<open>The results by descending score; the order of equal scores is left open by the unstable sort.\<close>

definition top_results :: "'f::linorder top_docs \<Rightarrow> (nat \<times> 'f) list" where
  "top_results c = rev (sort_key snd (top_hits c))"

text \<open>The score a hit has to exceed to be kept; \<open>None\<close> is minus infinity.\<close>

definition min_competitive :: "'f::linorder top_docs \<Rightarrow> 'f option" where
  "min_competitive c =
     (if length (top_hits c) < top_max_docs c then None
      else Some (case worst (top_hits c) of Some w \<Rightarrow> snd w | None \<Rightarrow> top_min_score c))"

text \<open>As the \<open>Collector\<close> a search is given; it always needs more.\<close>

definition top_collector :: "('f::linorder top_docs, 'f) collector_ops" where
  "top_collector = \<lparr>op_collect = \<lambda>d x c. Inr (top_collect d x c), op_needs_more = \<lambda>_. True\<rparr>"

section \<open>All documents, and their count\<close>

record 'f count_docs =
  count_total :: nat
  count_min_score :: 'f

definition count_collect :: "nat \<Rightarrow> 'f::linorder \<Rightarrow> 'f count_docs \<Rightarrow> 'f count_docs" where
  "count_collect doc_id score c =
     (if score \<ge> count_min_score c then c\<lparr>count_total := count_total c + 1\<rparr> else c)"

text \<open>The sorted results are cached until the next hit is collected.\<close>

record 'f all_docs_collector =
  all_hits :: "(nat \<times> 'f) list"
  all_min_score :: 'f
  all_sorted :: "(nat \<times> 'f) list option"

definition all_collect :: "nat \<Rightarrow> 'f::linorder \<Rightarrow> 'f all_docs_collector \<Rightarrow> 'f all_docs_collector" where
  "all_collect doc_id score c =
     (if score \<ge> all_min_score c then c\<lparr>all_hits := all_hits c @ [(doc_id, score)], all_sorted := None\<rparr> else c)"

definition all_results :: "'f::linorder all_docs_collector \<Rightarrow> (nat \<times> 'f) list \<times> 'f all_docs_collector" where
  "all_results c =
     (case all_sorted c of
        Some cached \<Rightarrow> (cached, c)
      | None \<Rightarrow> let results = rev (sort_key snd (all_hits c)) in (results, c\<lparr>all_sorted := Some results\<rparr>))"

definition all_inv :: "'f::linorder all_docs_collector \<Rightarrow> bool" where
  "all_inv c \<longleftrightarrow> (\<forall>rs. all_sorted c = Some rs \<longrightarrow> rs = rev (sort_key snd (all_hits c)))"

lemma all_docs_cache:
  assumes "all_inv c"
  shows "all_inv (all_collect d x c)" "fst (all_results c) = rev (sort_key snd (all_hits c))" "all_inv (snd (all_results c))"
  using assms by (auto simp: all_inv_def all_collect_def all_results_def Let_def split: option.split)

section \<open>Merging the hits of the segments\<close>

text \<open>The hits of one segment, then those of the segments in order, the first error ending it.\<close>

fun feed_hits :: "('c, 'f) collector_ops \<Rightarrow> (nat \<times> 'f) list \<Rightarrow> 'c \<Rightarrow> (bool \<times> 'c) res" where
  "feed_hits co [] c = Inr (True, c)"
| "feed_hits co ((d, x) # hs) c =
     (case op_collect co d x c of
        Inl e \<Rightarrow> Inl e
      | Inr c' \<Rightarrow> if op_needs_more co c' then feed_hits co hs c' else Inr (False, c'))"

fun merge_results :: "('c, 'f) collector_ops \<Rightarrow> (nat \<times> 'f) list res list \<Rightarrow> 'c \<Rightarrow> 'c res" where
  "merge_results co [] c = Inr c"
| "merge_results co (r # rs) c =
     (case r of
        Inl e \<Rightarrow> Inl e
      | Inr hits \<Rightarrow>
          (case feed_hits co hits c of
             Inl e \<Rightarrow> Inl e
           | Inr (more_needed, c') \<Rightarrow> if more_needed then merge_results co rs c' else Inr c'))"

section \<open>What is kept\<close>

text \<open>
  The \<open>k\<close> best of some hits: as many as there are, up to \<open>k\<close>, and none that is left out has a higher
  score than one of them.
\<close>

definition best_of :: "nat \<Rightarrow> (nat \<times> 'f::linorder) multiset \<Rightarrow> (nat \<times> 'f) multiset \<Rightarrow> bool" where
  "best_of k K A \<longleftrightarrow> K \<subseteq># A \<and> size K = min k (size A) \<and> (\<forall>h \<in># A - K. \<forall>w \<in># K. snd h \<le> snd w)"

lemma worst_le: "worst hits = Some w \<Longrightarrow> w \<in> set hits \<and> (\<forall>h \<in> set hits. snd w \<le> snd h)"
proof -
  have "foldl (\<lambda>w h. if worse h w then h else w) h hs \<in> set (h # hs) \<and>
      (\<forall>x \<in> set (h # hs). snd (foldl (\<lambda>w h. if worse h w then h else w) h hs) \<le> snd x)" for h hs
  proof (induction hs arbitrary: h)
    case (Cons a hs)
    from Cons.IH [of a] Cons.IH [of h] show ?case by (auto simp: worse_def)
  qed simp
  then show "worst hits = Some w \<Longrightarrow> w \<in> set hits \<and> (\<forall>h \<in> set hits. snd w \<le> snd h)"
    by (cases hits) (auto simp: worst_def)
qed

lemma worst_Nil [simp]: "worst [] = None"
  by (simp add: worst_def)

lemma worst_None [simp]: "worst hits = None \<longleftrightarrow> hits = []"
  by (cases hits) (simp_all add: worst_def)

lemma best_of_add:
  assumes "best_of k (mset (top_hits c)) A" "top_max_docs c = k" "top_min_score c \<le> x"
  shows "best_of k (mset (top_hits (top_collect d x c))) (add_mset (d, x) A)"
proof -
  let ?K = "mset (top_hits c)"
  have K: "?K \<subseteq># A" "size ?K = min k (size A)" "\<forall>h \<in># A - ?K. \<forall>w \<in># ?K. snd h \<le> snd w"
    using assms(1) by (simp_all add: best_of_def)
  consider (room) "length (top_hits c) < k" | (none) "\<not> length (top_hits c) < k" "worst (top_hits c) = None"
    | (full) w where "\<not> length (top_hits c) < k" "worst (top_hits c) = Some w"
    by (cases "worst (top_hits c)") auto
  then show ?thesis
  proof cases
    case room
    then have "A = ?K" using K(1,2) by (metis min_less_iff_conj nat_neq_iff size_mset mset_subset_size subset_mset.le_imp_less_or_eq min_def)
    then show ?thesis using room assms(2,3) by (simp add: best_of_def top_collect_def Let_def)
  next
    case none
    then show ?thesis using assms(2,3) by (simp add: best_of_def top_collect_def Let_def)
  next
    case full
    note w = worst_le [OF full(2)]
    have size: "size ?K = k" using full(1) K(2) by simp
    show ?thesis
    proof (cases "snd w < x")
      case True
      have sub: "?K - {#w#} \<subseteq># A" using K(1) by (meson diff_subset_eq_self subset_mset.order_trans)
      have "add_mset (d, x) A - add_mset (d, x) (?K - {#w#}) = A - (?K - {#w#})" by simp
      also have "\<dots> = add_mset w (A - ?K)"
        using K(1) w by (metis add_mset_diff_bothsides insert_DiffM set_mset_mset subset_mset.diff_add_assoc2
            add_mset_add_single mset_subset_eq_insertD subset_mset.add_diff_assoc2 diff_subset_eq_self
            union_single_eq_member multiset_diff_union_assoc union_mset_add_mset_right add.right_neutral)
      finally have left: "add_mset (d, x) A - add_mset (d, x) (?K - {#w#}) = add_mset w (A - ?K)" .
      have "snd h \<le> snd v" if "h \<in># add_mset w (A - ?K)" "v \<in># add_mset (d, x) (?K - {#w#})" for h v
      proof -
        have "snd h \<le> snd w" using that(1) K(3) w by auto
        moreover have "snd w \<le> snd v" using that(2) True w by (auto dest: in_diffD)
        ultimately show ?thesis by simp
      qed
      moreover have "size (?K - {#w#}) = k - 1" "0 < k" using w size by (auto simp: size_Diff_singleton)
      moreover have "k \<le> size A" using size K(2) by simp
      moreover have kept: "mset (top_hits (top_collect d x c)) = add_mset (d, x) (?K - {#w#})"
        using True full assms(2,3) by (simp add: top_collect_def Let_def)
      ultimately show ?thesis using sub left unfolding best_of_def kept by auto
    next
      case False
      have "add_mset (d, x) A - ?K = add_mset (d, x) (A - ?K)"
        using K(1) by (metis add_mset_add_single subset_mset.add_diff_assoc2)
      moreover have "?K \<subseteq># add_mset (d, x) A" 
        using K(1) by (rule subset_mset.order_trans) (rule mset_subset_eqI, simp)
      ultimately show ?thesis using False full assms(2,3) K w size
        by (auto simp: best_of_def top_collect_def Let_def)
    qed
  qed
qed

lemma best_of_empty [simp]: "best_of k {#} {#}"
  by (simp add: best_of_def)

lemma top_collect_frame [simp]:
  "top_max_docs (top_collect d x c) = top_max_docs c" "top_min_score (top_collect d x c) = top_min_score c"
  "top_total_hits (top_collect d x c) = top_total_hits c + 1"
  by (cases "worst (top_hits c)"; simp add: top_collect_def Let_def)+

text \<open>Feeding hits to the collector, and the hits of several segments.\<close>

definition collect_all :: "(nat \<times> 'f::linorder) list \<Rightarrow> 'f top_docs \<Rightarrow> 'f top_docs" where
  "collect_all hits c = fold (\<lambda>(d, x). top_collect d x) hits c"

lemma feed_hits_top: "feed_hits top_collector hits c = Inr (True, collect_all hits c)"
  by (induction hits arbitrary: c) (auto simp: top_collector_def collect_all_def)

lemma merge_results_top: "merge_results top_collector (map Inr hss) c = Inr (collect_all (concat hss) c)"
  by (induction hss arbitrary: c) (simp_all add: feed_hits_top collect_all_def)

lemma collect_all_best:
  assumes "best_of k (mset (top_hits c)) A" "top_max_docs c = k" "\<forall>(d, x) \<in> set hits. top_min_score c \<le> x"
  shows "best_of k (mset (top_hits (collect_all hits c))) (A + mset hits)"
  using assms
proof (induction hits arbitrary: c A)
  case (Cons h hits)
  obtain d x where h: "h = (d, x)" by (cases h)
  have "best_of k (mset (top_hits (top_collect d x c))) (add_mset (d, x) A)"
    using Cons.prems h by (intro best_of_add) auto
  from Cons.IH [OF this] Cons.prems(2,3) h show ?case by (simp add: collect_all_def)
qed (simp add: collect_all_def)

lemma collect_all_frame: "top_max_docs (collect_all hits c) = top_max_docs c"
  "top_total_hits (collect_all hits c) = top_total_hits c + length hits"
  by (induction hits arbitrary: c) (auto simp: collect_all_def)

text \<open>The best of the best of several parts are the best of all.\<close>

lemma best_of_part:
  assumes part: "best_of k K1 A1" and K: "best_of k K (K1 + B)"
  shows "best_of k K (A1 + B)"
proof -
  have sub: "K1 \<subseteq># A1" "K \<subseteq># K1 + B" using assms by (simp_all add: best_of_def)
  have full: "size K1 = k" if "K1 \<noteq> A1"
    using that sub(1) part mset_subset_size [of K1 A1] by (auto simp: best_of_def subset_mset.less_le)
  have size: "size K = min k (size (A1 + B))"
    using K full sub size_mset_mono [OF sub(1)] by (cases "K1 = A1") (auto simp: best_of_def)
  have "snd h \<le> snd w" if h: "h \<in># A1 + B - K" and w: "w \<in># K" for h w
  proof (cases "h \<in># K1 + B - K")
    case True
    then show ?thesis using K w by (simp add: best_of_def)
  next
    case False
    then have c: "count K1 h < count A1 h"
      using h by (simp add: in_diff_count)
    then have in1: "h \<in># A1 - K1" and "K1 \<noteq> A1" by (auto simp: in_diff_count)
    show ?thesis
    proof (rule ccontr)
      assume "\<not> snd h \<le> snd w"
      then have lt: "snd w < snd h" by simp
      have "count K1 v \<le> count K v" for v
      proof (rule ccontr)
        assume n: "\<not> count K1 v \<le> count K v"
        then have "count K v < count (K1 + B) v" "v \<in># K1" by (auto simp flip: count_greater_zero_iff)
        then have "v \<in># K1 + B - K" by (simp add: in_diff_count)
        then have "snd v \<le> snd w" using K w by (simp add: best_of_def)
        moreover have "snd h \<le> snd v" using part in1 \<open>v \<in># K1\<close> by (simp add: best_of_def)
        ultimately show False using lt by simp
      qed
      then have "K1 \<subseteq># K" by (simp add: mset_subset_eqI)
      moreover have "size K \<le> size K1" using size full [OF \<open>K1 \<noteq> A1\<close>] by simp
      ultimately have "K1 = K" using mset_subset_size [of K1 K] by (auto simp: subset_mset.less_le)
      then have "snd h \<le> snd w" using part in1 w by (simp add: best_of_def)
      with lt show False by simp
    qed
  qed
  moreover have "K \<subseteq># A1 + B" using sub by (meson subset_mset.add_right_mono subset_mset.order_trans)
  ultimately show ?thesis using size by (simp add: best_of_def)
qed

lemma best_of_parts:
  assumes "list_all2 (best_of k) Ks As"
  shows "best_of k K (sum_list Ks + B) \<Longrightarrow> best_of k K (sum_list As + B)"
  using assms
proof (induction arbitrary: B rule: list_all2_induct)
  case (Cons K1 Ks A1 As)
  have "best_of k K (sum_list As + (K1 + B))" using Cons.IH [of "K1 + B"] Cons.prems by (simp add: ac_simps)
  then have "best_of k K (K1 + (sum_list As + B))" by (simp add: ac_simps)
  from best_of_part [OF Cons.hyps(1) this] show ?case by (simp add: ac_simps)
qed simp

text \<open>
  C29. Searching the segments one by one keeps the best: when every segment hands on the results of its own
  collector of the \<open>k\<close> best documents, the collector they are merged into returns, and keeps \<open>k\<close> best
  of all hits of all segments, or all of them when there are fewer, in order of their scores.
\<close>

theorem fanout_keeps_the_best:
  fixes zero :: "'a :: linorder"
  assumes "\<forall>hits \<in> set hss. \<forall>(d, x) \<in> set hits. zero \<le> x"
  shows "\<exists>c. merge_results top_collector (map (\<lambda>hits. Inr (top_results (collect_all hits (top_docs_new k zero)))) hss)
      (top_docs_new k zero) = Inr c \<and>
    best_of k (mset (top_results c)) (mset (concat hss)) \<and> sorted_wrt (\<lambda>a b. snd b \<le> snd a) (top_results c)"
proof -
  let ?top = "\<lambda>hits. top_results (collect_all hits (top_docs_new k zero))"
  have results: "mset (top_results c) = mset (top_hits c)" for c :: "'a top_docs" by (simp add: top_results_def)
  have best: "best_of k (mset (?top hits)) (mset hits)" if "\<forall>(d, x) \<in> set hits. zero \<le> x" for hits :: "(nat \<times> 'a) list"
    using collect_all_best [of k "top_docs_new k zero" "{#}" hits] that by (simp add: top_docs_new_def results)
  let ?c = "collect_all (concat (map ?top hss)) (top_docs_new k zero)"
  have "set (?top hits) \<subseteq> set hits" if "hits \<in> set hss" for hits
    using best [of hits] assms that set_mset_mono [of "mset (?top hits)" "mset hits"] by (simp add: best_of_def)
  then have "\<forall>(d, x) \<in> set (concat (map ?top hss)). zero \<le> x" using assms by fastforce
  from best [OF this] have merged: "best_of k (mset (top_results ?c)) (mset (concat (map ?top hss)))" .
  have "list_all2 (best_of k) (map (\<lambda>hits. mset (?top hits)) hss) (map mset hss)"
    using assms unfolding list_all2_conv_all_nth by (auto intro!: best dest: nth_mem)
  from best_of_parts [OF this, of "mset (top_results ?c)" "{#}"] merged
  have "best_of k (mset (top_results ?c)) (mset (concat hss))"
    by (simp add: mset_concat comp_def)
  moreover have "sorted_wrt (\<lambda>a b. snd b \<le> snd a) (top_results c)" for c :: "'a top_docs"
    using sorted_sort_key [of snd "top_hits c"] by (simp add: top_results_def sorted_wrt_rev sorted_map)
  ultimately show ?thesis using merge_results_top [of "map ?top hss"] by (simp add: comp_def)
qed

lemma fanout_keeps_the_best_witness:
  "\<exists>c. merge_results top_collector (map (\<lambda>hits. Inr (top_results (collect_all hits (top_docs_new 2 0))))
       [[(1, 5), (2, 1)], [(3, 4 :: nat)]]) (top_docs_new 2 0) = Inr c \<and> length (top_results c) = 2"
proof -
  have "\<forall>hits \<in> set [[(1, 5), (2, 1)], [(3, 4 :: nat)]]. \<forall>(d :: nat, x) \<in> set hits. 0 \<le> x" by simp
  from fanout_keeps_the_best [OF this, of 2] obtain c where c:
    "merge_results top_collector (map (\<lambda>hits. Inr (top_results (collect_all hits (top_docs_new 2 0))))
       [[(1, 5), (2, 1)], [(3, 4 :: nat)]]) (top_docs_new 2 0) = Inr c"
    "best_of 2 (mset (top_results c)) (mset (concat [[(1, 5), (2, 1)], [(3, 4 :: nat)]]))" by blast
  then have "size (mset (top_results c)) = 2" by (simp add: best_of_def)
  with c(1) show ?thesis by (intro exI [of _ c]) simp
qed

text \<open>A hit the collector calls not competitive would not be kept.\<close>

lemma not_competitive_not_kept:
  "min_competitive c = Some y \<Longrightarrow> x \<le> y \<Longrightarrow> top_hits (top_collect d x c) = top_hits c"
  by (cases "worst (top_hits c)") (auto simp: min_competitive_def top_collect_def Let_def split: if_splits)

end
