(* ===== verification/Segment_View.thy ===== *)
theory Segment_View
  imports Index_Reader Collectors
begin

text \<open>
  The search of an index segment by segment, \<open>search_per_segment_fanout\<close> of
  \<^verbatim>\<open>laurus/src/lexical/index/inverted/searcher.rs\<close>: every segment is searched through a
  \<open>PerSegmentReaderView\<close> (\<^verbatim>\<open>laurus/src/lexical/index/inverted/per_segment_view.rs\<close>), and the hits are merged.
\<close>

section \<open>The view of a segment\<close>

text \<open>
  Postings and live documents are the segment's, the document count is the index's, and so are the
  cached documents of a Filter clause. The caches are left out: for fields without \<open>U+0001\<close> they change
  no answer, of a segment (C19) or of the index (C26).
\<close>

definition view_ops ::
    "(bytes \<Rightarrow> bytes) \<Rightarrow> (bytes \<times> bytes \<Rightarrow> bool res) \<Rightarrow> bitpacker \<Rightarrow> 'c segment_reader list \<Rightarrow> 'c segment_reader \<Rightarrow>
     (bytes \<times> bytes, term_matcher) search_ops" where
  "view_ops dbg empties bp rs r =
     \<lparr>op_matcher = \<lambda>q. returned (plain_term_matcher bp [r] q),
      op_cache_key = \<lambda>q. Some (term_cache_key dbg q),
      op_cached_filter_doc_ids = op_cached_filter_doc_ids (index_ops dbg empties bp rs),
      op_is_empty = empties, op_rewrite = \<lambda>_. Inr None,
      op_live_doc_ids = map_sum id sorted_list_of_set (sg_live_doc_ids (rd_ids r)),
      op_doc_count = ir_doc_count (map rd_ids rs)\<rparr>"

text \<open>
  The hits of one segment: the documents of the query's matcher on the view, collected with their
  scores. The rewriting of the query before it, the block-max pruning and the batches in which the
  searcher asks for scores are left out.
\<close>

definition segment_hits ::
    "('c, 'f) collector_ops \<Rightarrow> ('c \<Rightarrow> (nat \<times> 'f) list) \<Rightarrow> (nat \<Rightarrow> 'f) \<Rightarrow> nat \<Rightarrow> (bytes \<times> bytes, term_matcher) search_ops \<Rightarrow>
     (bytes \<times> bytes) boolean_query \<Rightarrow> 'c \<Rightarrow> (nat \<times> 'f) list res option" where
  "segment_hits co results score fuel ops q c =
     (case boolean_matcher term_vt ops q of
        None \<Rightarrow> None
      | Some (Inl e) \<Rightarrow> Some (Inl e)
      | Some (Inr m) \<Rightarrow> map_option (\<lambda>ds. map_sum id results (feed co score ds c)) (matched_docs (boolean_vt term_vt) fuel m))"

section \<open>What a view matches\<close>

definition filtered :: "(bytes \<times> bytes) boolean_query \<Rightarrow> (bytes \<times> bytes) set" where
  "filtered q = cl_query ` set (clauses_by_occur Filter q)"

text \<open>The documents a clause denotes on the view of \<open>r\<close>: Filter clauses those of the index.\<close>

definition view_docs :: "bitpacker \<Rightarrow> 'c segment_reader list \<Rightarrow> 'c segment_reader \<Rightarrow> (bytes \<times> bytes) boolean_query \<Rightarrow> bytes \<times> bytes \<Rightarrow> nat set" where
  "view_docs bp rs r q t = (if t \<in> filtered q then index_docs bp rs t else seg_docs bp t r)"

definition view_live :: "'c segment_reader \<Rightarrow> nat set" where
  "view_live r = (case sg_live_doc_ids (rd_ids r) of Inr live \<Rightarrow> live | Inl _ \<Rightarrow> {})"

lemma served_single: "served bp H rs \<Longrightarrow> r \<in> set rs \<Longrightarrow> served bp H [r]"
  by (simp add: served_def)

lemma single_live: "ir_live_doc_ids [rd_ids r] = sg_live_doc_ids (rd_ids r)"
  by (cases "sg_live_doc_ids (rd_ids r)") simp_all

text \<open>The same answers, given by a source that keeps the contract of clauses.\<close>

definition mixed_ops ::
    "(bytes \<Rightarrow> bytes) \<Rightarrow> (bytes \<times> bytes \<Rightarrow> bool res) \<Rightarrow> bitpacker \<Rightarrow> 'c segment_reader list \<Rightarrow> 'c segment_reader \<Rightarrow>
     (bytes \<times> bytes) set \<Rightarrow> (bytes \<times> bytes, term_matcher) search_ops" where
  "mixed_ops dbg empties bp rs r F = (view_ops dbg empties bp rs r)
     \<lparr>op_matcher := \<lambda>t. op_matcher (if t \<in> F then index_ops dbg empties bp rs else index_ops dbg empties bp [r]) t,
      op_cached_filter_doc_ids := \<lambda>t. op_cached_filter_doc_ids (if t \<in> F then index_ops dbg empties bp rs else index_ops dbg empties bp [r]) t\<rparr>"

lemma mixed_clauses:
  assumes "served bp H rs" "r \<in> set rs"
  shows "clause_source term_vt term_inv term_docs (mixed_ops dbg empties bp rs r (filtered q)) (view_docs bp rs r q) (view_live r)"
proof -
  note whole = index_clauses [OF assms(1), of dbg empties] and part = index_clauses [OF served_single [OF assms], of dbg empties]
  have one: "index_docs bp [r] t = seg_docs bp t r" for t by (simp add: index_docs_def)
  have live: "index_live [r] = view_live r" by (simp add: index_live_def view_live_def single_live [simplified])
  show ?thesis
  proof
    fix t m ids
    show "term_inv m \<and> term_docs m = view_docs bp rs r q t" if "op_matcher (mixed_ops dbg empties bp rs r (filtered q)) t = Inr m"
      using that clause_source.matcher_of_clause [OF whole, of t m] clause_source.matcher_of_clause [OF part, of t m]
      by (simp add: mixed_ops_def view_docs_def one split: if_splits)
    show "set ids = view_docs bp rs r q t" if "op_cached_filter_doc_ids (mixed_ops dbg empties bp rs r (filtered q)) t = Inr (Some ids)"
      using that clause_source.cached_ids [OF whole, of t ids] clause_source.cached_ids [OF part, of t ids]
      by (simp add: mixed_ops_def view_docs_def one split: if_splits)
    show "set ids = view_live r" if "op_live_doc_ids (mixed_ops dbg empties bp rs r (filtered q)) = Inr ids"
      using that clause_source.live_ids [OF part, of ids]
      by (simp add: mixed_ops_def view_ops_def index_ops_def live single_live [simplified])
    show "view_docs bp rs r q t \<subseteq> {..<u64_max}"
      using clause_source.doc_id_bound(1) [OF whole, of t] clause_source.doc_id_bound(1) [OF part, of t]
      by (simp add: view_docs_def one)
    show "view_live r \<subseteq> {..<u64_max}" using clause_source.doc_id_bound(2) [OF part] by (simp add: live)
  qed
qed

lemma mixed_same:
  assumes "\<forall>c \<in> set (bq_clauses q). cl_occur c \<noteq> Filter \<longrightarrow> cl_query c \<notin> filtered q"
  shows "boolean_matcher v (view_ops dbg empties bp rs r) q = boolean_matcher v (mixed_ops dbg empties bp rs r (filtered q)) q"
proof (rule boolean_matcher_cong)
  show "\<forall>c \<in> set (bq_clauses q). clause_matcher (view_ops dbg empties bp rs r) c =
      clause_matcher (mixed_ops dbg empties bp rs r (filtered q)) c \<and>
      (cl_occur c \<noteq> Filter \<longrightarrow> op_matcher (view_ops dbg empties bp rs r) (cl_query c) =
        op_matcher (mixed_ops dbg empties bp rs r (filtered q)) (cl_query c))"
  proof
    fix c assume c: "c \<in> set (bq_clauses q)"
    have "cl_occur c = Filter \<Longrightarrow> cl_query c \<in> filtered q" using c by (auto simp: filtered_def clauses_by_occur_def)
    moreover have "cl_occur c \<noteq> Filter \<Longrightarrow> cl_query c \<notin> filtered q" using assms c by blast
    ultimately show "clause_matcher (view_ops dbg empties bp rs r) c = clause_matcher (mixed_ops dbg empties bp rs r (filtered q)) c \<and>
      (cl_occur c \<noteq> Filter \<longrightarrow> op_matcher (view_ops dbg empties bp rs r) (cl_query c) =
        op_matcher (mixed_ops dbg empties bp rs r (filtered q)) (cl_query c))"
      by (cases "cl_occur c = Filter"; cases "plain_matching bp rs (cl_query c)")
        (simp_all add: clause_matcher_def mixed_ops_def view_ops_def index_ops_def)
  qed
qed (simp add: mixed_ops_def)

section \<open>What the fanout finds\<close>

definition filters_apart :: "(bytes \<times> bytes) boolean_query \<Rightarrow> bool" where
  "filters_apart q \<longleftrightarrow> (\<forall>c \<in> set (bq_clauses q). cl_occur c \<noteq> Filter \<longrightarrow> cl_query c \<notin> filtered q)"

lemma view_search:
  assumes "served bp H rs" "r \<in> set rs" "filters_apart q" "\<forall>t e. \<not> term_error bp rs t e" "ok (sg_live_doc_ids (rd_ids r))"
    and "card (boolean_docs (view_docs bp rs r q) (view_live r) q) \<le> fuel"
  shows "segment_hits take_all id score fuel (view_ops dbg empties bp rs r) q [] =
    Some (Inr (map (\<lambda>d. (d, score d)) (sorted_list_of_set (boolean_docs (view_docs bp rs r q) (view_live r) q))))"
proof -
  let ?ops = "mixed_ops dbg empties bp rs r (filtered q)"
  have part: "term_error bp [r] t e \<Longrightarrow> term_error bp rs t e" for t e using assms(2) by (auto simp: term_error_def)
  have none: "op_matcher (index_ops dbg empties bp xs) t \<noteq> Inl e" "op_cached_filter_doc_ids (index_ops dbg empties bp xs) t \<noteq> Inl e"
    if "xs = rs \<or> xs = [r]" for xs t e
    using that index_ops_term_errors [OF assms(1), of dbg empties t e] part [of t e] assms(4)
      index_ops_term_errors [OF served_single [OF assms(1,2)], of dbg empties t e] by blast+
  have no: "\<not> (\<exists>t. op_matcher ?ops t = Inl e \<or> op_cached_filter_doc_ids ?ops t = Inl e)" for e
    by (simp add: mixed_ops_def none)
  have live: "op_live_doc_ids ?ops \<noteq> Inl e" for e using assms(5) by (auto simp: mixed_ops_def view_ops_def)
  from clause_source.boolean_search [OF mixed_clauses [OF assms(1,2)] assms(6), of dbg empties] obtain x where x:
    "boolean_matcher term_vt ?ops q = Some x"
    "case x of
       Inl e \<Rightarrow> (\<exists>t. op_matcher ?ops t = Inl e \<or> op_cached_filter_doc_ids ?ops t = Inl e) \<or> op_live_doc_ids ?ops = Inl e
     | Inr m \<Rightarrow> matched_docs (boolean_vt term_vt) fuel m =
         Some (sorted_list_of_set (boolean_docs (view_docs bp rs r q) (view_live r) q))" by blast
  then obtain m where "x = Inr m" using no live by (cases x) auto
  with x mixed_same [of q term_vt dbg empties bp rs r] assms(3) show ?thesis
    by (simp add: segment_hits_def filters_apart_def feed_take_all)
qed

lemma boolean_docs_pointwise:
  assumes "\<forall>t. d \<in> M t \<longleftrightarrow> d \<in> M' t" "d \<in> live \<longleftrightarrow> d \<in> live'"
  shows "d \<in> boolean_docs M live q \<longleftrightarrow> d \<in> boolean_docs M' live' q"
  using assms by (simp add: boolean_docs_def Let_def)

lemma live_apart:
  assumes "served bp H rs" "r \<in> set rs" "r' \<in> set rs" "d \<in> live_of H r" "d \<in> live_of H r'"
  shows "r = r'"
proof (rule ccontr)
  assume "r \<noteq> r'"
  obtain i j where ij: "i < length rs" "rs ! i = r" "j < length rs" "rs ! j = r'" using assms(2,3) by (auto simp: in_set_conv_nth)
  then have "i < j \<or> j < i" using \<open>r \<noteq> r'\<close> by (metis nat_neq_iff)
  then have "live_of H r \<inter> live_of H r' = {}"
    using assms(1) ij by (auto simp: served_def sorted_wrt_iff_nth_less)
  then show False using assms(4,5) by blast
qed

lemma seg_docs_live: "served bp H rs \<Longrightarrow> r \<in> set rs \<Longrightarrow> seg_docs bp t r \<subseteq> live_of H r"
  by (cases t) (auto simp: served_def)

lemma in_index_docs:
  assumes "served bp H rs" "r \<in> set rs" "d \<in> live_of H r"
  shows "d \<in> index_docs bp rs t \<longleftrightarrow> d \<in> seg_docs bp t r"
proof
  assume "d \<in> index_docs bp rs t"
  then obtain r' where "r' \<in> set rs" "d \<in> seg_docs bp t r'" by (auto simp: index_docs_def)
  moreover from this have "r = r'"
    using live_apart [OF assms(1,2) _ assms(3)] seg_docs_live [OF assms(1)] by blast
  ultimately show "d \<in> seg_docs bp t r" by simp
qed (use assms(2) in \<open>auto simp: index_docs_def\<close>)

lemma view_live_eq:
  assumes "served bp H rs" "r \<in> set rs" "ok (sg_live_doc_ids (rd_ids r))"
  shows "view_live r = live_of H r"
  using assms sg_counts(3) [of "rd_ids r" "H r"] by (auto simp: served_def view_live_def live_of_def ok_iff split: sum.splits)

lemma index_live_eq:
  assumes "served bp H rs" "\<forall>r \<in> set rs. ok (sg_live_doc_ids (rd_ids r))"
  shows "ir_live_doc_ids (map rd_ids rs) = Inr (\<Union>r \<in> set rs. live_of H r)"
  using assms
proof (induction rs)
  case (Cons r rs)
  then have "sg_live_doc_ids (rd_ids r) = Inr (live_of H r)"
    using sg_counts(3) [of "rd_ids r" "H r"] by (auto simp: served_def live_of_def ok_iff)
  with Cons.IH [OF served_Cons [OF Cons.prems(1)]] Cons.prems(2) show ?case by simp
qed simp

lemma boolean_docs_within: "(\<And>t. M t \<subseteq> X) \<Longrightarrow> live \<subseteq> X \<Longrightarrow> boolean_docs M live q \<subseteq> X"
proof -
  assume M: "\<And>t. M t \<subseteq> X" and live: "live \<subseteq> X"
  let ?r = "clauses_by_occur Must q @ clauses_by_occur Filter q"
  have "\<Inter> ((\<lambda>c. M (cl_query c)) ` set ?r) \<subseteq> X" if "?r \<noteq> []"
    using M that by (cases ?r) auto
  moreover have "\<Union> ((\<lambda>c. M (cl_query c)) ` S) \<subseteq> X" for S using M by blast
  ultimately show ?thesis using live unfolding boolean_docs_def Let_def by (auto split: if_splits)
qed

text \<open>A query some clause of which binds its documents to the segment.\<close>

definition anchored :: "'q boolean_query \<Rightarrow> bool" where
  "anchored q \<longleftrightarrow> clauses_by_occur Filter q = [] \<or> clauses_by_occur Must q \<noteq> [] \<or>
     (minimum_should_match q > 0 \<and> clauses_by_occur Should q \<noteq> [])"

lemma distinct_parts:
  "\<forall>x \<in> set xs. finite (D x) \<Longrightarrow> sorted_wrt (\<lambda>x y. D x \<inter> D y = {}) xs \<Longrightarrow>
    distinct (concat (map (\<lambda>x. sorted_list_of_set (D x)) xs))"
  by (induction xs) auto

lemma view_in_index:
  assumes "served bp H rs" "r \<in> set rs" "\<forall>r \<in> set rs. ok (sg_live_doc_ids (rd_ids r))" "d \<in> live_of H r"
  shows "d \<in> boolean_docs (view_docs bp rs r q) (view_live r) q \<longleftrightarrow> d \<in> boolean_docs (index_docs bp rs) (index_live rs) q"
proof (rule boolean_docs_pointwise)
  show "\<forall>t. d \<in> view_docs bp rs r q t \<longleftrightarrow> d \<in> index_docs bp rs t"
    using in_index_docs [OF assms(1,2,4)] by (simp add: view_docs_def)
  show "d \<in> view_live r \<longleftrightarrow> d \<in> index_live rs"
    using view_live_eq [OF assms(1,2)] index_live_eq [OF assms(1,3)] assms(2-4) by (auto simp: index_live_def)
qed

lemma anchored_view:
  assumes "served bp H rs" "r \<in> set rs" "\<forall>r \<in> set rs. ok (sg_live_doc_ids (rd_ids r))" "anchored q" "filters_apart q"
  shows "boolean_docs (view_docs bp rs r q) (view_live r) q \<subseteq> live_of H r"
proof -
  have local: "view_docs bp rs r q (cl_query c) \<subseteq> live_of H r" if "c \<in> set (clauses_by_occur occ q)" "occ \<noteq> Filter" for c occ
  proof -
    have "cl_query c \<notin> filtered q" using that assms(5) by (auto simp: filters_apart_def clauses_by_occur_def)
    then show ?thesis using seg_docs_live [OF assms(1,2)] by (simp add: view_docs_def)
  qed
  have live: "view_live r = live_of H r" using view_live_eq [OF assms(1,2)] assms(2,3) by blast
  let ?D = "\<lambda>occ. (\<lambda>c. view_docs bp rs r q (cl_query c)) ` set (clauses_by_occur occ q)"
  have union: "\<Union> (?D Should) \<subseteq> live_of H r" using local [of _ Should] by auto
  show ?thesis
  proof (cases "clauses_by_occur Must q = []")
    case False
    then obtain c where "c \<in> set (clauses_by_occur Must q)" by (cases "clauses_by_occur Must q") auto
    then have "\<Inter> (?D Must) \<subseteq> live_of H r" using local [of c Must] by auto
    then show ?thesis using False by (auto simp: boolean_docs_def Let_def image_Un)
  next
    case True
    with union live assms(4) show ?thesis
      by (cases "clauses_by_occur Filter q = []") (auto simp: anchored_def boolean_docs_def Let_def)
  qed
qed

lemma example_index_ok:
  "\<forall>r \<in> set example_index. ok (sg_live_doc_ids (rd_ids r))" "\<forall>t e. \<not> term_error plain_packer example_index t e"
  "index_docs plain_packer example_index ([98], [97]) = {9}"
  "card (\<Union>r \<in> set example_index. live_of whole r) \<le> 41"
proof -
  show "\<forall>r \<in> set example_index. ok (sg_live_doc_ids (rd_ids r))"
    using example_index_live
    by (cases "sg_live_doc_ids (rd_ids (other_segment (posting_cache_new list_lru 1000)) :: segment_ids)")
      (auto simp: rbind_Inr_iff)
  show "\<forall>t e. \<not> term_error plain_packer example_index t e" using example_no_error by blast
  show "index_docs plain_packer example_index ([98], [97]) = {9}" by (simp add: index_docs_def example_index_docs)
  have "(\<Union>r \<in> set example_index. live_of whole r) \<subseteq> {..40}"
    by (auto simp: live_of_def whole_def rd_info_def served_segment_def other_segment_def example_segment_info)
  from card_mono [OF _ this] show "card (\<Union>r \<in> set example_index. live_of whole r) \<le> 41" by simp
qed

text \<open>
  C27. Searching an index segment by segment finds what searching it at once does: the views of the
  segments together list each document the query stands for in the index, as its fields are documented,
  exactly once. The conditions: no document is live in two segments and the segments hold what their
  lists name (\<open>served\<close>), reading them does not fail, every document of the query has to match a
  clause that is not a Filter, or there is no Filter clause (\<open>anchored\<close>; C28 is what happens without),
  no clause of another kind asks for the term of a Filter clause (\<open>filters_apart\<close>), and the minimum of
  optional matches is at most one, and zero without an optional clause (\<open>minimum_plain\<close>).
\<close>

theorem fanout_exact:
  assumes "served bp H rs" "\<forall>t e. \<not> term_error bp rs t e" "\<forall>r \<in> set rs. ok (sg_live_doc_ids (rd_ids r))"
    and "anchored q" "filters_apart q" "minimum_plain q" "card (\<Union>r \<in> set rs. live_of H r) \<le> fuel"
  shows "\<exists>dss. list_all2 (\<lambda>r ds. segment_hits take_all id score fuel (view_ops dbg empties bp rs r) q [] =
      Some (Inr (map (\<lambda>d. (d, score d)) ds))) rs dss \<and>
    distinct (concat dss) \<and> set (concat dss) = documented_docs (index_docs bp rs) (index_live rs) q"
proof -
  let ?D = "\<lambda>r. boolean_docs (view_docs bp rs r q) (view_live r) q" and ?I = "boolean_docs (index_docs bp rs) (index_live rs) q"
  have within: "?D r \<subseteq> live_of H r" if "r \<in> set rs" for r using anchored_view [OF assms(1) that assms(3-5)] .
  have fin: "finite (live_of H r)" if "r \<in> set rs" for r
    using live_of_bound [of r H] assms(1) that by (simp add: served_def)
  have hits: "segment_hits take_all id score fuel (view_ops dbg empties bp rs r) q [] =
      Some (Inr (map (\<lambda>d. (d, score d)) (sorted_list_of_set (?D r))))" if r: "r \<in> set rs" for r
  proof (rule view_search [OF assms(1) r assms(5,2)])
    have "?D r \<subseteq> (\<Union>r \<in> set rs. live_of H r)" using within [OF r] r by blast
    then have "card (?D r) \<le> card (\<Union>r \<in> set rs. live_of H r)" using fin by (intro card_mono) auto
    then show "card (?D r) \<le> fuel" using assms(7) by simp
  qed (use assms(3) r in blast)
  have D: "?D r = ?I \<inter> live_of H r" if "r \<in> set rs" for r
    using within [OF that] view_in_index [OF assms(1) that assms(3)] by blast
  have "index_docs bp rs t \<subseteq> (\<Union>r \<in> set rs. live_of H r)" for t
    unfolding index_docs_def using seg_docs_live [OF assms(1)] by blast
  then have "?I \<subseteq> (\<Union>r \<in> set rs. live_of H r)"
    using index_live_eq [OF assms(1,3)] by (intro boolean_docs_within) (simp_all add: index_live_def)
  then have I: "?I = (\<Union>r \<in> set rs. ?D r)" using D by blast
  have "sorted_wrt (\<lambda>r r'. ?D r \<inter> ?D r' = {}) rs"
    by (rule sorted_wrt_mono_rel [of _ "\<lambda>r r'. live_of H r \<inter> live_of H r' = {}"])
      (use assms(1) within in \<open>auto simp: served_def\<close>)
  then have "distinct (concat (map (\<lambda>r. sorted_list_of_set (?D r)) rs))"
    using finite_subset [OF within fin] by (intro distinct_parts) auto
  moreover have "set (concat (map (\<lambda>r. sorted_list_of_set (?D r)) rs)) = ?I"
    using finite_subset [OF within fin] unfolding I by auto
  moreover have "list_all2 (\<lambda>r ds. segment_hits take_all id score fuel (view_ops dbg empties bp rs r) q [] =
      Some (Inr (map (\<lambda>d. (d, score d)) ds))) rs (map (\<lambda>r. sorted_list_of_set (?D r)) rs)"
    by (simp add: list_all2_conv_all_nth hits)
  ultimately show ?thesis unfolding boolean_docs_documented [OF assms(6), symmetric] by blast
qed

lemma fanout_exact_witness:
  "\<exists>dss. length dss = 2 \<and> set (concat dss) = {9} \<and>
    list_all2 (\<lambda>r ds. segment_hits take_all id (\<lambda>_. 1 :: nat) 41 (view_ops quoted (\<lambda>_. Inr False) plain_packer example_index r)
      \<lparr>bq_clauses = [\<lparr>cl_query = ([98], [97]), cl_occur = Must\<rparr>], minimum_should_match = 0\<rparr> [] =
      Some (Inr (map (\<lambda>d. (d, 1)) ds))) example_index dss"
proof -
  let ?q = "\<lparr>bq_clauses = [\<lparr>cl_query = ([98 :: u8], [97 :: u8]), cl_occur = Must\<rparr>], minimum_should_match = 0\<rparr>"
  have q: "anchored ?q" "filters_apart ?q" "minimum_plain ?q" by (simp_all add: minimum_plain_def anchored_def filters_apart_def filtered_def clauses_by_occur_def)
  have docs: "documented_docs (index_docs plain_packer example_index) (index_live example_index) ?q = {9}"
    by (simp add: documented_docs_def clauses_by_occur_def example_index_ok(3))
  from fanout_exact [OF example_index_served example_index_ok(2,1) q example_index_ok(4), of "\<lambda>_. 1 :: nat" quoted "\<lambda>_. Inr False"]
  obtain dss where dss: "list_all2 (\<lambda>r ds. segment_hits take_all id (\<lambda>_. 1 :: nat) 41
      (view_ops quoted (\<lambda>_. Inr False) plain_packer example_index r) ?q [] = Some (Inr (map (\<lambda>d. (d, 1)) ds))) example_index dss"
    "set (concat dss) = {9}" unfolding docs by blast
  from list_all2_lengthD [OF dss(1)] have "length dss = 2" by simp
  with dss show ?thesis by blast
qed

text \<open>
  C28. Without such a clause it does not: a query of a Filter clause alone is answered by every segment
  with the documents of the whole index, so that the merged hits list each of them once per segment.
\<close>

theorem fanout_repeats_filter_hits:
  fixes score :: "nat \<Rightarrow> 'f"
  assumes "served bp H rs" "\<forall>t e. \<not> term_error bp rs t e" "\<forall>r \<in> set rs. ok (sg_live_doc_ids (rd_ids r))"
    and "card (index_docs bp rs f) \<le> fuel" "q = \<lparr>bq_clauses = [\<lparr>cl_query = f, cl_occur = Filter\<rparr>], minimum_should_match = n\<rparr>"
  shows "\<exists>hss. list_all2 (\<lambda>r hits. segment_hits take_all id score fuel (view_ops dbg empties bp rs r) q [] = Some hits) rs hss \<and>
    merge_results take_all hss [] =
      Inr (concat (replicate (length rs) (map (\<lambda>d. (d, score d)) (sorted_list_of_set (index_docs bp rs f)))))"
proof -
  let ?hits = "map (\<lambda>d. (d, score d)) (sorted_list_of_set (index_docs bp rs f))"
  have D: "boolean_docs (view_docs bp rs r q) (view_live r) q = index_docs bp rs f" for r
    by (simp add: assms(5) boolean_docs_def clauses_by_occur_def view_docs_def filtered_def)
  have "segment_hits take_all id score fuel (view_ops dbg empties bp rs r) q [] = Some (Inr ?hits)" if "r \<in> set rs" for r
    using view_search [OF assms(1) that _ assms(2), of q fuel score dbg empties] assms(3,4) that unfolding D
    by (auto simp: filters_apart_def assms(5))
  then have "list_all2 (\<lambda>r hits. segment_hits take_all id score fuel (view_ops dbg empties bp rs r) q [] = Some hits) rs
      (replicate (length rs) (Inr ?hits))" by (simp add: list_all2_conv_all_nth)
  moreover have "feed_hits take_all hits c = Inr (True, c @ hits)" for hits c :: "(nat \<times> 'f) list"
    by (induction hits arbitrary: c) (auto simp: take_all_def)
  then have merged: "merge_results take_all (replicate k (Inr hits)) c = Inr (c @ concat (replicate k hits))" for k hits and c :: "(nat \<times> 'f) list"
    by (induction k arbitrary: c) simp_all
  from merged [of "length rs" ?hits "[]"] have
    "merge_results take_all (replicate (length rs) (Inr ?hits)) [] = Inr (concat (replicate (length rs) ?hits))" by simp
  ultimately show ?thesis by blast
qed

lemma fanout_repeats_filter_hits_witness:
  "\<exists>hss. list_all2 (\<lambda>r hits. segment_hits take_all id (\<lambda>_. 1 :: nat) 41
      (view_ops quoted (\<lambda>_. Inr False) plain_packer example_index r)
      \<lparr>bq_clauses = [\<lparr>cl_query = ([98], [97]), cl_occur = Filter\<rparr>], minimum_should_match = 0\<rparr> [] = Some hits) example_index hss \<and>
    merge_results take_all hss [] = Inr [(9, 1), (9, 1)]"
proof -
  have "card (index_docs plain_packer example_index ([98], [97])) \<le> 41" by (simp add: example_index_ok(3))
  from fanout_repeats_filter_hits [OF example_index_served example_index_ok(2,1) this refl, of "\<lambda>_. 1 :: nat" quoted "\<lambda>_. Inr False" 0]
  show ?thesis unfolding example_index_ok(3) by (simp add: numeral_2_eq_2)
qed

text \<open>With an excluding clause, segments that do not hold a document do not know that it is excluded.\<close>

lemma fanout_returns_excluded:
  assumes "f \<noteq> x" "d \<in> index_docs bp rs f" "d \<in> index_docs bp rs x" "d \<notin> seg_docs bp x r"
    and "q = \<lparr>bq_clauses = [\<lparr>cl_query = f, cl_occur = Filter\<rparr>, \<lparr>cl_query = x, cl_occur = MustNot\<rparr>], minimum_should_match = n\<rparr>"
  shows "d \<notin> boolean_docs (index_docs bp rs) (index_live rs) q" "d \<in> boolean_docs (view_docs bp rs r q) (view_live r) q"
  using assms by (simp_all add: boolean_docs_def clauses_by_occur_def view_docs_def filtered_def)

end
