(* ===== verification/Term_Info_Block.thy ===== *)
theory Term_Info_Block
  imports Struct_File
begin

text \<open>
  The bit-packed part of a dictionary block,
  \<^verbatim>\<open>laurus/src/lexical/index/structures/dictionary/term_info_block.rs\<close>: the offsets and counts of up to
  128 terms as deltas from their minimum in as few bits as the largest needs. \<open>None\<close> is a panic of
  the source, an index out of range or a failed assertion, so that a lemma can say there is none.
\<close>

unbundle bit_operations_syntax

section \<open>Steps that may panic\<close>

type_synonym 'a outcome = "'a res option"

definition pbind :: "'a outcome \<Rightarrow> ('a \<Rightarrow> 'b outcome) \<Rightarrow> 'b outcome" where
  "pbind m f = (case m of None \<Rightarrow> None | Some (Inl e) \<Rightarrow> Some (Inl e) | Some (Inr x) \<Rightarrow> f x)"

lemma pbind_simps [simp, res_simps]: "pbind None f = None" "pbind (Some (Inl e)) f = Some (Inl e)"
  "pbind (Some (Inr x)) f = f x"
  by (simp_all add: pbind_def)

lemma pbind_Inr_iff: "pbind m f = Some (Inr y) \<longleftrightarrow> (\<exists>x. m = Some (Inr x) \<and> f x = Some (Inr y))"
  by (auto simp: pbind_def split: option.splits sum.splits)

text \<open>A step that returns or fails, but does not panic.\<close>

definition no_panic :: "'a option \<Rightarrow> bool" where
  "no_panic m \<longleftrightarrow> m \<noteq> None"

lemma no_panic_simps [simp]: "no_panic (Some x)" "\<not> no_panic None" "no_panic (map_option f m) \<longleftrightarrow> no_panic m"
  by (simp_all add: no_panic_def)

lemma no_panic_pbind [intro]: "no_panic m \<Longrightarrow> (\<And>x. m = Some (Inr x) \<Longrightarrow> no_panic (f x)) \<Longrightarrow> no_panic (pbind m f)"
  by (auto simp: pbind_def no_panic_def split: option.splits sum.splits)

lemma no_panic_bind [intro]: "no_panic m \<Longrightarrow> (\<And>x. m = Some x \<Longrightarrow> no_panic (f x)) \<Longrightarrow> no_panic (Option.bind m f)"
  by (cases m) simp_all

text \<open>A range index \<open>&xs[i..i + n]\<close>.\<close>

definition sub_slice :: "nat \<Rightarrow> nat \<Rightarrow> 'a list \<Rightarrow> 'a list option" where
  "sub_slice i n xs = (if i + n \<le> length xs then Some (take n (drop i xs)) else None)"

definition checked_add :: "u64 \<Rightarrow> u64 \<Rightarrow> u64 option" where
  "checked_add a b = (if unat a + unat b < 2 ^ 64 then Some (a + b) else None)"

section \<open>Bits\<close>

text \<open>
  \<open>write_bits\<close> and \<open>read_bits\<close>, least significant bit first within each byte. A \<open>bit_in_byte\<close> of 8 or
  more is never reached.
\<close>

definition low_mask :: "nat \<Rightarrow> u8" where
  "low_mask n = ucast (push_bit n 1 - 1 :: u16)"

function write_bits_loop :: "bytes \<Rightarrow> nat \<Rightarrow> nat \<Rightarrow> u64 \<Rightarrow> nat \<Rightarrow> bytes option" where
  "write_bits_loop bits byte_idx bit_in_byte value remaining =
     (if remaining = 0 then Some bits
      else if bit_in_byte \<ge> 8 \<or> byte_idx \<ge> length bits then None
      else
        let n = min remaining (8 - bit_in_byte);
            chunk = ucast value AND low_mask n;
            bits' = bits[byte_idx := bits ! byte_idx OR push_bit bit_in_byte chunk];
            value' = (if n = 64 then 0 else drop_bit n value)
        in if bit_in_byte + n = 8 then write_bits_loop bits' (byte_idx + 1) 0 value' (remaining - n)
           else write_bits_loop bits' byte_idx (bit_in_byte + n) value' (remaining - n))"
  by pat_completeness auto
termination
  by (relation "measure (\<lambda>(_, _, _, _, remaining). remaining)") auto

definition write_bits :: "bytes \<Rightarrow> nat \<Rightarrow> u64 \<Rightarrow> nat \<Rightarrow> bytes option" where
  "write_bits bits bit_offset value nbits =
     (if nbits = 0 then Some bits else write_bits_loop bits (bit_offset div 8) (bit_offset mod 8) value nbits)"

function read_bits_loop :: "bytes \<Rightarrow> nat \<Rightarrow> nat \<Rightarrow> u64 \<Rightarrow> nat \<Rightarrow> nat \<Rightarrow> u64 option" where
  "read_bits_loop bits byte_idx bit_in_byte result shift remaining =
     (if remaining = 0 then Some result
      else if bit_in_byte \<ge> 8 \<or> byte_idx \<ge> length bits \<or> shift \<ge> 64 then None
      else
        let n = min remaining (8 - bit_in_byte);
            chunk = drop_bit bit_in_byte (bits ! byte_idx) AND low_mask n;
            result' = result OR push_bit shift (ucast chunk)
        in if bit_in_byte + n = 8 then read_bits_loop bits (byte_idx + 1) 0 result' (shift + n) (remaining - n)
           else read_bits_loop bits byte_idx (bit_in_byte + n) result' (shift + n) (remaining - n))"
  by pat_completeness auto
termination
  by (relation "measure (\<lambda>(_, _, _, _, _, remaining). remaining)") auto

definition read_bits :: "bytes \<Rightarrow> nat \<Rightarrow> nat \<Rightarrow> u64 option" where
  "read_bits bits bit_offset nbits =
     (if nbits = 0 then Some 0 else read_bits_loop bits (bit_offset div 8) (bit_offset mod 8) 0 0 nbits)"

declare write_bits_loop.simps [simp del] read_bits_loop.simps [simp del]

text \<open>\<open>leading_zeros\<close> of the standard library, and the bits a value needs.\<close>

definition leading_zeros :: "u64 \<Rightarrow> nat" where
  "leading_zeros v = length (takeWhile Not (rev (map (bit v) [0..<64])))"

definition bits_required :: "u64 \<Rightarrow> u8" where
  "bits_required v = (if v = 0 then 0 else word_of_nat (64 - leading_zeros v))"

section \<open>What is written is read\<close>

text \<open>A packed section is its bits.\<close>

definition bit_at :: "bytes \<Rightarrow> nat \<Rightarrow> bool" where
  "bit_at bs k \<longleftrightarrow> k div 8 < length bs \<and> bit (bs ! (k div 8)) (k mod 8)"

lemma bit_low_mask: "n \<le> 8 \<Longrightarrow> bit (low_mask n) k \<longleftrightarrow> k < n"
proof -
  assume "n \<le> 8"
  have "low_mask n = ucast (mask n :: u16)" by (simp add: low_mask_def mask_eq_exp_minus_1 push_bit_eq_mult)
  with \<open>n \<le> 8\<close> show ?thesis by (auto simp: bit_simps)
qed

lemma bit_u8: "bit (w :: u8) k \<Longrightarrow> k < 8"
  using bit_imp_le_length [of w k] by simp

lemma bit_at_update:
  assumes "i < length bs" "b + n \<le> 8"
  shows "bit_at (bs[i := bs ! i OR push_bit b (ucast v AND low_mask n)]) k \<longleftrightarrow>
    bit_at bs k \<or> (8 * i + b \<le> k \<and> k < 8 * i + b + n \<and> bit (v :: u64) (k - (8 * i + b)))"
proof (cases "k div 8 = i")
  case True
  then have k: "k = 8 * i + k mod 8" "k mod 8 < 8" using mult_div_mod_eq [of 8 k] by simp_all
  have "8 * i + b \<le> k \<longleftrightarrow> b \<le> k mod 8" "k < 8 * i + b + n \<longleftrightarrow> k mod 8 < b + n" "k - (8 * i + b) = k mod 8 - b"
    using k by linarith+
  moreover have "b \<le> k mod 8 \<Longrightarrow> k mod 8 < b + n \<longleftrightarrow> k mod 8 - b < n" "k mod 8 - b < 8" using k(2) by linarith+
  ultimately show ?thesis using True assms k(2) by (auto simp: bit_at_def bit_simps bit_low_mask)
next
  case False
  then have "\<not> (8 * i + b \<le> k \<and> k < 8 * i + b + n)" using assms(2) by auto
  with False show ?thesis by (auto simp: bit_at_def)
qed

lemma write_bits_loop_ok:
  assumes "b < 8" "8 * i + b + r \<le> 8 * length bs"
  shows "\<exists>bs'. write_bits_loop bs i b v r = Some bs' \<and> length bs' = length bs \<and>
    (\<forall>k. bit_at bs' k \<longleftrightarrow> bit_at bs k \<or> (8 * i + b \<le> k \<and> k < 8 * i + b + r \<and> bit v (k - (8 * i + b))))"
  using assms
proof (induction bs i b v r rule: write_bits_loop.induct)
  case (1 bs i b v r)
  show ?case
  proof (cases "r = 0")
    case True
    then show ?thesis by (auto simp: write_bits_loop.simps)
  next
    case False
    let ?n = "min r (8 - b)"
    let ?bs = "bs[i := bs ! i OR push_bit b (ucast v AND low_mask ?n)]"
    let ?at = "8 * i + b"
    have i: "i < length bs" "\<not> (8 \<le> b \<or> length bs \<le> i)" using False "1.prems" by auto
    have n: "b + ?n \<le> 8" "0 < ?n" "?n \<noteq> 64" using False "1.prems"(1) by auto
    have v: "(if ?n = 64 then 0 else drop_bit ?n v) = drop_bit ?n v" using n(3) by simp
    note upd = bit_at_update [OF i(1) n(1), of v]
    define i' where "i' = (if b + ?n = 8 then i + 1 else i)"
    define b' where "b' = (if b + ?n = 8 then 0 else b + ?n)"
    have at': "8 * i' + b' = ?at + ?n" "b' < 8" using n(1) by (auto simp: i'_def b'_def)
    have end': "8 * i' + b' + (r - ?n) = ?at + r" using at'(1) by simp
    have step: "write_bits_loop bs i b v r = write_bits_loop ?bs i' b' (drop_bit ?n v) (r - ?n)"
      using False i(2) v by (subst write_bits_loop.simps) (simp add: Let_def i'_def b'_def)
    have room: "8 * i' + b' + (r - ?n) \<le> 8 * length ?bs" using "1.prems"(2) unfolding at' by simp
    have "\<exists>bs'. write_bits_loop ?bs i' b' (drop_bit ?n v) (r - ?n) = Some bs' \<and> length bs' = length ?bs \<and>
      (\<forall>k. bit_at bs' k \<longleftrightarrow> bit_at ?bs k \<or>
        (8 * i' + b' \<le> k \<and> k < 8 * i' + b' + (r - ?n) \<and> bit (drop_bit ?n v) (k - (8 * i' + b'))))"
    proof (cases "b + ?n = 8")
      case True
      then have e: "i' = i + 1" "b' = 0" by (simp_all add: i'_def b'_def)
      from "1.IH"(1) [OF False i(2) refl refl refl refl True] room show ?thesis unfolding e v by simp
    next
      case differs: False
      then have e: "i' = i" "b' = b + ?n" by (simp_all add: i'_def b'_def)
      from "1.IH"(2) [OF False i(2) refl refl refl refl differs] room at'(2) show ?thesis unfolding e v by blast
    qed
    then obtain bs' where bs': "write_bits_loop bs i b v r = Some bs'" "length bs' = length bs"
      "\<And>k. bit_at bs' k \<longleftrightarrow> bit_at ?bs k \<or> (?at + ?n \<le> k \<and> k < ?at + r \<and> bit (drop_bit ?n v) (k - (?at + ?n)))"
      unfolding step end' unfolding at' by (auto intro: that)
    have "bit_at bs' k \<longleftrightarrow> bit_at bs k \<or> (?at \<le> k \<and> k < ?at + r \<and> bit v (k - ?at))" for k
    proof -
      have "?n + (k - (?at + ?n)) = k - ?at" if "?at + ?n \<le> k" using that by simp
      then show ?thesis using n(2) unfolding bs'(3) upd by (cases "?at + ?n \<le> k") (auto simp: bit_drop_bit_eq)
    qed
    with bs'(1,2) show ?thesis by blast
  qed
qed

lemma write_bits_ok:
  assumes "at + n \<le> 8 * length bs"
  shows "\<exists>bs'. write_bits bs at v n = Some bs' \<and> length bs' = length bs \<and>
    (\<forall>k. bit_at bs' k \<longleftrightarrow> bit_at bs k \<or> (at \<le> k \<and> k < at + n \<and> bit v (k - at)))"
  using write_bits_loop_ok [of "at mod 8" "at div 8" n bs v] assms by (auto simp: write_bits_def)

lemma read_bits_loop_ok:
  assumes "b < 8" "8 * i + b + r \<le> 8 * length bs" "s + r \<le> 64"
  shows "\<exists>x. read_bits_loop bs i b acc s r = Some x \<and>
    (\<forall>j < 64. bit x j \<longleftrightarrow> bit acc j \<or> (s \<le> j \<and> j < s + r \<and> bit_at bs (8 * i + b + (j - s))))"
  using assms
proof (induction bs i b acc s r rule: read_bits_loop.induct)
  case (1 bs i b acc s r)
  show ?case
  proof (cases "r = 0")
    case True
    then show ?thesis by (auto simp: read_bits_loop.simps)
  next
    case False
    let ?n = "min r (8 - b)"
    let ?acc = "acc OR push_bit s (ucast (drop_bit b (bs ! i) AND low_mask ?n))"
    let ?at = "8 * i + b"
    have i: "i < length bs" "\<not> (8 \<le> b \<or> length bs \<le> i \<or> 64 \<le> s)" using False "1.prems" by auto
    have n: "b + ?n \<le> 8" "0 < ?n" "s + ?n + (r - ?n) \<le> 64" using False "1.prems"(1,3) by auto
    have acc: "bit ?acc j \<longleftrightarrow> bit acc j \<or> (s \<le> j \<and> j < s + ?n \<and> bit_at bs (?at + (j - s)))" if "j < 64" for j
    proof -
      have "(?at + (j - s)) div 8 = i" "(?at + (j - s)) mod 8 = b + (j - s)" if "j - s < ?n"
      proof -
        have "b + (j - s) < 8" using that n(1) by linarith
        then have "(8 * i + (b + (j - s))) div 8 = i" "(8 * i + (b + (j - s))) mod 8 = b + (j - s)" by simp_all
        then show "(?at + (j - s)) div 8 = i" "(?at + (j - s)) mod 8 = b + (j - s)" by (simp_all add: add.assoc)
      qed
      moreover have "j - s < ?n \<longleftrightarrow> j < s + ?n" if "s \<le> j" using that by linarith
      moreover have "j - s < 64" using \<open>j < 64\<close> by simp
      ultimately show ?thesis using \<open>j < 64\<close> n(1) i(1)
        by (cases "s \<le> j \<and> j < s + ?n") (auto simp: bit_at_def bit_simps bit_low_mask)
    qed
    define i' where "i' = (if b + ?n = 8 then i + 1 else i)"
    define b' where "b' = (if b + ?n = 8 then 0 else b + ?n)"
    have at': "8 * i' + b' = ?at + ?n" "b' < 8" using n(1) by (auto simp: i'_def b'_def)
    have step: "read_bits_loop bs i b acc s r = read_bits_loop bs i' b' ?acc (s + ?n) (r - ?n)"
      using False i(2) by (subst read_bits_loop.simps) (simp add: Let_def i'_def b'_def)
    have room: "8 * i' + b' + (r - ?n) \<le> 8 * length bs" using "1.prems"(2) unfolding at' by simp
    have "\<exists>x. read_bits_loop bs i' b' ?acc (s + ?n) (r - ?n) = Some x \<and>
      (\<forall>j < 64. bit x j \<longleftrightarrow> bit ?acc j \<or>
        (s + ?n \<le> j \<and> j < s + ?n + (r - ?n) \<and> bit_at bs (8 * i' + b' + (j - (s + ?n)))))"
    proof (cases "b + ?n = 8")
      case True
      then have e: "i' = i + 1" "b' = 0" by (simp_all add: i'_def b'_def)
      from "1.IH"(1) [OF False i(2) refl refl refl True] room n(3) show ?thesis unfolding e by simp
    next
      case differs: False
      then have e: "i' = i" "b' = b + ?n" by (simp_all add: i'_def b'_def)
      from "1.IH"(2) [OF False i(2) refl refl refl differs] room n(3) at'(2) show ?thesis unfolding e by blast
    qed
    then obtain x where x: "read_bits_loop bs i b acc s r = Some x"
      "\<And>j. j < 64 \<Longrightarrow> bit x j \<longleftrightarrow> bit ?acc j \<or> (s + ?n \<le> j \<and> j < s + r \<and> bit_at bs (?at + ?n + (j - (s + ?n))))"
      unfolding step at' by auto
    have "bit x j \<longleftrightarrow> bit acc j \<or> (s \<le> j \<and> j < s + r \<and> bit_at bs (?at + (j - s)))" if "j < 64" for j
    proof -
      have "?at + ?n + (j - (s + ?n)) = ?at + (j - s)" if "s + ?n \<le> j" using that by simp
      then have tail: "s + ?n \<le> j \<and> j < s + r \<and> bit_at bs (?at + ?n + (j - (s + ?n))) \<longleftrightarrow>
          s + ?n \<le> j \<and> j < s + r \<and> bit_at bs (?at + (j - s))" by (metis (no_types))
      have "j < s + r" if "j < s + ?n" using that by simp
      then show ?thesis unfolding x(2) [OF that] acc [OF that] tail by (cases "s + ?n \<le> j") auto
    qed
    with x(1) show ?thesis by blast
  qed
qed

lemma read_bits_ok:
  assumes "at + n \<le> 8 * length bs" "n \<le> 64"
  shows "\<exists>x. read_bits bs at n = Some x \<and> (\<forall>j < 64. bit x j \<longleftrightarrow> j < n \<and> bit_at bs (at + j))"
  using read_bits_loop_ok [of "at mod 8" "at div 8" n bs 0 0] assms by (auto simp: read_bits_def)

section \<open>The block\<close>

definition BLOCK_TERM_COUNT :: nat where "BLOCK_TERM_COUNT = 128"

record fixed_info =
  fi_posting_offset :: u64
  fi_posting_length :: u64
  fi_doc_frequency :: u64
  fi_total_frequency :: u64
  fi_max_score_factor :: u32

record fixed_block =
  fb_term_count :: u16
  block_min_posting_offset :: u64
  block_min_posting_length :: u64
  block_min_doc_frequency :: u64
  block_min_total_frequency :: u64
  ref_max_score_factor :: u32
  posting_offset_nbits :: u8
  posting_length_nbits :: u8
  doc_frequency_nbits :: u8
  total_frequency_nbits :: u8
  max_score_factor_size :: u8
  fb_payload :: bytes

definition bits_per_entry :: "fixed_block \<Rightarrow> nat" where
  "bits_per_entry b = unat (posting_offset_nbits b) + unat (posting_length_nbits b) + unat (doc_frequency_nbits b) +
     unat (total_frequency_nbits b)"

definition packed_len :: "nat \<Rightarrow> nat \<Rightarrow> nat" where
  "packed_len bits term_count = (bits * term_count + 7) div 8"

definition factor_len :: "u8 \<Rightarrow> nat \<Rightarrow> nat" where
  "factor_len factor_size term_count = (if factor_size = 0 then 0 else 4 * term_count)"

text \<open>
  \<open>encode\<close>: the header first, then the deltas of each entry in the packed section, then the factors.
  The source allocates both sections as one vector.
\<close>

definition min_of :: "(fixed_info \<Rightarrow> u64) \<Rightarrow> fixed_info list \<Rightarrow> u64" where
  "min_of field entries = fold (\<lambda>e m. min m (field e)) entries (- 1)"

definition max_of :: "(fixed_info \<Rightarrow> u64) \<Rightarrow> fixed_info list \<Rightarrow> u64" where
  "max_of field entries = fold (\<lambda>e m. max m (field e)) entries 0"

definition nbits_of :: "(fixed_info \<Rightarrow> u64) \<Rightarrow> fixed_info list \<Rightarrow> u8" where
  "nbits_of field entries = bits_required (max_of field entries - min_of field entries)"

definition fixed_header :: "fixed_info list \<Rightarrow> fixed_block" where
  "fixed_header entries =
     (let ref = fi_max_score_factor (hd entries)
      in \<lparr>fb_term_count = word_of_nat (length entries),
          block_min_posting_offset = min_of fi_posting_offset entries,
          block_min_posting_length = min_of fi_posting_length entries,
          block_min_doc_frequency = min_of fi_doc_frequency entries,
          block_min_total_frequency = min_of fi_total_frequency entries,
          ref_max_score_factor = ref,
          posting_offset_nbits = nbits_of fi_posting_offset entries,
          posting_length_nbits = nbits_of fi_posting_length entries,
          doc_frequency_nbits = nbits_of fi_doc_frequency entries,
          total_frequency_nbits = nbits_of fi_total_frequency entries,
          max_score_factor_size = (if \<forall>e \<in> set entries. fi_max_score_factor e = ref then 0 else 32),
          fb_payload = []\<rparr>)"

fun pack_entries :: "fixed_block \<Rightarrow> nat \<Rightarrow> fixed_info list \<Rightarrow> bytes \<Rightarrow> bytes option" where
  "pack_entries h i [] bs = Some bs"
| "pack_entries h i (e # es) bs =
     (let at0 = bits_per_entry h * i;
          at1 = at0 + unat (posting_offset_nbits h);
          at2 = at1 + unat (posting_length_nbits h);
          at3 = at2 + unat (doc_frequency_nbits h)
      in Option.bind (write_bits bs at0 (fi_posting_offset e - block_min_posting_offset h) (unat (posting_offset_nbits h))) (\<lambda>bs.
         Option.bind (write_bits bs at1 (fi_posting_length e - block_min_posting_length h) (unat (posting_length_nbits h))) (\<lambda>bs.
         Option.bind (write_bits bs at2 (fi_doc_frequency e - block_min_doc_frequency h) (unat (doc_frequency_nbits h))) (\<lambda>bs.
         Option.bind (write_bits bs at3 (fi_total_frequency e - block_min_total_frequency h) (unat (total_frequency_nbits h)))
           (pack_entries h (i + 1) es)))))"

definition encode_fixed :: "fixed_info list \<Rightarrow> fixed_block option" where
  "encode_fixed entries =
     (if entries = [] \<or> length entries > BLOCK_TERM_COUNT then None
      else
        let h = fixed_header entries;
            bytes_4fields = packed_len (bits_per_entry h) (length entries);
            factors = (if max_score_factor_size h = 32
                       then concat (map (\<lambda>e. le_bytes 4 (unat (fi_max_score_factor e))) entries) else [])
        in Option.bind (pack_entries h 0 entries (replicate bytes_4fields 0)) (\<lambda>packed.
             Some (h\<lparr>fb_payload := packed @ factors\<rparr>)))"

definition corrupted_block :: "string \<Rightarrow> laurus_error" where
  "corrupted_block what = Index (''BlockReader: '' @ what @ '' - segment is corrupted'')"

definition validate_fixed :: "fixed_block \<Rightarrow> unit res" where
  "validate_fixed b =
     (case find (\<lambda>(_, nbits). nbits > 64)
             [(''posting_offset'', posting_offset_nbits b), (''posting_length'', posting_length_nbits b),
              (''doc_frequency'', doc_frequency_nbits b), (''total_frequency'', total_frequency_nbits b)] of
        Some (field, _) \<Rightarrow> Inl (corrupted_block (''FixedTermInfoBlock packs '' @ field @ '' in more than 64 bits''))
      | None \<Rightarrow>
          if max_score_factor_size b \<noteq> 0 \<and> max_score_factor_size b \<noteq> 32
          then Inl (corrupted_block ''FixedTermInfoBlock max_score_factor size is neither 0 nor 32'')
          else
            let term_count = unat (fb_term_count b)
            in if length (fb_payload b) \<noteq> packed_len (bits_per_entry b) term_count + factor_len (max_score_factor_size b) term_count
               then Inl (corrupted_block ''FixedTermInfoBlock payload has another length than its header describes'')
               else Inr ())"

definition add_delta :: "string \<Rightarrow> u64 \<Rightarrow> u64 \<Rightarrow> u64 res" where
  "add_delta field low delta =
     (case checked_add low delta of
        Some v \<Rightarrow> Inr v
      | None \<Rightarrow> Inl (Index (''term dictionary: '' @ field @ '' overflows u64 - segment is corrupted'')))"

definition decode_at :: "fixed_block \<Rightarrow> nat \<Rightarrow> fixed_info outcome" where
  "decode_at b inner =
     (if inner \<ge> unat (fb_term_count b) then None
      else
        let n1 = unat (posting_offset_nbits b); n2 = unat (posting_length_nbits b);
            n3 = unat (doc_frequency_nbits b); n4 = unat (total_frequency_nbits b);
            bytes_4fields = packed_len (bits_per_entry b) (unat (fb_term_count b));
            at = bits_per_entry b * inner
        in Option.bind (sub_slice 0 bytes_4fields (fb_payload b)) (\<lambda>packed.
           Option.bind (read_bits packed at n1) (\<lambda>off.
           Option.bind (read_bits packed (at + n1) n2) (\<lambda>len.
           Option.bind (read_bits packed (at + n1 + n2) n3) (\<lambda>df.
           Option.bind (read_bits packed (at + n1 + n2 + n3) n4) (\<lambda>tf.
           Option.bind (if max_score_factor_size b = 0 then Some (ref_max_score_factor b)
               else map_option (\<lambda>bs. word_of_nat (from_le bs)) (sub_slice (bytes_4fields + 4 * inner) 4 (fb_payload b))) (\<lambda>factor.
           Some (rbind (add_delta ''posting_offset'' (block_min_posting_offset b) off) (\<lambda>off.
             rbind (add_delta ''posting_length'' (block_min_posting_length b) len) (\<lambda>len.
             rbind (add_delta ''doc_frequency'' (block_min_doc_frequency b) df) (\<lambda>df.
             rbind (add_delta ''total_frequency'' (block_min_total_frequency b) tf) (\<lambda>tf.
             Inr \<lparr>fi_posting_offset = off, fi_posting_length = len, fi_doc_frequency = df,
                fi_total_frequency = tf, fi_max_score_factor = factor\<rparr>))))))))))))"

section \<open>The bits needed\<close>

lemma bits_required_le: "unat (bits_required v) \<le> 64"
  by (simp add: bits_required_def unat_of_nat)

lemma bits_required_bit: "bit v n \<Longrightarrow> n < unat (bits_required v)"
proof -
  assume b: "bit v n"
  let ?bits = "rev (map (bit v) [0..<64])"
  have n: "n < 64" using b bit_imp_le_length [of v n] by simp
  have "\<not> 63 - n < leading_zeros v"
  proof
    assume "63 - n < leading_zeros v"
    then have less: "63 - n < length (takeWhile Not ?bits)" by (simp add: leading_zeros_def)
    then have "takeWhile Not ?bits ! (63 - n) = ?bits ! (63 - n)" by (rule takeWhile_nth)
    moreover have "?bits ! (63 - n) = bit v n" using n by (simp add: rev_nth)
    ultimately have "takeWhile Not ?bits ! (63 - n) = bit v n" by simp
    with nth_mem [OF less] have "bit v n \<in> set (takeWhile Not ?bits)" by simp
    with b show False by (auto dest: set_takeWhileD)
  qed
  moreover have "v \<noteq> 0" using b by auto
  moreover have "unat (word_of_nat (64 - leading_zeros v) :: u8) = 64 - leading_zeros v"
    unfolding unat_of_nat by (rule mod_less) simp
  ultimately show ?thesis using n unfolding bits_required_def by (simp del: of_nat_diff)
qed

lemma bits_required_mono: "unat v \<le> unat w \<Longrightarrow> bit v n \<Longrightarrow> n < unat (bits_required w)"
proof (rule ccontr)
  assume le: "unat v \<le> unat w" and b: "bit v n" and not: "\<not> n < unat (bits_required w)"
  have w: "\<not> bit w k" if "n \<le> k" for k using bits_required_bit [of w k] that not by linarith
  have "w = take_bit n w" by (rule bit_word_eqI) (metis w bit_take_bit_iff not_less)
  then have "unat w < 2 ^ n" by (metis unsigned_take_bit_eq take_bit_nat_less_exp)
  moreover have "2 ^ n \<le> unat v"
  proof -
    have "bit (unat v) n" using b by (simp add: bit_unsigned_iff)
    then have "odd (unat v div 2 ^ n)" by (simp add: bit_iff_odd)
    then have "unat v div 2 ^ n \<noteq> 0" by (metis even_zero)
    then show ?thesis by (simp add: div_eq_0_iff not_less)
  qed
  ultimately show False using le by simp
qed

lemma min_of_le: "e \<in> set es \<Longrightarrow> min_of f es \<le> f e"
proof -
  have acc: "fold (\<lambda>e m. min m (f e)) es m \<le> m" for es m
  proof (induction es arbitrary: m)
    case (Cons e es)
    from Cons [of "min m (f e)"] show ?case by simp
  qed simp
  have "e \<in> set es \<Longrightarrow> fold (\<lambda>e m. min m (f e)) es m \<le> f e" for m
  proof (induction es arbitrary: m)
    case (Cons a es)
    then show ?case using acc [of es "min m (f a)"] by auto
  qed simp
  then show "e \<in> set es \<Longrightarrow> min_of f es \<le> f e" unfolding min_of_def .
qed

lemma max_of_ge: "e \<in> set es \<Longrightarrow> f e \<le> max_of f es"
proof -
  have acc: "m \<le> fold (\<lambda>e m. max m (f e)) es m" for es m
  proof (induction es arbitrary: m)
    case (Cons e es)
    from Cons [of "max m (f e)"] show ?case by simp
  qed simp
  have "e \<in> set es \<Longrightarrow> f e \<le> fold (\<lambda>e m. max m (f e)) es m" for m
  proof (induction es arbitrary: m)
    case (Cons a es)
    then show ?case using acc [of "max m (f a)" es] by auto
  qed simp
  then show "e \<in> set es \<Longrightarrow> f e \<le> max_of f es" unfolding max_of_def .
qed

lemma unat_minus: "a \<le> (b :: u64) \<Longrightarrow> unat (b - a) = unat b - unat a"
  by (simp add: unat_sub)

lemma delta_bits: "e \<in> set es \<Longrightarrow> bit (f e - min_of f es) n \<Longrightarrow> n < unat (nbits_of f es)"
proof -
  assume e: "e \<in> set es" and b: "bit (f e - min_of f es) n"
  have "min_of f es \<le> f e" "f e \<le> max_of f es" using e by (rule min_of_le max_of_ge)+
  then have "unat (f e - min_of f es) \<le> unat (max_of f es - min_of f es)"
    by (simp add: unat_minus word_le_nat_alt diff_le_mono)
  from bits_required_mono [OF this b] show ?thesis by (simp add: nbits_of_def)
qed

lemma add_back: "e \<in> set es \<Longrightarrow> add_delta what (min_of f es) (f e - min_of f es) = Inr (f e)"
proof -
  assume "e \<in> set es"
  then have "min_of f es \<le> f e" by (rule min_of_le)
  then have "unat (min_of f es) + unat (f e - min_of f es) = unat (f e)" by (simp add: unat_minus word_le_nat_alt)
  moreover have "unat (f e) < 2 ^ 64" using unsigned_less [of "f e"] by simp
  ultimately show ?thesis by (simp add: add_delta_def checked_add_def)
qed

section \<open>A run of fields\<close>

text \<open>The four writes of every entry follow each other without a gap.\<close>

fun write_chain :: "bytes \<Rightarrow> nat \<Rightarrow> (u64 \<times> nat) list \<Rightarrow> bytes option" where
  "write_chain bs at [] = Some bs"
| "write_chain bs at ((v, n) # fs) = Option.bind (write_bits bs at v n) (\<lambda>bs. write_chain bs (at + n) fs)"

definition total_bits :: "(u64 \<times> nat) list \<Rightarrow> nat" where
  "total_bits fs = sum_list (map snd fs)"

lemma total_bits_simps [simp]: "total_bits [] = 0" "total_bits ((v, n) # fs) = n + total_bits fs"
  "total_bits (as @ fs) = total_bits as + total_bits fs"
  by (simp_all add: total_bits_def)

definition entry_fields :: "fixed_block \<Rightarrow> fixed_info \<Rightarrow> (u64 \<times> nat) list" where
  "entry_fields h e =
     [(fi_posting_offset e - block_min_posting_offset h, unat (posting_offset_nbits h)),
      (fi_posting_length e - block_min_posting_length h, unat (posting_length_nbits h)),
      (fi_doc_frequency e - block_min_doc_frequency h, unat (doc_frequency_nbits h)),
      (fi_total_frequency e - block_min_total_frequency h, unat (total_frequency_nbits h))]"

lemma total_bits_entry [simp]: "total_bits (entry_fields h e) = bits_per_entry h"
  by (simp add: entry_fields_def bits_per_entry_def)

lemma total_bits_entries: "total_bits (concat (map (entry_fields h) es)) = bits_per_entry h * length es"
  by (induction es) simp_all

lemma write_chain_append: "write_chain bs at (fs @ gs) = Option.bind (write_chain bs at fs) (\<lambda>bs. write_chain bs (at + total_bits fs) gs)"
  by (induction fs arbitrary: bs at) (auto simp: add.assoc Option.bind_assoc)

lemma pack_entries_chain: "pack_entries h i es bs = write_chain bs (bits_per_entry h * i) (concat (map (entry_fields h) es))"
proof (induction es arbitrary: i bs)
  case (Cons e es)
  have next_entry: "bits_per_entry h * i + unat (posting_offset_nbits h) + unat (posting_length_nbits h) +
      unat (doc_frequency_nbits h) + unat (total_frequency_nbits h) = bits_per_entry h * (i + 1)"
    by (simp add: bits_per_entry_def)
  have "pack_entries h (i + 1) es = (\<lambda>bs. write_chain bs (bits_per_entry h * (i + 1)) (concat (map (entry_fields h) es)))"
    by (rule ext) (rule Cons)
  then show ?case unfolding next_entry [symmetric] by (simp add: entry_fields_def [of h e] Let_def del: One_nat_def)
qed simp

text \<open>Written over zeros, every field of the run can be read where it stands.\<close>

lemma write_chain_ok:
  assumes "at + total_bits fs \<le> 8 * length bs" "\<forall>k \<ge> at. \<not> bit_at bs k"
    "\<forall>(v, n) \<in> set fs. \<forall>j. bit v j \<longrightarrow> j < n"
  shows "\<exists>bs'. write_chain bs at fs = Some bs' \<and> length bs' = length bs \<and> (\<forall>k < at. bit_at bs' k \<longleftrightarrow> bit_at bs k) \<and>
    (\<forall>as v n cs. fs = as @ (v, n) # cs \<longrightarrow> (\<forall>j < n. bit_at bs' (at + total_bits as + j) \<longleftrightarrow> bit v j))"
  using assms
proof (induction fs arbitrary: bs at)
  case (Cons f fs)
  obtain v n where f: "f = (v, n)" by fastforce
  obtain b1 where b1: "write_bits bs at v n = Some b1" "length b1 = length bs"
    "\<And>k. bit_at b1 k \<longleftrightarrow> bit_at bs k \<or> (at \<le> k \<and> k < at + n \<and> bit v (k - at))"
    using write_bits_ok [of at n bs v] Cons.prems(1) f by auto
  have "\<forall>k \<ge> at + n. \<not> bit_at b1 k" using Cons.prems(2) b1(3) by simp
  with Cons.IH [of "at + n" b1] obtain b2 where b2: "write_chain b1 (at + n) fs = Some b2" "length b2 = length bs"
    "\<forall>k < at + n. bit_at b2 k \<longleftrightarrow> bit_at b1 k"
    "\<forall>as v m cs. fs = as @ (v, m) # cs \<longrightarrow> (\<forall>j < m. bit_at b2 (at + n + total_bits as + j) \<longleftrightarrow> bit v j)"
    using Cons.prems(1,3) f b1(2) by (auto simp: add.assoc)
  have "\<forall>j < m. bit_at b2 (at + total_bits as + j) \<longleftrightarrow> bit w j" if "f # fs = as @ (w, m) # cs" for as w m cs
  proof (cases as)
    case Nil
    with that f b1(3) b2(3) Cons.prems(2) show ?thesis by simp
  next
    case (Cons a as')
    with that f b2(4) show ?thesis by (auto simp: add.assoc)
  qed
  moreover have "\<forall>k < at. bit_at b2 k \<longleftrightarrow> bit_at bs k" using b1(3) b2(3) by simp
  moreover have "write_chain bs at (f # fs) = Some b2" using f b1(1) b2(1) by simp
  ultimately show ?case using b2(2) by blast
qed simp

lemma read_field_back:
  assumes "at + n \<le> 8 * length bs" "n \<le> 64" "\<forall>j < n. bit_at bs (at + j) \<longleftrightarrow> bit v j" "\<forall>j. bit v j \<longrightarrow> j < n"
  shows "read_bits bs at n = Some v"
proof -
  obtain x where x: "read_bits bs at n = Some x" "\<forall>j < 64. bit x j \<longleftrightarrow> j < n \<and> bit_at bs (at + j)"
    using read_bits_ok [OF assms(1,2)] by blast
  have "x = v" by (rule bit_word_eqI) (use x(2) assms(3,4) in auto)
  with x(1) show ?thesis by simp
qed

section \<open>A valid block never makes the decoder panic\<close>

lemma packed_len_room: "i < t \<Longrightarrow> n * i + n \<le> 8 * packed_len n t"
proof -
  assume "i < t"
  then have "n * i + n \<le> n * t" using mult_le_mono2 [of "i + 1" t n] by simp
  moreover have "n * t \<le> 8 * ((n * t + 7) div 8)" by presburger
  ultimately show ?thesis by (simp add: packed_len_def)
qed

definition fixed_ok :: "fixed_block \<Rightarrow> bool" where
  "fixed_ok b \<longleftrightarrow> unat (posting_offset_nbits b) \<le> 64 \<and> unat (posting_length_nbits b) \<le> 64 \<and>
     unat (doc_frequency_nbits b) \<le> 64 \<and> unat (total_frequency_nbits b) \<le> 64 \<and>
     (max_score_factor_size b = 0 \<or> max_score_factor_size b = 32) \<and>
     length (fb_payload b) = packed_len (bits_per_entry b) (unat (fb_term_count b)) +
       factor_len (max_score_factor_size b) (unat (fb_term_count b))"

lemma u8_64: "(64 :: u8) < n \<longleftrightarrow> 64 < unat n"
  by (simp add: word_less_nat_alt)

lemma validate_fixed_iff: "validate_fixed b = Inr () \<longleftrightarrow> fixed_ok b"
  by (auto simp: validate_fixed_def fixed_ok_def Let_def u8_64 not_less)

lemma decode_at_total:
  assumes "fixed_ok b" "i < unat (fb_term_count b)"
  shows "no_panic (decode_at b i)"
proof -
  let ?n = "bits_per_entry b" and ?t = "unat (fb_term_count b)"
  let ?p = "take (packed_len ?n ?t) (fb_payload b)"
  have len: "length (fb_payload b) = packed_len ?n ?t + factor_len (max_score_factor_size b) ?t"
    and le: "unat (posting_offset_nbits b) \<le> 64" "unat (posting_length_nbits b) \<le> 64"
      "unat (doc_frequency_nbits b) \<le> 64" "unat (total_frequency_nbits b) \<le> 64"
    using assms(1) by (simp_all add: fixed_ok_def)
  have p: "sub_slice 0 (packed_len ?n ?t) (fb_payload b) = Some ?p" "length ?p = packed_len ?n ?t"
    using len by (simp_all add: sub_slice_def)
  have room: "at + m \<le> 8 * length ?p" if "at + m \<le> ?n * i + ?n" for at m
    using that packed_len_room [OF assms(2), of ?n] p(2) by linarith
  have reads: "read_bits ?p at m \<noteq> None" if "at + m \<le> ?n * i + ?n" "m \<le> 64" for at m
    using read_bits_ok [OF room [OF that(1)] that(2)] by auto
  have factor: "max_score_factor_size b = 0 \<or> sub_slice (packed_len ?n ?t + 4 * i) 4 (fb_payload b) \<noteq> None"
    using len assms(2) by (auto simp: sub_slice_def factor_len_def)
  note steps = reads [OF _ le(1), of "?n * i"] reads [OF _ le(2), of "?n * i + unat (posting_offset_nbits b)"]
    reads [OF _ le(3), of "?n * i + unat (posting_offset_nbits b) + unat (posting_length_nbits b)"]
    reads [OF _ le(4), of "?n * i + unat (posting_offset_nbits b) + unat (posting_length_nbits b) + unat (doc_frequency_nbits b)"]
  show ?thesis using steps assms(2) p(1) factor
    by (auto simp: decode_at_def Let_def bits_per_entry_def no_panic_def)
qed

section \<open>A block decodes to its entries\<close>

lemma bits_of_entry:
  assumes "e \<in> set es"
  shows "\<forall>(v, n) \<in> set (entry_fields (fixed_header es) e). \<forall>j. bit v j \<longrightarrow> j < n"
  using delta_bits [OF assms] by (auto simp: entry_fields_def fixed_header_def Let_def)

lemma nbits_le: "unat (nbits_of f es) \<le> 64"
  by (simp add: nbits_of_def bits_required_le)

text \<open>A field of an entry is read back from a packed section that holds the fields of all.\<close>

lemma entry_field_read:
  assumes i: "i < length entries"
    and len: "length packed = packed_len (bits_per_entry h) (length entries)"
    and bits: "\<And>as v n cs j. concat (map (entry_fields h) entries) = as @ (v, n) # cs \<Longrightarrow> j < n \<Longrightarrow>
      bit_at packed (total_bits as + j) \<longleftrightarrow> bit v j"
    and nb: "unat (posting_offset_nbits h) \<le> 64" "unat (posting_length_nbits h) \<le> 64"
      "unat (doc_frequency_nbits h) \<le> 64" "unat (total_frequency_nbits h) \<le> 64"
    and small: "\<forall>(v, n) \<in> set (entry_fields h (entries ! i)). \<forall>j. bit v j \<longrightarrow> j < n"
    and field: "entry_fields h (entries ! i) = as @ (v, n) # cs"
  shows "read_bits packed (bits_per_entry h * i + total_bits as) n = Some v"
proof (rule read_field_back)
  let ?before = "concat (map (entry_fields h) (take i entries))" and ?after = "concat (map (entry_fields h) (drop (i + 1) entries))"
  have split: "concat (map (entry_fields h) entries) = ?before @ entry_fields h (entries ! i) @ ?after"
    using i by (subst id_take_nth_drop [of i entries]) simp_all
  have at: "total_bits ?before = bits_per_entry h * i" using i by (simp add: total_bits_entries min_absorb2)
  have "total_bits (entry_fields h (entries ! i)) = bits_per_entry h" by simp
  then have "total_bits as + n \<le> bits_per_entry h" unfolding field by simp
  then show "bits_per_entry h * i + total_bits as + n \<le> 8 * length packed"
    using packed_len_room [OF i, of "bits_per_entry h"] len by linarith
  show "n \<le> 64" using field nb by (auto simp: entry_fields_def Cons_eq_append_conv)
  show "\<forall>j. bit v j \<longrightarrow> j < n" using small unfolding field by simp
  show "\<forall>j < n. bit_at packed (bits_per_entry h * i + total_bits as + j) \<longleftrightarrow> bit v j"
    using bits [of "?before @ as" v n "cs @ ?after"] unfolding split field by (simp add: at)
qed

lemma factor_slice:
  "i < length es \<Longrightarrow> take 4 (drop (4 * i) (concat (map (\<lambda>e. le_bytes 4 (unat (fi_max_score_factor e))) es))) =
     le_bytes 4 (unat (fi_max_score_factor (es ! i)))"
proof (induction es arbitrary: i)
  case (Cons e es)
  then show ?case by (cases i) simp_all
qed simp

lemma factor_bytes: "length (concat (map (\<lambda>e. le_bytes 4 (unat (fi_max_score_factor e))) es)) = 4 * length es"
  by (induction es) simp_all

lemma decode_encoded:
  assumes "entries \<noteq> []" "length entries \<le> BLOCK_TERM_COUNT"
  shows "\<exists>b. encode_fixed entries = Some b \<and> fixed_ok b \<and> unat (fb_term_count b) = length entries \<and>
    length (fb_payload b) \<le> 36 * length entries \<and> (\<forall>i < length entries. decode_at b i = Some (Inr (entries ! i)))"
proof -
  let ?h = "fixed_header entries" and ?t = "length entries"
  let ?n = "bits_per_entry ?h"
  let ?zero = "replicate (packed_len ?n ?t) (0 :: u8)"
  define factors where "factors = (if max_score_factor_size ?h = 32
    then concat (map (\<lambda>e. le_bytes 4 (unat (fi_max_score_factor e))) entries) else [])"
  let ?fs = "concat (map (entry_fields ?h) entries)"
  have zero: "\<forall>k \<ge> 0. \<not> bit_at ?zero k" by (auto simp: bit_at_def)
  have "?n * ?t \<le> 8 * packed_len ?n ?t" unfolding packed_len_def by presburger
  then have room: "0 + total_bits ?fs \<le> 8 * length ?zero" by (simp add: total_bits_entries)
  have "\<forall>(v, n) \<in> set ?fs. \<forall>j. bit v j \<longrightarrow> j < n" using bits_of_entry by fastforce
  from write_chain_ok [OF room zero this] obtain packed where packed: "write_chain ?zero 0 ?fs = Some packed"
    "length packed = packed_len ?n ?t"
    "\<And>as v n cs j. ?fs = as @ (v, n) # cs \<Longrightarrow> j < n \<Longrightarrow> bit_at packed (total_bits as + j) \<longleftrightarrow> bit v j"
    by auto
  let ?b = "?h\<lparr>fb_payload := packed @ factors\<rparr>"
  have enc: "encode_fixed entries = Some ?b"
    using assms packed(1) by (simp add: encode_fixed_def Let_def pack_entries_chain not_less factors_def)
  have nb: "unat (posting_offset_nbits ?h) \<le> 64" "unat (posting_length_nbits ?h) \<le> 64"
    "unat (doc_frequency_nbits ?h) \<le> 64" "unat (total_frequency_nbits ?h) \<le> 64"
    by (simp_all add: fixed_header_def Let_def nbits_le)
  have t: "unat (fb_term_count ?h) = ?t"
    using assms(2) by (simp add: fixed_header_def Let_def BLOCK_TERM_COUNT_def unat_of_nat)
  have sz: "max_score_factor_size ?h = 0 \<or> max_score_factor_size ?h = 32" by (simp add: fixed_header_def Let_def)
  have factor_len: "length factors = factor_len (max_score_factor_size ?h) ?t"
    using sz by (auto simp: factor_len_def factor_bytes factors_def)
  have bn: "bits_per_entry ?b = ?n" by (simp add: bits_per_entry_def)
  have okb: "fixed_ok ?b" using nb t sz packed(2) factor_len by (simp add: fixed_ok_def bn)
  have "?n \<le> 256" using nb by (simp add: bits_per_entry_def)
  then have "?n * ?t + 7 \<le> 256 * ?t + 7" by (simp add: mult_le_mono1)
  then have "packed_len ?n ?t \<le> (256 * ?t + 7) div 8" unfolding packed_len_def by (rule div_le_mono)
  also have "\<dots> = 32 * ?t" by simp
  finally have small: "length (fb_payload ?b) \<le> 36 * ?t" using packed(2) factor_len by (simp add: factor_len_def split: if_splits)
  have "decode_at ?b i = Some (Inr (entries ! i))" if i: "i < ?t" for i
  proof -
    let ?e = "entries ! i"
    have e: "?e \<in> set entries" using i by simp
    have read: "read_bits packed (?n * i + total_bits as) n = Some v" if "entry_fields ?h ?e = as @ (v, n) # cs" for as v n cs
      by (rule entry_field_read [OF i packed(2) packed(3) nb bits_of_entry [OF e] that])
    note fields = entry_fields_def [of ?h ?e]
    note reads = read [of "[]", unfolded fields, simplified] read [of "take 1 (entry_fields ?h ?e)", unfolded fields, simplified]
      read [of "take 2 (entry_fields ?h ?e)", unfolded fields, simplified] read [of "take 3 (entry_fields ?h ?e)", unfolded fields, simplified]
    have "sub_slice 0 (packed_len ?n ?t) (packed @ factors) = Some packed" using packed(2) by (simp add: sub_slice_def)
    moreover have "max_score_factor_size ?h \<noteq> 0 \<Longrightarrow>
        sub_slice (packed_len ?n ?t + 4 * i) 4 (packed @ factors) = Some (le_bytes 4 (unat (fi_max_score_factor ?e)))"
      using sz i packed(2) factor_slice [OF i] by (auto simp: sub_slice_def factors_def factor_bytes simp del: take_drop)
    moreover have "max_score_factor_size ?h = 0 \<Longrightarrow> ref_max_score_factor ?h = fi_max_score_factor ?e"
      using e by (auto simp: fixed_header_def Let_def split: if_splits)
    ultimately have factor: "max_score_factor_size ?h \<noteq> 0 \<Longrightarrow>
        sub_slice (packed_len ?n ?t + 4 * i) 4 (packed @ factors) = Some (le_bytes 4 (unat (fi_max_score_factor ?e)))"
      "max_score_factor_size ?h = 0 \<Longrightarrow> ref_max_score_factor ?h = fi_max_score_factor ?e"
      "sub_slice 0 (packed_len ?n ?t) (packed @ factors) = Some packed" by blast+
    have adds: "add_delta w (block_min_posting_offset ?h) (fi_posting_offset ?e - block_min_posting_offset ?h) = Inr (fi_posting_offset ?e)"
      "add_delta w (block_min_posting_length ?h) (fi_posting_length ?e - block_min_posting_length ?h) = Inr (fi_posting_length ?e)"
      "add_delta w (block_min_doc_frequency ?h) (fi_doc_frequency ?e - block_min_doc_frequency ?h) = Inr (fi_doc_frequency ?e)"
      "add_delta w (block_min_total_frequency ?h) (fi_total_frequency ?e - block_min_total_frequency ?h) = Inr (fi_total_frequency ?e)" for w
      using add_back [OF e] by (simp_all add: fixed_header_def Let_def)
    show ?thesis using i t reads adds factor
      by (cases "max_score_factor_size ?h = 0") (simp_all add: decode_at_def Let_def bn add.assoc from_le_u32)
  qed
  with enc okb t small show ?thesis by auto
qed

end
