(* ===== verification/Dict_Blocks.thy ===== *)
theory Dict_Blocks
  imports Front_Coding
begin

text \<open>
  The blocks of a dictionary file, \<^verbatim>\<open>laurus/src/lexical/index/structures/dictionary/builder.rs\<close>,
  \<^verbatim>\<open>block_max_data.rs\<close> and \<^verbatim>\<open>block_reader.rs\<close>: how up to 128 terms become a block, how a block is parsed
  with the checks on its lengths, and the iterator over all blocks that ends at the first error.
\<close>

section \<open>Block-max entries\<close>

definition BLOCK_MAX_BYTES :: nat where "BLOCK_MAX_BYTES = 12"

record block_max_data =
  bm_offsets :: "u32 list"
  bm_data :: bytes

definition block_max_bytes :: "block_max \<Rightarrow> bytes" where
  "block_max_bytes bm = le_bytes 8 (unat (last_doc_id bm)) @ le_bytes 4 (unat (max_factor bm))"

fun encode_block_max_loop :: "u32 list \<Rightarrow> bytes \<Rightarrow> block_max list list \<Rightarrow> block_max_data option" where
  "encode_block_max_loop offsets data [] = Some \<lparr>bm_offsets = offsets, bm_data = data\<rparr>"
| "encode_block_max_loop offsets data (blocks # per_term) =
     (let data = data @ concat (map block_max_bytes blocks)
      in if length data > u32_max then None
         else encode_block_max_loop (offsets @ [word_of_nat (length data)]) data per_term)"

definition encode_block_max :: "block_max list list \<Rightarrow> block_max_data option" where
  "encode_block_max per_term = encode_block_max_loop [0] [] per_term"

text \<open>A floating-point number is its bits: \<open>is_nan\<close>, and \<open>< 0.0\<close>, which \<open>- 0.0\<close> is not.\<close>

definition f32_is_nan :: "u32 \<Rightarrow> bool" where
  "f32_is_nan w \<longleftrightarrow> w AND 0x7FFFFFFF > 0x7F800000"

definition f32_negative :: "u32 \<Rightarrow> bool" where
  "f32_negative w \<longleftrightarrow> w AND 0x80000000 \<noteq> 0 \<and> w AND 0x7FFFFFFF \<noteq> 0 \<and> \<not> f32_is_nan w"

fun get_loop :: "bytes \<Rightarrow> nat \<Rightarrow> nat \<Rightarrow> block_max list \<Rightarrow> block_max list outcome" where
  "get_loop data off 0 result = Some (Inr result)"
| "get_loop data off (Suc count) result =
     Option.bind (sub_slice off 8 data) (\<lambda>doc_bytes.
     Option.bind (sub_slice (off + 8) 4 data) (\<lambda>factor_bytes.
       let doc = word_of_nat (from_le doc_bytes); factor = word_of_nat (from_le factor_bytes)
       in if result \<noteq> [] \<and> last_doc_id (last result) \<ge> doc
          then Some (Inl (Index ''BlockMaxData: last doc ids are not strictly ascending - segment is corrupted''))
          else if f32_is_nan factor \<or> f32_negative factor
          then Some (Inl (Index ''BlockMaxData: max_factor is NaN or negative - segment is corrupted''))
          else get_loop data (off + BLOCK_MAX_BYTES) count (result @ [\<lparr>last_doc_id = doc, max_factor = factor\<rparr>])))"

definition get_block_max :: "block_max_data \<Rightarrow> nat \<Rightarrow> block_max list outcome" where
  "get_block_max b inner =
     (if inner \<ge> length (bm_offsets b) - 1 then None
      else
        let start = unat (bm_offsets b ! inner); stop = unat (bm_offsets b ! (inner + 1))
        in if stop < start then None
           else get_loop (bm_data b) start ((stop - start) div BLOCK_MAX_BYTES) [])"

section \<open>The encoder\<close>

text \<open>The bytes of a block, as they follow each other; \<open>encode_block_into\<close> appends them.\<close>

definition block_bytes :: "bytes list \<Rightarrow> fixed_block \<Rightarrow> block_max_data \<Rightarrow> bytes" where
  "block_bytes terms ftib bmd =
     (let fc = encode_block_terms terms
      in encode_u64 (word_of_nat (length terms)) @ encode_u64 (word_of_nat (length fc)) @ fc @
         le_bytes 8 (unat (block_min_posting_offset ftib)) @ le_bytes 8 (unat (block_min_posting_length ftib)) @
         le_bytes 8 (unat (block_min_doc_frequency ftib)) @ le_bytes 8 (unat (block_min_total_frequency ftib)) @
         le_bytes 4 (unat (ref_max_score_factor ftib)) @
         [posting_offset_nbits ftib, posting_length_nbits ftib, doc_frequency_nbits ftib, total_frequency_nbits ftib,
          max_score_factor_size ftib] @
         le_bytes 4 (unat (word_of_nat (length (fb_payload ftib)) :: u32)) @ fb_payload ftib @
         concat (map (\<lambda>off. le_bytes 4 (unat off)) (bm_offsets bmd)) @
         le_bytes 4 (unat (word_of_nat (length (bm_data bmd)) :: u32)) @ bm_data bmd)"

definition encode_block_into ::
    "bytes \<Rightarrow> bytes list \<Rightarrow> fixed_info list \<Rightarrow> block_max list list \<Rightarrow> bytes option" where
  "encode_block_into out terms fixed_infos block_max_per_term =
     (if length terms \<noteq> length fixed_infos \<or> length terms \<noteq> length block_max_per_term \<or>
         terms = [] \<or> length terms > BLOCK_TERM_COUNT then None
      else
        let fc = encode_block_terms terms;
            out = write_varint_into out (word_of_nat (length terms));
            out = write_varint_into out (word_of_nat (length fc)) @ fc
        in Option.bind (encode_fixed fixed_infos) (\<lambda>ftib.
           let out = out @ le_bytes 8 (unat (block_min_posting_offset ftib));
               out = out @ le_bytes 8 (unat (block_min_posting_length ftib));
               out = out @ le_bytes 8 (unat (block_min_doc_frequency ftib));
               out = out @ le_bytes 8 (unat (block_min_total_frequency ftib));
               out = out @ le_bytes 4 (unat (ref_max_score_factor ftib));
               out = out @ [posting_offset_nbits ftib];
               out = out @ [posting_length_nbits ftib];
               out = out @ [doc_frequency_nbits ftib];
               out = out @ [total_frequency_nbits ftib];
               out = out @ [max_score_factor_size ftib];
               out = out @ le_bytes 4 (unat (word_of_nat (length (fb_payload ftib)) :: u32));
               out = out @ fb_payload ftib
           in Option.bind (encode_block_max block_max_per_term) (\<lambda>bmd.
              let out = fold (\<lambda>off out. out @ le_bytes 4 (unat off)) (bm_offsets bmd) out;
                  out = out @ le_bytes 4 (unat (word_of_nat (length (bm_data bmd)) :: u32))
              in Some (out @ bm_data bmd))))"

definition fixed_of :: "term_info \<Rightarrow> fixed_info" where
  "fixed_of info = \<lparr>fi_posting_offset = posting_offset info, fi_posting_length = posting_length info,
     fi_doc_frequency = ti_doc_frequency info, fi_total_frequency = ti_total_frequency info,
     fi_max_score_factor = max_score_factor info\<rparr>"

text \<open>One block as the builder encodes it.\<close>

definition encode_chunk :: "bytes \<Rightarrow> (bytes \<times> term_info) list \<Rightarrow> bytes option" where
  "encode_chunk out chunk =
     encode_block_into out (map fst chunk) (map (\<lambda>(_, info). fixed_of info) chunk) (map (\<lambda>(_, info). ti_block_max info) chunk)"

section \<open>The parser\<close>

definition read_u64_le :: "bytes \<Rightarrow> nat \<Rightarrow> (u64 \<times> nat) outcome" where
  "read_u64_le bs c = map_option (\<lambda>s. Inr (word_of_nat (from_le s), c + 8)) (sub_slice c 8 bs)"

definition read_u32_le :: "bytes \<Rightarrow> nat \<Rightarrow> (u32 \<times> nat) outcome" where
  "read_u32_le bs c = map_option (\<lambda>s. Inr (word_of_nat (from_le s), c + 4)) (sub_slice c 4 bs)"

definition read_f32_le :: "bytes \<Rightarrow> nat \<Rightarrow> (u32 \<times> nat) outcome" where
  "read_f32_le bs c = map_option (\<lambda>s. Inr (word_of_nat (from_le s), c + 4)) (sub_slice c 4 bs)"

definition read_u8 :: "bytes \<Rightarrow> nat \<Rightarrow> (u8 \<times> nat) outcome" where
  "read_u8 bs c = (if c < length bs then Some (Inr (bs ! c, c + 1)) else None)"

record block_reader =
  block_term_count :: nat
  br_term_bytes :: bytes
  br_term_info_block :: fixed_block
  br_block_max_data :: block_max_data

text \<open>\<open>parse\<close> in its three parts: the terms, the fixed-size part, the block-max part.\<close>

definition parse_terms :: "bytes \<Rightarrow> nat \<Rightarrow> (nat \<times> bytes \<times> nat) outcome" where
  "parse_terms bs c =
     pbind (Some (dict_read_varint bs c)) (\<lambda>(term_count, c).
     if term_count = 0 \<or> unat term_count > BLOCK_TERM_COUNT
     then Some (Inl (corrupted_block ''block declares a number of terms outside 1..=128''))
     else
       pbind (Some (dict_read_varint bs c)) (\<lambda>(fc_len, c).
       if unat fc_len > length bs - c
       then Some (Inl (corrupted_block ''front-coded section overruns BlockSection''))
       else Option.bind (sub_slice c (unat fc_len) bs) (\<lambda>term_bytes.
              Some (Inr (unat term_count, term_bytes, c + unat fc_len)))))"

definition FTIB_FIXED_HEADER_BYTES :: nat where "FTIB_FIXED_HEADER_BYTES = 8 + 8 + 8 + 8 + 4 + 5 + 4"

definition parse_fixed :: "bytes \<Rightarrow> nat \<Rightarrow> nat \<Rightarrow> (fixed_block \<times> nat) outcome" where
  "parse_fixed bs term_count c =
     (if c + FTIB_FIXED_HEADER_BYTES > length bs
      then Some (Inl (corrupted_block ''FixedTermInfoBlock header overruns BlockSection''))
      else
        pbind (read_u64_le bs c) (\<lambda>(min_off, c). pbind (read_u64_le bs c) (\<lambda>(min_len, c).
        pbind (read_u64_le bs c) (\<lambda>(min_df, c). pbind (read_u64_le bs c) (\<lambda>(min_tf, c).
        pbind (read_f32_le bs c) (\<lambda>(ref, c).
        pbind (read_u8 bs c) (\<lambda>(off_nbits, c). pbind (read_u8 bs c) (\<lambda>(len_nbits, c).
        pbind (read_u8 bs c) (\<lambda>(df_nbits, c). pbind (read_u8 bs c) (\<lambda>(tf_nbits, c).
        pbind (read_u8 bs c) (\<lambda>(factor_size, c). pbind (read_u32_le bs c) (\<lambda>(payload_len, c).
        if unat payload_len > length bs - c
        then Some (Inl (corrupted_block ''FixedTermInfoBlock payload overruns BlockSection''))
        else Option.bind (sub_slice c (unat payload_len) bs) (\<lambda>body.
          let b = \<lparr>fb_term_count = word_of_nat term_count, block_min_posting_offset = min_off,
                block_min_posting_length = min_len, block_min_doc_frequency = min_df, block_min_total_frequency = min_tf,
                ref_max_score_factor = ref, posting_offset_nbits = off_nbits, posting_length_nbits = len_nbits,
                doc_frequency_nbits = df_nbits, total_frequency_nbits = tf_nbits, max_score_factor_size = factor_size,
                fb_payload = body\<rparr>
          in pbind (Some (validate_fixed b)) (\<lambda>_. Some (Inr (b, c + unat payload_len))))))))))))))))"

fun read_offsets :: "bytes \<Rightarrow> nat \<Rightarrow> nat \<Rightarrow> u32 list \<Rightarrow> (u32 list \<times> nat) outcome" where
  "read_offsets bs c 0 offsets = Some (Inr (offsets, c))"
| "read_offsets bs c (Suc n) offsets = pbind (read_u32_le bs c) (\<lambda>(off, c). read_offsets bs c n (offsets @ [off]))"

fun spans_are_whole_entries :: "u32 list \<Rightarrow> bool" where
  "spans_are_whole_entries (a # b # offsets) \<longleftrightarrow>
     a \<le> b \<and> BLOCK_MAX_BYTES dvd unat (b - a) \<and> spans_are_whole_entries (b # offsets)"
| "spans_are_whole_entries _ \<longleftrightarrow> True"

definition offsets_ok :: "u32 list \<Rightarrow> nat \<Rightarrow> bool" where
  "offsets_ok offsets data_len \<longleftrightarrow>
     offsets \<noteq> [] \<and> hd offsets = 0 \<and> spans_are_whole_entries offsets \<and> unat (last offsets) = data_len"

definition parse_block_max :: "bytes \<Rightarrow> nat \<Rightarrow> nat \<Rightarrow> (block_max_data \<times> nat) outcome" where
  "parse_block_max bs term_count c =
     (if c + (term_count + 1) * 4 + 4 > length bs
      then Some (Inl (corrupted_block ''BlockMaxData header overruns BlockSection''))
      else
        pbind (read_offsets bs c (term_count + 1) []) (\<lambda>(offsets, c).
        pbind (read_u32_le bs c) (\<lambda>(data_len, c).
        if unat data_len > length bs - c
        then Some (Inl (corrupted_block ''BlockMaxData data overruns BlockSection''))
        else if \<not> offsets_ok offsets (unat data_len)
        then Some (Inl (corrupted_block ''BlockMaxData offsets are not ascending spans of whole entries ending at the data length''))
        else Option.bind (sub_slice c (unat data_len) bs) (\<lambda>data.
               Some (Inr (\<lparr>bm_offsets = offsets, bm_data = data\<rparr>, c + unat data_len))))))"

definition parse_block :: "bytes \<Rightarrow> nat \<Rightarrow> (block_reader \<times> nat) outcome" where
  "parse_block bs cursor =
     pbind (parse_terms bs cursor) (\<lambda>(term_count, term_bytes, c).
     pbind (parse_fixed bs term_count c) (\<lambda>(term_info_block, c).
     pbind (parse_block_max bs term_count c) (\<lambda>(bmd, c).
     Some (Inr (\<lparr>block_term_count = term_count, br_term_bytes = term_bytes, br_term_info_block = term_info_block,
        br_block_max_data = bmd\<rparr>, c)))))"

definition term_info_at :: "fixed_block \<Rightarrow> block_max_data \<Rightarrow> nat \<Rightarrow> term_info outcome" where
  "term_info_at ftib bmd inner =
     pbind (decode_at ftib inner) (\<lambda>fti. pbind (get_block_max bmd inner) (\<lambda>block_max.
       Some (Inr \<lparr>posting_offset = fi_posting_offset fti, posting_length = fi_posting_length fti,
         ti_doc_frequency = fi_doc_frequency fti, ti_total_frequency = fi_total_frequency fti,
         max_score_factor = fi_max_score_factor fti, ti_block_max = block_max\<rparr>)))"

section \<open>The iterator over the blocks\<close>

record current_block =
  cb_term_count :: nat
  cb_decoder :: fc_decoder
  cb_term_info_block :: fixed_block
  cb_block_max_data :: block_max_data
  cb_inner :: nat

record section_iter =
  si_bytes :: bytes
  si_cursor :: nat
  si_blocks_remaining :: nat
  si_current :: "current_block option"

definition section_iter_new :: "bytes \<Rightarrow> nat \<Rightarrow> section_iter" where
  "section_iter_new bs block_count = \<lparr>si_bytes = bs, si_cursor = 0, si_blocks_remaining = block_count, si_current = None\<rparr>"

text \<open>\<open>advance_block\<close>; \<open>None\<close> when no block remains.\<close>

definition advance_block :: "section_iter \<Rightarrow> section_iter option outcome" where
  "advance_block it =
     (if si_blocks_remaining it = 0 then Some (Inr None)
      else
        pbind (parse_block (si_bytes it) (si_cursor it)) (\<lambda>(reader, next_cursor).
        Some (Inr (Some (it\<lparr>si_cursor := next_cursor, si_blocks_remaining := si_blocks_remaining it - 1,
          si_current := Some \<lparr>cb_term_count = block_term_count reader,
            cb_decoder = fc_new (br_term_bytes reader) (block_term_count reader),
            cb_term_info_block = br_term_info_block reader, cb_block_max_data = br_block_max_data reader,
            cb_inner = 0\<rparr>\<rparr>)))))"

text \<open>One entry of the current block.\<close>

definition block_entry :: "current_block \<Rightarrow> ((bytes \<times> term_info) \<times> current_block) outcome" where
  "block_entry cb =
     pbind (fc_next (cb_decoder cb)) (\<lambda>found.
       case found of
         None \<Rightarrow> Some (Inl (corrupted ''block yielded fewer terms than it declares''))
       | Some (term, decoder) \<Rightarrow>
           if \<not> valid_utf8 term then Some (Inl (corrupted ''term is not valid UTF-8''))
           else
             pbind (term_info_at (cb_term_info_block cb) (cb_block_max_data cb) (cb_inner cb)) (\<lambda>info.
             Some (Inr ((term, info), cb\<lparr>cb_decoder := decoder, cb_inner := cb_inner cb + 1\<rparr>))))"

text \<open>\<open>next_entry\<close>: \<open>None\<close> after the last block. Its loop advances to the next block when one is used up.\<close>

function next_entry :: "section_iter \<Rightarrow> ((bytes \<times> term_info) \<times> section_iter) option outcome" where
  "next_entry it =
     (case si_current it of
        None \<Rightarrow>
          (case advance_block it of
             None \<Rightarrow> None
           | Some (Inl e) \<Rightarrow> Some (Inl e)
           | Some (Inr None) \<Rightarrow> Some (Inr None)
           | Some (Inr (Some it')) \<Rightarrow> next_entry it')
      | Some cb \<Rightarrow>
          if cb_inner cb \<ge> cb_term_count cb then next_entry (it\<lparr>si_current := None\<rparr>)
          else
            pbind (block_entry cb) (\<lambda>(entry, cb'). Some (Inr (Some (entry, it\<lparr>si_current := Some cb'\<rparr>)))))"
  by pat_completeness auto
termination
proof (relation "measure (\<lambda>it. 2 * si_blocks_remaining it + (if si_current it = None then 0 else 1))")
  fix it it' a x2
  assume "si_current it = None" "advance_block it = Some a" "a = Inr x2" "x2 = Some it'"
  then show "(it', it) \<in> measure (\<lambda>it. 2 * si_blocks_remaining it + (if si_current it = None then 0 else 1))"
    by (auto simp: advance_block_def pbind_Inr_iff split: if_splits)
qed auto

declare next_entry.simps [simp del]

text \<open>The entries an iterator yields until it ends, an error last.\<close>

definition entries_left :: "section_iter \<Rightarrow> nat" where
  "entries_left it = 129 * si_blocks_remaining it +
     (case si_current it of None \<Rightarrow> 0 | Some cb \<Rightarrow> cb_term_count cb - cb_inner cb)"

lemma parse_block_count: "parse_block bs c = Some (Inr (reader, c')) \<Longrightarrow> 0 < block_term_count reader \<and> block_term_count reader \<le> 128"
  by (auto simp: parse_block_def parse_terms_def pbind_Inr_iff BLOCK_TERM_COUNT_def unat_gt_0 split: if_splits option.splits
      simp: Option.bind_eq_Some_conv)

lemma block_entryE:
  assumes "block_entry cb = Some (Inr (e, cb'))"
  obtains t d info where "fc_next (cb_decoder cb) = Some (Inr (Some (t, d)))" "valid_utf8 t"
    "term_info_at (cb_term_info_block cb) (cb_block_max_data cb) (cb_inner cb) = Some (Inr info)"
    "e = (t, info)" "cb' = cb\<lparr>cb_decoder := d, cb_inner := cb_inner cb + 1\<rparr>"
proof -
  obtain found where f: "fc_next (cb_decoder cb) = Some (Inr found)" "found \<noteq> None"
    using assms by (auto simp: block_entry_def pbind_Inr_iff split: option.split_asm)
  then obtain t d where "found = Some (t, d)" by fastforce
  with f(1) assms that show thesis by (auto simp: block_entry_def pbind_Inr_iff split: if_splits)
qed

lemma block_entry_counts:
  "block_entry cb = Some (Inr (e, cb')) \<Longrightarrow> cb_inner cb' = cb_inner cb + 1 \<and> cb_term_count cb' = cb_term_count cb"
  by (erule block_entryE) simp

lemma advance_block_left:
  "advance_block it = Some (Inr (Some it')) \<Longrightarrow> entries_left it' < entries_left it \<and> si_current it' \<noteq> None"
  by (auto simp: advance_block_def pbind_Inr_iff entries_left_def split: if_splits dest!: parse_block_count)

lemma next_entry_left: "next_entry it = Some (Inr (Some (e, it'))) \<Longrightarrow> entries_left it' < entries_left it"
proof (induction it rule: next_entry.induct)
  case (1 it)
  show ?case
  proof (cases "si_current it")
    case None
    with "1.prems" obtain it1 where it1: "advance_block it = Some (Inr (Some it1))" "next_entry it1 = Some (Inr (Some (e, it')))"
      by (subst (asm) next_entry.simps) (auto split: option.splits sum.splits)
    from "1.IH"(1) [OF None it1(1) refl refl it1(2)] advance_block_left [OF it1(1)] show ?thesis by simp
  next
    case (Some cb)
    show ?thesis
    proof (cases "cb_term_count cb \<le> cb_inner cb")
      case True
      have "next_entry (it\<lparr>si_current := None\<rparr>) = Some (Inr (Some (e, it')))"
        using "1.prems" Some True by (subst (asm) next_entry.simps) simp
      from "1.IH"(2) [OF Some True this] Some True show ?thesis by (simp add: entries_left_def)
    next
      case False
      with "1.prems" Some show ?thesis
        by (subst (asm) next_entry.simps) (auto simp: pbind_Inr_iff entries_left_def dest!: block_entry_counts)
    qed
  qed
qed

function section_entries :: "section_iter \<Rightarrow> (bytes \<times> term_info) res list option" where
  "section_entries it =
     (case next_entry it of
        None \<Rightarrow> None
      | Some (Inl e) \<Rightarrow> Some [Inl e]
      | Some (Inr None) \<Rightarrow> Some []
      | Some (Inr (Some (entry, it'))) \<Rightarrow> map_option ((#) (Inr entry)) (section_entries it'))"
  by pat_completeness auto
termination
  by (relation "measure entries_left") (auto intro: next_entry_left)

declare section_entries.simps [simp del]

end
