(* ===== verification/Dict_Section.thy ===== *)
theory Dict_Section
  imports Dict_Blocks
begin

text \<open>
  What the block codec of \<open>Dict_Blocks\<close> guarantees: on any bytes parsing and iterating may fail but not
  panic, and the blocks of an encoder yield the entries they were made of.
\<close>

section \<open>Block-max entries\<close>

lemma spans_snoc:
  "offs \<noteq> [] \<Longrightarrow> spans_are_whole_entries (offs @ [x]) \<longleftrightarrow>
     spans_are_whole_entries offs \<and> last offs \<le> x \<and> BLOCK_MAX_BYTES dvd unat (x - last offs)"
proof (induction offs rule: spans_are_whole_entries.induct)
  case (1 a b offs)
  then show ?case by auto
qed simp_all

lemma spans_nth: "spans_are_whole_entries offs \<Longrightarrow> i + 1 < length offs \<Longrightarrow> offs ! i \<le> offs ! (i + 1)"
proof (induction offs arbitrary: i rule: spans_are_whole_entries.induct)
  case (1 a b offs)
  then show ?case by (cases i) auto
qed auto

lemma spans_last: "spans_are_whole_entries offs \<Longrightarrow> i < length offs \<Longrightarrow> offs ! i \<le> last offs"
proof (induction offs arbitrary: i rule: spans_are_whole_entries.induct)
  case (1 a b offs)
  then show ?case
  proof (cases i)
    case 0
    have "(b # offs) ! 0 \<le> last (b # offs)" using 1 by (intro "1.IH") simp_all
    moreover have "a \<le> b" using 1 by simp
    ultimately show ?thesis using 0 by (simp split: if_splits) (blast intro: order_trans)?
  qed auto
qed auto

definition bmd_ok :: "block_max_data \<Rightarrow> nat \<Rightarrow> bool" where
  "bmd_ok b term_count \<longleftrightarrow> length (bm_offsets b) = term_count + 1 \<and> offsets_ok (bm_offsets b) (length (bm_data b))"

lemma get_loop_total: "off + 12 * count \<le> length data \<Longrightarrow> no_panic (get_loop data off count result)"
proof (induction count arbitrary: off result)
  case (Suc count)
  have "no_panic (get_loop data (off + BLOCK_MAX_BYTES) count result')" for result'
    using Suc by (simp add: BLOCK_MAX_BYTES_def)
  then show ?case using Suc.prems by (auto simp: sub_slice_def Let_def)
qed simp

lemma get_block_max_total:
  assumes "bmd_ok b n" "i < n"
  shows "no_panic (get_block_max b i)"
proof -
  let ?o = "bm_offsets b"
  have o: "length ?o = n + 1" "spans_are_whole_entries ?o" "unat (last ?o) = length (bm_data b)"
    using assms(1) by (simp_all add: bmd_ok_def offsets_ok_def)
  have "?o ! i \<le> ?o ! (i + 1)" "?o ! (i + 1) \<le> last ?o"
    using assms(2) o(1) spans_nth [OF o(2), of i] spans_last [OF o(2), of "i + 1"] by simp_all
  then have le: "unat (?o ! i) \<le> unat (?o ! (i + 1))" "unat (?o ! (i + 1)) \<le> length (bm_data b)"
    using o(3) by (simp_all add: word_le_nat_alt)
  have "unat (?o ! i) + 12 * ((unat (?o ! (i + 1)) - unat (?o ! i)) div 12) \<le> length (bm_data b)"
    using le times_div_less_eq_dividend [of 12 "unat (?o ! (i + 1)) - unat (?o ! i)"] by linarith
  then show ?thesis using assms(2) o(1) le(1)
    by (simp add: get_block_max_def Let_def BLOCK_MAX_BYTES_def get_loop_total not_less)
qed

definition block_max_ok :: "block_max list \<Rightarrow> bool" where
  "block_max_ok bs \<longleftrightarrow> sorted_wrt (<) (map last_doc_id bs) \<and>
     (\<forall>b \<in> set bs. \<not> f32_is_nan (max_factor b) \<and> \<not> f32_negative (max_factor b))"

lemma length_block_max_bytes [simp]: "length (block_max_bytes bm) = 12"
  by (simp add: block_max_bytes_def)

lemma length_block_maxes: "length (concat (map block_max_bytes bs)) = 12 * length bs"
  by (induction bs) simp_all

lemma from_le_u64: "from_le (le_bytes 8 (unat (w :: u64))) = unat w"
  using unsigned_less [of w] by (intro from_le_le_bytes_small) simp

lemma get_loop_back:
  assumes "block_max_ok (result @ bs)"
  shows "get_loop (pre @ concat (map block_max_bytes bs) @ rest) (length pre) (length bs) result = Some (Inr (result @ bs))"
  using assms
proof (induction bs arbitrary: pre result)
  case (Cons b bs)
  obtain d f where b: "b = \<lparr>last_doc_id = d, max_factor = f\<rparr>" by (cases b) simp
  have ok: "block_max_ok ((result @ [b]) @ bs)" using Cons.prems by simp
  then have asc: "result \<noteq> [] \<Longrightarrow> last_doc_id (last result) < d" "\<not> f32_is_nan f" "\<not> f32_negative f"
    by (auto simp: block_max_ok_def sorted_wrt_append b dest: last_in_set)
  let ?bs = "pre @ concat (map block_max_bytes (b # bs)) @ rest"
  have len: "length pre + BLOCK_MAX_BYTES = length (pre @ block_max_bytes b)" by (simp add: BLOCK_MAX_BYTES_def)
  have s: "sub_slice (length pre) 8 ?bs = Some (le_bytes 8 (unat d))" "sub_slice (length pre + 8) 4 ?bs = Some (le_bytes 4 (unat f))"
    by (simp_all add: sub_slice_def block_max_bytes_def b)
  have "get_loop ?bs (length pre + BLOCK_MAX_BYTES) (length bs) (result @ [b]) = Some (Inr (result @ b # bs))"
    using Cons.IH [OF ok, of "pre @ block_max_bytes b"] unfolding len by simp
  moreover have "get_loop ?bs (length pre) (length (b # bs)) result =
      get_loop ?bs (length pre + BLOCK_MAX_BYTES) (length bs) (result @ [b])"
    using asc unfolding list.size add_Suc_right add_0_right get_loop.simps(2) s Option.bind.simps Let_def
    by (auto simp: from_le_u64 from_le_u32 not_le b)
  ultimately show ?case by simp
qed simp

lemma u32_of_length: "n \<le> u32_max \<Longrightarrow> unat (word_of_nat n :: u32) = n"
  by (simp add: unat_of_nat u32_max_def)

text \<open>What the encoder appends, and where each term's entries lie.\<close>

lemma encode_loop_grows:
  "encode_block_max_loop offs data per_term = Some b \<Longrightarrow>
   \<exists>offs' data'. bm_offsets b = offs @ offs' \<and> bm_data b = data @ data' \<and> length offs' = length per_term"
proof (induction per_term arbitrary: offs data)
  case (Cons blocks per_term)
  then show ?case by (fastforce simp: Let_def split: if_splits)
qed auto

lemma encode_loop_ok:
  assumes "encode_block_max_loop offs data per_term = Some b" "offsets_ok offs (length data)"
  shows "offsets_ok (bm_offsets b) (length (bm_data b))"
  using assms
proof (induction per_term arbitrary: offs data)
  case (Cons blocks per_term)
  let ?data = "data @ concat (map block_max_bytes blocks)"
  let ?x = "word_of_nat (length ?data) :: u32"
  have small: "length ?data \<le> u32_max"
    and rest: "encode_block_max_loop (offs @ [?x]) ?data per_term = Some b"
    using Cons.prems(1) by (auto simp: Let_def split: if_splits)
  have x: "unat ?x = length ?data" using small by (rule u32_of_length)
  have o: "offs \<noteq> []" "hd offs = 0" "spans_are_whole_entries offs" "unat (last offs) = length data"
    using Cons.prems(2) by (simp_all add: offsets_ok_def)
  have le: "last offs \<le> ?x" using o(4) unfolding word_le_nat_alt x by simp
  then have "unat (?x - last offs) = length ?data - length data" using o(4) x by (simp only: unat_sub)
  then have "BLOCK_MAX_BYTES dvd unat (?x - last offs)" by (simp add: length_block_maxes BLOCK_MAX_BYTES_def)
  with o le x have "offsets_ok (offs @ [?x]) (length ?data)" by (simp add: offsets_ok_def spans_snoc)
  from Cons.IH [OF rest this] show ?case .
qed auto

lemma encode_loop_at:
  assumes "encode_block_max_loop offs data per_term = Some b" "offs \<noteq> []" "unat (last offs) = length data" "i < length per_term"
  shows "\<exists>pre rest. bm_data b = pre @ concat (map block_max_bytes (per_term ! i)) @ rest \<and>
    unat (bm_offsets b ! (length offs - 1 + i)) = length pre \<and>
    unat (bm_offsets b ! (length offs + i)) = length pre + 12 * length (per_term ! i)"
  using assms
proof (induction per_term arbitrary: offs data i)
  case (Cons blocks per_term)
  let ?data = "data @ concat (map block_max_bytes blocks)"
  let ?x = "word_of_nat (length ?data) :: u32"
  have small: "length ?data \<le> u32_max"
    and rest: "encode_block_max_loop (offs @ [?x]) ?data per_term = Some b"
    using Cons.prems(1) by (auto simp: Let_def split: if_splits)
  have x: "unat ?x = length ?data" using small by (rule u32_of_length)
  show ?case
  proof (cases i)
    case 0
    obtain offs' data' where g: "bm_offsets b = (offs @ [?x]) @ offs'" "bm_data b = ?data @ data'"
      using encode_loop_grows [OF rest] by blast
    have "bm_offsets b ! (length offs - 1) = last offs" "bm_offsets b ! length offs = ?x"
      using Cons.prems(2) unfolding g by (simp_all add: nth_append last_conv_nth)
    with 0 g(2) x Cons.prems(3) show ?thesis by (auto simp: length_block_maxes)
  next
    case (Suc j)
    have e: "length offs - 1 + i = length (offs @ [?x]) - 1 + j" "length offs + i = length (offs @ [?x]) + j"
      using Suc Cons.prems(2) by (cases offs, simp_all)
    from Cons.IH [OF rest, of j] Suc x Cons.prems(4) show ?thesis unfolding e by simp
  qed
qed simp

lemma encoded_block_max:
  assumes "encode_block_max per_term = Some b"
  shows "bmd_ok b (length per_term)"
    and "i < length per_term \<Longrightarrow> block_max_ok (per_term ! i) \<Longrightarrow> get_block_max b i = Some (Inr (per_term ! i))"
proof -
  have len: "length (bm_offsets b) = length per_term + 1"
    using encode_loop_grows [OF assms [unfolded encode_block_max_def]] by auto
  have "offsets_ok [0] (length ([] :: bytes))" by (simp add: offsets_ok_def)
  with len show "bmd_ok b (length per_term)"
    using encode_loop_ok [OF assms [unfolded encode_block_max_def]] by (simp add: bmd_ok_def)
  assume i: "i < length per_term" "block_max_ok (per_term ! i)"
  obtain pre rest where p: "bm_data b = pre @ concat (map block_max_bytes (per_term ! i)) @ rest"
    "unat (bm_offsets b ! i) = length pre" "unat (bm_offsets b ! (i + 1)) = length pre + 12 * length (per_term ! i)"
    using encode_loop_at [OF assms [unfolded encode_block_max_def] _ _ i(1)] by auto
  have "get_loop (bm_data b) (length pre) (length (per_term ! i)) [] = Some (Inr ([] @ per_term ! i))"
    unfolding p(1) using i(2) by (intro get_loop_back) simp
  then show "get_block_max b i = Some (Inr (per_term ! i))"
    using i(1) len p(2,3) by (simp add: get_block_max_def Let_def BLOCK_MAX_BYTES_def)
qed

section \<open>Parsing never panics\<close>

lemma read_totals:
  "c + 8 \<le> length bs \<Longrightarrow> no_panic (read_u64_le bs c)" "c + 4 \<le> length bs \<Longrightarrow> no_panic (read_u32_le bs c)"
  "c + 4 \<le> length bs \<Longrightarrow> no_panic (read_f32_le bs c)" "c + 1 \<le> length bs \<Longrightarrow> no_panic (read_u8 bs c)"
  by (simp_all add: read_u64_le_def read_u32_le_def read_f32_le_def read_u8_def sub_slice_def)

lemma read_moves:
  "read_u64_le bs c = Some (Inr (v, c')) \<Longrightarrow> c' = c + 8 \<and> c' \<le> length bs"
  "read_u32_le bs c = Some (Inr (w, c')) \<Longrightarrow> c' = c + 4 \<and> c' \<le> length bs"
  "read_f32_le bs c = Some (Inr (w, c')) \<Longrightarrow> c' = c + 4 \<and> c' \<le> length bs"
  "read_u8 bs c = Some (Inr (b, c')) \<Longrightarrow> c' = c + 1 \<and> c' \<le> length bs"
  by (auto simp: read_u64_le_def read_u32_le_def read_f32_le_def read_u8_def sub_slice_def split: if_splits)

lemma sub_slice_total: "\<not> n > length bs - c \<Longrightarrow> c \<le> length bs \<Longrightarrow> no_panic (sub_slice c n bs)"
  by (auto simp: sub_slice_def not_less le_diff_conv2 add.commute)

lemma parse_terms_total: "no_panic (parse_terms bs c)"
  by (auto simp: parse_terms_def intro!: no_panic_pbind no_panic_bind sub_slice_total dest!: dict_read_varint_bound)

lemma parse_terms_ok:
  "parse_terms bs c = Some (Inr (n, tb, c')) \<Longrightarrow> c' \<le> length bs \<and> 0 < n \<and> n \<le> 128"
  by (auto simp: parse_terms_def pbind_Inr_iff sub_slice_def BLOCK_TERM_COUNT_def unat_gt_0
      split: if_splits dest!: dict_read_varint_bound)

lemma parse_fixed_total: "no_panic (parse_fixed bs n c)"
  unfolding parse_fixed_def
  by (auto simp: FTIB_FIXED_HEADER_BYTES_def Let_def
      intro!: no_panic_pbind no_panic_bind sub_slice_total read_totals dest!: read_moves)

lemma parse_fixed_ok:
  "parse_fixed bs n c = Some (Inr (b, c')) \<Longrightarrow> n \<le> 128 \<Longrightarrow> c' \<le> length bs \<and> fixed_ok b \<and> unat (fb_term_count b) = n"
  by (auto simp: parse_fixed_def pbind_Inr_iff sub_slice_def Let_def validate_fixed_iff unat_of_nat
      split: if_splits dest!: read_moves)

lemma read_offsets_total: "c + 4 * n \<le> length bs \<Longrightarrow> no_panic (read_offsets bs c n offs)"
  by (induction n arbitrary: c offs) (auto intro!: no_panic_pbind read_totals dest!: read_moves)

lemma read_offsets_ok:
  "read_offsets bs c n offs = Some (Inr (offs', c')) \<Longrightarrow> c \<le> length bs \<Longrightarrow> length offs' = length offs + n \<and> c' = c + 4 * n"
  by (induction n arbitrary: c offs) (fastforce simp: pbind_Inr_iff dest!: read_moves(2))+

lemma parse_block_max_total: "no_panic (parse_block_max bs n c)"
  unfolding parse_block_max_def
  by (auto simp del: read_offsets.simps intro!: no_panic_pbind no_panic_bind sub_slice_total read_totals read_offsets_total
      dest!: read_moves read_offsets_ok)

lemma parse_block_max_ok:
  "parse_block_max bs n c = Some (Inr (b, c')) \<Longrightarrow> c' \<le> length bs \<and> bmd_ok b n"
  by (auto simp: parse_block_max_def pbind_Inr_iff sub_slice_def bmd_ok_def min_absorb2 simp del: read_offsets.simps
      split: if_splits dest!: read_moves read_offsets_ok)

section \<open>Iterating never panics\<close>

definition current_ok :: "current_block \<Rightarrow> bool" where
  "current_ok cb \<longleftrightarrow> fixed_ok (cb_term_info_block cb) \<and> unat (fb_term_count (cb_term_info_block cb)) = cb_term_count cb \<and>
     bmd_ok (cb_block_max_data cb) (cb_term_count cb) \<and> fc_cursor (cb_decoder cb) \<le> length (fc_bytes (cb_decoder cb))"

definition iter_ok :: "section_iter \<Rightarrow> bool" where
  "iter_ok it \<longleftrightarrow> (case si_current it of None \<Rightarrow> True | Some cb \<Rightarrow> current_ok cb)"

lemma parse_block_total: "no_panic (parse_block bs c)"
  by (auto simp: parse_block_def parse_terms_total parse_fixed_total parse_block_max_total intro!: no_panic_pbind)

lemma advance_block_total: "no_panic (advance_block it)"
  by (auto simp: advance_block_def parse_block_total intro!: no_panic_pbind)

lemma advance_block_ok: "advance_block it = Some (Inr (Some it')) \<Longrightarrow> iter_ok it'"
  by (auto simp: advance_block_def parse_block_def pbind_Inr_iff iter_ok_def current_ok_def fc_new_def
      split: if_splits dest!: parse_terms_ok parse_fixed_ok parse_block_max_ok)

lemma term_info_at_total:
  "fixed_ok f \<Longrightarrow> unat (fb_term_count f) = n \<Longrightarrow> bmd_ok b n \<Longrightarrow> i < n \<Longrightarrow> no_panic (term_info_at f b i)"
  by (auto simp: term_info_at_def decode_at_total get_block_max_total intro!: no_panic_pbind)

lemma block_entry_total: "current_ok cb \<Longrightarrow> cb_inner cb < cb_term_count cb \<Longrightarrow> no_panic (block_entry cb)"
  unfolding block_entry_def current_ok_def
  by (intro no_panic_pbind) (auto simp: fc_next_total split: option.split intro!: no_panic_pbind term_info_at_total)

lemma block_entry_ok: "block_entry cb = Some (Inr (e, cb')) \<Longrightarrow> current_ok cb \<Longrightarrow> current_ok cb'"
  by (erule block_entryE) (auto simp: current_ok_def dest!: fc_next_bound)

lemma next_entry_total:
  assumes "iter_ok it"
  shows "no_panic (next_entry it) \<and> (\<forall>e it'. next_entry it = Some (Inr (Some (e, it'))) \<longrightarrow> iter_ok it')"
  using assms
proof (induction it rule: next_entry.induct)
  case (1 it)
  show ?case
  proof (cases "si_current it")
    case None
    obtain r where r: "advance_block it = Some r" using advance_block_total [of it] by (auto simp: no_panic_def)
    show ?thesis
    proof (cases "\<exists>it1. r = Inr (Some it1)")
      case True
      then obtain it1 where it1: "r = Inr (Some it1)" by blast
      have "next_entry it = next_entry it1" using None r it1 by (subst next_entry.simps) simp
      with "1.IH"(1) [OF None r it1 refl] advance_block_ok r it1 show ?thesis by simp
    next
      case False
      then show ?thesis using None r by (subst (1 2) next_entry.simps) (auto split: sum.split option.split)
    qed
  next
    case (Some cb)
    with "1.prems" have cb: "current_ok cb" by (simp add: iter_ok_def)
    show ?thesis
    proof (cases "cb_term_count cb \<le> cb_inner cb")
      case True
      have "next_entry it = next_entry (it\<lparr>si_current := None\<rparr>)" using Some True by (subst next_entry.simps) simp
      with "1.IH"(2) [OF Some True] show ?thesis by (simp add: iter_ok_def)
    next
      case False
      then have step: "next_entry it = pbind (block_entry cb) (\<lambda>(entry, cb'). Some (Inr (Some (entry, it\<lparr>si_current := Some cb'\<rparr>))))"
        using Some by (subst next_entry.simps) simp
      have "no_panic (next_entry it)" unfolding step
        using block_entry_total [OF cb] False by (intro no_panic_pbind) auto
      moreover have "iter_ok it'" if "next_entry it = Some (Inr (Some (e, it')))" for e it'
        using that cb unfolding step by (auto simp: pbind_Inr_iff iter_ok_def dest: block_entry_ok)
      ultimately show ?thesis by blast
    qed
  qed
qed

lemma section_entries_total: "iter_ok it \<Longrightarrow> no_panic (section_entries it)"
proof (induction it rule: section_entries.induct)
  case (1 it)
  obtain r where r: "next_entry it = Some r" using next_entry_total [OF "1.prems"] by (auto simp: no_panic_def)
  show ?case
  proof (cases "\<exists>e it'. r = Inr (Some (e, it'))")
    case True
    then obtain e it' where e: "r = Inr (Some (e, it'))" by blast
    have "no_panic (section_entries it')"
      using next_entry_total [OF "1.prems"] r e by (intro "1.IH" [OF r e refl refl]) blast
    then show ?thesis using r e by (subst section_entries.simps) simp
  next
    case False
    then show ?thesis using r by (subst section_entries.simps) (auto split: sum.split option.split)
  qed
qed

section \<open>A block is parsed back\<close>

text \<open>What lies in front of a cursor.\<close>

definition ahead :: "bytes \<Rightarrow> nat \<Rightarrow> bytes \<Rightarrow> bool" where
  "ahead bs c xs \<longleftrightarrow> c \<le> length bs \<and> drop c bs = xs"

lemma ahead_split: "ahead bs c (xs @ ys) \<Longrightarrow> bs = take c bs @ xs @ ys \<and> length (take c bs) = c"
  by (metis ahead_def append_take_drop_id length_take min_absorb2)

lemma ahead_past: "ahead bs c (xs @ ys) \<Longrightarrow> ahead bs (c + length xs) ys"
proof -
  assume a: "ahead bs c (xs @ ys)"
  then have "length bs - c = length xs + length ys" by (metis ahead_def length_append length_drop)
  moreover have "drop (c + length xs) bs = ys" using a unfolding ahead_def
    by (metis add.commute append_eq_conv_conj drop_drop)
  ultimately show ?thesis using a by (auto simp: ahead_def)
qed

lemma ahead_slice: "ahead bs c (xs @ ys) \<Longrightarrow> sub_slice c (length xs) bs = Some xs"
proof -
  assume a: "ahead bs c (xs @ ys)"
  then have "length bs - c = length xs + length ys" by (metis ahead_def length_append length_drop)
  with a show ?thesis by (auto simp: ahead_def sub_slice_def)
qed

lemma ahead_reads:
  "ahead bs c (le_bytes 8 (unat v) @ ys) \<Longrightarrow> read_u64_le bs c = Some (Inr (v, c + 8)) \<and> ahead bs (c + 8) ys"
  "ahead bs c (le_bytes 4 (unat w) @ ys) \<Longrightarrow> read_u32_le bs c = Some (Inr (w, c + 4)) \<and> ahead bs (c + 4) ys"
  "ahead bs c (le_bytes 4 (unat w) @ ys) \<Longrightarrow> read_f32_le bs c = Some (Inr (w, c + 4)) \<and> ahead bs (c + 4) ys"
  "ahead bs c ([b] @ ys) \<Longrightarrow> read_u8 bs c = Some (Inr (b, c + 1)) \<and> ahead bs (c + 1) ys"
  "ahead bs c (encode_u64 v @ ys) \<Longrightarrow> dict_read_varint bs c = Inr (v, c + length (encode_u64 v)) \<and>
     ahead bs (c + length (encode_u64 v)) ys"
proof -
  show "ahead bs c (le_bytes 8 (unat v) @ ys) \<Longrightarrow> read_u64_le bs c = Some (Inr (v, c + 8)) \<and> ahead bs (c + 8) ys"
    using ahead_slice [of bs c "le_bytes 8 (unat v)" ys] ahead_past [of bs c "le_bytes 8 (unat v)" ys]
    by (simp add: read_u64_le_def from_le_u64)
  show "ahead bs c (le_bytes 4 (unat w) @ ys) \<Longrightarrow> read_u32_le bs c = Some (Inr (w, c + 4)) \<and> ahead bs (c + 4) ys"
    "ahead bs c (le_bytes 4 (unat w) @ ys) \<Longrightarrow> read_f32_le bs c = Some (Inr (w, c + 4)) \<and> ahead bs (c + 4) ys"
    using ahead_slice [of bs c "le_bytes 4 (unat w)" ys] ahead_past [of bs c "le_bytes 4 (unat w)" ys]
    by (simp_all add: read_u32_le_def read_f32_le_def from_le_u32)
  show "ahead bs c ([b] @ ys) \<Longrightarrow> read_u8 bs c = Some (Inr (b, c + 1)) \<and> ahead bs (c + 1) ys"
    using ahead_past [of bs c "[b]" ys] by (cases "c < length bs") (auto simp: read_u8_def ahead_def nth_via_drop)
  show "ahead bs c (encode_u64 v @ ys) \<Longrightarrow> dict_read_varint bs c = Inr (v, c + length (encode_u64 v)) \<and>
     ahead bs (c + length (encode_u64 v)) ys"
    using ahead_split [of bs c "encode_u64 v" ys] dict_varint_at [of "take c bs" v ys] ahead_past [of bs c "encode_u64 v" ys]
    by auto
qed

lemma read_offsets_back:
  "ahead bs c (concat (map (\<lambda>off. le_bytes 4 (unat off)) offs) @ ys) \<Longrightarrow>
   read_offsets bs c (length offs) acc = Some (Inr (acc @ offs, c + 4 * length offs)) \<and> ahead bs (c + 4 * length offs) ys"
proof (induction offs arbitrary: c acc)
  case (Cons off offs)
  have a: "ahead bs c (le_bytes 4 (unat off) @ concat (map (\<lambda>off. le_bytes 4 (unat off)) offs) @ ys)"
    using Cons.prems by simp
  from ahead_reads(2) [OF a] Cons.IH [of "c + 4" "acc @ [off]"] show ?case by (simp add: add.assoc add.left_commute)
qed simp

definition terms_ok :: "bytes list \<Rightarrow> bool" where
  "terms_ok terms \<longleftrightarrow> terms \<noteq> [] \<and> length terms \<le> BLOCK_TERM_COUNT \<and> length (encode_block_terms terms) < 2 ^ 64"

lemma parse_terms_back:
  assumes "ahead bs c (encode_u64 (word_of_nat (length terms)) @ encode_u64 (word_of_nat (length (encode_block_terms terms))) @
    encode_block_terms terms @ ys)" "terms_ok terms"
  shows "\<exists>c'. parse_terms bs c = Some (Inr (length terms, encode_block_terms terms, c')) \<and> ahead bs c' ys"
proof -
  let ?fc = "encode_block_terms terms"
  have len: "unat (word_of_nat (length terms) :: u64) = length terms" "length terms \<le> 128" "0 < length terms"
    and fc: "unat (word_of_nat (length ?fc) :: u64) = length ?fc"
    using assms(2) by (auto simp: terms_ok_def BLOCK_TERM_COUNT_def unat_of_nat)
  have nz: "(word_of_nat (length terms) :: u64) \<noteq> 0" using len(1,3) by (metis unat_0 less_irrefl)
  note v1 = ahead_reads(5) [OF assms(1)]
  note v2 = ahead_reads(5) [OF v1 [THEN conjunct2]]
  let ?c = "c + length (encode_u64 (word_of_nat (length terms))) + length (encode_u64 (word_of_nat (length ?fc)))"
  have a: "ahead bs ?c (?fc @ ys)" using v2 by simp
  have "length bs - ?c = length ?fc + length ys" using a by (metis ahead_def length_append length_drop)
  then show ?thesis using v1 v2 ahead_slice [OF a] ahead_past [OF a] len fc nz
    by (simp add: parse_terms_def BLOCK_TERM_COUNT_def)
qed

definition fixed_bytes :: "fixed_block \<Rightarrow> bytes" where
  "fixed_bytes b =
     le_bytes 8 (unat (block_min_posting_offset b)) @ le_bytes 8 (unat (block_min_posting_length b)) @
     le_bytes 8 (unat (block_min_doc_frequency b)) @ le_bytes 8 (unat (block_min_total_frequency b)) @
     le_bytes 4 (unat (ref_max_score_factor b)) @
     [posting_offset_nbits b] @ [posting_length_nbits b] @ [doc_frequency_nbits b] @ [total_frequency_nbits b] @
     [max_score_factor_size b] @
     le_bytes 4 (unat (word_of_nat (length (fb_payload b)) :: u32)) @ fb_payload b"

lemma parse_fixed_back:
  assumes "ahead bs c (fixed_bytes b @ ys)" "fixed_ok b" "unat (fb_term_count b) = n" "length (fb_payload b) \<le> u32_max"
  shows "\<exists>c'. parse_fixed bs n c = Some (Inr (b, c')) \<and> ahead bs c' ys"
proof -
  have "length bs - c = length (fixed_bytes b) + length ys" using assms(1) by (metis ahead_def length_append length_drop)
  then have room: "\<not> length bs < c + FTIB_FIXED_HEADER_BYTES"
    by (simp add: fixed_bytes_def FTIB_FIXED_HEADER_BYTES_def)
  have p: "unat (word_of_nat (length (fb_payload b)) :: u32) = length (fb_payload b)" using assms(4) by (rule u32_of_length)
  note a0 = assms(1) [unfolded fixed_bytes_def append_assoc]
  note r1 = ahead_reads(1) [OF a0] note r2 = ahead_reads(1) [OF r1 [THEN conjunct2]]
  note r3 = ahead_reads(1) [OF r2 [THEN conjunct2]] note r4 = ahead_reads(1) [OF r3 [THEN conjunct2]]
  note r5 = ahead_reads(3) [OF r4 [THEN conjunct2]] note r6 = ahead_reads(4) [OF r5 [THEN conjunct2]]
  note r7 = ahead_reads(4) [OF r6 [THEN conjunct2]] note r8 = ahead_reads(4) [OF r7 [THEN conjunct2]]
  note r9 = ahead_reads(4) [OF r8 [THEN conjunct2]] note r10 = ahead_reads(4) [OF r9 [THEN conjunct2]]
  note r11 = ahead_reads(2) [OF r10 [THEN conjunct2]]
  let ?c = "c + 8 + 8 + 8 + 8 + 4 + 1 + 1 + 1 + 1 + 1 + 4"
  have a: "ahead bs ?c (fb_payload b @ ys)" using r11 by blast
  have len: "length bs - ?c = length (fb_payload b) + length ys" using a by (metis ahead_def length_append length_drop)
  have b: "\<lparr>fb_term_count = word_of_nat n, block_min_posting_offset = block_min_posting_offset b,
      block_min_posting_length = block_min_posting_length b, block_min_doc_frequency = block_min_doc_frequency b,
      block_min_total_frequency = block_min_total_frequency b, ref_max_score_factor = ref_max_score_factor b,
      posting_offset_nbits = posting_offset_nbits b, posting_length_nbits = posting_length_nbits b,
      doc_frequency_nbits = doc_frequency_nbits b, total_frequency_nbits = total_frequency_nbits b,
      max_score_factor_size = max_score_factor_size b, fb_payload = fb_payload b\<rparr> = b"
    using assms(3) by (cases b) (simp flip: assms(3))
  have v: "validate_fixed b = Inr ()" using assms(2) by (simp add: validate_fixed_iff)
  show ?thesis
    unfolding parse_fixed_def using room
    by (simp only: if_False pbind_simps prod.case r1 [THEN conjunct1] r2 [THEN conjunct1] r3 [THEN conjunct1] r4 [THEN conjunct1] r5 [THEN conjunct1]
        r6 [THEN conjunct1] r7 [THEN conjunct1] r8 [THEN conjunct1] r9 [THEN conjunct1] r10 [THEN conjunct1] r11 [THEN conjunct1]
        p len ahead_slice [OF a] Option.bind.simps Let_def b v)
      (use ahead_past [OF a] in auto)
qed

lemma parse_block_max_back:
  assumes "ahead bs c (concat (map (\<lambda>off. le_bytes 4 (unat off)) (bm_offsets b)) @
      le_bytes 4 (unat (word_of_nat (length (bm_data b)) :: u32)) @ bm_data b @ ys)" "bmd_ok b n"
  shows "\<exists>c'. parse_block_max bs n c = Some (Inr (b, c')) \<and> ahead bs c' ys"
proof -
  have n: "length (bm_offsets b) = n + 1" "offsets_ok (bm_offsets b) (length (bm_data b))"
    using assms(2) by (simp_all add: bmd_ok_def)
  have "unat (last (bm_offsets b)) < Suc u32_max"
    by (rule order_less_le_trans [OF unsigned_less]) (simp add: u32_max_def)
  then have "length (bm_data b) \<le> u32_max" using n(2) by (simp add: offsets_ok_def)
  then have d: "unat (word_of_nat (length (bm_data b)) :: u32) = length (bm_data b)" by (rule u32_of_length)
  have "length (concat (map (\<lambda>off. le_bytes 4 (unat off)) offs)) = 4 * length offs" for offs :: "u32 list"
    by (induction offs) simp_all
  moreover have "length bs - c = length (concat (map (\<lambda>off. le_bytes 4 (unat off)) (bm_offsets b)) @
      le_bytes 4 (unat (word_of_nat (length (bm_data b)) :: u32)) @ bm_data b @ ys)"
    using assms(1) by (metis ahead_def length_drop)
  ultimately have room: "\<not> length bs < c + (n + 1) * 4 + 4" using n(1) by simp
  note r1 = read_offsets_back [OF assms(1), of "[]", unfolded n(1) append_Nil]
  note r2 = ahead_reads(2) [OF r1 [THEN conjunct2]]
  let ?c = "c + 4 * (n + 1) + 4"
  have a: "ahead bs ?c (bm_data b @ ys)" using r2 by blast
  have len: "length bs - ?c = length (bm_data b) + length ys" using a by (metis ahead_def length_append length_drop)
  have "\<lparr>bm_offsets = bm_offsets b, bm_data = bm_data b\<rparr> = b" by simp
  with room show ?thesis unfolding parse_block_max_def
    by (simp only: if_False pbind_simps prod.case r1 [THEN conjunct1] r2 [THEN conjunct1] d len ahead_slice [OF a]
        Option.bind.simps n(2))
      (use ahead_past [OF a] n(2) in \<open>auto split: if_splits\<close>)
qed

lemma block_bytes_parts:
  "block_bytes terms f b = encode_u64 (word_of_nat (length terms)) @ encode_u64 (word_of_nat (length (encode_block_terms terms))) @
     encode_block_terms terms @ fixed_bytes f @ concat (map (\<lambda>off. le_bytes 4 (unat off)) (bm_offsets b)) @
     le_bytes 4 (unat (word_of_nat (length (bm_data b)) :: u32)) @ bm_data b"
  by (simp add: block_bytes_def fixed_bytes_def Let_def)

lemma parse_block_back:
  assumes "ahead bs c (block_bytes terms f b @ ys)" "terms_ok terms" "fixed_ok f" "unat (fb_term_count f) = length terms"
    "length (fb_payload f) \<le> u32_max" "bmd_ok b (length terms)"
  shows "\<exists>c'. parse_block bs c = Some (Inr (\<lparr>block_term_count = length terms, br_term_bytes = encode_block_terms terms,
      br_term_info_block = f, br_block_max_data = b\<rparr>, c')) \<and> ahead bs c' ys"
proof -
  note a = assms(1) [unfolded block_bytes_parts append_assoc]
  obtain c1 where c1: "parse_terms bs c = Some (Inr (length terms, encode_block_terms terms, c1))"
    "ahead bs c1 (fixed_bytes f @ concat (map (\<lambda>off. le_bytes 4 (unat off)) (bm_offsets b)) @
       le_bytes 4 (unat (word_of_nat (length (bm_data b)) :: u32)) @ bm_data b @ ys)"
    using parse_terms_back [OF a assms(2)] by blast
  obtain c2 where c2: "parse_fixed bs (length terms) c1 = Some (Inr (f, c2))"
    "ahead bs c2 (concat (map (\<lambda>off. le_bytes 4 (unat off)) (bm_offsets b)) @
       le_bytes 4 (unat (word_of_nat (length (bm_data b)) :: u32)) @ bm_data b @ ys)"
    using parse_fixed_back [OF c1(2) assms(3,4,5)] by blast
  obtain c3 where c3: "parse_block_max bs (length terms) c2 = Some (Inr (b, c3))" "ahead bs c3 ys"
    using parse_block_max_back [OF c2(2) assms(6)] by blast
  from c1(1) c2(1) c3 show ?thesis by (simp add: parse_block_def)
qed

section \<open>The iterator yields the entries\<close>

definition term_ok :: "bytes \<Rightarrow> bool" where
  "term_ok t \<longleftrightarrow> valid_utf8 t \<and> length t < 2 ^ 64"

text \<open>In the middle of a block, with one term behind.\<close>

lemma section_entries_rest:
  assumes "fc_bytes d = pre @ windows_bytes prev ts" "fc_cursor d = length pre" "fc_remaining d = length ts"
    "fc_current d = prev" "\<not> fc_is_first d" "length prev < 2 ^ 64" "\<forall>t \<in> set ts. term_ok t"
    "length infos = length ts" "\<forall>j < length ts. term_info_at f b (inner + j) = Some (Inr (infos ! j))"
  shows "section_entries (it\<lparr>si_current := Some \<lparr>cb_term_count = inner + length ts, cb_decoder = d, cb_term_info_block = f,
      cb_block_max_data = b, cb_inner = inner\<rparr>\<rparr>) =
    map_option ((@) (map Inr (zip ts infos))) (section_entries (it\<lparr>si_current := None\<rparr>))"
  using assms
proof (induction ts arbitrary: d pre prev infos inner)
  case Nil
  then show ?case
    by (subst (1 2) section_entries.simps, subst next_entry.simps) (simp add: option.map_ident_strong)
next
  case (Cons t ts)
  obtain info infos' where infos: "infos = info # infos'" using Cons.prems(8) by (cases infos) auto
  let ?d = "\<lparr>fc_bytes = pre @ windows_bytes prev (t # ts), fc_cursor = length pre + length (window_bytes prev t),
    fc_remaining = length ts, fc_current = t, fc_is_first = False\<rparr>"
  have d: "d = \<lparr>fc_bytes = pre @ windows_bytes prev (t # ts), fc_cursor = length pre, fc_remaining = Suc (length ts),
      fc_current = prev, fc_is_first = False\<rparr>"
    using Cons.prems(1-5) by (cases d) simp
  have t: "length t < 2 ^ 64" "valid_utf8 t" using Cons.prems(7) by (auto simp: term_ok_def)
  have next_term: "fc_next d = Some (Inr (Some (t, ?d)))"
    unfolding d by (rule fc_later [OF Cons.prems(6) t(1), where rest = "windows_bytes t ts"]) simp
  have info: "term_info_at f b inner = Some (Inr info)" using Cons.prems(9) infos by auto
  let ?cb = "\<lambda>d i. \<lparr>cb_term_count = inner + length (t # ts), cb_decoder = d, cb_term_info_block = f,
      cb_block_max_data = b, cb_inner = i\<rparr>"
  have step: "next_entry (it\<lparr>si_current := Some (?cb d inner)\<rparr>) =
      Some (Inr (Some ((t, info), it\<lparr>si_current := Some (?cb ?d (inner + 1))\<rparr>)))"
    using next_term info t(2) by (subst next_entry.simps) (simp add: block_entry_def)
  have "section_entries (it\<lparr>si_current := Some \<lparr>cb_term_count = inner + 1 + length ts, cb_decoder = ?d, cb_term_info_block = f,
      cb_block_max_data = b, cb_inner = inner + 1\<rparr>\<rparr>) =
    map_option ((@) (map Inr (zip ts infos'))) (section_entries (it\<lparr>si_current := None\<rparr>))"
  proof (rule Cons.IH [where pre = "pre @ window_bytes prev t" and prev = t])
    show "\<forall>j < length ts. term_info_at f b (inner + 1 + j) = Some (Inr (infos' ! j))"
    proof (intro allI impI)
      fix j
      assume "j < length ts"
      with Cons.prems(9) infos show "term_info_at f b (inner + 1 + j) = Some (Inr (infos' ! j))"
        by (auto dest!: spec [of _ "Suc j"])
    qed
  qed (use Cons.prems infos t(1) in auto)
  then show ?case using step infos
    by (subst section_entries.simps, cases "section_entries (it\<lparr>si_current := None\<rparr>)") simp_all
qed

definition entry_ok :: "bytes \<times> term_info \<Rightarrow> bool" where
  "entry_ok e \<longleftrightarrow> term_ok (fst e) \<and> block_max_ok (ti_block_max (snd e))"

lemma fold_offsets: "fold (\<lambda>off out. out @ le_bytes 4 (unat off)) offs out = out @ concat (map (\<lambda>off. le_bytes 4 (unat off)) offs)"
  by (induction offs arbitrary: out) simp_all

lemma encode_chunk_bytes:
  assumes "encode_chunk out chunk = Some out'"
  shows "\<exists>f b. chunk \<noteq> [] \<and> length chunk \<le> BLOCK_TERM_COUNT \<and> encode_fixed (map (\<lambda>(_, info). fixed_of info) chunk) = Some f \<and>
    encode_block_max (map (\<lambda>(_, info). ti_block_max info) chunk) = Some b \<and> out' = out @ block_bytes (map fst chunk) f b"
  using assms
  by (auto simp: encode_chunk_def encode_block_into_def Let_def write_varint_into_eq fold_offsets block_bytes_def
      split: if_splits simp: Option.bind_eq_Some_conv)

lemma term_info_back:
  assumes "encode_fixed (map (\<lambda>(_, info). fixed_of info) chunk) = Some f"
    "encode_block_max (map (\<lambda>(_, info). ti_block_max info) chunk) = Some b"
    "chunk \<noteq> []" "length chunk \<le> BLOCK_TERM_COUNT" "\<forall>e \<in> set chunk. entry_ok e"
  shows "fixed_ok f" "unat (fb_term_count f) = length chunk" "length (fb_payload f) \<le> u32_max" "bmd_ok b (length chunk)"
    "i < length chunk \<Longrightarrow> term_info_at f b i = Some (Inr (snd (chunk ! i)))"
proof -
  have f: "fixed_ok f" "unat (fb_term_count f) = length chunk" "length (fb_payload f) \<le> 36 * length chunk"
    "\<forall>i < length chunk. decode_at f i = Some (Inr (fixed_of (snd (chunk ! i))))"
    using decode_encoded [of "map (\<lambda>(_, info). fixed_of info) chunk"] assms(1,3,4) by (auto simp: case_prod_beta)
  then show "fixed_ok f" "unat (fb_term_count f) = length chunk" by simp_all
  show "length (fb_payload f) \<le> u32_max" using f(3) assms(4) by (simp add: u32_max_def BLOCK_TERM_COUNT_def)
  show "bmd_ok b (length chunk)" using encoded_block_max(1) [OF assms(2)] by simp
  assume i: "i < length chunk"
  then have "block_max_ok (ti_block_max (snd (chunk ! i)))" using assms(5) by (simp add: entry_ok_def)
  then have "get_block_max b i = Some (Inr (ti_block_max (snd (chunk ! i))))"
    using encoded_block_max(2) [OF assms(2), of i] i by (simp add: case_prod_beta)
  with f(4) i show "term_info_at f b i = Some (Inr (snd (chunk ! i)))" by (simp add: term_info_at_def fixed_of_def)
qed

lemma section_entries_block:
  assumes "ahead (si_bytes it) (si_cursor it) (bs @ ys)" "encode_chunk [] chunk = Some bs" "\<forall>e \<in> set chunk. entry_ok e"
    "length (encode_block_terms (map fst chunk)) < 2 ^ 64" "si_current it = None" "si_blocks_remaining it = Suc n"
  shows "\<exists>c. ahead (si_bytes it) c ys \<and> section_entries it =
    map_option ((@) (map Inr chunk)) (section_entries (it\<lparr>si_cursor := c, si_blocks_remaining := n\<rparr>))"
proof -
  obtain f b where fb: "chunk \<noteq> []" "length chunk \<le> BLOCK_TERM_COUNT"
    "encode_fixed (map (\<lambda>(_, info). fixed_of info) chunk) = Some f"
    "encode_block_max (map (\<lambda>(_, info). ti_block_max info) chunk) = Some b" "bs = block_bytes (map fst chunk) f b"
    using encode_chunk_bytes [OF assms(2)] by auto
  note parts = term_info_back [OF fb(3,4,1,2) assms(3)]
  obtain t info es where chunk: "chunk = (t, info) # es" using fb(1) by (cases chunk) auto
  let ?terms = "map fst chunk" and ?t = "map fst es"
  have "terms_ok ?terms" using fb(1,2) assms(4) by (simp add: terms_ok_def)
  from parse_block_back [OF assms(1) [unfolded fb(5)] this parts(1) _ parts(3)] parts(2,4)
  obtain c where c: "parse_block (si_bytes it) (si_cursor it) = Some (Inr (\<lparr>block_term_count = length chunk,
      br_term_bytes = encode_block_terms ?terms, br_term_info_block = f, br_block_max_data = b\<rparr>, c))"
    "ahead (si_bytes it) c ys" by auto
  let ?it = "it\<lparr>si_cursor := c, si_blocks_remaining := n\<rparr>"
  let ?cb = "\<lambda>d i. \<lparr>cb_term_count = 1 + length ?t, cb_decoder = d, cb_term_info_block = f, cb_block_max_data = b, cb_inner = i\<rparr>"
  have adv: "advance_block it = Some (Inr (Some (?it\<lparr>si_current := Some (?cb (fc_new (encode_block_terms ?terms) (Suc (length ?t))) 0)\<rparr>)))"
    using c(1) assms(6) by (simp add: advance_block_def chunk)
  have t: "length t < 2 ^ 64" "valid_utf8 t" using assms(3) by (auto simp: chunk entry_ok_def term_ok_def)
  let ?pre = "encode_u64 (word_of_nat (length t)) @ t"
  let ?d = "\<lparr>fc_bytes = ?pre @ windows_bytes t ?t, fc_cursor = length ?pre, fc_remaining = length ?t, fc_current = t,
      fc_is_first = False\<rparr>"
  have first: "fc_next (fc_new (encode_block_terms ?terms) (Suc (length ?t))) = Some (Inr (Some (t, ?d)))"
    using fc_first [OF t(1), of "windows_bytes t ?t" "length ?t"] by (simp add: encode_block_terms_Cons chunk)
  have info: "term_info_at f b 0 = Some (Inr info)" using parts(5) [of 0] by (simp add: chunk)
  let ?started = "?it\<lparr>si_current := Some (?cb (fc_new (encode_block_terms ?terms) (Suc (length ?t))) 0)\<rparr>"
  have "next_entry it = next_entry ?started" using assms(5) adv by (subst next_entry.simps) simp
  also have "\<dots> = Some (Inr (Some ((t, info), ?it\<lparr>si_current := Some (?cb ?d 1)\<rparr>)))"
    using first info t(2) by (subst next_entry.simps) (simp add: block_entry_def)
  finally have step: "next_entry it = Some (Inr (Some ((t, info), ?it\<lparr>si_current := Some (?cb ?d 1)\<rparr>)))" .
  have "section_entries (?it\<lparr>si_current := Some (?cb ?d 1)\<rparr>) =
      map_option ((@) (map Inr (zip ?t (map snd es)))) (section_entries (?it\<lparr>si_current := None\<rparr>))"
  proof (rule section_entries_rest [where pre = ?pre and prev = t])
    show "\<forall>t \<in> set ?t. term_ok t" using assms(3) by (auto simp: chunk entry_ok_def)
    show "\<forall>j < length ?t. term_info_at f b (1 + j) = Some (Inr (map snd es ! j))"
      using parts(5) by (auto simp: chunk)
  qed (use t in simp_all)
  moreover have "?it\<lparr>si_current := None\<rparr> = ?it"
    using assms(5) by simp
  moreover have "zip ?t (map snd es) = es" by (simp add: zip_map_fst_snd)
  ultimately have "section_entries it = map_option ((@) (map Inr chunk)) (section_entries ?it)"
    using step by (subst section_entries.simps, cases "section_entries ?it") (simp_all add: chunk)
  with c(2) show ?thesis by blast
qed

lemma section_entries_back:
  assumes "ahead (si_bytes it) (si_cursor it) (concat bss)" "list_all2 (\<lambda>chunk bs. encode_chunk [] chunk = Some bs) chunks bss"
    "\<forall>chunk \<in> set chunks. (\<forall>e \<in> set chunk. entry_ok e) \<and> length (encode_block_terms (map fst chunk)) < 2 ^ 64"
    "si_current it = None" "si_blocks_remaining it = length chunks"
  shows "section_entries it = Some (map Inr (concat chunks))"
  using assms
proof (induction chunks arbitrary: bss it)
  case Nil
  then show ?case
    by (subst section_entries.simps, subst next_entry.simps) (simp add: advance_block_def)
next
  case (Cons chunk chunks)
  obtain bs bss' where bss: "bss = bs # bss'" "encode_chunk [] chunk = Some bs"
    "list_all2 (\<lambda>chunk bs. encode_chunk [] chunk = Some bs) chunks bss'"
    using Cons.prems(2) by (auto simp: list_all2_Cons1)
  have a: "ahead (si_bytes it) (si_cursor it) (bs @ concat bss')" using Cons.prems(1) bss(1) by simp
  obtain c where c: "ahead (si_bytes it) c (concat bss')"
    "section_entries it = map_option ((@) (map Inr chunk)) (section_entries (it\<lparr>si_cursor := c, si_blocks_remaining := length chunks\<rparr>))"
    using section_entries_block [OF a bss(2) _ _ Cons.prems(4), of "length chunks"] Cons.prems(3,5) by auto
  have "section_entries (it\<lparr>si_cursor := c, si_blocks_remaining := length chunks\<rparr>) = Some (map Inr (concat chunks))"
    using Cons.prems(3,4) c(1) bss(3) by (intro Cons.IH) simp_all
  with c(2) show ?case by simp
qed

section \<open>What the iterator yields is sound\<close>

lemma get_loop_sound:
  "get_loop data off count result = Some (Inr bs) \<Longrightarrow> block_max_ok result \<Longrightarrow> block_max_ok bs"
proof (induction data off count result rule: get_loop.induct)
  case (2 data off count result)
  obtain a b where s: "sub_slice off 8 data = Some a" "sub_slice (off + 8) 4 data = Some b"
    using "2.prems"(1) by (auto simp: Option.bind_eq_Some_conv)
  let ?d = "word_of_nat (from_le a)" and ?f = "word_of_nat (from_le b)"
  have ok: "result \<noteq> [] \<Longrightarrow> last_doc_id (last result) < ?d" "\<not> f32_is_nan ?f" "\<not> f32_negative ?f"
    and rest: "get_loop data (off + BLOCK_MAX_BYTES) count (result @ [\<lparr>last_doc_id = ?d, max_factor = ?f\<rparr>]) = Some (Inr bs)"
    using "2.prems"(1) s by (auto simp: Let_def not_le split: if_splits)
  have below: "last_doc_id x < ?d" if "x \<in> set result" for x
  proof -
    have "result \<noteq> []" using that by auto
    then obtain ys where ys: "result = ys @ [last result]" by (metis append_butlast_last_id)
    have "sorted_wrt (<) (map last_doc_id (ys @ [last result]))" using "2.prems"(2) ys by (simp add: block_max_ok_def)
    then have "x = last result \<or> last_doc_id x < last_doc_id (last result)"
      using that by (subst (asm) (2) ys) (auto simp: sorted_wrt_append)
    with ok(1) [OF \<open>result \<noteq> []\<close>] show ?thesis by auto
  qed
  have "block_max_ok (result @ [\<lparr>last_doc_id = ?d, max_factor = ?f\<rparr>])"
    using "2.prems"(2) ok below by (auto simp: block_max_ok_def sorted_wrt_append)
  from "2.IH" [OF s refl refl _ _ rest this] ok show ?case by (auto simp: not_le)
qed simp

lemma term_info_at_sound: "term_info_at f b i = Some (Inr info) \<Longrightarrow> block_max_ok (ti_block_max info)"
proof -
  assume "term_info_at f b i = Some (Inr info)"
  then have "get_block_max b i = Some (Inr (ti_block_max info))" by (auto simp: term_info_at_def pbind_Inr_iff)
  then show ?thesis
    by (auto simp: get_block_max_def Let_def block_max_ok_def [of "[]"] split: if_splits dest!: get_loop_sound)
qed

definition sound_entry :: "(bytes \<times> term_info) res \<Rightarrow> bool" where
  "sound_entry e \<longleftrightarrow> (case e of Inl _ \<Rightarrow> True | Inr (t, info) \<Rightarrow> valid_utf8 t \<and> block_max_ok (ti_block_max info))"

lemma next_entry_sound: "next_entry it = Some (Inr (Some (e, it'))) \<Longrightarrow> sound_entry (Inr e)"
proof (induction it rule: next_entry.induct)
  case (1 it)
  show ?case
  proof (cases "si_current it")
    case None
    with "1.prems" obtain it1 where it1: "advance_block it = Some (Inr (Some it1))" "next_entry it1 = Some (Inr (Some (e, it')))"
      by (subst (asm) next_entry.simps) (auto split: option.splits sum.splits)
    from "1.IH"(1) [OF None it1(1) refl refl it1(2)] show ?thesis .
  next
    case (Some cb)
    show ?thesis
    proof (cases "cb_term_count cb \<le> cb_inner cb")
      case True
      have "next_entry (it\<lparr>si_current := None\<rparr>) = Some (Inr (Some (e, it')))"
        using "1.prems" Some True by (subst (asm) next_entry.simps) simp
      from "1.IH"(2) [OF Some True this] show ?thesis .
    next
      case False
      with "1.prems" Some obtain cb' where "block_entry cb = Some (Inr (e, cb'))"
        by (subst (asm) next_entry.simps) (auto simp: pbind_Inr_iff)
      then show ?thesis by (rule block_entryE) (auto simp: sound_entry_def dest: term_info_at_sound)
    qed
  qed
qed

lemma section_entries_sound: "section_entries it = Some es \<Longrightarrow> \<forall>e \<in> set es. sound_entry e"
proof (induction it arbitrary: es rule: section_entries.induct)
  case (1 it)
  show ?case
  proof (cases "\<exists>e it'. next_entry it = Some (Inr (Some (e, it')))")
    case True
    then obtain e it' where e: "next_entry it = Some (Inr (Some (e, it')))" by blast
    then obtain es' where es: "section_entries it' = Some es'" "es = Inr e # es'"
      using "1.prems" by (subst (asm) section_entries.simps) auto
    from "1.IH" [OF e refl refl refl es(1)] next_entry_sound [OF e] es(2) show ?thesis by simp
  next
    case False
    with "1.prems" show ?thesis
      by (subst (asm) section_entries.simps) (auto simp: sound_entry_def split: option.splits sum.splits)
  qed
qed

end
