(* ===== verification/Dict_File.thy ===== *)
theory Dict_File
  imports Dict_Section
begin

text \<open>
  A dictionary as a file, \<^verbatim>\<open>laurus/src/lexical/index/structures/dictionary.rs\<close>: the builder that makes the
  blocks and indexes their last terms, the bytes it is so_far as, and the load with its checks. The
  \<^verbatim>\<open>fst\<close> crate is a parameter.
\<close>

section \<open>The builder\<close>

text \<open>
  The map builder of the \<^verbatim>\<open>fst\<close> crate: its start, the insertion of a key with its value, its bytes, and
  whether bytes are those of a map.
\<close>

record 'b fst_lib =
  fst_start :: 'b
  fst_insert :: "'b \<Rightarrow> bytes \<Rightarrow> nat \<Rightarrow> 'b res"
  fst_finish :: "'b \<Rightarrow> bytes res"
  fst_new :: "bytes \<Rightarrow> unit res"

text \<open>A dictionary: the bytes that it is so_far as and the in-memory layer.\<close>

record block_dictionary =
  bd_fst :: bytes
  bd_block_section :: bytes
  bd_memory :: term_dictionary
  bd_block_count :: nat

function chunks_of :: "nat \<Rightarrow> 'a list \<Rightarrow> 'a list list" where
  "chunks_of n xs = (if xs = [] \<or> n = 0 then [] else take n xs # chunks_of n (drop n xs))"
  by pat_completeness auto
termination
  by (relation "measure (\<lambda>(n, xs). length xs)") auto

declare chunks_of.simps [simp del]

fun build_blocks :: "'b fst_lib \<Rightarrow> (bytes \<times> term_info) list list \<Rightarrow> bytes \<Rightarrow> 'b \<Rightarrow> nat \<Rightarrow> (bytes \<times> 'b \<times> nat) outcome" where
  "build_blocks L [] section b count = Some (Inr (section, b, count))"
| "build_blocks L (chunk # rest) section b count =
     (let block_offset = length section
      in Option.bind (encode_chunk section chunk) (\<lambda>section.
         pbind (Some (fst_insert L b (fst (last chunk)) block_offset)) (\<lambda>b.
         build_blocks L rest section b (count + 1))))"

definition build_dictionary :: "'b fst_lib \<Rightarrow> (bytes \<times> term_info) list \<Rightarrow> block_dictionary outcome" where
  "build_dictionary L entries =
     pbind (if entries = [] then Some (Inr ([], fst_start L, 0))
            else build_blocks L (chunks_of BLOCK_TERM_COUNT entries) [] (fst_start L) 0) (\<lambda>(section, b, count).
     pbind (Some (fst_finish L b)) (\<lambda>fst_bytes.
     pbind (Some (fst_new L fst_bytes)) (\<lambda>_.
     Some (Inr \<lparr>bd_fst = fst_bytes, bd_block_section = section, bd_memory = build entries, bd_block_count = count\<rparr>))))"

section \<open>Writing\<close>

definition MAGIC_LTDD :: u32 where "MAGIC_LTDD = 0x4C544444"
definition LEGACY_MAGIC_STDC :: u32 where "LEGACY_MAGIC_STDC = 0x53544443"
definition LEGACY_MAGIC_HTDC :: u32 where "LEGACY_MAGIC_HTDC = 0x48544443"

definition write_sized :: "bytes \<Rightarrow> string \<Rightarrow> (struct_writer, unit) io" where
  "write_sized bs what =
     (if length bs > u32_max then fail (Index (what @ '' length exceeds u32::MAX''))
      else sbind (sw_write_u32 (word_of_nat (length bs))) (\<lambda>_. sw_write_raw bs))"

definition write_to_storage :: "block_dictionary \<Rightarrow> (struct_writer, unit) io" where
  "write_to_storage d =
     sbind (sw_write_u32 MAGIC_LTDD) (\<lambda>_.
     sbind (sw_write_u32 (word_of_nat (td_version (bd_memory d)))) (\<lambda>_.
     sbind (write_sized (bd_fst d) ''FST bytes'') (\<lambda>_.
     sbind (write_sized (bd_block_section d) ''BlockSection'') (\<lambda>_.
     sbind (sw_write_u64 (word_of_nat (td_total_term_count (bd_memory d)))) (\<lambda>_.
     sbind (sw_write_u32 (word_of_nat (bd_block_count d))) (\<lambda>_.
     sw_write_u32 0))))))"

section \<open>Reading\<close>

text \<open>What a load reads of the file before it decodes anything.\<close>

record dictionary_parts =
  dp_version :: u32
  dp_fst :: bytes
  dp_section :: bytes
  dp_total_term_count :: u64
  dp_block_count :: u32

definition read_dictionary_fields :: "(struct_reader, dictionary_parts) io" where
  "read_dictionary_fields =
     sbind sr_read_u32 (\<lambda>magic.
     if magic = LEGACY_MAGIC_STDC \<or> magic = LEGACY_MAGIC_HTDC
     then fail (Index ''Unsupported legacy term dictionary format. Rebuild required.'')
     else if magic \<noteq> MAGIC_LTDD then fail (Index ''Invalid term dictionary magic'')
     else
       sbind sr_read_u32 (\<lambda>version.
       if version \<notin> {1, 2, 3} then fail (Index ''Unsupported BlockTermDictionary version'')
       else
         sbind sr_read_u32 (\<lambda>fst_len. sbind (sr_read_raw (unat fst_len)) (\<lambda>fst_bytes.
         sbind sr_read_u32 (\<lambda>section_len. sbind (sr_read_raw (unat section_len)) (\<lambda>section.
         sbind sr_read_u64 (\<lambda>total. sbind sr_read_u32 (\<lambda>block_count. sbind sr_read_u32 (\<lambda>_.
         ret \<lparr>dp_version = version, dp_fst = fst_bytes, dp_section = section, dp_total_term_count = total,
           dp_block_count = block_count\<rparr>)))))))))"

definition read_parts :: "(bytes \<Rightarrow> u32) \<Rightarrow> (struct_reader, dictionary_parts) io" where
  "read_parts crc = sbind read_dictionary_fields (\<lambda>p. sbind (expect_checksum crc ''term dictionary'') (\<lambda>_. ret p))"

definition FST_MIN_LEN :: nat where "FST_MIN_LEN = 36"

definition fst_u64 :: "bytes \<Rightarrow> nat \<Rightarrow> nat option" where
  "fst_u64 bs at = map_option from_le (sub_slice at 8 bs)"

definition check_fst_header :: "bytes \<Rightarrow> u32 \<Rightarrow> unit outcome" where
  "check_fst_header bs block_count =
     (if length bs < FST_MIN_LEN then Some (Inr ())
      else
        Option.bind (fst_u64 bs 0) (\<lambda>version.
        if version \<notin> {1, 2, 3} then Some (Inr ())
        else
          let stop = (if version = 3 then length bs - 4 else length bs)
          in Option.bind (fst_u64 bs (stop - 8)) (\<lambda>root_addr.
             if root_addr \<ge> length bs then Some (Inl (corrupted ''FST root address lies outside its bytes''))
             else Option.bind (fst_u64 bs (stop - 16)) (\<lambda>key_count.
               if key_count \<noteq> unat block_count
               then Some (Inl (corrupted ''FST holds another number of keys than the header declares blocks''))
               else Some (Inr ())))))"

text \<open>
  What follows the checksum. The source fills the in-memory layer while it iterates; as the iterator
  does not panic, listing its entries first makes no difference.
\<close>

definition load_parts :: "'b fst_lib \<Rightarrow> u64 option \<Rightarrow> dictionary_parts \<Rightarrow> block_dictionary outcome" where
  "load_parts L max_docs p =
     pbind (check_fst_header (dp_fst p) (dp_block_count p)) (\<lambda>_.
     pbind (Some (fst_new L (dp_fst p))) (\<lambda>_.
     pbind (Some (checked_capacity_u64 (dp_total_term_count p) 4 (length (dp_section p)) ''term dictionary term count'')) (\<lambda>expected_terms.
     Option.bind (section_entries (section_iter_new (dp_section p) (unat (dp_block_count p)))) (\<lambda>entries.
     pbind (Some (populate_in_memory_layer entries expected_terms max_docs (unat (dp_version p)))) (\<lambda>memory.
     Some (Inr \<lparr>bd_fst = dp_fst p, bd_block_section = dp_section p, bd_memory = memory,
       bd_block_count = unat (dp_block_count p)\<rparr>))))))"

definition read_from_storage ::
    "'b fst_lib \<Rightarrow> (bytes \<Rightarrow> u32) \<Rightarrow> u64 option \<Rightarrow> struct_reader \<Rightarrow> block_dictionary outcome \<times> struct_reader" where
  "read_from_storage L crc max_docs s =
     (case read_parts crc s of
        (Inl e, s) \<Rightarrow> (Some (Inl e), s)
      | (Inr p, s) \<Rightarrow> (load_parts L max_docs p, s))"

section \<open>A load never panics\<close>

lemma check_fst_header_total: "no_panic (check_fst_header bs n)"
  by (auto simp: check_fst_header_def FST_MIN_LEN_def fst_u64_def sub_slice_def Let_def)

lemma load_parts_total: "no_panic (load_parts L max_docs p)"
  by (auto simp: load_parts_def check_fst_header_total section_iter_new_def iter_ok_def
      intro!: no_panic_pbind no_panic_bind section_entries_total)

section \<open>A built dictionary\<close>

lemma chunks_of_concat: "0 < n \<Longrightarrow> concat (chunks_of n xs) = xs"
proof (induction n xs rule: chunks_of.induct)
  case (1 n xs)
  then show ?case by (cases "xs = []") (simp_all add: chunks_of.simps [of n xs] chunks_of.simps [of n "[]"])
qed

definition blocks_of :: "(bytes \<times> term_info) list list \<Rightarrow> bytes list \<Rightarrow> bool" where
  "blocks_of = list_all2 (\<lambda>chunk bs. encode_chunk [] chunk = Some bs)"

lemma encode_chunk_out: "encode_chunk out chunk = Some out' \<Longrightarrow> \<exists>bs. encode_chunk [] chunk = Some bs \<and> out' = out @ bs"
proof -
  assume "encode_chunk out chunk = Some out'"
  from encode_chunk_bytes [OF this] obtain f b where fb: "chunk \<noteq> []" "length chunk \<le> BLOCK_TERM_COUNT"
    "encode_fixed (map (\<lambda>(_, info). fixed_of info) chunk) = Some f"
    "encode_block_max (map (\<lambda>(_, info). ti_block_max info) chunk) = Some b" "out' = out @ block_bytes (map fst chunk) f b"
    by blast
  then have "encode_chunk [] chunk = Some (block_bytes (map fst chunk) f b)"
    by (simp add: encode_chunk_def encode_block_into_def Let_def write_varint_into_eq fold_offsets block_bytes_def)
  with fb(5) show ?thesis by blast
qed

text \<open>A block takes more bytes than its terms, and four for every term.\<close>

lemma encode_chunk_size:
  assumes "encode_chunk [] chunk = Some bs"
  shows "length (encode_block_terms (map fst chunk)) \<le> length bs" "4 * length chunk \<le> length bs" "0 < length bs"
proof -
  obtain f b where fb: "chunk \<noteq> []" "encode_block_max (map (\<lambda>(_, info). ti_block_max info) chunk) = Some b"
    "bs = block_bytes (map fst chunk) f b"
    using encode_chunk_bytes [OF assms] by auto
  have "length (bm_offsets b) = length chunk + 1"
    using encoded_block_max(1) [OF fb(2)] by (simp add: bmd_ok_def)
  moreover have "length (concat (map (\<lambda>off. le_bytes 4 (unat off)) offs)) = 4 * length offs" for offs :: "u32 list"
    by (induction offs) simp_all
  ultimately show "length (encode_block_terms (map fst chunk)) \<le> length bs" "4 * length chunk \<le> length bs" "0 < length bs"
    using fb(1) unfolding fb(3) block_bytes_parts by simp_all
qed

fun fst_inserts :: "'b fst_lib \<Rightarrow> 'b \<Rightarrow> (bytes \<times> nat) list \<Rightarrow> 'b res" where
  "fst_inserts L b [] = Inr b"
| "fst_inserts L b ((k, v) # kvs) = rbind (fst_insert L b k v) (\<lambda>b. fst_inserts L b kvs)"

lemma build_blocks_ok:
  assumes "build_blocks L chunks so_far b count = Some (Inr (so_far', b', count'))"
  shows "\<exists>bss kvs. blocks_of chunks bss \<and> so_far' = so_far @ concat bss \<and> count' = count + length chunks \<and>
    fst_inserts L b kvs = Inr b' \<and> length kvs = length chunks"
  using assms
proof (induction chunks arbitrary: so_far b count)
  case Nil
  then show ?case by (intro exI [of _ "[]"]) (simp add: blocks_of_def)
next
  case (Cons chunk chunks)
  obtain so_far1 b1 where s: "encode_chunk so_far chunk = Some so_far1"
    "fst_insert L b (fst (last chunk)) (length so_far) = Inr b1"
    "build_blocks L chunks so_far1 b1 (count + 1) = Some (Inr (so_far', b', count'))"
    using Cons.prems by (auto simp: Let_def pbind_Inr_iff Option.bind_eq_Some_conv)
  obtain bs where bs: "encode_chunk [] chunk = Some bs" "so_far1 = so_far @ bs" using encode_chunk_out [OF s(1)] by blast
  obtain bss kvs where r: "blocks_of chunks bss" "so_far' = so_far1 @ concat bss" "count' = count + 1 + length chunks"
    "fst_inserts L b1 kvs = Inr b'" "length kvs = length chunks"
    using Cons.IH [OF s(3)] by auto
  then show ?case using bs s(2)
    by (intro exI [of _ "bs # bss"] exI [of _ "(fst (last chunk), length so_far) # kvs"]) (simp add: blocks_of_def)
qed

lemma blocks_sizes:
  assumes "blocks_of chunks bss"
  shows "4 * length (concat chunks) \<le> length (concat bss)" "length chunks \<le> length (concat bss)"
    "\<forall>chunk \<in> set chunks. length (encode_block_terms (map fst chunk)) \<le> length (concat bss)"
proof -
  have "4 * length (concat chunks) \<le> length (concat bss) \<and> length chunks \<le> length (concat bss) \<and>
    (\<forall>chunk \<in> set chunks. length (encode_block_terms (map fst chunk)) \<le> length (concat bss))"
    using assms unfolding blocks_of_def
  proof (induction rule: list_all2_induct)
    case (Cons chunk chunks bs bss)
    note size = encode_chunk_size [OF Cons(1)]
    have "\<forall>c \<in> set chunks. length (encode_block_terms (map fst c)) \<le> length (concat (bs # bss))"
      using Cons(3) by (auto intro: trans_le_add2)
    moreover obtain k where "length bs = Suc k" using size(3) by (cases bs) simp_all
    ultimately show ?case using size(1,2) Cons(3) by simp
  qed simp
  then show "4 * length (concat chunks) \<le> length (concat bss)" "length chunks \<le> length (concat bss)"
    "\<forall>chunk \<in> set chunks. length (encode_block_terms (map fst chunk)) \<le> length (concat bss)" by blast+
qed

text \<open>Entries in ascending order fill the in-memory layer that the builder made.\<close>

definition entries_in :: "u64 option \<Rightarrow> (bytes \<times> term_info) list \<Rightarrow> bool" where
  "entries_in max_docs es \<longleftrightarrow> (\<forall>n. max_docs = Some n \<longrightarrow> (\<forall>(t, info) \<in> set es. ti_doc_frequency info \<le> n \<and> 58 \<in> set t))"

lemma populate_total:
  assumes "sorted_wrt (<) (terms @ map fst es)" "entries_in max_docs es"
  shows "\<exists>m'. populate max_docs (map Inr es) n m terms infos = Inr (m', terms @ map fst es, infos @ map snd es)"
  using assms
proof (induction es arbitrary: n m terms infos)
  case (Cons e es)
  obtain t info where e: "e = (t, info)" by (cases e)
  have asc: "\<not> (terms \<noteq> [] \<and> last terms \<ge> t)"
    using Cons.prems(1) e by (cases terms rule: rev_cases) (auto simp: sorted_wrt_append)
  have "\<exists>m'. populate max_docs (map Inr es) (n + 1) (m(t \<mapsto> n)) (terms @ [t]) (infos @ [info]) =
      Inr (m', (terms @ [t]) @ map fst es, (infos @ [info]) @ map snd es)"
    using Cons.prems e by (intro Cons.IH) (auto simp: entries_in_def)
  then show ?case using asc Cons.prems(2) e by (cases max_docs) (auto simp: entries_in_def not_le)
qed simp

lemma populate_build:
  assumes "sorted_wrt (<) (map fst es)" "entries_in max_docs es"
  shows "populate_in_memory_layer (map Inr es) (length es) max_docs 3 = Inr (build es)"
proof -
  obtain m where m: "populate max_docs (map Inr es) 0 Map.empty [] [] = Inr (m, map fst es, map snd es)"
    using populate_total [of "[]" es max_docs 0 Map.empty "[]"] assms by auto
  from populate_ok [OF m] have "m = map_of (zip (map fst es) [0..<length es])" by simp
  with m show ?thesis by (simp add: populate_in_memory_layer_def build_def)
qed

section \<open>The file\<close>

definition dictionary_bytes :: "block_dictionary \<Rightarrow> bytes" where
  "dictionary_bytes d =
     le_bytes 4 (unat MAGIC_LTDD) @ le_bytes 4 (unat (word_of_nat (td_version (bd_memory d)) :: u32)) @
     (le_bytes 4 (unat (word_of_nat (length (bd_fst d)) :: u32)) @ bd_fst d) @
     (le_bytes 4 (unat (word_of_nat (length (bd_block_section d)) :: u32)) @ bd_block_section d) @
     le_bytes 8 (unat (word_of_nat (td_total_term_count (bd_memory d)) :: u64)) @
     le_bytes 4 (unat (word_of_nat (bd_block_count d) :: u32)) @ le_bytes 4 (unat (0 :: u32))"

definition parts_of :: "block_dictionary \<Rightarrow> dictionary_parts" where
  "parts_of d = \<lparr>dp_version = word_of_nat (td_version (bd_memory d)), dp_fst = bd_fst d, dp_section = bd_block_section d,
     dp_total_term_count = word_of_nat (td_total_term_count (bd_memory d)), dp_block_count = word_of_nat (bd_block_count d)\<rparr>"

definition fits :: "block_dictionary \<Rightarrow> bool" where
  "fits d \<longleftrightarrow> length (bd_fst d) \<le> u32_max \<and> length (bd_block_section d) \<le> u32_max"

lemma emits_sized: "length bs \<le> u32_max \<Longrightarrow> emits (write_sized bs what) (le_bytes 4 (unat (word_of_nat (length bs) :: u32)) @ bs)"
  by (auto simp: write_sized_def intro: emits_rules)

lemma emits_dictionary: "fits d \<Longrightarrow> emits (write_to_storage d) (dictionary_bytes d)"
  unfolding write_to_storage_def dictionary_bytes_def fits_def
  by (intro emits_sbind emits_fixed emits_sized) auto

lemma reads_dictionary:
  assumes "fits d" "td_version (bd_memory d) = 3"
  shows "reads read_dictionary_fields (dictionary_bytes d) rest (parts_of d)"
proof -
  have len: "unat (word_of_nat (length (bd_fst d)) :: u32) = length (bd_fst d)"
    "unat (word_of_nat (length (bd_block_section d)) :: u32) = length (bd_block_section d)"
    using assms(1) by (simp_all add: fits_def u32_of_length)
  have small: "length (bd_fst d) < 2 ^ 64" "length (bd_block_section d) < 2 ^ 64"
    using assms(1) by (simp_all add: fits_def u32_max_def)
  have magic: "\<not> (MAGIC_LTDD = LEGACY_MAGIC_STDC \<or> MAGIC_LTDD = LEGACY_MAGIC_HTDC)" "\<not> MAGIC_LTDD \<noteq> MAGIC_LTDD"
    by (simp_all add: MAGIC_LTDD_def LEGACY_MAGIC_STDC_def LEGACY_MAGIC_HTDC_def)
  have version: "\<not> (word_of_nat (td_version (bd_memory d)) :: u32) \<notin> {1, 2, 3}" by (simp add: assms(2))
  have raw: "reads (sr_read_raw (unat (word_of_nat (length (bd_fst d)) :: u32))) (bd_fst d) rest (bd_fst d)"
    "reads (sr_read_raw (unat (word_of_nat (length (bd_block_section d)) :: u32))) (bd_block_section d) rest (bd_block_section d)" for rest
    using reads_raw small by (simp_all add: len)
  show ?thesis
    unfolding read_dictionary_fields_def dictionary_bytes_def parts_of_def append_assoc
    apply (rule reads_sbind [OF reads_ints(3)], simp only: magic if_False)
    apply (rule reads_sbind [OF reads_ints(3)], simp only: version if_False)
    apply (rule reads_sbind [OF reads_ints(3)], rule reads_sbind [OF raw(1)])
    apply (rule reads_sbind [OF reads_ints(3)], rule reads_sbind [OF raw(2)])
    apply (rule reads_sbind [OF reads_ints(4)], rule reads_sbind [OF reads_ints(3)])
    apply (rule reads_then_ret [OF reads_ints(3)], rule refl)
    done
qed

text \<open>
  What the crate documents of a map: its bytes are accepted again, hold a version in front, and the
  number of keys and an address within the bytes before the checksum at the end.
\<close>

definition fst_format :: "bytes \<Rightarrow> nat \<Rightarrow> bool" where
  "fst_format bs keys \<longleftrightarrow> 36 \<le> length bs \<and> from_le (take 8 bs) = 3 \<and>
     from_le (take 8 (drop (length bs - 4 - 8) bs)) < length bs \<and> from_le (take 8 (drop (length bs - 4 - 16) bs)) = keys"

definition fst_behaves :: "'b fst_lib \<Rightarrow> bool" where
  "fst_behaves L \<longleftrightarrow> (\<forall>kvs b bs. fst_inserts L (fst_start L) kvs = Inr b \<and> fst_finish L b = Inr bs \<longrightarrow>
     fst_new L bs = Inr () \<and> fst_format bs (length kvs))"

lemma check_fst_header_ok: "fst_format bs (unat n) \<Longrightarrow> check_fst_header bs n = Some (Inr ())"
  by (auto simp: fst_format_def check_fst_header_def FST_MIN_LEN_def fst_u64_def sub_slice_def Let_def)

lemma read_parts_back:
  assumes "fits d" "td_version (bd_memory d) = 3" "length (dictionary_bytes d) + FOOTER_LEN \<le> capacity"
  shows "\<exists>s. sbind (write_to_storage d) (\<lambda>_. sw_close crc) (struct_writer_new capacity) = (Inr (), s) \<and>
    fst (read_parts crc (struct_reader_new (sw_content s) lends)) = Inr (parts_of d)"
proof -
  let ?bs = "dictionary_bytes d" and ?w = "struct_writer_new capacity"
  have w: "write_to_storage d ?w = (Inr (), written ?bs ?w)"
    using emits_dictionary [OF assms(1)] assms(3) new_wf [of capacity]
    by (simp add: emits_def) (simp add: struct_writer_new_def)
  have wf: "sw_wf (written ?bs ?w)"
    using assms(3) by (intro written_wf new_wf) (simp add: struct_writer_new_def)
  have c: "sw_content (written ?bs ?w) = ?bs" "sw_hashed (written ?bs ?w) = ?bs" "sw_cursor (written ?bs ?w) = length ?bs"
    "sw_reserved_header (written ?bs ?w) = None" "sw_capacity (written ?bs ?w) = capacity"
    by (simp_all add: written_def struct_writer_new_def overwrite_def)
  obtain s where s: "sw_close crc (written ?bs ?w) = (Inr (), s)" "sw_content s = ?bs @ footer crc ?bs"
    using close_appends_footer [OF wf, of crc] assms(3) unfolding c by auto
  let ?r = "struct_reader_new (sw_content s) lends"
  have r: "read_dictionary_fields ?r = (Inr (parts_of d), advanced (length ?bs) ?r)"
    using reads_dictionary [OF assms(1,2), of "footer crc ?bs"] s(2) by (simp add: reads_def)
  have wf_at: "sr_wf (advanced (length ?bs) ?r)" "rest_of (advanced (length ?bs) ?r) = footer crc ?bs"
    using advanced_wf [OF sr_wf_new(1) [of "sw_content s" lends], of "length ?bs"] s(2) by simp_all
  have at: "sr_sequential (advanced (length ?bs) ?r)" "sr_position (advanced (length ?bs) ?r) = length ?bs"
    "sr_content (advanced (length ?bs) ?r) = sw_content s"
    using s(2) by (simp_all add: struct_reader_new_def rest_of_def)
  have "fst (verify_checksum crc (advanced (length ?bs) ?r)) = Inr Verified"
    using verify_at_footer [OF wf_at(1) at(1) wf_at(2) [unfolded footer_def], of crc] at(2,3) s(2) by simp
  then obtain r' where "verify_checksum crc (advanced (length ?bs) ?r) = (Inr Verified, r')" by (metis prod.collapse)
  with r have "fst (read_parts crc ?r) = Inr (parts_of d)"
    by (simp add: read_parts_def expect_checksum_def sbind_def ret_def)
  moreover have "sbind (write_to_storage d) (\<lambda>_. sw_close crc) ?w = (Inr (), s)"
    using w s(1) by (simp add: sbind_def)
  ultimately show ?thesis by blast
qed

lemma load_built:
  assumes "sorted_wrt (<) (map fst es)" "\<forall>e \<in> set es. entry_ok e" "entries_in max_docs es" "fst_behaves L"
    "build_dictionary L es = Some (Inr d)" "fits d"
  shows "load_parts L max_docs (parts_of d) = Some (Inr d) \<and> bd_memory d = build es"
proof -
  obtain sec b count where sec: "(if es = [] then Some (Inr ([], fst_start L, 0))
      else build_blocks L (chunks_of BLOCK_TERM_COUNT es) [] (fst_start L) 0) = Some (Inr (sec, b, count))"
    and d: "fst_finish L b = Inr (bd_fst d)" "fst_new L (bd_fst d) = Inr ()" "bd_block_section d = sec"
      "bd_memory d = build es" "bd_block_count d = count"
    using assms(5) by (auto simp: build_dictionary_def pbind_Inr_iff)
  let ?chunks = "chunks_of BLOCK_TERM_COUNT es"
  have all: "concat ?chunks = es" by (rule chunks_of_concat) (simp add: BLOCK_TERM_COUNT_def)
  obtain bss kvs where b: "blocks_of ?chunks bss" "sec = concat bss" "count = length ?chunks"
    "fst_inserts L (fst_start L) kvs = Inr b" "length kvs = length ?chunks"
  proof (cases "es = []")
    case True
    with sec have "sec = []" "b = fst_start L" "count = 0" by auto
    with True show thesis
      by (intro that [of "[]" "[]"]) (simp_all add: chunks_of.simps [of _ "[]"] blocks_of_def)
  next
    case False
    with sec have "build_blocks L ?chunks [] (fst_start L) 0 = Some (Inr (sec, b, count))" by simp
    from build_blocks_ok [OF this] show thesis using that by auto
  qed
  note sizes = blocks_sizes [OF b(1), folded b(2)]
  have small: "length sec \<le> u32_max" using assms(6) d(3) by (simp add: fits_def)
  have count: "unat (word_of_nat count :: u32) = count" using sizes(2) small b(3) by (intro u32_of_length) simp
  have es: "4 * length es \<le> length sec" using sizes(1) by (simp add: all)
  then have total: "unat (word_of_nat (length es) :: u64) = length es"
    using small by (simp add: unat_of_nat u32_max_def)
  have memory: "td_total_term_count (build es) = length es" "td_version (build es) = 3" by (simp_all add: build_def)
  have "fst_format (bd_fst d) (length kvs)" using assms(4) b(4) d(1) unfolding fst_behaves_def by blast
  then have "check_fst_header (bd_fst d) (word_of_nat count) = Some (Inr ())"
    using b(3,5) count by (intro check_fst_header_ok) simp
  moreover have "checked_capacity_u64 (word_of_nat (length es)) 4 (length sec) what = Inr (length es)" for what
    using es total by (simp add: checked_capacity_u64_def checked_usize_def)
  moreover have "section_entries (section_iter_new sec count) = Some (map Inr (concat ?chunks))"
  proof (rule section_entries_back)
    show "ahead (si_bytes (section_iter_new sec count)) (si_cursor (section_iter_new sec count)) (concat bss)"
      by (simp add: section_iter_new_def ahead_def b(2))
    show "list_all2 (\<lambda>chunk bs. encode_chunk [] chunk = Some bs) ?chunks bss" using b(1) by (simp add: blocks_of_def)
    show "\<forall>chunk \<in> set ?chunks. (\<forall>e \<in> set chunk. entry_ok e) \<and> length (encode_block_terms (map fst chunk)) < 2 ^ 64"
    proof
      fix chunk
      assume c: "chunk \<in> set ?chunks"
      then have "set chunk \<subseteq> set es" by (metis UN_upper all set_concat)
      then show "(\<forall>e \<in> set chunk. entry_ok e) \<and> length (encode_block_terms (map fst chunk)) < 2 ^ 64"
        using assms(2) sizes(3) c small by (fastforce simp: u32_max_def)
    qed
  qed (simp_all add: section_iter_new_def b(3))
  ultimately have "load_parts L max_docs (parts_of d) = Some (Inr d)"
    using populate_build [OF assms(1,3)] d count total memory
    by (simp add: load_parts_def parts_of_def all)
  with d(4) show ?thesis by simp
qed

section \<open>Properties\<close>

text \<open>
  C23. A dictionary file gives back the dictionary: terms in ascending order with their infos, built into
  blocks of 128 with front-coded terms and bit-packed counts, written and closed with a footer, are
  loaded as exactly the dictionary that was built, with and without the checks of a segment.
\<close>

theorem dictionary_file_roundtrip:
  assumes "sorted_wrt (<) (map fst es)" "\<forall>e \<in> set es. entry_ok e" "entries_in max_docs es" "fst_behaves L"
    "build_dictionary L es = Some (Inr d)" "fits d" "length (dictionary_bytes d) + FOOTER_LEN \<le> capacity"
  shows "\<exists>s. sbind (write_to_storage d) (\<lambda>_. sw_close crc) (struct_writer_new capacity) = (Inr (), s) \<and>
    fst (read_from_storage L crc max_docs (struct_reader_new (sw_content s) lends)) = Some (Inr d) \<and>
    td_iter (bd_memory d) = es"
proof -
  have load: "load_parts L max_docs (parts_of d) = Some (Inr d)" "bd_memory d = build es"
    using load_built [OF assms(1-6)] by simp_all
  then have "td_version (bd_memory d) = 3" by (simp add: build_def)
  then obtain s where s: "sbind (write_to_storage d) (\<lambda>_. sw_close crc) (struct_writer_new capacity) = (Inr (), s)"
    "fst (read_parts crc (struct_reader_new (sw_content s) lends)) = Inr (parts_of d)"
    using read_parts_back [OF assms(6) _ assms(7)] by blast
  then have "fst (read_from_storage L crc max_docs (struct_reader_new (sw_content s) lends)) = Some (Inr d)"
    using load(1) by (auto simp: read_from_storage_def split: prod.splits)
  with s(1) build_inv [OF assms(1)] load(2) show ?thesis by auto
qed

text \<open>A map builder that counts its keys and writes the format.\<close>

definition counting_fst :: "bytes list fst_lib" where
  "counting_fst = \<lparr>fst_start = [],
     fst_insert = (\<lambda>keys k _. if (keys \<noteq> [] \<and> last keys \<ge> k) \<or> length keys \<ge> 2 ^ 64 - 1 then Inl (Index ''FST insert error'')
       else Inr (keys @ [k])),
     fst_finish = (\<lambda>keys. Inr (le_bytes 8 3 @ le_bytes 8 0 @ le_bytes 8 (length keys) @ le_bytes 8 0 @ le_bytes 4 0)),
     fst_new = (\<lambda>_. Inr ())\<rparr>"

lemma counting_inserts:
  "fst_inserts counting_fst keys kvs = Inr b \<Longrightarrow> length keys < 2 ^ 64 \<Longrightarrow> length b = length keys + length kvs \<and> length b < 2 ^ 64"
proof (induction kvs arbitrary: keys)
  case (Cons kv kvs)
  obtain k v where kv: "kv = (k, v)" by (cases kv)
  from Cons.prems(1) kv have "fst_inserts counting_fst (keys @ [k]) kvs = Inr b" "length keys < 2 ^ 64 - 1"
    by (auto simp: counting_fst_def rbind_Inr_iff split: if_splits)
  with Cons.IH [of "keys @ [k]"] show ?case by simp
qed simp

lemma counting_behaves: "fst_behaves counting_fst"
  unfolding fst_behaves_def
proof (intro allI impI)
  fix kvs b bs
  assume a: "fst_inserts counting_fst (fst_start counting_fst) kvs = Inr b \<and> fst_finish counting_fst b = Inr bs"
  have start: "fst_start counting_fst = []" by (simp add: counting_fst_def)
  have n: "length b = length kvs" "length b < 2 ^ 64"
    using counting_inserts [of "[]" kvs b] a unfolding start by simp_all
  have back_to: "from_le (le_bytes 8 m) = m" if "m < 2 ^ 64" for m using that by (intro from_le_le_bytes_small) simp
  have bs: "bs = le_bytes 8 3 @ le_bytes 8 0 @ le_bytes 8 (length b) @ le_bytes 8 0 @ le_bytes 4 0"
    using a by (simp add: counting_fst_def)
  have "length bs = 36" "take 8 bs = le_bytes 8 3" "take 8 (drop 24 bs) = le_bytes 8 0" "take 8 (drop 16 bs) = le_bytes 8 (length b)"
    unfolding bs by simp_all
  with n have "fst_format bs (length kvs)" by (simp add: fst_format_def back_to)
  then show "fst_new counting_fst bs = Inr () \<and> fst_format bs (length kvs)" by (simp add: counting_fst_def)
qed

definition example_entries :: "(bytes \<times> term_info) list" where
  "example_entries =
     [([97, 58, 97, 98], (term_info_new 0 10 2 3)\<lparr>ti_block_max := [\<lparr>last_doc_id = 7, max_factor = 0x3F800000\<rparr>]\<rparr>),
      ([97, 58, 97, 99], term_info_new 10 30 5 9)]"

lemma varint_length: "length (encode_u64 v) \<le> 10"
  using length_encode_u64_bound [OF room_0, of v] by simp

lemma example_built: "\<exists>d. build_dictionary counting_fst example_entries = Some (Inr d) \<and> fits d"
proof -
  let ?es = example_entries
  let ?fi = "map (\<lambda>(_, info). fixed_of info) ?es" and ?bm = "map (\<lambda>(_, info). ti_block_max info) ?es" and ?t = "map fst ?es"
  obtain f where f: "encode_fixed ?fi = Some f" "length (fb_payload f) \<le> 36 * length ?fi"
    using decode_encoded [of ?fi] by (auto simp: example_entries_def BLOCK_TERM_COUNT_def)
  obtain b where b: "encode_block_max ?bm = Some b" "length (bm_data b) = 12"
    by (simp add: encode_block_max_def example_entries_def term_info_new_def u32_max_def)
  have offs: "length (bm_offsets b) = 3" using encoded_block_max(1) [OF b(1)] by (simp add: bmd_ok_def example_entries_def)
  let ?bs = "block_bytes ?t f b"
  have chunk: "encode_chunk [] ?es = Some ?bs"
    using f(1) b(1)
    by (simp add: encode_chunk_def encode_block_into_def Let_def write_varint_into_eq fold_offsets block_bytes_def
        example_entries_def BLOCK_TERM_COUNT_def)
  have terms: "length (encode_block_terms ?t) \<le> 40"
  proof -
    have "encode_block_terms ?t = encode_u64 4 @ [97, 58, 97, 98] @ encode_u64 3 @ encode_u64 1 @ [99]"
      by (simp add: example_entries_def encode_block_terms_Cons window_bytes_def Let_def shared_prefix_len_def)
    then show ?thesis using varint_length [of 4] varint_length [of 3] varint_length [of 1] by simp
  qed
  have map_length: "length (concat (map (\<lambda>off. le_bytes 4 (unat off)) offs)) = 4 * length offs" for offs :: "u32 list"
    by (induction offs) simp_all
  have "length (fb_payload f) \<le> 72" using f(2) by (simp add: example_entries_def)
  then have len: "length ?bs \<le> 1000"
    unfolding block_bytes_parts fixed_bytes_def length_append map_length length_le_bytes offs b(2)
    using terms varint_length [of "word_of_nat (length ?t)"] varint_length [of "word_of_nat (length (encode_block_terms ?t))"]
    by simp
  have chunks: "chunks_of BLOCK_TERM_COUNT ?es = [?es]" "?es \<noteq> []"
    by (simp_all add: chunks_of.simps BLOCK_TERM_COUNT_def example_entries_def)
  have "\<exists>bs'. length bs' = 36 \<and> build_dictionary counting_fst ?es =
      Some (Inr \<lparr>bd_fst = bs', bd_block_section = ?bs, bd_memory = build ?es, bd_block_count = 1\<rparr>)"
    using chunk chunks by (simp add: build_dictionary_def) (simp add: counting_fst_def)
  then show ?thesis using len by (auto simp: fits_def u32_max_def)
qed

lemma example_entries_ok:
  "sorted_wrt (<) (map fst example_entries)" "\<forall>e \<in> set example_entries. entry_ok e" "entries_in (Some 5) example_entries"
  by (simp_all add: example_entries_def entries_in_def entry_ok_def term_ok_def block_max_ok_def term_info_new_def
      f32_is_nan_def f32_negative_def)

lemma dictionary_file_roundtrip_witness:
  "\<exists>d s. build_dictionary counting_fst example_entries = Some (Inr d) \<and>
     sbind (write_to_storage d) (\<lambda>_. sw_close sum_crc) (struct_writer_new (length (dictionary_bytes d) + FOOTER_LEN)) = (Inr (), s) \<and>
     fst (read_from_storage counting_fst sum_crc (Some 5) (struct_reader_new (sw_content s) False)) = Some (Inr d) \<and>
     td_iter (bd_memory d) = example_entries"
proof -
  obtain d where d: "build_dictionary counting_fst example_entries = Some (Inr d)" "fits d"
    using example_built by blast
  with dictionary_file_roundtrip [OF example_entries_ok counting_behaves d order_refl, of sum_crc False]
  show ?thesis by blast
qed

text \<open>A file that is loaded.\<close>

lemma example_loaded: "\<exists>s d. fst (read_from_storage counting_fst sum_crc (Some 5) s) = Some (Inr d) \<and> td_iter (bd_memory d) = example_entries"
proof -
  obtain d where d: "build_dictionary counting_fst example_entries = Some (Inr d)" "fits d"
    using example_built by blast
  have load: "load_parts counting_fst (Some 5) (parts_of d) = Some (Inr d)" "bd_memory d = build example_entries"
    using load_built [OF example_entries_ok counting_behaves d] by simp_all
  then have "td_version (bd_memory d) = 3" by (simp add: build_def)
  from read_parts_back [OF d(2) this order_refl, of sum_crc False] obtain s :: struct_writer where
    "fst (read_parts sum_crc (struct_reader_new (sw_content s) False)) = Inr (parts_of d)" by blast
  with load(1) have "fst (read_from_storage counting_fst sum_crc (Some 5) (struct_reader_new (sw_content s) False)) = Some (Inr d)"
    by (auto simp: read_from_storage_def split: prod.splits)
  moreover have "td_iter (bd_memory d) = example_entries" using build_inv [OF example_entries_ok(1)] load(2) by simp
  ultimately show ?thesis by blast
qed

text \<open>
  C24. Whatever bytes a dictionary file holds, loading it returns a dictionary or an error and never
  panics; and a dictionary that it returns can be searched: its terms are UTF-8, distinct and in
  ascending order, none in more documents than the segment holds, and the block-max entries of each are
  in ascending order with factors that are numbers and not negative.
\<close>

theorem dictionary_load_sound:
  "(\<exists>e. fst (read_from_storage L crc max_docs s) = Some (Inl e)) \<or>
   (\<exists>d. fst (read_from_storage L crc max_docs s) = Some (Inr d) \<and> td_inv (bd_memory d) \<and>
      (\<forall>(t, info) \<in> set (td_iter (bd_memory d)). valid_utf8 t \<and> block_max_ok (ti_block_max info)) \<and>
      entries_in max_docs (td_iter (bd_memory d)))"
proof -
  have "no_panic (fst (read_from_storage L crc max_docs s))"
    by (auto simp: read_from_storage_def load_parts_total split: prod.split sum.split)
  then obtain r where r: "fst (read_from_storage L crc max_docs s) = Some r" by (auto simp: no_panic_def)
  show ?thesis
  proof (cases r)
    case (Inr d)
    then obtain p where "load_parts L max_docs p = Some (Inr d)"
      using r by (auto simp: read_from_storage_def split: prod.splits sum.splits)
    then obtain entries n where e: "section_entries (section_iter_new (dp_section p) (unat (dp_block_count p))) = Some entries"
      "populate_in_memory_layer entries n max_docs (unat (dp_version p)) = Inr (bd_memory d)"
      by (auto simp: load_parts_def pbind_Inr_iff Option.bind_eq_Some_conv)
    obtain m terms infos where pop: "populate max_docs entries 0 Map.empty [] [] = Inr (m, terms, infos)"
      and d: "length terms = n" "bd_memory d = \<lparr>td_map = m, td_sorted_terms = terms, td_term_infos = infos,
        td_total_term_count = n, td_version = unat (dp_version p)\<rparr>"
      using e(2) by (auto simp: populate_in_memory_layer_def rbind_Inr_iff split: if_splits)
    from populate_ok [OF pop] obtain xs where xs: "sorted_wrt (<) terms" "length infos = length terms"
      "m = map_of (zip terms [0..<length terms])" "entries = map Inr xs" "terms = map fst xs" "infos = map snd xs"
      "\<forall>k. max_docs = Some k \<longrightarrow> (\<forall>(t, info) \<in> set xs. ti_doc_frequency info \<le> k \<and> 58 \<in> set t)" by auto
    have inv: "td_inv (bd_memory d)" using xs(1-3) d by (simp add: td_inv_def)
    have iter: "td_iter (bd_memory d) = xs" using d(2) xs(5,6) by (simp add: td_iter_def zip_map_fst_snd)
    have "valid_utf8 t \<and> block_max_ok (ti_block_max info)" if "(t, info) \<in> set xs" for t info
      using section_entries_sound [OF e(1)] that unfolding xs(4) by (fastforce simp: sound_entry_def)
    with r Inr inv xs(7) iter show ?thesis by (intro disjI2 exI [of _ d]) (auto simp: entries_in_def)
  qed (use r in auto)
qed

lemma dictionary_load_sound_witness:
  "(\<exists>s d. fst (read_from_storage counting_fst sum_crc (Some 5) s) = Some (Inr d) \<and> td_inv (bd_memory d) \<and>
      td_iter (bd_memory d) = example_entries \<and> entries_in (Some 5) (td_iter (bd_memory d))) \<and>
   (\<exists>e. fst (read_from_storage counting_fst sum_crc (Some 5) (struct_reader_new [1, 2, 3] False)) = Some (Inl e))"
proof -
  obtain s d where sd: "fst (read_from_storage counting_fst sum_crc (Some 5) s) = Some (Inr d)" "td_iter (bd_memory d) = example_entries"
    using example_loaded by blast
  with dictionary_load_sound [of counting_fst sum_crc "Some 5" s]
  have "td_inv (bd_memory d)" "entries_in (Some 5) (td_iter (bd_memory d))" by auto
  moreover have "\<exists>e. fst (read_from_storage counting_fst sum_crc (Some 5) (struct_reader_new [1, 2, 3] False)) = Some (Inl e)"
    by (simp add: read_from_storage_def read_parts_def read_dictionary_fields_def sbind_def sr_read_u32_def read_fixed_def
        read_exact_def struct_reader_new_def)
  ultimately show ?thesis using sd by blast
qed

end
