(* ===== verification/Spec2Isabelle.thy ===== *)
theory Spec2Isabelle
  imports Varint Applied_Seqs Doc_Store Log_Guarantees Lexical_Store Boolean_Query Struct_File
    Segment_View Dict_File
begin

text \<open>
  Laurus is a search library in Rust. A document is put under an external id; the engine gives it an
  internal id, appends it to a write-ahead log, keeps its fields in a segmented document store and
  applies it to a lexical index, an inverted index in segments. A commit makes the indexes durable
  and truncates the log; opening an engine replays what the log still holds above the checkpoint of
  the index. A query is a tree of clauses: each clause gives a matcher over the posting lists of the
  segments, the matchers are combined, and collectors keep the best hits. This development models
  that path from the bytes of the log to the hits of a query. Paths below are under
  \<^verbatim>\<open>src/laurus/src/\<close>.

  \<^bold>\<open>Shared vocabulary.\<close> \<open>Prelude\<close> holds machine bytes, the error type of \<^verbatim>\<open>error.rs\<close>, fallible results as
  sums with the error on the left, little-endian integers and the list and map lemmas that the
  components share. \<open>Data\<close> has the documents and values of \<^verbatim>\<open>data.rs\<close>; a floating-point number is the
  word that stores it. \<open>Varint\<close> has \<^verbatim>\<open>util/varint.rs\<close> and \<^verbatim>\<open>util/id.rs\<close>: what is encoded is decoded, in
  both routines that decode.

  \<^bold>\<open>Durability.\<close>
  \<^item> \<open>Applied_Seqs\<close>, \<^verbatim>\<open>engine/applied_seqs.rs\<close>: the record \<open>applied\<close> is the tracker's state, a watermark
    and the finished sequence numbers above it. Under any order of \<open>finish\<close> and \<open>raise_to\<close> the
    watermark is the end of the contiguous finished prefix.
  \<^item> \<open>Wal_Format\<close>, \<open>Doc_Log\<close>, \<open>Log_Recovery\<close>, \<open>Log_Guarantees\<close>, \<^verbatim>\<open>store/log.rs\<close>. \<open>Wal_Format\<close> has the records,
    the header, the four versions of the file and the loop that reads frames. \<open>Doc_Log\<close> has the
    operations over the record \<open>doc_log\<close>: open, read, upgrade, append under each sync policy, flush,
    truncate, with each call of the storage failing as a fault says. A \<open>wal_file\<close> keeps the bytes that
    were synced and those that were not, and \<open>survivors\<close> is every content a crash may leave.
    \<open>Log_Recovery\<close> relates files to records (\<open>log_holds\<close>) and proves what each operation does to that
    relation. \<open>Log_Guarantees\<close> states the contract: a reopen recovers the records that the file holds,
    an acknowledged append survives every crash, a failed one is either absent or the last record,
    the group policy loses less than a batch, a truncation keeps the later records, and cases in
    which the log does not keep its promise.
  \<^item> \<open>Doc_Store\<close>, \<^verbatim>\<open>store/document.rs\<close>: pending documents, segments, manifest and the cache of entries.
    A segment file holds the JSON bytes of its documents. The abstract view \<open>ds_view\<close> is the map from
    ids to what the newest bytes decode to; a lookup returns it or the error of decoding, a commit
    preserves it, and what it wrote is what a reopen serves, for documents that JSON carries.
    \<open>commit_of_unreadable_document\<close> is what happens with one it does not.
  \<^item> \<open>Replay\<close> says what applying records to a map means. \<open>Index_Contract\<close> is the interface
    \<open>checkpointed_index\<close>: what the engine needs of an index for a replay above its checkpoint to give
    the replay of the whole history. \<open>Lexical_Store\<close> (\<^verbatim>\<open>lexical/store.rs\<close>, with the parts of
    \<^verbatim>\<open>lexical/index/inverted/writer.rs\<close> and \<^verbatim>\<open>segment_manifest.rs\<close> that writes, deletions and commits
    reach) interprets it on its own operations, for every crash state of a commit.

  \<^bold>\<open>Files.\<close> \<open>Struct_Writer\<close>, \<open>Struct_Reader\<close>, \<open>Struct_File\<close>, \<^verbatim>\<open>storage/structured.rs\<close> and \<^verbatim>\<open>alloc_bounds.rs\<close>: the
  typed fields, the bounds on lengths that are read, the footer with its checksum, and the blocks. A
  file of fields is read back field by field, and \<open>damaged_file_detected\<close> says which damage is told. \<open>Posting_Lists\<close> and \<open>Posting_Codec\<close>, \<^verbatim>\<open>lexical/index/inverted/core/posting.rs\<close>:
  lists in memory, the index of a segment under construction, the three formats on disk, their
  encoder and decoder. What an encoder wrote is decoded to the list; what a decoder accepts of
  arbitrary bytes can be searched.

  \<^bold>\<open>Matching.\<close>
  \<^item> \<open>Posting_Iterator\<close>: the skip table of a list and the search through it; a skip agrees with a scan.
  \<^item> \<open>Matchers\<close>, \<open>Boolean_Matchers\<close>, \<^verbatim>\<open>lexical/query/matcher.rs\<close>. The trait is the record \<open>vtable\<close> of its
    methods; the locale \<open>matcher\<close> states the laws of the methods over the set of documents that a
    state still has to return, the locale \<open>posting_cursor\<close> those of posting iterators. Each matcher of
    the file is interpreted over the matchers it is made of.
  \<^item> \<open>Merged_Postings\<close>, \<^verbatim>\<open>lexical/index/inverted/reader.rs\<close>: the postings of a term in several segments as
    one stream, scanned up to eight segments and in a heap above.
  \<^item> \<open>Boolean_Query\<close>, \<^verbatim>\<open>lexical/query/boolean.rs\<close> and the parallel evaluation of
    \<^verbatim>\<open>lexical/index/inverted/searcher.rs\<close>: the matcher of a query from those of its clauses, emptiness,
    rewriting, and the evaluation that collects clauses into bitmaps. The locale \<open>clause_source\<close>
    is what a query relies on of its clauses. \<open>documented_docs\<close> is what the fields of a query are
    documented to ask for, counting optional clauses; the code takes a positive minimum for one, so
    the theorems about answers are stated for the minimums where the two agree (\<open>minimum_plain\<close>).

  \<^bold>\<open>Readers.\<close>
  \<^item> \<open>Deleted_Docs\<close> (\<^verbatim>\<open>deleted_docs.rs\<close>) and \<open>Segment_Members\<close> (\<open>Membership\<close> of \<^verbatim>\<open>reader.rs\<close>): the bitset
    of deletions, what a segment holds, live counts and live ids of a segment and of an index.
  \<^item> \<open>Caches\<close> (\<^verbatim>\<open>posting_cache.rs\<close>, \<^verbatim>\<open>query_cache.rs\<close>): both caches over the operations of the LRU
    map they call, with the eviction loop and the budget.
  \<^item> \<open>Term_Dictionary\<close> (\<^verbatim>\<open>lexical/index/structures/dictionary.rs\<close>): the sorted terms of a segment with
    lookups, prefix and range scans, and the layer rebuilt from the entries of a file.
  \<^item> \<open>Term_Info_Block\<close>, \<open>Front_Coding\<close>, \<open>Dict_Blocks\<close>, \<open>Dict_Section\<close>, \<open>Dict_File\<close> (the files of
    \<^verbatim>\<open>lexical/index/structures/dictionary/\<close>): the dictionary on disk. Counts and offsets are packed in
    as few bits as the largest delta of a block needs, terms are front-coded, and a block is parsed
    with a check on every length. Here a panic of the source is the value \<open>None\<close>: loading any bytes
    returns or fails but does not panic, and a written dictionary is loaded as it was built.
  \<^item> \<open>Segment_Postings\<close>, \<open>Index_Reader\<close> (\<^verbatim>\<open>reader.rs\<close>): the postings of a term with the checks that keep a
    damaged file from answering, the deletions taken out, the cache in front; the merged postings of
    an index; the documents of a query, drained into a bitmap and cached by generation.
    \<open>reader_ops\<close> is an open index as a query sees it, through both caches. A cache does not change an
    answer for fields without the character \<open>U+0001\<close> that joins the two parts of its keys; the
    theorems have this as a hypothesis.
  \<^item> \<open>Collectors\<close> (\<^verbatim>\<open>lexical/query/collector.rs\<close>) and \<open>Segment_View\<close> (\<^verbatim>\<open>searcher.rs\<close>): the best hits by
    score, the search of an index segment by segment and the merge of what the segments found, where
    it is exact and where it is not.

  \<^bold>\<open>Interfaces.\<close> A locale stands wherever a component relies on another: \<open>checkpointed_index\<close> (engine and
  index), \<open>posting_cursor\<close> (matchers and iterators), \<open>matcher\<close> (combined matchers and their parts),
  \<open>clause_source\<close> (queries and readers). Each is interpreted on definitions of the model: the lexical
  store, the plain and the merged and the boxed iterator, every matcher of the file, and the open
  index of \<open>Index_Reader\<close>.

  \<^bold>\<open>Parameters.\<close> Code outside the repository is an argument of the definitions that use it. The record
  \<open>codec\<close> has the serialisers of log records and the checksum, with \<open>codec_ok\<close> for "what is serialised is
  read back"; the record \<open>json_codec\<close> has the serialiser of stored documents, of which nothing is
  assumed in general (a number that is not finite is written as null and not read back):
  \<open>json_carries\<close> and \<open>versions_decode\<close> say of given documents that they come back; the record \<open>bitpacker\<close> has the block packing of posting lists, with "packing fills the
  announced bytes, and unpacking returns the numbers"; the LRU map has \<open>lru_behaves\<close>, which the list
  \<open>list_lru\<close> satisfies; the text of a query in a cache key has \<open>dbg_ok\<close>; the
  record \<open>fst_lib\<close> has the map that indexes the blocks of a dictionary, with \<open>fst_behaves\<close> for its format. Scores are floating-point numbers
  and are kept abstract: a collector works over any linear order, the parallel evaluation over the
  operations that it calls. The scan of stored documents that stands in for a missing postings part
  is a parameter of a segment. Faults of the operating system are values that the operations take.

  \<^bold>\<open>Integers, loops, fuel.\<close> An integer is kept at its width where the code's arithmetic can overflow
  (words, or bounds as hypotheses that the code checks or that its caller grants). Loops are
  structural recursion or \<open>function\<close> with a measure; the loops of the conjunction, the exclusion, the
  negation, the merge, the eviction and the draining of a matcher are \<open>partial_function (option)\<close>, and
  their lemmas prove that they return. The fuel of \<open>matched_docs\<close>, which lists what a matcher
  returns, is enough from the number of its documents on, which its lemma states.

  \<^bold>\<open>Limits of the models.\<close> The read of a header is a fault of its own (\<open>header_faults\<close>), since the code
  takes its failure for an older file; what the log is proved to keep (\<open>log_holds\<close>) has as a condition that it
  succeeds, and \<open>header_read_error_empties_wal\<close> is what happens otherwise. The flush of a log writer that is dropped
  is taken to succeed. The watermark of \<open>applied\<close> and the ordinals of a dictionary are unbounded
  numbers, as no run counts to the width of the code's. The views of \<open>Segment_View\<close> answer without
  caches, and its search is the body of the loop over segments, without the rewriting before it and
  the batches and block-max pruning inside. Messages of errors are shortened where they carry values.

  \<^bold>\<open>Not modelled.\<close> Concurrency beyond explicit outcomes: locks, the flush timer, the commit gate and
  the engine's own bookkeeping of batches; the merge of segments and the background merge; doc
  values, field statistics and the inverted index file; scoring, block-max pruning, deadlines and
  facets; the parsers, which a grammar generates; text analysis, which dictionaries of other packages
  carry out; geometry and vectors, which are floating-point; the embedders, servers, command line and
  bindings, which are calls of other systems. The storage back ends are calls of the operating
  system, whose outcomes the models take as parameters.
\<close>

end
